(* ===== verification/BC_Prelude.thy ===== *)
theory BC_Prelude
  imports Complex_Main "HOL-Library.Product_Lexorder" "HOL-Library.Multiset"
begin

section \<open>Prelude: tables, clocks and shared lemmas\<close>

text \<open>
  What every component shares. The program keeps its state in SQLite tables
  (bananachat/db/__init__.py); a table is modelled as the list of its rows in
  rowid order, and a SQL statement as one of the operations below: \<open>tbl_update\<close>
  (UPDATE .. WHERE), \<open>tbl_delete\<close> (DELETE .. WHERE), \<open>tbl_count\<close> (SELECT COUNT),
  \<open>tbl_one\<close> (the first row that matches) and \<open>min_row\<close> (ORDER BY .. LIMIT 1).
  A column that may be NULL has an option type; a comparison with NULL is false,
  as in SQL.

  A block under \<open>db.transaction()\<close> (BEGIN IMMEDIATE: one writer at a time) is one
  function from the tables to an error or the new tables: when the block raises,
  the transaction rolls back, so the error carries no tables.

  Two clocks: \<open>epoch\<close> is a \<open>time.time()\<close> reading (a float, read as an exact
  rational), \<open>stamp\<close> is a stored timestamp (\<open>db.now()\<close>, the UTC text
  \<open>YYYY-MM-DD HH:MM:SS\<close>), whose order as text is the order of time, read as whole
  seconds.
\<close>

type_synonym epoch = rat
type_synonym stamp = int

named_theorems tbl_simps \<open>equations of the table operations\<close>

subsection \<open>Rows that match a condition\<close>

definition tbl_update :: "('r \<Rightarrow> bool) \<Rightarrow> ('r \<Rightarrow> 'r) \<Rightarrow> 'r list \<Rightarrow> 'r list" where
  "tbl_update p f t = map (\<lambda>r. if p r then f r else r) t"

definition tbl_delete :: "('r \<Rightarrow> bool) \<Rightarrow> 'r list \<Rightarrow> 'r list" where
  "tbl_delete p t = filter (\<lambda>r. \<not> p r) t"

definition tbl_count :: "('r \<Rightarrow> bool) \<Rightarrow> 'r list \<Rightarrow> nat" where
  "tbl_count p t = length (filter p t)"

definition tbl_one :: "('r \<Rightarrow> bool) \<Rightarrow> 'r list \<Rightarrow> 'r option" where
  "tbl_one p t = List.find p t"

definition min_row :: "('r \<Rightarrow> 'k::linorder) \<Rightarrow> 'r list \<Rightarrow> 'r option" where
  "min_row key t = (case t of [] \<Rightarrow> None | _ # _ \<Rightarrow> Some (arg_min_list key t))"

text \<open>A Python value used as a condition: \<open>None\<close> and the empty string are false.\<close>

fun truthy :: "string option \<Rightarrow> bool" where
  "truthy None = False"
| "truthy (Some s) = (s \<noteq> [])"

definition is_digit :: "char \<Rightarrow> bool" where
  "is_digit c \<longleftrightarrow> 48 \<le> (of_char c :: nat) \<and> (of_char c :: nat) \<le> 57"

definition ascii_lower :: "string \<Rightarrow> string" where
  "ascii_lower s = map (\<lambda>c. if 65 \<le> (of_char c :: nat) \<and> (of_char c :: nat) \<le> 90 then char_of ((of_char c :: nat) + 32) else c) s"

text \<open>\<open>str.strip\<close>: the ASCII white space and the four information separators.\<close>

definition is_space :: "char \<Rightarrow> bool" where
  "is_space c \<longleftrightarrow> (of_char c :: nat) \<in> {9, 10, 11, 12, 13, 28, 29, 30, 31, 32}"

definition strip :: "string \<Rightarrow> string" where
  "strip s = rev (dropWhile is_space (rev (dropWhile is_space s)))"

lemma tbl_update_Nil [tbl_simps]: "tbl_update p f [] = []"
  by (simp add: tbl_update_def)

lemma tbl_update_Cons [tbl_simps]:
  "tbl_update p f (r # t) = (if p r then f r else r) # tbl_update p f t"
  by (simp add: tbl_update_def)

lemma tbl_update_append [tbl_simps]:
  "tbl_update p f (s @ t) = tbl_update p f s @ tbl_update p f t"
  by (simp add: tbl_update_def)

lemma tbl_delete_Nil [tbl_simps]: "tbl_delete p [] = []"
  by (simp add: tbl_delete_def)

lemma tbl_delete_Cons [tbl_simps]:
  "tbl_delete p (r # t) = (if p r then tbl_delete p t else r # tbl_delete p t)"
  by (simp add: tbl_delete_def)

lemma tbl_count_Nil [tbl_simps]: "tbl_count p [] = 0"
  by (simp add: tbl_count_def)

lemma tbl_count_Cons [tbl_simps]: "tbl_count p (r # t) = of_bool (p r) + tbl_count p t"
  by (simp add: tbl_count_def)

lemma tbl_count_append [tbl_simps]: "tbl_count p (s @ t) = tbl_count p s + tbl_count p t"
  by (simp add: tbl_count_def)

lemma tbl_one_Nil [tbl_simps]: "tbl_one p [] = None"
  by (simp add: tbl_one_def)

lemma tbl_one_Cons [tbl_simps]: "tbl_one p (r # t) = (if p r then Some r else tbl_one p t)"
  by (simp add: tbl_one_def)

lemma set_tbl_update: "set (tbl_update p f t) = (\<lambda>r. if p r then f r else r) ` set t"
  by (simp add: tbl_update_def)

lemma tbl_update_hit: "r \<in> set t \<Longrightarrow> p r \<Longrightarrow> f r \<in> set (tbl_update p f t)"
  unfolding set_tbl_update by (rule image_eqI [of _ _ r]) simp_all

lemma set_map_filter: "set (List.map_filter f xs) = {y. \<exists>x \<in> set xs. f x = Some y}"
  by (induction xs) (auto simp: List.map_filter_simps split: option.splits)

lemma tbl_update_memE:
  assumes "r \<in> set (tbl_update p f t)"
  obtains (hit) s where "s \<in> set t" "p s" "r = f s" | (miss) "r \<in> set t" "\<not> p r"
  using assms unfolding set_tbl_update by (auto split: if_splits)

lemma tbl_update_twice:
  "(\<And>r. p r \<Longrightarrow> p (f r)) \<Longrightarrow> tbl_update p g (tbl_update p f t) = tbl_update p (\<lambda>r. g (f r)) t"
  by (simp add: tbl_update_def)

lemma tbl_one_delete: "tbl_one p (tbl_delete q t) = tbl_one (\<lambda>r. p r \<and> \<not> q r) t"
  by (induction t) (auto simp: tbl_simps)

lemma tbl_one_append:
  "tbl_one p (s @ t) = (case tbl_one p s of None \<Rightarrow> tbl_one p t | Some r \<Rightarrow> Some r)"
  by (induction s) (auto simp: tbl_simps)

lemma tbl_one_delete_key:
  "tbl_one (\<lambda>r. k r = i) (tbl_delete (\<lambda>r. k r = j) t) = (if i = j then None else tbl_one (\<lambda>r. k r = i) t)"
  by (induction t) (auto simp: tbl_simps)

lemma tbl_one_update_key:
  assumes "\<And>r. k (f r) = k r"
  shows "tbl_one (\<lambda>r. k r = i) (tbl_update (\<lambda>r. k r = j) f t) =
    (if i = j then map_option f (tbl_one (\<lambda>r. k r = i) t) else tbl_one (\<lambda>r. k r = i) t)"
  by (induction t) (auto simp: tbl_simps assms)

lemma set_tbl_delete [simp]: "set (tbl_delete p t) = {r \<in> set t. \<not> p r}"
  by (auto simp: tbl_delete_def)

lemma length_tbl_update [simp]: "length (tbl_update p f t) = length t"
  by (simp add: tbl_update_def)

lemma tbl_update_none [simp]: "(\<And>r. r \<in> set t \<Longrightarrow> \<not> p r) \<Longrightarrow> tbl_update p f t = t"
  by (induction t) (auto simp: tbl_simps)

lemma tbl_delete_none [simp]: "(\<And>r. r \<in> set t \<Longrightarrow> \<not> p r) \<Longrightarrow> tbl_delete p t = t"
  by (induction t) (auto simp: tbl_simps)

lemma tbl_count_mono:
  "(\<And>r. r \<in> set t \<Longrightarrow> p r \<Longrightarrow> q r) \<Longrightarrow> tbl_count p t \<le> tbl_count q t"
  by (induction t) (auto simp: tbl_simps)

lemma tbl_count_cong:
  "(\<And>r. r \<in> set t \<Longrightarrow> p r = q r) \<Longrightarrow> tbl_count p t = tbl_count q t"
  by (induction t) (auto simp: tbl_simps)

lemma tbl_count_delete_le: "tbl_count p (tbl_delete q t) \<le> tbl_count p t"
  by (induction t) (auto simp: tbl_simps)

lemma tbl_count_delete:
  "tbl_count p (tbl_delete q t) = tbl_count (\<lambda>r. p r \<and> \<not> q r) t"
  by (induction t) (auto simp: tbl_simps)

lemma tbl_count_update_mono:
  "(\<And>r. r \<in> set t \<Longrightarrow> q r \<Longrightarrow> p (f r) \<Longrightarrow> p r) \<Longrightarrow>
    tbl_count p (tbl_update q f t) \<le> tbl_count p t"
  by (induction t) (auto simp: tbl_simps)

lemma tbl_count_update_le:
  "tbl_count p (tbl_update q f t) \<le> tbl_count p t + tbl_count q t"
  by (induction t) (auto simp: tbl_simps)

lemma tbl_count_update_imp:
  "(\<And>r. r \<in> set t \<Longrightarrow> p (if q r then f r else r) \<Longrightarrow> p' r) \<Longrightarrow>
    tbl_count p (tbl_update q f t) \<le> tbl_count p' t"
proof (induction t)
  case (Cons r t)
  have "tbl_count p (tbl_update q f t) \<le> tbl_count p' t"
    by (rule Cons.IH) (simp add: Cons.prems)
  moreover have "p (if q r then f r else r) \<Longrightarrow> p' r" by (rule Cons.prems) auto
  ultimately show ?case by (auto simp: tbl_simps)
qed (simp add: tbl_simps)

lemma tbl_count_update_same:
  "(\<And>r. r \<in> set t \<Longrightarrow> q r \<Longrightarrow> p (f r) = p r) \<Longrightarrow> tbl_count p (tbl_update q f t) = tbl_count p t"
  by (induction t) (auto simp: tbl_simps)

text \<open>An UPDATE loses at most the rows it takes out of the condition.\<close>

lemma tbl_count_update_loss:
  "tbl_count p t \<le> tbl_count p (tbl_update q f t) + tbl_count (\<lambda>r. q r \<and> p r \<and> \<not> p (f r)) t"
  by (induction t) (auto simp: tbl_simps)

lemma tbl_count_delete_loss:
  "tbl_count p t \<le> tbl_count p (tbl_delete q t) + tbl_count (\<lambda>r. q r \<and> p r) t"
  by (induction t) (auto simp: tbl_simps)

lemma tbl_count_le_length: "tbl_count p t \<le> length t"
  by (simp add: tbl_count_def)

lemma tbl_count_0_iff: "tbl_count p t = 0 \<longleftrightarrow> (\<forall>r \<in> set t. \<not> p r)"
  by (simp add: tbl_count_def filter_empty_conv)

lemma tbl_one_SomeD: "tbl_one p t = Some r \<Longrightarrow> r \<in> set t \<and> p r"
  by (induction t) (auto simp: tbl_simps split: if_splits)

lemma tbl_one_None_iff: "tbl_one p t = None \<longleftrightarrow> (\<forall>r \<in> set t. \<not> p r)"
  by (induction t) (auto simp: tbl_simps)

lemma tbl_one_not_None: "r \<in> set t \<Longrightarrow> p r \<Longrightarrow> \<exists>s. tbl_one p t = Some s"
  by (induction t) (auto simp: tbl_simps)

subsection \<open>Unique keys\<close>

text \<open>
  A key that is distinct over the rows (a PRIMARY KEY or UNIQUE column): at most one
  row matches it, and UPDATE or DELETE by that key touches at most that row.
\<close>

lemma distinct_key_eq:
  "distinct (map k t) \<Longrightarrow> r \<in> set t \<Longrightarrow> s \<in> set t \<Longrightarrow> k r = k s \<Longrightarrow> r = s"
  by (auto simp: distinct_map inj_on_def)

lemma distinct_key_update:
  "(\<And>r. r \<in> set t \<Longrightarrow> k (f r) = k r) \<Longrightarrow> map k (tbl_update p f t) = map k t"
  by (induction t) (auto simp: tbl_simps)

lemma distinct_key_delete: "distinct (map k t) \<Longrightarrow> distinct (map k (tbl_delete p t))"
  by (induction t) (auto simp: tbl_simps)

text \<open>Renaming the one row with a key keeps the key unique when the new key is free.\<close>

lemma distinct_key_rename:
  assumes "distinct (map k t)" and "\<And>r. k (g r) = y" and "\<forall>r \<in> set t. k r \<noteq> x \<longrightarrow> k r \<noteq> y"
  shows "distinct (map k (tbl_update (\<lambda>r. k r = x) g t))"
  using assms(1,3)
proof (induction t)
  case (Cons r t)
  have "k r \<notin> k ` set (tbl_update (\<lambda>r. k r = x) g t)" if "k r \<noteq> x"
    using Cons.prems that by (auto simp: set_tbl_update assms(2))
  moreover have "y \<notin> k ` set (tbl_update (\<lambda>r. k r = x) g t)" if "k r = x"
  proof -
    have "x \<notin> k ` set t" using Cons.prems(1) that by simp
    with Cons.prems(2) have "\<forall>s \<in> set t. k s \<noteq> x \<and> k s \<noteq> y" by (metis imageI list.set_intros(2))
    then show ?thesis by (auto simp: set_tbl_update)
  qed
  ultimately show ?case using Cons by (auto simp: tbl_simps assms(2))
qed (simp add: tbl_simps)

lemma tbl_one_unique:
  assumes "distinct (map k t)" and "r \<in> set t"
  shows "tbl_one (\<lambda>s. k s = k r) t = Some r"
proof -
  obtain s where s: "tbl_one (\<lambda>s. k s = k r) t = Some s"
    using tbl_one_not_None [of r t "\<lambda>s. k s = k r"] assms(2) by blast
  have "s \<in> set t" and "k s = k r" using tbl_one_SomeD [OF s] by auto
  with distinct_key_eq [OF assms(1) _ assms(2)] have "s = r" by blast
  with s show ?thesis by simp
qed

lemma tbl_count_unique:
  "distinct (map k t) \<Longrightarrow> tbl_count (\<lambda>r. k r = x) t \<le> 1"
proof (induction t)
  case Nil
  then show ?case by (simp add: tbl_simps)
next
  case (Cons r t)
  show ?case
  proof (cases "k r = x")
    case True
    with Cons.prems have "\<forall>s \<in> set t. k s \<noteq> x"
      by (metis distinct.simps(2) image_eqI list.simps(9) list.set_map)
    then have "tbl_count (\<lambda>r. k r = x) t = 0" by (simp add: tbl_count_0_iff)
    then show ?thesis by (simp add: tbl_simps True)
  next
    case False
    with Cons show ?thesis by (simp add: tbl_simps)
  qed
qed

subsection \<open>The first row in an order\<close>

lemma min_row_None_iff [simp]: "min_row key t = None \<longleftrightarrow> t = []"
  by (simp add: min_row_def split: list.splits)

lemma min_row_SomeD:
  assumes "min_row key t = Some r"
  shows "r \<in> set t" and "\<And>s. s \<in> set t \<Longrightarrow> key r \<le> key s"
proof -
  from assms have t: "t \<noteq> []" and r: "r = arg_min_list key t"
    by (auto simp: min_row_def split: list.splits)
  then show "r \<in> set t" by (simp add: arg_min_list_in)
  fix s assume "s \<in> set t"
  then have "Min (key ` set t) \<le> key s" by simp
  with t r show "key r \<le> key s" by (simp add: f_arg_min_list_f)
qed

lemma min_row_eqI:
  assumes "r \<in> set t" and "\<And>s. s \<in> set t \<Longrightarrow> s \<noteq> r \<Longrightarrow> key r < key s"
  shows "min_row key t = Some r"
proof -
  obtain m where m: "min_row key t = Some m"
    using assms(1) by (cases "min_row key t") auto
  from m have "m \<in> set t" by (rule min_row_SomeD)
  moreover from m assms(1) have "key m \<le> key r" by (rule min_row_SomeD)
  ultimately have "m = r" using assms(2) by fastforce
  with m show ?thesis by simp
qed

subsection \<open>Sorting\<close>

lemma sort_key_snoc_max:
  assumes "\<And>y. y \<in> set xs \<Longrightarrow> f y \<le> f x"
  shows "sort_key f (xs @ [x]) = sort_key f xs @ [x]"
proof (rule properties_for_sort_key)
  show "mset (sort_key f xs @ [x]) = mset (xs @ [x])" by simp
  show "filter (\<lambda>y. f k = f y) (sort_key f xs @ [x]) = filter (\<lambda>y. f k = f y) (xs @ [x])" for k
    using sort_key_stable [of f "f k" xs] by (simp add: eq_commute)
  show "sorted (map f (sort_key f xs @ [x]))" using assms by (auto simp: sorted_append)
qed

lemma strict_sorted_key_unique:
  fixes g :: "'a \<Rightarrow> nat"
  assumes "inj_on g (set xs)" "sorted_wrt (<) (map g xs)" "sorted_wrt (<) (map g ys)" "set xs = set ys"
  shows "xs = ys"
proof -
  have "map g xs = map g ys"
    using assms(2-4) by (intro sorted_distinct_set_unique) (simp_all add: strict_sorted_iff image_set [symmetric])
  with assms(1,4) show ?thesis by (simp add: inj_on_map_eq_map)
qed

end
