(* ===== verification/Inference_Queue.thy ===== *)
theory Inference_Queue
  imports BC_Prelude "HOL-Library.Multiset"
begin

section \<open>Admission control for inference (bananachat/services/queue.py)\<close>

text \<open>
  The table \<open>inference_queue\<close> holds one row per waiting or running request, in one
  of two lanes. \<open>slot_enter\<close>, \<open>try_start\<close>, \<open>slot_release\<close>, \<open>slot_move\<close> and
  \<open>slot_set_model\<close> are the methods of \<open>Slot\<close>; \<open>positions\<close> is its waiting loop;
  \<open>release_process\<close>, \<open>expire_process\<close>, \<open>queue_stats\<close> and \<open>priority_for\<close> are the
  module's functions. A \<open>qproc\<close> is what one process keeps in memory (\<open>_held\<close> and
  the slots registered with the supervisor).

  Every reading of the clock or of the machine's free memory is an argument, in the
  order the code reads them. The unique index \<open>idx_inference_owner_running\<close>
  (bananachat/db/migrations/history.py) is checked where a row starts running: a
  second running row of one owner key raises \<open>IntegrityError\<close>.
\<close>

subsection \<open>Data\<close>

datatype lane = Local_Lane | Hosted_Lane

fun lane_of_string :: "string \<Rightarrow> lane option" where
  "lane_of_string s =
     (if s = ''local'' then Some Local_Lane
      else if s = ''hosted'' then Some Hosted_Lane else None)"

datatype iq_status = Waiting | Running

record iq_row =
  seq :: nat
  req_id :: string
  priority :: int
  status :: iq_status
  owner_pid :: int
  enqueued_at :: epoch
  started_at :: "epoch option"
  heartbeat_at :: epoch
  owner_key :: "string option"
  model_name :: "string option"
  row_lane :: lane

record qdb =
  iq_rows :: "iq_row list"
  iq_next :: nat

record qproc =
  held :: "string list"
  registered :: "string list"

record slot =
  s_priority :: int
  s_lane :: lane
  s_owner :: "string option"
  s_owner_key :: "string option"
  s_model :: "string option"
  s_request_id :: string
  s_running :: bool
  s_enqueued_at :: epoch
  s_started_at :: "epoch option"
  s_entered :: bool

record qconfig =
  max_concurrent :: int
  max_concurrent_hosted :: "int option"
  max_queue_depth :: int
  min_free_memory_mb :: int
  ollama_is_local :: bool

record model_row =
  ollama_name :: string
  backend :: string
  backend_model_name :: "string option"

datatype queue_error = QueueFull string | QueueTimeout string | Cancelled string | IntegrityError
  | ValueError string

definition LEASE_SECONDS :: epoch where "LEASE_SECONDS = 90"
definition MAX_PER_OWNER :: nat where "MAX_PER_OWNER = 3"
definition ORPHAN_GRACE_SECONDS :: epoch where "ORPHAN_GRACE_SECONDS = 15"

definition PRIORITY_ADMIN :: int where "PRIORITY_ADMIN = 0"
definition PRIORITY_FAST :: int where "PRIORITY_FAST = 1"
definition PRIORITY_API :: int where "PRIORITY_API = 2"
definition PRIORITY_CHAT :: int where "PRIORITY_CHAT = 3"
definition PRIORITY_SLOW :: int where "PRIORITY_SLOW = 4"

definition HOSTED_BACKENDS :: "string list" where
  "HOSTED_BACKENDS = [''external'', ''claude'', ''codex'']"

subsection \<open>Limits, lanes and memory\<close>

definition queue_limits :: "qconfig \<Rightarrow> lane \<Rightarrow> int \<times> int" where
  "queue_limits cfg l =
     (case l of
        Hosted_Lane \<Rightarrow> (case max_concurrent_hosted cfg of None \<Rightarrow> 16 | Some n \<Rightarrow> n, max_queue_depth cfg)
      | Local_Lane \<Rightarrow> (max_concurrent cfg, max_queue_depth cfg))"

text \<open>\<open>lane_for\<close>: the argument is the model's backend, None when there is no model or no such column.\<close>

definition lane_for :: "string option \<Rightarrow> lane" where
  "lane_for b = (if \<exists>x \<in> set HOSTED_BACKENDS. b = Some x then Hosted_Lane else Local_Lane)"

text \<open>\<open>_memory_ok\<close>: the available memory in bytes is None when psutil is not installed.\<close>

definition memory_ok :: "qconfig \<Rightarrow> int option \<Rightarrow> bool" where
  "memory_ok cfg available =
     (if min_free_memory_mb cfg = 0 \<or> \<not> ollama_is_local cfg then True
      else case available of None \<Rightarrow> True
           | Some bytes \<Rightarrow> min_free_memory_mb cfg * 1024 * 1024 \<le> bytes)"

definition hosted_model :: "string \<Rightarrow> model_row \<Rightarrow> bool" where
  "hosted_model name m \<longleftrightarrow>
     backend m \<in> set HOSTED_BACKENDS \<and>
     (ollama_name m = name \<or>
      (backend m \<in> {''claude'', ''codex''} \<and> backend_model_name m = Some name))"

definition model_memory_ok ::
  "qconfig \<Rightarrow> int option \<Rightarrow> model_row list \<Rightarrow> string option \<Rightarrow> bool" where
  "model_memory_ok cfg available models name =
     (if truthy name \<and> tbl_one (hosted_model (the name)) models \<noteq> None then True
      else memory_ok cfg available)"

subsection \<open>Entering and leaving the queue\<close>

definition hosted_owner_key :: "string option \<Rightarrow> lane \<Rightarrow> string option" where
  "hosted_owner_key owner l =
     (if truthy owner \<and> l = Hosted_Lane then Some (the owner @ '':hosted'') else owner)"

definition slot_init ::
  "int \<Rightarrow> string option \<Rightarrow> string option \<Rightarrow> string \<Rightarrow> string \<Rightarrow> epoch \<Rightarrow> queue_error + slot" where
  "slot_init prio owner model lane_name fresh_id now =
     (case lane_of_string lane_name of
        None \<Rightarrow> Inl (ValueError ''Unknown queue lane.'')
      | Some l \<Rightarrow> Inr \<lparr>s_priority = prio, s_lane = l, s_owner = owner,
          s_owner_key = hosted_owner_key owner l, s_model = model, s_request_id = fresh_id,
          s_running = False, s_enqueued_at = now, s_started_at = None, s_entered = False\<rparr>)"

definition waiting_row :: "slot \<Rightarrow> int \<Rightarrow> epoch \<Rightarrow> nat \<Rightarrow> iq_row" where
  "waiting_row s pid now n =
     \<lparr>seq = n, req_id = s_request_id s, priority = s_priority s, status = Waiting, owner_pid = pid,
      enqueued_at = now, started_at = None, heartbeat_at = now, owner_key = s_owner_key s,
      model_name = s_model s, row_lane = s_lane s\<rparr>"

text \<open>The transaction of \<open>__enter__\<close>: expired rows go, then the depth and the owner's share are checked.\<close>

definition enter_tx :: "qconfig \<Rightarrow> int \<Rightarrow> epoch \<Rightarrow> slot \<Rightarrow> qdb \<Rightarrow> queue_error + qdb" where
  "enter_tx cfg pid now s db =
     (let rows = tbl_delete (\<lambda>r. heartbeat_at r < now - LEASE_SECONDS) (iq_rows db) in
      if snd (queue_limits cfg (s_lane s)) \<le> int (tbl_count (\<lambda>r. row_lane r = s_lane s) rows)
      then Inl (QueueFull ''The service is busy. Please try again shortly.'')
      else if truthy (s_owner_key s) \<and>
              MAX_PER_OWNER \<le> tbl_count (\<lambda>r. owner_key r = s_owner_key s) rows
      then Inl (QueueFull ''You already have several requests in progress. Wait for them to finish.'')
      else if tbl_one (\<lambda>r. req_id r = s_request_id s) rows \<noteq> None then Inl IntegrityError
      else Inr (db\<lparr>iq_rows := rows @ [waiting_row s pid now (iq_next db)], iq_next := iq_next db + 1\<rparr>))"

definition slot_enter ::
  "qconfig \<Rightarrow> int \<Rightarrow> epoch \<Rightarrow> slot \<Rightarrow> qdb \<times> qproc \<Rightarrow> queue_error + (slot \<times> qdb \<times> qproc)" where
  "slot_enter cfg pid now s w =
     (case w of (db, pr) \<Rightarrow>
        case enter_tx cfg pid now s db of
          Inl e \<Rightarrow> Inl e
        | Inr db' \<Rightarrow> Inr (s\<lparr>s_entered := True\<rparr>, db',
            pr\<lparr>registered := List.insert (s_request_id s) (registered pr),
               held := List.insert (s_request_id s) (held pr)\<rparr>))"

text \<open>
  \<open>release\<close> and \<open>set_model\<close> swallow a failed statement (\<open>db_ok\<close> False: the row stays
  and its lease expires on its own).
\<close>

definition slot_release :: "bool \<Rightarrow> slot \<Rightarrow> qdb \<times> qproc \<Rightarrow> slot \<times> qdb \<times> qproc" where
  "slot_release db_ok s w =
     (case w of (db, pr) \<Rightarrow>
        if \<not> s_entered s then (s, db, pr)
        else (s\<lparr>s_entered := False\<rparr>,
              (if db_ok then db\<lparr>iq_rows := tbl_delete (\<lambda>r. req_id r = s_request_id s) (iq_rows db)\<rparr> else db),
              pr\<lparr>registered := removeAll (s_request_id s) (registered pr),
                 held := removeAll (s_request_id s) (held pr)\<rparr>))"

definition slot_set_model :: "bool \<Rightarrow> string option \<Rightarrow> slot \<Rightarrow> qdb \<Rightarrow> slot \<times> qdb" where
  "slot_set_model db_ok model s db =
     (if model = s_model s then (s, db)
      else (s\<lparr>s_model := model\<rparr>,
            if s_entered s \<and> db_ok
            then db\<lparr>iq_rows := tbl_update (\<lambda>r. req_id r = s_request_id s)
                     (\<lambda>r. r\<lparr>model_name := model\<rparr>) (iq_rows db)\<rparr>
            else db))"

definition slot_move ::
  "qconfig \<Rightarrow> int \<Rightarrow> bool \<Rightarrow> string \<Rightarrow> string option \<Rightarrow> string \<Rightarrow> epoch \<Rightarrow> epoch \<Rightarrow> slot \<Rightarrow> qdb \<times> qproc \<Rightarrow>
    (queue_error \<times> slot \<times> qdb \<times> qproc) + (slot \<times> qdb \<times> qproc)" where
  "slot_move cfg pid db_ok lane_name model fresh_id now1 now2 s w =
     (case lane_of_string lane_name of
        None \<Rightarrow> Inl (ValueError ''Unknown queue lane.'', s, w)
      | Some l \<Rightarrow>
          (case slot_release db_ok s w of (s1, w1) \<Rightarrow>
             let s2 = s1\<lparr>s_lane := l, s_owner_key := hosted_owner_key (s_owner s1) l, s_model := model,
                         s_request_id := fresh_id, s_running := False, s_enqueued_at := now1,
                         s_started_at := None\<rparr> in
             case slot_enter cfg pid now2 s2 w1 of
               Inl e \<Rightarrow> Inl (e, s2, w1)
             | Inr r \<Rightarrow> Inr r))"

subsection \<open>Starting\<close>

definition position :: "epoch \<Rightarrow> slot \<Rightarrow> qdb \<Rightarrow> nat" where
  "position now s db =
     (case tbl_one (\<lambda>r. req_id r = s_request_id s) (iq_rows db) of
        None \<Rightarrow> 0
      | Some row \<Rightarrow>
          if status row = Running then 0
          else tbl_count (\<lambda>r. status r = Waiting \<and> now - LEASE_SECONDS \<le> heartbeat_at r \<and>
                 row_lane r = s_lane s \<and>
                 (priority r < priority row \<or> (priority r = priority row \<and> seq r \<le> seq row)))
               (iq_rows db))"

definition running_count :: "epoch \<Rightarrow> lane \<Rightarrow> iq_row list \<Rightarrow> nat" where
  "running_count cutoff l rows =
     tbl_count (\<lambda>r. status r = Running \<and> cutoff \<le> heartbeat_at r \<and> row_lane r = l) rows"

definition eligible :: "qconfig \<Rightarrow> int option \<Rightarrow> model_row list \<Rightarrow> epoch \<Rightarrow> lane \<Rightarrow> iq_row list \<Rightarrow> iq_row \<Rightarrow> bool" where
  "eligible cfg available models cutoff l rows w \<longleftrightarrow>
     status w = Waiting \<and> cutoff \<le> heartbeat_at w \<and> row_lane w = l \<and>
     (owner_key w = None \<or>
      \<not> (\<exists>r \<in> set rows. status r = Running \<and> owner_key r = owner_key w \<and>
                        cutoff \<le> heartbeat_at r \<and> row_lane r = row_lane w)) \<and>
     (l = Local_Lane \<and> \<not> memory_ok cfg available \<longrightarrow>
      (\<exists>m \<in> set models. backend m \<in> set HOSTED_BACKENDS \<and>
         (model_name w = Some (ollama_name m) \<or>
          (backend m \<in> {''claude'', ''codex''} \<and> model_name w \<noteq> None \<and>
           backend_model_name m = model_name w))))"

definition next_row :: "qconfig \<Rightarrow> int option \<Rightarrow> model_row list \<Rightarrow> epoch \<Rightarrow> lane \<Rightarrow> iq_row list \<Rightarrow> iq_row option" where
  "next_row cfg available models cutoff l rows =
     min_row (\<lambda>w. (priority w, seq w)) (filter (eligible cfg available models cutoff l rows) rows)"

definition is_next :: "qconfig \<Rightarrow> int option \<Rightarrow> model_row list \<Rightarrow> epoch \<Rightarrow> slot \<Rightarrow> qdb \<Rightarrow> bool" where
  "is_next cfg available models cutoff s db =
     (case next_row cfg available models cutoff (s_lane s) (iq_rows db) of
        None \<Rightarrow> False
      | Some first \<Rightarrow> req_id first = s_request_id s)"

text \<open>The keys the unique index on running owner keys holds.\<close>

definition running_keys :: "iq_row list \<Rightarrow> string list" where
  "running_keys rows =
     map (\<lambda>r. the (owner_key r)) (filter (\<lambda>r. status r = Running \<and> owner_key r \<noteq> None) rows)"

definition mark_running :: "epoch \<Rightarrow> epoch \<Rightarrow> iq_row \<Rightarrow> iq_row" where
  "mark_running t_started t_beat r =
     r\<lparr>status := Running, started_at := Some t_started, heartbeat_at := t_beat\<rparr>"

text \<open>
  \<open>_try_start\<close> reads the clock (the cutoff), the running count and the next row once
  without a lock, and again inside a transaction that marks the row as running;
  \<open>start_tx\<close> is that transaction.
\<close>

definition start_tx ::
  "qconfig \<Rightarrow> int option \<Rightarrow> model_row list \<Rightarrow> epoch \<Rightarrow> epoch \<Rightarrow> epoch \<Rightarrow> slot \<Rightarrow> qdb \<Rightarrow>
    queue_error + (bool \<times> qdb)" where
  "start_tx cfg available models cutoff t_started t_beat s db =
     (if fst (queue_limits cfg (s_lane s)) \<le> int (running_count cutoff (s_lane s) (iq_rows db)) \<or>
         \<not> is_next cfg available models cutoff s db
      then Inr (False, db)
      else let hit = (\<lambda>r. req_id r = s_request_id s \<and> status r = Waiting);
               rows = tbl_update hit (mark_running t_started t_beat) (iq_rows db) in
           if distinct (running_keys rows)
           then Inr (tbl_count hit (iq_rows db) = 1, db\<lparr>iq_rows := rows\<rparr>)
           else Inl IntegrityError)"

record probe =
  p_now :: epoch
  p_memory :: "int option"
  p_memory_model :: "int option"
  p_memory_tx :: "int option"
  p_started :: epoch
  p_beat :: epoch

definition try_start ::
  "qconfig \<Rightarrow> probe \<Rightarrow> model_row list \<Rightarrow> slot \<Rightarrow> qdb \<Rightarrow> queue_error + (bool \<times> qdb)" where
  "try_start cfg p models s db =
     (let cutoff = p_now p - LEASE_SECONDS in
      if fst (queue_limits cfg (s_lane s)) \<le> int (running_count cutoff (s_lane s) (iq_rows db))
      then Inr (False, db)
      else if \<not> is_next cfg (p_memory p) models cutoff s db \<or>
              (s_lane s = Local_Lane \<and> \<not> model_memory_ok cfg (p_memory_model p) models (s_model s))
      then Inr (False, db)
      else start_tx cfg (p_memory_tx p) models cutoff (p_started p) (p_beat p) s db)"

subsection \<open>The waiting loop\<close>

text \<open>
  One turn of the loop of \<open>positions\<close> as its environment sees it: the cancellation
  reason when the token is cancelled, what other processes did to the table before
  this turn, and the clock and memory readings.
\<close>

record turn =
  i_env :: "qdb \<Rightarrow> qdb"
  i_cancel :: "string option"
  i_models :: "model_row list"
  i_probe :: probe
  i_started :: epoch
  i_position :: epoch
  i_monotonic :: epoch

text \<open>
  One turn ends the loop (with what it yields, the exception or the admitted slot,
  and the tables) or waits, having reported a position.
\<close>

datatype turn_end = Ended "nat list" "queue_error + slot" qdb | Waits "nat list" nat qdb

definition one_turn ::
  "qconfig \<Rightarrow> epoch \<Rightarrow> nat option \<Rightarrow> slot \<Rightarrow> qdb \<Rightarrow> turn \<Rightarrow> turn_end" where
  "one_turn cfg deadline reported s db i =
     (case i_cancel i of
        Some reason \<Rightarrow> Ended [] (Inl (Cancelled reason)) db
      | None \<Rightarrow>
          (case try_start cfg (i_probe i) (i_models i) s db of
             Inl e \<Rightarrow> Ended [] (Inl e) db
           | Inr (started, db') \<Rightarrow>
               if started
               then Ended (if reported = None \<or> reported = Some 0 then [] else [0])
                      (Inr (s\<lparr>s_running := True, s_started_at := Some (i_started i)\<rparr>)) db'
               else if tbl_one (\<lambda>r. req_id r = s_request_id s) (iq_rows db') = None
               then Ended [] (Inl (QueueTimeout ''The request lost its place in the queue.'')) db'
               else let p = position (i_position i) s db';
                        ys = (if Some p = reported then [] else [p]) in
                    if deadline \<le> i_monotonic i
                    then Ended ys (Inl (QueueTimeout
                      ''The request waited too long for a free slot. Please try again.'')) db'
                    else Waits ys p db'))"

text \<open>
  The numbers the loop yields, and how it ended: None while it still waits after the
  given turns.
\<close>

fun positions ::
  "qconfig \<Rightarrow> epoch \<Rightarrow> nat option \<Rightarrow> slot \<Rightarrow> qdb \<Rightarrow> turn list \<Rightarrow>
    nat list \<times> ((queue_error + slot) \<times> qdb) option" where
  "positions cfg deadline reported s db [] = ([], None)"
| "positions cfg deadline reported s db (i # turns) =
     (case one_turn cfg deadline reported s (i_env i db) i of
        Ended ys r db' \<Rightarrow> (ys, Some (r, db'))
      | Waits ys p db' \<Rightarrow>
          (case positions cfg deadline (Some p) s db' turns of (zs, r) \<Rightarrow> (ys @ zs, r)))"

subsection \<open>Processes, statistics and priorities\<close>

text \<open>The supervisor's renewal of the registered slots (bananachat/services/supervisor.py, \<open>_loop\<close>).\<close>

definition renew_slots :: "epoch \<Rightarrow> string list \<Rightarrow> qdb \<Rightarrow> qdb" where
  "renew_slots now ids db =
     db\<lparr>iq_rows := tbl_update (\<lambda>r. req_id r \<in> set ids) (\<lambda>r. r\<lparr>heartbeat_at := now\<rparr>) (iq_rows db)\<rparr>"

text \<open>
  A failed DELETE raises (\<open>db_ok\<close> False), with the process's memory already cleared and
  the rows left to expire.
\<close>

definition release_process :: "bool \<Rightarrow> qdb \<times> qproc \<Rightarrow> (unit + nat) \<times> qdb \<times> qproc" where
  "release_process db_ok w =
     (case w of (db, pr) \<Rightarrow>
        let ids = held pr;
            pr' = pr\<lparr>held := [], registered := filter (\<lambda>x. x \<notin> set ids) (registered pr)\<rparr> in
        if db_ok
        then (Inr (length ids), db\<lparr>iq_rows := tbl_delete (\<lambda>r. req_id r \<in> set ids) (iq_rows db)\<rparr>, pr')
        else (Inl (), db, pr'))"

definition expire_process :: "epoch \<Rightarrow> int \<Rightarrow> qdb \<Rightarrow> nat \<times> qdb" where
  "expire_process now pid db =
     (let stamp = now - LEASE_SECONDS + ORPHAN_GRACE_SECONDS;
          hit = (\<lambda>r. owner_pid r = pid \<and> stamp < heartbeat_at r) in
      (tbl_count hit (iq_rows db),
       db\<lparr>iq_rows := tbl_update hit (\<lambda>r. r\<lparr>heartbeat_at := stamp\<rparr>) (iq_rows db)\<rparr>))"

record queue_stats =
  st_running :: nat
  st_waiting :: nat
  st_max_concurrent :: int
  st_max_depth :: int

definition stats :: "qconfig \<Rightarrow> epoch \<Rightarrow> qdb \<Rightarrow> queue_stats" where
  "stats cfg now db =
     (let cutoff = now - LEASE_SECONDS;
          counts = (\<lambda>st. tbl_count (\<lambda>r. cutoff \<le> heartbeat_at r \<and> status r = st) (iq_rows db)) in
      \<lparr>st_running = counts Running, st_waiting = counts Waiting,
       st_max_concurrent = fst (queue_limits cfg Local_Lane),
       st_max_depth = snd (queue_limits cfg Local_Lane)\<rparr>)"

text \<open>
  \<open>priority_for\<close>: the user is None or (role, speed), the speed as
  \<open>bananachat.db.limits.speed_of\<close> returns it.
\<close>

definition priority_for :: "(string \<times> string) option \<Rightarrow> bool \<Rightarrow> int" where
  "priority_for user api =
     (case user of
        Some (role, speed) \<Rightarrow>
          if role = ''admin'' then PRIORITY_ADMIN
          else if speed = ''slow'' then PRIORITY_SLOW
          else if speed = ''fast'' then PRIORITY_FAST
          else if api then PRIORITY_API else PRIORITY_CHAT
      | None \<Rightarrow> if api then PRIORITY_API else PRIORITY_CHAT)"

subsection \<open>What the processes do together\<close>

text \<open>
  Any number of processes act on the table, each transaction or statement whole, at
  a time \<open>now\<close> that never goes back. A process may have read its clock earlier
  (\<open>t \<le> now\<close>): the transaction waits for the write lock. Renewals are those the
  supervisor makes in time: a row it renews has not expired.
\<close>

inductive qstep :: "qconfig \<Rightarrow> epoch \<times> qdb \<Rightarrow> epoch \<times> qdb \<Rightarrow> bool" for cfg where
  tick: "now \<le> now' \<Longrightarrow> qstep cfg (now, db) (now', db)"
| enter: "t \<le> now \<Longrightarrow> enter_tx cfg pid t s db = Inr db' \<Longrightarrow> qstep cfg (now, db) (now, db')"
| start: "t \<le> now \<Longrightarrow>
    start_tx cfg mem models (t - LEASE_SECONDS) t_started t_beat s db = Inr (b, db') \<Longrightarrow>
    qstep cfg (now, db) (now, db')"
| release: "qstep cfg (now, db)
    (now, db\<lparr>iq_rows := tbl_delete (\<lambda>r. req_id r \<in> set ids) (iq_rows db)\<rparr>)"
| set_model: "qstep cfg (now, db)
    (now, db\<lparr>iq_rows := tbl_update (\<lambda>r. req_id r = i) (\<lambda>r. r\<lparr>model_name := m\<rparr>) (iq_rows db)\<rparr>)"
| renew: "t \<le> now \<Longrightarrow>
    (\<And>r. r \<in> set (iq_rows db) \<Longrightarrow> req_id r \<in> set ids \<Longrightarrow> now - LEASE_SECONDS \<le> heartbeat_at r) \<Longrightarrow>
    qstep cfg (now, db) (now, renew_slots t ids db)"
| expire: "qstep cfg (now, db) (now, snd (expire_process t pid db))"

inductive qreach :: "qconfig \<Rightarrow> epoch \<times> qdb \<Rightarrow> bool" for cfg where
  qstart: "qreach cfg (now, \<lparr>iq_rows = [], iq_next = 1\<rparr>)"
| qmore: "qreach cfg w \<Longrightarrow> qstep cfg w w' \<Longrightarrow> qreach cfg w'"

inductive_cases qstepE: "qstep cfg (now, db) (now', db')"

subsection \<open>The invariant of the table\<close>

definition queue_wf :: "qconfig \<Rightarrow> qdb \<Rightarrow> bool" where
  "queue_wf cfg db \<longleftrightarrow>
     distinct (map req_id (iq_rows db)) \<and>
     sorted_wrt (<) (map seq (iq_rows db)) \<and> (\<forall>r \<in> set (iq_rows db). seq r < iq_next db) \<and>
     distinct (running_keys (iq_rows db)) \<and>
     (\<forall>k. k \<noteq> [] \<longrightarrow> tbl_count (\<lambda>r. owner_key r = Some k) (iq_rows db) \<le> MAX_PER_OWNER) \<and>
     (\<forall>l. int (tbl_count (\<lambda>r. row_lane r = l) (iq_rows db)) \<le> max 0 (snd (queue_limits cfg l)))"

lemma queue_wf_empty: "queue_wf cfg \<lparr>iq_rows = [], iq_next = n\<rparr>"
  by (simp add: queue_wf_def running_keys_def tbl_simps)

lemma running_keys_delete:
  "distinct (running_keys rows) \<Longrightarrow> distinct (running_keys (tbl_delete p rows))"
proof -
  have "running_keys (tbl_delete p rows) = map (\<lambda>r. the (owner_key r))
      (filter (\<lambda>r. \<not> p r) (filter (\<lambda>r. status r = Running \<and> owner_key r \<noteq> None) rows))"
    by (simp add: running_keys_def tbl_delete_def conj_commute)
  then show "distinct (running_keys rows) \<Longrightarrow> ?thesis"
    by (simp add: running_keys_def distinct_map_filter del: filter_filter)
qed

lemma running_keys_same:
  "(\<And>r. status (f r) = status r) \<Longrightarrow> (\<And>r. owner_key (f r) = owner_key r) \<Longrightarrow>
    running_keys (tbl_update p f rows) = running_keys rows"
  by (induction rows) (auto simp: running_keys_def tbl_simps)

lemma running_keys_snoc_waiting:
  "status r = Waiting \<Longrightarrow> running_keys (rows @ [r]) = running_keys rows"
  by (simp add: running_keys_def)

lemma sorted_wrt_delete:
  "sorted_wrt (<) (map (seq :: iq_row \<Rightarrow> nat) rows) \<Longrightarrow> sorted_wrt (<) (map seq (tbl_delete p rows))"
  by (induction rows) (auto simp: tbl_simps)

lemma queue_wf_delete:
  assumes "queue_wf cfg db"
  shows "queue_wf cfg (db\<lparr>iq_rows := tbl_delete p (iq_rows db)\<rparr>)"
proof -
  let ?d = "tbl_delete p (iq_rows db)"
  have "tbl_count (\<lambda>r. owner_key r = Some k) ?d \<le> MAX_PER_OWNER" if "k \<noteq> []" for k
    using tbl_count_delete_le [of "\<lambda>r. owner_key r = Some k" p "iq_rows db"] assms that
    by (auto simp: queue_wf_def intro: le_trans)
  moreover have "int (tbl_count (\<lambda>r. row_lane r = l) ?d) \<le> max 0 (snd (queue_limits cfg l))" for l
  proof -
    have "int (tbl_count (\<lambda>r. row_lane r = l) (iq_rows db)) \<le> max 0 (snd (queue_limits cfg l))"
      using assms by (simp add: queue_wf_def)
    then show ?thesis
      using tbl_count_delete_le [of "\<lambda>r. row_lane r = l" p "iq_rows db"] by linarith
  qed
  ultimately show ?thesis using assms
    by (simp add: queue_wf_def distinct_key_delete running_keys_delete sorted_wrt_delete)
qed

lemma queue_wf_keys: "queue_wf cfg db \<Longrightarrow> distinct (running_keys (iq_rows db))"
  by (simp add: queue_wf_def)

lemma queue_wf_update:
  assumes "queue_wf cfg db"
    and "\<And>r. req_id (f r) = req_id r" "\<And>r. seq (f r) = seq r"
    and "\<And>r. owner_key (f r) = owner_key r" "\<And>r. row_lane (f r) = row_lane r"
    and "distinct (running_keys (tbl_update p f (iq_rows db)))"
  shows "queue_wf cfg (db\<lparr>iq_rows := tbl_update p f (iq_rows db)\<rparr>)"
proof -
  have owners: "tbl_count (\<lambda>r. owner_key r = k) (tbl_update p f rows) = tbl_count (\<lambda>r. owner_key r = k) rows"
    for k rows by (induction rows) (auto simp: tbl_simps assms)
  have lanes: "tbl_count (\<lambda>r. row_lane r = l) (tbl_update p f rows) = tbl_count (\<lambda>r. row_lane r = l) rows"
    for l rows by (induction rows) (auto simp: tbl_simps assms)
  show ?thesis using assms
    by (auto simp: queue_wf_def owners lanes distinct_key_update set_tbl_update)
qed

lemma queue_wf_enter:
  assumes wf: "queue_wf cfg db" and ok: "enter_tx cfg pid t s db = Inr db'"
  shows "queue_wf cfg db'"
proof -
  define rows where "rows = tbl_delete (\<lambda>r. heartbeat_at r < t - LEASE_SECONDS) (iq_rows db)"
  let ?new = "waiting_row s pid t (iq_next db)"
  from ok have depth: "int (tbl_count (\<lambda>r. row_lane r = s_lane s) rows) < snd (queue_limits cfg (s_lane s))"
    and owner: "truthy (s_owner_key s) \<Longrightarrow> tbl_count (\<lambda>r. owner_key r = s_owner_key s) rows < MAX_PER_OWNER"
    and fresh: "\<forall>r \<in> set rows. req_id r \<noteq> s_request_id s"
    and db': "db' = db\<lparr>iq_rows := rows @ [?new], iq_next := iq_next db + 1\<rparr>"
    by (auto simp: enter_tx_def Let_def rows_def tbl_one_None_iff split: if_splits)
  from queue_wf_delete [OF wf] have wf': "queue_wf cfg (db\<lparr>iq_rows := rows\<rparr>)"
    by (simp add: rows_def)
  have "distinct (map req_id (rows @ [?new]))"
    using wf' fresh by (auto simp: queue_wf_def waiting_row_def)
  moreover have "sorted_wrt (<) (map seq (rows @ [?new]))"
    using wf' by (auto simp: queue_wf_def waiting_row_def sorted_wrt_append)
  moreover have "\<forall>r \<in> set (rows @ [?new]). seq r < iq_next db + 1"
    using wf' by (auto simp: queue_wf_def waiting_row_def less_Suc_eq)
  moreover have "distinct (running_keys (rows @ [?new]))"
    using wf' by (simp add: queue_wf_def running_keys_snoc_waiting waiting_row_def)
  moreover have "k \<noteq> [] \<Longrightarrow> tbl_count (\<lambda>r. owner_key r = Some k) (rows @ [?new]) \<le> MAX_PER_OWNER" for k
    using wf' owner by (cases "s_owner_key s = Some k") (auto simp: queue_wf_def tbl_simps waiting_row_def)
  moreover have "int (tbl_count (\<lambda>r. row_lane r = l) (rows @ [?new])) \<le> max 0 (snd (queue_limits cfg l))" for l
    using wf' depth by (cases "s_lane s = l") (auto simp: queue_wf_def tbl_simps waiting_row_def)
  ultimately show ?thesis by (simp add: queue_wf_def db')
qed

lemma queue_wf_start:
  assumes "queue_wf cfg db" and "start_tx cfg mem models cutoff t1 t2 s db = Inr (b, db')"
  shows "queue_wf cfg db'"
  using assms queue_wf_update [of cfg db "mark_running t1 t2" "\<lambda>r. req_id r = s_request_id s \<and> status r = Waiting"]
  by (auto simp: start_tx_def Let_def mark_running_def split: if_splits)

lemma qstep_wf:
  assumes "qstep cfg w w'" and "queue_wf cfg (snd w)"
  shows "queue_wf cfg (snd w')"
  using assms
proof (induction rule: qstep.induct)
  case (set_model now db i m)
  then show ?case
    by (auto intro!: queue_wf_update simp: running_keys_same queue_wf_keys)
next
  case (renew t now db ids)
  then show ?case
    by (auto simp: renew_slots_def running_keys_same queue_wf_keys intro!: queue_wf_update)
next
  case (expire now db t pid)
  then show ?case
    by (auto simp: expire_process_def Let_def running_keys_same queue_wf_keys intro!: queue_wf_update)
qed (auto intro: queue_wf_enter queue_wf_start queue_wf_delete)

lemma qreach_wf: "qreach cfg w \<Longrightarrow> queue_wf cfg (snd w)"
  by (induction rule: qreach.induct) (auto simp: queue_wf_empty qstep_wf)

subsection \<open>The cap on running requests\<close>

lemma running_count_delete:
  "running_count c l (tbl_delete p rows) \<le> running_count c l rows"
  by (simp add: running_count_def tbl_count_delete_le)

lemma running_count_antimono: "c \<le> c' \<Longrightarrow> running_count c' l rows \<le> running_count c l rows"
  unfolding running_count_def by (rule tbl_count_mono) auto

lemma hit_count_le_1:
  "queue_wf cfg db \<Longrightarrow> tbl_count (\<lambda>r. req_id r = i \<and> status r = st) (iq_rows db) \<le> 1"
  using tbl_count_unique [of req_id "iq_rows db" i]
    tbl_count_mono [of "iq_rows db" "\<lambda>r. req_id r = i \<and> status r = st" "\<lambda>r. req_id r = i"]
  by (fastforce simp: queue_wf_def)

lemma start_tx_cases:
  assumes "start_tx cfg mem models cutoff t1 t2 s db = Inr (b, db')"
  obtains (refused) "\<not> b" "db' = db"
  | (won) "int (running_count cutoff (s_lane s) (iq_rows db)) < fst (queue_limits cfg (s_lane s))"
      "is_next cfg mem models cutoff s db"
      "b \<longleftrightarrow> tbl_count (\<lambda>r. req_id r = s_request_id s \<and> status r = Waiting) (iq_rows db) = 1"
      "db' = db\<lparr>iq_rows := tbl_update (\<lambda>r. req_id r = s_request_id s \<and> status r = Waiting)
         (mark_running t1 t2) (iq_rows db)\<rparr>"
      "distinct (running_keys (iq_rows db'))"
  using assms by (fastforce simp: start_tx_def Let_def split: if_splits)

lemma next_rowD:
  assumes "next_row cfg mem models cutoff l rows = Some w"
  shows "w \<in> set rows" and "eligible cfg mem models cutoff l rows w"
    and "\<And>r. r \<in> set rows \<Longrightarrow> eligible cfg mem models cutoff l rows r \<Longrightarrow>
          (priority w, seq w) \<le> (priority r, seq r)"
  using min_row_SomeD [OF assms [unfolded next_row_def]] by auto

lemma eligibleD:
  assumes "eligible cfg mem models cutoff l rows w"
  shows "status w = Waiting" and "cutoff \<le> heartbeat_at w" and "row_lane w = l"
  using assms by (simp_all add: eligible_def)

lemma is_nextE:
  assumes "is_next cfg mem models cutoff s db"
  obtains w where "w \<in> set (iq_rows db)" and "req_id w = s_request_id s"
    and "eligible cfg mem models cutoff (s_lane s) (iq_rows db) w"
    and "\<And>r. r \<in> set (iq_rows db) \<Longrightarrow> eligible cfg mem models cutoff (s_lane s) (iq_rows db) r \<Longrightarrow>
          (priority w, seq w) \<le> (priority r, seq r)"
  using assms next_rowD by (auto simp: is_next_def split: option.splits) metis

lemma running_count_start:
  assumes wf: "queue_wf cfg db" and ok: "start_tx cfg mem models cutoff t1 t2 s db = Inr (b, db')"
    and "cutoff \<le> c"
  shows "running_count c l (iq_rows db') \<le> running_count c l (iq_rows db) \<or>
    int (running_count c l (iq_rows db')) \<le> fst (queue_limits cfg l)"
  using ok
proof (cases rule: start_tx_cases)
  case refused
  then show ?thesis by simp
next
  case won
  let ?hit = "\<lambda>r. req_id r = s_request_id s \<and> status r = Waiting"
  show ?thesis
  proof (cases "l = s_lane s")
    case True
    have "running_count c l (iq_rows db') \<le> running_count c l (iq_rows db) + tbl_count ?hit (iq_rows db)"
      by (simp add: running_count_def won(4) tbl_count_update_le)
    also have "\<dots> \<le> running_count cutoff l (iq_rows db) + 1"
      using hit_count_le_1 [OF wf] running_count_antimono [OF \<open>cutoff \<le> c\<close>] by (intro add_mono)
    finally show ?thesis using won(1) True by simp
  next
    case False
    obtain w where w: "w \<in> set (iq_rows db)" "req_id w = s_request_id s" "row_lane w = s_lane s"
      by (rule is_nextE [OF won(2)]) (blast dest: eligibleD)
    have "row_lane r = s_lane s" if "r \<in> set (iq_rows db)" "req_id r = s_request_id s" for r
      using distinct_key_eq [of req_id "iq_rows db" r w] that w wf by (simp add: queue_wf_def)
    then have "running_count c l (iq_rows db') \<le> running_count c l (iq_rows db)"
      unfolding running_count_def won(4) using False
      by (auto intro!: tbl_count_update_mono simp: mark_running_def)
    then show ?thesis ..
  qed
qed

lemma running_count_update:
  assumes "\<And>r. r \<in> set rows \<Longrightarrow> p r \<Longrightarrow> c \<le> heartbeat_at (f r) \<Longrightarrow> c \<le> heartbeat_at r"
    and "\<And>r. status (f r) = status r" "\<And>r. row_lane (f r) = row_lane r"
  shows "running_count c l (tbl_update p f rows) \<le> running_count c l rows"
  unfolding running_count_def using assms by (auto intro!: tbl_count_update_mono)

definition within_cap :: "qconfig \<Rightarrow> epoch \<Rightarrow> qdb \<Rightarrow> bool" where
  "within_cap cfg now db \<longleftrightarrow>
     (\<forall>l. int (running_count (now - LEASE_SECONDS) l (iq_rows db)) \<le> max 0 (fst (queue_limits cfg l)))"

lemma within_capI:
  assumes "within_cap cfg now db" and "now \<le> now'"
    and "\<And>l. running_count (now' - LEASE_SECONDS) l (iq_rows db') \<le>
              running_count (now' - LEASE_SECONDS) l (iq_rows db) \<or>
            int (running_count (now' - LEASE_SECONDS) l (iq_rows db')) \<le> fst (queue_limits cfg l)"
  shows "within_cap cfg now' db'"
  unfolding within_cap_def
proof
  fix l
  have "running_count (now' - LEASE_SECONDS) l (iq_rows db) \<le> running_count (now - LEASE_SECONDS) l (iq_rows db)"
    using assms(2) by (intro running_count_antimono) simp
  moreover have "int (running_count (now - LEASE_SECONDS) l (iq_rows db)) \<le> max 0 (fst (queue_limits cfg l))"
    using assms(1) by (simp add: within_cap_def)
  ultimately show "int (running_count (now' - LEASE_SECONDS) l (iq_rows db')) \<le> max 0 (fst (queue_limits cfg l))"
    using assms(3) [of l] by linarith
qed

lemma enter_rows:
  assumes "enter_tx cfg pid t s db = Inr db'"
  shows "iq_rows db' = tbl_delete (\<lambda>r. heartbeat_at r < t - LEASE_SECONDS) (iq_rows db) @
           [waiting_row s pid t (iq_next db)]"
    and "iq_next db' = iq_next db + 1"
  using assms by (auto simp: enter_tx_def Let_def split: if_splits)

lemma qstep_within_cap:
  assumes "qstep cfg w w'" and "queue_wf cfg (snd w)" and "within_cap cfg (fst w) (snd w)"
  shows "within_cap cfg (fst w') (snd w')"
  using assms
proof (induction rule: qstep.induct)
  case (tick now now' db)
  then show ?case by (auto intro: within_capI)
next
  case (enter t now pid s db db')
  have "running_count c l (iq_rows db') \<le> running_count c l (iq_rows db)" for c l
    using running_count_delete enter_rows [OF enter(2)]
    by (simp add: running_count_def tbl_simps waiting_row_def)
  with enter show ?case by (auto intro: within_capI)
next
  case (start t now mem models t1 t2 s db b db')
  then have wf: "queue_wf cfg db" and cap: "within_cap cfg now db"
    and le: "t - LEASE_SECONDS \<le> now - LEASE_SECONDS" by auto
  show ?case
    using within_capI [OF cap order.refl running_count_start [OF wf start(2) le]] by simp
next
  case (release now db ids)
  then show ?case by (auto intro!: within_capI [of cfg now db] disjI1 running_count_delete)
next
  case (set_model now db i m)
  then show ?case by (auto intro!: within_capI [of cfg now db] disjI1 running_count_update)
next
  case (renew t now db ids)
  then show ?case
    by (auto intro!: within_capI [of cfg now db] disjI1 running_count_update simp: renew_slots_def)
next
  case (expire now db t pid)
  then show ?case
    by (auto intro!: within_capI [of cfg now db] disjI1 running_count_update simp: expire_process_def Let_def)
qed

lemma qreach_within_cap: "qreach cfg w \<Longrightarrow> within_cap cfg (fst w) (snd w)"
proof (induction rule: qreach.induct)
  case (qstart now)
  show ?case by (simp add: within_cap_def running_count_def tbl_simps)
next
  case (qmore w w')
  then show ?case using qstep_within_cap qreach_wf by blast
qed

subsection \<open>First come, first served within a priority\<close>

text \<open>
  The abstract queue of a lane is the list of its waiting requests with their
  priorities; a request joins it behind every request of its priority or a better one.
\<close>

definition waiting_line :: "lane \<Rightarrow> iq_row list \<Rightarrow> (int \<times> string) list" where
  "waiting_line l rows =
     map (\<lambda>r. (priority r, req_id r))
       (sort_key (\<lambda>r. (priority r, seq r)) (filter (\<lambda>r. status r = Waiting \<and> row_lane r = l) rows))"

fun join_line :: "int \<Rightarrow> string \<Rightarrow> (int \<times> string) list \<Rightarrow> (int \<times> string) list" where
  "join_line p i [] = [(p, i)]"
| "join_line p i ((q, j) # line) =
     (if q \<le> p then (q, j) # join_line p i line else (p, i) # (q, j) # line)"

fun join_row :: "iq_row \<Rightarrow> iq_row list \<Rightarrow> iq_row list" where
  "join_row r [] = [r]"
| "join_row r (x # xs) = (if priority x \<le> priority r then x # join_row r xs else r # x # xs)"

lemma mset_join_row [simp]: "mset (join_row r xs) = add_mset r (mset xs)"
  by (induction xs) auto

lemma set_join_row [simp]: "set (join_row r xs) = insert r (set xs)"
  by (induction xs) auto

lemma join_row_line:
  "map (\<lambda>r. (priority r, req_id r)) (join_row r xs) =
    join_line (priority r) (req_id r) (map (\<lambda>r. (priority r, req_id r)) xs)"
  by (induction xs) auto

lemma sorted_join_row:
  "sorted (map (\<lambda>r. (priority r, seq r)) xs) \<Longrightarrow> (\<And>x. x \<in> set xs \<Longrightarrow> seq x < seq r) \<Longrightarrow>
    sorted (map (\<lambda>r. (priority r, seq r)) (join_row r xs))"
  by (induction xs) (auto simp: less_eq_prod_def le_less)

lemma sort_rows_snoc:
  assumes "sorted_wrt (<) (map seq (rows @ [r]))"
  shows "sort_key (\<lambda>r. (priority r, seq r)) (rows @ [r]) =
    join_row r (sort_key (\<lambda>r. (priority r, seq r)) rows)"
proof (rule sort_key_inj_key_eq)
  have "distinct (map seq (rows @ [r]))" using assms by (simp only: strict_sorted_iff)
  then have inj: "inj_on seq (set (rows @ [r]))" by (simp only: distinct_map)
  show "inj_on (\<lambda>r. (priority r, seq r)) (set (rows @ [r]))"
    by (rule inj_onI) (use inj in \<open>blast dest: inj_onD\<close>)
  show "sorted (map (\<lambda>r. (priority r, seq r)) (join_row r (sort_key (\<lambda>r. (priority r, seq r)) rows)))"
    using assms by (intro sorted_join_row) (auto simp: sorted_wrt_append)
qed simp

lemma sorted_wrt_filter_seq:
  "sorted_wrt (<) (map seq rows) \<Longrightarrow> sorted_wrt (<) (map (seq :: iq_row \<Rightarrow> nat) (filter p rows))"
  by (induction rows) auto

lemma waiting_line_snoc:
  assumes "sorted_wrt (<) (map seq (rows @ [r]))" and "status r = Waiting"
  shows "waiting_line l (rows @ [r]) =
    (if row_lane r = l then join_line (priority r) (req_id r) (waiting_line l rows) else waiting_line l rows)"
proof (cases "row_lane r = l")
  case True
  let ?p = "\<lambda>r. status r = Waiting \<and> row_lane r = l"
  have f: "filter ?p (rows @ [r]) = filter ?p rows @ [r]" using True assms(2) by simp
  have "sorted_wrt (<) (map seq (filter ?p rows @ [r]))"
    using sorted_wrt_filter_seq [OF assms(1), of ?p] f by simp
  then show ?thesis
    using True by (simp only: waiting_line_def f sort_rows_snoc join_row_line) simp
qed (simp add: waiting_line_def)

lemma filter_tbl_update_out:
  "(\<And>r. p r \<Longrightarrow> \<not> q (f r)) \<Longrightarrow> filter q (tbl_update p f rows) = filter (\<lambda>r. \<not> p r) (filter q rows)"
  by (induction rows) (auto simp: tbl_simps)

lemma sort_key_filter: "sort_key f (filter p xs) = filter p (sort_key f xs)"
  by (induction xs) (auto simp: filter_insort filter_insort_triv)

lemma waiting_line_start:
  assumes "distinct (map req_id rows)" and "w \<in> set rows" "req_id w = i" "status w = Waiting"
  shows "waiting_line l (tbl_update (\<lambda>r. req_id r = i \<and> status r = Waiting) (mark_running t1 t2) rows) =
    filter (\<lambda>(p, j). j \<noteq> i) (waiting_line l rows)"
proof -
  let ?w = "\<lambda>r. status r = Waiting \<and> row_lane r = l"
  have "filter ?w (tbl_update (\<lambda>r. req_id r = i \<and> status r = Waiting) (mark_running t1 t2) rows) =
      filter (\<lambda>r. \<not> (req_id r = i \<and> status r = Waiting)) (filter ?w rows)"
    by (rule filter_tbl_update_out) (auto simp: mark_running_def)
  also have "\<dots> = filter (\<lambda>r. req_id r \<noteq> i) (filter ?w rows)"
    by (rule filter_cong) auto
  finally show ?thesis
    by (simp add: waiting_line_def sort_key_filter filter_map comp_def del: filter_filter)
qed

lemma waiting_line_delete:
  "waiting_line l (tbl_delete (\<lambda>r. req_id r \<in> set ids) rows) =
    filter (\<lambda>(p, j). j \<notin> set ids) (waiting_line l rows)"
proof -
  let ?w = "\<lambda>r. status r = Waiting \<and> row_lane r = l"
  have "filter ?w (tbl_delete (\<lambda>r. req_id r \<in> set ids) rows) =
      filter (\<lambda>r. req_id r \<notin> set ids) (filter ?w rows)"
    by (induction rows) (auto simp: tbl_simps)
  then show ?thesis
    by (simp add: waiting_line_def sort_key_filter filter_map comp_def del: filter_filter)
qed

subsection \<open>The loop\<close>

lemma start_tx_True:
  assumes "start_tx cfg mem models cutoff t1 t2 s db = Inr (True, db')"
  shows "\<exists>r \<in> set (iq_rows db'). req_id r = s_request_id s \<and> status r = Running"
  using assms
proof (cases rule: start_tx_cases)
  case won
  then have "tbl_count (\<lambda>r. req_id r = s_request_id s \<and> status r = Waiting) (iq_rows db) \<noteq> 0" by simp
  then obtain r where "r \<in> set (iq_rows db)" "req_id r = s_request_id s" "status r = Waiting"
    by (auto simp: tbl_count_0_iff)
  then have "mark_running t1 t2 r \<in> set (iq_rows db')"
    using won(4) by (auto simp: set_tbl_update intro: image_eqI [of _ _ r])
  moreover have "req_id (mark_running t1 t2 r) = s_request_id s" "status (mark_running t1 t2 r) = Running"
    using \<open>req_id r = s_request_id s\<close> by (simp_all add: mark_running_def)
  ultimately show ?thesis by blast
qed simp

lemma try_start_start_tx:
  assumes "try_start cfg p models s db = Inr (True, db')"
  shows "start_tx cfg (p_memory_tx p) models (p_now p - LEASE_SECONDS) (p_started p) (p_beat p) s db = Inr (True, db')"
  using assms by (auto simp: try_start_def Let_def split: if_splits)

lemma one_turn_deadline:
  "deadline \<le> i_monotonic i \<Longrightarrow> \<exists>ys r db'. one_turn cfg deadline reported s db i = Ended ys r db'"
  by (auto simp: one_turn_def Let_def split: option.splits sum.splits)

lemma one_turn_admitted:
  assumes "one_turn cfg deadline reported s db i = Ended ys (Inr s') db'"
  shows "s_running s' \<and> s_request_id s' = s_request_id s \<and>
    (\<exists>r \<in> set (iq_rows db'). req_id r = s_request_id s \<and> status r = Running)"
  using assms start_tx_True [OF try_start_start_tx]
  by (auto simp: one_turn_def Let_def split: option.splits sum.splits if_splits)

lemma one_turn_Ended_changes:
  "one_turn cfg deadline reported s db i = Ended ys r db' \<Longrightarrow>
    distinct_adj (case reported of None \<Rightarrow> ys | Some p \<Rightarrow> p # ys)"
  by (auto simp: one_turn_def Let_def split: option.splits sum.splits if_splits)

lemma one_turn_Waits_changes:
  "one_turn cfg deadline reported s db i = Waits ys p db' \<Longrightarrow>
    (reported = Some p \<and> ys = []) \<or> (reported \<noteq> Some p \<and> ys = [p])"
  by (auto simp: one_turn_def Let_def split: option.splits sum.splits if_splits)

lemma positions_ends:
  "\<exists>i \<in> set turns. deadline \<le> i_monotonic i \<Longrightarrow> snd (positions cfg deadline reported s db turns) \<noteq> None"
proof (induction turns arbitrary: reported db)
  case (Cons i turns)
  show ?case
  proof (cases "one_turn cfg deadline reported s (i_env i db) i")
    case (Ended ys r db1)
    then show ?thesis by simp
  next
    case (Waits ys p db1)
    then have "\<exists>i \<in> set turns. deadline \<le> i_monotonic i"
      using Cons.prems one_turn_deadline [of deadline i cfg reported s "i_env i db"] by force
    from Cons.IH [OF this] Waits show ?thesis by (simp add: case_prod_beta)
  qed
qed simp

lemma positions_admitted_running:
  "snd (positions cfg deadline reported s db turns) = Some (Inr s', db') \<Longrightarrow>
    s_running s' \<and> s_request_id s' = s_request_id s \<and>
    (\<exists>r \<in> set (iq_rows db'). req_id r = s_request_id s \<and> status r = Running)"
proof (induction turns arbitrary: reported db)
  case (Cons i turns)
  show ?case
  proof (cases "one_turn cfg deadline reported s (i_env i db) i")
    case (Ended ys r db1)
    with Cons.prems one_turn_admitted show ?thesis by (simp only: positions.simps) (fastforce)
  next
    case (Waits ys p db1)
    with Cons show ?thesis by (simp add: case_prod_beta)
  qed
qed simp

lemma positions_changes:
  "distinct_adj (case reported of None \<Rightarrow> fst (positions cfg deadline reported s db turns)
     | Some p \<Rightarrow> p # fst (positions cfg deadline reported s db turns))"
proof (induction turns arbitrary: reported db)
  case Nil
  then show ?case by (simp split: option.splits)
next
  case (Cons i turns)
  show ?case
  proof (cases "one_turn cfg deadline reported s (i_env i db) i")
    case (Ended ys r db1)
    with one_turn_Ended_changes [OF Ended] show ?thesis by (simp split: option.splits)
  next
    case (Waits ys p db1)
    have "distinct_adj (p # fst (positions cfg deadline (Some p) s db1 turns))"
      using Cons.IH [of "Some p" db1] by simp
    with Waits one_turn_Waits_changes [OF Waits] show ?thesis
      by (auto simp: case_prod_beta split: option.splits)
  qed
qed

subsection \<open>Properties\<close>

text \<open>A server with one local place, and two requests of one account and one of another.\<close>

definition ex_cfg :: qconfig where
  "ex_cfg = \<lparr>max_concurrent = 1, max_concurrent_hosted = Some 2, max_queue_depth = 5,
     min_free_memory_mb = 0, ollama_is_local = True\<rparr>"

definition ex_slot :: "string \<Rightarrow> string \<Rightarrow> slot" where
  "ex_slot owner i = \<lparr>s_priority = PRIORITY_CHAT, s_lane = Local_Lane, s_owner = Some owner,
     s_owner_key = Some owner, s_model = None, s_request_id = i, s_running = False,
     s_enqueued_at = 0, s_started_at = None, s_entered = True\<rparr>"

definition ex_db0 :: qdb where "ex_db0 = \<lparr>iq_rows = [], iq_next = 1\<rparr>"

definition ex_db1 :: qdb where
  "ex_db1 = \<lparr>iq_rows = [waiting_row (ex_slot ''u1'' ''a'') 7 10 1], iq_next = 2\<rparr>"

definition ex_db2 :: qdb where
  "ex_db2 = \<lparr>iq_rows = [waiting_row (ex_slot ''u1'' ''a'') 7 10 1, waiting_row (ex_slot ''u1'' ''b'') 7 10 2],
     iq_next = 3\<rparr>"

definition ex_db3 :: qdb where
  "ex_db3 = \<lparr>iq_rows = [mark_running 11 12 (waiting_row (ex_slot ''u1'' ''a'') 7 10 1),
     waiting_row (ex_slot ''u1'' ''b'') 7 10 2], iq_next = 3\<rparr>"

lemmas ex_defs = ex_cfg_def ex_slot_def ex_db0_def ex_db1_def ex_db2_def ex_db3_def
lemmas queue_eval = queue_limits_def LEASE_SECONDS_def MAX_PER_OWNER_def waiting_row_def
  mark_running_def running_keys_def running_count_def PRIORITY_CHAT_def tbl_simps
  is_next_def next_row_def min_row_def eligible_def memory_ok_def

lemma ex_enter1: "enter_tx ex_cfg 7 10 (ex_slot ''u1'' ''a'') ex_db0 = Inr ex_db1"
  by (simp add: enter_tx_def ex_defs queue_eval)

lemma ex_enter2: "enter_tx ex_cfg 7 10 (ex_slot ''u1'' ''b'') ex_db1 = Inr ex_db2"
  by (simp add: enter_tx_def ex_defs queue_eval)

lemma ex_start: "start_tx ex_cfg None [] (10 - LEASE_SECONDS) 11 12 (ex_slot ''u1'' ''a'') ex_db2 = Inr (True, ex_db3)"
  by (simp add: start_tx_def ex_defs queue_eval)

lemma ex_reach: "qreach ex_cfg (12, ex_db3)"
proof -
  have "qreach ex_cfg (12, ex_db0)" unfolding ex_db0_def by (rule qstart)
  then have "qreach ex_cfg (12, ex_db1)" by (rule qmore) (rule enter [OF _ ex_enter1], simp)
  then have "qreach ex_cfg (12, ex_db2)" by (rule qmore) (rule enter [OF _ ex_enter2], simp)
  then show ?thesis by (rule qmore) (rule start [OF _ ex_start], simp)
qed

text \<open>
  C1: whatever the processes do (enter, start, renew in time, release, switch models,
  expire a dead worker's places), the requests of a lane that run and whose lease is
  live never exceed the lane's cap, although the count is taken before the lock is.
\<close>

theorem lane_cap:
  assumes "qreach cfg (now, db)"
  shows "int (running_count (now - LEASE_SECONDS) l (iq_rows db)) \<le> max 0 (fst (queue_limits cfg l))"
  using qreach_within_cap [OF assms] by (simp add: within_cap_def)

theorem lane_cap_witness:
  "qreach ex_cfg (12, ex_db3) \<and> running_count (12 - LEASE_SECONDS) Local_Lane (iq_rows ex_db3) = 1 \<and>
    int (running_count (12 - LEASE_SECONDS) Local_Lane (iq_rows ex_db3)) \<le>
      max 0 (fst (queue_limits ex_cfg Local_Lane))"
  using lane_cap [OF ex_reach, of Local_Lane] ex_reach by (simp add: ex_defs queue_eval)

text \<open>
  In every reachable table no two running rows share an owner key (an account has
  one running request per lane), no owner key has more than three rows, and no lane
  holds more rows than the configured depth.
\<close>

theorem owner_and_depth_shares:
  assumes "qreach cfg (now, db)"
  shows "(\<forall>r \<in> set (iq_rows db). \<forall>r' \<in> set (iq_rows db).
            status r = Running \<and> status r' = Running \<and> owner_key r = owner_key r' \<and> owner_key r \<noteq> None \<longrightarrow> r = r')
       \<and> (\<forall>k. k \<noteq> [] \<longrightarrow> tbl_count (\<lambda>r. owner_key r = Some k) (iq_rows db) \<le> MAX_PER_OWNER)
       \<and> (\<forall>l. int (tbl_count (\<lambda>r. row_lane r = l) (iq_rows db)) \<le> max 0 (snd (queue_limits cfg l)))"
proof -
  from qreach_wf [OF assms] have wf: "queue_wf cfg db" by simp
  then have inj: "inj_on (\<lambda>r. the (owner_key r)) {r \<in> set (iq_rows db). status r = Running \<and> owner_key r \<noteq> None}"
    by (simp add: queue_wf_def running_keys_def distinct_map)
  have "r = r'" if "r \<in> set (iq_rows db)" "r' \<in> set (iq_rows db)" "status r = Running" "status r' = Running"
      "owner_key r = owner_key r'" "owner_key r \<noteq> None" for r r'
    by (rule inj_onD [OF inj]) (use that in simp_all)
  moreover have "\<forall>k. k \<noteq> [] \<longrightarrow> tbl_count (\<lambda>r. owner_key r = Some k) (iq_rows db) \<le> MAX_PER_OWNER"
    and "\<forall>l. int (tbl_count (\<lambda>r. row_lane r = l) (iq_rows db)) \<le> max 0 (snd (queue_limits cfg l))"
    using wf by (simp_all add: queue_wf_def)
  ultimately show ?thesis by blast
qed

theorem owner_and_depth_shares_witness:
  "qreach ex_cfg (12, ex_db3) \<and> tbl_count (\<lambda>r. owner_key r = Some ''u1'') (iq_rows ex_db3) = 2 \<and>
    tbl_count (\<lambda>r. owner_key r = Some ''u1'') (iq_rows ex_db3) \<le> MAX_PER_OWNER"
  using owner_and_depth_shares [OF ex_reach] ex_reach by (simp add: ex_defs queue_eval)


definition ex_probe :: probe where
  "ex_probe = \<lparr>p_now = 10, p_memory = None, p_memory_model = None, p_memory_tx = None, p_started = 11, p_beat = 12\<rparr>"

lemma ex_try_start: "try_start ex_cfg ex_probe [] (ex_slot ''u1'' ''a'') ex_db2 = Inr (True, ex_db3)"
proof -
  have "\<not> fst (queue_limits ex_cfg Local_Lane) \<le> int (running_count (10 - LEASE_SECONDS) Local_Lane (iq_rows ex_db2))"
    and "is_next ex_cfg None [] (10 - LEASE_SECONDS) (ex_slot ''u1'' ''a'') ex_db2"
    and "model_memory_ok ex_cfg None [] None"
    and "s_lane (ex_slot ''u1'' ''a'') = Local_Lane" "s_model (ex_slot ''u1'' ''a'') = None"
    by (simp_all add: model_memory_ok_def ex_defs queue_eval)
  then show ?thesis using ex_start by (simp add: try_start_def ex_probe_def)
qed



lemma ex_db2_wf: "queue_wf ex_cfg ex_db2"
  by (rule queue_wf_enter [OF queue_wf_enter [OF _ ex_enter1] ex_enter2])
    (simp add: queue_wf_empty ex_db0_def)


text \<open>
  C16: waiting ends. Once a turn of the loop comes at or after the deadline, the loop
  has ended in admission or an exception; an admitted request is marked as running in
  the table; and the loop yields a position only when it changed.
\<close>

theorem waiting_ends:
  assumes "i \<in> set turns" and "deadline \<le> i_monotonic i"
  shows "\<exists>r db'. snd (positions cfg deadline None s db turns) = Some (r, db') \<and>
      (\<forall>s'. r = Inr s' \<longrightarrow> s_running s' \<and>
         (\<exists>row \<in> set (iq_rows db'). req_id row = s_request_id s \<and> status row = Running)) \<and>
      distinct_adj (fst (positions cfg deadline None s db turns))"
proof -
  obtain r db' where "snd (positions cfg deadline None s db turns) = Some (r, db')"
    using positions_ends [of turns deadline cfg None s db] assms by fastforce
  then show ?thesis
    using positions_admitted_running positions_changes [where reported = None] by fastforce
qed

definition ex_turn :: "epoch \<Rightarrow> turn" where
  "ex_turn t = \<lparr>i_env = (\<lambda>db. db), i_cancel = None, i_models = [], i_probe = ex_probe,
     i_started = 11, i_position = 10, i_monotonic = t\<rparr>"

theorem waiting_ends_witness:
  "\<exists>r db'. snd (positions ex_cfg 60 None (ex_slot ''u1'' ''b'') ex_db3 [ex_turn 5, ex_turn 61]) = Some (r, db')"
  using waiting_ends [of "ex_turn 61" "[ex_turn 5, ex_turn 61]" 60 ex_cfg "ex_slot ''u1'' ''b''" ex_db3]
  by (auto simp: ex_turn_def)

text \<open>
  C20: the running places of a crashed process are not cleared where a request starts,
  but the unique index on running owner keys still holds them: when the lane has a
  free place and the next request belongs to the owner of a running row, even an
  expired one, starting it fails with an integrity error instead of admitting it.
\<close>

theorem stale_owner_blocks_start:
  assumes "w \<in> set (iq_rows db)" "req_id w = s_request_id s" "status w = Waiting" "owner_key w = Some k"
    and "r \<in> set (iq_rows db)" "status r = Running" "owner_key r = Some k"
    and "distinct (map req_id (iq_rows db))"
    and "is_next cfg mem models cutoff s db"
    and "int (running_count cutoff (s_lane s) (iq_rows db)) < fst (queue_limits cfg (s_lane s))"
  shows "start_tx cfg mem models cutoff t1 t2 s db = Inl IntegrityError"
proof -
  let ?hit = "\<lambda>x. req_id x = s_request_id s \<and> status x = Waiting"
  let ?rows = "tbl_update ?hit (mark_running t1 t2) (iq_rows db)"
  have "\<not> distinct (running_keys ?rows)"
  proof
    assume "distinct (running_keys ?rows)"
    then have inj: "inj_on (\<lambda>x. the (owner_key x)) {x \<in> set ?rows. status x = Running \<and> owner_key x \<noteq> None}"
      by (simp add: running_keys_def distinct_map)
    have "mark_running t1 t2 w \<in> set ?rows" "r \<in> set ?rows"
      unfolding set_tbl_update using assms(1,2,3,5,6) by (force intro: image_eqI [of _ _ w] image_eqI [of _ _ r])+
    then have "mark_running t1 t2 w = r"
      by (intro inj_onD [OF inj]) (use assms(4,6,7) in \<open>simp_all add: mark_running_def\<close>)
    then have "req_id w = req_id r" by (auto simp: mark_running_def)
    then have "w = r" using distinct_key_eq [OF assms(8) assms(1) assms(5)] by simp
    with assms(3,6) show False by simp
  qed
  with assms(9,10) show ?thesis by (simp add: start_tx_def Let_def)
qed

definition ex_stale :: qdb where
  "ex_stale = \<lparr>iq_rows = [mark_running 11 12 (waiting_row (ex_slot ''u1'' ''a'') 7 10 1),
     (waiting_row (ex_slot ''u1'' ''b'') 8 100 2)\<lparr>heartbeat_at := 150\<rparr>], iq_next = 3\<rparr>"

theorem stale_owner_blocks_start_witness:
  "start_tx ex_cfg None [] (160 - LEASE_SECONDS) 160 160 (ex_slot ''u1'' ''b'') ex_stale = Inl IntegrityError"
  by (rule stale_owner_blocks_start [of "(waiting_row (ex_slot ''u1'' ''b'') 8 100 2)\<lparr>heartbeat_at := 150\<rparr>" _ _ "''u1''"
        "mark_running 11 12 (waiting_row (ex_slot ''u1'' ''a'') 7 10 1)"])
    (simp_all add: ex_stale_def ex_defs queue_eval)

end
