(* ===== verification/Throttle.thy ===== *)
theory Throttle
  imports BC_Prelude
begin

section \<open>Sliding-window rate limits\<close>

text \<open>
  The throttle of bananachat/db/users.py (table \<open>rate_limit_hits\<close>) and its client
  \<open>confirm_password\<close> of bananachat/security.py. Every event is a row with its key and
  the second it happened; a limit counts the rows of its key newer than the start of
  the window. \<open>hit\<close> and \<open>reserve\<close> check and record under one write lock. A clock
  reading (\<open>db.now()\<close>) is one argument of the operation; the n-th reading of
  \<open>reserve\<close> is \<open>clock n\<close>. \<open>login_attempts\<close> is a table of earlier releases that is only
  purged; a row is its \<open>attempted_at\<close>.
\<close>

record hit_row =
  hit_id :: int
  hit_key :: string
  hit_at :: stamp

record hits_db =
  hits :: "hit_row list"
  next_hit :: int
  login_attempts :: "stamp list"

type_synonym limit_spec = "string \<times> int \<times> int option"

definition hits_since :: "string \<Rightarrow> stamp \<Rightarrow> hits_db \<Rightarrow> nat" where
  "hits_since key since db = tbl_count (\<lambda>r. hit_key r = key \<and> hit_at r > since) (hits db)"

definition insert_hit :: "string \<Rightarrow> stamp \<Rightarrow> hits_db \<Rightarrow> hits_db" where
  "insert_hit key t db =
     db\<lparr>hits := hits db @ [\<lparr>hit_id = next_hit db, hit_key = key, hit_at = t\<rparr>],
        next_hit := next_hit db + 1\<rparr>"

definition hit :: "string \<Rightarrow> int \<Rightarrow> int \<Rightarrow> bool \<Rightarrow> stamp \<Rightarrow> stamp \<Rightarrow> hits_db \<Rightarrow> bool \<times> hits_db" where
  "hit key limit window_seconds rec t_since t_hit db =
     (if limit \<le> 0 then (False, db)
      else if int (hits_since key (t_since - window_seconds) db) \<ge> limit then (False, db)
      else if rec then (True, insert_hit key t_hit db)
      else (True, db))"

fun reserve_room :: "int \<Rightarrow> (nat \<Rightarrow> stamp) \<Rightarrow> nat \<Rightarrow> limit_spec list \<Rightarrow> hits_db \<Rightarrow> bool" where
  "reserve_room window_seconds clock n [] db = True"
| "reserve_room window_seconds clock n ((key, limit, window) # limits) db =
     (let since = clock n - (case window of Some w \<Rightarrow> w | None \<Rightarrow> window_seconds) in
      if limit \<le> 0 \<or> int (hits_since key since db) \<ge> limit then False
      else reserve_room window_seconds clock (Suc n) limits db)"

fun reserve_record :: "(nat \<Rightarrow> stamp) \<Rightarrow> nat \<Rightarrow> limit_spec list \<Rightarrow> hits_db \<Rightarrow> int list \<times> hits_db" where
  "reserve_record clock n [] db = ([], db)"
| "reserve_record clock n ((key, _, _) # limits) db =
     (let (ids, db') = reserve_record clock (Suc n) limits (insert_hit key (clock n) db)
      in (next_hit db # ids, db'))"

definition reserve :: "limit_spec list \<Rightarrow> int \<Rightarrow> (nat \<Rightarrow> stamp) \<Rightarrow> hits_db \<Rightarrow> int list option \<times> hits_db" where
  "reserve limits window_seconds clock db =
     (if reserve_room window_seconds clock 0 limits db
      then let (ids, db') = reserve_record clock (length limits) limits db in (Some ids, db')
      else (None, db))"

definition renew :: "int list \<Rightarrow> stamp \<Rightarrow> hits_db \<Rightarrow> hits_db" where
  "renew hit_ids t db =
     db\<lparr>hits := tbl_update (\<lambda>r. hit_id r \<in> set hit_ids) (\<lambda>r. r\<lparr>hit_at := t\<rparr>) (hits db)\<rparr>"

definition release :: "int list \<Rightarrow> hits_db \<Rightarrow> hits_db" where
  "release hit_ids db = db\<lparr>hits := tbl_delete (\<lambda>r. hit_id r \<in> set hit_ids) (hits db)\<rparr>"

text \<open>\<open>record_hits\<close> reads the clock once: the list of rows is built from one reading.\<close>

definition record_hits :: "string \<Rightarrow> int \<Rightarrow> stamp \<Rightarrow> hits_db \<Rightarrow> hits_db" where
  "record_hits key n t db = (if n > 0 then (insert_hit key t ^^ nat n) db else db)"

definition count_hits :: "string \<Rightarrow> int \<Rightarrow> stamp \<Rightarrow> hits_db \<Rightarrow> nat" where
  "count_hits key window_seconds t db = hits_since key (t - window_seconds) db"

definition clear_hits :: "string \<Rightarrow> hits_db \<Rightarrow> hits_db" where
  "clear_hits key db = db\<lparr>hits := tbl_delete (\<lambda>r. hit_key r = key) (hits db)\<rparr>"

definition purge_rate_limits :: "int \<Rightarrow> stamp \<Rightarrow> hits_db \<Rightarrow> hits_db" where
  "purge_rate_limits max_window_seconds t db =
     db\<lparr>hits := tbl_delete (\<lambda>r. hit_at r < t - max_window_seconds) (hits db),
        login_attempts := filter (\<lambda>a. \<not> a < t - max_window_seconds) (login_attempts db)\<rparr>"

subsection \<open>Confirming a password\<close>

text \<open>
  \<open>check\<close> is werkzeug's password check of a stored hash (False when it raises), a
  parameter. \<open>None\<close> means too many attempts were wrong.
\<close>

definition CONFIRM_FAILURES :: int where "CONFIRM_FAILURES = 10"
definition CONFIRM_FAILURE_WINDOW :: int where "CONFIRM_FAILURE_WINDOW = 15 * 60"
definition CONFIRM_FAILURES_PER_DAY :: int where "CONFIRM_FAILURES_PER_DAY = 50"

definition confirm_limits :: "string \<Rightarrow> limit_spec list" where
  "confirm_limits user_id =
     [(''confirm-fail:'' @ user_id, CONFIRM_FAILURES, None),
      (''confirm-fail-day:'' @ user_id, CONFIRM_FAILURES_PER_DAY, Some 86400)]"

definition confirm_password ::
  "(string \<Rightarrow> string \<Rightarrow> bool) \<Rightarrow> string \<Rightarrow> string \<Rightarrow> string \<Rightarrow> (nat \<Rightarrow> stamp) \<Rightarrow> hits_db \<Rightarrow> bool option \<times> hits_db" where
  "confirm_password check user_id stored given clock db =
     (case reserve (confirm_limits user_id) CONFIRM_FAILURE_WINDOW clock db of
        (None, db1) \<Rightarrow> (None, db1)
      | (Some attempt, db1) \<Rightarrow>
          if \<not> check stored given then (Some False, db1) else (Some True, release attempt db1))"

subsection \<open>Rows and their ids\<close>

text \<open>Row ids come from AUTOINCREMENT: they are distinct and below the next one.\<close>

definition hits_wf :: "hits_db \<Rightarrow> bool" where
  "hits_wf db \<longleftrightarrow> distinct (map hit_id (hits db)) \<and> (\<forall>r \<in> set (hits db). hit_id r < next_hit db)"

lemma hits_insert_hit: "hits (insert_hit k t db) = hits db @ [\<lparr>hit_id = next_hit db, hit_key = k, hit_at = t\<rparr>]"
  and next_insert_hit: "next_hit (insert_hit k t db) = next_hit db + 1"
  and login_insert_hit: "login_attempts (insert_hit k t db) = login_attempts db"
  by (simp_all add: insert_hit_def)

lemmas insert_hit_simps = hits_insert_hit next_insert_hit login_insert_hit

lemma hits_wf_insert: "hits_wf db \<Longrightarrow> hits_wf (insert_hit k t db)"
  by (auto simp: hits_wf_def insert_hit_simps)

lemma hits_wf_hit: "hits_wf db \<Longrightarrow> hits_wf (snd (hit k l w rec t1 t2 db))"
  by (simp add: hit_def hits_wf_insert)

lemma hits_wf_release: "hits_wf db \<Longrightarrow> hits_wf (release ids db)"
  by (simp add: hits_wf_def release_def distinct_key_delete)

lemma hits_wf_renew: "hits_wf db \<Longrightarrow> hits_wf (renew ids t db)"
  by (auto simp: hits_wf_def renew_def distinct_key_update set_tbl_update)

lemma reserve_record_rows:
  assumes "reserve_record clock n limits db = (ids, db')"
  shows "\<exists>new. hits db' = hits db @ new \<and> map hit_id new = ids \<and> map hit_key new = map fst limits \<and>
      map hit_at new = map (\<lambda>i. clock (n + i)) [0..<length limits] \<and>
      next_hit db' = next_hit db + int (length limits) \<and> login_attempts db' = login_attempts db \<and>
      (\<forall>i \<in> set ids. next_hit db \<le> i \<and> i < next_hit db') \<and> distinct ids"
  using assms
proof (induction limits arbitrary: n db ids)
  case (Cons s limits)
  obtain k l w where s: "s = (k, l, w)" by (cases s)
  obtain ids1 where r: "reserve_record clock (Suc n) limits (insert_hit k (clock n) db) = (ids1, db')"
    and ids: "ids = next_hit db # ids1"
    using Cons.prems by (auto simp: s split: prod.splits)
  from Cons.IH [OF r] obtain new where new:
    "hits db' = hits (insert_hit k (clock n) db) @ new" "map hit_id new = ids1" "map hit_key new = map fst limits"
    "map hit_at new = map (\<lambda>i. clock (Suc n + i)) [0..<length limits]"
    "next_hit db' = next_hit db + 1 + int (length limits)" "login_attempts db' = login_attempts db"
    "\<forall>i \<in> set ids1. next_hit db + 1 \<le> i \<and> i < next_hit db'" "distinct ids1"
    by (auto simp: insert_hit_simps)
  show ?case
    by (rule exI [of _ "\<lparr>hit_id = next_hit db, hit_key = k, hit_at = clock n\<rparr> # new"])
      (use new in \<open>auto simp: ids s insert_hit_simps map_upt_Suc simp del: upt_Suc\<close>)
qed simp

lemma hits_wf_reserve: "hits_wf db \<Longrightarrow> hits_wf (snd (reserve limits w clock db))"
proof -
  assume wf: "hits_wf db"
  obtain ids db' where r: "reserve_record clock (length limits) limits db = (ids, db')" by fastforce
  from reserve_record_rows [OF r] obtain new where
    "hits db' = hits db @ new" "map hit_id new = ids" "next_hit db' = next_hit db + int (length limits)"
    "\<forall>i \<in> set ids. next_hit db \<le> i \<and> i < next_hit db'" "distinct ids" by blast
  with wf have "hits_wf db'" by (fastforce simp: hits_wf_def)
  with wf r show ?thesis by (simp add: reserve_def)
qed

text \<open>A released reservation leaves the table as it was, its id counter apart.\<close>

lemma release_reserve:
  assumes "hits_wf db" and "reserve limits w clock db = (Some ids, db')"
  shows "hits (release ids db') = hits db" and "length ids = length limits"
proof -
  obtain ids1 db1 where r: "reserve_record clock (length limits) limits db = (ids1, db1)" by fastforce
  with assms(2) have eq: "ids1 = ids" "db1 = db'" by (auto simp: reserve_def split: if_splits)
  from reserve_record_rows [OF r] obtain new where new: "hits db' = hits db @ new" "map hit_id new = ids"
    "map hit_key new = map fst limits" "\<forall>i \<in> set ids. next_hit db \<le> i" by (auto simp: eq)
  have "tbl_delete (\<lambda>r. hit_id r \<in> set ids) (hits db) = hits db"
    using assms(1) new(4) by (intro tbl_delete_none) (fastforce simp: hits_wf_def)
  moreover have "tbl_delete (\<lambda>r. hit_id r \<in> set ids) new = []"
    using new(2) by (auto simp: tbl_delete_def filter_empty_conv)
  ultimately show "hits (release ids db') = hits db"
    using new(1) by (simp add: release_def tbl_delete_def)
  show "length ids = length limits"
    using arg_cong [OF new(2), of length] arg_cong [OF new(3), of length] by simp
qed

lemma reserve_room_iff:
  "reserve_room w clock n limits db \<longleftrightarrow>
    (\<forall>i < length limits. case limits ! i of (k, l, wo) \<Rightarrow>
       0 < l \<and> int (hits_since k (clock (n + i) - (case wo of Some w' \<Rightarrow> w' | None \<Rightarrow> w)) db) < l)"
proof (induction limits arbitrary: n)
  case (Cons s limits)
  obtain k l wo where s: "s = (k, l, wo)" by (cases s)
  show ?case
    by (auto simp: s Cons.IH All_less_Suc2 Let_def split: option.splits)
qed simp

lemma reserve_None: "fst (reserve limits w clock db) = None \<Longrightarrow> snd (reserve limits w clock db) = db"
  by (auto simp: reserve_def split: prod.splits if_splits)

subsection \<open>The limit holds in every window\<close>

text \<open>
  A policy gives each key its limit and window. Processes hit and reserve by the
  policy, release, clear, purge, and renew rows that still count; time passes.
\<close>

inductive tstep :: "(string \<Rightarrow> int \<times> int) \<Rightarrow> stamp \<times> hits_db \<Rightarrow> stamp \<times> hits_db \<Rightarrow> bool"
  for p :: "string \<Rightarrow> int \<times> int" where
  tick: "now \<le> now' \<Longrightarrow> tstep p (now, db) (now', db)"
| do_hit: "p key = (limit, window) \<Longrightarrow> now \<le> t1 \<Longrightarrow> t1 \<le> t2 \<Longrightarrow>
    tstep p (now, db) (t2, snd (hit key limit window rec t1 t2 db))"
| do_reserve: "(\<And>k l wo. (k, l, wo) \<in> set limits \<Longrightarrow> p k = (l, case wo of Some w' \<Rightarrow> w' | None \<Rightarrow> w)) \<Longrightarrow>
    distinct (map fst limits) \<Longrightarrow> mono clock \<Longrightarrow> now \<le> clock 0 \<Longrightarrow> clock (2 * length limits) \<le> now' \<Longrightarrow>
    tstep p (now, db) (now', snd (reserve limits w clock db))"
| do_release: "tstep p (now, db) (now, release ids db)"
| do_clear: "tstep p (now, db) (now, clear_hits key db)"
| do_purge: "tstep p (now, db) (now, purge_rate_limits m t db)"
| do_renew: "now \<le> t \<Longrightarrow>
    (\<And>r. r \<in> set (hits db) \<Longrightarrow> hit_id r \<in> set ids \<Longrightarrow> t - snd (p (hit_key r)) < hit_at r) \<Longrightarrow>
    tstep p (now, db) (t, renew ids t db)"

inductive treach :: "(string \<Rightarrow> int \<times> int) \<Rightarrow> stamp \<times> hits_db \<Rightarrow> bool"
  for p :: "string \<Rightarrow> int \<times> int" where
  tstart: "treach p (now, \<lparr>hits = [], next_hit = n, login_attempts = ls\<rparr>)"
| tmore: "treach p w \<Longrightarrow> tstep p w w' \<Longrightarrow> treach p w'"

definition in_window :: "string \<Rightarrow> stamp \<Rightarrow> int \<Rightarrow> hit_row list \<Rightarrow> nat" where
  "in_window k t w rows = tbl_count (\<lambda>r. hit_key r = k \<and> t - w < hit_at r \<and> hit_at r \<le> t) rows"

definition window_ok :: "(string \<Rightarrow> int \<times> int) \<Rightarrow> stamp \<Rightarrow> hits_db \<Rightarrow> bool" where
  "window_ok p now db \<longleftrightarrow> (\<forall>r \<in> set (hits db). hit_at r \<le> now) \<and>
     (\<forall>k t. int (in_window k t (snd (p k)) (hits db)) \<le> max 0 (fst (p k)))"

lemma window_ok_tick: "window_ok p now db \<Longrightarrow> now \<le> now' \<Longrightarrow> window_ok p now' db"
  by (fastforce simp: window_ok_def)

lemma window_ok_rows:
  assumes "window_ok p now db" and "hits db' = tbl_delete q (hits db)"
  shows "window_ok p now db'"
proof -
  have "int (in_window k t (snd (p k)) (hits db')) \<le> max 0 (fst (p k))" for k t
  proof -
    have "in_window k t (snd (p k)) (hits db') \<le> in_window k t (snd (p k)) (hits db)"
      unfolding assms(2) in_window_def by (rule tbl_count_delete_le)
    moreover have "int (in_window k t (snd (p k)) (hits db)) \<le> max 0 (fst (p k))"
      using assms(1) by (simp add: window_ok_def)
    ultimately show ?thesis by linarith
  qed
  with assms show ?thesis by (simp add: window_ok_def)
qed

text \<open>
  Adding rows with distinct keys keeps the limit when, for each, fewer rows than the
  limit were newer than the start of a window that ended no later than the row.
\<close>

lemma window_ok_add:
  assumes ok: "window_ok p now db" and rows: "hits db' = hits db @ new" and d: "distinct (map hit_key new)"
    and room: "\<And>r. r \<in> set new \<Longrightarrow> \<exists>s \<le> hit_at r. int (hits_since (hit_key r) (s - snd (p (hit_key r))) db) < fst (p (hit_key r))"
    and le: "now \<le> now'" "\<And>r. r \<in> set new \<Longrightarrow> hit_at r \<le> now'"
  shows "window_ok p now' db'"
proof -
  have "int (in_window k t (snd (p k)) (hits db')) \<le> max 0 (fst (p k))" for k t
  proof -
    let ?w = "snd (p k)" and ?l = "fst (p k)"
    have old: "int (in_window k t ?w (hits db)) \<le> max 0 ?l" using ok by (simp add: window_ok_def)
    have split: "in_window k t ?w (hits db') = in_window k t ?w (hits db) + in_window k t ?w new"
      by (simp add: in_window_def rows tbl_simps)
    show ?thesis
    proof (cases "in_window k t ?w new = 0")
      case False
      then obtain r where r: "r \<in> set new" "hit_key r = k" "hit_at r \<le> t"
        by (auto simp: in_window_def tbl_count_0_iff)
      from room [OF r(1)] r(2) obtain s where s: "s \<le> hit_at r" "int (hits_since k (s - ?w) db) < ?l" by auto
      have "in_window k t ?w (hits db) \<le> hits_since k (s - ?w) db"
        unfolding in_window_def hits_since_def using s(1) r(3) by (intro tbl_count_mono) auto
      moreover have "in_window k t ?w new \<le> 1"
        using tbl_count_unique [OF d, of k] tbl_count_mono [of new "\<lambda>r. hit_key r = k \<and> t - ?w < hit_at r \<and> hit_at r \<le> t" "\<lambda>r. hit_key r = k"]
        by (simp add: in_window_def)
      ultimately show ?thesis using s(2) split by linarith
    qed (use old split in simp)
  qed
  moreover have "\<forall>r \<in> set (hits db'). hit_at r \<le> now'"
    using ok le rows by (fastforce simp: window_ok_def)
  ultimately show ?thesis by (simp add: window_ok_def)
qed

lemma window_ok_hit:
  assumes "window_ok p now db" and "p key = (limit, window)" and "now \<le> t1" "t1 \<le> t2"
  shows "window_ok p t2 (snd (hit key limit window rec t1 t2 db))"
proof (cases "rec \<and> 0 < limit \<and> int (hits_since key (t1 - window) db) < limit")
  case True
  then have "window_ok p t2 (insert_hit key t2 db)"
    using assms by (intro window_ok_add [OF assms(1) hits_insert_hit]) auto
  with True show ?thesis by (simp add: hit_def)
next
  case False
  then have "snd (hit key limit window rec t1 t2 db) = db" by (auto simp: hit_def)
  with window_ok_tick [OF assms(1)] assms(3,4) show ?thesis by simp
qed

lemma window_ok_reserve:
  assumes ok: "window_ok p now db"
    and p: "\<And>k l wo. (k, l, wo) \<in> set limits \<Longrightarrow> p k = (l, case wo of Some w' \<Rightarrow> w' | None \<Rightarrow> w)"
    and d: "distinct (map fst limits)" and m: "mono clock" and t: "now \<le> clock 0" "clock (2 * length limits) \<le> now'"
  shows "window_ok p now' (snd (reserve limits w clock db))"
proof (cases "reserve_room w clock 0 limits db")
  case True
  obtain ids db1 where r: "reserve_record clock (length limits) limits db = (ids, db1)" by fastforce
  from reserve_record_rows [OF r] obtain new where new: "hits db1 = hits db @ new"
    "map hit_key new = map fst limits" "map hit_at new = map (\<lambda>i. clock (length limits + i)) [0..<length limits]" by blast
  have len: "length new = length limits" using arg_cong [OF new(2), of length] by simp
  have at: "hit_key (new ! i) = fst (limits ! i)" "hit_at (new ! i) = clock (length limits + i)" if "i < length limits" for i
    using that len arg_cong [OF new(2), of "\<lambda>xs. xs ! i"] arg_cong [OF new(3), of "\<lambda>xs. xs ! i"] by simp_all
  have le: "clock i \<le> clock j" if "i \<le> j" for i j using monoD [OF m that] .
  have "window_ok p now' db1"
  proof (rule window_ok_add [OF ok new(1)])
    show "distinct (map hit_key new)" using d new(2) by simp
    show "now \<le> now'" using t le [of 0 "2 * length limits"] by simp
    fix r assume "r \<in> set new"
    then obtain i where i: "i < length limits" "r = new ! i" using len by (auto simp: in_set_conv_nth)
    show "hit_at r \<le> now'" using at [OF i(1)] i t(2) le [of "length limits + i" "2 * length limits"] by simp
    obtain k l wo where s: "limits ! i = (k, l, wo)" by (cases "limits ! i")
    have "p k = (l, case wo of Some w' \<Rightarrow> w' | None \<Rightarrow> w)" using p s i(1) nth_mem by metis
    moreover have "int (hits_since k (clock i - (case wo of Some w' \<Rightarrow> w' | None \<Rightarrow> w)) db) < l"
      using True i(1) s by (auto simp: reserve_room_iff)
    ultimately show "\<exists>s \<le> hit_at r. int (hits_since (hit_key r) (s - snd (p (hit_key r))) db) < fst (p (hit_key r))"
      using at [OF i(1)] i(2) s le [of i "length limits + i"] by (intro exI [of _ "clock i"]) simp
  qed
  with True r show ?thesis by (simp add: reserve_def)
next
  case False
  then show ?thesis
    using window_ok_tick [OF ok] t monoD [OF m, of 0 "2 * length limits"] by (simp add: reserve_def)
qed

lemma window_ok_renew:
  assumes ok: "window_ok p now db" and t: "now \<le> t"
    and live: "\<And>r. r \<in> set (hits db) \<Longrightarrow> hit_id r \<in> set ids \<Longrightarrow> t - snd (p (hit_key r)) < hit_at r"
  shows "window_ok p t (renew ids t db)"
proof -
  have now: "\<And>r. r \<in> set (hits db) \<Longrightarrow> hit_at r \<le> now" using ok by (simp add: window_ok_def)
  have "int (in_window k t' (snd (p k)) (hits (renew ids t db))) \<le> max 0 (fst (p k))" for k t'
  proof (cases "t \<le> t'")
    case True
    let ?q = "\<lambda>r. hit_key r = k \<and> t' - snd (p k) < hit_at r \<and> hit_at r \<le> t'"
    let ?live = "\<lambda>r. hit_key r = k \<and> t - snd (p k) < hit_at r \<and> hit_at r \<le> t"
    have "tbl_count ?q (tbl_update (\<lambda>r. hit_id r \<in> set ids) (\<lambda>r. r\<lparr>hit_at := t\<rparr>) (hits db)) \<le> tbl_count ?live (hits db)"
    proof (rule tbl_count_update_imp)
      fix r assume "r \<in> set (hits db)" "?q (if hit_id r \<in> set ids then r\<lparr>hit_at := t\<rparr> else r)"
      then show "?live r" using True t live [of r] now [of r] by (auto split: if_splits)
    qed
    moreover have "int (tbl_count ?live (hits db)) \<le> max 0 (fst (p k))"
      using ok by (simp add: window_ok_def in_window_def)
    ultimately show ?thesis by (simp add: in_window_def renew_def)
  next
    case False
    have "in_window k t' (snd (p k)) (hits (renew ids t db)) \<le> in_window k t' (snd (p k)) (hits db)"
      unfolding in_window_def renew_def using False by (auto intro: tbl_count_update_mono)
    moreover have "int (in_window k t' (snd (p k)) (hits db)) \<le> max 0 (fst (p k))"
      using ok by (simp add: window_ok_def)
    ultimately show ?thesis by linarith
  qed
  moreover have "\<forall>r \<in> set (hits (renew ids t db)). hit_at r \<le> t"
    using now t by (fastforce simp: renew_def set_tbl_update)
  ultimately show ?thesis by (simp add: window_ok_def)
qed

lemma tstep_window_ok:
  assumes "tstep p w w'" and "window_ok p (fst w) (snd w)"
  shows "window_ok p (fst w') (snd w')"
  using assms
proof (cases rule: tstep.cases)
  case (do_release now db ids)
  then show ?thesis using assms(2) by (auto intro: window_ok_rows simp: release_def)
next
  case (do_clear now db key)
  then show ?thesis using assms(2) by (auto intro: window_ok_rows simp: clear_hits_def)
next
  case (do_purge now db m t)
  then show ?thesis using assms(2) by (auto intro: window_ok_rows simp: purge_rate_limits_def)
qed (use assms(2) in \<open>auto intro: window_ok_tick window_ok_hit window_ok_reserve window_ok_renew\<close>)

lemma treach_window_ok: "treach p w \<Longrightarrow> window_ok p (fst w) (snd w)"
proof (induction rule: treach.induct)
  case (tstart now n ls)
  show ?case by (simp add: window_ok_def in_window_def tbl_simps)
next
  case (tmore w w')
  then show ?case by (blast intro: tstep_window_ok)
qed

subsection \<open>The interface of a counted guess\<close>

text \<open>
  What a client of the throttle promises, whatever it checks: an attempt is refused
  (\<open>None\<close>) and changes nothing, is wrong (\<open>Some False\<close>) and uses up one place of the
  budget that was still free, or is right and uses none. \<open>fits\<close> says which attempts
  fall in the window \<open>used\<close> counts. From these laws alone the number of wrong guesses
  is bounded.
\<close>

fun run_attempts :: "('a \<Rightarrow> 's \<Rightarrow> 'r \<times> 's) \<Rightarrow> 'a list \<Rightarrow> 's \<Rightarrow> 'r list \<times> 's" where
  "run_attempts attempt [] s = ([], s)"
| "run_attempts attempt (a # as) s =
     (let (r, s1) = attempt a s; (rs, s2) = run_attempts attempt as s1 in (r # rs, s2))"

locale guess_budget =
  fixes attempt :: "'a \<Rightarrow> 's \<Rightarrow> bool option \<times> 's"
    and inv :: "'s \<Rightarrow> bool"
    and used :: "'s \<Rightarrow> nat"
    and limit :: nat
    and fits :: "'a \<Rightarrow> bool"
  assumes keeps_inv: "inv s \<Longrightarrow> inv (snd (attempt a s))"
    and refused: "inv s \<Longrightarrow> fst (attempt a s) = None \<Longrightarrow> used (snd (attempt a s)) = used s"
    and wrong: "inv s \<Longrightarrow> fits a \<Longrightarrow> fst (attempt a s) = Some False \<Longrightarrow>
      used s < limit \<and> used (snd (attempt a s)) = Suc (used s)"
    and right: "inv s \<Longrightarrow> fits a \<Longrightarrow> fst (attempt a s) = Some True \<Longrightarrow> used (snd (attempt a s)) = used s"
begin

lemma wrong_used:
  assumes "inv s" and "\<forall>a \<in> set as. fits a"
  shows "used (snd (run_attempts attempt as s)) = used s + count_list (fst (run_attempts attempt as s)) (Some False)"
  using assms
proof (induction as arbitrary: s)
  case (Cons a as)
  obtain r s1 where a: "attempt a s = (r, s1)" by fastforce
  with keeps_inv [of s a] Cons.prems have "inv s1" by simp
  with Cons have "used (snd (run_attempts attempt as s1)) = used s1 + count_list (fst (run_attempts attempt as s1)) (Some False)"
    by simp
  moreover have "used s1 = used s + (if r = Some False then 1 else 0)"
    using refused [of s a] wrong [of s a] right [of s a] Cons.prems a by (cases r) auto
  ultimately show ?case by (simp add: a case_prod_beta)
qed simp

lemma used_limit:
  assumes "inv s" and "\<forall>a \<in> set as. fits a" and "used s \<le> limit"
  shows "used (snd (run_attempts attempt as s)) \<le> limit"
  using assms
proof (induction as arbitrary: s)
  case (Cons a as)
  obtain r s1 where a: "attempt a s = (r, s1)" by fastforce
  with keeps_inv [of s a] Cons.prems have "inv s1" by simp
  moreover have "used s1 \<le> limit"
    using refused [of s a] wrong [of s a] right [of s a] Cons.prems a by (cases r; cases "the r") auto
  ultimately show ?case using Cons by (simp add: a case_prod_beta)
qed simp

lemma wrong_bounded:
  assumes "inv s" and "\<forall>a \<in> set as. fits a"
  shows "count_list (fst (run_attempts attempt as s)) (Some False) \<le> limit - used s"
proof (cases "used s \<le> limit")
  case True
  with used_limit [OF assms True] wrong_used [OF assms] show ?thesis by linarith
next
  case False
  have "count_list (fst (run_attempts attempt as s)) (Some False) = 0"
    using assms False
  proof (induction as arbitrary: s)
    case (Cons a as)
    obtain r s1 where a: "attempt a s = (r, s1)" by fastforce
    with keeps_inv [of s a] Cons.prems have "inv s1" by simp
    moreover have "r \<noteq> Some False" using wrong [of s a] Cons.prems a by auto
    moreover from this have "used s1 = used s"
      using refused [of s a] right [of s a] Cons.prems a by (cases r) auto
    ultimately show ?case using Cons by (simp add: a case_prod_beta)
  qed simp
  then show ?thesis by simp
qed

end

text \<open>Counting is by key and window: rows of other keys and release of other rows do not matter.\<close>

lemma hits_since_append:
  "hits db' = hits db @ new \<Longrightarrow>
    hits_since k s db' = hits_since k s db + tbl_count (\<lambda>r. hit_key r = k \<and> s < hit_at r) new"
  by (simp add: hits_since_def tbl_simps)

lemma hits_since_mono: "s \<le> s' \<Longrightarrow> hits_since k s' db \<le> hits_since k s db"
  unfolding hits_since_def by (rule tbl_count_mono) auto

lemma tbl_count_one_key:
  assumes "distinct (map hit_key new)" and "r \<in> set new" "hit_key r = k" "s < hit_at r"
  shows "tbl_count (\<lambda>r. hit_key r = k \<and> s < hit_at r) new = 1"
proof -
  have "tbl_count (\<lambda>r. hit_key r = k \<and> s < hit_at r) new \<le> tbl_count (\<lambda>r. hit_key r = k) new"
    by (rule tbl_count_mono) auto
  also have "\<dots> \<le> 1" by (rule tbl_count_unique [OF assms(1)])
  finally show ?thesis
    using assms(2-4) tbl_count_0_iff [of "\<lambda>r. hit_key r = k \<and> s < hit_at r" new] by fastforce
qed

text \<open>
  One counted reservation, seen from one of its limits: when it is granted the limit's
  key had room and has one row more.
\<close>

lemma reserve_counts:
  assumes "reserve limits w clock db = (Some ids, db')" and "distinct (map fst limits)"
    and "i < length limits" "limits ! i = (k, l, wo)"
    and "clock i - (case wo of Some w' \<Rightarrow> w' | None \<Rightarrow> w) \<le> s" "s < clock (length limits + i)"
  shows "int (hits_since k s db) < l" and "hits_since k s db' = Suc (hits_since k s db)"
proof -
  obtain ids1 db1 where r: "reserve_record clock (length limits) limits db = (ids1, db1)" by fastforce
  with assms(1) have room: "reserve_room w clock 0 limits db" and eq: "db1 = db'"
    by (auto simp: reserve_def split: if_splits)
  have "int (hits_since k (clock i - (case wo of Some w' \<Rightarrow> w' | None \<Rightarrow> w)) db) < l"
    using room assms(3,4) by (auto simp: reserve_room_iff)
  with hits_since_mono [OF assms(5), of k db] show "int (hits_since k s db) < l" by linarith
  from reserve_record_rows [OF r] obtain new where new: "hits db' = hits db @ new"
    "map hit_key new = map fst limits" "map hit_at new = map (\<lambda>i. clock (length limits + i)) [0..<length limits]"
    by (auto simp: eq)
  have len: "length new = length limits" using arg_cong [OF new(2), of length] by simp
  then have "new ! i \<in> set new" "hit_key (new ! i) = k" "hit_at (new ! i) = clock (length limits + i)"
    using assms(3,4) arg_cong [OF new(2), of "\<lambda>xs. xs ! i"] arg_cong [OF new(3), of "\<lambda>xs. xs ! i"] by simp_all
  with assms(2,6) new(2) have "tbl_count (\<lambda>r. hit_key r = k \<and> s < hit_at r) new = 1"
    by (intro tbl_count_one_key) auto
  with hits_since_append [OF new(1)] show "hits_since k s db' = Suc (hits_since k s db)" by simp
qed

lemma hits_since_release_reserve:
  assumes "hits_wf db" and "reserve limits w clock db = (Some ids, db')"
  shows "hits_since k s (release ids db') = hits_since k s db"
  using release_reserve(1) [OF assms] by (simp add: hits_since_def)

definition confirm_attempt ::
  "(string \<Rightarrow> string \<Rightarrow> bool) \<Rightarrow> string \<Rightarrow> string \<Rightarrow> string \<times> (nat \<Rightarrow> stamp) \<Rightarrow> hits_db \<Rightarrow> bool option \<times> hits_db" where
  "confirm_attempt check user_id stored a db = confirm_password check user_id stored (fst a) (snd a) db"

text \<open>The attempts of the window of \<open>w\<close> seconds that starts after second \<open>T\<close>.\<close>

definition in_span :: "stamp \<Rightarrow> int \<Rightarrow> (nat \<Rightarrow> stamp) \<Rightarrow> bool" where
  "in_span T w clock \<longleftrightarrow> (\<forall>n. T < clock n \<and> clock n \<le> T + w)"

lemma confirm_password_cases:
  assumes "confirm_password check user_id stored given clock db = (r, db')"
  obtains (refused) "r = None" "db' = db"
  | (wrong) ids where "r = Some False" "reserve (confirm_limits user_id) CONFIRM_FAILURE_WINDOW clock db = (Some ids, db')"
      "\<not> check stored given"
  | (right) ids db1 where "r = Some True" "reserve (confirm_limits user_id) CONFIRM_FAILURE_WINDOW clock db = (Some ids, db1)"
      "check stored given" "db' = release ids db1"
proof (cases "reserve (confirm_limits user_id) CONFIRM_FAILURE_WINDOW clock db")
  case (Pair x db1)
  with assms reserve_None [of "confirm_limits user_id" CONFIRM_FAILURE_WINDOW clock db] that show thesis
    by (cases x) (auto simp: confirm_password_def split: if_splits)
qed

lemma hits_wf_confirm: "hits_wf db \<Longrightarrow> hits_wf (snd (confirm_password check user_id stored given clock db))"
proof -
  assume wf: "hits_wf db"
  obtain r db' where c: "confirm_password check user_id stored given clock db = (r, db')" by fastforce
  then have "hits_wf db'"
    by (cases rule: confirm_password_cases)
      (use wf hits_wf_reserve [OF wf, of "confirm_limits user_id" CONFIRM_FAILURE_WINDOW clock] in \<open>auto intro: hits_wf_release\<close>)
  with c show ?thesis by simp
qed

lemma confirm_budget:
  assumes "i < length (confirm_limits user_id)" and "confirm_limits user_id ! i = (k, l, wo)"
    and "w = (case wo of Some w' \<Rightarrow> w' | None \<Rightarrow> CONFIRM_FAILURE_WINDOW)"
  shows "guess_budget (confirm_attempt check user_id stored) hits_wf (hits_since k T) (nat l) (\<lambda>a. in_span T w (snd a))"
proof
  fix db and a :: "string \<times> (nat \<Rightarrow> stamp)"
  obtain given clock where a: "a = (given, clock)" by fastforce
  assume wf: "hits_wf db"
  show "hits_wf (snd (confirm_attempt check user_id stored a db))"
    using hits_wf_confirm [OF wf] by (simp add: confirm_attempt_def)
  obtain r db' where c: "confirm_password check user_id stored given clock db = (r, db')" by fastforce
  have eq: "confirm_attempt check user_id stored a db = (r, db')" by (simp add: a c confirm_attempt_def)
  have d: "distinct (map fst (confirm_limits user_id))" by (simp add: confirm_limits_def)
  show "hits_since k T (snd (confirm_attempt check user_id stored a db)) = hits_since k T db"
    if "fst (confirm_attempt check user_id stored a db) = None"
    using c by (cases rule: confirm_password_cases) (use that eq in auto)
  assume fit: "in_span T w (snd a)"
  show "hits_since k T db < nat l \<and> hits_since k T (snd (confirm_attempt check user_id stored a db)) = Suc (hits_since k T db)"
    if "fst (confirm_attempt check user_id stored a db) = Some False"
    using c
  proof (cases rule: confirm_password_cases)
    case (wrong ids)
    have "clock i - w \<le> T" "T < clock (length (confirm_limits user_id) + i)"
      using fit by (simp_all add: in_span_def a algebra_simps)
    with reserve_counts [OF wrong(2) d assms(1,2), of T] show ?thesis by (simp add: eq assms(3))
  qed (use that eq in auto)
  show "hits_since k T (snd (confirm_attempt check user_id stored a db)) = hits_since k T db"
    if "fst (confirm_attempt check user_id stored a db) = Some True"
    using c
  proof (cases rule: confirm_password_cases)
    case (right ids db1)
    with hits_since_release_reserve [OF wf right(2)] show ?thesis by (simp add: eq)
  qed (use that eq in auto)
qed

text \<open>The confirmation budget of fifteen minutes, and the one of a day.\<close>

interpretation confirm_short: guess_budget "confirm_attempt check user_id stored" hits_wf
    "hits_since (''confirm-fail:'' @ user_id) T" "nat CONFIRM_FAILURES" "\<lambda>a. in_span T CONFIRM_FAILURE_WINDOW (snd a)"
  for check user_id stored T
  by (rule confirm_budget [where i = 0 and wo = None]) (simp_all add: confirm_limits_def)

interpretation confirm_day: guess_budget "confirm_attempt check user_id stored" hits_wf
    "hits_since (''confirm-fail-day:'' @ user_id) T" "nat CONFIRM_FAILURES_PER_DAY" "\<lambda>a. in_span T 86400 (snd a)"
  for check user_id stored T
  by (rule confirm_budget [where i = 1 and wo = "Some 86400"]) (simp_all add: confirm_limits_def)

subsection \<open>Properties\<close>

text \<open>
  Whatever the processes do, in any stretch of a key's window (the \<open>w\<close> seconds up
  to \<open>t\<close>) at most the limit of the key's events is recorded.
\<close>

theorem window_limit:
  assumes "treach p (now, db)" and "p k = (limit, w)"
  shows "int (in_window k t w (hits db)) \<le> max 0 limit"
  using treach_window_ok [OF assms(1)] assms(2) by (auto simp: window_ok_def dest: spec [of _ k])

definition ex_hits :: hits_db where
  "ex_hits = \<lparr>hits = [\<lparr>hit_id = 1, hit_key = ''login'', hit_at = 5\<rparr>], next_hit = 2, login_attempts = []\<rparr>"

theorem window_limit_witness:
  "treach (\<lambda>k. (1, 60)) (5, ex_hits) \<and> in_window ''login'' 30 60 (hits ex_hits) = 1 \<and>
    int (in_window ''login'' 30 60 (hits ex_hits)) \<le> max 0 1"
proof -
  have "treach (\<lambda>k. (1, 60)) (5, snd (hit ''login'' 1 60 True 4 5 \<lparr>hits = [], next_hit = 1, login_attempts = []\<rparr>))"
    by (rule tmore [OF tstart [where now = 3] do_hit]) simp_all
  then have "treach (\<lambda>k. (1, 60)) (5, ex_hits)"
    by (simp add: hit_def hits_since_def insert_hit_def ex_hits_def tbl_simps)
  with window_limit [OF this, where k = "''login''" and t = 30] show ?thesis
    by (simp add: in_window_def ex_hits_def tbl_simps)
qed

text \<open>A reservation is all or nothing and can be undone: it is refused exactly when
  some limit is zero or used up, and then records nothing; granted, it records one row
  per limit, and releasing it gives back the rows there were.
\<close>

theorem reserve_all_or_nothing:
  assumes "hits_wf db"
  shows "(case reserve limits w clock db of
      (None, db') \<Rightarrow> db' = db \<and> (\<exists>i < length limits. case limits ! i of (k, l, wo) \<Rightarrow>
        l \<le> 0 \<or> l \<le> int (hits_since k (clock i - (case wo of Some w' \<Rightarrow> w' | None \<Rightarrow> w)) db))
    | (Some ids, db') \<Rightarrow> length ids = length limits \<and> length (hits db') = length (hits db) + length limits \<and>
        hits (release ids db') = hits db \<and> hits_wf (release ids db'))"
proof (cases "reserve limits w clock db")
  case (Pair x db')
  show ?thesis
  proof (cases x)
    case None
    with Pair have "db' = db" "\<not> reserve_room w clock 0 limits db"
      by (auto simp: reserve_def split: if_splits prod.splits)
    with Pair None show ?thesis by (force simp: reserve_room_iff)
  next
    case (Some ids)
    with Pair have r: "reserve limits w clock db = (Some ids, db')" by simp
    then have "reserve_record clock (length limits) limits db = (ids, db')"
      by (auto simp: reserve_def split: if_splits prod.splits)
    from reserve_record_rows [OF this] have "length (hits db') = length (hits db) + length limits"
      by (metis length_append length_map)
    moreover have "hits_wf db'" using hits_wf_reserve [OF assms, of limits w clock] r by simp
    ultimately show ?thesis using release_reserve [OF assms r] r by (simp add: hits_wf_release)
  qed
qed

theorem reserve_all_or_nothing_witness:
  "hits_wf ex_hits \<and>
    (case reserve [(''login'', 2, None)] 60 (\<lambda>_. 30) ex_hits of (None, _) \<Rightarrow> False
     | (Some ids, db') \<Rightarrow> length ids = 1 \<and> hits (release ids db') = hits ex_hits)"
proof -
  have wf: "hits_wf ex_hits" by (simp add: hits_wf_def ex_hits_def)
  obtain ids db' where "reserve [(''login'', 2, None)] 60 (\<lambda>_. 30) ex_hits = (Some ids, db')"
    by (simp add: reserve_def hits_since_def ex_hits_def tbl_simps)
  with wf reserve_all_or_nothing [OF wf, where limits = "[(''login'', 2, None)]" and w = 60 and clock = "\<lambda>_. 30"]
  show ?thesis by simp
qed



end
