(* ===== verification/Accounts.thy ===== *)
theory Accounts
  imports BC_Prelude
begin

section \<open>Accounts\<close>

text \<open>
  The account operations of bananachat/db/users.py over the tables they touch: \<open>users\<close>,
  \<open>auth_sessions\<close> (its own operations are in \<open>Sessions\<close>), and what a suspension or
  deletion stops: \<open>active_streams\<close> (leases of running answers, found by account or by
  chat), \<open>chat_sessions\<close> and \<open>agent_tasks\<close>. A foreign key with ON DELETE CASCADE is
  written out where its parent row is deleted.

  Ids and tokens drawn at random, password hashes and clock readings are arguments.
\<close>

text \<open>A stored time: in the stored format, or text that does not parse.\<close>

datatype time_text = At stamp | Unparsed string

fun parse_timestamp :: "time_text option \<Rightarrow> stamp option" where
  "parse_timestamp (Some (At t)) = Some t"
| "parse_timestamp _ = None"

fun time_truthy :: "time_text option \<Rightarrow> bool" where
  "time_truthy None = False"
| "time_truthy (Some (At t)) = True"
| "time_truthy (Some (Unparsed s)) = (s \<noteq> [])"

record account =
  acc_id :: string
  username :: string
  password :: string
  role :: string
  suspended :: bool
  suspended_until :: "time_text option"
  last_suspension_at :: "time_text option"
  invite_code :: "string option"
  created_at :: stamp
  last_login_at :: "stamp option"
  session_version :: int
  device_epoch :: "string option"
  bm_mode_on :: bool
  bm_mode_control :: string

record auth_session =
  id_hash :: string
  s_user :: string
  s_created_at :: "time_text option"
  last_seen_at :: stamp
  expires_at :: stamp
  user_agent :: string
  ip_address :: string
  verified_at :: "stamp option"

record chat_row =
  chat_id :: string
  chat_user :: string

record stream_row =
  stream_session :: string
  stream_user :: "string option"
  stream_stop :: bool

datatype task_status = Queued | Task_Running | Paused | Finished | Failed | Stopped | Out_Of_Budget | Interrupted

record task_row =
  task_id :: string
  task_user :: string
  task_status :: task_status
  task_owner_token :: "string option"
  task_stop_requested :: int

record accounts_db =
  users :: "account list"
  sessions :: "auth_session list"
  chats :: "chat_row list"
  streams :: "stream_row list"
  tasks :: "task_row list"

datatype acc_error = ValueError string | LookupError string | AuthenticationChanged | RuntimeError string
  | UniqueError string | ForeignKeyError

definition ROLES :: "string list" where "ROLES = [''user'', ''admin'']"
definition BM_MODE_CONTROLS :: "string list" where "BM_MODE_CONTROLS = [''site'', ''self'', ''admin'']"
definition STOP_BY_ADMIN :: int where "STOP_BY_ADMIN = 2"

text \<open>COLLATE NOCASE: the 26 ASCII letters compare without case.\<close>

definition nocase :: "string \<Rightarrow> string" where
  "nocase s = map (\<lambda>c. if 65 \<le> (of_char c :: nat) \<and> (of_char c :: nat) \<le> 90 then char_of ((of_char c :: nat) + 32) else c) s"

subsection \<open>Reading accounts\<close>

definition users_get :: "string \<Rightarrow> accounts_db \<Rightarrow> account option" where
  "users_get user_id db = (if user_id = [] then None else tbl_one (\<lambda>u. acc_id u = user_id) (users db))"

definition get_by_username :: "string \<Rightarrow> accounts_db \<Rightarrow> account option" where
  "get_by_username name db =
     (if name = [] then None else tbl_one (\<lambda>u. nocase (username u) = nocase name) (users db))"

definition active_admin :: "account \<Rightarrow> bool" where
  "active_admin u \<longleftrightarrow> role u = ''admin'' \<and> \<not> suspended u"

definition count_active_admins :: "accounts_db \<Rightarrow> nat" where
  "count_active_admins db = tbl_count active_admin (users db)"

fun is_suspended :: "epoch \<Rightarrow> account option \<Rightarrow> bool" where
  "is_suspended now None = False"
| "is_suspended now (Some u) =
     (if \<not> suspended u then False
      else let until = parse_timestamp (suspended_until u) in
        if time_truthy (suspended_until u) \<and> until = None then True
        else case until of None \<Rightarrow> True | Some t \<Rightarrow> of_int t > now)"

definition suspended_or_gone :: "epoch \<Rightarrow> string \<Rightarrow> accounts_db \<Rightarrow> bool" where
  "suspended_or_gone now user_id db =
     (let user = users_get user_id db in user = None \<or> is_suspended now user)"

subsection \<open>BM mode\<close>

record bm_settings =
  bm_mode_global :: bool
  bm_mode_self_service :: bool

text \<open>Missing settings (\<open>None\<close>) read as the defaults of the code: not global, self-service on.\<close>

definition bm_mode :: "account option \<Rightarrow> bm_settings option \<Rightarrow> bool" where
  "bm_mode user settings =
     (case user of None \<Rightarrow> False
      | Some u \<Rightarrow> if (case settings of None \<Rightarrow> False | Some s \<Rightarrow> bm_mode_global s) then True else bm_mode_on u)"

definition bm_mode_switchable :: "account option \<Rightarrow> bm_settings option \<Rightarrow> bool" where
  "bm_mode_switchable user settings =
     (case user of None \<Rightarrow> False
      | Some u \<Rightarrow>
          if (case settings of None \<Rightarrow> False | Some s \<Rightarrow> bm_mode_global s) then False
          else if bm_mode_control u = ''site''
               then (case settings of None \<Rightarrow> True | Some s \<Rightarrow> bm_mode_self_service s)
          else bm_mode_control u = ''self'')"

definition update_user :: "string \<Rightarrow> (account \<Rightarrow> account) \<Rightarrow> accounts_db \<Rightarrow> accounts_db" where
  "update_user user_id f db = db\<lparr>users := tbl_update (\<lambda>u. acc_id u = user_id) f (users db)\<rparr>"

definition set_bm_mode :: "string \<Rightarrow> bool \<Rightarrow> accounts_db \<Rightarrow> accounts_db" where
  "set_bm_mode user_id on db = update_user user_id (\<lambda>u. u\<lparr>bm_mode_on := on\<rparr>) db"

definition set_bm_mode_control :: "string \<Rightarrow> string \<Rightarrow> accounts_db \<Rightarrow> acc_error + accounts_db" where
  "set_bm_mode_control user_id control db =
     (if control \<notin> set BM_MODE_CONTROLS then Inl (ValueError ''Unknown BM mode control.'')
      else Inr (update_user user_id (\<lambda>u. u\<lparr>bm_mode_control := control\<rparr>) db))"

definition set_bm_mode_all :: "bool \<Rightarrow> accounts_db \<Rightarrow> accounts_db" where
  "set_bm_mode_all on db =
     db\<lparr>users := tbl_update (\<lambda>u. bm_mode_on u \<noteq> on) (\<lambda>u. u\<lparr>bm_mode_on := on\<rparr>) (users db)\<rparr>"

subsection \<open>Creating and changing accounts\<close>

text \<open>
  \<open>draws\<close> are the five random ids the loop may draw, in order. The insert fails when the
  username is taken (UNIQUE COLLATE NOCASE).
\<close>

fun new_user_id :: "string list \<Rightarrow> accounts_db \<Rightarrow> string option" where
  "new_user_id [] db = None"
| "new_user_id (i # is) db =
     (if tbl_one (\<lambda>u. acc_id u = i) (users db) = None then Some i else new_user_id is db)"

definition users_create ::
  "string \<Rightarrow> string \<Rightarrow> string \<Rightarrow> string option \<Rightarrow> string list \<Rightarrow> stamp \<Rightarrow> accounts_db \<Rightarrow> acc_error + (string \<times> accounts_db)" where
  "users_create name password_hash r invite draws t db =
     (if r \<notin> set ROLES then Inl (ValueError ''Unknown role.'')
      else case new_user_id (take 5 draws) db of
        None \<Rightarrow> Inl (RuntimeError ''Could not allocate a user id.'')
      | Some user_id \<Rightarrow>
          if tbl_one (\<lambda>u. nocase (username u) = nocase name) (users db) \<noteq> None then Inl (UniqueError ''users.username'')
          else Inr (user_id, db\<lparr>users := users db @
            [\<lparr>acc_id = user_id, username = name, password = password_hash, role = r, suspended = False,
              suspended_until = None, last_suspension_at = None, invite_code = invite, created_at = t,
              last_login_at = None, session_version = 0, device_epoch = None, bm_mode_on = False,
              bm_mode_control = ''site''\<rparr>]\<rparr>))"

definition set_role :: "string \<Rightarrow> string \<Rightarrow> accounts_db \<Rightarrow> acc_error + accounts_db" where
  "set_role user_id r db =
     (if r \<notin> set ROLES then Inl (ValueError ''Unknown role.'')
      else case users_get user_id db of
        None \<Rightarrow> Inl (LookupError ''User not found.'')
      | Some current \<Rightarrow>
          if role current = ''admin'' \<and> r \<noteq> ''admin'' \<and> \<not> suspended current \<and> count_active_admins db \<le> 1
          then Inl (ValueError ''The last administrator cannot be demoted.'')
          else Inr (update_user user_id (\<lambda>u. u\<lparr>role := r\<rparr>) db))"

text \<open>\<open>revoke_sessions\<close>: every session but \<open>except_hash\<close> (if truthy); device cookies lapse unless kept.\<close>

definition revoke_sessions :: "string \<Rightarrow> string option \<Rightarrow> bool \<Rightarrow> accounts_db \<Rightarrow> accounts_db" where
  "revoke_sessions user_id except_hash keep_devices db =
     (let db1 = update_user user_id (\<lambda>u. (if keep_devices then u else u\<lparr>device_epoch := None\<rparr>)
            \<lparr>session_version := session_version u + 1\<rparr>) db
      in if truthy except_hash
         then db1\<lparr>sessions := tbl_delete (\<lambda>s. s_user s = user_id \<and> id_hash s \<noteq> the except_hash) (sessions db1)\<rparr>
         else db1\<lparr>sessions := tbl_delete (\<lambda>s. s_user s = user_id) (sessions db1)\<rparr>)"

definition stop_streams :: "string \<Rightarrow> accounts_db \<Rightarrow> accounts_db" where
  "stop_streams user_id db =
     db\<lparr>streams := tbl_update
          (\<lambda>s. stream_user s = Some user_id \<or>
               stream_session s \<in> set (map chat_id (filter (\<lambda>c. chat_user c = user_id) (chats db))))
          (\<lambda>s. s\<lparr>stream_stop := True\<rparr>) (streams db)\<rparr>"

definition task_active :: "task_row \<Rightarrow> bool" where
  "task_active t \<longleftrightarrow> task_status t \<in> {Queued, Task_Running, Paused} \<and> task_owner_token t \<noteq> None"

definition request_stop_for_user :: "string \<Rightarrow> accounts_db \<Rightarrow> string list \<times> accounts_db" where
  "request_stop_for_user user_id db =
     (map task_id (filter (\<lambda>t. task_user t = user_id \<and> task_active t) (tasks db)),
      db\<lparr>tasks := tbl_update (\<lambda>t. task_user t = user_id \<and> task_active t)
           (\<lambda>t. t\<lparr>task_stop_requested := STOP_BY_ADMIN\<rparr>) (tasks db)\<rparr>)"

definition suspend :: "string \<Rightarrow> stamp option \<Rightarrow> stamp \<Rightarrow> accounts_db \<Rightarrow> acc_error + accounts_db" where
  "suspend user_id until t db =
     (case users_get user_id db of
        None \<Rightarrow> Inl (LookupError ''User not found.'')
      | Some current \<Rightarrow>
          if role current = ''admin'' \<and> \<not> suspended current \<and> count_active_admins db \<le> 1
          then Inl (ValueError ''The last administrator cannot be suspended.'')
          else
            let db1 = update_user user_id (\<lambda>u. u\<lparr>suspended := True, suspended_until := map_option At until,
                        last_suspension_at := Some (At t)\<rparr>) db;
                db2 = revoke_sessions user_id None False db1;
                db3 = stop_streams user_id db2
            in Inr (snd (request_stop_for_user user_id db3)))"

definition unsuspend :: "string \<Rightarrow> stamp \<Rightarrow> accounts_db \<Rightarrow> accounts_db" where
  "unsuspend user_id t db =
     db\<lparr>users := tbl_update (\<lambda>u. acc_id u = user_id \<and> suspended u)
          (\<lambda>u. u\<lparr>suspended := False, suspended_until := None, last_suspension_at := Some (At t)\<rparr>) (users db)\<rparr>"

text \<open>
  \<open>lift_expired_suspension\<close> takes a row read earlier: the UPDATE applies only while the
  stored end is still that row's. The first result is whether it was lifted.
\<close>

definition lift_expired_suspension :: "account option \<Rightarrow> epoch \<Rightarrow> accounts_db \<Rightarrow> bool \<times> accounts_db" where
  "lift_expired_suspension user now db =
     (case user of None \<Rightarrow> (False, db)
      | Some u \<Rightarrow>
          if \<not> suspended u \<or> is_suspended now user then (False, db)
          else let q = (\<lambda>r. acc_id r = acc_id u \<and> suspended r \<and> suspended_until u \<noteq> None \<and>
                            suspended_until r = suspended_until u)
            in (tbl_count q (users db) = 1,
                db\<lparr>users := tbl_update q (\<lambda>r. r\<lparr>suspended := False, suspended_until := None,
                     last_suspension_at := suspended_until r\<rparr>) (users db)\<rparr>))"

definition users_delete :: "string \<Rightarrow> accounts_db \<Rightarrow> acc_error + accounts_db" where
  "users_delete user_id db =
     (case users_get user_id db of
        None \<Rightarrow> Inr db
      | Some current \<Rightarrow>
          if role current = ''admin'' \<and> \<not> suspended current \<and> count_active_admins db \<le> 1
          then Inl (ValueError ''The last administrator cannot be deleted.'')
          else
            let db1 = stop_streams user_id db
            in Inr (db1\<lparr>users := tbl_delete (\<lambda>u. acc_id u = user_id) (users db1),
                 sessions := tbl_delete (\<lambda>s. s_user s = user_id) (sessions db1),
                 chats := tbl_delete (\<lambda>c. chat_user c = user_id) (chats db1),
                 tasks := tbl_delete (\<lambda>t. task_user t = user_id) (tasks db1)\<rparr>))"

definition touch_login :: "string \<Rightarrow> stamp \<Rightarrow> accounts_db \<Rightarrow> accounts_db" where
  "touch_login user_id t db = update_user user_id (\<lambda>u. u\<lparr>last_login_at := Some t\<rparr>) db"

subsection \<open>Changing a password\<close>

text \<open>
  The lock of \<open>verified_credentials\<close>: under the write lock, the account still has the
  password hash and the login session that the request verified before.
\<close>

definition verified_credentials ::
  "string \<Rightarrow> string \<Rightarrow> string option \<Rightarrow> stamp \<Rightarrow> epoch \<Rightarrow> accounts_db \<Rightarrow> acc_error + account" where
  "verified_credentials user_id password_hash idh t now db =
     (let current = users_get user_id db;
          live = truthy idh \<and> tbl_one (\<lambda>s. s_user s = user_id \<and> id_hash s = the idh \<and> expires_at s > t) (sessions db) \<noteq> None
      in case current of None \<Rightarrow> Inl AuthenticationChanged
         | Some u \<Rightarrow> if password u \<noteq> password_hash \<or> \<not> live \<or> is_suspended now current
                     then Inl AuthenticationChanged else Inr u)"

definition set_password ::
  "string \<Rightarrow> string \<Rightarrow> string option \<Rightarrow> string option \<Rightarrow> stamp \<Rightarrow> epoch \<Rightarrow> accounts_db \<Rightarrow> acc_error + accounts_db" where
  "set_password user_id password_hash keep_session expected_password t now db =
     (let change = revoke_sessions user_id keep_session False
            (update_user user_id (\<lambda>u. u\<lparr>password := password_hash\<rparr>) db)
      in case expected_password of
           None \<Rightarrow> Inr change
         | Some old \<Rightarrow> (case verified_credentials user_id old keep_session t now db of
               Inl e \<Rightarrow> Inl e | Inr _ \<Rightarrow> Inr change))"

end
