(* ===== verification/One_Shot.thy ===== *)
theory One_Shot
  imports BC_Prelude
begin

section \<open>The interface of a thing that is taken once\<close>

text \<open>
  A recovery code, a time step of an authenticator, a session moved to a new cookie,
  the lease of a run whose usage is charged: each is held in a table until one action
  takes it. The locale states what such a table promises about one step (the actions of
  all processes, \<open>act\<close>, in any order): \<open>left k\<close>, how often a key can still be taken,
  grows only by an action that issues the key, and an action that takes the key makes
  it smaller. The providers are \<open>Sessions\<close>, \<open>Two_Step\<close>, \<open>Runs\<close> and \<open>Agent_Tasks\<close>.
\<close>

fun run_acts :: "('l \<Rightarrow> 's \<Rightarrow> 'r \<times> 's) \<Rightarrow> 'l list \<Rightarrow> 's \<Rightarrow> ('l \<times> 'r) list \<times> 's" where
  "run_acts act [] s = ([], s)"
| "run_acts act (l # ls) s =
     (let (r, s1) = act l s; (rs, s2) = run_acts act ls s1 in ((l, r) # rs, s2))"

locale one_shot =
  fixes act :: "'l \<Rightarrow> 's \<Rightarrow> 'r \<times> 's"
    and left :: "'k \<Rightarrow> 's \<Rightarrow> nat"
    and issues :: "'l \<Rightarrow> 'k \<Rightarrow> bool"
    and takes :: "'l \<Rightarrow> 'r \<Rightarrow> 'k \<Rightarrow> bool"
  assumes born: "\<not> issues l k \<Longrightarrow> left k (snd (act l s)) \<le> left k s"
    and taken: "takes l (fst (act l s)) k \<Longrightarrow> left k (snd (act l s)) < left k s"
begin

lemma stays_gone:
  "left k s = 0 \<Longrightarrow> \<forall>l \<in> set ls. \<not> issues l k \<Longrightarrow> left k (snd (run_acts act ls s)) = 0"
proof (induction ls arbitrary: s)
  case (Cons l ls)
  obtain r s1 where a: "act l s = (r, s1)" by fastforce
  with born [of l k s] Cons.prems have "left k s1 = 0" by auto
  with Cons show ?case by (simp add: a case_prod_beta)
qed simp

lemma taken_at_most:
  "\<forall>l \<in> set ls. \<not> issues l k \<Longrightarrow>
    length (filter (\<lambda>x. takes (fst x) (snd x) k) (fst (run_acts act ls s))) +
      left k (snd (run_acts act ls s)) \<le> left k s"
proof (induction ls arbitrary: s)
  case (Cons l ls)
  obtain r s1 where a: "act l s = (r, s1)" by fastforce
  have "left k s1 + of_bool (takes l r k) \<le> left k s"
    using born [of l k s] taken [of l s k] Cons.prems a by auto
  with Cons.IH [of s1] Cons.prems show ?case by (cases "takes l r k") (simp_all add: a case_prod_beta)
qed simp

end

end
