(* ===== verification/Sessions.thy ===== *)
theory Sessions
  imports Accounts One_Shot
begin

section \<open>Login sessions\<close>

text \<open>
  The login sessions of bananachat/db/users.py: a row of \<open>auth_sessions\<close> per signed-in
  browser, found by the SHA-256 of the cookie's token (\<open>sha\<close>, a parameter). Then every
  step the processes take on accounts and sessions, the invariants of the tables
  (unique keys, no orphan rows, an active administrator always) and the properties of
  revocation, the session cap and the one-time move of a session.
\<close>

definition MAX_SESSIONS_PER_ACCOUNT :: nat where "MAX_SESSIONS_PER_ACCOUNT = 50"

definition DAY :: int where "DAY = 86400"

subsection \<open>Operations\<close>

text \<open>
  The sessions a new sign-in keeps: live ones, most recently used first, later rows
  first among equals (ORDER BY last_seen_at DESC, rowid DESC LIMIT ?).
\<close>

definition kept_sessions :: "string \<Rightarrow> stamp \<Rightarrow> auth_session list \<Rightarrow> auth_session list" where
  "kept_sessions user_id t rows =
     take MAX_SESSIONS_PER_ACCOUNT
       (sort_key (\<lambda>s. - last_seen_at s) (rev (filter (\<lambda>s. s_user s = user_id \<and> expires_at s > t) rows)))"

text \<open>Four clock readings: created, last seen, expiry, and the pruning.\<close>

definition create_session ::
  "(string \<Rightarrow> string) \<Rightarrow> string \<Rightarrow> string \<Rightarrow> int \<Rightarrow> string \<Rightarrow> string \<Rightarrow> stamp \<Rightarrow> stamp \<Rightarrow> stamp \<Rightarrow> stamp \<Rightarrow> accounts_db
    \<Rightarrow> acc_error + accounts_db" where
  "create_session sha token user_id days agent ip t1 t2 t3 t4 db =
     (if tbl_one (\<lambda>s. id_hash s = sha token) (sessions db) \<noteq> None then Inl (UniqueError ''auth_sessions.id_hash'')
      else if tbl_one (\<lambda>u. acc_id u = user_id) (users db) = None then Inl ForeignKeyError
      else
        let rows = sessions db @ [\<lparr>id_hash = sha token, s_user = user_id, s_created_at = Some (At t1), last_seen_at = t2,
              expires_at = t3 + days * DAY, user_agent = take 300 agent, ip_address = take 64 ip, verified_at = None\<rparr>]
        in Inr (db\<lparr>sessions := tbl_delete
             (\<lambda>s. s_user s = user_id \<and> id_hash s \<notin> set (map id_hash (kept_sessions user_id t4 rows))) rows\<rparr>))"

text \<open>
  \<open>move_session\<close>: \<open>started_before\<close> is a Unix time; \<open>fresh\<close> the new token. A sibling with
  a created_at that does not parse ends too.
\<close>

definition started_before_time :: "epoch \<Rightarrow> time_text option \<Rightarrow> bool" where
  "started_before_time before created =
     (case parse_timestamp created of None \<Rightarrow> True | Some t \<Rightarrow> of_int t < before)"

definition move_session ::
  "(string \<Rightarrow> string) \<Rightarrow> string option \<Rightarrow> string \<Rightarrow> epoch \<Rightarrow> string \<Rightarrow> stamp \<Rightarrow> accounts_db
    \<Rightarrow> acc_error + (string option \<times> accounts_db)" where
  "move_session sha token agent started_before fresh t db =
     (if \<not> truthy token \<or> length (the token) > 128 then Inr (None, db)
      else case tbl_one (\<lambda>s. id_hash s = sha (the token) \<and> expires_at s > t) (sessions db) of
        None \<Rightarrow> Inr (None, db)
      | Some row \<Rightarrow>
          (case parse_timestamp (s_created_at row) of
             None \<Rightarrow> Inr (None, db)
           | Some started \<Rightarrow>
               if of_int started \<ge> started_before then Inr (None, db)
               else if user_agent row \<noteq> take 300 agent
               then Inr (None, db\<lparr>sessions := tbl_delete (\<lambda>s. id_hash s = id_hash row) (sessions db)\<rparr>)
               else
                 let rows = tbl_delete (\<lambda>s. s_user s = s_user row \<and> id_hash s \<noteq> id_hash row \<and>
                       user_agent s = user_agent row \<and> started_before_time started_before (s_created_at s)) (sessions db)
                 in if \<exists>s \<in> set rows. id_hash s = sha fresh \<and> id_hash s \<noteq> id_hash row
                    then Inl (UniqueError ''auth_sessions.id_hash'')
                    else Inr (Some fresh, db\<lparr>sessions := tbl_update (\<lambda>s. id_hash s = id_hash row)
                      (\<lambda>s. s\<lparr>id_hash := sha fresh, verified_at := None\<rparr>) rows\<rparr>)))"

definition load_session :: "(string \<Rightarrow> string) \<Rightarrow> string option \<Rightarrow> stamp \<Rightarrow> accounts_db \<Rightarrow> (auth_session \<times> account) option" where
  "load_session sha token t db =
     (if \<not> truthy token \<or> length (the token) > 128 then None
      else case tbl_one (\<lambda>s. id_hash s = sha (the token) \<and> expires_at s > t) (sessions db) of
        None \<Rightarrow> None
      | Some row \<Rightarrow> (case users_get (s_user row) db of None \<Rightarrow> None | Some u \<Rightarrow> Some (row, u)))"

text \<open>\<open>now\<close> is compared with the stored second exactly; then the two readings of the UPDATE.\<close>

definition refresh_session :: "auth_session \<Rightarrow> int \<Rightarrow> epoch \<Rightarrow> stamp \<Rightarrow> stamp \<Rightarrow> accounts_db \<Rightarrow> accounts_db" where
  "refresh_session row days now t1 t2 db =
     (if now - of_int (last_seen_at row) < 300 then db
      else db\<lparr>sessions := tbl_update (\<lambda>s. id_hash s = id_hash row)
             (\<lambda>s. s\<lparr>last_seen_at := t1, expires_at := t2 + days * DAY\<rparr>) (sessions db)\<rparr>)"

definition revoke_session :: "string \<Rightarrow> string \<Rightarrow> accounts_db \<Rightarrow> bool \<times> accounts_db" where
  "revoke_session user_id idh db =
     (let q = (\<lambda>s. s_user s = user_id \<and> id_hash s = idh);
          removed = (tbl_count q (sessions db) = 1);
          db1 = db\<lparr>sessions := tbl_delete q (sessions db)\<rparr>
      in (removed, if removed then update_user user_id (\<lambda>u. u\<lparr>session_version := session_version u + 1\<rparr>) db1 else db1))"

definition end_session :: "(string \<Rightarrow> string) \<Rightarrow> string option \<Rightarrow> accounts_db \<Rightarrow> accounts_db" where
  "end_session sha token db =
     (if \<not> truthy token then db
      else case tbl_one (\<lambda>s. id_hash s = sha (the token)) (sessions db) of
        None \<Rightarrow> db | Some row \<Rightarrow> snd (revoke_session (s_user row) (sha (the token)) db))"

definition mark_session_verified :: "string option \<Rightarrow> stamp \<Rightarrow> accounts_db \<Rightarrow> accounts_db" where
  "mark_session_verified idh t db =
     (if truthy idh then db\<lparr>sessions := tbl_update (\<lambda>s. id_hash s = the idh) (\<lambda>s. s\<lparr>verified_at := Some t\<rparr>) (sessions db)\<rparr>
      else db)"

definition session_alive :: "string option \<Rightarrow> string \<Rightarrow> stamp \<Rightarrow> accounts_db \<Rightarrow> bool" where
  "session_alive idh user_id t db =
     (if \<not> truthy idh then False
      else tbl_one (\<lambda>s. id_hash s = the idh \<and> s_user s = user_id \<and> expires_at s > t) (sessions db) \<noteq> None)"

definition session_verified_within :: "string option \<Rightarrow> int \<Rightarrow> stamp \<Rightarrow> stamp \<Rightarrow> accounts_db \<Rightarrow> bool" where
  "session_verified_within idh seconds t1 t2 db =
     (if \<not> truthy idh then False
      else tbl_one (\<lambda>s. id_hash s = the idh \<and> expires_at s > t1 \<and>
             (case verified_at s of None \<Rightarrow> False | Some v \<Rightarrow> v > t2 - seconds)) (sessions db) \<noteq> None)"

definition purge_expired_sessions :: "stamp \<Rightarrow> accounts_db \<Rightarrow> nat \<times> accounts_db" where
  "purge_expired_sessions t db =
     (tbl_count (\<lambda>s. expires_at s \<le> t) (sessions db),
      db\<lparr>sessions := tbl_delete (\<lambda>s. expires_at s \<le> t) (sessions db)\<rparr>)"

subsection \<open>The cookie: signing in, out and the current user\<close>

text \<open>
  From bananachat/security.py. What the signed cookie carries of the sign-in: the token,
  and for cookies of releases before server-side sessions an account and its session
  version. \<open>language\<close> survives signing in and out.
\<close>

record cookie =
  c_sid :: "string option"
  c_user_id :: "string option"
  c_session_version :: int
  c_language :: "string option"

definition empty_cookie :: cookie where
  "empty_cookie = \<lparr>c_sid = None, c_user_id = None, c_session_version = 0, c_language = None\<rparr>"

text \<open>What one sign-in reads: the token drawn, the browser, and the clock.\<close>

record sign_in =
  si_token :: string
  si_days :: int
  si_agent :: string
  si_ip :: string
  si_times :: "nat \<Rightarrow> stamp"

definition login_user :: "(string \<Rightarrow> string) \<Rightarrow> sign_in \<Rightarrow> string \<Rightarrow> bool \<Rightarrow> cookie \<Rightarrow> accounts_db \<Rightarrow> acc_error + (cookie \<times> accounts_db)" where
  "login_user sha i user_id remember_language ck db =
     (case create_session sha (si_token i) user_id (si_days i) (si_agent i) (si_ip i)
             (si_times i 0) (si_times i 1) (si_times i 2) (si_times i 3) db of
        Inl e \<Rightarrow> Inl e
      | Inr db1 \<Rightarrow> Inr (empty_cookie\<lparr>c_sid := Some (si_token i),
          c_language := (if truthy (c_language ck) \<and> remember_language then c_language ck else None)\<rparr>, db1))"

definition logout :: "(string \<Rightarrow> string) \<Rightarrow> cookie \<Rightarrow> accounts_db \<Rightarrow> cookie \<times> accounts_db" where
  "logout sha ck db =
     (empty_cookie\<lparr>c_language := (if truthy (c_language ck) then c_language ck else None)\<rparr>, end_session sha (c_sid ck) db)"

definition usable :: "account option \<Rightarrow> epoch \<Rightarrow> epoch \<Rightarrow> accounts_db \<Rightarrow> bool \<times> accounts_db" where
  "usable user now1 now2 db =
     (case user of None \<Rightarrow> (False, db)
      | Some u \<Rightarrow> if is_suspended now1 user then (False, db)
                  else if suspended u then (True, snd (lift_expired_suspension user now2 db))
                  else (True, db))"

text \<open>
  \<open>load_current_user\<close>: the account of the request and its session row (none after the
  upgrade of an old cookie), the cookie and the tables. \<open>t\<close> is the reading of the lookup,
  \<open>now1\<close>, \<open>now2\<close>, \<open>now3\<close> those of the suspension and the sliding expiry.
\<close>

definition load_current_user ::
  "(string \<Rightarrow> string) \<Rightarrow> sign_in \<Rightarrow> stamp \<Rightarrow> epoch \<Rightarrow> epoch \<Rightarrow> epoch \<Rightarrow> cookie \<Rightarrow> accounts_db
    \<Rightarrow> acc_error + (account option \<times> auth_session option \<times> cookie \<times> accounts_db)" where
  "load_current_user sha i t now1 now2 now3 ck db =
     (if truthy (c_sid ck)
      then (case load_session sha (c_sid ck) t db of
              None \<Rightarrow> Inr (None, None, ck\<lparr>c_sid := None\<rparr>, db)
            | Some (row, user) \<Rightarrow>
                (case usable (Some user) now1 now2 db of
                   (True, db1) \<Rightarrow> Inr (Some user, Some row, ck,
                      refresh_session row (si_days i) now3 (si_times i 0) (si_times i 1) db1)
                 | (False, db1) \<Rightarrow> Inr (None, None, ck\<lparr>c_sid := None\<rparr>, end_session sha (c_sid ck) db1)))
      else if \<not> truthy (c_user_id ck) then Inr (None, None, ck, db)
      else
        let version = c_session_version ck; ck1 = ck\<lparr>c_user_id := None, c_session_version := 0\<rparr>
        in (case users_get (the (c_user_id ck)) db of
              None \<Rightarrow> Inr (None, None, ck1, db)
            | Some user \<Rightarrow>
                (case usable (Some user) now1 now2 db of
                   (False, db1) \<Rightarrow> Inr (None, None, ck1, db1)
                 | (True, db1) \<Rightarrow>
                     if version \<noteq> session_version user then Inr (None, None, ck1, db1)
                     else (case login_user sha i (acc_id user) False ck1 db1 of
                             Inl e \<Rightarrow> Inl e | Inr (ck2, db2) \<Rightarrow> Inr (Some user, None, ck2, db2)))))"

subsection \<open>Every action of the processes\<close>

text \<open>
  One constructor per operation, in any order and with any arguments. An operation that
  raises rolls back: it changes nothing.
\<close>

datatype action =
    Create string string string "string option" "string list" stamp
  | Set_Role string string
  | Suspend string "stamp option" stamp
  | Unsuspend string stamp
  | Lift "account option" epoch
  | Delete string
  | Set_Password string string "string option" "string option" stamp epoch
  | Touch string stamp
  | Bm string bool
  | Bm_Control string string
  | Bm_All bool
  | Sign_In sign_in string
  | Move "string option" string epoch string stamp
  | Refresh auth_session int epoch stamp stamp
  | Revoke string string
  | Revoke_All string "string option" bool
  | End_Session "string option"
  | Mark "string option" stamp
  | Purge stamp

definition or_same :: "accounts_db \<Rightarrow> acc_error + accounts_db \<Rightarrow> string option \<times> accounts_db" where
  "or_same db r = (None, case r of Inl _ \<Rightarrow> db | Inr db' \<Rightarrow> db')"

fun acc_act :: "(string \<Rightarrow> string) \<Rightarrow> action \<Rightarrow> accounts_db \<Rightarrow> string option \<times> accounts_db" where
  "acc_act sha (Create n pw r invite draws t) db = or_same db (map_sum id snd (users_create n pw r invite draws t db))"
| "acc_act sha (Set_Role u r) db = or_same db (set_role u r db)"
| "acc_act sha (Suspend u until t) db = or_same db (suspend u until t db)"
| "acc_act sha (Unsuspend u t) db = (None, unsuspend u t db)"
| "acc_act sha (Lift u now) db = (None, snd (lift_expired_suspension u now db))"
| "acc_act sha (Delete u) db = or_same db (users_delete u db)"
| "acc_act sha (Set_Password u pw keep old t now) db = or_same db (set_password u pw keep old t now db)"
| "acc_act sha (Touch u t) db = (None, touch_login u t db)"
| "acc_act sha (Bm u on) db = (None, set_bm_mode u on db)"
| "acc_act sha (Bm_Control u c) db = or_same db (set_bm_mode_control u c db)"
| "acc_act sha (Bm_All on) db = (None, set_bm_mode_all on db)"
| "acc_act sha (Sign_In i u) db = or_same db (create_session sha (si_token i) u (si_days i) (si_agent i) (si_ip i)
      (si_times i 0) (si_times i 1) (si_times i 2) (si_times i 3) db)"
| "acc_act sha (Move token agent before fresh t) db =
     (case move_session sha token agent before fresh t db of Inl _ \<Rightarrow> (None, db) | Inr r \<Rightarrow> r)"
| "acc_act sha (Refresh row days now t1 t2) db = (None, refresh_session row days now t1 t2 db)"
| "acc_act sha (Revoke u h) db = (None, snd (revoke_session u h db))"
| "acc_act sha (Revoke_All u keep devices) db = (None, revoke_sessions u keep devices db)"
| "acc_act sha (End_Session token) db = (None, end_session sha token db)"
| "acc_act sha (Mark h t) db = (None, mark_session_verified h t db)"
| "acc_act sha (Purge t) db = (None, snd (purge_expired_sessions t db))"

lemmas act_defs = or_same_def users_create_def set_role_def suspend_def unsuspend_def lift_expired_suspension_def
  users_delete_def set_password_def touch_login_def set_bm_mode_def set_bm_mode_control_def set_bm_mode_all_def
  create_session_def move_session_def refresh_session_def revoke_session_def revoke_sessions_def end_session_def
  mark_session_verified_def purge_expired_sessions_def update_user_def stop_streams_def request_stop_for_user_def

subsection \<open>The tables stay consistent\<close>

text \<open>Primary and unique keys, the CHECK constraints and the foreign keys of the schema.\<close>

definition user_ok :: "account \<Rightarrow> bool" where
  "user_ok u \<longleftrightarrow> role u \<in> set ROLES \<and> bm_mode_control u \<in> set BM_MODE_CONTROLS"

definition accounts_wf :: "accounts_db \<Rightarrow> bool" where
  "accounts_wf db \<longleftrightarrow> distinct (map acc_id (users db)) \<and> distinct (map (\<lambda>u. nocase (username u)) (users db)) \<and>
     (\<forall>u \<in> set (users db). user_ok u) \<and> distinct (map id_hash (sessions db)) \<and>
     (\<forall>s \<in> set (sessions db). s_user s \<in> acc_id ` set (users db)) \<and>
     (\<forall>c \<in> set (chats db). chat_user c \<in> acc_id ` set (users db)) \<and>
     (\<forall>t \<in> set (tasks db). task_user t \<in> acc_id ` set (users db))"

lemma wf_users_update:
  assumes "accounts_wf db"
    and f: "\<And>u. u \<in> set (users db) \<Longrightarrow> q u \<Longrightarrow> acc_id (f u) = acc_id u \<and> username (f u) = username u \<and> (user_ok u \<longrightarrow> user_ok (f u))"
  shows "accounts_wf (db\<lparr>users := tbl_update q f (users db)\<rparr>)"
proof -
  have "map acc_id (tbl_update q f (users db)) = map acc_id (users db)"
    "map (\<lambda>u. nocase (username u)) (tbl_update q f (users db)) = map (\<lambda>u. nocase (username u)) (users db)"
    using f by (auto simp: tbl_update_def)
  moreover from this(1) have "acc_id ` set (tbl_update q f (users db)) = acc_id ` set (users db)"
    by (metis list.set_map)
  moreover have "\<forall>u \<in> set (tbl_update q f (users db)). user_ok u"
    using assms(1) f by (auto simp: set_tbl_update accounts_wf_def)
  ultimately show ?thesis using assms(1) by (simp add: accounts_wf_def)
qed

lemma wf_update_user:
  assumes "accounts_wf db"
    and "\<And>u. acc_id (f u) = acc_id u \<and> username (f u) = username u \<and> (user_ok u \<longrightarrow> user_ok (f u))"
  shows "accounts_wf (update_user i f db)"
  unfolding update_user_def using assms by (intro wf_users_update) auto

lemma wf_sessions_delete: "accounts_wf db \<Longrightarrow> accounts_wf (db\<lparr>sessions := tbl_delete q (sessions db)\<rparr>)"
  by (simp add: accounts_wf_def distinct_key_delete)

lemma wf_sessions_update:
  "accounts_wf db \<Longrightarrow> (\<And>s. id_hash (f s) = id_hash s \<and> s_user (f s) = s_user s) \<Longrightarrow>
    accounts_wf (db\<lparr>sessions := tbl_update q f (sessions db)\<rparr>)"
  by (auto simp: accounts_wf_def distinct_key_update set_tbl_update)

lemma wf_stop_streams: "accounts_wf db \<Longrightarrow> accounts_wf (stop_streams i db)"
  by (simp add: accounts_wf_def stop_streams_def)

lemma wf_request_stop: "accounts_wf db \<Longrightarrow> accounts_wf (snd (request_stop_for_user i db))"
  by (auto simp: accounts_wf_def request_stop_for_user_def set_tbl_update)

lemma wf_revoke_sessions: "accounts_wf db \<Longrightarrow> accounts_wf (revoke_sessions i keep devices db)"
  unfolding revoke_sessions_def Let_def
  by (auto intro!: wf_sessions_delete wf_update_user simp: user_ok_def)

lemma users_getD: "users_get i db = Some u \<Longrightarrow> u \<in> set (users db) \<and> acc_id u = i"
  by (auto simp: users_get_def dest: tbl_one_SomeD split: if_splits)

lemma new_user_id_fresh: "new_user_id is db = Some i \<Longrightarrow> \<forall>u \<in> set (users db). acc_id u \<noteq> i"
  by (induction "is" db rule: new_user_id.induct) (auto simp: tbl_one_None_iff split: if_splits)

lemma wf_users_create:
  assumes wf: "accounts_wf db" and ok: "users_create n pw r invite draws t db = Inr (i, db')"
  shows "accounts_wf db'"
proof -
  from ok obtain u where u: "db' = db\<lparr>users := users db @ [u]\<rparr>" "acc_id u = i" "username u = n" "user_ok u"
    "new_user_id (take 5 draws) db = Some i" "tbl_one (\<lambda>u. nocase (username u) = nocase n) (users db) = None"
    by (auto simp: users_create_def user_ok_def BM_MODE_CONTROLS_def split: if_splits option.splits)
  have "i \<notin> acc_id ` set (users db)" using new_user_id_fresh [OF u(5)] by auto
  moreover have "nocase n \<notin> (\<lambda>u. nocase (username u)) ` set (users db)"
    using u(6) by (auto simp: tbl_one_None_iff)
  ultimately show ?thesis using wf u(1-4) by (auto simp: accounts_wf_def)
qed

lemma wf_suspend: "accounts_wf db \<Longrightarrow> suspend i until t db = Inr db' \<Longrightarrow> accounts_wf db'"
  by (auto simp: suspend_def Let_def user_ok_def split: option.splits if_splits
      intro!: wf_request_stop wf_stop_streams wf_revoke_sessions wf_update_user)

lemma wf_users_delete:
  assumes "accounts_wf db" and "users_delete i db = Inr db'"
  shows "accounts_wf db'"
proof (cases "users_get i db")
  case None
  with assms show ?thesis by (simp add: users_delete_def)
next
  case (Some u)
  with assms(2) have "db' = (stop_streams i db)\<lparr>users := tbl_delete (\<lambda>u. acc_id u = i) (users db),
      sessions := tbl_delete (\<lambda>s. s_user s = i) (sessions db), chats := tbl_delete (\<lambda>c. chat_user c = i) (chats db),
      tasks := tbl_delete (\<lambda>t. task_user t = i) (tasks db)\<rparr>"
    by (auto simp: users_delete_def Let_def stop_streams_def split: if_splits)
  with assms(1) show ?thesis
    by (force simp: accounts_wf_def distinct_key_delete)
qed

lemma wf_set_password: "accounts_wf db \<Longrightarrow> set_password i pw keep old t now db = Inr db' \<Longrightarrow> accounts_wf db'"
  by (auto simp: set_password_def Let_def user_ok_def split: option.splits sum.splits
      intro!: wf_revoke_sessions wf_update_user)

lemma create_session_Inr:
  assumes "create_session sha token i days agent ip t1 t2 t3 t4 db = Inr db'"
  shows "sha token \<notin> id_hash ` set (sessions db)" and "i \<in> acc_id ` set (users db)"
    and "db' = db\<lparr>sessions := tbl_delete
      (\<lambda>s. s_user s = i \<and> id_hash s \<notin> set (map id_hash (kept_sessions i t4 (sessions db @
        [\<lparr>id_hash = sha token, s_user = i, s_created_at = Some (At t1), last_seen_at = t2,
          expires_at = t3 + days * DAY, user_agent = take 300 agent, ip_address = take 64 ip, verified_at = None\<rparr>]))))
      (sessions db @ [\<lparr>id_hash = sha token, s_user = i, s_created_at = Some (At t1), last_seen_at = t2,
          expires_at = t3 + days * DAY, user_agent = take 300 agent, ip_address = take 64 ip, verified_at = None\<rparr>])\<rparr>"
  using assms tbl_one_not_None [of _ "users db"]
  by (auto simp: create_session_def Let_def tbl_one_None_iff split: if_splits)

lemma wf_sessions_add:
  assumes "accounts_wf db" and "id_hash s \<notin> id_hash ` set (sessions db)" "s_user s \<in> acc_id ` set (users db)"
  shows "accounts_wf (db\<lparr>sessions := sessions db @ [s]\<rparr>)"
  using assms by (auto simp: accounts_wf_def)

lemma wf_create_session:
  assumes wf: "accounts_wf db" and ok: "create_session sha token i days agent ip t1 t2 t3 t4 db = Inr db'"
  shows "accounts_wf db'"
proof -
  let ?s = "\<lparr>id_hash = sha token, s_user = i, s_created_at = Some (At t1), last_seen_at = t2,
          expires_at = t3 + days * DAY, user_agent = take 300 agent, ip_address = take 64 ip, verified_at = None\<rparr>"
  have "accounts_wf (db\<lparr>sessions := sessions db @ [?s]\<rparr>)"
    using create_session_Inr(1,2) [OF ok] by (intro wf_sessions_add [OF wf]) auto
  from wf_sessions_delete [OF this] show ?thesis unfolding create_session_Inr(3) [OF ok] by simp
qed

lemma move_session_cases:
  assumes "move_session sha token agent before fresh t db = Inr (r, db')"
  obtains (same) "r = None" "db' = db"
  | (ended) row where "r = None" "db' = db\<lparr>sessions := tbl_delete (\<lambda>s. id_hash s = id_hash row) (sessions db)\<rparr>"
      "row \<in> set (sessions db)" "id_hash row = sha (the token)" "user_agent row \<noteq> take 300 agent"
  | (moved) row rows where "r = Some fresh" "truthy token" "row \<in> set (sessions db)" "id_hash row = sha (the token)"
      "expires_at row > t" "user_agent row = take 300 agent" "started_before_time before (s_created_at row)"
      "rows = tbl_delete (\<lambda>s. s_user s = s_user row \<and> id_hash s \<noteq> id_hash row \<and>
         user_agent s = user_agent row \<and> started_before_time before (s_created_at s)) (sessions db)"
      "\<forall>s \<in> set rows. id_hash s \<noteq> id_hash row \<longrightarrow> id_hash s \<noteq> sha fresh"
      "db' = db\<lparr>sessions := tbl_update (\<lambda>s. id_hash s = id_hash row)
         (\<lambda>s. s\<lparr>id_hash := sha fresh, verified_at := None\<rparr>) rows\<rparr>"
proof (cases "truthy token \<and> length (the token) \<le> 128")
  case False
  with assms have "r = None" "db' = db" by (auto simp: move_session_def)
  then show thesis by (rule same)
next
  case True
  show thesis
  proof (cases "tbl_one (\<lambda>s. id_hash s = sha (the token) \<and> expires_at s > t) (sessions db)")
    case None
    with True assms show thesis by (intro same) (auto simp: move_session_def)
  next
    case (Some row)
    note row = tbl_one_SomeD [OF Some]
    show thesis
    proof (cases "parse_timestamp (s_created_at row)")
      case None
      with True Some assms show thesis by (intro same) (auto simp: move_session_def)
    next
      case started: (Some started)
      note body = assms [unfolded move_session_def]
      show thesis
      proof (cases "of_int started \<ge> before")
        case True': True
        with True Some started body show thesis by (intro same) auto
      next
        case False
        then have before: "started_before_time before (s_created_at row)"
          using started by (simp add: started_before_time_def)
        show thesis
        proof (cases "user_agent row = take 300 agent")
          case False': False
          with False True Some started body row show thesis by (intro ended [of row]) auto
        next
          case agent: True
          let ?rows = "tbl_delete (\<lambda>s. s_user s = s_user row \<and> id_hash s \<noteq> id_hash row \<and>
            user_agent s = user_agent row \<and> started_before_time before (s_created_at s)) (sessions db)"
          have "Inr (r, db') = (if \<exists>s \<in> set ?rows. id_hash s = sha fresh \<and> id_hash s \<noteq> id_hash row
              then Inl (UniqueError ''auth_sessions.id_hash'')
              else Inr (Some fresh, db\<lparr>sessions := tbl_update (\<lambda>s. id_hash s = id_hash row)
                (\<lambda>s. s\<lparr>id_hash := sha fresh, verified_at := None\<rparr>) ?rows\<rparr>))"
            unfolding assms [symmetric] using True Some started False agent
            by (simp add: move_session_def Let_def del: set_tbl_delete) (auto simp del: set_tbl_delete)
          then have "\<forall>s \<in> set ?rows. id_hash s \<noteq> id_hash row \<longrightarrow> id_hash s \<noteq> sha fresh" and "r = Some fresh"
            and "db' = db\<lparr>sessions := tbl_update (\<lambda>s. id_hash s = id_hash row)
                (\<lambda>s. s\<lparr>id_hash := sha fresh, verified_at := None\<rparr>) ?rows\<rparr>"
            by (auto split: if_splits simp del: set_tbl_delete)
          with True row agent before show thesis by (intro moved [of row ?rows]) simp_all
        qed
      qed
    qed
  qed
qed

lemma wf_move_session:
  assumes wf: "accounts_wf db" and ok: "move_session sha token agent before fresh t db = Inr (r, db')"
  shows "accounts_wf db'"
  using ok
proof (cases rule: move_session_cases)
  case (moved row rows)
  let ?db = "db\<lparr>sessions := rows\<rparr>"
  have wf1: "accounts_wf ?db" using wf_sessions_delete [OF wf] moved(8) by simp
  then have "distinct (map id_hash rows)" by (simp add: accounts_wf_def)
  with moved(9) have "distinct (map id_hash (tbl_update (\<lambda>s. id_hash s = id_hash row)
      (\<lambda>s. s\<lparr>id_hash := sha fresh, verified_at := None\<rparr>) rows))"
    by (intro distinct_key_rename) auto
  with wf1 show ?thesis by (auto simp: moved(10) accounts_wf_def set_tbl_update)
qed (use wf wf_sessions_delete in auto)

lemma wf_end_session: "accounts_wf db \<Longrightarrow> accounts_wf (end_session sha token db)"
  by (auto simp: end_session_def revoke_session_def Let_def user_ok_def split: option.splits
      intro!: wf_update_user wf_sessions_delete)

lemma wf_lift: "accounts_wf db \<Longrightarrow> accounts_wf (snd (lift_expired_suspension u now db))"
  by (auto simp: lift_expired_suspension_def Let_def user_ok_def split: option.splits intro!: wf_users_update)

lemma wf_unsuspend: "accounts_wf db \<Longrightarrow> accounts_wf (unsuspend i t db)"
  unfolding unsuspend_def by (rule wf_users_update) (simp_all add: user_ok_def)

lemma wf_touch_login: "accounts_wf db \<Longrightarrow> accounts_wf (touch_login i t db)"
  unfolding touch_login_def by (rule wf_update_user) (simp_all add: user_ok_def)

lemma wf_set_bm_mode: "accounts_wf db \<Longrightarrow> accounts_wf (set_bm_mode i on db)"
  unfolding set_bm_mode_def by (rule wf_update_user) (simp_all add: user_ok_def)

lemma wf_set_bm_mode_all: "accounts_wf db \<Longrightarrow> accounts_wf (set_bm_mode_all on db)"
  unfolding set_bm_mode_all_def by (rule wf_users_update) (simp_all add: user_ok_def)

lemma wf_set_bm_mode_control: "accounts_wf db \<Longrightarrow> set_bm_mode_control i c db = Inr db' \<Longrightarrow> accounts_wf db'"
  by (auto simp: set_bm_mode_control_def user_ok_def split: if_splits intro: wf_update_user)

lemma wf_set_role: "accounts_wf db \<Longrightarrow> set_role i r db = Inr db' \<Longrightarrow> accounts_wf db'"
  by (auto simp: set_role_def user_ok_def split: if_splits option.splits intro!: wf_update_user)

lemma wf_refresh_session: "accounts_wf db \<Longrightarrow> accounts_wf (refresh_session row days now t1 t2 db)"
  by (simp add: refresh_session_def wf_sessions_update)

lemma wf_revoke_session: "accounts_wf db \<Longrightarrow> accounts_wf (snd (revoke_session i h db))"
  by (simp add: revoke_session_def Let_def wf_sessions_delete wf_update_user user_ok_def)

lemma wf_mark: "accounts_wf db \<Longrightarrow> accounts_wf (mark_session_verified h t db)"
  by (simp add: mark_session_verified_def wf_sessions_update)

lemma wf_purge: "accounts_wf db \<Longrightarrow> accounts_wf (snd (purge_expired_sessions t db))"
  by (simp add: purge_expired_sessions_def wf_sessions_delete)

lemmas wf_simple_acts = wf_unsuspend wf_lift wf_touch_login wf_set_bm_mode wf_set_bm_mode_all wf_refresh_session
  wf_revoke_session wf_revoke_sessions wf_end_session wf_mark wf_purge

lemma wf_or_same: "accounts_wf db \<Longrightarrow> (\<And>db'. r = Inr db' \<Longrightarrow> accounts_wf db') \<Longrightarrow> accounts_wf (snd (or_same db r))"
  by (simp add: or_same_def split: sum.splits)

lemma wf_acc_act:
  assumes wf: "accounts_wf db"
  shows "accounts_wf (snd (acc_act sha l db))"
proof (cases l)
  case (Create n pw r invite draws t)
  with wf wf_users_create [of db n pw r invite draws t] show ?thesis
    by (cases "users_create n pw r invite draws t db") (auto simp: or_same_def)
next
  case (Move token agent before fresh t)
  with wf wf_move_session show ?thesis by (auto split: sum.splits)
next
  case (Suspend i u t)
  then show ?thesis by (simp add: wf_or_same [OF wf wf_suspend [OF wf]])
next
  case (Delete i)
  then show ?thesis by (simp add: wf_or_same [OF wf wf_users_delete [OF wf]])
next
  case (Set_Password i p k q t n)
  then show ?thesis by (simp add: wf_or_same [OF wf wf_set_password [OF wf]])
next
  case (Bm_Control i c)
  then show ?thesis by (simp add: wf_or_same [OF wf wf_set_bm_mode_control [OF wf]])
next
  case (Sign_In i u)
  then show ?thesis by (simp add: wf_or_same [OF wf wf_create_session [OF wf]])
next
  case (Set_Role i r)
  then show ?thesis by (simp add: wf_or_same [OF wf wf_set_role [OF wf]])
qed (use wf in \<open>simp_all add: wf_simple_acts\<close>)

subsection \<open>An active administrator remains\<close>

lemma admins_update_same:
  "(\<And>u. u \<in> set (users db) \<Longrightarrow> q u \<Longrightarrow> active_admin (f u) = active_admin u) \<Longrightarrow>
    tbl_count active_admin (tbl_update q f (users db)) = count_active_admins db"
  by (simp add: count_active_admins_def tbl_count_update_same)

lemma admins_gain:
  "(\<And>u. u \<in> set (users db) \<Longrightarrow> q u \<Longrightarrow> active_admin u \<Longrightarrow> active_admin (f u)) \<Longrightarrow>
    count_active_admins db \<le> tbl_count active_admin (tbl_update q f (users db))"
proof -
  assume a: "\<And>u. u \<in> set (users db) \<Longrightarrow> q u \<Longrightarrow> active_admin u \<Longrightarrow> active_admin (f u)"
  then have "tbl_count (\<lambda>r. q r \<and> active_admin r \<and> \<not> active_admin (f r)) (users db) = 0"
    by (auto simp: tbl_count_0_iff)
  with tbl_count_update_loss [of active_admin "users db" q f] show ?thesis
    by (simp add: count_active_admins_def)
qed

text \<open>
  The guard of demotion, suspension and deletion: the one account with the id is not an
  active administrator, or there is another.
\<close>

lemma admins_guarded:
  assumes wf: "accounts_wf db" and u: "users_get i db = Some u"
    and guard: "\<not> (active_admin u \<and> count_active_admins db \<le> 1)" and some: "0 < count_active_admins db"
  shows "0 < tbl_count active_admin (tbl_update (\<lambda>u. acc_id u = i) f (users db))"
    and "0 < tbl_count active_admin (tbl_delete (\<lambda>u. acc_id u = i) (users db))"
proof -
  from wf have d: "distinct (map acc_id (users db))" by (simp add: accounts_wf_def)
  from users_getD [OF u] have u': "u \<in> set (users db)" "acc_id u = i" by auto
  have le: "tbl_count (\<lambda>u. acc_id u = i \<and> active_admin u) (users db) \<le> of_bool (active_admin u)"
  proof (cases "active_admin u")
    case True
    have "tbl_count (\<lambda>u. acc_id u = i \<and> active_admin u) (users db) \<le> tbl_count (\<lambda>u. acc_id u = i) (users db)"
      by (rule tbl_count_mono) auto
    with tbl_count_unique [OF d, of i] True show ?thesis by simp
  next
    case False
    have "v = u" if "v \<in> set (users db)" "acc_id v = i" for v
      using distinct_key_eq [OF d that(1) u'(1)] that(2) u'(2) by simp
    with False have "tbl_count (\<lambda>u. acc_id u = i \<and> active_admin u) (users db) = 0"
      by (auto simp: tbl_count_0_iff)
    then show ?thesis by simp
  qed
  have "of_bool (active_admin u) < count_active_admins db"
    using guard some by (cases "active_admin u") auto
  with le have less: "tbl_count (\<lambda>u. acc_id u = i \<and> active_admin u) (users db) < count_active_admins db"
    by simp
  have "tbl_count (\<lambda>u. acc_id u = i \<and> active_admin u \<and> \<not> active_admin (f u)) (users db)
      \<le> tbl_count (\<lambda>u. acc_id u = i \<and> active_admin u) (users db)"
    by (rule tbl_count_mono) auto
  with less tbl_count_update_loss [of active_admin "users db" "\<lambda>u. acc_id u = i" f]
  show "0 < tbl_count active_admin (tbl_update (\<lambda>u. acc_id u = i) f (users db))"
    by (simp add: count_active_admins_def)
  from less tbl_count_delete_loss [of active_admin "users db" "\<lambda>u. acc_id u = i"]
  show "0 < tbl_count active_admin (tbl_delete (\<lambda>u. acc_id u = i) (users db))"
    by (simp add: count_active_admins_def)
qed

lemma admins_users_only: "users db' = users db \<Longrightarrow> count_active_admins db' = count_active_admins db"
  by (simp add: count_active_admins_def)

lemma admins_sessions [simp]: "count_active_admins (db\<lparr>sessions := rows\<rparr>) = count_active_admins db"
  by (simp add: count_active_admins_def)

lemma admins_update_user:
  "(\<And>u. active_admin (f u) = active_admin u) \<Longrightarrow> count_active_admins (update_user i f db) = count_active_admins db"
  by (simp add: update_user_def count_active_admins_def tbl_count_update_same)

lemma admins_revoke_sessions [simp]:
  "count_active_admins (revoke_sessions i keep devices db) = count_active_admins db"
proof -
  have "count_active_admins (revoke_sessions i keep devices db) =
      count_active_admins (update_user i (\<lambda>u. (if devices then u else u\<lparr>device_epoch := None\<rparr>)
            \<lparr>session_version := session_version u + 1\<rparr>) db)"
    by (rule admins_users_only) (simp add: revoke_sessions_def Let_def)
  also have "\<dots> = count_active_admins db" by (rule admins_update_user) (simp add: active_admin_def)
  finally show ?thesis .
qed

lemma admins_end_session [simp]: "count_active_admins (end_session sha token db) = count_active_admins db"
  by (simp add: end_session_def revoke_session_def Let_def update_user_def count_active_admins_def
      tbl_count_update_same active_admin_def split: option.splits)

lemma admins_set_role:
  assumes "accounts_wf db" and "0 < count_active_admins db" and "set_role i r db = Inr db'"
  shows "0 < count_active_admins db'"
proof -
  from assms(3) obtain u where u: "users_get i db = Some u" "db' = update_user i (\<lambda>u. u\<lparr>role := r\<rparr>) db"
    "\<not> (role u = ''admin'' \<and> r \<noteq> ''admin'' \<and> \<not> suspended u \<and> count_active_admins db \<le> 1)"
    by (auto simp: set_role_def split: if_splits option.splits)
  show ?thesis
  proof (cases "r = ''admin''")
    case True
    have "count_active_admins db \<le> tbl_count active_admin (tbl_update (\<lambda>u. acc_id u = i) (\<lambda>u. u\<lparr>role := r\<rparr>) (users db))"
      by (rule admins_gain) (simp add: active_admin_def True)
    with assms(2) u(2) show ?thesis by (simp add: update_user_def count_active_admins_def)
  next
    case False
    with u(3) have "\<not> (active_admin u \<and> count_active_admins db \<le> 1)" by (auto simp: active_admin_def)
    from admins_guarded(1) [OF assms(1) u(1) this assms(2)] u(2) show ?thesis
      by (simp add: update_user_def count_active_admins_def)
  qed
qed

lemma admins_suspend:
  assumes "accounts_wf db" and "0 < count_active_admins db" and "suspend i until t db = Inr db'"
  shows "0 < count_active_admins db'"
proof -
  let ?db1 = "update_user i (\<lambda>u. u\<lparr>suspended := True, suspended_until := map_option At until,
                        last_suspension_at := Some (At t)\<rparr>) db"
  from assms(3) obtain u where u: "users_get i db = Some u" "\<not> (active_admin u \<and> count_active_admins db \<le> 1)"
    and db': "db' = snd (request_stop_for_user i (stop_streams i (revoke_sessions i None False ?db1)))"
    by (auto simp: suspend_def active_admin_def Let_def split: if_splits option.splits)
  have "count_active_admins db' = count_active_admins (revoke_sessions i None False ?db1)"
    by (rule admins_users_only) (simp add: db' request_stop_for_user_def stop_streams_def)
  also have "\<dots> = count_active_admins ?db1" by simp
  finally show ?thesis
    using admins_guarded(1) [OF assms(1) u assms(2)] by (simp add: update_user_def count_active_admins_def)
qed

lemma admins_delete:
  assumes "accounts_wf db" and "0 < count_active_admins db" and "users_delete i db = Inr db'"
  shows "0 < count_active_admins db'"
proof (cases "users_get i db")
  case None
  with assms show ?thesis by (simp add: users_delete_def)
next
  case (Some u)
  with assms(3) have guard: "\<not> (active_admin u \<and> count_active_admins db \<le> 1)"
    and users: "users db' = tbl_delete (\<lambda>u. acc_id u = i) (users db)"
    by (auto simp: users_delete_def active_admin_def Let_def stop_streams_def split: if_splits)
  from admins_guarded(2) [OF assms(1) Some guard assms(2)] users show ?thesis
    by (simp add: count_active_admins_def)
qed

lemma admins_set_password:
  assumes "set_password i pw keep old t now db = Inr db'"
  shows "count_active_admins db' = count_active_admins db"
proof -
  from assms have "db' = revoke_sessions i keep False (update_user i (\<lambda>u. u\<lparr>password := pw\<rparr>) db)"
    by (auto simp: set_password_def Let_def split: option.splits sum.splits)
  then have "count_active_admins db' = count_active_admins (update_user i (\<lambda>u. u\<lparr>password := pw\<rparr>) db)" by simp
  also have "\<dots> = count_active_admins db" by (rule admins_update_user) (simp add: active_admin_def)
  finally show ?thesis .
qed

lemma admins_create:
  assumes "users_create n pw r invite draws t db = Inr (i, db')"
  shows "count_active_admins db \<le> count_active_admins db'"
  using assms by (auto simp: users_create_def count_active_admins_def tbl_simps split: if_splits option.splits)

lemma admins_or_same:
  "0 < count_active_admins db \<Longrightarrow> (\<And>db'. r = Inr db' \<Longrightarrow> 0 < count_active_admins db') \<Longrightarrow>
    0 < count_active_admins (snd (or_same db r))"
  by (simp add: or_same_def split: sum.splits)

lemma admins_unsuspend: "0 < count_active_admins db \<Longrightarrow> 0 < count_active_admins (unsuspend i t db)"
  using admins_gain [of db "\<lambda>u. acc_id u = i \<and> suspended u"
      "\<lambda>u. u\<lparr>suspended := False, suspended_until := None, last_suspension_at := Some (At t)\<rparr>"]
  by (simp add: unsuspend_def count_active_admins_def active_admin_def)

lemma admins_lift: "0 < count_active_admins db \<Longrightarrow> 0 < count_active_admins (snd (lift_expired_suspension u now db))"
proof (cases "\<exists>v. u = Some v \<and> suspended v \<and> \<not> is_suspended now u")
  case True
  assume some: "0 < count_active_admins db"
  from True obtain v where v: "u = Some v" "suspended v" "\<not> is_suspended now u" by blast
  let ?q = "\<lambda>r. acc_id r = acc_id v \<and> suspended r \<and> suspended_until v \<noteq> None \<and> suspended_until r = suspended_until v"
  have "count_active_admins db \<le> tbl_count active_admin (tbl_update ?q
      (\<lambda>r. r\<lparr>suspended := False, suspended_until := None, last_suspension_at := suspended_until r\<rparr>) (users db))"
    by (rule admins_gain) (simp add: active_admin_def)
  with some v show ?thesis by (simp add: lift_expired_suspension_def Let_def count_active_admins_def)
qed (auto simp: lift_expired_suspension_def split: option.splits)

lemma admins_act:
  assumes wf: "accounts_wf db" and some: "0 < count_active_admins db"
  shows "0 < count_active_admins (snd (acc_act sha l db))"
proof (cases l)
  case (Create n pw r invite draws t)
  with some admins_create [of n pw r invite draws t db] show ?thesis
    by (cases "users_create n pw r invite draws t db") (fastforce simp: or_same_def)+
next
  case (Set_Role i r)
  then show ?thesis by (simp add: admins_or_same [OF some admins_set_role [OF wf some]])
next
  case (Suspend i until t)
  then show ?thesis by (simp add: admins_or_same [OF some admins_suspend [OF wf some]])
next
  case (Delete i)
  then show ?thesis by (simp add: admins_or_same [OF some admins_delete [OF wf some]])
next
  case (Set_Password i pw keep old t now)
  have "0 < count_active_admins db'" if "set_password i pw keep old t now db = Inr db'" for db'
    using admins_set_password [OF that] some by simp
  with Set_Password show ?thesis by (simp add: admins_or_same [OF some])
next
  case (Bm_Control i c)
  have "0 < count_active_admins db'" if "set_bm_mode_control i c db = Inr db'" for db'
    using that some by (auto simp: set_bm_mode_control_def admins_update_user active_admin_def split: if_splits)
  with Bm_Control show ?thesis by (simp add: admins_or_same [OF some])
next
  case (Sign_In i u)
  have "0 < count_active_admins db'" if "create_session sha (si_token i) u (si_days i) (si_agent i) (si_ip i)
      (si_times i 0) (si_times i 1) (si_times i 2) (si_times i 3) db = Inr db'" for db'
    using some by (simp add: create_session_Inr(3) [OF that] count_active_admins_def)
  with Sign_In show ?thesis by (simp add: admins_or_same [OF some])
next
  case (Move token agent before fresh t)
  have "count_active_admins db' = count_active_admins db" if "move_session sha token agent before fresh t db = Inr (x, db')" for x db'
    using that by (cases rule: move_session_cases) (simp_all add: count_active_admins_def)
  with Move some show ?thesis by (auto split: sum.splits)
next
  case (Revoke i h)
  with some show ?thesis
    by (simp add: revoke_session_def Let_def admins_update_user active_admin_def)
next
  case (Bm_All on)
  with some show ?thesis
    by (simp add: set_bm_mode_all_def count_active_admins_def tbl_count_update_same active_admin_def)
qed (use some in \<open>simp_all add: admins_unsuspend admins_lift touch_login_def set_bm_mode_def admins_update_user
    active_admin_def refresh_session_def mark_session_verified_def purge_expired_sessions_def\<close>)

subsection \<open>Where sessions come from\<close>

definition holds_token :: "string \<Rightarrow> accounts_db \<Rightarrow> bool" where
  "holds_token h db \<longleftrightarrow> h \<in> id_hash ` set (sessions db)"

definition holds_user :: "string \<Rightarrow> accounts_db \<Rightarrow> bool" where
  "holds_user i db \<longleftrightarrow> i \<in> s_user ` set (sessions db)"

fun issues_token :: "(string \<Rightarrow> string) \<Rightarrow> action \<Rightarrow> string \<Rightarrow> bool" where
  "issues_token sha (Sign_In i u) h = (sha (si_token i) = h)"
| "issues_token sha (Move token agent before fresh t) h = (sha fresh = h)"
| "issues_token sha _ h = False"

fun issues_user :: "action \<Rightarrow> string \<Rightarrow> bool" where
  "issues_user (Sign_In i u) v = (u = v)"
| "issues_user _ v = False"

fun moves_token :: "(string \<Rightarrow> string) \<Rightarrow> action \<Rightarrow> string option \<Rightarrow> string \<Rightarrow> bool" where
  "moves_token sha (Move token agent before fresh t) r h =
     (r = Some fresh \<and> truthy token \<and> sha (the token) = h \<and> sha fresh \<noteq> h)"
| "moves_token sha _ r h = False"

text \<open>The rows after an action: rows from before, with the key fields kept, or the new one.\<close>

lemma sessions_act:
  assumes "s' \<in> set (sessions (snd (acc_act sha l db)))"
  shows "(\<exists>s \<in> set (sessions db). s_user s' = s_user s \<and> (id_hash s' = id_hash s \<or> issues_token sha l (id_hash s'))) \<or>
    (issues_token sha l (id_hash s') \<and> issues_user l (s_user s'))"
proof (cases l)
  case (Create n pw r invite draws t)
  with assms show ?thesis
    by (auto simp: or_same_def users_create_def split: sum.splits option.splits if_splits)
next
  case (Sign_In i u)
  show ?thesis
  proof (cases "create_session sha (si_token i) u (si_days i) (si_agent i) (si_ip i)
      (si_times i 0) (si_times i 1) (si_times i 2) (si_times i 3) db")
    case (Inr db')
    with assms Sign_In create_session_Inr(3) [OF Inr] show ?thesis by (auto simp: or_same_def)
  qed (use assms Sign_In in \<open>auto simp: or_same_def\<close>)
next
  case (Move token agent before fresh t)
  show ?thesis
  proof (cases "move_session sha token agent before fresh t db")
    case (Inr x)
    obtain r db' where x: "x = (r, db')" by (cases x)
    from Inr x have "move_session sha token agent before fresh t db = Inr (r, db')" by simp
    then show ?thesis
      by (cases rule: move_session_cases) (use assms Move Inr x in \<open>auto simp: set_tbl_update\<close>)
  qed (use assms Move in auto)
qed (use assms in \<open>auto simp: act_defs verified_credentials_def Let_def set_tbl_update
  split: sum.splits option.splits if_splits\<close>)

interpretation token: one_shot "acc_act sha" "\<lambda>h db. of_bool (holds_token h db)" "issues_token sha" "moves_token sha" for sha
proof
  fix h db l
  show "of_bool (holds_token h (snd (acc_act sha l db))) \<le> (of_bool (holds_token h db) :: nat)"
    if "\<not> issues_token sha l h"
  proof (cases "holds_token h (snd (acc_act sha l db))")
    case True
    then obtain s' where "s' \<in> set (sessions (snd (acc_act sha l db)))" "id_hash s' = h"
      by (auto simp: holds_token_def)
    with sessions_act [OF this(1)] that show ?thesis by (auto simp: holds_token_def)
  qed simp
  show "of_bool (holds_token h (snd (acc_act sha l db))) < (of_bool (holds_token h db) :: nat)"
    if taken: "moves_token sha l (fst (acc_act sha l db)) h"
  proof (cases l)
    case (Move token agent before fresh t)
    with taken have r: "fst (acc_act sha l db) = Some fresh" "sha (the token) = h" "sha fresh \<noteq> h" by auto
    with Move obtain db' where "move_session sha token agent before fresh t db = Inr (Some fresh, db')"
      by (cases "move_session sha token agent before fresh t db") auto
    then show ?thesis
      by (cases rule: move_session_cases)
        (use r Move \<open>move_session sha token agent before fresh t db = _\<close> in \<open>auto simp: holds_token_def set_tbl_update\<close>)
  qed (use taken in auto)
qed

text \<open>For the sessions of an account no action counts as taking one: only where they come from.\<close>

interpretation account_sessions: one_shot "acc_act sha" "\<lambda>i db. of_bool (holds_user i db)" issues_user "\<lambda>_ _ _. False" for sha
proof
  fix i db l
  show "of_bool (holds_user i (snd (acc_act sha l db))) \<le> (of_bool (holds_user i db) :: nat)" if "\<not> issues_user l i"
  proof (cases "holds_user i (snd (acc_act sha l db))")
    case True
    then obtain s' where "s' \<in> set (sessions (snd (acc_act sha l db)))" "s_user s' = i"
      by (auto simp: holds_user_def)
    with sessions_act [OF this(1)] that show ?thesis by (auto simp: holds_user_def)
  qed simp
qed simp

lemma load_session_Some:
  "load_session sha token t db = Some (row, u) \<Longrightarrow>
    truthy token \<and> row \<in> set (sessions db) \<and> id_hash row = sha (the token) \<and> t < expires_at row \<and>
    u \<in> set (users db) \<and> acc_id u = s_user row"
  by (simp add: load_session_def split: if_splits option.splits) (blast dest: tbl_one_SomeD users_getD)

lemma load_session_gone:
  assumes "sha tok \<notin> id_hash ` set (sessions db)"
  shows "load_session sha (Some tok) t db = None"
proof (rule ccontr)
  assume "load_session sha (Some tok) t db \<noteq> None"
  then obtain row u where "load_session sha (Some tok) t db = Some (row, u)" by auto
  from load_session_Some [OF this] assms show False by force
qed

subsection \<open>The cap on sessions\<close>

lemma sort_key_first:
  "(\<And>y. y \<in> set xs \<Longrightarrow> f x \<le> f y) \<Longrightarrow> sort_key f (x # xs) = x # sort_key f xs"
  by (simp add: insort_is_Cons)

lemma sort_key_take_le:
  assumes "x \<in> set (take n (sort_key f xs))" and "y \<in> set xs" "y \<notin> set (take n (sort_key f xs))"
  shows "f x \<le> f y"
proof -
  let ?s = "sort_key f xs"
  have "set ?s = set (take n ?s) \<union> set (drop n ?s)"
    by (metis append_take_drop_id set_append)
  then have "y \<in> set (drop n ?s)" using assms(2,3) by auto
  moreover have "sorted (map f (take n ?s @ drop n ?s))" by simp
  then have "\<forall>a \<in> set (take n ?s). \<forall>b \<in> set (drop n ?s). f a \<le> f b"
    unfolding map_append sorted_append by auto
  ultimately show ?thesis using assms(1) by blast
qed

lemma kept_sessions_sub: "set (kept_sessions i t rows) \<subseteq> {s \<in> set rows. s_user s = i \<and> expires_at s > t}"
  using set_take_subset [of MAX_SESSIONS_PER_ACCOUNT "sort_key (\<lambda>s. - last_seen_at s) (rev (filter (\<lambda>s. s_user s = i \<and> expires_at s > t) rows))"]
  by (auto simp: kept_sessions_def)

lemma kept_by_hash:
  assumes "distinct (map id_hash rows)" and "s \<in> set rows"
  shows "id_hash s \<in> set (map id_hash (kept_sessions i t rows)) \<longleftrightarrow> s \<in> set (kept_sessions i t rows)"
proof
  assume "id_hash s \<in> set (map id_hash (kept_sessions i t rows))"
  then obtain k where k: "k \<in> set (kept_sessions i t rows)" "id_hash k = id_hash s" by auto
  then have "k \<in> set rows" using kept_sessions_sub [of i t rows] by auto
  from distinct_key_eq [OF assms(1) this assms(2) k(2)] k(1) show "s \<in> set (kept_sessions i t rows)" by simp
qed auto

lemma session_cap_rows:
  assumes d: "distinct (map id_hash rows)"
    and del: "rows' = tbl_delete (\<lambda>s. s_user s = i \<and> id_hash s \<notin> set (map id_hash (kept_sessions i t rows))) rows"
  shows "{s \<in> set rows'. s_user s = i} = set (kept_sessions i t rows)"
    and "tbl_count (\<lambda>s. s_user s = i) rows' \<le> MAX_SESSIONS_PER_ACCOUNT"
proof -
  show eq: "{s \<in> set rows'. s_user s = i} = set (kept_sessions i t rows)"
    unfolding del using kept_by_hash [OF d] kept_sessions_sub [of i t rows] by auto
  have "distinct rows'" using distinct_key_delete [OF d] del by (auto simp: distinct_map)
  then have "tbl_count (\<lambda>s. s_user s = i) rows' = card {s \<in> set rows'. s_user s = i}"
    by (simp add: tbl_count_def distinct_card [symmetric])
  also have "\<dots> \<le> length (kept_sessions i t rows)" unfolding eq by (rule card_length)
  also have "\<dots> \<le> MAX_SESSIONS_PER_ACCOUNT" by (simp add: kept_sessions_def)
  finally show "tbl_count (\<lambda>s. s_user s = i) rows' \<le> MAX_SESSIONS_PER_ACCOUNT" .
qed

lemma kept_sessions_newest:
  assumes "s_user s = i" "expires_at s > t" and "\<forall>r \<in> set rows. last_seen_at r \<le> last_seen_at s"
  shows "s \<in> set (kept_sessions i t (rows @ [s]))"
proof -
  have "kept_sessions i t (rows @ [s]) = take MAX_SESSIONS_PER_ACCOUNT
      (s # sort_key (\<lambda>s. - last_seen_at s) (rev (filter (\<lambda>s. s_user s = i \<and> expires_at s > t) rows)))"
    unfolding kept_sessions_def using assms(1,2)
    by (simp del: sort_key_simps) (subst sort_key_first, use assms(3) in auto)
  then show ?thesis by (simp add: MAX_SESSIONS_PER_ACCOUNT_def)
qed

lemma kept_sessions_recent:
  assumes "k \<in> set (kept_sessions i t rows)" and "s \<in> set rows" "s_user s = i" "expires_at s > t"
    and "s \<notin> set (kept_sessions i t rows)"
  shows "last_seen_at s \<le> last_seen_at k"
  using sort_key_take_le [of k MAX_SESSIONS_PER_ACCOUNT "\<lambda>s. - last_seen_at s"
      "rev (filter (\<lambda>s. s_user s = i \<and> expires_at s > t) rows)" s] assms
  by (simp add: kept_sessions_def)

subsection \<open>Properties\<close>

text \<open>Two administrators, one of whom is suspended, and one session.\<close>

definition ex_account :: "string \<Rightarrow> string \<Rightarrow> bool \<Rightarrow> account" where
  "ex_account i r susp = \<lparr>acc_id = i, username = i, password = ''h'', role = r, suspended = susp, suspended_until = None,
     last_suspension_at = None, invite_code = None, created_at = 0, last_login_at = None, session_version = 3,
     device_epoch = None, bm_mode_on = False, bm_mode_control = ''site''\<rparr>"

definition ex_session :: auth_session where
  "ex_session = \<lparr>id_hash = ''T'', s_user = ''ann'', s_created_at = Some (At 0), last_seen_at = 5, expires_at = 100,
     user_agent = ''B'', ip_address = ''::1'', verified_at = None\<rparr>"

definition ex_accounts :: accounts_db where
  "ex_accounts = \<lparr>users = [ex_account ''ann'' ''admin'' False, ex_account ''bob'' ''admin'' False, ex_account ''cyd'' ''user'' True],
     sessions = [ex_session], chats = [\<lparr>chat_id = ''c1'', chat_user = ''ann''\<rparr>],
     streams = [\<lparr>stream_session = ''c1'', stream_user = None, stream_stop = False\<rparr>],
     tasks = [\<lparr>task_id = ''t1'', task_user = ''ann'', task_status = Task_Running, task_owner_token = Some ''x'',
       task_stop_requested = 0\<rparr>]\<rparr>"

lemmas ex_acc_defs = ex_accounts_def ex_account_def ex_session_def

lemma ex_accounts_wf: "accounts_wf ex_accounts"
  by (simp add: accounts_wf_def ex_acc_defs user_ok_def ROLES_def BM_MODE_CONTROLS_def nocase_def)

text \<open>
  C2: whatever is done to accounts and sessions, in any order, the table keeps an active
  administrator once it has one, and its keys, roles and foreign keys stay valid.
\<close>

theorem admin_remains:
  assumes "accounts_wf db" and "0 < count_active_admins db"
  shows "accounts_wf (snd (run_acts (acc_act sha) ls db)) \<and> 0 < count_active_admins (snd (run_acts (acc_act sha) ls db))"
  using assms
proof (induction ls arbitrary: db)
  case (Cons l ls)
  from wf_acc_act [OF Cons.prems(1)] admins_act [OF Cons.prems]
  show ?case using Cons.IH [of "snd (acc_act sha l db)"] by (simp add: case_prod_beta)
qed simp

theorem admin_remains_witness:
  "accounts_wf ex_accounts \<and> count_active_admins ex_accounts = 2 \<and>
    0 < count_active_admins (snd (run_acts (acc_act id) [Suspend ''ann'' None 6, Set_Role ''bob'' ''user'', Delete ''bob''] ex_accounts))"
proof -
  have "count_active_admins ex_accounts = 2"
    by (simp add: count_active_admins_def active_admin_def ex_acc_defs tbl_simps)
  with ex_accounts_wf admin_remains [OF ex_accounts_wf, of id "[Suspend ''ann'' None 6, Set_Role ''bob'' ''user'', Delete ''bob'']"]
  show ?thesis by simp
qed

text \<open>
  C6: suspending or deleting an account, changing its password without keeping a session,
  or signing it out everywhere is final: until the account signs in again, no login
  session of it is alive and no token loads it, whatever else happens.
\<close>

theorem revocation_is_final:
  assumes "suspend i until t db = Inr db1 \<or> (users_get i db \<noteq> None \<and> users_delete i db = Inr db1) \<or>
      set_password i pw None old t now db = Inr db1 \<or> revoke_sessions i None devices db = db1"
    and "\<forall>l \<in> set ls. \<not> issues_user l i"
    and "db2 = snd (run_acts (acc_act sha) ls db1)"
  shows "\<not> session_alive h i t' db2 \<and> (\<forall>token row u. load_session sha token t' db2 = Some (row, u) \<longrightarrow> acc_id u \<noteq> i)"
proof -
  have "\<not> holds_user i db1"
    using assms(1)
  proof (elim disjE)
    assume "users_get i db \<noteq> None \<and> users_delete i db = Inr db1"
    then show ?thesis by (auto simp: users_delete_def holds_user_def Let_def split: if_splits)
  qed (auto simp: suspend_def revoke_sessions_def set_password_def holds_user_def Let_def request_stop_for_user_def
      stop_streams_def update_user_def split: option.splits if_splits sum.splits)
  with account_sessions.stays_gone [OF _ assms(2), of db1 sha] have gone: "\<forall>s \<in> set (sessions db2). s_user s \<noteq> i"
    by (auto simp: assms(3) holds_user_def)
  then have "\<not> session_alive h i t' db2" by (auto simp: session_alive_def tbl_one_None_iff)
  moreover have "acc_id u \<noteq> i" if l: "load_session sha token t' db2 = Some (row, u)" for token row u
    using load_session_Some [OF l] gone by auto
  ultimately show ?thesis by blast
qed

theorem revocation_is_final_witness:
  "(\<exists>db1. suspend ''ann'' None 6 ex_accounts = Inr db1 \<and> session_alive (Some ''T'') ''ann'' 7 ex_accounts \<and>
     \<not> session_alive (Some ''T'') ''ann'' 7 (snd (run_acts (acc_act id) [Unsuspend ''ann'' 6] db1)))"
proof -
  obtain db1 where s: "suspend ''ann'' None 6 ex_accounts = Inr db1"
    by (simp add: suspend_def users_get_def count_active_admins_def active_admin_def ex_acc_defs tbl_simps Let_def)
  have "\<not> session_alive (Some ''T'') ''ann'' 7 (snd (run_acts (acc_act id) [Unsuspend ''ann'' 6] db1))"
    using revocation_is_final [OF disjI1 [OF s], where ls = "[Unsuspend ''ann'' 6]"] by simp
  moreover have "session_alive (Some ''T'') ''ann'' 7 ex_accounts"
    by (simp add: session_alive_def ex_acc_defs tbl_simps)
  ultimately show ?thesis using s by blast
qed

text \<open>
  A suspension also reaches the account's running work: its answers (found by account
  or by chat) and its running agent tasks are all asked to stop, and the account stays
  suspended until the end given (for ever without one).
\<close>

theorem suspension_stops_work:
  assumes "suspend i until t db = Inr db'"
  shows "(\<forall>s \<in> set (streams db'). stream_user s = Some i \<or>
        (\<exists>c \<in> set (chats db'). chat_user c = i \<and> chat_id c = stream_session s) \<longrightarrow> stream_stop s) \<and>
    (\<forall>k \<in> set (tasks db'). task_user k = i \<and> task_active k \<longrightarrow> task_stop_requested k = STOP_BY_ADMIN) \<and>
    (\<forall>u \<in> set (users db'). acc_id u = i \<longrightarrow>
        is_suspended now (Some u) = (case until of None \<Rightarrow> True | Some e \<Rightarrow> now < of_int e))"
proof -
  from assms have db': "db' = snd (request_stop_for_user i (stop_streams i (revoke_sessions i None False
      (update_user i (\<lambda>u. u\<lparr>suspended := True, suspended_until := map_option At until,
         last_suspension_at := Some (At t)\<rparr>) db))))"
    by (auto simp: suspend_def Let_def split: option.splits if_splits)
  then have chats: "chats db' = chats db"
    and streams: "streams db' = tbl_update (\<lambda>s. stream_user s = Some i \<or>
        stream_session s \<in> set (map chat_id (filter (\<lambda>c. chat_user c = i) (chats db)))) (\<lambda>s. s\<lparr>stream_stop := True\<rparr>) (streams db)"
    and tasks: "tasks db' = tbl_update (\<lambda>t. task_user t = i \<and> task_active t)
        (\<lambda>t. t\<lparr>task_stop_requested := STOP_BY_ADMIN\<rparr>) (tasks db)"
    and users: "users db' = tbl_update (\<lambda>u. acc_id u = i) (\<lambda>u. u\<lparr>suspended := True, suspended_until := map_option At until,
           last_suspension_at := Some (At t), device_epoch := None, session_version := session_version u + 1\<rparr>) (users db)"
    by (simp_all add: tbl_update_twice request_stop_for_user_def stop_streams_def revoke_sessions_def update_user_def Let_def)
  have "stream_stop s" if s: "s \<in> set (streams db')" and c: "stream_user s = Some i \<or>
        (\<exists>c \<in> set (chats db'). chat_user c = i \<and> chat_id c = stream_session s)" for s
  proof -
    from s obtain s0 where s0: "s0 \<in> set (streams db)" "s = (if stream_user s0 = Some i \<or>
        stream_session s0 \<in> set (map chat_id (filter (\<lambda>c. chat_user c = i) (chats db))) then s0\<lparr>stream_stop := True\<rparr> else s0)"
      unfolding streams set_tbl_update by blast
    then have "stream_user s = stream_user s0" "stream_session s = stream_session s0" by auto
    with c have "stream_user s0 = Some i \<or> stream_session s0 \<in> set (map chat_id (filter (\<lambda>c. chat_user c = i) (chats db)))"
      by (auto simp: chats image_iff)
    with s0(2) show ?thesis by simp
  qed
  moreover have "\<forall>k \<in> set (tasks db'). task_user k = i \<and> task_active k \<longrightarrow> task_stop_requested k = STOP_BY_ADMIN"
  proof (intro ballI impI)
    fix k assume k: "k \<in> set (tasks db')" "task_user k = i \<and> task_active k"
    from k(1) [unfolded tasks] show "task_stop_requested k = STOP_BY_ADMIN"
      by (cases rule: tbl_update_memE) (use k(2) in simp_all)
  qed
  moreover have "is_suspended now (Some u) = (case until of None \<Rightarrow> True | Some e \<Rightarrow> now < of_int e)"
    if u: "u \<in> set (users db')" "acc_id u = i" for u
    using u(1) [unfolded users] by (cases rule: tbl_update_memE) (use u(2) in \<open>simp_all split: option.splits\<close>)
  ultimately show ?thesis by blast
qed

theorem suspension_stops_work_witness:
  "\<exists>db'. suspend ''ann'' None 6 ex_accounts = Inr db' \<and> (\<forall>s \<in> set (streams db'). stream_session s = ''c1'' \<longrightarrow> stream_stop s)"
proof -
  obtain db' where s: "suspend ''ann'' None 6 ex_accounts = Inr db'" and c: "chats db' = chats ex_accounts"
    by (simp add: suspend_def users_get_def count_active_admins_def active_admin_def ex_acc_defs tbl_simps Let_def
        request_stop_for_user_def stop_streams_def revoke_sessions_def update_user_def)
  have "\<forall>s \<in> set (streams db'). stream_session s = ''c1'' \<longrightarrow> stream_stop s"
    using suspension_stops_work [OF s] by (simp add: c ex_accounts_def)
  with s show ?thesis by blast
qed

text \<open>
  Signing in never leaves an account with more than fifty sessions: expired ones end
  first, then those used least recently, and the new session is one of those kept when
  it is live and no other was used after it; other accounts' sessions do not change.
\<close>

theorem session_cap:
  assumes "accounts_wf db" and "create_session sha token i days agent ip t1 t2 t3 t4 db = Inr db'"
  shows "tbl_count (\<lambda>s. s_user s = i) (sessions db') \<le> 50 \<and>
    (\<forall>s \<in> set (sessions db'). s_user s = i \<longrightarrow> t4 < expires_at s) \<and>
    (\<forall>s \<in> set (sessions db). s_user s \<noteq> i \<longrightarrow> s \<in> set (sessions db')) \<and>
    (\<forall>s \<in> set (sessions db). s_user s = i \<and> t4 < expires_at s \<and> s \<notin> set (sessions db') \<longrightarrow>
       (\<forall>k \<in> set (sessions db'). s_user k = i \<longrightarrow> last_seen_at s \<le> last_seen_at k)) \<and>
    (t4 < t3 + days * DAY \<and> (\<forall>s \<in> set (sessions db). last_seen_at s \<le> t2) \<longrightarrow>
       session_alive (Some (sha token)) i t4 db' \<or> sha token = [])"
proof -
  let ?s = "\<lparr>id_hash = sha token, s_user = i, s_created_at = Some (At t1), last_seen_at = t2,
          expires_at = t3 + days * DAY, user_agent = take 300 agent, ip_address = take 64 ip, verified_at = None\<rparr>"
  let ?rows = "sessions db @ [?s]"
  note ok = create_session_Inr [OF assms(2)]
  have d: "distinct (map id_hash ?rows)" using assms(1) ok(1) by (simp add: accounts_wf_def)
  have del: "sessions db' = tbl_delete (\<lambda>s. s_user s = i \<and> id_hash s \<notin> set (map id_hash (kept_sessions i t4 ?rows))) ?rows"
    using ok(3) by simp
  note cap = session_cap_rows [OF d del]
  have kept: "s \<in> set (kept_sessions i t4 ?rows)" if "s \<in> set (sessions db')" "s_user s = i" for s
    using cap(1) that by blast
  have "\<forall>s \<in> set (sessions db'). s_user s = i \<longrightarrow> t4 < expires_at s"
    using kept kept_sessions_sub [of i t4 ?rows] by blast
  moreover have "\<forall>s \<in> set (sessions db). s_user s \<noteq> i \<longrightarrow> s \<in> set (sessions db')"
    by (simp add: del)
  moreover have "\<forall>s \<in> set (sessions db). s_user s = i \<and> t4 < expires_at s \<and> s \<notin> set (sessions db') \<longrightarrow>
       (\<forall>k \<in> set (sessions db'). s_user k = i \<longrightarrow> last_seen_at s \<le> last_seen_at k)"
  proof (intro ballI impI)
    fix s k assume s: "s \<in> set (sessions db)" "s_user s = i \<and> t4 < expires_at s \<and> s \<notin> set (sessions db')"
      and k: "k \<in> set (sessions db')" "s_user k = i"
    have "s \<notin> set (kept_sessions i t4 ?rows)" using cap(1) s(2) by blast
    with s kept_sessions_recent [OF kept [OF k], of s] show "last_seen_at s \<le> last_seen_at k" by simp
  qed
  moreover have "session_alive (Some (sha token)) i t4 db' \<or> sha token = []"
    if "t4 < t3 + days * DAY \<and> (\<forall>s \<in> set (sessions db). last_seen_at s \<le> t2)"
  proof -
    have "?s \<in> set (kept_sessions i t4 ?rows)" using that by (intro kept_sessions_newest) auto
    with cap(1) have "?s \<in> set (sessions db')" by blast
    then have "tbl_one (\<lambda>s. id_hash s = sha token \<and> s_user s = i \<and> t4 < expires_at s) (sessions db') \<noteq> None"
      using that tbl_one_not_None [of ?s "sessions db'"] by fastforce
    then show ?thesis by (auto simp: session_alive_def)
  qed
  ultimately show ?thesis using cap(2) by (simp add: MAX_SESSIONS_PER_ACCOUNT_def)
qed

theorem session_cap_witness:
  "\<exists>db'. create_session id ''new'' ''ann'' 30 ''B'' ''::1'' 6 6 6 6 ex_accounts = Inr db' \<and>
     session_alive (Some ''new'') ''ann'' 6 db'"
proof -
  obtain db' where c: "create_session id ''new'' ''ann'' 30 ''B'' ''::1'' 6 6 6 6 ex_accounts = Inr db'"
    by (simp add: create_session_def ex_acc_defs tbl_simps Let_def)
  with session_cap [OF ex_accounts_wf c] show ?thesis by (auto simp: DAY_def ex_acc_defs)
qed

text \<open>An in-flight request cannot undo a revocation: a password change that names the
  hash it verified goes through only while the account still has that hash, the kept
  session is alive and the account is not suspended; it leaves that one session and
  retires the device cookies and every cookie of an earlier session version.
\<close>

theorem password_change_checked:
  assumes "set_password i pw (Some keep) (Some old) t now db = Inr db'" and "accounts_wf db"
  shows "\<exists>u \<in> set (users db). acc_id u = i \<and> password u = old \<and> \<not> is_suspended now (Some u) \<and>
    session_alive (Some keep) i t db \<and> {s \<in> set (sessions db'). s_user s = i} = {s \<in> set (sessions db). id_hash s = keep} \<and>
    (\<forall>v \<in> set (users db'). acc_id v = i \<longrightarrow> password v = pw \<and> device_epoch v = None \<and> session_version v = session_version u + 1)"
proof -
  from assms(1) obtain u where u: "verified_credentials i old (Some keep) t now db = Inr u"
    and db': "db' = revoke_sessions i (Some keep) False (update_user i (\<lambda>u. u\<lparr>password := pw\<rparr>) db)"
    by (auto simp: set_password_def Let_def split: sum.splits)
  from u have get: "users_get i db = Some u" and pw: "password u = old" "\<not> is_suspended now (Some u)"
    and keep: "keep \<noteq> []" "tbl_one (\<lambda>s. s_user s = i \<and> id_hash s = keep \<and> t < expires_at s) (sessions db) \<noteq> None"
    by (auto simp: verified_credentials_def Let_def split: option.splits if_splits)
  from keep(2) obtain s where s: "s \<in> set (sessions db)" "s_user s = i" "id_hash s = keep" "t < expires_at s"
    by (auto dest: tbl_one_SomeD)
  have d: "distinct (map id_hash (sessions db))" "distinct (map acc_id (users db))"
    using assms(2) by (simp_all add: accounts_wf_def)
  have alive: "session_alive (Some keep) i t db"
    using s keep(1) by (auto simp: session_alive_def tbl_one_None_iff)
  have only: "r = s" if "r \<in> set (sessions db)" "id_hash r = keep" for r
    by (rule distinct_key_eq [OF d(1) that(1) s(1)]) (simp add: that s)
  have "sessions db' = tbl_delete (\<lambda>s. s_user s = i \<and> id_hash s \<noteq> keep) (sessions db)"
    using keep(1) by (simp add: db' revoke_sessions_def update_user_def Let_def)
  then have "set (sessions db') = {r \<in> set (sessions db). s_user r \<noteq> i \<or> id_hash r = keep}" by auto
  moreover have "s_user r = i" if "r \<in> set (sessions db)" "id_hash r = keep" for r
    using only [OF that] s(2) by simp
  ultimately have "{r \<in> set (sessions db'). s_user r = i} = {r \<in> set (sessions db). id_hash r = keep}" by blast
  moreover have "password v = pw \<and> device_epoch v = None \<and> session_version v = session_version u + 1"
    if v: "v \<in> set (users db')" "acc_id v = i" for v
  proof -
    have "users db' = tbl_update (\<lambda>u. acc_id u = i)
        (\<lambda>u. u\<lparr>password := pw, device_epoch := None, session_version := session_version u + 1\<rparr>) (users db)"
      by (simp add: db' revoke_sessions_def update_user_def Let_def tbl_update_twice)
    from v(1) [unfolded this] show ?thesis
    proof (cases rule: tbl_update_memE)
      case (hit v0)
      have "v0 = u" by (rule distinct_key_eq [OF d(2) hit(1)]) (use users_getD [OF get] hit in auto)
      with hit show ?thesis by simp
    qed (use v(2) in simp)
  qed
  ultimately show ?thesis using users_getD [OF get] pw alive by blast
qed

theorem password_change_checked_witness:
  "\<exists>db'. set_password ''ann'' ''h2'' (Some ''T'') (Some ''h'') 6 6 ex_accounts = Inr db' \<and>
     {s \<in> set (sessions db'). s_user s = ''ann''} = {ex_session}"
proof -
  obtain db' where s: "set_password ''ann'' ''h2'' (Some ''T'') (Some ''h'') 6 6 ex_accounts = Inr db'"
    by (simp add: set_password_def verified_credentials_def users_get_def ex_acc_defs tbl_simps Let_def)
  have "{s \<in> set (sessions ex_accounts). id_hash s = ''T''} = {ex_session}" by (auto simp: ex_acc_defs)
  with password_change_checked [OF s ex_accounts_wf] s show ?thesis by auto
qed

text \<open>
  A suspension in force is never lifted by the lapse check, whatever row the caller
  had read before: the update applies only when the stored end is still the lapsed one.
\<close>

theorem suspension_not_lifted_early:
  assumes "u \<in> set (users db)" and "is_suspended now (Some u)"
  shows "u \<in> set (users (snd (lift_expired_suspension stale now db)))"
proof -
  have "u \<in> set (tbl_update (\<lambda>r. acc_id r = acc_id v \<and> suspended r \<and> suspended_until v \<noteq> None \<and>
      suspended_until r = suspended_until v) f (users db))"
    if "suspended v" "\<not> is_suspended now (Some v)" for v f
  proof -
    have "\<not> (suspended u \<and> suspended_until u = suspended_until v)"
      using assms(2) that by (auto simp: Let_def)
    with assms(1) show ?thesis by (auto simp: set_tbl_update)
  qed
  with assms(1) show ?thesis
    by (auto simp: lift_expired_suspension_def Let_def simp del: is_suspended.simps split: option.splits)
qed

theorem suspension_not_lifted_early_witness:
  "ex_account ''cyd'' ''user'' True \<in>
    set (users (snd (lift_expired_suspension (Some ((ex_account ''cyd'' ''user'' True)\<lparr>suspended_until := Some (At 3)\<rparr>)) 9 ex_accounts)))"
  by (rule suspension_not_lifted_early) (simp_all add: ex_acc_defs)

text \<open>a session cookie moves at most once: over any run of actions in which no other
  action issues the same token, at most one move takes it, and after that (as after
  any revocation) the token never loads a session again.
\<close>

theorem session_moves_once:
  assumes "\<forall>l \<in> set ls. \<not> issues_token sha l h"
  shows "length (filter (\<lambda>x. moves_token sha (fst x) (snd x) h) (fst (run_acts (acc_act sha) ls db))) \<le> 1 \<and>
    (\<forall>l token. moves_token sha l (fst (acc_act sha l db)) h \<and> sha token = h \<longrightarrow>
       load_session sha (Some token) t (snd (run_acts (acc_act sha) ls (snd (acc_act sha l db)))) = None)"
proof (intro conjI allI impI)
  show "length (filter (\<lambda>x. moves_token sha (fst x) (snd x) h) (fst (run_acts (acc_act sha) ls db))) \<le> 1"
    using token.taken_at_most [OF assms, of db] by (cases "holds_token h db") simp_all
  fix l tok assume l: "moves_token sha l (fst (acc_act sha l db)) h \<and> sha tok = h"
  then have "\<not> holds_token h (snd (acc_act sha l db))" using token.taken [of sha l db h] by auto
  with token.stays_gone [OF _ assms, of "snd (acc_act sha l db)"]
  have "\<not> holds_token h (snd (run_acts (acc_act sha) ls (snd (acc_act sha l db))))" by simp
  then show "load_session sha (Some tok) t (snd (run_acts (acc_act sha) ls (snd (acc_act sha l db)))) = None"
    using l by (intro load_session_gone) (auto simp: holds_token_def)
qed

definition ex_move :: "string \<Rightarrow> action" where "ex_move fresh = Move (Some ''T'') ''B'' 10 fresh 6"

theorem session_moves_once_witness:
  "fst (run_acts (acc_act id) [ex_move ''N1'', ex_move ''N2''] ex_accounts) = [(ex_move ''N1'', Some ''N1''), (ex_move ''N2'', None)] \<and>
    length (filter (\<lambda>x. moves_token id (fst x) (snd x) ''T'') (fst (run_acts (acc_act id) [ex_move ''N1'', ex_move ''N2''] ex_accounts))) \<le> 1"
  using session_moves_once [of "[ex_move ''N1'', ex_move ''N2'']" id "''T''" ex_accounts]
  by (simp add: ex_move_def move_session_def ex_acc_defs tbl_simps Let_def)

text \<open>
  C15: the account a request runs as is never one in force suspended, and comes either
  from a live login session whose token the cookie carries, or from a cookie of an
  earlier release that names the account with its current session version; otherwise
  the request has no account.
\<close>

theorem current_user_sound:
  assumes "load_current_user sha i t now1 now2 now3 ck db = Inr (Some u, r, ck', db')"
  shows "u \<in> set (users db) \<and> \<not> is_suspended now1 (Some u) \<and>
    (case r of
       Some row \<Rightarrow> row \<in> set (sessions db) \<and> s_user row = acc_id u \<and> t < expires_at row \<and>
         truthy (c_sid ck) \<and> id_hash row = sha (the (c_sid ck)) \<and> c_sid ck' = c_sid ck
     | None \<Rightarrow> \<not> truthy (c_sid ck) \<and> c_user_id ck = Some (acc_id u) \<and> c_session_version ck = session_version u \<and>
         c_user_id ck' = None \<and> c_sid ck' = Some (si_token i))"
proof (cases "truthy (c_sid ck)")
  case True
  with assms obtain row where row: "load_session sha (c_sid ck) t db = Some (row, u)" "r = Some row" "ck' = ck"
    "fst (usable (Some u) now1 now2 db)"
    by (auto simp: load_current_user_def split: option.splits bool.splits prod.splits)
  with load_session_Some [OF row(1)] show ?thesis
    by (auto simp: usable_def simp del: is_suspended.simps split: if_splits)
next
  case False
  have "truthy (c_user_id ck)" using assms False by (auto simp: load_current_user_def split: if_splits)
  then obtain uid where "c_user_id ck = Some uid" "uid \<noteq> []" by (cases "c_user_id ck") auto
  with False assms show ?thesis
    by (auto simp: load_current_user_def usable_def login_user_def empty_cookie_def Let_def simp del: is_suspended.simps
        split: option.splits if_splits prod.splits sum.splits dest!: users_getD)
qed

definition ex_cookie :: cookie where
  "ex_cookie = \<lparr>c_sid = Some ''T'', c_user_id = None, c_session_version = 0, c_language = None\<rparr>"

definition ex_sign_in :: sign_in where
  "ex_sign_in = \<lparr>si_token = ''N'', si_days = 30, si_agent = ''B'', si_ip = ''::1'', si_times = (\<lambda>_. 6)\<rparr>"

theorem current_user_sound_witness:
  "\<exists>db'. load_current_user id ex_sign_in 6 6 6 6 ex_cookie ex_accounts =
      Inr (Some (ex_account ''ann'' ''admin'' False), Some ex_session, ex_cookie, db') \<and>
    \<not> is_suspended 6 (Some (ex_account ''ann'' ''admin'' False))"
proof -
  obtain db' where l: "load_current_user id ex_sign_in 6 6 6 6 ex_cookie ex_accounts =
      Inr (Some (ex_account ''ann'' ''admin'' False), Some ex_session, ex_cookie, db')"
    by (simp add: load_current_user_def load_session_def usable_def users_get_def ex_cookie_def ex_sign_in_def ex_acc_defs tbl_simps)
  with current_user_sound [OF l] show ?thesis by blast
qed

end
