(* ===== verification/Two_Step.thy ===== *)
theory Two_Step
  imports Accounts Throttle One_Shot
begin

section \<open>Two-step verification\<close>

text \<open>
  Authenticator and recovery codes of bananachat/totp.py and their use in
  bananachat/services/two_step.py. HMAC-SHA1 (\<open>hmac\<close>), the base 32 decoder (\<open>b32\<close>,
  \<open>None\<close> where it raises), SHA-256 in hex (\<open>sha\<close>) and the decryption of the stored
  secret (\<open>dec\<close>, the empty text when it fails) are parameters. Strings are the
  characters the code lets through: only ASCII letters have a case here.
\<close>

subsection \<open>Codes\<close>

definition STEP_SECONDS :: int where "STEP_SECONDS = 30"

definition ascii_upper :: "string \<Rightarrow> string" where
  "ascii_upper s = map (\<lambda>c. if 97 \<le> (of_char c :: nat) \<and> (of_char c :: nat) \<le> 122 then char_of ((of_char c :: nat) - 32) else c) s"

text \<open>\<open>struct.pack(">Q", n)\<close> and \<open>struct.unpack(">I", b)\<close>: big-endian bytes. Packing raises outside 64 bits, which no clock reaches (\<open>None\<close>).\<close>

definition pack_Q :: "int \<Rightarrow> nat list option" where
  "pack_Q n = (if 0 \<le> n \<and> n < 2 ^ 64 then Some (map (\<lambda>i. nat (n div 256 ^ i mod 256)) (rev [0..<8])) else None)"

definition unpack_I :: "nat list \<Rightarrow> nat" where
  "unpack_I bs = foldl (\<lambda>n b. n * 256 + b) 0 bs"

definition digits6 :: "nat \<Rightarrow> string" where
  "digits6 n = map (\<lambda>i. char_of (48 + n div 10 ^ i mod 10)) [5, 4, 3, 2, 1, 0]"

definition totp_code :: "(nat list \<Rightarrow> nat list \<Rightarrow> nat list) \<Rightarrow> (string \<Rightarrow> nat list option) \<Rightarrow> string \<Rightarrow> epoch \<Rightarrow> string option" where
  "totp_code hmac b32 secret w =
     (let counter = \<lfloor>w / of_int STEP_SECONDS\<rfloor>;
          padded = ascii_upper secret @ replicate ((8 - length secret mod 8) mod 8) (CHR ''='')
      in case b32 padded of None \<Rightarrow> None
         | Some key \<Rightarrow> (case pack_Q counter of None \<Rightarrow> None
           | Some msg \<Rightarrow>
               let digest = hmac key msg;
                   offset = last digest mod 16;
                   v = unpack_I (take 4 (drop offset digest)) mod 2 ^ 31
               in Some (digits6 (v mod 1000000))))"

definition looks_like_code :: "string option \<Rightarrow> bool" where
  "looks_like_code code =
     (let code = filter (\<lambda>c. c \<noteq> CHR '' '') (case code of None \<Rightarrow> [] | Some c \<Rightarrow> c)
      in length code = 6 \<and> (\<forall>c \<in> set code. is_digit c))"

text \<open>
  The steps tried, earliest first; the search ends at the first match, and an
  exception (\<open>None\<close> of \<open>totp_code\<close>: a damaged secret) ends it without one.
\<close>

fun try_offsets :: "(epoch \<Rightarrow> string option) \<Rightarrow> string \<Rightarrow> epoch \<Rightarrow> int list \<Rightarrow> int option" where
  "try_offsets code_at code now [] = None"
| "try_offsets code_at code now (offset # offsets) =
     (let moment = now + of_int (offset * STEP_SECONDS) in
      if moment \<ge> 0
      then (case code_at moment of None \<Rightarrow> None
            | Some c \<Rightarrow> if c = code then Some \<lfloor>moment / of_int STEP_SECONDS\<rfloor> else try_offsets code_at code now offsets)
      else try_offsets code_at code now offsets)"

definition matching_counter ::
  "(nat list \<Rightarrow> nat list \<Rightarrow> nat list) \<Rightarrow> (string \<Rightarrow> nat list option) \<Rightarrow> string \<Rightarrow> string option \<Rightarrow> epoch \<Rightarrow> int \<Rightarrow> int option" where
  "matching_counter hmac b32 secret code now window =
     (if secret = [] \<or> \<not> looks_like_code code then None
      else try_offsets (totp_code hmac b32 secret) (filter (\<lambda>c. c \<noteq> CHR '' '') (the code)) now [- window..window])"

fun crockford :: "char \<Rightarrow> char" where
  "crockford c = (if c = CHR ''O'' then CHR ''0'' else if c = CHR ''I'' \<or> c = CHR ''L'' then CHR ''1'' else c)"

definition normalize_recovery_code :: "string \<Rightarrow> string" where
  "normalize_recovery_code code =
     map crockford (take 64 (ascii_upper (filter (\<lambda>c. c \<noteq> CHR ''-'' \<and> c \<noteq> CHR '' '') code)))"

definition recovery_hash :: "(string \<Rightarrow> string) \<Rightarrow> string \<Rightarrow> string \<Rightarrow> string" where
  "recovery_hash sha acct code =
     sha (''bananachat-recovery-v1'' @ [char_of (0::nat)] @ acct @ [char_of (0::nat)] @ normalize_recovery_code code)"

text \<open>A recovery code from its sixteen characters: four groups with dashes.\<close>

definition recovery_code_of :: "string \<Rightarrow> string" where
  "recovery_code_of text =
     take 4 text @ ''-'' @ take 4 (drop 4 text) @ ''-'' @ take 4 (drop 8 text) @ ''-'' @ take 4 (drop 12 text)"

subsection \<open>State\<close>

text \<open>
  The stored recovery digests: a JSON list (whose elements may be other values, \<open>None\<close>)
  or something else.
\<close>

datatype stored_hashes = Json_List "string option list" | Not_List

record two_step_row =
  ts_user :: string
  secret_encrypted :: string
  recovery_hashes :: stored_hashes
  last_counter :: int
  enabled_at :: stamp

record two_db =
  two_step :: "two_step_row list"
  limits :: hits_db

fun hashes_of :: "stored_hashes \<Rightarrow> string list" where
  "hashes_of (Json_List vs) = map the (filter (\<lambda>v. v \<noteq> None) vs)"
| "hashes_of Not_List = []"

definition ts_row :: "string \<Rightarrow> two_db \<Rightarrow> two_step_row option" where
  "ts_row user_id db = tbl_one (\<lambda>r. ts_user r = user_id) (two_step db)"

definition two_step_state :: "(string \<Rightarrow> string) \<Rightarrow> string \<Rightarrow> two_db \<Rightarrow> (stamp \<times> nat \<times> bool) option" where
  "two_step_state dec user_id db =
     (case ts_row user_id db of None \<Rightarrow> None
      | Some r \<Rightarrow> Some (enabled_at r, length (hashes_of (recovery_hashes r)), dec (secret_encrypted r) \<noteq> []))"

definition enabled :: "string \<Rightarrow> two_db \<Rightarrow> bool" where
  "enabled user_id db \<longleftrightarrow> ts_row user_id db \<noteq> None"

definition required :: "account option \<Rightarrow> bool \<Rightarrow> bool" where
  "required user required_for_admins = (case user of None \<Rightarrow> False | Some u \<Rightarrow> role u = ''admin'' \<and> required_for_admins)"

definition missing :: "account option \<Rightarrow> bool \<Rightarrow> two_db \<Rightarrow> bool" where
  "missing user required_for_admins db =
     (required user required_for_admins \<and> \<not> enabled (acc_id (the user)) db)"

definition admins_without :: "account list \<Rightarrow> two_db \<Rightarrow> nat" where
  "admins_without us db =
     tbl_count (\<lambda>u. role u = ''admin'' \<and> \<not> suspended u \<and> \<not> (\<exists>r \<in> set (two_step db). ts_user r = acc_id u)) us"

subsection \<open>Checking a code\<close>

definition update_two_step :: "string \<Rightarrow> (two_step_row \<Rightarrow> two_step_row) \<Rightarrow> two_db \<Rightarrow> two_db" where
  "update_two_step user_id f db = db\<lparr>two_step := tbl_update (\<lambda>r. ts_user r = user_id) f (two_step db)\<rparr>"

text \<open>What the environment provides to a check: the primitives.\<close>

record crypto =
  hmac_sha1 :: "nat list \<Rightarrow> nat list \<Rightarrow> nat list"
  b32decode :: "string \<Rightarrow> nat list option"
  sha256_hex :: "string \<Rightarrow> string"
  decrypt_secret :: "string \<Rightarrow> string"

definition verify_app_code :: "crypto \<Rightarrow> string \<Rightarrow> string option \<Rightarrow> epoch \<Rightarrow> two_db \<Rightarrow> bool \<times> two_db" where
  "verify_app_code cr user_id code now db =
     (if \<not> looks_like_code code then (False, db)
      else case ts_row user_id db of
        None \<Rightarrow> (False, db)
      | Some row \<Rightarrow>
          (case matching_counter (hmac_sha1 cr) (b32decode cr) (decrypt_secret cr (secret_encrypted row)) code now 1 of
             None \<Rightarrow> (False, db)
           | Some counter \<Rightarrow>
               if counter \<le> last_counter row then (False, db)
               else (True, update_two_step user_id (\<lambda>r. r\<lparr>last_counter := counter\<rparr>) db)))"

definition use_recovery_code :: "crypto \<Rightarrow> string \<Rightarrow> string \<Rightarrow> two_db \<Rightarrow> bool \<times> two_db" where
  "use_recovery_code cr user_id code db =
     (let candidate = recovery_hash (sha256_hex cr) user_id code;
          hashes = (case ts_row user_id db of None \<Rightarrow> [] | Some r \<Rightarrow> hashes_of (recovery_hashes r))
      in if candidate \<notin> set hashes then (False, db)
         else (True, update_two_step user_id
                (\<lambda>r. r\<lparr>recovery_hashes := Json_List (map Some (remove1 candidate hashes))\<rparr>) db))"

datatype code_method = Totp | Recovery_Code

definition verify :: "crypto \<Rightarrow> string \<Rightarrow> string option \<Rightarrow> epoch \<Rightarrow> two_db \<Rightarrow> code_method option \<times> two_db" where
  "verify cr user_id code now db =
     (let code = take 128 (strip (case code of None \<Rightarrow> [] | Some c \<Rightarrow> c)) in
      if code = [] then (None, db)
      else if looks_like_code (Some code)
      then (case verify_app_code cr user_id (Some code) now db of
              (True, db') \<Rightarrow> (Some Totp, db') | (False, db') \<Rightarrow> (None, db'))
      else if length (normalize_recovery_code code) = 16
      then (case use_recovery_code cr user_id code db of
              (True, db') \<Rightarrow> (Some Recovery_Code, db') | (False, db') \<Rightarrow> (None, db'))
      else (None, db))"

definition FAILURE_WINDOW :: int where "FAILURE_WINDOW = 5 * 60"
definition FAILURES :: int where "FAILURES = 10"
definition FAILURES_PER_DAY :: int where "FAILURES_PER_DAY = 50"
definition FAILURES_PER_ACCOUNT_DAY :: int where "FAILURES_PER_ACCOUNT_DAY = 200"

definition code_limits :: "string \<Rightarrow> string option \<Rightarrow> limit_spec list" where
  "code_limits user_id device =
     (let key = (if truthy device then user_id @ '':'' @ the device else user_id) in
      [(''two-step-fail:'' @ key, FAILURES, None),
       (''two-step-fail-day:'' @ key, FAILURES_PER_DAY, Some 86400),
       (''two-step-fail-account-day:'' @ user_id, FAILURES_PER_ACCOUNT_DAY, Some 86400)])"

definition reserve_code_attempt :: "string \<Rightarrow> string option \<Rightarrow> (nat \<Rightarrow> stamp) \<Rightarrow> hits_db \<Rightarrow> int list option \<times> hits_db" where
  "reserve_code_attempt user_id device clock db = reserve (code_limits user_id device) FAILURE_WINDOW clock db"

datatype refusal = Too_Many | Invalid_Code

definition check_code ::
  "crypto \<Rightarrow> string \<Rightarrow> string option \<Rightarrow> string option \<Rightarrow> (nat \<Rightarrow> stamp) \<Rightarrow> epoch \<Rightarrow> two_db \<Rightarrow> (refusal + code_method) \<times> two_db" where
  "check_code cr user_id device code clock now db =
     (case reserve_code_attempt user_id device clock (limits db) of
        (None, h) \<Rightarrow> (Inl Too_Many, db\<lparr>limits := h\<rparr>)
      | (Some attempt, h) \<Rightarrow>
          (case verify cr user_id code now (db\<lparr>limits := h\<rparr>) of
             (None, db1) \<Rightarrow> (Inl Invalid_Code, db1)
           | (Some meth, db1) \<Rightarrow> (Inr meth, db1\<lparr>limits := release attempt (limits db1)\<rparr>)))"

subsection \<open>Changes\<close>

text \<open>\<open>codes\<close> are the ten codes drawn, \<open>enc\<close> the encrypted secret.\<close>

definition new_hashes :: "crypto \<Rightarrow> string \<Rightarrow> string list \<Rightarrow> stored_hashes" where
  "new_hashes cr user_id codes = Json_List (map (\<lambda>c. Some (recovery_hash (sha256_hex cr) user_id c)) codes)"

definition enable :: "crypto \<Rightarrow> string \<Rightarrow> string \<Rightarrow> int \<Rightarrow> string list \<Rightarrow> stamp \<Rightarrow> two_db \<Rightarrow> string list option \<times> two_db" where
  "enable cr user_id enc counter codes t db =
     (if \<exists>r \<in> set (two_step db). ts_user r = user_id then (None, db)
      else (Some codes, db\<lparr>two_step := two_step db @
        [\<lparr>ts_user = user_id, secret_encrypted = enc, recovery_hashes = new_hashes cr user_id codes,
          last_counter = counter, enabled_at = t\<rparr>]\<rparr>))"

definition renew_codes :: "crypto \<Rightarrow> string \<Rightarrow> string list \<Rightarrow> two_db \<Rightarrow> string list option \<times> two_db" where
  "renew_codes cr user_id codes db =
     (if \<exists>r \<in> set (two_step db). ts_user r = user_id
      then (Some codes, update_two_step user_id (\<lambda>r. r\<lparr>recovery_hashes := new_hashes cr user_id codes\<rparr>) db)
      else (None, db))"

definition disable :: "string \<Rightarrow> two_db \<Rightarrow> bool \<times> two_db" where
  "disable user_id db =
     (tbl_count (\<lambda>r. ts_user r = user_id) (two_step db) = 1,
      db\<lparr>two_step := tbl_delete (\<lambda>r. ts_user r = user_id) (two_step db)\<rparr>)"

subsection \<open>Which codes match\<close>

lemma looks_like_code_strip: "looks_like_code code \<Longrightarrow> length (filter (\<lambda>c. c \<noteq> CHR '' '') (the code)) = 6"
  by (cases code) (auto simp: looks_like_code_def Let_def)

lemma try_offsets_Some:
  "try_offsets code_at code now os = Some n \<Longrightarrow>
    \<exists>o' \<in> set os. 0 \<le> now + of_int (o' * STEP_SECONDS) \<and> code_at (now + of_int (o' * STEP_SECONDS)) = Some code \<and>
      n = \<lfloor>(now + of_int (o' * STEP_SECONDS)) / of_int STEP_SECONDS\<rfloor>"
  by (induction os) (auto simp: Let_def split: option.splits if_splits)

lemma try_offsets_found:
  "o' \<in> set os \<Longrightarrow> 0 \<le> now + of_int (o' * STEP_SECONDS) \<Longrightarrow> code_at (now + of_int (o' * STEP_SECONDS)) = Some code \<Longrightarrow>
    (\<And>a. a \<in> set os \<Longrightarrow> 0 \<le> now + of_int (a * STEP_SECONDS) \<Longrightarrow> code_at (now + of_int (a * STEP_SECONDS)) \<noteq> None) \<Longrightarrow>
    try_offsets code_at code now os \<noteq> None"
proof (induction os)
  case (Cons a os)
  show ?case
  proof (cases "0 \<le> now + of_int (a * STEP_SECONDS)")
    case True
    with Cons.prems(4) [of a] obtain c where "code_at (now + of_int (a * STEP_SECONDS)) = Some c" by auto
    with True Cons show ?thesis by (auto simp: Let_def)
  next
    case False
    with Cons show ?thesis by (auto simp: Let_def)
  qed
qed simp

lemma floor_step: "\<lfloor>(now + of_int (o' * STEP_SECONDS)) / of_int STEP_SECONDS\<rfloor> = \<lfloor>now / of_int STEP_SECONDS\<rfloor> + o'"
proof -
  have "(now + of_int (o' * STEP_SECONDS)) / of_int STEP_SECONDS = now / of_int STEP_SECONDS + of_int o'"
    by (simp add: STEP_SECONDS_def field_simps)
  then show ?thesis by simp
qed

text \<open>A code depends on the step only.\<close>

lemma totp_code_step: "totp_code hmac b32 secret w = totp_code hmac b32 secret (of_int (\<lfloor>w / of_int STEP_SECONDS\<rfloor> * STEP_SECONDS))"
  by (simp add: totp_code_def STEP_SECONDS_def)

lemma totp_code_at:
  "totp_code hmac b32 secret (of_int (n * 30)) =
    (case b32 (ascii_upper secret @ replicate ((8 - length secret mod 8) mod 8) (CHR ''='')) of None \<Rightarrow> None
     | Some key \<Rightarrow> (case pack_Q n of None \<Rightarrow> None
       | Some msg \<Rightarrow> let digest = hmac key msg; offset = last digest mod 16
           in Some (digits6 (unpack_I (take 4 (drop offset digest)) mod 2 ^ 31 mod 1000000))))"
proof -
  have "\<lfloor>(of_int (n * 30) :: rat) / of_int STEP_SECONDS\<rfloor> = n" by (simp add: STEP_SECONDS_def)
  then show ?thesis unfolding totp_code_def by (simp only: Let_def)
qed

subsection \<open>Rows of an account\<close>

lemma ts_row_update:
  "(\<And>r. ts_user (f r) = ts_user r) \<Longrightarrow>
    ts_row i (update_two_step j f db) = (if i = j then map_option f (ts_row i db) else ts_row i db)"
  by (simp add: ts_row_def update_two_step_def tbl_one_update_key)

lemma ts_row_limits [simp]: "ts_row i (db\<lparr>limits := h\<rparr>) = ts_row i db"
  by (simp add: ts_row_def)

lemma limits_update_two_step [simp]: "limits (update_two_step i f db) = limits db"
  by (simp add: update_two_step_def)

lemma verify_app_code_True:
  assumes "verify_app_code cr i code now db = (True, db')"
  obtains row counter where "looks_like_code code" "ts_row i db = Some row"
    "matching_counter (hmac_sha1 cr) (b32decode cr) (decrypt_secret cr (secret_encrypted row)) code now 1 = Some counter"
    "last_counter row < counter" "db' = update_two_step i (\<lambda>r. r\<lparr>last_counter := counter\<rparr>) db"
  using assms by (auto simp: verify_app_code_def split: if_splits option.splits)

lemma verify_app_code_False: "verify_app_code cr i code now db = (False, db') \<Longrightarrow> db' = db"
  by (auto simp: verify_app_code_def split: if_splits option.splits)

lemma use_recovery_code_True:
  assumes "use_recovery_code cr i code db = (True, db')"
  obtains row where "ts_row i db = Some row"
    "recovery_hash (sha256_hex cr) i code \<in> set (hashes_of (recovery_hashes row))"
    "db' = update_two_step i (\<lambda>r. r\<lparr>recovery_hashes :=
      Json_List (map Some (remove1 (recovery_hash (sha256_hex cr) i code) (hashes_of (recovery_hashes row))))\<rparr>) db"
  using assms by (auto simp: use_recovery_code_def Let_def split: if_splits option.splits)

lemma use_recovery_code_False: "use_recovery_code cr i code db = (False, db') \<Longrightarrow> db' = db"
  by (auto simp: use_recovery_code_def Let_def split: if_splits option.splits)

text \<open>The three outcomes of \<open>verify\<close>.\<close>

lemma verify_cases:
  assumes "verify cr i code now db = (r, db')"
  obtains (refused) "r = None" "db' = db"
  | (app) code' row counter where "r = Some Totp" "ts_row i db = Some row"
      "matching_counter (hmac_sha1 cr) (b32decode cr) (decrypt_secret cr (secret_encrypted row)) (Some code') now 1 = Some counter"
      "last_counter row < counter" "db' = update_two_step i (\<lambda>r. r\<lparr>last_counter := counter\<rparr>) db"
  | (recovery) row h where "r = Some Recovery_Code" "ts_row i db = Some row" "h \<in> set (hashes_of (recovery_hashes row))"
      "db' = update_two_step i (\<lambda>r. r\<lparr>recovery_hashes := Json_List (map Some (remove1 h (hashes_of (recovery_hashes row))))\<rparr>) db"
      "h = recovery_hash (sha256_hex cr) i (take 128 (strip (case code of None \<Rightarrow> [] | Some c \<Rightarrow> c)))"
proof -
  let ?c = "take 128 (strip (case code of None \<Rightarrow> [] | Some c \<Rightarrow> c))"
  consider "?c = []" | "?c \<noteq> []" "looks_like_code (Some ?c)"
    | "?c \<noteq> []" "\<not> looks_like_code (Some ?c)" "length (normalize_recovery_code ?c) = 16"
    | "?c \<noteq> []" "\<not> looks_like_code (Some ?c)" "length (normalize_recovery_code ?c) \<noteq> 16" by blast
  then show thesis
  proof cases
    case 1
    with assms show thesis by (intro refused) (auto simp: verify_def Let_def)
  next
    case 2
    obtain b db1 where v: "verify_app_code cr i (Some ?c) now db = (b, db1)" by fastforce
    with 2 assms have r: "r = (if b then Some Totp else None)" "db' = db1"
      by (auto simp: verify_def Let_def split: bool.splits)
    show thesis
    proof (cases b)
      case True
      with v have "verify_app_code cr i (Some ?c) now db = (True, db1)" by simp
      then show thesis by (rule verify_app_code_True) (use app True r in auto)
    next
      case False
      with v r verify_app_code_False show thesis by (intro refused) auto
    qed
  next
    case 3
    obtain b db1 where v: "use_recovery_code cr i ?c db = (b, db1)" by fastforce
    with 3 assms have r: "r = (if b then Some Recovery_Code else None)" "db' = db1"
      by (auto simp: verify_def Let_def split: bool.splits)
    show thesis
    proof (cases b)
      case True
      with v have "use_recovery_code cr i ?c db = (True, db1)" by simp
      then show thesis by (rule use_recovery_code_True) (use recovery True r in auto)
    next
      case False
      with v r use_recovery_code_False show thesis by (intro refused) auto
    qed
  next
    case 4
    with assms show thesis by (intro refused) (auto simp: verify_def Let_def)
  qed
qed

subsection \<open>Codes are used once\<close>

text \<open>Every action on the set-ups; the last one is the account's deletion, which cascades.\<close>

datatype ts_action =
    Verify string "string option" epoch
  | Enable string string int "string list" stamp
  | Renew_Codes string "string list"
  | Disable string
  | Account_Deleted string

datatype accepted = App_Step int | Recovery_Digest string | Nothing_Accepted

fun ts_act :: "crypto \<Rightarrow> ts_action \<Rightarrow> two_db \<Rightarrow> accepted \<times> two_db" where
  "ts_act cr (Verify i code now) db =
     (case verify cr i code now db of
        (None, db') \<Rightarrow> (Nothing_Accepted, db')
      | (Some Totp, db') \<Rightarrow> (App_Step (last_counter (the (ts_row i db'))), db')
      | (Some Recovery_Code, db') \<Rightarrow>
          (Recovery_Digest (recovery_hash (sha256_hex cr) i (take 128 (strip (case code of None \<Rightarrow> [] | Some c \<Rightarrow> c)))), db'))"
| "ts_act cr (Enable i enc counter codes t) db = (Nothing_Accepted, snd (enable cr i enc counter codes t db))"
| "ts_act cr (Renew_Codes i codes) db = (Nothing_Accepted, snd (renew_codes cr i codes db))"
| "ts_act cr (Disable i) db = (Nothing_Accepted, snd (disable i db))"
| "ts_act cr (Account_Deleted i) db = (Nothing_Accepted, db\<lparr>two_step := tbl_delete (\<lambda>r. ts_user r = i) (two_step db)\<rparr>)"

fun sets_up :: "ts_action \<Rightarrow> string \<Rightarrow> bool" where
  "sets_up (Enable j enc counter codes t) i = (j = i)"
| "sets_up (Renew_Codes j codes) i = (j = i)"
| "sets_up _ i = False"

text \<open>What is left: whether a step is newer than the last one accepted; how many copies of a digest are stored.\<close>

definition step_left :: "string \<times> int \<Rightarrow> two_db \<Rightarrow> nat" where
  "step_left k db = (case ts_row (fst k) db of None \<Rightarrow> 0 | Some r \<Rightarrow> of_bool (last_counter r < snd k))"

definition digest_left :: "string \<times> string \<Rightarrow> two_db \<Rightarrow> nat" where
  "digest_left k db = (case ts_row (fst k) db of None \<Rightarrow> 0 | Some r \<Rightarrow> count_list (hashes_of (recovery_hashes r)) (snd k))"

fun takes_step :: "ts_action \<Rightarrow> accepted \<Rightarrow> string \<times> int \<Rightarrow> bool" where
  "takes_step (Verify i code now) (App_Step c) k = (k = (i, c))"
| "takes_step _ _ k = False"

fun takes_digest :: "ts_action \<Rightarrow> accepted \<Rightarrow> string \<times> string \<Rightarrow> bool" where
  "takes_digest (Verify i code now) (Recovery_Digest h) k = (k = (i, h))"
| "takes_digest _ _ k = False"

lemma ts_row_other_acts:
  assumes "\<not> sets_up l i" and "\<And>j code now. l \<noteq> Verify j code now"
  shows "ts_row i (snd (ts_act cr l db)) = ts_row i db \<or> ts_row i (snd (ts_act cr l db)) = None"
proof (cases l)
  case (Enable j enc counter codes t)
  with assms show ?thesis
    by (auto simp: enable_def ts_row_def tbl_one_append tbl_simps split: option.splits)
next
  case (Renew_Codes j codes)
  with assms show ?thesis by (auto simp: renew_codes_def ts_row_update)
next
  case (Disable j)
  then show ?thesis by (simp add: disable_def ts_row_def tbl_one_delete_key)
next
  case (Account_Deleted j)
  then show ?thesis by (simp add: ts_row_def tbl_one_delete_key)
qed (use assms in auto)

lemma count_list_remove1: "h \<in> set xs \<Longrightarrow> count_list (remove1 h xs) x = count_list xs x - of_bool (x = h)"
  by (induction xs) auto

lemma count_list_pos: "h \<in> set xs \<Longrightarrow> 0 < count_list xs h"
  by (induction xs) auto

lemma map_the_filter_Some [simp]: "map the (filter (\<lambda>v. v \<noteq> None) (map Some xs)) = xs"
  by (induction xs) auto

lemma verify_step_left:
  assumes "verify cr j code now db = (r, db')"
  shows "step_left (i, c) db' \<le> step_left (i, c) db"
    and "r = Some Totp \<Longrightarrow> step_left (j, last_counter (the (ts_row j db'))) db' < step_left (j, last_counter (the (ts_row j db'))) db"
proof -
  show "step_left (i, c) db' \<le> step_left (i, c) db"
    using assms
    by (cases rule: verify_cases) (auto simp: step_left_def ts_row_update split: option.splits)
  show "step_left (j, last_counter (the (ts_row j db'))) db' < step_left (j, last_counter (the (ts_row j db'))) db" if "r = Some Totp"
    using assms by (cases rule: verify_cases) (use that in \<open>auto simp: step_left_def ts_row_update\<close>)
qed

lemma verify_digest_left:
  assumes "verify cr j code now db = (r, db')"
  shows "digest_left (i, h) db' \<le> digest_left (i, h) db"
    and "r = Some Recovery_Code \<Longrightarrow> digest_left (j, recovery_hash (sha256_hex cr) j (take 128 (strip (case code of None \<Rightarrow> [] | Some c \<Rightarrow> c)))) db' <
      digest_left (j, recovery_hash (sha256_hex cr) j (take 128 (strip (case code of None \<Rightarrow> [] | Some c \<Rightarrow> c)))) db"
proof -
  show "digest_left (i, h) db' \<le> digest_left (i, h) db"
    using assms
    by (cases rule: verify_cases) (auto simp: digest_left_def ts_row_update count_list_remove1 split: option.splits)
  let ?h = "recovery_hash (sha256_hex cr) j (take 128 (strip (case code of None \<Rightarrow> [] | Some c \<Rightarrow> c)))"
  show "digest_left (j, ?h) db' < digest_left (j, ?h) db" if "r = Some Recovery_Code"
    using assms
  proof (cases rule: verify_cases)
    case (recovery row h)
    with count_list_pos [OF recovery(3)] show ?thesis
      by (simp add: digest_left_def ts_row_update count_list_remove1)
  qed (use that in auto)
qed

interpretation app_step: one_shot "ts_act cr" step_left "\<lambda>l k. sets_up l (fst k)" takes_step for cr
proof
  fix l :: ts_action and k :: "string \<times> int" and db :: two_db
  obtain i c where k: "k = (i, c)" by (cases k)
  show "step_left k (snd (ts_act cr l db)) \<le> step_left k db" if "\<not> sets_up l (fst k)"
  proof (cases "\<exists>j code now. l = Verify j code now")
    case True
    then obtain j code now where l: "l = Verify j code now" by blast
    obtain r db' where v: "verify cr j code now db = (r, db')" by fastforce
    with verify_step_left(1) [OF v, of i c] show ?thesis by (simp add: l k split: option.splits code_method.splits)
  next
    case False
    with ts_row_other_acts [of l i cr db] that show ?thesis by (auto simp: k step_left_def)
  qed
  show "step_left k (snd (ts_act cr l db)) < step_left k db" if t: "takes_step l (fst (ts_act cr l db)) k"
  proof (cases l)
    case (Verify j code now)
    obtain r db' where v: "verify cr j code now db = (r, db')" by fastforce
    with t Verify have "r = Some Totp" "k = (j, last_counter (the (ts_row j db')))"
      by (auto split: option.splits code_method.splits)
    with verify_step_left(2) [OF v] Verify v show ?thesis by simp
  qed (use t in auto)
qed

interpretation recovery_code: one_shot "ts_act cr" digest_left "\<lambda>l k. sets_up l (fst k)" takes_digest for cr
proof
  fix l :: ts_action and k :: "string \<times> string" and db :: two_db
  obtain i h where k: "k = (i, h)" by (cases k)
  show "digest_left k (snd (ts_act cr l db)) \<le> digest_left k db" if "\<not> sets_up l (fst k)"
  proof (cases "\<exists>j code now. l = Verify j code now")
    case True
    then obtain j code now where l: "l = Verify j code now" by blast
    obtain r db' where v: "verify cr j code now db = (r, db')" by fastforce
    with verify_digest_left(1) [OF v, of i h] show ?thesis by (simp add: l k split: option.splits code_method.splits)
  next
    case False
    with ts_row_other_acts [of l i cr db] that show ?thesis by (auto simp: k digest_left_def)
  qed
  show "digest_left k (snd (ts_act cr l db)) < digest_left k db" if t: "takes_digest l (fst (ts_act cr l db)) k"
  proof (cases l)
    case (Verify j code now)
    obtain r db' where v: "verify cr j code now db = (r, db')" by fastforce
    with t Verify have "r = Some Recovery_Code"
      "k = (j, recovery_hash (sha256_hex cr) j (take 128 (strip (case code of None \<Rightarrow> [] | Some c \<Rightarrow> c))))"
      by (auto split: option.splits code_method.splits)
    with verify_digest_left(2) [OF v] Verify v show ?thesis by simp
  qed (use t in auto)
qed

subsection \<open>Wrong codes are counted\<close>

text \<open>One attempt: the browser's device cookie, the code, and the clock readings.\<close>

record code_try =
  ct_device :: "string option"
  ct_code :: "string option"
  ct_clock :: "nat \<Rightarrow> stamp"
  ct_now :: epoch

definition code_attempt :: "crypto \<Rightarrow> string \<Rightarrow> code_try \<Rightarrow> two_db \<Rightarrow> bool option \<times> two_db" where
  "code_attempt cr user_id a db =
     (case check_code cr user_id (ct_device a) (ct_code a) (ct_clock a) (ct_now a) db of
        (Inl Too_Many, db') \<Rightarrow> (None, db')
      | (Inl Invalid_Code, db') \<Rightarrow> (Some False, db')
      | (Inr _, db') \<Rightarrow> (Some True, db'))"

lemma verify_limits: "verify cr i code now db = (r, db') \<Longrightarrow> limits db' = limits db"
  by (erule verify_cases) simp_all

lemma code_attempt_cases:
  assumes "code_attempt cr i a db = (r, db')"
  obtains (refused) "r = None" "limits db' = limits db"
  | (wrong) ids where "r = Some False" "reserve (code_limits i (ct_device a)) FAILURE_WINDOW (ct_clock a) (limits db) = (Some ids, limits db')"
  | (right) ids h where "r = Some True" "reserve (code_limits i (ct_device a)) FAILURE_WINDOW (ct_clock a) (limits db) = (Some ids, h)"
      "limits db' = release ids h"
proof (cases "reserve (code_limits i (ct_device a)) FAILURE_WINDOW (ct_clock a) (limits db)")
  case (Pair x h)
  show thesis
  proof (cases x)
    case None
    with reserve_None [of "code_limits i (ct_device a)" FAILURE_WINDOW "ct_clock a" "limits db"] Pair assms show thesis
      by (intro refused) (auto simp: code_attempt_def check_code_def reserve_code_attempt_def)
  next
    case (Some ids)
    obtain m db1 where v: "verify cr i (ct_code a) (ct_now a) (db\<lparr>limits := h\<rparr>) = (m, db1)" by fastforce
    from verify_limits [OF v] have "limits db1 = h" by simp
    with Pair Some assms v wrong [of ids] right [of ids h] show thesis
      by (cases m) (auto simp: code_attempt_def check_code_def reserve_code_attempt_def)
  qed
qed

lemma distinct_code_limits: "distinct (map fst (code_limits i device))"
  by (simp add: code_limits_def Let_def)

lemma code_budget:
  assumes at: "\<And>a. fits a \<Longrightarrow> n < length (code_limits i (ct_device a)) \<and> code_limits i (ct_device a) ! n = (k, l, wo) \<and> in_span T w (ct_clock a)"
    and w: "w = (case wo of Some w' \<Rightarrow> w' | None \<Rightarrow> FAILURE_WINDOW)"
  shows "guess_budget (code_attempt cr i) (\<lambda>db. hits_wf (limits db)) (\<lambda>db. hits_since k T (limits db)) (nat l) fits"
proof
  fix db :: two_db and a :: code_try
  assume wf: "hits_wf (limits db)"
  obtain r db' where c: "code_attempt cr i a db = (r, db')" by fastforce
  note wf' = hits_wf_reserve [OF wf, of "code_limits i (ct_device a)" FAILURE_WINDOW "ct_clock a"]
  show "hits_wf (limits (snd (code_attempt cr i a db)))"
    using c by (cases rule: code_attempt_cases) (use c wf wf' in \<open>auto intro: hits_wf_release\<close>)
  show "hits_since k T (limits (snd (code_attempt cr i a db))) = hits_since k T (limits db)"
    if "fst (code_attempt cr i a db) = None"
    using c by (cases rule: code_attempt_cases) (use that c in auto)
  assume fit: "fits a"
  note at = at [OF fit]
  show "hits_since k T (limits db) < nat l \<and>
      hits_since k T (limits (snd (code_attempt cr i a db))) = Suc (hits_since k T (limits db))"
    if "fst (code_attempt cr i a db) = Some False"
    using c
  proof (cases rule: code_attempt_cases)
    case (wrong ids)
    have "ct_clock a n - w \<le> T" "T < ct_clock a (length (code_limits i (ct_device a)) + n)"
      using at by (simp_all add: in_span_def algebra_simps)
    with reserve_counts [OF wrong(2) distinct_code_limits, of n k l wo T] at show ?thesis by (simp add: c w)
  qed (use that c in auto)
  show "hits_since k T (limits (snd (code_attempt cr i a db))) = hits_since k T (limits db)"
    if "fst (code_attempt cr i a db) = Some True"
    using c
  proof (cases rule: code_attempt_cases)
    case (right ids h)
    with hits_since_release_reserve [OF wf right(2)] show ?thesis by (simp add: c)
  qed (use that c in auto)
qed

text \<open>The budget of one browser (or of every unknown one), and the account's for a day.\<close>

interpretation code_short: guess_budget "code_attempt cr i" "\<lambda>db. hits_wf (limits db)"
    "\<lambda>db. hits_since (''two-step-fail:'' @ (if truthy device then i @ '':'' @ the device else i)) T (limits db)"
    "nat FAILURES" "\<lambda>a. ct_device a = device \<and> in_span T FAILURE_WINDOW (ct_clock a)"
  for cr i device T
  by (rule code_budget [where n = 0 and wo = None]) (auto simp: code_limits_def Let_def)

interpretation code_account_day: guess_budget "code_attempt cr i" "\<lambda>db. hits_wf (limits db)"
    "\<lambda>db. hits_since (''two-step-fail-account-day:'' @ i) T (limits db)"
    "nat FAILURES_PER_ACCOUNT_DAY" "\<lambda>a. in_span T 86400 (ct_clock a)"
  for cr i T
  by (rule code_budget [where n = 2 and wo = "Some 86400"]) (auto simp: code_limits_def Let_def)

subsection \<open>Recovery codes as they are typed\<close>

definition CROCKFORD :: string where "CROCKFORD = ''0123456789ABCDEFGHJKMNPQRSTVWXYZ''"

lemma crockford_char:
  assumes "c \<in> set CROCKFORD"
  shows "crockford c = c" and "ascii_upper [c] = [c]" and "c \<noteq> CHR ''-''" and "c \<noteq> CHR '' ''"
  using assms by (auto simp: CROCKFORD_def ascii_upper_def)

lemma normalize_recovery_code_of:
  assumes "length cs = 16" and "set cs \<subseteq> set CROCKFORD"
  shows "normalize_recovery_code (recovery_code_of cs) = cs"
proof -
  let ?P = "\<lambda>c. c \<noteq> CHR ''-'' \<and> c \<noteq> CHR '' ''"
  have P: "filter ?P (take n (drop m cs)) = take n (drop m cs)" for n m
    by (rule filter_True) (use assms(2) crockford_char(3,4) in \<open>blast dest: in_set_takeD in_set_dropD\<close>)
  have "take 4 cs @ take 4 (drop 4 cs) @ take 4 (drop 8 cs) @ take 4 (drop 12 cs) = cs"
    using take_add [of 4 4 cs] take_add [of 8 4 cs] take_add [of 12 4 cs] assms(1) by simp
  then have "filter ?P (recovery_code_of cs) = cs"
    using P [of 4 0] P [of 4 4] P [of 4 8] P [of 4 12] by (simp add: recovery_code_of_def)
  moreover have "ascii_upper cs = cs"
    using assms(2) crockford_char(2) by (auto simp: ascii_upper_def intro!: map_idI)
  moreover have "map crockford cs = cs"
    using assms(2) crockford_char(1) by (auto intro!: map_idI)
  ultimately show ?thesis using assms(1) by (simp add: normalize_recovery_code_def)
qed

lemma normalize_16_not_code: "length (normalize_recovery_code code) = 16 \<Longrightarrow> \<not> looks_like_code (Some code)"
proof
  assume n: "length (normalize_recovery_code code) = 16" and l: "looks_like_code (Some code)"
  have "length (filter (\<lambda>c. c \<noteq> CHR ''-'' \<and> c \<noteq> CHR '' '') code) \<le> length (filter (\<lambda>c. c \<noteq> CHR '' '') code)"
    by (induction code) auto
  with n l show False by (simp add: normalize_recovery_code_def ascii_upper_def looks_like_code_def)
qed

lemma verify_recovery:
  assumes "ts_row i db = Some row" and "recovery_hash (sha256_hex cr) i typed \<in> set (hashes_of (recovery_hashes row))"
    and "strip typed = typed" "length typed \<le> 128" "length (normalize_recovery_code typed) = 16"
  shows "fst (verify cr i (Some typed) now db) = Some Recovery_Code"
proof -
  have ne: "typed \<noteq> []" using assms(5) by (auto simp: normalize_recovery_code_def ascii_upper_def)
  have "fst (use_recovery_code cr i typed db)" using assms(1,2) by (simp add: use_recovery_code_def)
  then obtain db' where "use_recovery_code cr i typed db = (True, db')"
    by (cases "use_recovery_code cr i typed db") auto
  with ne assms normalize_16_not_code [OF assms(5)] show ?thesis by (simp add: verify_def Let_def)
qed

subsection \<open>Properties\<close>

text \<open>the authenticator check accepts exactly the codes of the current 30-second step and
  of its two neighbours (never one before the epoch), and reports the step whose code it is.
\<close>

theorem totp_window:
  assumes "b32 (ascii_upper secret @ replicate ((8 - length secret mod 8) mod 8) (CHR ''='')) = Some key"
    and "secret \<noteq> []" and "looks_like_code code" and "0 \<le> now" "now < 2 ^ 60"
    and "s = \<lfloor>now / 30\<rfloor>" and "clean = filter (\<lambda>c. c \<noteq> CHR '' '') (the code)"
  shows "case matching_counter hmac b32 secret code now 1 of
      Some c \<Rightarrow> c \<in> {s - 1..s + 1} \<and> 0 \<le> c \<and> totp_code hmac b32 secret (of_int (c * 30)) = Some clean
    | None \<Rightarrow> \<forall>n \<in> {s - 1..s + 1}. 0 \<le> n \<longrightarrow> totp_code hmac b32 secret (of_int (n * 30)) \<noteq> Some clean"
proof -
  let ?at = "totp_code hmac b32 secret"
  have m: "matching_counter hmac b32 secret code now 1 = try_offsets ?at clean now [- 1..1]"
    using assms(2,3,7) by (simp add: matching_counter_def)
  have step: "?at (now + of_int (a * STEP_SECONDS)) = ?at (of_int ((s + a) * 30))" for a
    using totp_code_step [of hmac b32 secret "now + of_int (a * STEP_SECONDS)"] floor_step [of now a]
    by (simp add: assms(6) STEP_SECONDS_def)
  have nonneg: "0 \<le> now + of_int (a * STEP_SECONDS) \<longleftrightarrow> 0 \<le> s + a" for a
  proof -
    have "0 \<le> now + of_int (a * STEP_SECONDS) \<longleftrightarrow> 0 \<le> (now + of_int (a * STEP_SECONDS)) / of_int STEP_SECONDS"
      by (simp add: STEP_SECONDS_def zero_le_divide_iff)
    also have "\<dots> \<longleftrightarrow> 0 \<le> \<lfloor>now / of_int STEP_SECONDS\<rfloor> + a"
      unfolding floor_step [symmetric] by (rule zero_le_floor [symmetric])
    finally show ?thesis by (simp add: assms(6) STEP_SECONDS_def)
  qed
  have defined: "?at (now + of_int (a * STEP_SECONDS)) \<noteq> None" if "a \<in> {- 1..1}" "0 \<le> now + of_int (a * STEP_SECONDS)" for a
  proof -
    have "s < 2 ^ 60"
    proof -
      have "of_int s \<le> now / 30" unfolding assms(6) by (rule of_int_floor_le)
      also have "\<dots> \<le> now" using assms(4) by simp
      finally have "of_int s < (2 ^ 60 :: rat)" using assms(5) by linarith
      then show ?thesis by simp
    qed
    then have "pack_Q (s + a) \<noteq> None" using nonneg that by (simp add: pack_Q_def)
    then show ?thesis
      unfolding step totp_code_at using assms(1) by (auto simp: Let_def)
  qed
  show ?thesis
  proof (cases "try_offsets ?at clean now [- 1..1]")
    case (Some c)
    from try_offsets_Some [OF this] obtain a where a: "a \<in> {- 1..1}" "0 \<le> now + of_int (a * STEP_SECONDS)"
      "?at (now + of_int (a * STEP_SECONDS)) = Some clean" "c = \<lfloor>(now + of_int (a * STEP_SECONDS)) / of_int STEP_SECONDS\<rfloor>"
      by auto
    then have "c = s + a" using floor_step [of now a] by (simp add: assms(6) STEP_SECONDS_def)
    moreover have "?at (of_int (c * 30)) = Some clean" using a(3) unfolding step \<open>c = s + a\<close> .
    moreover have "0 \<le> s + a" using a(2) nonneg by blast
    ultimately show ?thesis using a(1) Some m by simp
  next
    case None
    have "?at (of_int (n * 30)) \<noteq> Some clean" if n: "n \<in> {s - 1..s + 1}" "0 \<le> n" for n
    proof
      assume "?at (of_int (n * 30)) = Some clean"
      then have "?at (now + of_int ((n - s) * STEP_SECONDS)) = Some clean" unfolding step by simp
      moreover have "0 \<le> now + of_int ((n - s) * STEP_SECONDS)" unfolding nonneg using n(2) by simp
      moreover have "n - s \<in> set [- 1..1]" using n(1) by auto
      ultimately have "try_offsets ?at clean now [- 1..1] \<noteq> None"
        by (intro try_offsets_found [of "n - s"]) (simp_all add: defined del: of_int_mult of_int_diff)
      with None show False by simp
    qed
    with None m show ?thesis by simp
  qed
qed

text \<open>Toy primitives for concrete inputs.\<close>

definition ex_hmac :: "nat list \<Rightarrow> nat list \<Rightarrow> nat list" where
  "ex_hmac key msg = [0, 0, 0, 7, 0]"

definition ex_crypto :: crypto where
  "ex_crypto = \<lparr>hmac_sha1 = ex_hmac, b32decode = (\<lambda>s. Some [1]), sha256_hex = (\<lambda>s. s), decrypt_secret = (\<lambda>s. s)\<rparr>"

lemma digits6_7: "digits6 7 = ''000007''"
  by (simp add: digits6_def char_of_def bit_0)

lemma ex_totp:
  assumes "0 \<le> w" "w < 2 ^ 60"
  shows "totp_code ex_hmac (\<lambda>s. Some [1]) ''A'' w = Some ''000007''"
proof -
  have "0 \<le> \<lfloor>w / 30\<rfloor>" using assms by simp
  moreover have "\<lfloor>w / 30\<rfloor> < 2 ^ 64" using assms by (simp add: floor_less_iff)
  moreover have "digits6 (7 mod 2 ^ 31 mod 1000000) = ''000007''" using digits6_7 by simp
  ultimately show ?thesis
    by (simp add: totp_code_def pack_Q_def ex_hmac_def unpack_I_def STEP_SECONDS_def Let_def del: upt_rec_numeral power_numeral)
qed

theorem totp_window_witness:
  "\<exists>c. matching_counter ex_hmac (\<lambda>s. Some [1]) ''A'' (Some ''000 007'') 90 1 = Some c \<and> c \<in> {2..4} \<and>
    totp_code ex_hmac (\<lambda>s. Some [1]) ''A'' (of_int (c * 30)) = Some ''000007''"
proof -
  have code: "looks_like_code (Some ''000 007'')" by (simp add: looks_like_code_def is_digit_def Let_def)
  have "case matching_counter ex_hmac (\<lambda>s. Some [1]) ''A'' (Some ''000 007'') 90 1 of
      Some c \<Rightarrow> c \<in> {3 - 1..3 + 1} \<and> 0 \<le> c \<and> totp_code ex_hmac (\<lambda>s. Some [1]) ''A'' (of_int (c * 30)) = Some ''000007''
    | None \<Rightarrow> \<forall>n \<in> {3 - 1..3 + 1}. 0 \<le> n \<longrightarrow> totp_code ex_hmac (\<lambda>s. Some [1]) ''A'' (of_int (n * 30)) \<noteq> Some ''000007''"
    by (rule totp_window [where key = "[1]"]) (simp_all add: code)
  moreover have "totp_code ex_hmac (\<lambda>s. Some [1]) ''A'' (of_int (3 * 30)) = Some ''000007''" by (rule ex_totp) simp_all
  ultimately show ?thesis by (cases "matching_counter ex_hmac (\<lambda>s. Some [1]) ''A'' (Some ''000 007'') 90 1") (auto dest!: bspec [of _ _ 3])
qed

text \<open>
  C3: as long as the set-up does not change, each 30-second step of an account's
  authenticator is accepted at most once, whatever is tried concurrently, and a recovery
  code at most as often as its digest is stored (once, when the codes differ).
\<close>

theorem codes_work_once:
  assumes "\<forall>l \<in> set ls. \<not> sets_up l i"
  shows "length (filter (\<lambda>x. takes_step (fst x) (snd x) (i, c)) (fst (run_acts (ts_act cr) ls db))) \<le> 1 \<and>
    length (filter (\<lambda>x. takes_digest (fst x) (snd x) (i, h)) (fst (run_acts (ts_act cr) ls db))) \<le> digest_left (i, h) db"
proof -
  have "step_left (i, c) db \<le> 1" by (simp add: step_left_def split: option.splits)
  with app_step.taken_at_most [of ls "(i, c)" cr db] recovery_code.taken_at_most [of ls "(i, h)" cr db] assms
  show ?thesis by auto
qed

definition ex_codes :: "string list" where "ex_codes = [''7K3M-Q9TD-X2HB-R4NV'']"

definition ex_two :: two_db where
  "ex_two = snd (enable ex_crypto ''ann'' ''A'' 2 ex_codes 0 \<lparr>two_step = [], limits = \<lparr>hits = [], next_hit = 1, login_attempts = []\<rparr>\<rparr>)"

lemma ex_two_row: "ts_row ''ann'' ex_two = Some \<lparr>ts_user = ''ann'', secret_encrypted = ''A'',
    recovery_hashes = new_hashes ex_crypto ''ann'' ex_codes, last_counter = 2, enabled_at = 0\<rparr>"
  by (simp add: ex_two_def enable_def ts_row_def tbl_simps)

lemma ex_counter:
  assumes "90 \<le> w" "w < 120"
  shows "matching_counter ex_hmac (\<lambda>s. Some [1]) ''A'' (Some ''000007'') w 1 = Some \<lfloor>(w - 30) / 30\<rfloor>"
proof -
  have "[- 1..1 :: int] = [- 1, 0, 1]" by (simp add: upto.simps)
  moreover have "totp_code ex_hmac (\<lambda>s. Some [1]) ''A'' (w - 30) = Some ''000007''"
    by (rule ex_totp) (use assms in auto)
  moreover have "looks_like_code (Some ''000007'')" by (simp add: looks_like_code_def is_digit_def Let_def)
  ultimately show ?thesis using assms
    by (simp add: matching_counter_def STEP_SECONDS_def Let_def)
qed

theorem codes_work_once_witness:
  "fst (ts_act ex_crypto (Verify ''ann'' (Some ''7K3M-Q9TD-X2HB-R4NV'') 90) ex_two) =
      Recovery_Digest (recovery_hash (sha256_hex ex_crypto) ''ann'' ''7K3M-Q9TD-X2HB-R4NV'') \<and>
    length (filter (\<lambda>x. takes_digest (fst x) (snd x) (''ann'', recovery_hash (sha256_hex ex_crypto) ''ann'' ''7K3M-Q9TD-X2HB-R4NV''))
      (fst (run_acts (ts_act ex_crypto) (replicate 2 (Verify ''ann'' (Some ''7K3M-Q9TD-X2HB-R4NV'') 90)) ex_two))) \<le> 1"
proof -
  let ?code = "''7K3M-Q9TD-X2HB-R4NV''" and ?h = "recovery_hash (sha256_hex ex_crypto) ''ann'' ''7K3M-Q9TD-X2HB-R4NV''"
  have strip: "strip ?code = ?code" by (simp add: strip_def is_space_def)
  have "length (normalize_recovery_code ?code) = 16" by (simp add: normalize_recovery_code_def ascii_upper_def)
  then have "fst (verify ex_crypto ''ann'' (Some ?code) 90 ex_two) = Some Recovery_Code"
    by (intro verify_recovery [OF ex_two_row _ strip]) (simp_all add: new_hashes_def ex_codes_def)
  then have "fst (ts_act ex_crypto (Verify ''ann'' (Some ?code) 90) ex_two) = Recovery_Digest ?h"
    by (cases "verify ex_crypto ''ann'' (Some ?code) 90 ex_two") (simp add: strip)
  moreover have "digest_left (''ann'', ?h) ex_two = 1"
    by (simp add: digest_left_def ex_two_row new_hashes_def ex_codes_def)
  ultimately show ?thesis
    using codes_work_once [of "replicate 2 (Verify ''ann'' (Some ?code) 90)" "''ann''" 0 ex_crypto ex_two ?h] by simp
qed


definition ex_try :: code_try where
  "ex_try = \<lparr>ct_device = None, ct_code = Some ''123456'', ct_clock = (\<lambda>_. 20), ct_now = 90\<rparr>"




end
