(* ===== verification/Pull_Jobs.thy ===== *)
theory Pull_Jobs
  imports One_Shot "HOL-Library.AList" "HOL-Library.List_Lexorder" "HOL-Library.Char_ord"
begin

section \<open>Model download jobs\<close>

text \<open>
  The queue of model downloads: the table \<open>model_pull_jobs\<close> and the discovery records of
  bananachat/db/pulls.py, and the decisions of a run of bananachat/services/pulls.py that
  write to it (who still owns a job, what an interruption does, when an error is retried).
  A job is claimed with a fresh token; what its run writes names the token. The order
  of the queue is (queue_position, id); a unique index allows one active job per backend
  and name. Tokens and keys drawn at random and clock readings are arguments.
\<close>

datatype job_status = Queued | Pulling | Done | Failed | Cancelled

datatype recipe_value = Text string | Number int

record job =
  j_id :: int
  ollama_name :: string
  backend :: string
  recipe :: "recipe_value option list"
  remote_job_id :: "string option"
  idempotency_key :: string
  j_status :: job_status
  progress_pct :: int
  progress_detail :: string
  error_message :: "string option"
  requested_by :: "string option"
  j_created_at :: stamp
  started_at :: "stamp option"
  finished_at :: "stamp option"
  queue_position :: int
  paused :: bool
  attempts :: int
  next_attempt_at :: "stamp option"
  last_error :: "string option"
  bytes_completed :: "int option"
  bytes_total :: "int option"
  progress_at :: "stamp option"
  cleanup_partial :: bool
  digest :: "string option"
  source :: string
  claim_token :: "string option"

text \<open>The discovery records as stored: the list of earlier releases, a dict, or anything else.\<close>

datatype stored_records = Names "string option list" | Dict "(string \<times> bool option) list" | Other_Value

record pulls_db =
  jobs :: "job list"
  next_job :: int
  stored :: stored_records

datatype pull_error = Unknown_Fields "string list" | Already_Active string job_status int | Integrity
  | Unknown_Outcome | Unknown_Direction

definition ACTIVE :: "job_status list" where "ACTIVE = [Queued, Pulling]"
definition FINISHED :: "job_status list" where "FINISHED = [Done, Failed, Cancelled]"
definition RECIPE_FIELDS :: "string list" where
  "RECIPE_FIELDS = [''repo_id'', ''source_filename'', ''revision'', ''target_name'', ''expected_sha256'', ''expected_size'']"

definition active :: "job \<Rightarrow> bool" where "active j \<longleftrightarrow> j_status j \<in> set ACTIVE"

subsection \<open>Names\<close>

text \<open>The part after the last slash; a name with no tag there means \<open>:latest\<close>.\<close>

definition last_part :: "string \<Rightarrow> string" where
  "last_part name = rev (takeWhile (\<lambda>c. c \<noteq> CHR ''/'') (rev name))"

definition canonical_ollama_name :: "string \<Rightarrow> string" where
  "canonical_ollama_name name = (if CHR '':'' \<in> set (last_part name) then name else name @ '':latest'')"

definition ends_with :: "string \<Rightarrow> string \<Rightarrow> bool" where
  "ends_with suffix s \<longleftrightarrow> length suffix \<le> length s \<and> drop (length s - length suffix) s = suffix"

definition names :: "string \<Rightarrow> string \<Rightarrow> string \<times> string" where
  "names name be =
     (if be \<noteq> ''ollama'' then (name, name)
      else let name = canonical_ollama_name name
        in (name, if ends_with '':latest'' name then take (length name - length '':latest'') name else name))"

subsection \<open>Reading\<close>

definition pulls_get :: "int \<Rightarrow> pulls_db \<Rightarrow> job option" where
  "pulls_get job_id db = tbl_one (\<lambda>j. j_id j = job_id) (jobs db)"

definition active_for :: "string \<Rightarrow> string \<Rightarrow> pulls_db \<Rightarrow> job option" where
  "active_for name be db =
     min_row (\<lambda>j. - j_id j)
       (filter (\<lambda>j. backend j = be \<and> (ollama_name j = fst (names name be) \<or> ollama_name j = snd (names name be)) \<and> active j)
         (jobs db))"

definition active_jobs :: "pulls_db \<Rightarrow> job list" where
  "active_jobs db = sort_key (\<lambda>j. (of_bool (j_status j \<noteq> Pulling) :: int, queue_position j, j_id j)) (filter active (jobs db))"

definition active_count :: "pulls_db \<Rightarrow> nat" where
  "active_count db = tbl_count active (jobs db)"

definition pulling_count :: "pulls_db \<Rightarrow> nat" where
  "pulling_count db = tbl_count (\<lambda>j. j_status j = Pulling) (jobs db)"

definition pull_state :: "int \<Rightarrow> pulls_db \<Rightarrow> (job_status \<times> bool \<times> bool \<times> string option) option" where
  "pull_state job_id db =
     map_option (\<lambda>j. (j_status j, paused j, cleanup_partial j, claim_token j)) (pulls_get job_id db)"

text \<open>\<open>round(a / b)\<close> of Python: to the nearest integer, halves to even.\<close>

definition round_div :: "int \<Rightarrow> int \<Rightarrow> int" where
  "round_div a b =
     (let q = a div b; r = a mod b in
      if 2 * r < b then q else if 2 * r > b then q + 1 else if even q then q else q + 1)"

record pull_summary =
  su_active :: int
  su_pulling :: int
  su_queued :: int
  su_paused :: int
  su_retrying :: int
  su_percent :: int
  su_bytes_total :: int
  su_bytes_done :: int

definition summary :: "pulls_db \<Rightarrow> pull_summary" where
  "summary db =
     (let rows = filter active (jobs db);
          n = int (length rows);
          pulling = int (tbl_count (\<lambda>j. j_status j = Pulling) rows);
          sized = filter (\<lambda>j. case bytes_total j of None \<Rightarrow> False | Some t \<Rightarrow> t > 0) rows
      in \<lparr>su_active = n, su_pulling = pulling, su_queued = n - pulling,
          su_paused = int (tbl_count (\<lambda>j. j_status j = Queued \<and> paused j) rows),
          su_retrying = int (tbl_count (\<lambda>j. j_status j = Queued \<and> next_attempt_at j \<noteq> None) rows),
          su_percent = (if n = 0 then 0 else round_div (sum_list (map progress_pct rows)) n),
          su_bytes_total = sum_list (map (\<lambda>j. the (bytes_total j)) sized),
          su_bytes_done = sum_list (map (\<lambda>j. case bytes_completed j of None \<Rightarrow> 0 | Some c \<Rightarrow> min c (the (bytes_total j))) sized)\<rparr>)"

subsection \<open>Discovery records\<close>

definition discovery_records :: "pulls_db \<Rightarrow> (string \<times> bool) list" where
  "discovery_records db =
     (case stored db of
        Names ns \<Rightarrow> fold (\<lambda>n m. case n of None \<Rightarrow> m | Some s \<Rightarrow> AList.update (canonical_ollama_name s) True m) ns []
      | Dict kvs \<Rightarrow> fold (\<lambda>(k, v) m. case v of None \<Rightarrow> m | Some b \<Rightarrow> AList.update (canonical_ollama_name k) b m) kvs []
      | Other_Value \<Rightarrow> [])"

definition store_records :: "(string \<times> bool) list \<Rightarrow> pulls_db \<Rightarrow> pulls_db" where
  "store_records m db = db\<lparr>stored := Dict (map (\<lambda>(k, v). (k, Some v)) m)\<rparr>"

text \<open>The status of each model's latest job: the jobs in id order, the later ones over the earlier.\<close>

definition latest_ollama_statuses :: "pulls_db \<Rightarrow> (string \<times> job_status) list" where
  "latest_ollama_statuses db =
     fold (\<lambda>j m. AList.update (canonical_ollama_name (ollama_name j)) (j_status j) m)
       (sort_key j_id (filter (\<lambda>j. backend j = ''ollama'') (jobs db))) []"

definition blocked_discovery_names :: "pulls_db \<Rightarrow> string list" where
  "blocked_discovery_names db =
     (let recorded = discovery_records db in
      map fst (filter snd recorded) @
      map fst (filter (\<lambda>(n, s). s \<in> set ACTIVE \<or> s = Cancelled \<and> map_of recorded n \<noteq> Some False)
        (latest_ollama_statuses db)))"

definition preserve_cancelled_history :: "pulls_db \<Rightarrow> pulls_db" where
  "preserve_cancelled_history db =
     (let recorded = fold (\<lambda>(n, s) m. if s = Cancelled \<and> map_of m n = None then AList.update n True m else m)
            (latest_ollama_statuses db) (discovery_records db)
      in if recorded \<noteq> [] then store_records recorded db else db)"

definition discovery_outcome :: "int \<Rightarrow> job_status \<Rightarrow> pulls_db \<Rightarrow> pulls_db" where
  "discovery_outcome job_id outcome db =
     (case pulls_get job_id db of
        None \<Rightarrow> db
      | Some j \<Rightarrow>
          if backend j \<noteq> ''ollama'' then db
          else
            let recorded = discovery_records db; name = canonical_ollama_name (ollama_name j)
            in store_records
                 (if outcome = Cancelled then AList.update name True recorded
                  else if outcome = Done then AList.update name False recorded else recorded) db)"

subsection \<open>Queueing and claiming\<close>

definition max_position :: "job list \<Rightarrow> int" where
  "max_position js = (if js = [] then 0 else Max (queue_position ` set js))"

text \<open>
  \<open>enqueue\<close>: \<open>key\<close> is the idempotency key drawn, \<open>fk_ok\<close> whether \<open>requested_by\<close> is a known
  account. The insert fails on a key in use, on the unique index over active jobs, or
  without the account; then the code looks for an active job again (at once, so none that
  was not there before) and raises.
\<close>

definition enqueue ::
  "string \<Rightarrow> string option \<Rightarrow> string \<Rightarrow> string \<Rightarrow> (string \<times> recipe_value) list \<Rightarrow> string \<Rightarrow> bool \<Rightarrow> stamp \<Rightarrow> pulls_db
    \<Rightarrow> pull_error + (int \<times> pulls_db)" where
  "enqueue name by be src rec key fk_ok t db =
     (let unknown = filter (\<lambda>f. f \<notin> set RECIPE_FIELDS) (map fst rec);
          name = (if be = ''ollama'' then canonical_ollama_name name else name)
      in if unknown \<noteq> [] then Inl (Unknown_Fields (sort unknown))
         else case active_for name be db of
           Some e \<Rightarrow> Inl (Already_Active name (j_status e) (j_id e))
         | None \<Rightarrow>
             if \<not> fk_ok \<or> (\<exists>j \<in> set (jobs db). idempotency_key j = key) \<or>
                (\<exists>j \<in> set (jobs db). active j \<and> backend j = be \<and> ollama_name j = name)
             then Inl Integrity
             else Inr (next_job db, db\<lparr>jobs := jobs db @
               [\<lparr>j_id = next_job db, ollama_name = name, backend = be, recipe = map (map_of rec) RECIPE_FIELDS,
                 remote_job_id = None, idempotency_key = key, j_status = Queued, progress_pct = 0, progress_detail = [],
                 error_message = None, requested_by = by, j_created_at = t, started_at = None, finished_at = None,
                 queue_position = max_position (jobs db) + 1, paused = False, attempts = 0, next_attempt_at = None,
                 last_error = None, bytes_completed = None, bytes_total = None, progress_at = None,
                 cleanup_partial = False, digest = None, source = take 20 src, claim_token = None\<rparr>],
               next_job := next_job db + 1\<rparr>))"

definition pulling_on :: "string \<Rightarrow> job list \<Rightarrow> nat" where
  "pulling_on be js = tbl_count (\<lambda>j. j_status j = Pulling \<and> backend j = be) js"

definition runnable :: "int \<Rightarrow> string option \<Rightarrow> stamp \<Rightarrow> job list \<Rightarrow> job \<Rightarrow> bool" where
  "runnable limit skip_backend t js j \<longleftrightarrow> j_status j = Queued \<and> \<not> paused j \<and>
     (case next_attempt_at j of None \<Rightarrow> True | Some a \<Rightarrow> a \<le> t) \<and>
     int (pulling_on (backend j) js) < max 1 limit \<and>
     (truthy skip_backend \<longrightarrow> backend j \<noteq> the skip_backend)"

definition update_job :: "(job \<Rightarrow> bool) \<Rightarrow> int \<Rightarrow> (job \<Rightarrow> job) \<Rightarrow> pulls_db \<Rightarrow> bool \<times> pulls_db" where
  "update_job p job_id f db =
     (tbl_count (\<lambda>j. j_id j = job_id \<and> p j) (jobs db) = 1,
      db\<lparr>jobs := tbl_update (\<lambda>j. j_id j = job_id \<and> p j) f (jobs db)\<rparr>)"

definition claim_next ::
  "int \<Rightarrow> string option \<Rightarrow> string \<Rightarrow> stamp \<Rightarrow> stamp \<Rightarrow> stamp \<Rightarrow> pulls_db \<Rightarrow> job option \<times> pulls_db" where
  "claim_next limit skip_backend token t1 t2 t3 db =
     (case min_row (\<lambda>j. (queue_position j, j_id j)) (filter (runnable limit skip_backend t1 (jobs db)) (jobs db)) of
        None \<Rightarrow> (None, db)
      | Some j \<Rightarrow>
          let db' = snd (update_job (\<lambda>_. True) (j_id j)
                (\<lambda>j. j\<lparr>j_status := Pulling, started_at := Some t2, error_message := None, progress_at := Some t3,
                       claim_token := Some token\<rparr>) db)
          in (pulls_get (j_id j) db', db'))"

definition note_waiting :: "string \<Rightarrow> string \<Rightarrow> pulls_db \<Rightarrow> nat \<times> pulls_db" where
  "note_waiting be detail db =
     (let q = (\<lambda>j. j_status j = Queued \<and> backend j = be \<and> \<not> paused j \<and> next_attempt_at j = None \<and>
                  progress_detail j \<noteq> take 500 detail)
      in (tbl_count q (jobs db), db\<lparr>jobs := tbl_update q (\<lambda>j. j\<lparr>progress_detail := take 500 detail\<rparr>) (jobs db)\<rparr>))"

definition last_sign :: "job \<Rightarrow> stamp" where
  "last_sign j = (case progress_at j of Some t \<Rightarrow> t | None \<Rightarrow> (case started_at j of Some t \<Rightarrow> t | None \<Rightarrow> j_created_at j))"

fun requeue_rows :: "string \<Rightarrow> int list \<Rightarrow> job list \<Rightarrow> pulls_db \<Rightarrow> int list \<times> pulls_db" where
  "requeue_rows note running [] db = ([], db)"
| "requeue_rows note running (r # rs) db =
     (if j_id r \<in> set running then requeue_rows note running rs db
      else
        let (changed, db1) = update_job (\<lambda>j. j_status j = Pulling \<and> claim_token j = claim_token r) (j_id r)
              (\<lambda>j. j\<lparr>j_status := Queued, progress_detail := take 500 note, claim_token := None\<rparr>) db;
            (found, db2) = requeue_rows note running rs db1
        in (if changed then (j_id r # found, db2) else (found, db2)))"

definition requeue_orphans :: "stamp \<Rightarrow> int list \<Rightarrow> string \<Rightarrow> pulls_db \<Rightarrow> int list \<times> pulls_db" where
  "requeue_orphans before running note db =
     requeue_rows note running (filter (\<lambda>j. j_status j = Pulling \<and> last_sign j < before) (jobs db)) db"

subsection \<open>What a run and an administrator write\<close>

definition owned :: "string option \<Rightarrow> job \<Rightarrow> bool" where
  "owned owner j \<longleftrightarrow> owner = None \<or> claim_token j = owner"

definition retry_now :: "int \<Rightarrow> pulls_db \<Rightarrow> bool \<times> pulls_db" where
  "retry_now job_id db =
     update_job (\<lambda>j. j_status j = Queued \<and> next_attempt_at j \<noteq> None) job_id
       (\<lambda>j. j\<lparr>next_attempt_at := None, progress_detail := ''Retrying now at an administrator's request.''\<rparr>) db"

definition update_progress ::
  "int \<Rightarrow> int \<Rightarrow> string \<Rightarrow> int option \<Rightarrow> int option \<Rightarrow> string option \<Rightarrow> stamp \<Rightarrow> pulls_db \<Rightarrow> pulls_db" where
  "update_progress job_id percent detail completed whole owner t db =
     snd (update_job (\<lambda>j. j_status j = Pulling \<and> owned owner j) job_id
       (\<lambda>j. j\<lparr>progress_pct := max 0 (min 100 percent), progress_detail := take 500 detail,
              bytes_completed := (if completed = None then bytes_completed j else completed),
              bytes_total := (if whole = None then bytes_total j else whole), progress_at := Some t\<rparr>) db)"

definition schedule_retry ::
  "int \<Rightarrow> int \<Rightarrow> stamp \<Rightarrow> string \<Rightarrow> string \<Rightarrow> string option \<Rightarrow> pulls_db \<Rightarrow> bool \<times> pulls_db" where
  "schedule_retry job_id n next_at err detail owner db =
     update_job (\<lambda>j. j_status j = Pulling \<and> owned owner j) job_id
       (\<lambda>j. j\<lparr>j_status := Queued, attempts := n, next_attempt_at := Some next_at, last_error := Some (take 500 err),
              progress_detail := take 500 detail\<rparr>) db"

definition set_paused :: "int \<Rightarrow> bool \<Rightarrow> pulls_db \<Rightarrow> bool \<times> pulls_db" where
  "set_paused job_id p db = update_job active job_id (\<lambda>j. j\<lparr>paused := p\<rparr>) db"

definition set_cleanup :: "int \<Rightarrow> bool \<Rightarrow> pulls_db \<Rightarrow> pulls_db" where
  "set_cleanup job_id cleanup db = snd (update_job (\<lambda>_. True) job_id (\<lambda>j. j\<lparr>cleanup_partial := cleanup\<rparr>) db)"

datatype direction = Up | Down | Top | Bottom

definition queue_order :: "pulls_db \<Rightarrow> int list" where
  "queue_order db = map j_id (sort_key (\<lambda>j. (queue_position j, j_id j)) (filter (\<lambda>j. j_status j = Queued) (jobs db)))"

fun index_of :: "int \<Rightarrow> int list \<Rightarrow> nat" where
  "index_of x [] = 0"
| "index_of x (y # ys) = (if x = y then 0 else Suc (index_of x ys))"

definition target_index :: "direction \<Rightarrow> nat \<Rightarrow> nat \<Rightarrow> nat" where
  "target_index dir index n = (case dir of Up \<Rightarrow> index - 1 | Down \<Rightarrow> min n (index + 1) | Top \<Rightarrow> 0 | Bottom \<Rightarrow> n)"

definition insert_at :: "nat \<Rightarrow> 'a \<Rightarrow> 'a list \<Rightarrow> 'a list" where
  "insert_at i x xs = take i xs @ x # drop i xs"

fun renumber :: "int \<Rightarrow> int list \<Rightarrow> pulls_db \<Rightarrow> pulls_db" where
  "renumber pos [] db = db"
| "renumber pos (i # is) db =
     renumber (pos + 1) is (snd (update_job (\<lambda>_. True) i (\<lambda>j. j\<lparr>queue_position := pos\<rparr>) db))"

definition move :: "int \<Rightarrow> direction \<Rightarrow> pulls_db \<Rightarrow> bool \<times> pulls_db" where
  "move job_id dir db =
     (let ids = queue_order db in
      if job_id \<notin> set ids then (False, db)
      else
        let rest = remove1 job_id ids;
            ids' = insert_at (target_index dir (index_of job_id ids) (length rest)) job_id rest;
            base = Min (queue_position ` set (filter (\<lambda>j. j_status j = Queued) (jobs db)))
        in (True, renumber base ids' db))"

definition set_remote_id :: "int \<Rightarrow> string \<Rightarrow> string option \<Rightarrow> pulls_db \<Rightarrow> pulls_db" where
  "set_remote_id job_id remote owner db =
     snd (update_job (\<lambda>j. j_status j = Pulling \<and> owned owner j) job_id (\<lambda>j. j\<lparr>remote_job_id := Some remote\<rparr>) db)"

definition finished_detail :: "int \<Rightarrow> string \<Rightarrow> string option \<Rightarrow> pulls_db \<Rightarrow> pulls_db" where
  "finished_detail job_id detail owner db =
     snd (update_job (\<lambda>j. j_status j = Done \<and> owned owner j) job_id (\<lambda>j. j\<lparr>progress_detail := take 500 detail\<rparr>) db)"

text \<open>\<open>(error or None) and str(error)[:500]\<close>: no message for an empty one.\<close>

definition error_text :: "string option \<Rightarrow> string option" where
  "error_text e = (if truthy e then Some (take 500 (the e)) else None)"

definition finish ::
  "int \<Rightarrow> job_status \<Rightarrow> string option \<Rightarrow> string option \<Rightarrow> string option \<Rightarrow> stamp \<Rightarrow> pulls_db \<Rightarrow> pull_error + (bool \<times> pulls_db)" where
  "finish job_id outcome err dig owner t db =
     (if outcome \<notin> set FINISHED then Inl Unknown_Outcome
      else
        let (ended, db1) = update_job (\<lambda>j. active j \<and> owned owner j) job_id
              (\<lambda>j. (if outcome = Done then j\<lparr>progress_pct := 100\<rparr> else j)
                 \<lparr>j_status := outcome, error_message := error_text err, finished_at := Some t, next_attempt_at := None,
                  digest := (if dig = None then digest j else dig)\<rparr>) db
        in Inr (ended, if ended \<and> outcome \<in> {Done, Cancelled} then discovery_outcome job_id outcome db1 else db1))"

definition requeue :: "int \<Rightarrow> string \<Rightarrow> string option \<Rightarrow> pulls_db \<Rightarrow> bool \<times> pulls_db" where
  "requeue job_id note owner db =
     update_job (\<lambda>j. j_status j = Pulling \<and> owned owner j) job_id
       (\<lambda>j. j\<lparr>j_status := Queued, progress_detail := take 500 note, finished_at := None\<rparr>) db"

definition cancel :: "int \<Rightarrow> string option \<Rightarrow> string option \<Rightarrow> stamp \<Rightarrow> pulls_db \<Rightarrow> bool \<times> pulls_db" where
  "cancel job_id err owner t db =
     (let (cancelled, db1) = update_job (\<lambda>j. active j \<and> owned owner j) job_id
            (\<lambda>j. j\<lparr>j_status := Cancelled, error_message := err, finished_at := Some t, next_attempt_at := None\<rparr>) db
      in (cancelled, if cancelled then discovery_outcome job_id Cancelled db1 else db1))"

definition reset_stuck :: "pulls_db \<Rightarrow> nat \<times> pulls_db" where
  "reset_stuck db =
     (pulling_count db,
      db\<lparr>jobs := tbl_update (\<lambda>j. j_status j = Pulling)
        (\<lambda>j. j\<lparr>j_status := Queued, progress_detail := ''Interrupted by a server restart; it will resume.'',
               claim_token := None\<rparr>) (jobs db)\<rparr>)"

definition delete_finished :: "int \<Rightarrow> pulls_db \<Rightarrow> bool \<times> pulls_db" where
  "delete_finished job_id db =
     (let db1 = preserve_cancelled_history db; q = (\<lambda>j. j_id j = job_id \<and> j_status j \<in> set FINISHED)
      in (tbl_count q (jobs db1) = 1, db1\<lparr>jobs := tbl_delete q (jobs db1)\<rparr>))"

definition clear_finished :: "pulls_db \<Rightarrow> nat \<times> pulls_db" where
  "clear_finished db =
     (let db1 = preserve_cancelled_history db;
          q = (\<lambda>j. j_status j \<in> set FINISHED \<and> \<not> (backend j = ''comfyui'' \<and> j_status j = Done))
      in (tbl_count q (jobs db1), db1\<lparr>jobs := tbl_delete q (jobs db1)\<rparr>))"

subsection \<open>The decisions of a run\<close>

text \<open>An error of an attempt: what \<open>classify\<close> reads of it. \<open>Problem\<close> is one already classified.\<close>

datatype attempt_error = Problem string bool | Upstream string "int option" bool

fun occurs_in :: "string \<Rightarrow> string \<Rightarrow> bool" where
  "occurs_in w [] = (w = [])"
| "occurs_in w (c # cs) = (take (length w) (c # cs) = w \<or> occurs_in w cs)"

definition TRANSIENT_MARKERS :: "string list" where
  "TRANSIENT_MARKERS = [''dial tcp'', ''i/o timeout'', ''connection reset'', ''connection refused'', ''timeout'', ''eof'',
     ''tls handshake'', ''temporary failure'', ''no such host'', ''try again'', ''too many requests'',
     ''service unavailable'', ''bad gateway'', ''stopped responding'', ''could not be reached'',
     ''ended before it was complete'', ''does not list'']"
definition PERMANENT_MARKERS :: "string list" where
  "PERMANENT_MARKERS = [''file does not exist'', ''manifest unknown'', ''not found'', ''does not exist'', ''unauthorized'',
     ''invalid model'', ''invalid reference'', ''denied'', ''forbidden'']"
definition DISK_MARKERS :: "string list" where
  "DISK_MARKERS = [''no space left'', ''disk full'', ''not enough space'', ''insufficient space'', ''disk quota'']"

text \<open>The message and whether it is transient. The text of an error is its message, never empty here.\<close>

fun classify :: "attempt_error \<Rightarrow> string \<times> bool" where
  "classify (Problem msg transient) = (msg, transient)"
| "classify (Upstream msg st kind) =
     (let lowered = ascii_lower msg in
      if \<exists>m \<in> set DISK_MARKERS. occurs_in m lowered then (''The model server ran out of disk space: '' @ msg, False)
      else if st \<in> {Some 400, Some 401, Some 403, Some 404, Some 413} then (msg, False)
      else if (\<exists>m \<in> set TRANSIENT_MARKERS. occurs_in m lowered) \<or> kind then (msg, True)
      else if \<exists>m \<in> set PERMANENT_MARKERS. occurs_in m lowered then (msg, False)
      else (msg, True))"

definition RETRY_BASE_SECONDS :: int where "RETRY_BASE_SECONDS = 30"
definition RETRY_MAX_SECONDS :: int where "RETRY_MAX_SECONDS = 1800"

text \<open>
  What a run carries: the row it claimed. \<open>down\<close> is whether the remote model server is
  seen as down (then Ollama downloads wait), \<open>t\<close> the clock; the texts of the progress
  line are an argument.
\<close>

definition retry_or_fail ::
  "job \<Rightarrow> string \<times> bool \<Rightarrow> int \<Rightarrow> bool \<Rightarrow> string \<Rightarrow> string \<Rightarrow> stamp \<Rightarrow> pulls_db \<Rightarrow> pull_error + (bool \<times> pulls_db)" where
  "retry_or_fail j problem download_retries down detail message t db =
     (if snd problem \<and> backend j = ''ollama'' \<and> down
      then Inr (schedule_retry (j_id j) (attempts j) (t + RETRY_BASE_SECONDS) (fst problem) detail (claim_token j) db)
      else
        let n = attempts j + 1 in
        if snd problem \<and> n \<le> download_retries
        then Inr (schedule_retry (j_id j) n (t + min RETRY_MAX_SECONDS (RETRY_BASE_SECONDS * 4 ^ nat (n - 1)))
               (fst problem) detail (claim_token j) db)
        else finish (j_id j) Failed (Some message) None (claim_token j) t db)"

datatype stop_reason = Shutdown | By_User | Pause | Stall | Gone

text \<open>\<open>_check_claim\<close>: why the run of job \<open>j\<close> must stop now, if it must.\<close>

definition check_claim :: "job \<Rightarrow> pulls_db \<Rightarrow> stop_reason option" where
  "check_claim j db =
     (case pull_state (j_id j) db of
        None \<Rightarrow> Some Gone
      | Some (st, p, cleanup, token) \<Rightarrow>
          if truthy (claim_token j) \<and> token \<noteq> claim_token j then Some Gone
          else if st = Cancelled then Some By_User
          else if st \<noteq> Pulling then Some Gone
          else if p then Some Pause
          else None)"

text \<open>
  \<open>_interrupted\<close>: what a stopped run writes, and whether it may remove the partial files
  of the model (only after an administrator's cancel that asked for it, and only while no
  other job for the model is active). \<open>_policy\<close> gives the retries, \<open>m\<close> and \<open>d\<close> the texts.
\<close>

definition interrupted ::
  "job \<Rightarrow> stop_reason \<Rightarrow> int \<Rightarrow> bool \<Rightarrow> string \<Rightarrow> string \<Rightarrow> stamp \<Rightarrow> pulls_db \<Rightarrow> pull_error + (bool \<times> pulls_db)" where
  "interrupted j reason download_retries down d m t db =
     (case reason of
        By_User \<Rightarrow>
          let db1 = snd (cancel (j_id j) (Some ''Cancelled by an administrator.'') (claim_token j) t db);
              other = active_for (ollama_name j) (backend j) db1
          in Inr ((case pull_state (j_id j) db1 of
                     None \<Rightarrow> False
                   | Some (st, p, cleanup, token) \<Rightarrow>
                       st = Cancelled \<and> (\<not> truthy (claim_token j) \<or> token = claim_token j) \<and> cleanup \<and> other = None), db1)
      | Shutdown \<Rightarrow> Inr (False, snd (requeue (j_id j) ''Interrupted by a server restart; it will resume.'' (claim_token j) db))
      | Pause \<Rightarrow> Inr (False, snd (requeue (j_id j) ''Paused; it resumes from where it stopped.'' (claim_token j) db))
      | Stall \<Rightarrow> (case retry_or_fail j (m, True) download_retries down d m t db of
            Inl e \<Rightarrow> Inl e | Inr (_, db1) \<Rightarrow> Inr (False, db1))
      | Gone \<Rightarrow> Inr (False, db))"

text \<open>An administrator's cancel (the part under the write lock).\<close>

definition admin_cancel :: "int \<Rightarrow> bool \<Rightarrow> stamp \<Rightarrow> pulls_db \<Rightarrow> bool \<times> pulls_db" where
  "admin_cancel job_id cleanup t db =
     (case pulls_get job_id db of
        None \<Rightarrow> (False, db)
      | Some before \<Rightarrow>
          if \<not> active before then (False, db)
          else cancel job_id (Some ''Cancelled by an administrator.'') None t (set_cleanup job_id cleanup db))"

definition recover_orphans :: "int \<Rightarrow> int list \<Rightarrow> string \<Rightarrow> stamp \<Rightarrow> pulls_db \<Rightarrow> int list \<times> pulls_db" where
  "recover_orphans stall_minutes mine note t db =
     requeue_orphans (t - (max 1 stall_minutes * 60 + 120)) mine note db"

subsection \<open>Every action on the queue\<close>

datatype pull_action =
    Enqueue string "string option" string string "(string \<times> recipe_value) list" string bool stamp
  | Claim int "string option" string stamp stamp stamp
  | Note_Waiting string string
  | Requeue_Orphans stamp "int list" string
  | Retry_Now int
  | Progress int int string "int option" "int option" "string option" stamp
  | Schedule_Retry int int stamp string string "string option"
  | Set_Paused int bool
  | Set_Cleanup int bool
  | Move int direction
  | Set_Remote int string "string option"
  | Finished_Detail int string "string option"
  | Finish int job_status "string option" "string option" "string option" stamp
  | Requeue int string "string option"
  | Cancel int "string option" "string option" stamp
  | Reset_Stuck
  | Delete_Finished int
  | Clear_Finished

text \<open>Whether the action reports that it changed something, and the tables; an exception changes nothing.\<close>

fun pull_act :: "pull_action \<Rightarrow> pulls_db \<Rightarrow> bool \<times> pulls_db" where
  "pull_act (Enqueue n req be src rec key fk t) db =
     (case enqueue n req be src rec key fk t db of Inl _ \<Rightarrow> (False, db) | Inr (_, db') \<Rightarrow> (True, db'))"
| "pull_act (Claim limit skip tok t1 t2 t3) db =
     (let (j, db') = claim_next limit skip tok t1 t2 t3 db in (j \<noteq> None, db'))"
| "pull_act (Note_Waiting be d) db = (let (n, db') = note_waiting be d db in (0 < n, db'))"
| "pull_act (Requeue_Orphans b ids n) db = (let (found, db') = requeue_orphans b ids n db in (found \<noteq> [], db'))"
| "pull_act (Retry_Now i) db = retry_now i db"
| "pull_act (Progress i p d c tot ow t) db = (False, update_progress i p d c tot ow t db)"
| "pull_act (Schedule_Retry i n next_at e d ow) db = schedule_retry i n next_at e d ow db"
| "pull_act (Set_Paused i p) db = set_paused i p db"
| "pull_act (Set_Cleanup i c) db = (False, set_cleanup i c db)"
| "pull_act (Move i d) db = move i d db"
| "pull_act (Set_Remote i r ow) db = (False, set_remote_id i r ow db)"
| "pull_act (Finished_Detail i d ow) db = (False, finished_detail i d ow db)"
| "pull_act (Finish i oc e dg ow t) db = (case finish i oc e dg ow t db of Inl _ \<Rightarrow> (False, db) | Inr r \<Rightarrow> r)"
| "pull_act (Requeue i n ow) db = requeue i n ow db"
| "pull_act (Cancel i e ow t) db = cancel i e ow t db"
| "pull_act Reset_Stuck db = (let (n, db') = reset_stuck db in (0 < n, db'))"
| "pull_act (Delete_Finished i) db = delete_finished i db"
| "pull_act Clear_Finished db = (let (n, db') = clear_finished db in (0 < n, db'))"

subsection \<open>Actions that leave the set of jobs alone\<close>

text \<open>
  All but queueing, claiming and deleting: each row keeps its identity, no row starts
  running or becomes active, and no row gets a new claim.
\<close>

definition tame_row :: "job \<Rightarrow> job \<Rightarrow> bool" where
  "tame_row j j' \<longleftrightarrow> j_id j' = j_id j \<and> ollama_name j' = ollama_name j \<and> backend j' = backend j \<and>
     idempotency_key j' = idempotency_key j \<and> (j_status j' = Pulling \<longrightarrow> j_status j = Pulling) \<and>
     (active j' \<longrightarrow> active j) \<and> (claim_token j' = claim_token j \<or> claim_token j' = None)"

definition tame :: "job list \<Rightarrow> job list \<Rightarrow> bool" where
  "tame js js' \<longleftrightarrow> list_all2 tame_row js js'"

lemma tame_row_refl: "tame_row j j" by (simp add: tame_row_def)

lemma tame_row_trans: "tame_row i j \<Longrightarrow> tame_row j k \<Longrightarrow> tame_row i k"
  by (auto simp: tame_row_def)

lemma tame_refl: "tame js js"
  by (simp add: tame_def list.rel_refl tame_row_refl)

lemma tame_trans: "tame js js1 \<Longrightarrow> tame js1 js2 \<Longrightarrow> tame js js2"
  unfolding tame_def by (rule list_all2_trans [of tame_row tame_row tame_row]) (auto intro: tame_row_trans)

lemma tame_update: "(\<And>j. p j \<Longrightarrow> tame_row j (f j)) \<Longrightarrow> tame js (tbl_update p f js)"
  by (induction js) (auto simp: tame_def tbl_simps tame_row_refl)

lemma tame_update_job: "(\<And>j. p j \<Longrightarrow> tame_row j (f j)) \<Longrightarrow> tame (jobs db) (jobs (snd (update_job p i f db)))"
  unfolding update_job_def by (auto intro: tame_update)

lemma jobs_store [simp]: "jobs (store_records m db) = jobs db"
  and next_store [simp]: "next_job (store_records m db) = next_job db"
  by (simp_all add: store_records_def)

lemma jobs_discovery_outcome [simp]: "jobs (discovery_outcome i oc db) = jobs db"
  and next_discovery_outcome [simp]: "next_job (discovery_outcome i oc db) = next_job db"
  by (simp_all add: discovery_outcome_def Let_def split: option.splits)

lemma jobs_preserve [simp]: "jobs (preserve_cancelled_history db) = jobs db"
  and next_preserve [simp]: "next_job (preserve_cancelled_history db) = next_job db"
  by (simp_all add: preserve_cancelled_history_def Let_def)

lemma next_update_job [simp]: "next_job (snd (update_job p i f db)) = next_job db"
  and stored_update_job [simp]: "stored (snd (update_job p i f db)) = stored db"
  by (simp_all add: update_job_def)

lemma tame_requeue_rows: "tame (jobs db) (jobs (snd (requeue_rows note running rs db)))"
proof (induction rs arbitrary: db)
  case (Cons r rs)
  let ?p = "\<lambda>j. j_status j = Pulling \<and> claim_token j = claim_token r"
  let ?f = "\<lambda>j. j\<lparr>j_status := Queued, progress_detail := take 500 note, claim_token := None\<rparr>"
  have "tame (jobs db) (jobs (snd (update_job ?p (j_id r) ?f db)))"
    by (rule tame_update_job) (auto simp: tame_row_def active_def ACTIVE_def)
  from tame_trans [OF this Cons.IH [of "snd (update_job ?p (j_id r) ?f db)"]] Cons.IH [of db]
  show ?case by (auto simp: case_prod_beta Let_def)
qed (simp add: tame_refl)

lemma tame_renumber: "tame (jobs db) (jobs (renumber pos ids db))"
proof (induction ids arbitrary: pos db)
  case (Cons i ids)
  have "tame (jobs db) (jobs (snd (update_job (\<lambda>_. True) i (\<lambda>j. j\<lparr>queue_position := pos\<rparr>) db)))"
    by (rule tame_update_job) (auto simp: tame_row_def active_def)
  from tame_trans [OF this Cons.IH] show ?case by simp
qed (simp add: tame_refl)

lemma tame_finish: "finish i oc e dg ow t db = Inr (b, db') \<Longrightarrow> tame (jobs db) (jobs db')"
proof -
  assume f: "finish i oc e dg ow t db = Inr (b, db')"
  let ?f = "\<lambda>j. (if oc = Done then j\<lparr>progress_pct := 100\<rparr> else j)
       \<lparr>j_status := oc, error_message := error_text e, finished_at := Some t, next_attempt_at := None,
        digest := (if dg = None then digest j else dg)\<rparr>"
  from f have "oc \<in> set FINISHED" and jobs: "jobs db' = jobs (snd (update_job (\<lambda>j. active j \<and> owned ow j) i ?f db))"
    by (auto simp: finish_def Let_def split: if_splits prod.splits)
  then show ?thesis unfolding jobs
    by (intro tame_update_job) (auto simp: tame_row_def active_def ACTIVE_def FINISHED_def)
qed

lemma tame_act:
  assumes "\<And>n req be src rec key fk t. a \<noteq> Enqueue n req be src rec key fk t"
    and "\<And>l s tok t1 t2 t3. a \<noteq> Claim l s tok t1 t2 t3"
    and "\<And>i. a \<noteq> Delete_Finished i" and "a \<noteq> Clear_Finished"
  shows "tame (jobs db) (jobs (snd (pull_act a db)))"
proof (cases a)
  case (Requeue_Orphans b ids n)
  then show ?thesis using tame_requeue_rows by (simp add: requeue_orphans_def case_prod_beta)
next
  case (Finish i oc e dg ow t)
  then show ?thesis using tame_finish by (auto simp: tame_refl split: sum.splits)
next
  case (Move i d)
  then show ?thesis by (simp add: move_def Let_def tame_refl tame_renumber)
next
  case (Cancel i e ow t)
  let ?f = "\<lambda>j. j\<lparr>j_status := Cancelled, error_message := e, finished_at := Some t, next_attempt_at := None\<rparr>"
  have "tame (jobs db) (jobs (snd (update_job (\<lambda>j. active j \<and> owned ow j) i ?f db)))"
    by (rule tame_update_job) (auto simp: tame_row_def active_def ACTIVE_def)
  with Cancel show ?thesis by (simp add: cancel_def case_prod_beta Let_def)
qed (use assms in \<open>auto simp: note_waiting_def retry_now_def update_progress_def schedule_retry_def set_paused_def
    set_cleanup_def set_remote_id_def finished_detail_def requeue_def reset_stuck_def Let_def
    intro!: tame_update_job tame_update simp: tame_row_def active_def ACTIVE_def\<close>)

subsection \<open>Invariants\<close>

text \<open>Keys, the unique index over active jobs, canonical names.\<close>

definition pulls_wf :: "pulls_db \<Rightarrow> bool" where
  "pulls_wf db \<longleftrightarrow> distinct (map j_id (jobs db)) \<and> (\<forall>j \<in> set (jobs db). j_id j < next_job db) \<and>
     distinct (map (\<lambda>j. (backend j, ollama_name j)) (filter active (jobs db))) \<and>
     (\<forall>j \<in> set (jobs db). backend j = ''ollama'' \<longrightarrow> canonical_ollama_name (ollama_name j) = ollama_name j)"

definition same_row :: "job \<Rightarrow> job \<Rightarrow> bool" where
  "same_row j j' \<longleftrightarrow> j_id j' = j_id j \<and> ollama_name j' = ollama_name j \<and> backend j' = backend j \<and> (active j' \<longrightarrow> active j)"

lemma same_rows:
  assumes "list_all2 same_row js js'"
  shows "map j_id js' = map j_id js" and "\<forall>j' \<in> set js'. \<exists>j \<in> set js. same_row j j'"
    and "distinct (map (\<lambda>j. (backend j, ollama_name j)) (filter active js)) \<Longrightarrow>
      distinct (map (\<lambda>j. (backend j, ollama_name j)) (filter active js'))"
    and "(\<lambda>j. (backend j, ollama_name j)) ` set (filter active js') \<subseteq> (\<lambda>j. (backend j, ollama_name j)) ` set (filter active js)"
  using assms by (induction rule: list_all2_induct) (auto simp: same_row_def split: if_splits)

lemma pulls_wf_same:
  assumes "pulls_wf db" and "list_all2 same_row (jobs db) (jobs db')" and "next_job db' = next_job db"
  shows "pulls_wf db'"
proof -
  note same = same_rows [OF assms(2)]
  have "\<forall>j' \<in> set (jobs db'). j_id j' < next_job db' \<and>
      (backend j' = ''ollama'' \<longrightarrow> canonical_ollama_name (ollama_name j') = ollama_name j')"
  proof
    fix j' assume "j' \<in> set (jobs db')"
    with same(2) obtain j where "j \<in> set (jobs db)" "same_row j j'" by blast
    with assms(1,3) show "j_id j' < next_job db' \<and>
      (backend j' = ''ollama'' \<longrightarrow> canonical_ollama_name (ollama_name j') = ollama_name j')"
      by (auto simp: pulls_wf_def same_row_def)
  qed
  with assms(1) same(1,3) show ?thesis by (simp add: pulls_wf_def)
qed

lemma tame_same: "tame js js' \<Longrightarrow> list_all2 same_row js js'"
  unfolding tame_def by (erule list_all2_mono) (auto simp: tame_row_def same_row_def)

lemma canonical_idem: "canonical_ollama_name (canonical_ollama_name n) = canonical_ollama_name n"
proof (cases "CHR '':'' \<in> set (last_part n)")
  case False
  have "CHR '':'' \<in> set (last_part (n @ '':latest''))" by (simp add: last_part_def)
  with False show ?thesis by (simp add: canonical_ollama_name_def)
qed (simp add: canonical_ollama_name_def)

lemma enqueue_Inr:
  assumes "enqueue n req be src rec key fk t db = Inr (i, db')"
  obtains j where "jobs db' = jobs db @ [j]" "j_id j = next_job db" "i = next_job db" "next_job db' = next_job db + 1"
    "stored db' = stored db" "j_status j = Queued" "backend j = be" "queue_position j = max_position (jobs db) + 1"
    "ollama_name j = (if be = ''ollama'' then canonical_ollama_name n else n)" "claim_token j = None" "\<not> paused j"
    "next_attempt_at j = None" "\<forall>k \<in> set (jobs db). \<not> (active k \<and> backend k = be \<and> ollama_name k = ollama_name j)"
  using assms by (fastforce simp: enqueue_def Let_def split: if_splits option.splits)

lemma pulls_wf_enqueue:
  assumes wf: "pulls_wf db" and "enqueue n req be src rec key fk t db = Inr (i, db')"
  shows "pulls_wf db'"
  using assms(2)
proof (rule enqueue_Inr)
  fix j assume j: "jobs db' = jobs db @ [j]" "j_id j = next_job db" "next_job db' = next_job db + 1" "backend j = be"
    "ollama_name j = (if be = ''ollama'' then canonical_ollama_name n else n)"
    "\<forall>k \<in> set (jobs db). \<not> (active k \<and> backend k = be \<and> ollama_name k = ollama_name j)"
  have "(be, ollama_name j) \<notin> (\<lambda>j. (backend j, ollama_name j)) ` set (filter active (jobs db))"
    using j(6) by auto
  then show "pulls_wf db'" using wf j by (auto simp: pulls_wf_def canonical_idem)
qed

lemma claim_next_Some:
  assumes "claim_next limit skip tok t1 t2 t3 db = (r, db')"
  obtains (none) "r = None" "db' = db" "\<forall>j \<in> set (jobs db). \<not> runnable limit skip t1 (jobs db) j"
  | (claimed) j where "j \<in> set (jobs db)" "runnable limit skip t1 (jobs db) j"
      "\<forall>k \<in> set (jobs db). runnable limit skip t1 (jobs db) k \<longrightarrow> (queue_position j, j_id j) \<le> (queue_position k, j_id k)"
      "db' = snd (update_job (\<lambda>_. True) (j_id j) (\<lambda>j. j\<lparr>j_status := Pulling, started_at := Some t2, error_message := None,
         progress_at := Some t3, claim_token := Some tok\<rparr>) db)"
      "r = pulls_get (j_id j) db'"
proof (cases "min_row (\<lambda>j. (queue_position j, j_id j)) (filter (runnable limit skip t1 (jobs db)) (jobs db))")
  case None
  then have "\<forall>j \<in> set (jobs db). \<not> runnable limit skip t1 (jobs db) j" by (simp add: filter_empty_conv)
  moreover have "r = None" "db' = db" using assms None by (simp_all add: claim_next_def del: min_row_None_iff)
  ultimately show thesis using none by blast
next
  case (Some j)
  from min_row_SomeD [OF Some] Some assms claimed [of j] show thesis
    by (auto simp: claim_next_def Let_def)
qed

lemma runnable_Queued: "runnable limit skip t js j \<Longrightarrow> j_status j = Queued"
  by (simp add: runnable_def)

lemma update_job_same:
  assumes "\<And>j. j_id (f j) = j_id j \<and> ollama_name (f j) = ollama_name j \<and> backend (f j) = backend j"
    and "\<And>j. j \<in> set (jobs db) \<Longrightarrow> j_id j = i \<Longrightarrow> p j \<Longrightarrow> active (f j) \<Longrightarrow> active j"
  shows "list_all2 same_row (jobs db) (jobs (snd (update_job p i f db)))"
  using assms by (auto simp: update_job_def tbl_update_def list_all2_conv_all_nth same_row_def)

lemma pulls_wf_claim:
  assumes wf: "pulls_wf db" and "claim_next limit skip tok t1 t2 t3 db = (r, db')"
  shows "pulls_wf db'"
  using assms(2)
proof (cases rule: claim_next_Some)
  case (claimed j)
  have "active k" if "k \<in> set (jobs db)" "j_id k = j_id j" for k
  proof -
    have "distinct (map j_id (jobs db))" using wf by (simp add: pulls_wf_def)
    from distinct_key_eq [OF this that(1) claimed(1) that(2)] runnable_Queued [OF claimed(2)]
    show ?thesis by (simp add: active_def ACTIVE_def)
  qed
  then have "list_all2 same_row (jobs db) (jobs db')"
    unfolding claimed(4) by (intro update_job_same) auto
  then show ?thesis by (rule pulls_wf_same [OF wf]) (simp add: claimed(4))
qed (use wf in simp)

lemma pulls_wf_delete: "pulls_wf db \<Longrightarrow> jobs db' = tbl_delete q (jobs db) \<Longrightarrow> next_job db' = next_job db \<Longrightarrow> pulls_wf db'"
proof -
  assume wf: "pulls_wf db" and db': "jobs db' = tbl_delete q (jobs db)" "next_job db' = next_job db"
  have "distinct (map (\<lambda>j. (backend j, ollama_name j)) (filter active (tbl_delete q (jobs db))))"
  proof -
    have "filter active (tbl_delete q (jobs db)) = tbl_delete q (filter active (jobs db))"
      by (simp add: tbl_delete_def conj_commute)
    with wf show ?thesis by (simp add: pulls_wf_def distinct_key_delete)
  qed
  with wf db' show ?thesis by (simp add: pulls_wf_def distinct_key_delete)
qed

lemma next_requeue_rows: "next_job (snd (requeue_rows note running rs db)) = next_job db"
  by (induction rs arbitrary: db) (simp_all add: case_prod_beta Let_def)

lemma next_renumber: "next_job (renumber pos ids db) = next_job db"
  by (induction ids arbitrary: pos db) simp_all

lemma next_finish: "finish i oc e dg ow t db = Inr (b, db') \<Longrightarrow> next_job db' = next_job db"
  by (auto simp: finish_def Let_def case_prod_beta split: if_splits)

lemma next_act:
  assumes "\<And>n req be src rec key fk t. a \<noteq> Enqueue n req be src rec key fk t"
  shows "next_job (snd (pull_act a db)) = next_job db"
proof (cases a)
  case (Claim l s tok t1 t2 t3)
  obtain r db' where c: "claim_next l s tok t1 t2 t3 db = (r, db')" by fastforce
  then have "next_job db' = next_job db" by (cases rule: claim_next_Some) simp_all
  with c Claim show ?thesis by simp
next
  case (Finish i oc e dg ow t)
  then show ?thesis using next_finish by (auto split: sum.splits)
qed (use assms in \<open>simp_all add: note_waiting_def requeue_orphans_def next_requeue_rows retry_now_def update_progress_def
    schedule_retry_def set_paused_def set_cleanup_def move_def next_renumber set_remote_id_def finished_detail_def
    requeue_def cancel_def reset_stuck_def delete_finished_def clear_finished_def Let_def case_prod_beta\<close>)

lemma pulls_wf_act:
  assumes wf: "pulls_wf db"
  shows "pulls_wf (snd (pull_act a db))"
proof -
  consider n req be src rec key fk t where "a = Enqueue n req be src rec key fk t"
    | l s tok t1 t2 t3 where "a = Claim l s tok t1 t2 t3"
    | i where "a = Delete_Finished i" | "a = Clear_Finished"
    | "\<And>n req be src rec key fk t. a \<noteq> Enqueue n req be src rec key fk t"
      "\<And>l s tok t1 t2 t3. a \<noteq> Claim l s tok t1 t2 t3" "\<And>i. a \<noteq> Delete_Finished i" "a \<noteq> Clear_Finished"
    by (cases a) auto
  then show ?thesis
  proof cases
    case 1
    with wf pulls_wf_enqueue show ?thesis by (auto split: sum.splits)
  next
    case 2
    obtain r db' where "claim_next l s tok t1 t2 t3 db = (r, db')" by fastforce
    with 2 pulls_wf_claim [OF wf this] show ?thesis by simp
  next
    case 3
    then show ?thesis by (intro pulls_wf_delete [OF wf]) (simp_all add: delete_finished_def Let_def)
  next
    case 4
    then show ?thesis by (intro pulls_wf_delete [OF wf]) (simp_all add: clear_finished_def Let_def)
  next
    case 5
    show ?thesis by (rule pulls_wf_same [OF wf tame_same [OF tame_act [OF 5]] next_act [OF 5(1)]])
  qed
qed

subsection \<open>Concurrency\<close>

lemma pulling_tame: "tame js js' \<Longrightarrow> pulling_on be js' \<le> pulling_on be js"
  unfolding tame_def pulling_on_def
  by (induction rule: list_all2_induct) (auto simp: tbl_simps tame_row_def)

lemma pulling_claim:
  assumes wf: "pulls_wf db" and "claim_next limit skip tok t1 t2 t3 db = (r, db')" and "limit \<le> L"
    and le: "\<forall>be. int (pulling_on be (jobs db)) \<le> max 1 L"
  shows "int (pulling_on be (jobs db')) \<le> max 1 L"
  using assms(2)
proof (cases rule: claim_next_Some)
  case (claimed j)
  let ?f = "\<lambda>j. j\<lparr>j_status := Pulling, started_at := Some t2, error_message := None, progress_at := Some t3, claim_token := Some tok\<rparr>"
  have js: "jobs db' = tbl_update (\<lambda>k. j_id k = j_id j) ?f (jobs db)" by (simp add: claimed(4) update_job_def)
  have d: "distinct (map j_id (jobs db))" using wf by (simp add: pulls_wf_def)
  show ?thesis
  proof (cases "backend j = be")
    case True
    have "pulling_on be (jobs db') \<le> pulling_on be (jobs db) + tbl_count (\<lambda>k. j_id k = j_id j) (jobs db)"
      unfolding js pulling_on_def by (rule tbl_count_update_le)
    moreover have "tbl_count (\<lambda>k. j_id k = j_id j) (jobs db) \<le> 1" by (rule tbl_count_unique [OF d])
    moreover have "int (pulling_on be (jobs db)) < max 1 limit"
      using claimed(2) True by (auto simp: runnable_def)
    ultimately show ?thesis using assms(3) by linarith
  next
    case False
    have "pulling_on be (jobs db') \<le> pulling_on be (jobs db)"
      unfolding js pulling_on_def
    proof (rule tbl_count_update_mono)
      fix k assume k: "k \<in> set (jobs db)" "j_id k = j_id j" "j_status (?f k) = Pulling \<and> backend (?f k) = be"
      with distinct_key_eq [OF d k(1) claimed(1) k(2)] False show "j_status k = Pulling \<and> backend k = be" by simp
    qed
    with le [THEN spec, of be] show ?thesis by linarith
  qed
qed (use le in simp)

lemma pulling_act:
  assumes wf: "pulls_wf db" and le: "\<forall>be. int (pulling_on be (jobs db)) \<le> max 1 L"
    and a: "\<And>l s tok t1 t2 t3. a = Claim l s tok t1 t2 t3 \<Longrightarrow> l \<le> L"
  shows "\<forall>be. int (pulling_on be (jobs (snd (pull_act a db)))) \<le> max 1 L"
proof -
  have fewer: ?thesis if "\<And>be. pulling_on be (jobs (snd (pull_act a db))) \<le> pulling_on be (jobs db)"
  proof
    fix be
    show "int (pulling_on be (jobs (snd (pull_act a db)))) \<le> max 1 L"
      using that [of be] le [THEN spec, of be] by linarith
  qed
  consider n req be src rec key fk t where "a = Enqueue n req be src rec key fk t"
    | l s tok t1 t2 t3 where "a = Claim l s tok t1 t2 t3"
    | i where "a = Delete_Finished i" | "a = Clear_Finished"
    | "\<And>n req be src rec key fk t. a \<noteq> Enqueue n req be src rec key fk t"
      "\<And>l s tok t1 t2 t3. a \<noteq> Claim l s tok t1 t2 t3" "\<And>i. a \<noteq> Delete_Finished i" "a \<noteq> Clear_Finished"
    by (cases a) auto
  then show ?thesis
  proof cases
    case 1
    show ?thesis
    proof (cases "enqueue n req be src rec key fk t db")
      case (Inr x)
      obtain i db' where "x = (i, db')" by fastforce
      with Inr have e: "enqueue n req be src rec key fk t db = Inr (i, db')" by simp
      have "pulling_on b (jobs db') = pulling_on b (jobs db)" for b
        using e by (rule enqueue_Inr) (simp add: pulling_on_def tbl_simps)
      with e 1 show ?thesis by (intro fewer) simp
    qed (use 1 le in simp)
  next
    case 2
    obtain r db' where c: "claim_next l s tok t1 t2 t3 db = (r, db')" by fastforce
    with pulling_claim [OF wf c a [OF 2] le] 2 show ?thesis by simp
  next
    case 3
    show ?thesis by (rule fewer) (simp add: 3 delete_finished_def Let_def pulling_on_def tbl_count_delete_le)
  next
    case 4
    show ?thesis by (rule fewer) (simp add: 4 clear_finished_def Let_def pulling_on_def tbl_count_delete_le)
  next
    case 5
    show ?thesis by (rule fewer) (rule pulling_tame [OF tame_act [OF 5]])
  qed
qed

subsection \<open>A claim is finished once\<close>

text \<open>The right to write to a job: the token of its claim while the job is active.\<close>

definition claim_left :: "int \<times> string \<Rightarrow> pulls_db \<Rightarrow> nat" where
  "claim_left k db = of_bool (\<exists>j \<in> set (jobs db). j_id j = fst k \<and> claim_token j = Some (snd k) \<and> active j)"

fun issues_claim :: "pull_action \<Rightarrow> int \<times> string \<Rightarrow> bool" where
  "issues_claim (Claim l s tok t1 t2 t3) k = (tok = snd k)"
| "issues_claim _ k = False"

fun ends_claim :: "pull_action \<Rightarrow> bool \<Rightarrow> int \<times> string \<Rightarrow> bool" where
  "ends_claim (Finish i oc e dg ow t) r k = (r \<and> i = fst k \<and> ow = Some (snd k))"
| "ends_claim (Cancel i e ow t) r k = (r \<and> i = fst k \<and> ow = Some (snd k))"
| "ends_claim _ r k = False"

lemma claim_left_tame: "tame (jobs db) (jobs db') \<Longrightarrow> claim_left k db' \<le> claim_left k db"
proof -
  assume "tame (jobs db) (jobs db')"
  then have "\<forall>j' \<in> set (jobs db'). \<exists>j \<in> set (jobs db). tame_row j j'"
    unfolding tame_def by (induction rule: list_all2_induct) auto
  then show ?thesis by (fastforce simp: claim_left_def tame_row_def)
qed

lemma claim_left_sub: "set (jobs db') \<subseteq> set (jobs db) \<Longrightarrow> claim_left k db' \<le> claim_left k db"
  by (auto simp: claim_left_def)

lemma update_owned:
  assumes "update_job (\<lambda>j. active j \<and> owned (Some tok) j) i f db = (True, db1)" and "\<And>j. \<not> active (f j) \<and> j_id (f j) = j_id j"
    and "jobs db' = jobs db1"
  shows "claim_left (i, tok) db' < claim_left (i, tok) db"
proof -
  from assms(1) have "tbl_count (\<lambda>j. j_id j = i \<and> active j \<and> owned (Some tok) j) (jobs db) = 1"
    and js: "jobs db1 = tbl_update (\<lambda>j. j_id j = i \<and> active j \<and> owned (Some tok) j) f (jobs db)"
    by (auto simp: update_job_def)
  then obtain j where "j \<in> set (jobs db)" "j_id j = i" "active j" "claim_token j = Some tok"
    using tbl_count_0_iff [of "\<lambda>j. j_id j = i \<and> active j \<and> owned (Some tok) j" "jobs db"] by (auto simp: owned_def)
  then have "claim_left (i, tok) db = 1" by (auto simp: claim_left_def)
  moreover have "claim_left (i, tok) db' = 0"
    using assms(2) by (auto simp: claim_left_def assms(3) js owned_def elim!: tbl_update_memE)
  ultimately show ?thesis by simp
qed

interpretation pull_claim: one_shot pull_act claim_left issues_claim ends_claim
proof
  fix a k and db :: pulls_db
  show "claim_left k (snd (pull_act a db)) \<le> claim_left k db" if no: "\<not> issues_claim a k"
  proof -
    consider n req be src rec key fk t where "a = Enqueue n req be src rec key fk t"
      | l s tok t1 t2 t3 where "a = Claim l s tok t1 t2 t3"
      | i where "a = Delete_Finished i" | "a = Clear_Finished"
      | "\<And>n req be src rec key fk t. a \<noteq> Enqueue n req be src rec key fk t"
        "\<And>l s tok t1 t2 t3. a \<noteq> Claim l s tok t1 t2 t3" "\<And>i. a \<noteq> Delete_Finished i" "a \<noteq> Clear_Finished"
      by (cases a) auto
    then show ?thesis
    proof cases
      case 1
      show ?thesis
      proof (cases "enqueue n req be src rec key fk t db")
        case (Inr x)
        obtain i db' where "x = (i, db')" by fastforce
        with Inr have e: "enqueue n req be src rec key fk t db = Inr (i, db')" by simp
        then have "claim_left k db' \<le> claim_left k db"
          by (rule enqueue_Inr) (auto simp: claim_left_def)
        with e 1 show ?thesis by simp
      qed (use 1 in simp)
    next
      case 2
      obtain r db' where c: "claim_next l s tok t1 t2 t3 db = (r, db')" by fastforce
      then have "claim_left k db' \<le> claim_left k db"
        by (cases rule: claim_next_Some)
          (use no 2 in \<open>auto simp: claim_left_def update_job_def elim!: tbl_update_memE\<close>)
      with c 2 show ?thesis by simp
    next
      case 3
      then show ?thesis by (intro claim_left_sub) (auto simp: delete_finished_def Let_def)
    next
      case 4
      then show ?thesis by (intro claim_left_sub) (auto simp: clear_finished_def Let_def)
    next
      case 5
      show ?thesis by (rule claim_left_tame [OF tame_act [OF 5]])
    qed
  qed
  show "claim_left k (snd (pull_act a db)) < claim_left k db" if e: "ends_claim a (fst (pull_act a db)) k"
  proof (cases a)
    case (Finish i oc err dg ow t)
    let ?f = "\<lambda>j. (if oc = Done then j\<lparr>progress_pct := 100\<rparr> else j)
       \<lparr>j_status := oc, error_message := error_text err, finished_at := Some t, next_attempt_at := None,
        digest := (if dg = None then digest j else dg)\<rparr>"
    have k: "k = (i, snd k)" "ow = Some (snd k)" using e Finish by (auto simp: prod_eq_iff)
    obtain b db1 where u: "update_job (\<lambda>j. active j \<and> owned (Some (snd k)) j) i ?f db = (b, db1)" by fastforce
    have oc: "oc \<in> set FINISHED" and b: "b" using e Finish u k(2) by (auto simp: finish_def Let_def split: if_splits)
    from u b have u: "update_job (\<lambda>j. active j \<and> owned (Some (snd k)) j) i ?f db = (True, db1)" by simp
    have "claim_left (i, snd k) (snd (pull_act a db)) < claim_left (i, snd k) db"
      by (rule update_owned [OF u]) (use oc Finish u k(2) in \<open>auto simp: active_def ACTIVE_def FINISHED_def finish_def Let_def\<close>)
    with k(1) show ?thesis by simp
  next
    case (Cancel i err ow t)
    let ?f = "\<lambda>j. j\<lparr>j_status := Cancelled, error_message := err, finished_at := Some t, next_attempt_at := None\<rparr>"
    have k: "k = (i, snd k)" "ow = Some (snd k)" using e Cancel by (auto simp: prod_eq_iff)
    obtain b db1 where u: "update_job (\<lambda>j. active j \<and> owned (Some (snd k)) j) i ?f db = (b, db1)" by fastforce
    have b: "b" using e Cancel u k(2) by (auto simp: cancel_def Let_def)
    from u b have u: "update_job (\<lambda>j. active j \<and> owned (Some (snd k)) j) i ?f db = (True, db1)" by simp
    have "claim_left (i, snd k) (snd (pull_act a db)) < claim_left (i, snd k) db"
      by (rule update_owned [OF u]) (use Cancel u k(2) in \<open>auto simp: active_def ACTIVE_def cancel_def Let_def\<close>)
    with k(1) show ?thesis by simp
  qed (use e in auto)
qed

text \<open>A run without the right changes nothing.\<close>

lemma update_job_none:
  "(\<And>j. j \<in> set (jobs db) \<Longrightarrow> j_id j = i \<Longrightarrow> \<not> p j) \<Longrightarrow> update_job p i f db = (False, db)"
proof -
  assume none: "\<And>j. j \<in> set (jobs db) \<Longrightarrow> j_id j = i \<Longrightarrow> \<not> p j"
  then have "tbl_count (\<lambda>j. j_id j = i \<and> p j) (jobs db) = 0" by (auto simp: tbl_count_0_iff)
  moreover have "tbl_update (\<lambda>j. j_id j = i \<and> p j) f (jobs db) = jobs db" using none by auto
  ultimately show ?thesis by (simp add: update_job_def)
qed

lemma claim_left_0:
  assumes "claim_left (i, tok) db = 0" and "j \<in> set (jobs db)" "j_id j = i"
  shows "\<not> (active j \<and> owned (Some tok) j)" and "\<not> (j_status j = Pulling \<and> owned (Some tok) j)"
  using assms by (auto simp: claim_left_def owned_def active_def ACTIVE_def)

fun writes_as :: "pull_action \<Rightarrow> int \<Rightarrow> string \<Rightarrow> bool" where
  "writes_as (Progress i p d c w ow t) j tok = (i = j \<and> ow = Some tok)"
| "writes_as (Schedule_Retry i n t e d ow) j tok = (i = j \<and> ow = Some tok)"
| "writes_as (Set_Remote i r ow) j tok = (i = j \<and> ow = Some tok)"
| "writes_as (Finish i oc e dg ow t) j tok = (i = j \<and> ow = Some tok)"
| "writes_as (Requeue i n ow) j tok = (i = j \<and> ow = Some tok)"
| "writes_as (Cancel i e ow t) j tok = (i = j \<and> ow = Some tok)"
| "writes_as _ j tok = False"

lemma stale_write:
  assumes "claim_left (i, tok) db = 0" and "writes_as a i tok"
  shows "pull_act a db = (False, db)"
proof -
  have p: "update_job (\<lambda>j. j_status j = Pulling \<and> owned (Some tok) j) i f db = (False, db)" for f
    by (rule update_job_none) (use claim_left_0(2) [OF assms(1)] in auto)
  have q: "update_job (\<lambda>j. active j \<and> owned (Some tok) j) i f db = (False, db)" for f
    by (rule update_job_none) (use claim_left_0(1) [OF assms(1)] in auto)
  show ?thesis
    using assms(2)
    by (cases a) (auto simp: p q update_progress_def schedule_retry_def set_remote_id_def finish_def requeue_def cancel_def)
qed

subsection \<open>The order of the queue\<close>

lemma queue_order_set: "set (queue_order db) = {j_id j |j. j \<in> set (jobs db) \<and> j_status j = Queued}"
  by (auto simp: queue_order_def)

lemma sort_key_filter': "sort_key f (filter p xs) = filter p (sort_key f xs)"
  by (induction xs) (auto simp: filter_insort filter_insort_triv)

lemma filter_Queued_update:
  "(\<And>j. p j \<Longrightarrow> j_status (f j) \<noteq> Queued) \<Longrightarrow>
    filter (\<lambda>j. j_status j = Queued) (tbl_update p f js) = filter (\<lambda>j. \<not> p j) (filter (\<lambda>j. j_status j = Queued) js)"
  by (induction js) (auto simp: tbl_simps)

lemma queue_order_enqueue:
  assumes "pulls_wf db" and "enqueue n req be src rec key fk t db = Inr (i, db')"
  shows "queue_order db' = queue_order db @ [i]"
  using assms(2)
proof (rule enqueue_Inr)
  fix j assume j: "jobs db' = jobs db @ [j]" "j_id j = next_job db" "i = next_job db" "j_status j = Queued"
    "queue_position j = max_position (jobs db) + 1"
  have "queue_position k \<le> max_position (jobs db)" if "k \<in> set (jobs db)" for k
    using that by (auto simp: max_position_def)
  then have le: "(queue_position k, j_id k) \<le> (queue_position j, j_id j)" if "k \<in> set (jobs db)" for k
    using that j(5) by (fastforce simp: less_eq_prod_def)
  have "sort_key (\<lambda>j. (queue_position j, j_id j)) (filter (\<lambda>j. j_status j = Queued) (jobs db) @ [j]) =
      sort_key (\<lambda>j. (queue_position j, j_id j)) (filter (\<lambda>j. j_status j = Queued) (jobs db)) @ [j]"
    by (rule sort_key_snoc_max) (rule le, simp)
  then show "queue_order db' = queue_order db @ [i]" using j by (simp add: queue_order_def)
qed

lemma queue_order_claim:
  assumes "claim_next limit skip tok t1 t2 t3 db = (Some r, db')"
  shows "queue_order db' = filter (\<lambda>i. i \<noteq> j_id r) (queue_order db)"
  using assms
proof (cases rule: claim_next_Some)
  case (claimed j)
  have "j_id r = j_id j" using claimed(5) tbl_one_SomeD [of _ "jobs db'" r] by (auto simp: pulls_get_def)
  moreover have "filter (\<lambda>k. j_status k = Queued) (jobs db') =
      filter (\<lambda>k. j_id k \<noteq> j_id j) (filter (\<lambda>k. j_status k = Queued) (jobs db))"
    unfolding claimed(4) update_job_def by (simp del: filter_filter) (rule filter_Queued_update, simp)
  ultimately show ?thesis by (simp add: queue_order_def sort_key_filter' filter_map o_def del: filter_filter)
qed simp

text \<open>Renumbering gives the listed jobs consecutive positions in the order of the list.\<close>

lemma jobs_renumber:
  "distinct is \<Longrightarrow> jobs (renumber pos is db) =
    map (\<lambda>j. if j_id j \<in> set is then j\<lparr>queue_position := pos + int (index_of (j_id j) is)\<rparr> else j) (jobs db)"
proof (induction "is" arbitrary: pos db)
  case (Cons i "is")
  then show ?case
    by (auto simp: update_job_def tbl_update_def algebra_simps)
qed simp

lemma index_of_nth: "distinct xs \<Longrightarrow> k < length xs \<Longrightarrow> index_of (xs ! k) xs = k"
proof (induction xs arbitrary: k)
  case (Cons x xs)
  then show ?case by (cases k) (auto simp: nth_Cons in_set_conv_nth)
qed simp

lemma index_of_inj: "x \<in> set xs \<Longrightarrow> y \<in> set xs \<Longrightarrow> index_of x xs = index_of y xs \<Longrightarrow> x = y"
  by (induction xs) (auto split: if_splits)

lemma map_index_of: "distinct xs \<Longrightarrow> map (\<lambda>x. index_of x xs) xs = [0..<length xs]"
  by (rule nth_equalityI) (simp_all add: index_of_nth)

lemma queue_order_renumber:
  assumes d: "distinct (map j_id (jobs db))" "distinct ids" and set: "set ids = set (queue_order db)"
  shows "queue_order (renumber base ids db) = ids"
proof -
  let ?db = "renumber base ids db" and ?key = "\<lambda>j. (queue_position j, j_id j)"
  let ?q = "filter (\<lambda>j. j_status j = Queued) (jobs ?db)"
  have js: "jobs ?db = map (\<lambda>j. if j_id j \<in> set ids then j\<lparr>queue_position := base + int (index_of (j_id j) ids)\<rparr> else j) (jobs db)"
    by (rule jobs_renumber [OF d(2)])
  have mem: "j_id j \<in> set ids \<and> queue_position j = base + int (index_of (j_id j) ids)" if "j \<in> set ?q" for j
    using that by (auto simp: js set queue_order_set split: if_splits)
  have "map j_id ?q = map j_id (filter (\<lambda>j. j_status j = Queued) (jobs db))"
  proof -
    have "map j_id (filter (\<lambda>j. j_status j = Queued) (map (\<lambda>j. if j_id j \<in> A then j\<lparr>queue_position := g j\<rparr> else j) xs)) =
      map j_id (filter (\<lambda>j. j_status j = Queued) xs)" for A :: "int set" and g and xs :: "job list"
      by (induction xs) auto
    then show ?thesis unfolding js .
  qed
  then have "set (map j_id ?q) = set (map j_id (filter (\<lambda>j. j_status j = Queued) (jobs db)))" by simp
  then have set': "set (queue_order ?db) = set ids"
    unfolding set by (simp add: queue_order_def)
  have ids: "map j_id (jobs ?db) = map j_id (jobs db)" by (simp add: js)
  have dq: "distinct (map j_id (sort_key ?key ?q))"
  proof -
    have "distinct (map j_id ?q)" using d(1) ids distinct_key_delete [of j_id "jobs ?db" "\<lambda>j. j_status j \<noteq> Queued"]
      by (simp add: tbl_delete_def)
    then show ?thesis by (simp add: distinct_map)
  qed
  have "sorted (map ?key (sort_key ?key ?q))" by simp
  then have "sorted (map (\<lambda>i. index_of i ids) (queue_order ?db))"
  proof -
    have "index_of (j_id a) ids \<le> index_of (j_id b) ids" if "?key a \<le> ?key b" "a \<in> set ?q" "b \<in> set ?q" for a b
      using that mem [OF that(2)] mem [OF that(3)] by (auto simp: less_eq_prod_def)
    moreover assume "sorted (map ?key (sort_key ?key ?q))"
    ultimately show ?thesis
      unfolding queue_order_def sorted_map by (auto intro: sorted_wrt_mono_rel [rotated] simp: sorted_wrt_map)
  qed
  moreover have "distinct (map (\<lambda>i. index_of i ids) (queue_order ?db))"
    using dq set' unfolding queue_order_def distinct_map by (auto intro!: inj_onI dest: index_of_inj)
  ultimately have "sorted_wrt (<) (map (\<lambda>i. index_of i ids) (queue_order ?db))" by (simp only: strict_sorted_iff)
  moreover have "sorted_wrt (<) (map (\<lambda>i. index_of i ids) ids)" by (simp only: map_index_of [OF d(2)] strict_sorted_iff) simp
  ultimately show ?thesis
    using set' index_of_inj by (intro strict_sorted_key_unique [where g = "\<lambda>i. index_of i ids"]) (auto intro!: inj_onI)
qed

lemma distinct_queue_order: "pulls_wf db \<Longrightarrow> distinct (queue_order db)"
proof -
  assume "pulls_wf db"
  then have "distinct (map j_id (filter (\<lambda>j. j_status j = Queued) (jobs db)))"
    using distinct_key_delete [of j_id "jobs db" "\<lambda>j. j_status j \<noteq> Queued"] by (simp add: tbl_delete_def pulls_wf_def)
  then show ?thesis by (simp add: queue_order_def distinct_map)
qed

lemma insert_at_props: "distinct xs \<Longrightarrow> x \<notin> set xs \<Longrightarrow> distinct (insert_at n x xs) \<and> set (insert_at n x xs) = insert x (set xs)"
proof -
  assume d: "distinct xs" "x \<notin> set xs"
  have "mset (take n xs @ drop n xs) = mset xs" by simp
  then have m: "mset (insert_at n x xs) = mset (x # xs)"
    by (simp add: insert_at_def del: append_take_drop_id)
  from mset_eq_imp_distinct_iff [OF m] mset_eq_setD [OF m] d show ?thesis by simp
qed

lemma queue_order_move:
  assumes "pulls_wf db" and "i \<in> set (queue_order db)"
  shows "fst (move i dir db)" and "queue_order (snd (move i dir db)) =
    insert_at (target_index dir (index_of i (queue_order db)) (length (queue_order db) - 1)) i (remove1 i (queue_order db))"
proof -
  let ?ids = "queue_order db" and ?rest = "remove1 i (queue_order db)"
  let ?ids' = "insert_at (target_index dir (index_of i ?ids) (length ?ids - 1)) i ?rest"
  have d: "distinct ?ids" by (rule distinct_queue_order [OF assms(1)])
  then have "distinct ?ids'" "set ?ids' = set ?ids"
    using insert_at_props [of ?rest i] assms(2) by (auto simp: distinct_remove1)
  then have "queue_order (renumber base ?ids' db) = ?ids'" for base
    using assms(1) by (intro queue_order_renumber) (simp_all add: pulls_wf_def)
  with assms(2) show "queue_order (snd (move i dir db)) = ?ids'" and "fst (move i dir db)"
    by (simp_all add: move_def Let_def length_remove1)
qed

subsection \<open>Discovery records\<close>

definition records_ok :: "(string \<times> bool) list \<Rightarrow> bool" where
  "records_ok m \<longleftrightarrow> distinct (map fst m) \<and> (\<forall>k \<in> set (map fst m). canonical_ollama_name k = k)"

lemma records_ok_update: "records_ok m \<Longrightarrow> records_ok (AList.update (canonical_ollama_name k) b m)"
  using dom_update [of "canonical_ollama_name k" b m]
  by (auto simp: records_ok_def distinct_update canonical_idem image_image [symmetric])

lemma records_ok_fold:
  "(\<And>x m. records_ok m \<Longrightarrow> records_ok (f x m)) \<Longrightarrow> records_ok m \<Longrightarrow> records_ok (fold f xs m)"
  by (induction xs arbitrary: m) auto

lemma records_ok_discovery: "records_ok (discovery_records db)"
  by (auto simp: discovery_records_def records_ok_def [of "[]"] split: stored_records.splits option.splits
      intro!: records_ok_fold records_ok_update)

lemma records_ok_latest: "\<forall>x \<in> set (latest_ollama_statuses db). canonical_ollama_name (fst x) = fst x"
proof -
  have "\<forall>x \<in> set (fold (\<lambda>j m. AList.update (canonical_ollama_name (ollama_name j)) (j_status j) m) js m).
      canonical_ollama_name (fst x) = fst x" if "\<forall>x \<in> set m. canonical_ollama_name (fst x) = fst x"
    for js :: "job list" and m :: "(string \<times> job_status) list"
    using that
  proof (induction js arbitrary: m)
    case (Cons j js)
    have "\<forall>x \<in> set (AList.update (canonical_ollama_name (ollama_name j)) (j_status j) m). canonical_ollama_name (fst x) = fst x"
      using Cons.prems
      by (induction m) (auto simp: canonical_idem split: if_splits)
    with Cons.IH show ?case by simp
  qed simp
  from this [of "[]"] show ?thesis by (simp add: latest_ollama_statuses_def)
qed

text \<open>What is stored is what is read back.\<close>

lemma discovery_store:
  assumes "records_ok m"
  shows "map_of (discovery_records (store_records m db)) = map_of m"
proof -
  have "map_of (fold (\<lambda>(k, v) m. case v of None \<Rightarrow> m | Some b \<Rightarrow> AList.update (canonical_ollama_name k) b m)
      (map (\<lambda>(k, v). (k, Some v)) m) n) = map_of n ++ map_of m"
    if "records_ok m" for m n :: "(string \<times> bool) list"
    using that
  proof (induction m arbitrary: n)
    case (Cons x m)
    obtain k v where x: "x = (k, v)" by (cases x)
    have ok: "records_ok m" "canonical_ollama_name k = k" "k \<notin> fst ` set m"
      using Cons.prems by (auto simp: records_ok_def x)
    then have "map_of m k = None" by (simp add: map_of_eq_None_iff)
    with Cons.IH [OF ok(1), of "AList.update k v n"] ok(2) show ?case
      by (auto simp: x update_conv' map_add_def fun_eq_iff split: option.splits)
  qed simp
  from this [OF assms, of "[]"] show ?thesis by (simp add: discovery_records_def store_records_def)
qed

lemma preserve_keeps:
  assumes "map_of (discovery_records db) n = Some b"
  shows "map_of (discovery_records (preserve_cancelled_history db)) n = Some b"
proof -
  let ?f = "\<lambda>(n, s) m. if s = Cancelled \<and> map_of m n = None then AList.update n True m else m"
  have "records_ok (fold ?f xs m) \<and> map_of (fold ?f xs m) n = Some b"
    if "records_ok m" "map_of m n = Some b" "\<forall>x \<in> set xs. canonical_ollama_name (fst x) = fst x"
    for xs :: "(string \<times> job_status) list" and m
    using that
  proof (induction xs arbitrary: m)
    case (Cons x xs)
    obtain k s where x: "x = (k, s)" by (cases x)
    have "records_ok (?f x m)" using Cons.prems records_ok_update [of m k True] by (auto simp: x)
    moreover have "map_of (?f x m) n = Some b" using Cons.prems by (auto simp: x update_conv')
    ultimately show ?case using Cons.IH [of "?f x m"] Cons.prems by simp
  qed simp
  from this [OF records_ok_discovery assms records_ok_latest] show ?thesis
    unfolding preserve_cancelled_history_def Let_def using assms by (simp add: discovery_store)
qed

lemma records_stored: "stored db' = stored db \<Longrightarrow> discovery_records db' = discovery_records db"
  by (simp add: discovery_records_def)

lemma stored_requeue_rows: "stored (snd (requeue_rows note running rs db)) = stored db"
  by (induction rs arbitrary: db) (simp_all add: case_prod_beta Let_def)

lemma stored_renumber: "stored (renumber pos ids db) = stored db"
  by (induction ids arbitrary: pos db) simp_all

text \<open>A download of the model completes: the one event that releases its name.\<close>

fun completes :: "string \<Rightarrow> pull_action \<Rightarrow> pulls_db \<Rightarrow> bool" where
  "completes n (Finish i oc e dg ow t) db =
     (oc = Done \<and> (\<exists>j \<in> set (jobs db). j_id j = i \<and> canonical_ollama_name (ollama_name j) = n))"
| "completes n _ db = False"

lemma outcome_keeps:
  assumes "map_of (discovery_records db) n = Some True"
    and "oc = Done \<Longrightarrow> \<forall>j \<in> set (jobs db). j_id j = i \<longrightarrow> canonical_ollama_name (ollama_name j) \<noteq> n"
  shows "map_of (discovery_records (discovery_outcome i oc db)) n = Some True"
proof (cases "pulls_get i db")
  case None
  with assms show ?thesis by (simp add: discovery_outcome_def)
next
  case (Some j)
  then have j: "j \<in> set (jobs db)" "j_id j = i" by (auto simp: pulls_get_def dest: tbl_one_SomeD)
  show ?thesis
    using assms j records_ok_discovery [of db]
    by (auto simp: discovery_outcome_def Some Let_def discovery_store records_ok_update update_conv')
qed

lemma barrier_act:
  assumes rec: "map_of (discovery_records db) n = Some True" and no: "\<not> completes n a db"
  shows "map_of (discovery_records (snd (pull_act a db))) n = Some True"
proof (cases a)
  case (Enqueue nm req be src rc key fk t)
  show ?thesis
  proof (cases "enqueue nm req be src rc key fk t db")
    case (Inr x)
    obtain i db' where "x = (i, db')" by fastforce
    with Inr have e: "enqueue nm req be src rc key fk t db = Inr (i, db')" by simp
    then have "stored db' = stored db" by (rule enqueue_Inr)
    with e Enqueue rec show ?thesis by (simp add: records_stored [of db' db])
  qed (use Enqueue rec in simp)
next
  case (Claim l s tok t1 t2 t3)
  obtain r db' where c: "claim_next l s tok t1 t2 t3 db = (r, db')" by fastforce
  then have "stored db' = stored db" by (cases rule: claim_next_Some) simp_all
  with c Claim rec show ?thesis by (simp add: records_stored [of db' db])
next
  case (Finish i oc e dg ow t)
  let ?f = "\<lambda>j. (if oc = Done then j\<lparr>progress_pct := 100\<rparr> else j)
       \<lparr>j_status := oc, error_message := error_text e, finished_at := Some t, next_attempt_at := None,
        digest := (if dg = None then digest j else dg)\<rparr>"
  obtain b db1 where u: "update_job (\<lambda>j. active j \<and> owned ow j) i ?f db = (b, db1)" by fastforce
  then have "stored db1 = stored db" and js: "jobs db1 = tbl_update (\<lambda>j. j_id j = i \<and> active j \<and> owned ow j) ?f (jobs db)"
    by (auto simp: update_job_def)
  then have rec1: "map_of (discovery_records db1) n = Some True" using rec by (simp add: records_stored [of db1 db])
  have old: "\<exists>k \<in> set (jobs db). j_id k = j_id j \<and> ollama_name k = ollama_name j" if "j \<in> set (jobs db1)" for j
    using that unfolding js by (cases rule: tbl_update_memE) (auto split: if_splits)
  have "\<forall>k \<in> set (jobs db). j_id k = i \<longrightarrow> canonical_ollama_name (ollama_name k) \<noteq> n" if "oc = Done"
    using no that by (simp add: Finish)
  with old have "\<forall>j \<in> set (jobs db1). j_id j = i \<longrightarrow> canonical_ollama_name (ollama_name j) \<noteq> n" if "oc = Done"
    using that by metis
  from outcome_keeps [OF rec1 this] rec1 u Finish rec show ?thesis by (auto simp: finish_def Let_def)
next
  case (Cancel i e ow t)
  obtain b db1 where u: "update_job (\<lambda>j. active j \<and> owned ow j) i
      (\<lambda>j. j\<lparr>j_status := Cancelled, error_message := e, finished_at := Some t, next_attempt_at := None\<rparr>) db = (b, db1)" by fastforce
  then have "stored db1 = stored db" by (auto simp: update_job_def)
  then have rec1: "map_of (discovery_records db1) n = Some True" using rec by (simp add: records_stored [of db1 db])
  from outcome_keeps [OF rec1, of Cancelled i] rec1 u Cancel show ?thesis by (auto simp: cancel_def Let_def)
next
  case (Delete_Finished i)
  with preserve_keeps [OF rec] show ?thesis
    by (simp add: delete_finished_def Let_def records_stored [of "_\<lparr>jobs := _\<rparr>"])
next
  case Clear_Finished
  with preserve_keeps [OF rec] show ?thesis
    by (simp add: clear_finished_def Let_def records_stored [of "_\<lparr>jobs := _\<rparr>"])
qed (use rec in \<open>simp_all add: discovery_records_def note_waiting_def requeue_orphans_def stored_requeue_rows retry_now_def
    update_progress_def schedule_retry_def set_paused_def set_cleanup_def move_def stored_renumber set_remote_id_def
    finished_detail_def requeue_def reset_stuck_def Let_def case_prod_beta\<close>)

subsection \<open>Properties\<close>

lemma run_pull_Cons:
  "snd (run_acts pull_act (a # as) db) = snd (run_acts pull_act as (snd (pull_act a db)))"
  by (simp add: case_prod_beta)

definition ex_job :: "int \<Rightarrow> string \<Rightarrow> job" where
  "ex_job i n = \<lparr>j_id = i, ollama_name = n, backend = ''ollama'', recipe = [], remote_job_id = None,
     idempotency_key = n, j_status = Queued, progress_pct = 0, progress_detail = [], error_message = None,
     requested_by = None, j_created_at = 0, started_at = None, finished_at = None, queue_position = i, paused = False,
     attempts = 0, next_attempt_at = None, last_error = None, bytes_completed = None, bytes_total = None,
     progress_at = None, cleanup_partial = False, digest = None, source = [], claim_token = None\<rparr>"

definition ex_pulls :: pulls_db where
  "ex_pulls = \<lparr>jobs = [ex_job 1 ''a:1'', ex_job 2 ''b:1''], next_job = 3, stored = Other_Value\<rparr>"

definition ex_claim :: pull_action where "ex_claim = Claim 1 None ''T'' 5 5 5"

lemma ex_pulls_wf: "pulls_wf ex_pulls"
  by (simp add: pulls_wf_def ex_pulls_def ex_job_def active_def ACTIVE_def canonical_ollama_name_def last_part_def)

lemma ex_claimed:
  "pull_act ex_claim ex_pulls =
    (True, ex_pulls\<lparr>jobs := [(ex_job 1 ''a:1'')\<lparr>j_status := Pulling, started_at := Some 5, progress_at := Some 5,
       claim_token := Some ''T''\<rparr>, ex_job 2 ''b:1'']\<rparr>)"
  by (simp add: ex_claim_def claim_next_def runnable_def pulling_on_def min_row_def ex_pulls_def ex_job_def tbl_simps
      update_job_def pulls_get_def Let_def)

text \<open>
  C8: as long as every claim asks for at most \<open>L\<close> downloads at once, no backend ever runs
  more than \<open>L\<close> (one for \<open>L\<close> below one), whatever the other actions, and there is never
  more than one active job for a backend and name.
\<close>

theorem download_slots:
  assumes "pulls_wf db" and "\<forall>be. int (pulling_on be (jobs db)) \<le> max 1 L"
    and "\<forall>a \<in> set as. \<forall>l s tok t1 t2 t3. a = Claim l s tok t1 t2 t3 \<longrightarrow> l \<le> L"
    and "db' = snd (run_acts pull_act as db)"
  shows "int (pulling_on be (jobs db')) \<le> max 1 L \<and>
    distinct (map (\<lambda>j. (backend j, ollama_name j)) (filter active (jobs db')))"
  using assms
proof (induction as arbitrary: db)
  case Nil
  then show ?case by (simp add: pulls_wf_def)
next
  case (Cons a as)
  have "\<forall>be. int (pulling_on be (jobs (snd (pull_act a db)))) \<le> max 1 L"
    by (rule pulling_act [OF Cons.prems(1,2)]) (use Cons.prems(3) in auto)
  from Cons.IH [OF pulls_wf_act [OF Cons.prems(1)] this] Cons.prems(3,4) show ?case
    by (simp add: case_prod_beta)
qed

theorem download_slots_witness:
  "pulling_on ''ollama'' (jobs (snd (run_acts pull_act [ex_claim] ex_pulls))) = 1 \<and>
    int (pulling_on ''ollama'' (jobs (snd (run_acts pull_act [ex_claim, ex_claim] ex_pulls)))) \<le> max 1 1"
proof -
  have "int (pulling_on ''ollama'' (jobs (snd (run_acts pull_act [ex_claim, ex_claim] ex_pulls)))) \<le> max 1 1"
    by (rule conjunct1 [OF download_slots [OF ex_pulls_wf _ _ refl]])
      (simp_all add: pulling_on_def ex_pulls_def ex_job_def tbl_simps ex_claim_def)
  moreover have "pulling_on ''ollama'' (jobs (snd (run_acts pull_act [ex_claim] ex_pulls))) = 1"
    by (simp add: ex_claimed pulling_on_def ex_job_def tbl_simps)
  ultimately show ?thesis by blast
qed



text \<open>
  C18: downloads start in queue order. A new job joins the end; a claim takes a runnable job
  such that no runnable job comes before it in (position, id) order, and only that job
  leaves the order; a move puts the job at the place asked for (one up, one down, first,
  last) and keeps the order of the others.
\<close>

theorem queue_discipline:
  assumes "pulls_wf db"
  shows "(enqueue n req be src rec key fk t db = Inr (i, db1) \<longrightarrow> queue_order db1 = queue_order db @ [i]) \<and>
    (claim_next limit skip tok t1 t2 t3 db = (Some j, db2) \<longrightarrow>
      (\<exists>k \<in> set (jobs db). j_id k = j_id j \<and> runnable limit skip t1 (jobs db) k \<and>
        (\<forall>x \<in> set (jobs db). runnable limit skip t1 (jobs db) x \<longrightarrow>
           queue_position k < queue_position x \<or> queue_position k = queue_position x \<and> j_id k \<le> j_id x)) \<and>
      queue_order db2 = filter (\<lambda>i. i \<noteq> j_id j) (queue_order db)) \<and>
    (m \<in> set (queue_order db) \<longrightarrow>
      queue_order (snd (move m dir db)) =
        insert_at (target_index dir (index_of m (queue_order db)) (length (queue_order db) - 1)) m (remove1 m (queue_order db)))"
proof (intro conjI impI)
  show "queue_order db1 = queue_order db @ [i]" if "enqueue n req be src rec key fk t db = Inr (i, db1)"
    using queue_order_enqueue [OF assms that] .
  show "\<exists>k \<in> set (jobs db). j_id k = j_id j \<and> runnable limit skip t1 (jobs db) k \<and>
        (\<forall>x \<in> set (jobs db). runnable limit skip t1 (jobs db) x \<longrightarrow>
           queue_position k < queue_position x \<or> queue_position k = queue_position x \<and> j_id k \<le> j_id x)"
    if "claim_next limit skip tok t1 t2 t3 db = (Some j, db2)"
    using that
  proof (cases rule: claim_next_Some)
    case (claimed k)
    have "j_id j = j_id k" using claimed(5) tbl_one_SomeD [of _ "jobs db2" j] by (auto simp: pulls_get_def)
    with claimed(1-3) show ?thesis by (intro bexI [of _ k]) (auto simp: less_eq_prod_def)
  qed simp
  show "queue_order db2 = filter (\<lambda>i. i \<noteq> j_id j) (queue_order db)" if "claim_next limit skip tok t1 t2 t3 db = (Some j, db2)"
    using queue_order_claim [OF that] .
  show "queue_order (snd (move m dir db)) =
        insert_at (target_index dir (index_of m (queue_order db)) (length (queue_order db) - 1)) m (remove1 m (queue_order db))"
    if "m \<in> set (queue_order db)"
    using queue_order_move(2) [OF assms that] .
qed

lemma ex_order: "queue_order ex_pulls = [1, 2]"
  by (simp add: queue_order_def ex_pulls_def ex_job_def)

theorem queue_discipline_witness:
  "pulls_wf ex_pulls \<and> queue_order (snd (move 2 Top ex_pulls)) = [2, 1]"
  using queue_discipline [OF ex_pulls_wf, where m = 2 and dir = Top] ex_pulls_wf
  by (simp add: ex_order target_index_def insert_at_def)

fun never_completes :: "string \<Rightarrow> pull_action list \<Rightarrow> pulls_db \<Rightarrow> bool" where
  "never_completes n [] db = True"
| "never_completes n (a # as) db = (\<not> completes n a db \<and> never_completes n as (snd (pull_act a db)))"

text \<open>
  A model whose download an administrator cancelled does not come back by itself: from
  then on its name is blocked for discovery through every action, clearing the history
  included, until a download of it completes.
\<close>

theorem cancelled_stays_blocked:
  assumes "cancel i err ow t db = (True, db1)" and "pulls_get i db = Some j" "backend j = ''ollama''"
    and "never_completes (canonical_ollama_name (ollama_name j)) as db1"
  shows "canonical_ollama_name (ollama_name j) \<in> set (blocked_discovery_names (snd (run_acts pull_act as db1)))"
proof -
  let ?n = "canonical_ollama_name (ollama_name j)"
  let ?f = "\<lambda>j. j\<lparr>j_status := Cancelled, error_message := err, finished_at := Some t, next_attempt_at := None\<rparr>"
  obtain b dbu where u: "update_job (\<lambda>j. active j \<and> owned ow j) i ?f db = (b, dbu)" by fastforce
  with assms(1) have db1: "db1 = discovery_outcome i Cancelled dbu" by (auto simp: cancel_def Let_def)
  have "jobs dbu = tbl_update (\<lambda>j. j_id j = i \<and> active j \<and> owned ow j) ?f (jobs db)"
    using u by (auto simp: update_job_def)
  moreover have "\<exists>k. tbl_one (\<lambda>j. j_id j = i) (tbl_update (\<lambda>j. j_id j = i \<and> q j) ?f js) = Some k \<and>
      backend k = backend j \<and> ollama_name k = ollama_name j" if "tbl_one (\<lambda>j. j_id j = i) js = Some j" for js q
    using that by (induction js) (auto simp: tbl_simps split: if_splits)
  ultimately obtain k where k: "pulls_get i dbu = Some k" "backend k = ''ollama''" "ollama_name k = ollama_name j"
    using assms(2,3) by (fastforce simp: pulls_get_def)
  have "map_of (discovery_records db1) ?n = Some True"
    using k records_ok_discovery [of dbu]
    by (simp add: db1 discovery_outcome_def Let_def discovery_store records_ok_update update_conv')
  then have "map_of (discovery_records (snd (run_acts pull_act as db1))) ?n = Some True"
    using assms(4)
  proof (induction as arbitrary: db1)
    case (Cons a as)
    have "map_of (discovery_records (snd (pull_act a db1))) ?n = Some True"
      by (rule barrier_act) (use Cons.prems in auto)
    with Cons show ?case by (simp add: case_prod_beta)
  qed simp
  then have "(?n, True) \<in> set (discovery_records (snd (run_acts pull_act as db1)))" by (rule map_of_SomeD)
  then show ?thesis by (force simp: blocked_discovery_names_def Let_def)
qed

theorem cancelled_stays_blocked_witness:
  "\<exists>db1. cancel 1 None None 9 ex_pulls = (True, db1) \<and>
    ''a:1'' \<in> set (blocked_discovery_names (snd (run_acts pull_act [Clear_Finished, Finish 2 Done None None None 9] db1)))"
proof -
  obtain db1 where c: "cancel 1 None None 9 ex_pulls = (True, db1)"
    and js: "map ollama_name (jobs (snd (pull_act Clear_Finished db1))) = [''b:1'']"
    by (simp add: cancel_def update_job_def active_def ACTIVE_def owned_def ex_pulls_def ex_job_def tbl_simps Let_def
        clear_finished_def FINISHED_def)
  have j: "pulls_get 1 ex_pulls = Some (ex_job 1 ''a:1'')" "backend (ex_job 1 ''a:1'') = ''ollama''"
    "canonical_ollama_name (ollama_name (ex_job 1 ''a:1'')) = ''a:1''"
    by (simp_all add: pulls_get_def ex_pulls_def ex_job_def tbl_simps canonical_ollama_name_def last_part_def)
  have "\<not> completes ''a:1'' (Finish 2 Done None None None 9) (snd (pull_act Clear_Finished db1))"
  proof -
    from js have "\<forall>k \<in> set (jobs (snd (pull_act Clear_Finished db1))). ollama_name k = ''b:1''"
      by (auto simp: map_eq_Cons_conv)
    then show ?thesis by (auto simp: canonical_ollama_name_def last_part_def)
  qed
  then have "never_completes (canonical_ollama_name (ollama_name (ex_job 1 ''a:1''))) [Clear_Finished, Finish 2 Done None None None 9] db1"
    unfolding j(3) by simp
  from cancelled_stays_blocked [OF c j(1,2) this] c show ?thesis unfolding j(3) by blast
qed

text \<open>
  A failed attempt is retried only when the error is transient and tries are left (or
  the model server is down, which uses up none and waits thirty seconds): the next try
  waits thirty seconds times four to the tries used before, at most thirty minutes. Any
  other failure ends the job. Either way the job stops running.
\<close>

theorem retry_policy:
  assumes "pulls_wf db" and "j \<in> set (jobs db)" "j_status j = Pulling" "0 \<le> attempts j"
  shows "\<exists>db'. retry_or_fail j pr retries down d m t db = Inr (True, db') \<and>
    (\<exists>k \<in> set (jobs db'). j_id k = j_id j \<and>
      (if snd pr \<and> down \<and> backend j = ''ollama''
       then j_status k = Queued \<and> attempts k = attempts j \<and> next_attempt_at k = Some (t + 30)
       else if snd pr \<and> attempts j < retries
       then j_status k = Queued \<and> attempts k = attempts j + 1 \<and>
         next_attempt_at k = Some (t + min 1800 (30 * 4 ^ nat (attempts j)))
       else j_status k = Failed))"
proof -
  have d: "distinct (map j_id (jobs db))" using assms(1) by (simp add: pulls_wf_def)
  have one: "tbl_count (\<lambda>x. j_id x = j_id j \<and> p x) (jobs db) = 1" if "p j" for p
  proof -
    have "tbl_count (\<lambda>x. j_id x = j_id j \<and> p x) (jobs db) \<le> tbl_count (\<lambda>x. j_id x = j_id j) (jobs db)"
      by (rule tbl_count_mono) auto
    with tbl_count_unique [OF d, of "j_id j"] have "tbl_count (\<lambda>x. j_id x = j_id j \<and> p x) (jobs db) \<le> 1" by linarith
    moreover have "tbl_count (\<lambda>x. j_id x = j_id j \<and> p x) (jobs db) \<noteq> 0"
      using assms(2) that by (auto simp: tbl_count_0_iff)
    ultimately show ?thesis by simp
  qed
  have upd: "\<exists>db'. update_job p (j_id j) f db = (True, db') \<and> f j \<in> set (jobs db')" if "p j" for p f
    using assms(2) that one [of p, OF that] by (auto simp: update_job_def set_tbl_update intro!: image_eqI [of _ _ j])
  have own: "owned (claim_token j) j" by (simp add: owned_def)
  let ?p = "\<lambda>x. j_status x = Pulling \<and> owned (claim_token j) x"
  have sched: "\<exists>db'. schedule_retry (j_id j) n nx e d (claim_token j) db = (True, db') \<and>
      (\<exists>k \<in> set (jobs db'). j_id k = j_id j \<and> j_status k = Queued \<and> attempts k = n \<and> next_attempt_at k = Some nx)" for n nx e
    using upd [where p = ?p and f = "\<lambda>j. j\<lparr>j_status := Queued, attempts := n, next_attempt_at := Some nx, last_error := Some (take 500 e),
              progress_detail := take 500 d\<rparr>"] assms(3) own
    unfolding schedule_retry_def by (elim meta_impE exE conjE) (auto elim!: rev_bexI)
  have fin: "\<exists>db'. finish (j_id j) Failed (Some m) None (claim_token j) t db = Inr (True, db') \<and>
      (\<exists>k \<in> set (jobs db'). j_id k = j_id j \<and> j_status k = Failed)"
    using upd [where p = "\<lambda>x. active x \<and> owned (claim_token j) x" and f = "\<lambda>j. j\<lparr>j_status := Failed, error_message := error_text (Some m),
       finished_at := Some t, next_attempt_at := None, digest := digest j\<rparr>"] assms(3) own
    unfolding finish_def FINISHED_def active_def ACTIVE_def by (elim meta_impE exE conjE) (auto elim!: rev_bexI)
  consider (down) "snd pr" "down" "backend j = ''ollama''" | (again) "\<not> (snd pr \<and> down \<and> backend j = ''ollama'')" "snd pr" "attempts j < retries"
    | (fails) "\<not> (snd pr \<and> down \<and> backend j = ''ollama'')" "\<not> (snd pr \<and> attempts j < retries)" by blast
  then show ?thesis
  proof cases
    case down
    with sched [of "attempts j" "t + 30" "fst pr"] show ?thesis
      by (auto simp: retry_or_fail_def RETRY_BASE_SECONDS_def RETRY_MAX_SECONDS_def)
  next
    case again
    with sched [of "attempts j + 1" "t + min 1800 (30 * 4 ^ nat (attempts j))" "fst pr"] show ?thesis
      by (auto simp: retry_or_fail_def Let_def RETRY_BASE_SECONDS_def RETRY_MAX_SECONDS_def)
  next
    case fails
    with fin show ?thesis by (auto simp: retry_or_fail_def Let_def)
  qed
qed

theorem retry_policy_witness:
  "\<exists>db'. retry_or_fail ((ex_job 1 ''a:1'')\<lparr>j_status := Pulling\<rparr>) (''eof'', True) 0 False [] ''eof'' 7
      (ex_pulls\<lparr>jobs := [(ex_job 1 ''a:1'')\<lparr>j_status := Pulling\<rparr>]\<rparr>) = Inr (True, db') \<and>
    (\<exists>k \<in> set (jobs db'). j_id k = 1 \<and> j_status k = Failed)"
proof -
  let ?j = "(ex_job 1 ''a:1'')\<lparr>j_status := Pulling\<rparr>" and ?db = "ex_pulls\<lparr>jobs := [(ex_job 1 ''a:1'')\<lparr>j_status := Pulling\<rparr>]\<rparr>"
  have "pulls_wf ?db"
    by (simp add: pulls_wf_def ex_pulls_def ex_job_def active_def ACTIVE_def canonical_ollama_name_def last_part_def)
  from retry_policy [OF this, of ?j "(''eof'', True)" 0 False "[]" "''eof''" 7] show ?thesis
    by (auto simp: ex_job_def)
qed

end
