(* ===== verification/Access_Gates.thy ===== *)
theory Access_Gates
  imports Accounts One_Shot "HOL-Library.List_Lexorder"
begin

section \<open>Who may use which model\<close>

text \<open>
  The access policies of bananachat/db/access.py (policies with allow and deny lists, and
  the requests people send to be let in), the model catalog as far as it decides access
  (bananachat/db/catalog.py: models, categories), the gates of bananachat/services/access.py
  and the choice of a model in bananachat/services/inference.py with the chain of
  replacements of bananachat/services/model_lifecycle.py. Foreign keys of the tables are
  written out: a policy goes with its model or category, lists and requests go with their
  policy or account. A surface is one of the two the callers name.
\<close>

record policy_row =
  p_scope :: string
  p_resource :: int
  p_mode :: string
  p_requests :: bool
  p_updated_by :: "string option"
  p_created_at :: stamp
  p_updated_at :: stamp

record policy =
  mode :: string
  requests_enabled :: bool
  updated_by :: "string option"
  updated_at :: "stamp option"
  persisted :: bool

record member_row =
  m_scope :: string
  m_resource :: int
  m_user :: string
  list_type :: string
  added_by :: "string option"
  m_reason :: string
  m_expires_at :: "stamp option"
  m_created_at :: stamp
  m_updated_at :: stamp

record request_row =
  rq_id :: int
  rq_scope :: string
  rq_resource :: int
  rq_user :: string
  use_case :: string
  rq_status :: string
  admin_message :: "string option"
  resolved_by :: "string option"
  rq_created_at :: stamp
  resolved_at :: "stamp option"

record category_row =
  cat_id :: int
  cat_name :: string
  cat_description :: string
  cat_scope :: string
  cat_order :: int

record model_row =
  model_id :: int
  model_name :: string
  display_name :: string
  model_backend :: string
  backend_model_name :: "string option"
  backend_available :: bool
  is_rolled_out :: bool
  is_uncensored :: bool
  is_image_generation :: bool
  supports_vision :: bool
  embedding_only :: bool
  enrollment :: string
  failing_at :: "stamp option"
  deprecated_at :: "stamp option"
  retired_at :: "stamp option"
  delete_requested_at :: "stamp option"
  replacement_id :: "int option"
  model_order :: int

record access_db =
  policies :: "policy_row list"
  memberships :: "member_row list"
  access_requests :: "request_row list"
  next_request :: int
  models :: "model_row list"
  categories :: "category_row list"
  next_category :: int
  assignments :: "(int \<times> int) list"
  people :: "string list"

datatype access_error = Unknown_Scope | Invalid_Resource | No_Resource_Id | Resource_Gone | Unknown_Mode | Unknown_List
  | Confirmations_Required | Use_Case_Length | Not_Accepted | Already_Pending | Already_Resolved | Category_Name
  | Unknown_Category_Scope | Constraint

definition SCOPES :: "string list" where
  "SCOPES = [''uncensored'', ''image_generation'', ''custom_personality'', ''agents'', ''category'', ''model'']"
definition CAPABILITY_SCOPES :: "string list" where
  "CAPABILITY_SCOPES = [''uncensored'', ''image_generation'', ''custom_personality'', ''agents'']"
definition MODES :: "string list" where
  "MODES = [''allow_all'', ''deny_except_allowlist'', ''allow_except_denylist'']"
definition LIST_TYPES :: "string list" where "LIST_TYPES = [''allowlist'', ''denylist'']"
definition CATEGORY_SCOPES :: "string list" where "CATEGORY_SCOPES = [''chat'', ''api'', ''both'']"

definition DEFAULTS :: "string \<Rightarrow> string \<times> bool" where
  "DEFAULTS scope =
     (if scope = ''uncensored'' \<or> scope = ''agents'' then (''deny_except_allowlist'', True)
      else if scope = ''image_generation'' then (''allow_all'', True)
      else if scope = ''custom_personality'' then (''allow_except_denylist'', True)
      else (''allow_all'', False))"

subsection \<open>Policies\<close>

definition check_key :: "string \<Rightarrow> int option \<Rightarrow> access_db \<Rightarrow> access_error + int" where
  "check_key scope raw db =
     (if scope \<notin> set SCOPES then Inl Unknown_Scope
      else case raw of
        None \<Rightarrow> Inl Invalid_Resource
      | Some i \<Rightarrow>
          if scope \<in> set CAPABILITY_SCOPES \<and> i \<noteq> 0 then Inl No_Resource_Id
          else if scope \<in> {''category'', ''model''} \<and>
            (i \<le> 0 \<or> (if scope = ''category'' then tbl_one (\<lambda>c. cat_id c = i) (categories db) = None
                      else tbl_one (\<lambda>m. model_id m = i) (models db) = None))
          then Inl Resource_Gone else Inr i)"

definition default_policy :: "string \<Rightarrow> policy" where
  "default_policy scope =
     \<lparr>mode = fst (DEFAULTS scope), requests_enabled = snd (DEFAULTS scope), updated_by = None, updated_at = None,
      persisted = False\<rparr>"

definition policy_of :: "policy_row \<Rightarrow> policy" where
  "policy_of p = \<lparr>mode = p_mode p, requests_enabled = p_requests p, updated_by = p_updated_by p,
     updated_at = Some (p_updated_at p), persisted = True\<rparr>"

definition policy_key :: "policy_row \<Rightarrow> string \<times> int" where "policy_key p = (p_scope p, p_resource p)"

definition get_policy :: "string \<Rightarrow> int \<Rightarrow> access_db \<Rightarrow> policy" where
  "get_policy scope i db =
     (case tbl_one (\<lambda>p. policy_key p = (scope, i)) (policies db) of
        None \<Rightarrow> default_policy scope | Some p \<Rightarrow> policy_of p)"

definition all_policies :: "access_db \<Rightarrow> string \<times> int \<rightharpoonup> policy" where
  "all_policies db = map_of (rev (map (\<lambda>p. (policy_key p, policy_of p)) (policies db)))"

text \<open>\<open>_ensure\<close>: INSERT OR IGNORE of the default row.\<close>

definition ensure :: "string \<Rightarrow> int \<Rightarrow> stamp \<Rightarrow> stamp \<Rightarrow> access_db \<Rightarrow> access_db" where
  "ensure scope i t1 t2 db =
     (if tbl_one (\<lambda>p. policy_key p = (scope, i)) (policies db) \<noteq> None then db
      else db\<lparr>policies := policies db @
        [\<lparr>p_scope = scope, p_resource = i, p_mode = fst (DEFAULTS scope), p_requests = snd (DEFAULTS scope),
          p_updated_by = None, p_created_at = t1, p_updated_at = t2\<rparr>]\<rparr>)"

definition known_or_null :: "string option \<Rightarrow> access_db \<Rightarrow> bool" where
  "known_or_null who db \<longleftrightarrow> (case who of None \<Rightarrow> True | Some i \<Rightarrow> i \<in> set (people db))"

definition set_policy ::
  "string \<Rightarrow> int option \<Rightarrow> string \<Rightarrow> bool \<Rightarrow> string option \<Rightarrow> stamp \<Rightarrow> stamp \<Rightarrow> access_db \<Rightarrow> access_error + access_db" where
  "set_policy scope raw md enabled who t1 t2 db =
     (if md \<notin> set MODES then Inl Unknown_Mode
      else case check_key scope raw db of
        Inl e \<Rightarrow> Inl e
      | Inr i \<Rightarrow>
          if \<not> known_or_null who db then Inl Constraint
          else if tbl_one (\<lambda>p. policy_key p = (scope, i)) (policies db) = None
          then Inr (db\<lparr>policies := policies db @
            [\<lparr>p_scope = scope, p_resource = i, p_mode = md, p_requests = enabled, p_updated_by = who,
              p_created_at = t1, p_updated_at = t2\<rparr>]\<rparr>)
          else Inr (db\<lparr>policies := tbl_update (\<lambda>p. policy_key p = (scope, i))
            (\<lambda>p. p\<lparr>p_mode := md, p_requests := enabled, p_updated_by := who, p_updated_at := t2\<rparr>) (policies db)\<rparr>))"

subsection \<open>Lists\<close>

definition unexpired :: "stamp \<Rightarrow> member_row \<Rightarrow> bool" where
  "unexpired t m \<longleftrightarrow> (case m_expires_at m of None \<Rightarrow> True | Some e \<Rightarrow> e > t)"

text \<open>The sets of list types of \<open>user_memberships\<close>, by policy; a policy without one has none.\<close>

definition user_memberships :: "string \<Rightarrow> stamp \<Rightarrow> access_db \<Rightarrow> string \<times> int \<Rightarrow> string list" where
  "user_memberships user_id t db key =
     map list_type (filter (\<lambda>m. (m_scope m, m_resource m) = key)
       (filter (\<lambda>m. m_user m = user_id \<and> unexpired t m) (memberships db)))"

definition is_allowed :: "policy \<Rightarrow> string list \<Rightarrow> bool" where
  "is_allowed p lts =
     (if mode p = ''deny_except_allowlist'' then ''allowlist'' \<in> set lts
      else if mode p = ''allow_except_denylist'' then ''denylist'' \<notin> set lts else True)"

definition member_key :: "member_row \<Rightarrow> string \<times> int \<times> string \<times> string" where
  "member_key m = (m_scope m, m_resource m, m_user m, list_type m)"

definition add_membership ::
  "string \<Rightarrow> int option \<Rightarrow> string \<Rightarrow> string \<Rightarrow> string option \<Rightarrow> string \<Rightarrow> stamp option \<Rightarrow> stamp \<Rightarrow> stamp \<Rightarrow> stamp \<Rightarrow> stamp
    \<Rightarrow> access_db \<Rightarrow> access_error + access_db" where
  "add_membership scope raw user_id lt who reason expires t1 t2 t3 t4 db =
     (if lt \<notin> set LIST_TYPES then Inl Unknown_List
      else case check_key scope raw db of
        Inl e \<Rightarrow> Inl e
      | Inr i \<Rightarrow>
          let db = ensure scope i t1 t2 db in
          if user_id \<notin> set (people db) \<or> \<not> known_or_null who db then Inl Constraint
          else if tbl_one (\<lambda>m. member_key m = (scope, i, user_id, lt)) (memberships db) = None
          then Inr (db\<lparr>memberships := memberships db @
            [\<lparr>m_scope = scope, m_resource = i, m_user = user_id, list_type = lt, added_by = who, m_reason = take 500 reason,
              m_expires_at = expires, m_created_at = t3, m_updated_at = t4\<rparr>]\<rparr>)
          else Inr (db\<lparr>memberships := tbl_update (\<lambda>m. member_key m = (scope, i, user_id, lt))
            (\<lambda>m. m\<lparr>added_by := who, m_reason := take 500 reason, m_expires_at := expires, m_updated_at := t4\<rparr>)
            (memberships db)\<rparr>))"

definition remove_membership :: "string \<Rightarrow> int \<Rightarrow> string \<Rightarrow> string \<Rightarrow> access_db \<Rightarrow> access_db" where
  "remove_membership scope i user_id lt db =
     db\<lparr>memberships := tbl_delete (\<lambda>m. member_key m = (scope, i, user_id, lt)) (memberships db)\<rparr>"

definition membership_counts :: "stamp \<Rightarrow> access_db \<Rightarrow> string \<times> int \<Rightarrow> string \<Rightarrow> nat" where
  "membership_counts t db key lt =
     tbl_count (\<lambda>m. (m_scope m, m_resource m) = key \<and> list_type m = lt) (filter (unexpired t) (memberships db))"

subsection \<open>Requests\<close>

definition create_request ::
  "string \<Rightarrow> int option \<Rightarrow> string \<Rightarrow> string \<Rightarrow> bool \<Rightarrow> bool \<Rightarrow> stamp \<Rightarrow> access_db \<Rightarrow> access_error + (int \<times> access_db)" where
  "create_request scope raw user_id uc safe logging t db =
     (if \<not> (safe \<and> logging) then Inl Confirmations_Required
      else
        let uc = strip uc in
        if \<not> (10 \<le> length uc \<and> length uc \<le> 2000) then Inl Use_Case_Length
        else case check_key scope raw db of
          Inl e \<Rightarrow> Inl e
        | Inr i \<Rightarrow>
            if \<not> requests_enabled (get_policy scope i db) then Inl Not_Accepted
            else if tbl_one (\<lambda>r. rq_scope r = scope \<and> rq_resource r = i \<and> rq_user r = user_id \<and> rq_status r = ''pending'')
                (access_requests db) \<noteq> None
            then Inl Already_Pending
            else if user_id \<notin> set (people db) \<or> tbl_one (\<lambda>p. policy_key p = (scope, i)) (policies db) = None
            then Inl Constraint
            else Inr (next_request db, db\<lparr>access_requests := access_requests db @
              [\<lparr>rq_id = next_request db, rq_scope = scope, rq_resource = i, rq_user = user_id, use_case = uc,
                rq_status = ''pending'', admin_message = None, resolved_by = None, rq_created_at = t, resolved_at = None\<rparr>],
              next_request := next_request db + 1\<rparr>))"

definition pending_requests_for :: "string \<Rightarrow> access_db \<Rightarrow> (string \<times> int) list" where
  "pending_requests_for user_id db =
     map (\<lambda>r. (rq_scope r, rq_resource r)) (filter (\<lambda>r. rq_user r = user_id \<and> rq_status r = ''pending'') (access_requests db))"

definition text_or_none :: "string \<Rightarrow> string option" where
  "text_or_none s = (if s = [] then None else Some s)"

definition resolve_request ::
  "int \<Rightarrow> string \<Rightarrow> bool \<Rightarrow> string \<Rightarrow> stamp \<Rightarrow> stamp \<Rightarrow> stamp \<Rightarrow> stamp \<Rightarrow> stamp \<Rightarrow> access_db \<Rightarrow> access_error + access_db" where
  "resolve_request rid who approved msg t t1 t2 t3 t4 db =
     (case tbl_one (\<lambda>r. rq_id r = rid) (access_requests db) of
        None \<Rightarrow> Inl Already_Resolved
      | Some r \<Rightarrow>
          if rq_status r \<noteq> ''pending'' then Inl Already_Resolved
          else if \<not> known_or_null (Some who) db then Inl Constraint
          else
            let db1 = db\<lparr>access_requests := tbl_update (\<lambda>q. rq_id q = rid)
                  (\<lambda>q. q\<lparr>rq_status := (if approved then ''approved'' else ''denied''),
                         admin_message := text_or_none (take 1000 msg), resolved_by := Some who, resolved_at := Some t\<rparr>)
                  (access_requests db)\<rparr>
            in if \<not> approved then Inr db1
               else if mode (get_policy (rq_scope r) (rq_resource r) db1) = ''allow_except_denylist''
               then Inr (remove_membership (rq_scope r) (rq_resource r) (rq_user r) ''denylist'' db1)
               else add_membership (rq_scope r) (Some (rq_resource r)) (rq_user r) ''allowlist'' (Some who)
                      ''Approved access request'' None t1 t2 t3 t4 db1)"

subsection \<open>Models, categories and accounts that go\<close>

text \<open>The cleanup triggers of a model or category: its policy goes, and with it the lists and requests.\<close>

definition drop_policy :: "string \<Rightarrow> int \<Rightarrow> access_db \<Rightarrow> access_db" where
  "drop_policy scope i db =
     db\<lparr>policies := tbl_delete (\<lambda>p. policy_key p = (scope, i)) (policies db),
        memberships := tbl_delete (\<lambda>m. (m_scope m, m_resource m) = (scope, i)) (memberships db),
        access_requests := tbl_delete (\<lambda>r. (rq_scope r, rq_resource r) = (scope, i)) (access_requests db)\<rparr>"

definition catalog_delete :: "int \<Rightarrow> access_db \<Rightarrow> access_db" where
  "catalog_delete i db =
     (if tbl_one (\<lambda>m. model_id m = i) (models db) = None then db
      else drop_policy ''model'' i
        (db\<lparr>models := map (\<lambda>m. if replacement_id m = Some i then m\<lparr>replacement_id := None\<rparr> else m)
               (tbl_delete (\<lambda>m. model_id m = i) (models db)),
            assignments := tbl_delete (\<lambda>(m, c). m = i) (assignments db)\<rparr>))"

definition check_category :: "string \<Rightarrow> string \<Rightarrow> access_error + string" where
  "check_category name scope =
     (let name = strip name in
      if \<not> (1 \<le> length name \<and> length name \<le> 80) then Inl Category_Name
      else if scope \<notin> set CATEGORY_SCOPES then Inl Unknown_Category_Scope else Inr name)"

definition create_category :: "string \<Rightarrow> string \<Rightarrow> string \<Rightarrow> access_db \<Rightarrow> access_error + (int \<times> access_db)" where
  "create_category name description scope db =
     (case check_category name scope of
        Inl e \<Rightarrow> Inl e
      | Inr name \<Rightarrow> Inr (next_category db, db\<lparr>categories := categories db @
          [\<lparr>cat_id = next_category db, cat_name = name, cat_description = take 500 description, cat_scope = scope,
            cat_order = (if categories db = [] then 0 else Max (cat_order ` set (categories db))) + 1\<rparr>],
          next_category := next_category db + 1\<rparr>))"

definition update_category :: "int \<Rightarrow> string \<Rightarrow> string \<Rightarrow> string \<Rightarrow> access_db \<Rightarrow> access_error + access_db" where
  "update_category i name description scope db =
     (case check_category name scope of
        Inl e \<Rightarrow> Inl e
      | Inr name \<Rightarrow> Inr (db\<lparr>categories := tbl_update (\<lambda>c. cat_id c = i)
          (\<lambda>c. c\<lparr>cat_name := name, cat_description := take 500 description, cat_scope := scope\<rparr>) (categories db)\<rparr>))"

definition delete_category :: "int \<Rightarrow> access_db \<Rightarrow> access_db" where
  "delete_category i db =
     (if tbl_one (\<lambda>c. cat_id c = i) (categories db) = None then db
      else drop_policy ''category'' i
        (db\<lparr>categories := tbl_delete (\<lambda>c. cat_id c = i) (categories db),
            assignments := tbl_delete (\<lambda>(m, c). c = i) (assignments db)\<rparr>))"

text \<open>\<open>reorder_categories\<close> and \<open>reorder\<close>: the position in the list becomes the sort order.\<close>

definition reorder_categories :: "int list \<Rightarrow> access_db \<Rightarrow> access_db" where
  "reorder_categories is db =
     fold (\<lambda>(n, i) db. db\<lparr>categories := tbl_update (\<lambda>c. cat_id c = i) (\<lambda>c. c\<lparr>cat_order := int n\<rparr>) (categories db)\<rparr>)
       (enumerate 0 is) db"

definition reorder_models :: "int list \<Rightarrow> access_db \<Rightarrow> access_db" where
  "reorder_models is db =
     fold (\<lambda>(n, i) db. db\<lparr>models := tbl_update (\<lambda>m. model_id m = i) (\<lambda>m. m\<lparr>model_order := int n\<rparr>) (models db)\<rparr>)
       (enumerate 0 is) db"

text \<open>\<open>set_model_categories\<close>: unknown categories and repetitions are left out; an unknown model fails on its foreign key.\<close>

definition set_model_categories :: "int \<Rightarrow> int list \<Rightarrow> access_db \<Rightarrow> access_error + access_db" where
  "set_model_categories i cs db =
     (let known = filter (\<lambda>c. tbl_one (\<lambda>r. cat_id r = c) (categories db) \<noteq> None) cs in
      if known \<noteq> [] \<and> tbl_one (\<lambda>m. model_id m = i) (models db) = None then Inl Constraint
      else Inr (db\<lparr>assignments := tbl_delete (\<lambda>(m, c). m = i) (assignments db) @ map (\<lambda>c. (i, c)) (rev (remdups (rev known)))\<rparr>))"

definition forget_person :: "string \<Rightarrow> access_db \<Rightarrow> access_db" where
  "forget_person i db =
     (let gone = (\<lambda>who. if who = Some i then None else who) in
      db\<lparr>people := tbl_delete (\<lambda>p. p = i) (people db),
         policies := map (\<lambda>p. p\<lparr>p_updated_by := gone (p_updated_by p)\<rparr>) (policies db),
         memberships := map (\<lambda>m. m\<lparr>added_by := gone (added_by m)\<rparr>) (tbl_delete (\<lambda>m. m_user m = i) (memberships db)),
         access_requests := map (\<lambda>r. r\<lparr>resolved_by := gone (resolved_by r)\<rparr>)
           (tbl_delete (\<lambda>r. rq_user r = i) (access_requests db))\<rparr>)"

subsection \<open>Gates\<close>

datatype surface = Chat | Api

definition surface_text :: "surface \<Rightarrow> string" where
  "surface_text s = (case s of Chat \<Rightarrow> ''chat'' | Api \<Rightarrow> ''api'')"

record gate =
  g_scope :: string
  g_resource :: int
  g_label :: string
  g_allowed :: bool
  g_mode :: "string option"
  g_requests :: bool
  g_pending :: bool

definition requestable :: "gate \<Rightarrow> bool" where
  "requestable g \<longleftrightarrow> \<not> g_allowed g \<and> g_requests g \<and> \<not> g_pending g \<and> g_scope g \<in> set SCOPES"

record access_context =
  c_user :: "account option"
  c_policies :: "string \<times> int \<rightharpoonup> policy"
  c_memberships :: "string \<times> int \<Rightarrow> string list"
  c_pending :: "(string \<times> int) list"
  c_categories :: "int \<Rightarrow> category_row list"

definition categories_by_model :: "access_db \<Rightarrow> int \<Rightarrow> category_row list" where
  "categories_by_model db i =
     sort_key (\<lambda>c. (cat_order c, map (of_char :: char \<Rightarrow> nat) (nocase (cat_name c))))
       (List.map_filter (\<lambda>(m, c). if m = i then tbl_one (\<lambda>r. cat_id r = c) (categories db) else None) (assignments db))"

definition load_context :: "account option \<Rightarrow> stamp \<Rightarrow> access_db \<Rightarrow> access_context" where
  "load_context user t db =
     (case user of
        Some u \<Rightarrow>
          if role u \<noteq> ''admin'' then
            \<lparr>c_user = user, c_policies = all_policies db, c_memberships = user_memberships (acc_id u) t db,
             c_pending = pending_requests_for (acc_id u) db, c_categories = categories_by_model db\<rparr>
          else \<lparr>c_user = user, c_policies = (\<lambda>_. None), c_memberships = (\<lambda>_. []), c_pending = [],
                c_categories = categories_by_model db\<rparr>
      | None \<Rightarrow> \<lparr>c_user = user, c_policies = (\<lambda>_. None), c_memberships = (\<lambda>_. []), c_pending = [],
                 c_categories = categories_by_model db\<rparr>)"

definition is_admin :: "access_context \<Rightarrow> bool" where
  "is_admin ctx \<longleftrightarrow> (case c_user ctx of None \<Rightarrow> False | Some u \<Rightarrow> role u = ''admin'')"

definition context_policy :: "access_context \<Rightarrow> string \<Rightarrow> int \<Rightarrow> policy" where
  "context_policy ctx scope i = (case c_policies ctx (scope, i) of None \<Rightarrow> default_policy scope | Some p \<Rightarrow> p)"

definition gate_at :: "access_context \<Rightarrow> string \<Rightarrow> int \<Rightarrow> string \<Rightarrow> gate" where
  "gate_at ctx scope i label =
     (let p = context_policy ctx scope i in
      \<lparr>g_scope = scope, g_resource = i, g_label = label, g_allowed = is_allowed p (c_memberships ctx (scope, i)),
       g_mode = Some (mode p), g_requests = requests_enabled p, g_pending = (scope, i) \<in> set (c_pending ctx)\<rparr>)"

definition allows :: "access_context \<Rightarrow> string \<Rightarrow> int \<Rightarrow> bool" where
  "allows ctx scope i \<longleftrightarrow> c_user ctx \<noteq> None \<and> (is_admin ctx \<or> g_allowed (gate_at ctx scope i []))"

definition surface_categories :: "access_context \<Rightarrow> model_row \<Rightarrow> surface \<Rightarrow> category_row list" where
  "surface_categories ctx m s = filter (\<lambda>c. cat_scope c \<in> {surface_text s, ''both''}) (c_categories ctx (model_id m))"

definition model_gates :: "access_context \<Rightarrow> model_row \<Rightarrow> surface \<Rightarrow> gate list" where
  "model_gates ctx m s =
     (if c_user ctx = None
      then [\<lparr>g_scope = ''catalog'', g_resource = 0, g_label = ''catalog'', g_allowed = False, g_mode = None,
             g_requests = False, g_pending = False\<rparr>]
      else if is_admin ctx then []
      else
        [\<lparr>g_scope = ''rollout'', g_resource = model_id m, g_label = display_name m, g_allowed = is_rolled_out m,
          g_mode = None, g_requests = False, g_pending = False\<rparr>] @
        (if is_uncensored m then [gate_at ctx ''uncensored'' 0 ''Uncensored models''] else []) @
        (if is_image_generation m then [gate_at ctx ''image_generation'' 0 ''Image generation''] else []) @
        map (\<lambda>c. gate_at ctx ''category'' (cat_id c) (cat_name c)) (surface_categories ctx m s) @
        [gate_at ctx ''model'' (model_id m) (display_name m)])"

definition can_use :: "access_context \<Rightarrow> model_row option \<Rightarrow> surface \<Rightarrow> bool" where
  "can_use ctx model s \<longleftrightarrow> (case model of None \<Rightarrow> False | Some m \<Rightarrow> list_all g_allowed (model_gates ctx m s))"

definition denied_gates :: "access_context \<Rightarrow> model_row \<Rightarrow> surface \<Rightarrow> gate list" where
  "denied_gates ctx m s = filter (\<lambda>g. \<not> g_allowed g) (model_gates ctx m s)"

definition offered :: "model_row \<Rightarrow> bool" where
  "offered m \<longleftrightarrow> enrollment m \<noteq> ''ignored'' \<and> failing_at m = None \<and> retired_at m = None \<and> delete_requested_at m = None"

definition is_text_model :: "model_row \<Rightarrow> bool" where
  "is_text_model m \<longleftrightarrow> model_backend m \<in> {''ollama'', ''claude'', ''codex'', ''external''} \<and> backend_available m \<and>
     \<not> is_image_generation m \<and> \<not> embedding_only m \<and> offered m"

definition is_image_model :: "model_row \<Rightarrow> bool \<Rightarrow> bool" where
  "is_image_model m images_enabled \<longleftrightarrow> images_enabled \<and> model_backend m = ''comfyui'' \<and> backend_available m \<and>
     is_image_generation m \<and> offered m"

datatype model_kind = Text_Kind | Image_Kind | Any_Kind

definition list_models :: "bool \<Rightarrow> access_db \<Rightarrow> model_row list" where
  "list_models rolled_out_only db =
     sort_key (\<lambda>m. (model_order m, map (of_char :: char \<Rightarrow> nat) (nocase (display_name m))))
       (filter (\<lambda>m. rolled_out_only \<longrightarrow> is_rolled_out m) (models db))"

definition usable_models :: "access_context \<Rightarrow> surface \<Rightarrow> model_kind \<Rightarrow> bool \<Rightarrow> bool \<Rightarrow> access_db \<Rightarrow> model_row list" where
  "usable_models ctx s kind images_enabled unreviewed db =
     filter (\<lambda>m. \<not> (enrollment m = ''new'' \<and> \<not> (unreviewed \<and> is_admin ctx)) \<and>
         (case kind of Text_Kind \<Rightarrow> is_text_model m | Image_Kind \<Rightarrow> is_image_model m images_enabled
            | Any_Kind \<Rightarrow> is_text_model m \<or> is_image_model m images_enabled) \<and>
         can_use ctx (Some m) s)
       (list_models (\<not> is_admin ctx) db)"

subsection \<open>Choosing a model\<close>

record selection =
  sel_model :: model_row
  sel_fallbacks :: "model_row list"
  sel_notice :: "(string \<times> string) option"
  sel_reason :: string
  sel_requested :: "model_row option"

datatype model_error = Does_Not_Exist | No_Access | Not_Available | No_Images | Retired "string option" | None_Available

text \<open>
  \<open>outage\<close>: the model server is remote, down and set to shut down; \<open>loaded\<close>: the names it
  has in memory.
\<close>

definition candidates :: "access_context \<Rightarrow> surface \<Rightarrow> bool \<Rightarrow> bool \<Rightarrow> string list \<Rightarrow> access_db \<Rightarrow> model_row list" where
  "candidates ctx s vision outage loaded db =
     sort_key (\<lambda>m. (deprecated_at m \<noteq> None,
         model_name m \<notin> set loaded \<and>
           (if truthy (backend_model_name m) then the (backend_model_name m) else model_name m) \<notin> set loaded,
         model_order m))
       (filter (\<lambda>m. (\<not> vision \<or> supports_vision m) \<and> retired_at m = None \<and> \<not> (outage \<and> model_backend m = ''ollama''))
         (usable_models ctx s Text_Kind False False db))"

definition catalog_get :: "int \<Rightarrow> access_db \<Rightarrow> model_row option" where
  "catalog_get i db = tbl_one (\<lambda>m. model_id m = i) (models db)"

definition get_by_name :: "string \<Rightarrow> access_db \<Rightarrow> model_row option" where
  "get_by_name name db = (if name = [] then None else tbl_one (\<lambda>m. model_name m = name) (models db))"

text \<open>The loop of \<open>replacement_for\<close>, with its twenty rounds.\<close>

fun follow ::
  "nat \<Rightarrow> int list \<Rightarrow> model_row \<Rightarrow> model_row option \<Rightarrow> access_context \<Rightarrow> surface \<Rightarrow> access_db \<Rightarrow> model_row option" where
  "follow 0 seen cur fallback ctx s db = fallback"
| "follow (Suc n) seen cur fallback ctx s db =
     (case replacement_id cur of
        None \<Rightarrow> fallback
      | Some i \<Rightarrow>
          if i = 0 \<or> i \<in> set seen then fallback
          else case catalog_get i db of
            None \<Rightarrow> fallback
          | Some cur \<Rightarrow>
              if retired_at cur \<noteq> None \<or> \<not> is_text_model cur \<or> \<not> can_use ctx (Some cur) s
              then follow n (i # seen) cur fallback ctx s db
              else if deprecated_at cur = None then Some cur
              else follow n (i # seen) cur (case fallback of None \<Rightarrow> Some cur | Some f \<Rightarrow> Some f) ctx s db)"

definition replacement_for :: "model_row \<Rightarrow> access_context \<Rightarrow> surface \<Rightarrow> access_db \<Rightarrow> model_row option" where
  "replacement_for m ctx s db = follow 20 [model_id m] m None ctx s db"

text \<open>\<open>_replaced\<close>: an error, or the selection that replaces the model, or nothing to replace.\<close>

definition replaced ::
  "access_context \<Rightarrow> model_row \<Rightarrow> surface \<Rightarrow> bool \<Rightarrow> bool \<Rightarrow> bool \<Rightarrow> string list \<Rightarrow> access_db
    \<Rightarrow> model_error + selection option" where
  "replaced ctx m s vision strict outage loaded db =
     (if \<not> (retired_at m \<noteq> None \<or> deprecated_at m \<noteq> None \<and> \<not> strict) then Inr None
      else
        let r = (case replacement_for m ctx s db of
                   None \<Rightarrow> None | Some r \<Rightarrow> if vision \<and> \<not> supports_vision r then None else Some r);
            reason = (if retired_at m \<noteq> None then ''retired'' else ''deprecated'');
            options = candidates ctx s vision outage loaded db
        in if strict then Inl (Retired (map_option model_name r))
           else case r of
             None \<Rightarrow>
               if reason = ''deprecated'' \<and> can_use ctx (Some m) s \<and> is_text_model m then Inr None
               else (case options of
                   [] \<Rightarrow> Inl None_Available
                 | x # xs \<Rightarrow> Inr (Some \<lparr>sel_model = x, sel_fallbacks = take 2 xs, sel_notice = None, sel_reason = reason,
                     sel_requested = Some m\<rparr>))
           | Some r \<Rightarrow> Inr (Some \<lparr>sel_model = r,
               sel_fallbacks = take 2 (filter (\<lambda>x. model_id x \<noteq> model_id r) options), sel_notice = None,
               sel_reason = reason, sel_requested = Some m\<rparr>))"

text \<open>The notice names the model that was asked for and the one that answers instead.\<close>

definition plain_selection :: "model_row \<Rightarrow> model_row list \<Rightarrow> (string \<times> string) option \<Rightarrow> selection" where
  "plain_selection m fs notice =
     \<lparr>sel_model = m, sel_fallbacks = fs, sel_notice = notice, sel_reason = [], sel_requested = None\<rparr>"

definition select_model ::
  "access_context \<Rightarrow> string option \<Rightarrow> surface \<Rightarrow> bool \<Rightarrow> bool \<Rightarrow> bool \<Rightarrow> string list \<Rightarrow> access_db
    \<Rightarrow> model_error + selection" where
  "select_model ctx req s vision strict outage loaded db =
     (let name = strip (if truthy req then the req else ''auto'');
          options = candidates ctx s vision outage loaded db
      in if name = [] \<or> name = ''auto''
         then (case options of [] \<Rightarrow> Inl None_Available | x # xs \<Rightarrow> Inr (plain_selection x (take 2 xs) None))
         else
           let model = (case get_by_name name db of
                 None \<Rightarrow> None | Some m \<Rightarrow> if enrollment m = ''ignored'' then None else Some m);
               instead = (case options of
                   [] \<Rightarrow> Inl None_Available
                 | x # xs \<Rightarrow> Inr (plain_selection x (take 2 xs)
                     (Some ((case model of None \<Rightarrow> name | Some m \<Rightarrow> display_name m), display_name x))))
           in case (case model of None \<Rightarrow> Inr None | Some m \<Rightarrow> replaced ctx m s vision strict outage loaded db) of
                Inl e \<Rightarrow> Inl e
              | Inr (Some sel) \<Rightarrow> Inr sel
              | Inr None \<Rightarrow>
                  (case model of
                     None \<Rightarrow> if strict then Inl Does_Not_Exist else instead
                   | Some m \<Rightarrow>
                       if \<not> can_use ctx (Some m) s then Inl No_Access
                       else if \<not> is_text_model m then if strict then Inl Not_Available else instead
                       else if vision \<and> \<not> supports_vision m then if strict then Inl No_Images else instead
                       else Inr (plain_selection m [] None)))"

subsection \<open>Every write of the component\<close>

text \<open>
  The actions of all processes. The last four stand for the writes of the catalog and of
  the accounts that do not touch access (a model's columns, new models and new accounts).
\<close>

datatype access_action =
    Set_Policy string "int option" string bool "string option" stamp stamp
  | Add_Member string "int option" string string "string option" string "stamp option" stamp stamp stamp stamp
  | Remove_Member string int string string
  | Ask string "int option" string string bool bool stamp
  | Resolve int string bool string stamp stamp stamp stamp stamp
  | Delete_Model int
  | New_Category string string string
  | Edit_Category int string string string
  | Delete_Category int
  | Order_Categories "int list"
  | Order_Models "int list"
  | Assign int "int list"
  | Forget_Person string
  | Write_Models "model_row \<Rightarrow> model_row"
  | New_Model model_row
  | New_Person string

fun attempt :: "'e + 's \<Rightarrow> 's \<Rightarrow> bool \<times> 's" where
  "attempt (Inl e) s = (False, s)"
| "attempt (Inr s') s = (True, s')"

fun access_act :: "access_action \<Rightarrow> access_db \<Rightarrow> bool \<times> access_db" where
  "access_act (Set_Policy sc raw md en who t1 t2) db = attempt (set_policy sc raw md en who t1 t2 db) db"
| "access_act (Add_Member sc raw u lt who re ex t1 t2 t3 t4) db =
     attempt (add_membership sc raw u lt who re ex t1 t2 t3 t4 db) db"
| "access_act (Remove_Member sc i u lt) db = (True, remove_membership sc i u lt db)"
| "access_act (Ask sc raw u uc a b t) db = attempt (map_sum id snd (create_request sc raw u uc a b t db)) db"
| "access_act (Resolve rid who ok msg t t1 t2 t3 t4) db = attempt (resolve_request rid who ok msg t t1 t2 t3 t4 db) db"
| "access_act (Delete_Model i) db = (True, catalog_delete i db)"
| "access_act (New_Category n d sc) db = attempt (map_sum id snd (create_category n d sc db)) db"
| "access_act (Edit_Category i n d sc) db = attempt (update_category i n d sc db) db"
| "access_act (Delete_Category i) db = (True, delete_category i db)"
| "access_act (Order_Categories is) db = (True, reorder_categories is db)"
| "access_act (Order_Models is) db = (True, reorder_models is db)"
| "access_act (Assign i cs) db = attempt (set_model_categories i cs db) db"
| "access_act (Forget_Person i) db = (True, forget_person i db)"
| "access_act (Write_Models f) db = (True, db\<lparr>models := map (\<lambda>m. (f m)\<lparr>model_id := model_id m\<rparr>) (models db)\<rparr>)"
| "access_act (New_Model m) db = (True, db\<lparr>models := models db @ [m]\<rparr>)"
| "access_act (New_Person i) db = (True, db\<lparr>people := people db @ [i]\<rparr>)"

text \<open>What the writes keep: unique keys, one pending request each, the capability policies of the first migration.\<close>

definition pending :: "request_row \<Rightarrow> bool" where "pending r \<longleftrightarrow> rq_status r = ''pending''"

definition asked :: "request_row \<Rightarrow> string \<times> int \<times> string" where "asked r = (rq_scope r, rq_resource r, rq_user r)"

definition policies_ok :: "policy_row list \<Rightarrow> bool" where
  "policies_ok ps \<longleftrightarrow> distinct (map policy_key ps) \<and> (\<forall>p \<in> set ps. p_mode p \<in> set MODES) \<and>
     (\<forall>sc \<in> set CAPABILITY_SCOPES. (sc, 0) \<in> policy_key ` set ps)"

definition requests_ok :: "(string \<times> int) set \<Rightarrow> int \<Rightarrow> request_row list \<Rightarrow> bool" where
  "requests_ok keys n rs \<longleftrightarrow> distinct (map rq_id rs) \<and> (\<forall>r \<in> set rs. rq_id r < n \<and> (rq_scope r, rq_resource r) \<in> keys) \<and>
     distinct (map asked (filter pending rs))"

definition access_wf :: "access_db \<Rightarrow> bool" where
  "access_wf db \<longleftrightarrow> policies_ok (policies db) \<and>
     requests_ok (policy_key ` set (policies db)) (next_request db) (access_requests db)"

lemma policy_key_update [simp]:
  "policy_key (p\<lparr>p_mode := a\<rparr>) = policy_key p" "policy_key (p\<lparr>p_requests := b\<rparr>) = policy_key p"
  "policy_key (p\<lparr>p_updated_by := c\<rparr>) = policy_key p" "policy_key (p\<lparr>p_updated_at := d\<rparr>) = policy_key p"
  by (simp_all add: policy_key_def)

lemma policy_key_make [simp]:
  "policy_key \<lparr>p_scope = s, p_resource = i, p_mode = m, p_requests = r, p_updated_by = u, p_created_at = a, p_updated_at = b\<rparr> = (s, i)"
  by (simp add: policy_key_def)

lemma requests_ok_mono: "requests_ok ks n rs \<Longrightarrow> ks \<subseteq> ks' \<Longrightarrow> requests_ok ks' n rs"
  by (auto simp: requests_ok_def)

lemma requests_ok_delete: "requests_ok ks n rs \<Longrightarrow> requests_ok ks n (tbl_delete q rs)"
proof -
  assume r: "requests_ok ks n rs"
  have eq: "filter pending (tbl_delete q rs) = filter (\<lambda>x. \<not> q x) (filter pending rs)"
    by (simp add: tbl_delete_def conj_commute)
  have "distinct (map asked (filter pending (tbl_delete q rs)))"
    unfolding eq by (rule distinct_map_filter) (use r in \<open>simp add: requests_ok_def\<close>)
  with r show ?thesis by (auto simp: requests_ok_def intro: distinct_key_delete)
qed

lemma policies_ok_snoc:
  "policies_ok ps \<Longrightarrow> policy_key p \<notin> policy_key ` set ps \<Longrightarrow> p_mode p \<in> set MODES \<Longrightarrow> policies_ok (ps @ [p])"
  by (auto simp: policies_ok_def)

lemma policies_ok_update:
  assumes "policies_ok ps" and "\<And>p. policy_key (f p) = policy_key p" and "\<And>p. p_mode p \<in> set MODES \<Longrightarrow> p_mode (f p) \<in> set MODES"
  shows "policies_ok (tbl_update q f ps)" and "policy_key ` set (tbl_update q f ps) = policy_key ` set ps"
proof -
  have "map policy_key (tbl_update q f ps) = map policy_key ps" by (rule distinct_key_update) (rule assms(2))
  moreover from this show "policy_key ` set (tbl_update q f ps) = policy_key ` set ps" by (metis list.set_map)
  ultimately show "policies_ok (tbl_update q f ps)"
    using assms(1,3) by (auto simp: policies_ok_def elim!: tbl_update_memE)
qed

lemma DEFAULTS_mode: "fst (DEFAULTS sc) \<in> set MODES"
  by (simp add: DEFAULTS_def MODES_def)

lemma tbl_one_policy: "tbl_one (\<lambda>p. policy_key p = k) ps = None \<longleftrightarrow> k \<notin> policy_key ` set ps"
  by (auto simp: tbl_one_None_iff)

lemma wf_ensure: "access_wf db \<Longrightarrow> access_wf (ensure sc i t1 t2 db)"
  by (auto simp: access_wf_def ensure_def tbl_one_policy DEFAULTS_mode
      intro!: policies_ok_snoc elim!: requests_ok_mono)

lemma wf_set_policy: "access_wf db \<Longrightarrow> set_policy sc raw md en who t1 t2 db = Inr db' \<Longrightarrow> access_wf db'"
  by (auto simp: access_wf_def set_policy_def tbl_one_policy policies_ok_update(2)
      intro!: policies_ok_snoc policies_ok_update(1) elim!: requests_ok_mono split: if_splits sum.splits)

lemma wf_add_membership:
  assumes "access_wf db" and "add_membership sc raw u lt who re ex t1 t2 t3 t4 db = Inr db'"
  shows "access_wf db'"
proof -
  from assms(2) obtain i where "db' = (ensure sc i t1 t2 db)\<lparr>memberships := memberships db'\<rparr>"
    by (auto simp: add_membership_def Let_def split: if_splits sum.splits)
  moreover have "access_wf (ensure sc i t1 t2 db)" using assms(1) by (rule wf_ensure)
  ultimately show ?thesis
    by (metis (no_types, lifting) access_db.ext_inject access_db.surjective access_db.update_convs(2) access_wf_def)
qed

lemma requests_ok_snoc:
  assumes "requests_ok ks n rs" and "rq_id r = n" "(rq_scope r, rq_resource r) \<in> ks"
    and "\<forall>q \<in> set rs. pending q \<longrightarrow> asked q \<noteq> asked r"
  shows "requests_ok ks (n + 1) (rs @ [r])"
  using assms by (auto simp: requests_ok_def)

lemma create_request_Inr:
  assumes "create_request sc raw u uc a b t db = Inr (rid, db')"
  obtains r where "db' = db\<lparr>access_requests := access_requests db @ [r], next_request := next_request db + 1\<rparr>"
    "rid = next_request db" "rq_id r = rid" "pending r" "(rq_scope r, rq_resource r) \<in> policy_key ` set (policies db)"
    "\<forall>q \<in> set (access_requests db). pending q \<longrightarrow> asked q \<noteq> asked r"
proof -
  from assms obtain i where free: "tbl_one (\<lambda>r. rq_scope r = sc \<and> rq_resource r = i \<and> rq_user r = u \<and> rq_status r = ''pending'')
      (access_requests db) = None" and key: "tbl_one (\<lambda>p. policy_key p = (sc, i)) (policies db) \<noteq> None"
    and db': "rid = next_request db" "db' = db\<lparr>access_requests := access_requests db @
      [\<lparr>rq_id = next_request db, rq_scope = sc, rq_resource = i, rq_user = u, use_case = strip uc,
        rq_status = ''pending'', admin_message = None, resolved_by = None, rq_created_at = t, resolved_at = None\<rparr>],
      next_request := next_request db + 1\<rparr>"
    by (auto simp: create_request_def Let_def split: if_splits sum.splits)
  from key have "(sc, i) \<in> policy_key ` set (policies db)" by (simp add: tbl_one_policy)
  moreover from free have "\<forall>q \<in> set (access_requests db). pending q \<longrightarrow> asked q \<noteq> (sc, i, u)"
    by (auto simp: tbl_one_None_iff pending_def asked_def)
  ultimately show ?thesis by (intro that [OF db'(2,1)]) (simp_all add: pending_def asked_def db'(1))
qed

lemma wf_create_request:
  assumes "access_wf db" and "create_request sc raw u uc a b t db = Inr (rid, db')"
  shows "access_wf db'"
  using assms(2)
proof (rule create_request_Inr)
  fix r assume "db' = db\<lparr>access_requests := access_requests db @ [r], next_request := next_request db + 1\<rparr>"
    "rid = next_request db" "rq_id r = rid" "(rq_scope r, rq_resource r) \<in> policy_key ` set (policies db)"
    "\<forall>q \<in> set (access_requests db). pending q \<longrightarrow> asked q \<noteq> asked r"
  with assms(1) show ?thesis by (simp add: access_wf_def requests_ok_snoc)
qed

lemma requests_ok_resolve:
  assumes "requests_ok ks n rs" and "\<And>r. rq_id (f r) = rq_id r" "\<And>r. asked (f r) = asked r" "\<And>r. pending (f r) \<Longrightarrow> pending r"
  shows "requests_ok ks n (tbl_update q f rs)"
proof -
  have key: "(rq_scope (f r), rq_resource (f r)) = (rq_scope r, rq_resource r)" for r
    using assms(3) [of r] by (simp add: asked_def)
  have "distinct (map asked (filter pending (tbl_update q f rs)))" if "distinct (map asked (filter pending rs))" for rs
    using that
  proof (induction rs)
    case (Cons r rs)
    have "asked ` set (filter pending (tbl_update q f rs)) \<subseteq> asked ` set (filter pending rs)"
      by (auto simp: assms(3) elim!: tbl_update_memE dest!: assms(4))
    with Cons assms(3,4) show ?case by (auto simp: tbl_simps split: if_splits)
  qed (simp add: tbl_simps)
  moreover have "map rq_id (tbl_update q f rs) = map rq_id rs" by (rule distinct_key_update) (rule assms(2))
  ultimately show ?thesis
    using assms(1,2) key by (auto simp: requests_ok_def elim!: tbl_update_memE)
qed

lemma wf_resolve_request:
  assumes "access_wf db" and "resolve_request rid who ok msg t t1 t2 t3 t4 db = Inr db'"
  shows "access_wf db'"
proof -
  let ?f = "\<lambda>q. q\<lparr>rq_status := (if ok then ''approved'' else ''denied''),
    admin_message := text_or_none (take 1000 msg), resolved_by := Some who, resolved_at := Some t\<rparr>"
  let ?db1 = "db\<lparr>access_requests := tbl_update (\<lambda>q. rq_id q = rid) ?f (access_requests db)\<rparr>"
  have 1: "access_wf ?db1"
    using assms(1) by (auto simp: access_wf_def asked_def pending_def intro!: requests_ok_resolve)
  obtain r where r: "tbl_one (\<lambda>r. rq_id r = rid) (access_requests db) = Some r"
    using assms(2) by (auto simp: resolve_request_def split: option.splits)
  show ?thesis
  proof (cases "ok \<and> mode (get_policy (rq_scope r) (rq_resource r) ?db1) \<noteq> ''allow_except_denylist''")
    case True
    then have "add_membership (rq_scope r) (Some (rq_resource r)) (rq_user r) ''allowlist'' (Some who)
        ''Approved access request'' None t1 t2 t3 t4 ?db1 = Inr db'"
      using assms(2) by (auto simp: resolve_request_def r Let_def split: if_splits)
    with 1 show ?thesis by (rule wf_add_membership)
  next
    case False
    then have "db' = ?db1 \<or> db' = remove_membership (rq_scope r) (rq_resource r) (rq_user r) ''denylist'' ?db1"
      using assms(2) by (auto simp: resolve_request_def r Let_def split: if_splits)
    with 1 show ?thesis by (auto simp: remove_membership_def access_wf_def)
  qed
qed

lemma policy_keys_delete: "policy_key ` set (tbl_delete (\<lambda>p. policy_key p = k) ps) = policy_key ` set ps - {k}"
  by auto

lemma wf_drop_policy:
  assumes "access_wf db" and "sc \<notin> set CAPABILITY_SCOPES"
  shows "access_wf (drop_policy sc i db)"
proof -
  have "policies_ok (tbl_delete (\<lambda>p. policy_key p = (sc, i)) (policies db))"
    using assms unfolding policies_ok_def policy_keys_delete
    by (auto simp: access_wf_def policies_ok_def intro: distinct_key_delete)
  moreover have "requests_ok (policy_key ` set (policies db)) (next_request db) (access_requests db)"
    using assms(1) by (simp add: access_wf_def)
  from requests_ok_delete [OF this, of "\<lambda>r. (rq_scope r, rq_resource r) = (sc, i)"]
  have "requests_ok (policy_key ` set (policies db) - {(sc, i)}) (next_request db)
      (tbl_delete (\<lambda>r. (rq_scope r, rq_resource r) = (sc, i)) (access_requests db))"
    unfolding requests_ok_def by (simp del: Pair_inject)
  ultimately show ?thesis by (simp add: access_wf_def drop_policy_def policy_keys_delete del: set_tbl_delete)
qed

lemma fold_field: "(\<And>x db. h (f x db) = h db) \<Longrightarrow> h (fold f xs db) = h db"
  by (induction xs arbitrary: db) simp_all

lemma fold_categories [simp]:
  "policies (reorder_categories is db) = policies db" "access_requests (reorder_categories is db) = access_requests db"
  "next_request (reorder_categories is db) = next_request db" "memberships (reorder_categories is db) = memberships db"
  unfolding reorder_categories_def by (rule fold_field, simp add: case_prod_beta)+

lemma fold_models [simp]:
  "policies (reorder_models is db) = policies db" "access_requests (reorder_models is db) = access_requests db"
  "next_request (reorder_models is db) = next_request db" "memberships (reorder_models is db) = memberships db"
  unfolding reorder_models_def by (rule fold_field, simp add: case_prod_beta)+

lemma wf_forget_person:
  assumes "access_wf db" shows "access_wf (forget_person i db)"
proof -
  let ?g = "\<lambda>who. if who = Some i then None else who"
  have upd: "map f xs = tbl_update (\<lambda>_. True) f xs" for f :: "'x \<Rightarrow> 'x" and xs by (simp add: tbl_update_def)
  have 1: "policies_ok (tbl_update (\<lambda>_. True) (\<lambda>p. p\<lparr>p_updated_by := ?g (p_updated_by p)\<rparr>) (policies db))"
    "policy_key ` set (tbl_update (\<lambda>_. True) (\<lambda>p. p\<lparr>p_updated_by := ?g (p_updated_by p)\<rparr>) (policies db)) =
      policy_key ` set (policies db)"
    using assms by (intro policies_ok_update; simp add: access_wf_def)+
  have 2: "requests_ok (policy_key ` set (policies db)) (next_request db) (tbl_update (\<lambda>_. True)
      (\<lambda>r. r\<lparr>resolved_by := ?g (resolved_by r)\<rparr>) (tbl_delete (\<lambda>r. rq_user r = i) (access_requests db)))"
    using assms by (auto simp: access_wf_def asked_def pending_def intro!: requests_ok_resolve requests_ok_delete)
  from 1 2 show ?thesis by (simp add: access_wf_def forget_person_def Let_def upd)
qed

lemma wf_same:
  "access_wf db \<Longrightarrow> policies db' = policies db \<Longrightarrow> access_requests db' = access_requests db \<Longrightarrow>
    next_request db' = next_request db \<Longrightarrow> access_wf db'"
  by (simp add: access_wf_def)

lemma attempt_cases: "snd (attempt x s) = s \<or> x = Inr (snd (attempt x s))"
  by (cases x) auto

lemma wf_act: "access_wf db \<Longrightarrow> access_wf (snd (access_act a db))"
proof (cases a)
  case (Set_Policy sc raw md en who t1 t2)
  then show "access_wf db \<Longrightarrow> ?thesis" using attempt_cases [of "set_policy sc raw md en who t1 t2 db" db] wf_set_policy by auto
next
  case (Add_Member sc raw u lt who re ex t1 t2 t3 t4)
  then show "access_wf db \<Longrightarrow> ?thesis"
    using attempt_cases [of "add_membership sc raw u lt who re ex t1 t2 t3 t4 db" db] wf_add_membership by auto
next
  case (Ask sc raw u uc c d t)
  then show "access_wf db \<Longrightarrow> ?thesis"
    by (cases "create_request sc raw u uc c d t db") (auto intro: wf_create_request)
next
  case (Resolve rid who ok msg t t1 t2 t3 t4)
  then show "access_wf db \<Longrightarrow> ?thesis"
    using attempt_cases [of "resolve_request rid who ok msg t t1 t2 t3 t4 db" db] wf_resolve_request by auto
next
  case (Delete_Model i)
  have "access_wf db \<Longrightarrow> access_wf (catalog_delete i db)"
    by (auto simp: catalog_delete_def CAPABILITY_SCOPES_def elim: wf_same intro!: wf_drop_policy)
  with Delete_Model show "access_wf db \<Longrightarrow> ?thesis" by simp
next
  case (Delete_Category i)
  have "access_wf db \<Longrightarrow> access_wf (delete_category i db)"
    by (auto simp: delete_category_def CAPABILITY_SCOPES_def elim: wf_same intro!: wf_drop_policy)
  with Delete_Category show "access_wf db \<Longrightarrow> ?thesis" by simp
next
  case (New_Category n d sc)
  then show "access_wf db \<Longrightarrow> ?thesis" by (auto simp: create_category_def elim!: wf_same split: sum.splits)
next
  case (Edit_Category i n d sc)
  then show "access_wf db \<Longrightarrow> ?thesis" by (auto simp: update_category_def elim!: wf_same split: sum.splits)
next
  case (Assign i cs)
  then show "access_wf db \<Longrightarrow> ?thesis" by (auto simp: set_model_categories_def Let_def elim!: wf_same)
qed (auto simp: remove_membership_def wf_forget_person elim!: wf_same)

subsection \<open>Requests are decided once\<close>

fun decides :: "access_action \<Rightarrow> bool \<Rightarrow> int \<Rightarrow> bool" where
  "decides (Resolve i who ok msg t t1 t2 t3 t4) r rid = (r \<and> i = rid)"
| "decides _ r rid = False"

text \<open>How often a request can still be decided: once while it is pending, or not yet made.\<close>

definition open_request :: "int \<Rightarrow> access_db \<Rightarrow> nat" where
  "open_request rid db = of_bool (next_request db \<le> rid) + tbl_count (\<lambda>r. rq_id r = rid \<and> pending r) (access_requests db)"

lemma next_request_simps [simp]:
  "next_request (ensure sc i t1 t2 db) = next_request db" "access_requests (ensure sc i t1 t2 db) = access_requests db"
  "people (ensure sc i t1 t2 db) = people db" "memberships (ensure sc i t1 t2 db) = memberships db"
  "next_request (drop_policy sc i db) = next_request db"
  by (simp_all add: ensure_def drop_policy_def)

lemma add_membership_requests:
  "add_membership sc raw u lt who re ex t1 t2 t3 t4 db = Inr db' \<Longrightarrow>
    next_request db' = next_request db \<and> access_requests db' = access_requests db"
  by (auto simp: add_membership_def Let_def split: if_splits sum.splits)

lemma set_policy_requests:
  "set_policy sc raw md en who t1 t2 db = Inr db' \<Longrightarrow>
    next_request db' = next_request db \<and> access_requests db' = access_requests db"
  by (auto simp: set_policy_def split: if_splits sum.splits)

lemma resolve_request_requests:
  assumes "resolve_request rid who ok msg t t1 t2 t3 t4 db = Inr db'"
  shows "next_request db' = next_request db \<and>
      access_requests db' = tbl_update (\<lambda>q. rq_id q = rid)
        (\<lambda>q. q\<lparr>rq_status := (if ok then ''approved'' else ''denied''), admin_message := text_or_none (take 1000 msg),
           resolved_by := Some who, resolved_at := Some t\<rparr>) (access_requests db)"
    and "\<exists>r \<in> set (access_requests db). rq_id r = rid \<and> pending r"
proof -
  obtain r where r: "tbl_one (\<lambda>r. rq_id r = rid) (access_requests db) = Some r"
    using assms by (auto simp: resolve_request_def split: option.splits)
  with assms show "next_request db' = next_request db \<and>
      access_requests db' = tbl_update (\<lambda>q. rq_id q = rid)
        (\<lambda>q. q\<lparr>rq_status := (if ok then ''approved'' else ''denied''), admin_message := text_or_none (take 1000 msg),
           resolved_by := Some who, resolved_at := Some t\<rparr>) (access_requests db)"
    by (auto simp: resolve_request_def remove_membership_def Let_def dest!: add_membership_requests split: if_splits)
  from assms r tbl_one_SomeD [OF r] show "\<exists>r \<in> set (access_requests db). rq_id r = rid \<and> pending r"
    by (auto simp: resolve_request_def pending_def split: if_splits)
qed

lemma open_request_delete:
  "next_request db' = next_request db \<Longrightarrow> access_requests db' = tbl_delete q (access_requests db) \<Longrightarrow>
    open_request rid db' \<le> open_request rid db"
  by (simp add: open_request_def tbl_count_delete_le)

lemma open_request_same:
  "next_request db' = next_request db \<Longrightarrow> access_requests db' = access_requests db \<Longrightarrow> open_request rid db' = open_request rid db"
  by (simp add: open_request_def)

lemma open_request_resolve:
  assumes "resolve_request rid who ok msg t t1 t2 t3 t4 db = Inr db'"
  shows "open_request k db' \<le> open_request k db" and "open_request rid db' < open_request rid db"
proof -
  note eq = conjunct1 [OF resolve_request_requests(1) [OF assms]] conjunct2 [OF resolve_request_requests(1) [OF assms]]
  show "open_request k db' \<le> open_request k db"
    unfolding open_request_def eq
    by (rule add_left_mono, rule tbl_count_update_mono) (cases ok; simp add: pending_def)
  have "tbl_count (\<lambda>r. rq_id r = rid \<and> pending r) (access_requests db') = 0"
    unfolding eq tbl_count_0_iff set_tbl_update by (cases ok; simp add: pending_def ball_Un)
  moreover have "tbl_count (\<lambda>r. rq_id r = rid \<and> pending r) (access_requests db) \<noteq> 0"
    using resolve_request_requests(2) [OF assms] by (auto simp: tbl_count_0_iff)
  ultimately show "open_request rid db' < open_request rid db" by (simp add: open_request_def eq(1))
qed

lemma open_request_create:
  assumes "create_request sc raw u uc a b t db = Inr (n, db')"
  shows "open_request k db' \<le> open_request k db"
  using assms by (rule create_request_Inr) (auto simp: open_request_def tbl_simps)

lemma open_request_forget: "open_request k (forget_person i db) \<le> open_request k db"
proof -
  let ?g = "\<lambda>r. r\<lparr>resolved_by := (if resolved_by r = Some i then None else resolved_by r)\<rparr>"
  have eq: "access_requests (forget_person i db) = tbl_update (\<lambda>_. True) ?g (tbl_delete (\<lambda>r. rq_user r = i) (access_requests db))"
    by (simp add: forget_person_def Let_def tbl_update_def)
  have "tbl_count (\<lambda>r. rq_id r = k \<and> pending r) (access_requests (forget_person i db)) \<le>
      tbl_count (\<lambda>r. rq_id r = k \<and> pending r) (tbl_delete (\<lambda>r. rq_user r = i) (access_requests db))"
    unfolding eq by (rule tbl_count_update_mono) (simp add: pending_def)
  also have "\<dots> \<le> tbl_count (\<lambda>r. rq_id r = k \<and> pending r) (access_requests db)" by (rule tbl_count_delete_le)
  finally show ?thesis by (simp add: open_request_def forget_person_def Let_def)
qed

interpretation request: one_shot access_act open_request "\<lambda>_ _. False" decides
proof
  fix a k db
  show "open_request k (snd (access_act a db)) \<le> open_request k db"
  proof (cases a)
    case (Ask sc raw u uc x y t)
    then show ?thesis by (cases "create_request sc raw u uc x y t db") (auto intro: open_request_create)
  next
    case (Resolve rid who ok msg t t1 t2 t3 t4)
    then show ?thesis by (cases "resolve_request rid who ok msg t t1 t2 t3 t4 db") (auto intro: open_request_resolve)
  next
    case (Set_Policy sc raw md en who t1 t2)
    then show ?thesis
      by (cases "set_policy sc raw md en who t1 t2 db") (auto dest!: set_policy_requests intro: eq_refl open_request_same)
  next
    case (Add_Member sc raw u lt who re ex t1 t2 t3 t4)
    then show ?thesis
      by (cases "add_membership sc raw u lt who re ex t1 t2 t3 t4 db")
        (auto dest!: add_membership_requests intro: eq_refl open_request_same)
  next
    case (Delete_Model i)
    have "open_request k (catalog_delete i db) \<le> open_request k db"
      by (cases "tbl_one (\<lambda>m. model_id m = i) (models db)")
        (simp_all add: catalog_delete_def open_request_def drop_policy_def tbl_count_delete_le)
    with Delete_Model show ?thesis by simp
  next
    case (Delete_Category i)
    have "open_request k (delete_category i db) \<le> open_request k db"
      by (cases "tbl_one (\<lambda>c. cat_id c = i) (categories db)")
        (simp_all add: delete_category_def open_request_def drop_policy_def tbl_count_delete_le)
    with Delete_Category show ?thesis by simp
  next
    case (New_Category n d sc)
    then show ?thesis by (cases "check_category n sc") (simp_all add: create_category_def open_request_def)
  next
    case (Edit_Category i n d sc)
    then show ?thesis by (cases "check_category n sc") (simp_all add: update_category_def open_request_def)
  next
    case (Assign i cs)
    then show ?thesis by (simp add: set_model_categories_def Let_def open_request_def)
  qed (simp_all add: open_request_forget, simp_all add: open_request_def remove_membership_def)
  show "open_request k (snd (access_act a db)) < open_request k db" if "decides a (fst (access_act a db)) k"
  proof (cases a)
    case (Resolve rid who ok msg t t1 t2 t3 t4)
    with that show ?thesis
      by (cases "resolve_request rid who ok msg t t1 t2 t3 t4 db") (auto intro: open_request_resolve)
  qed (use that in auto)
qed

subsection \<open>The gates over the tables\<close>

text \<open>What a policy means for an account at a time, read from the tables directly.\<close>

definition passes :: "string \<Rightarrow> stamp \<Rightarrow> access_db \<Rightarrow> string \<Rightarrow> int \<Rightarrow> bool" where
  "passes u t db sc i \<longleftrightarrow>
     (let md = mode (get_policy sc i db);
          on = (\<lambda>lt. \<exists>m \<in> set (memberships db). member_key m = (sc, i, u, lt) \<and> unexpired t m)
      in (md = ''deny_except_allowlist'' \<longrightarrow> on ''allowlist'') \<and> (md = ''allow_except_denylist'' \<longrightarrow> \<not> on ''denylist''))"

lemma all_policies_get:
  assumes "distinct (map policy_key (policies db))"
  shows "all_policies db k = map_option policy_of (tbl_one (\<lambda>p. policy_key p = k) (policies db))"
proof -
  have "distinct (map fst (map (\<lambda>p. (policy_key p, policy_of p)) (policies db)))" using assms by (simp add: comp_def)
  then have "all_policies db = map_of (map (\<lambda>p. (policy_key p, policy_of p)) (policies db))"
    unfolding all_policies_def by (subst map_of_inject_set) (simp_all only: rev_map set_rev map_map distinct_rev flip: rev_map)
  moreover have "map_of (map (\<lambda>p. (policy_key p, policy_of p)) ps) k = map_option policy_of (tbl_one (\<lambda>p. policy_key p = k) ps)" for ps
    by (induction ps) (auto simp: tbl_simps)
  ultimately show ?thesis by simp
qed

lemma context_policy_get:
  assumes "distinct (map policy_key (policies db))" and "role u \<noteq> ''admin''"
  shows "context_policy (load_context (Some u) t db) sc i = get_policy sc i db"
  using all_policies_get [OF assms(1), of "(sc, i)"] assms(2)
  by (auto simp: context_policy_def load_context_def get_policy_def split: option.splits)

lemma on_list:
  "lt \<in> set (user_memberships u t db (sc, i)) \<longleftrightarrow>
    (\<exists>m \<in> set (memberships db). member_key m = (sc, i, u, lt) \<and> unexpired t m)"
  by (auto simp: user_memberships_def member_key_def)

lemma gate_passes:
  assumes "distinct (map policy_key (policies db))" and "role u \<noteq> ''admin''"
  shows "g_allowed (gate_at (load_context (Some u) t db) sc i l) = passes (acc_id u) t db sc i"
proof -
  have "c_memberships (load_context (Some u) t db) = user_memberships (acc_id u) t db"
    using assms(2) by (simp add: load_context_def)
  then show ?thesis
    using on_list [of _ "acc_id u" t db sc i]
    by (simp add: gate_at_def Let_def context_policy_get [OF assms] is_allowed_def passes_def)
qed

lemma surface_categories_set:
  assumes "distinct (map cat_id (categories db))"
  shows "set (surface_categories (load_context (Some u) t db) m s) =
    {c \<in> set (categories db). (model_id m, cat_id c) \<in> set (assignments db) \<and> cat_scope c \<in> {surface_text s, ''both''}}"
proof -
  have c: "c_categories (load_context (Some u) t db) = categories_by_model db" by (simp add: load_context_def)
  have "set (categories_by_model db i) = {c \<in> set (categories db). (i, cat_id c) \<in> set (assignments db)}" for i
  proof -
    have one: "tbl_one (\<lambda>r. cat_id r = j) (categories db) = Some c \<longleftrightarrow> c \<in> set (categories db) \<and> cat_id c = j" for c j
      using tbl_one_unique [OF assms, of c] tbl_one_SomeD [of "\<lambda>r. cat_id r = j" "categories db" c] by blast
    show ?thesis
      by (auto simp: categories_by_model_def set_map_filter one split: if_splits intro!: bexI [of _ "(i, cat_id x)" for x])
  qed
  then show ?thesis by (auto simp: surface_categories_def c)
qed

lemma can_use_admin: "role u = ''admin'' \<Longrightarrow> can_use (load_context (Some u) t db) (Some m) s"
  by (simp add: can_use_def model_gates_def load_context_def is_admin_def)

lemma can_use_iff:
  assumes "distinct (map policy_key (policies db))" and "distinct (map cat_id (categories db))" and "role u \<noteq> ''admin''"
  shows "can_use (load_context (Some u) t db) (Some m) s \<longleftrightarrow>
    is_rolled_out m \<and>
    (is_uncensored m \<longrightarrow> passes (acc_id u) t db ''uncensored'' 0) \<and>
    (is_image_generation m \<longrightarrow> passes (acc_id u) t db ''image_generation'' 0) \<and>
    (\<forall>c \<in> set (categories db). (model_id m, cat_id c) \<in> set (assignments db) \<and> cat_scope c \<in> {surface_text s, ''both''} \<longrightarrow>
       passes (acc_id u) t db ''category'' (cat_id c)) \<and>
    passes (acc_id u) t db ''model'' (model_id m)"
proof -
  have "c_user (load_context (Some u) t db) = Some u" "\<not> is_admin (load_context (Some u) t db)"
    using assms(3) by (simp_all add: load_context_def is_admin_def)
  then show ?thesis
    by (auto simp: can_use_def model_gates_def list.pred_map comp_def gate_passes [OF assms(1,3)])
      (auto simp: list_all_iff surface_categories_set [OF assms(2), of u t m s])
qed

subsection \<open>What an approval changes\<close>

lemma get_policy_ensure: "mode (get_policy sc i (ensure sc' i' t1 t2 db)) = mode (get_policy sc i db)"
proof (cases "tbl_one (\<lambda>p. policy_key p = (sc', i')) (policies db)")
  case None
  then show ?thesis
    by (cases "(sc, i) = (sc', i')")
      (auto simp: get_policy_def ensure_def tbl_one_append tbl_simps default_policy_def policy_of_def split: option.splits)
qed (simp add: ensure_def)

lemma add_membership_Inr:
  assumes "add_membership sc raw u lt who re ex t1 t2 t3 t4 db = Inr db'"
  obtains i where "raw = Some i" "mode (get_policy sc' j db') = mode (get_policy sc' j db)"
    "\<exists>m \<in> set (memberships db'). member_key m = (sc, i, u, lt) \<and> m_expires_at m = ex"
    "{m \<in> set (memberships db'). member_key m \<noteq> (sc, i, u, lt)} = {m \<in> set (memberships db). member_key m \<noteq> (sc, i, u, lt)}"
proof -
  from assms obtain i where k: "check_key sc raw db = Inr i" by (auto simp: add_membership_def split: if_splits sum.splits)
  then have raw: "raw = Some i" by (auto simp: check_key_def split: if_splits option.splits)
  let ?f = "\<lambda>m. m\<lparr>added_by := who, m_reason := take 500 re, m_expires_at := ex, m_updated_at := t4\<rparr>"
  let ?q = "\<lambda>m. member_key m = (sc, i, u, lt)"
  have key: "member_key (?f m) = member_key m" for m by (simp add: member_key_def)
  obtain row where row: "member_key row = (sc, i, u, lt)" "m_expires_at row = ex" and
    ms: "memberships db' = memberships db @ [row] \<or>
      (\<exists>m \<in> set (memberships db). ?q m) \<and> memberships db' = tbl_update ?q ?f (memberships db)"
    and ps: "policies db' = policies (ensure sc i t1 t2 db)"
  proof (cases "tbl_one ?q (memberships db)")
    case None
    with assms k show ?thesis
      by (intro that [of "\<lparr>m_scope = sc, m_resource = i, m_user = u, list_type = lt, added_by = who, m_reason = take 500 re,
          m_expires_at = ex, m_created_at = t3, m_updated_at = t4\<rparr>"])
        (auto simp: add_membership_def Let_def member_key_def split: if_splits)
  next
    case (Some m)
    with assms k tbl_one_SomeD [OF Some] show ?thesis
      by (intro that [of "?f m"]) (auto simp: add_membership_def Let_def key split: if_splits)
  qed
  have "get_policy sc' j db' = get_policy sc' j (ensure sc i t1 t2 db)" by (simp add: get_policy_def ps)
  then have md: "mode (get_policy sc' j db') = mode (get_policy sc' j db)" by (simp add: get_policy_ensure)
  have "\<exists>m \<in> set (memberships db'). ?q m \<and> m_expires_at m = ex"
    using ms
  proof (elim disjE conjE bexE)
    fix m assume "m \<in> set (memberships db)" "?q m" "memberships db' = tbl_update ?q ?f (memberships db)"
    then have "?f m \<in> set (memberships db')" using tbl_update_hit [where p = ?q and f = ?f] by simp
    then show ?thesis by (rule rev_bexI) (use \<open>?q m\<close> in \<open>simp add: key\<close>)
  qed (use row in simp)
  moreover have "{m \<in> set (memberships db'). \<not> ?q m} = {m \<in> set (memberships db). \<not> ?q m}"
    using ms row(1) by (auto simp: set_tbl_update key split: if_splits)
  ultimately show ?thesis using that [OF raw md] by blast
qed

lemma passes_cong:
  assumes "mode (get_policy sc i db') = mode (get_policy sc i db)"
    and "\<And>lt. {m \<in> set (memberships db'). member_key m = (sc, i, u, lt)} = {m \<in> set (memberships db). member_key m = (sc, i, u, lt)}"
  shows "passes u t db' sc i = passes u t db sc i"
proof -
  have "(\<exists>m \<in> set (memberships db'). member_key m = (sc, i, u, lt) \<and> unexpired t m) \<longleftrightarrow>
      (\<exists>m \<in> set (memberships db). member_key m = (sc, i, u, lt) \<and> unexpired t m)" for lt
    using assms(2) [of lt] by blast
  then show ?thesis by (simp add: passes_def assms(1) Let_def)
qed

subsection \<open>A model that is chosen\<close>

definition choosable :: "access_context \<Rightarrow> surface \<Rightarrow> access_db \<Rightarrow> model_row \<Rightarrow> bool" where
  "choosable ctx s db m \<longleftrightarrow> m \<in> set (models db) \<and> can_use ctx (Some m) s \<and> is_text_model m"

lemma candidates_choosable:
  "m \<in> set (candidates ctx s vision outage loaded db) \<Longrightarrow>
    choosable ctx s db m \<and> (vision \<longrightarrow> supports_vision m) \<and> enrollment m \<noteq> ''new''"
  by (auto simp: candidates_def usable_models_def list_models_def choosable_def)

lemma candidates_distinct:
  assumes "distinct (map model_id (models db))"
  shows "distinct (map model_id (candidates ctx s vision outage loaded db))"
proof -
  have d: "distinct (map model_id (sort_key k ms))" if "distinct (map model_id ms)" for k :: "model_row \<Rightarrow> 'k::linorder" and ms
    using that by (simp add: distinct_map)
  show ?thesis
    unfolding candidates_def usable_models_def list_models_def by (intro d distinct_map_filter assms)
qed

lemma follow_choosable:
  "follow n seen cur fallback ctx s db = Some r \<Longrightarrow> (\<And>f. fallback = Some f \<Longrightarrow> choosable ctx s db f) \<Longrightarrow>
    choosable ctx s db r"
proof (induction n arbitrary: seen cur fallback)
  case (Suc n)
  have mem: "m \<in> set (models db)" if "catalog_get i db = Some m" for i m
    using tbl_one_SomeD [of _ "models db" m] that by (auto simp: catalog_get_def)
  from Suc.prems(1) consider "fallback = Some r"
    | i m where "catalog_get i db = Some m" "retired_at m \<noteq> None \<or> \<not> is_text_model m \<or> \<not> can_use ctx (Some m) s"
        "follow n (i # seen) m fallback ctx s db = Some r"
    | i m where "catalog_get i db = Some m" "is_text_model m" "can_use ctx (Some m) s"
        "m = r \<or> follow n (i # seen) m (case fallback of None \<Rightarrow> Some m | Some f \<Rightarrow> Some f) ctx s db = Some r"
    by (auto split: option.splits if_splits)
  then show ?case
  proof cases
    case 1
    then show ?thesis using Suc.prems(2) by blast
  next
    case (2 i m)
    from Suc.IH [OF this(3)] Suc.prems(2) show ?thesis by blast
  next
    case (3 i m)
    then have m: "choosable ctx s db m" using mem by (simp add: choosable_def)
    from 3(4) show ?thesis
    proof
      assume "follow n (i # seen) m (case fallback of None \<Rightarrow> Some m | Some f \<Rightarrow> Some f) ctx s db = Some r"
      then show ?thesis by (rule Suc.IH) (use m Suc.prems(2) in \<open>auto split: option.splits\<close>)
    qed (use m in simp)
  qed
qed simp

definition selection_ok :: "access_context \<Rightarrow> surface \<Rightarrow> bool \<Rightarrow> access_db \<Rightarrow> selection \<Rightarrow> bool" where
  "selection_ok ctx s vision db sel \<longleftrightarrow>
     (\<forall>m \<in> set (sel_model sel # sel_fallbacks sel). choosable ctx s db m \<and> (vision \<longrightarrow> supports_vision m)) \<and>
     (\<forall>m \<in> set (sel_fallbacks sel). enrollment m \<noteq> ''new'') \<and>
     distinct (map model_id (sel_model sel # sel_fallbacks sel)) \<and> length (sel_fallbacks sel) \<le> 2"

lemma selection_ok_candidates:
  assumes "distinct (map model_id (models db))" and "candidates ctx s vision outage loaded db = x # xs"
    and "sel_model sel = x" "sel_fallbacks sel = take 2 xs"
  shows "selection_ok ctx s vision db sel"
proof -
  have c: "choosable ctx s db m \<and> (vision \<longrightarrow> supports_vision m) \<and> enrollment m \<noteq> ''new''" if "m \<in> set (x # xs)" for m
    using that candidates_choosable [of m ctx s vision outage loaded db] assms(2) by simp
  have "distinct (map model_id (x # xs))" using candidates_distinct [OF assms(1), of ctx s vision outage loaded] assms(2) by simp
  moreover have "distinct (map model_id (take 2 xs))" if "distinct (map model_id xs)" using that by (simp flip: take_map)
  ultimately have "distinct (map model_id (x # take 2 xs))" by (auto dest: in_set_takeD)
  with c show ?thesis by (auto simp: selection_ok_def assms(3,4) dest: in_set_takeD)
qed

lemma replaced_ok:
  assumes "distinct (map model_id (models db))" and "replaced ctx m s vision strict outage loaded db = Inr (Some sel)"
  shows "selection_ok ctx s vision db sel \<and> \<not> strict"
proof -
  let ?o = "candidates ctx s vision outage loaded db"
  have ns: "\<not> strict" using assms(2) by (auto simp: replaced_def Let_def split: if_splits)
  show ?thesis
  proof (cases "\<exists>r. replacement_for m ctx s db = Some r \<and> (vision \<longrightarrow> supports_vision r)")
    case True
    then obtain r where r: "replacement_for m ctx s db = Some r" "vision \<longrightarrow> supports_vision r" by blast
    have "choosable ctx s db r"
      using follow_choosable [of 20 "[model_id m]" m None ctx s db r] r(1) by (simp add: replacement_for_def)
    moreover have sel: "sel_model sel = r" "sel_fallbacks sel = take 2 (filter (\<lambda>x. model_id x \<noteq> model_id r) ?o)"
      using assms(2) r ns by (auto simp: replaced_def Let_def split: if_splits)
    moreover have "distinct (map model_id (take 2 (filter (\<lambda>x. model_id x \<noteq> model_id r) ?o)))"
      using distinct_map_filter [OF candidates_distinct [OF assms(1)]] by (simp flip: take_map)
    ultimately show ?thesis
      using r(2) ns candidates_choosable by (auto simp: selection_ok_def dest!: in_set_takeD)
  next
    case False
    with assms(2) ns obtain x xs where "?o = x # xs" "sel_model sel = x" "sel_fallbacks sel = take 2 xs"
      by (auto simp: replaced_def Let_def split: if_splits option.splits list.splits)
    with selection_ok_candidates [OF assms(1)] ns show ?thesis by blast
  qed
qed

subsection \<open>Properties\<close>

text \<open>
  C21: a model is usable exactly when its gates say so, read from the tables at that time:
  administrators always; anyone else when it is rolled out and every policy that applies
  (its capabilities, its categories on the surface, the model itself) lets the account in;
  nobody without an account.
\<close>

theorem gates_decide:
  assumes "policies_ok (policies db)" and "distinct (map cat_id (categories db))"
  shows "(can_use (load_context (Some u) t db) (Some m) s \<longleftrightarrow>
      role u = ''admin'' \<or>
      is_rolled_out m \<and>
      (is_uncensored m \<longrightarrow> passes (acc_id u) t db ''uncensored'' 0) \<and>
      (is_image_generation m \<longrightarrow> passes (acc_id u) t db ''image_generation'' 0) \<and>
      (\<forall>c \<in> set (categories db). (model_id m, cat_id c) \<in> set (assignments db) \<and> cat_scope c \<in> {surface_text s, ''both''} \<longrightarrow>
         passes (acc_id u) t db ''category'' (cat_id c)) \<and>
      passes (acc_id u) t db ''model'' (model_id m)) \<and>
    \<not> can_use (load_context None t db) x s"
proof -
  have "\<not> can_use (load_context None t db) x s"
    by (simp add: can_use_def model_gates_def load_context_def split: option.splits)
  moreover have "distinct (map policy_key (policies db))" using assms(1) by (simp add: policies_ok_def)
  ultimately show ?thesis using can_use_iff [OF _ assms(2), of u t m s] can_use_admin [of u t db m s] by blast
qed

definition ex_policy :: "string \<Rightarrow> int \<Rightarrow> string \<Rightarrow> bool \<Rightarrow> policy_row" where
  "ex_policy sc i md en = \<lparr>p_scope = sc, p_resource = i, p_mode = md, p_requests = en, p_updated_by = None,
     p_created_at = 0, p_updated_at = 0\<rparr>"

definition ex_model :: model_row where
  "ex_model = \<lparr>model_id = 1, model_name = ''m'', display_name = ''M'', model_backend = ''ollama'', backend_model_name = None,
     backend_available = True, is_rolled_out = True, is_uncensored = True, is_image_generation = False, supports_vision = False,
     embedding_only = False, enrollment = ''reviewed'', failing_at = None, deprecated_at = None, retired_at = None,
     delete_requested_at = None, replacement_id = None, model_order = 0\<rparr>"

definition ex_access :: access_db where
  "ex_access = \<lparr>policies = [ex_policy ''uncensored'' 0 ''deny_except_allowlist'' True, ex_policy ''image_generation'' 0 ''allow_all'' True,
       ex_policy ''custom_personality'' 0 ''allow_except_denylist'' True, ex_policy ''agents'' 0 ''deny_except_allowlist'' True],
     memberships = [], access_requests = [\<lparr>rq_id = 1, rq_scope = ''uncensored'', rq_resource = 0, rq_user = ''ann'',
       use_case = ''Research on safety'', rq_status = ''pending'', admin_message = None, resolved_by = None,
       rq_created_at = 0, resolved_at = None\<rparr>], next_request = 2, models = [ex_model], categories = [], next_category = 1,
     assignments = [], people = [''ann'', ''bob'']\<rparr>"

definition ex_person :: account where
  "ex_person = \<lparr>acc_id = ''ann'', username = ''ann'', password = ''h'', role = ''user'', suspended = False, suspended_until = None,
     last_suspension_at = None, invite_code = None, created_at = 0, last_login_at = None, session_version = 0,
     device_epoch = None, bm_mode_on = False, bm_mode_control = ''site''\<rparr>"

lemmas ex_access_defs = ex_access_def ex_policy_def ex_model_def ex_person_def

lemma ex_access_wf: "access_wf ex_access"
  by (simp add: access_wf_def policies_ok_def requests_ok_def ex_access_defs MODES_def CAPABILITY_SCOPES_def asked_def pending_def)

lemma ex_access_resolved:
  "\<exists>db'. resolve_request 1 ''bob'' True [] 5 5 5 5 5 ex_access = Inr db'"
  by (simp add: resolve_request_def ex_access_defs tbl_simps known_or_null_def Let_def add_membership_def get_policy_def
      policy_of_def check_key_def SCOPES_def CAPABILITY_SCOPES_def LIST_TYPES_def ensure_def)

theorem gates_decide_witness:
  "\<not> can_use (load_context (Some ex_person) 5 ex_access) (Some ex_model) Chat \<and>
    can_use (load_context (Some (ex_person\<lparr>role := ''admin''\<rparr>)) 5 ex_access) (Some ex_model) Chat"
proof -
  have ok: "policies_ok (policies ex_access)" "distinct (map cat_id (categories ex_access))"
    using ex_access_wf by (simp_all add: access_wf_def ex_access_def)
  have "\<not> passes ''ann'' 5 ex_access ''uncensored'' 0"
    by (simp add: passes_def get_policy_def policy_of_def ex_access_defs tbl_simps)
  then show ?thesis
    using gates_decide [OF ok, of ex_person 5 ex_model Chat] gates_decide [OF ok, of "ex_person\<lparr>role := ''admin''\<rparr>" 5 ex_model Chat]
    by (simp add: ex_person_def ex_model_def)
qed

text \<open>Approving a request lets exactly that account through exactly that policy, from then
  on and at every later time, also when an earlier entry had expired; denying it changes
  no decision; and the request cannot be decided again.
\<close>

theorem approval_grants:
  assumes "access_wf db" and "tbl_one (\<lambda>r. rq_id r = rid) (access_requests db) = Some r"
    and "resolve_request rid who ok msg t t1 t2 t3 t4 db = Inr db'"
  shows "(ok \<longrightarrow> passes (rq_user r) now db' (rq_scope r) (rq_resource r)) \<and>
    (\<forall>v sc i. \<not> ok \<or> (sc, i, v) \<noteq> asked r \<longrightarrow> passes v now db' sc i = passes v now db sc i) \<and>
    resolve_request rid who2 ok2 msg2 u u1 u2 u3 u4 db' = Inl Already_Resolved"
proof -
  let ?f = "\<lambda>q. q\<lparr>rq_status := (if ok then ''approved'' else ''denied''),
    admin_message := text_or_none (take 1000 msg), resolved_by := Some who, resolved_at := Some t\<rparr>"
  let ?db1 = "db\<lparr>access_requests := tbl_update (\<lambda>q. rq_id q = rid) ?f (access_requests db)\<rparr>"
  have pol: "get_policy sc i (db\<lparr>access_requests := q\<rparr>) = get_policy sc i db" for sc i q by (simp add: get_policy_def)
  have again: "resolve_request rid who2 ok2 msg2 u u1 u2 u3 u4 db' = Inl Already_Resolved"
  proof -
    have "tbl_one (\<lambda>r. rq_id r = rid) (access_requests db') = Some (?f r)"
      using resolve_request_requests(1) [OF assms(3)] assms(2) by (simp add: tbl_one_update_key)
    then show ?thesis by (simp add: resolve_request_def)
  qed
  have res: "(if \<not> ok then Inr ?db1 else if mode (get_policy (rq_scope r) (rq_resource r) db) = ''allow_except_denylist''
      then Inr (remove_membership (rq_scope r) (rq_resource r) (rq_user r) ''denylist'' ?db1)
      else add_membership (rq_scope r) (Some (rq_resource r)) (rq_user r) ''allowlist'' (Some who)
             ''Approved access request'' None t1 t2 t3 t4 ?db1) = Inr db'"
    using assms(2,3) by (auto simp: resolve_request_def Let_def pol split: if_splits)
  consider (deny) "\<not> ok" "db' = ?db1"
    | (lifted) "ok" "mode (get_policy (rq_scope r) (rq_resource r) db) = ''allow_except_denylist''"
        "db' = remove_membership (rq_scope r) (rq_resource r) (rq_user r) ''denylist'' ?db1"
    | (listed) "ok" "mode (get_policy (rq_scope r) (rq_resource r) db) \<noteq> ''allow_except_denylist''"
        "add_membership (rq_scope r) (Some (rq_resource r)) (rq_user r) ''allowlist'' (Some who)
             ''Approved access request'' None t1 t2 t3 t4 ?db1 = Inr db'"
    using res by (auto split: if_splits)
  then show ?thesis
  proof cases
    case deny
    then have "passes v now db' sc i = passes v now db sc i" for v sc i
      by (intro passes_cong) (simp_all add: pol)
    with deny again show ?thesis by simp
  next
    case lifted
    have md: "mode (get_policy sc i db') = mode (get_policy sc i db)" for sc i
      unfolding lifted(3) by (simp add: get_policy_def remove_membership_def)
    have "passes (rq_user r) now db' (rq_scope r) (rq_resource r)"
      using lifted(2) unfolding passes_def Let_def md by (simp add: lifted(3) remove_membership_def)
    moreover have "passes v now db' sc i = passes v now db sc i" if "(sc, i, v) \<noteq> asked r" for v sc i
      by (rule passes_cong [OF md]) (use that in \<open>auto simp: lifted(3) remove_membership_def asked_def member_key_def\<close>)
    ultimately show ?thesis using lifted(1) again by blast
  next
    case listed
    from listed(3) have md: "mode (get_policy sc i db') = mode (get_policy sc i db)" for sc i
      by (rule add_membership_Inr [of _ _ _ _ _ _ _ _ _ _ _ _ db' sc i]) (simp add: pol)
    obtain i where i: "Some (rq_resource r) = Some i"
      and at_i: "\<exists>m \<in> set (memberships db'). member_key m = (rq_scope r, i, rq_user r, ''allowlist'') \<and> m_expires_at m = None"
        "{m \<in> set (memberships db'). member_key m \<noteq> (rq_scope r, i, rq_user r, ''allowlist'')} =
          {m \<in> set (memberships ?db1). member_key m \<noteq> (rq_scope r, i, rq_user r, ''allowlist'')}"
      by (rule add_membership_Inr [OF listed(3)]) blast
    from i have i: "i = rq_resource r" by simp
    note new = at_i(1) [unfolded i]
    have old: "{m \<in> set (memberships db'). member_key m \<noteq> (rq_scope r, rq_resource r, rq_user r, ''allowlist'')} =
        {m \<in> set (memberships db). member_key m \<noteq> (rq_scope r, rq_resource r, rq_user r, ''allowlist'')}"
      using at_i(2) unfolding i by simp
    have "passes (rq_user r) now db' (rq_scope r) (rq_resource r)"
    proof -
      from new obtain m where "m \<in> set (memberships db')"
        "member_key m = (rq_scope r, rq_resource r, rq_user r, ''allowlist'')" "m_expires_at m = None" by blast
      then have "\<exists>m \<in> set (memberships db'). member_key m = (rq_scope r, rq_resource r, rq_user r, ''allowlist'') \<and> unexpired now m"
        by (intro bexI [of _ m]) (simp_all add: unexpired_def)
      with listed(2) show ?thesis unfolding passes_def Let_def md by simp
    qed
    moreover have "passes v now db' sc i = passes v now db sc i" if "(sc, i, v) \<noteq> asked r" for v sc i
    proof (rule passes_cong [OF md])
      fix lt
      let ?k = "(rq_scope r, rq_resource r, rq_user r, ''allowlist'')"
      have ne: "(sc, i, v, lt) \<noteq> ?k" using that by (auto simp: asked_def)
      have "m \<in> set (memberships db') \<longleftrightarrow> m \<in> set (memberships db)" if "member_key m = (sc, i, v, lt)" for m
      proof -
        have "m \<in> {m \<in> set (memberships db'). member_key m \<noteq> ?k} \<longleftrightarrow> m \<in> {m \<in> set (memberships db). member_key m \<noteq> ?k}"
          by (simp only: old)
        with that ne show ?thesis by (simp only: mem_Collect_eq) simp
      qed
      then show "{m \<in> set (memberships db'). member_key m = (sc, i, v, lt)} = {m \<in> set (memberships db). member_key m = (sc, i, v, lt)}"
        by (intro Collect_cong) blast
    qed
    ultimately show ?thesis using listed(1) again by blast
  qed
qed

theorem approval_grants_witness:
  "\<exists>db'. resolve_request 1 ''bob'' True [] 5 5 5 5 5 ex_access = Inr db' \<and> passes ''ann'' 99 db' ''uncensored'' 0"
proof -
  obtain db' where r: "resolve_request 1 ''bob'' True [] 5 5 5 5 5 ex_access = Inr db'" using ex_access_resolved by blast
  obtain q where "tbl_one (\<lambda>r. rq_id r = 1) (access_requests ex_access) = Some q"
    "rq_user q = ''ann'' \<and> rq_scope q = ''uncensored'' \<and> rq_resource q = 0"
    by (simp add: ex_access_defs tbl_simps)
  with approval_grants [OF ex_access_wf this(1) r, of 99] r show ?thesis by auto
qed

text \<open>Whatever people and administrators do, in any order, the access tables stay valid
  (unique policies, one pending request per person and policy, the capability policies
  kept), every request is decided at most once, and a request of a known account is never
  refused by a constraint of the database.
\<close>

theorem requests_decided_once:
  assumes "access_wf db" and "db' = snd (run_acts access_act as db)"
  shows "access_wf db' \<and>
    length (filter (\<lambda>x. decides (fst x) (snd x) rid) (fst (run_acts access_act as db))) \<le> 1 \<and>
    (u \<in> set (people db') \<longrightarrow> create_request sc raw u uc safe logging t db' \<noteq> Inl Constraint)"
proof (intro conjI impI)
  have wf: "access_wf (snd (run_acts access_act bs d))" if "access_wf d" for bs d
    using that by (induction bs arbitrary: d) (simp_all add: case_prod_beta wf_act)
  show wf': "access_wf db'" using wf [OF assms(1)] assms(2) by simp
  have "open_request rid db \<le> 1"
  proof (cases "next_request db \<le> rid")
    case True
    then have "tbl_count (\<lambda>r. rq_id r = rid \<and> pending r) (access_requests db) = 0"
      using assms(1) by (fastforce simp: tbl_count_0_iff access_wf_def requests_ok_def)
    then show ?thesis by (simp add: open_request_def)
  next
    case False
    have "tbl_count (\<lambda>r. rq_id r = rid \<and> pending r) (access_requests db) \<le> tbl_count (\<lambda>r. rq_id r = rid) (access_requests db)"
      by (rule tbl_count_mono) simp
    also have "\<dots> \<le> 1" using assms(1) by (intro tbl_count_unique) (simp add: access_wf_def requests_ok_def)
    finally show ?thesis using False by (simp add: open_request_def)
  qed
  with request.taken_at_most [of as rid db]
  show "length (filter (\<lambda>x. decides (fst x) (snd x) rid) (fst (run_acts access_act as db))) \<le> 1" by simp
  assume u: "u \<in> set (people db')"
  show "create_request sc raw u uc safe logging t db' \<noteq> Inl Constraint"
  proof
    assume c: "create_request sc raw u uc safe logging t db' = Inl Constraint"
    then obtain i where k: "check_key sc raw db' = Inr i" and on: "requests_enabled (get_policy sc i db')"
      and no: "tbl_one (\<lambda>p. policy_key p = (sc, i)) (policies db') = None"
      using u by (auto simp: create_request_def check_key_def Let_def split: if_splits sum.splits option.splits)
    from on no have "snd (DEFAULTS sc)" by (simp add: get_policy_def default_policy_def)
    then have cap: "sc \<in> set CAPABILITY_SCOPES" by (auto simp: DEFAULTS_def CAPABILITY_SCOPES_def split: if_splits)
    with k have "i = 0" by (auto simp: check_key_def split: if_splits option.splits)
    with wf' cap no show False unfolding tbl_one_policy by (simp add: access_wf_def policies_ok_def)
  qed
qed

theorem requests_decided_once_witness:
  "fst (access_act (Resolve 1 ''bob'' True [] 5 5 5 5 5) ex_access) \<and>
    create_request ''agents'' (Some 0) ''ann'' ''Research on safety'' True True 6 ex_access \<noteq> Inl Constraint"
proof -
  obtain db' where "resolve_request 1 ''bob'' True [] 5 5 5 5 5 ex_access = Inr db'" using ex_access_resolved by blast
  moreover have "''ann'' \<in> set (people ex_access)" by (simp add: ex_access_def)
  ultimately show ?thesis
    using requests_decided_once [OF ex_access_wf, of ex_access "[]" 1 "''ann''" "''agents''" "Some 0" "''Research on safety''" True True 6]
    by simp
qed

text \<open>The model chosen for a request, and each of its fallbacks, is one the account may use
  on that surface: a text model that is offered and served, able to read images when the
  request has some; the fallbacks are reviewed, other models, and at most two. An API
  request that names a model gets that model or an error.
\<close>

theorem selection_usable:
  assumes "distinct (map model_id (models db))" and "select_model ctx req s vision strict outage loaded db = Inr sel"
  shows "selection_ok ctx s vision db sel \<and>
    (strict \<and> truthy req \<and> strip (the req) \<notin> {[], ''auto''} \<longrightarrow>
      model_name (sel_model sel) = strip (the req) \<and> sel_fallbacks sel = [])"
proof -
  let ?name = "strip (if truthy req then the req else ''auto'')"
  have pick: "selection_ok ctx s vision db sel"
    if "candidates ctx s vision outage loaded db = x # xs" "sel = plain_selection x (take 2 xs) n" for x xs n
    using selection_ok_candidates [OF assms(1) that(1)] that(2) by (simp add: plain_selection_def)
  show ?thesis
  proof (cases "?name = [] \<or> ?name = ''auto''")
    case True
    then obtain x xs where "candidates ctx s vision outage loaded db = x # xs" "sel = plain_selection x (take 2 xs) None"
      using assms(2) by (auto simp: select_model_def Let_def split: list.splits)
    with pick True show ?thesis by auto
  next
    case False
    define model where "model = (case get_by_name ?name db of None \<Rightarrow> None | Some m \<Rightarrow> if enrollment m = ''ignored'' then None else Some m)"
    consider (instead) x xs n where "\<not> strict" "candidates ctx s vision outage loaded db = x # xs" "sel = plain_selection x (take 2 xs) n"
      | (moved) m where "replaced ctx m s vision strict outage loaded db = Inr (Some sel)"
      | (named) m where "model = Some m" "can_use ctx (Some m) s" "is_text_model m" "vision \<longrightarrow> supports_vision m"
          "sel = plain_selection m [] None"
      using assms(2) False unfolding select_model_def Let_def model_def [symmetric]
      by (auto split: option.splits sum.splits if_splits list.splits)
    then show ?thesis
    proof cases
      case instead
      with pick show ?thesis by blast
    next
      case moved
      with replaced_ok [OF assms(1)] show ?thesis by blast
    next
      case named
      from named(1) have "tbl_one (\<lambda>m. model_name m = ?name) (models db) = Some m"
        by (auto simp: model_def get_by_name_def split: option.splits if_splits)
      from tbl_one_SomeD [OF this] named(2-) show ?thesis
        by (auto simp: selection_ok_def plain_selection_def choosable_def)
    qed
  qed
qed

theorem selection_usable_witness:
  "\<exists>sel. select_model (load_context (Some (ex_person\<lparr>role := ''admin''\<rparr>)) 5 ex_access) (Some '' m '') Api False True False [] ex_access
      = Inr sel \<and> model_name (sel_model sel) = ''m''"
proof -
  let ?ctx = "load_context (Some (ex_person\<lparr>role := ''admin''\<rparr>)) 5 ex_access"
  have m: "strip '' m '' = ''m''" by (simp add: strip_def is_space_def)
  obtain sel where sel: "select_model ?ctx (Some '' m '') Api False True False [] ex_access = Inr sel"
    using can_use_admin [of "ex_person\<lparr>role := ''admin''\<rparr>" 5 ex_access ex_model Api]
    by (simp add: select_model_def m Let_def get_by_name_def ex_access_def tbl_simps replaced_def is_text_model_def offered_def
        plain_selection_def ex_model_def)
  have "distinct (map model_id (models ex_access))" by (simp add: ex_access_def)
  from selection_usable [OF this sel] sel show ?thesis by (simp add: m)
qed

end
