(* ===== verification/Py_Values.thy ===== *)
theory Py_Values
  imports BC_Prelude
begin

section \<open>Values of Python as the code reads them\<close>

text \<open>
  JSON values and the conversions the code applies to them: truth, \<open>dict.get\<close>, \<open>float()\<close>
  with the numbers it refuses, and \<open>round()\<close>. A float is read as the exact rational it
  stands for; \<open>inf\<close> and \<open>nan\<close> are one value (no code here tells them apart).
\<close>

datatype json = J_Null | J_Bool bool | J_Num rat | J_Inf | J_Text string | J_List "json list"
  | J_Object "(string \<times> json) list"

fun json_true :: "json \<Rightarrow> bool" where
  "json_true J_Null = False"
| "json_true (J_Bool b) = b"
| "json_true (J_Num q) = (q \<noteq> 0)"
| "json_true J_Inf = True"
| "json_true (J_Text s) = (s \<noteq> [])"
| "json_true (J_List xs) = (xs \<noteq> [])"
| "json_true (J_Object kvs) = (kvs \<noteq> [])"

definition get_or :: "json \<Rightarrow> string \<Rightarrow> (string \<times> json) list \<Rightarrow> json" where
  "get_or dflt k kvs = (case map_of kvs k of None \<Rightarrow> dflt | Some v \<Rightarrow> v)"

abbreviation get_key :: "string \<Rightarrow> (string \<times> json) list \<Rightarrow> json" where
  "get_key \<equiv> get_or J_Null"

subsection \<open>Numbers\<close>

text \<open>A \<open>float()\<close> that fails (TypeError, ValueError), is finite, is not, or overflows (an integer past the floats).\<close>

datatype py_number = No_Number | Finite rat | Not_Finite | Overflow

text \<open>The first number that rounds to infinity.\<close>

definition FLOAT_END :: rat where "FLOAT_END = 2 ^ 1024 - 2 ^ 970"

fun digits_ok :: "bool \<Rightarrow> string \<Rightarrow> bool" where
  "digits_ok after [] = after"
| "digits_ok after (c # cs) = (if is_digit c then digits_ok True cs else c = CHR ''_'' \<and> after \<and> digits_ok False cs)"

definition digits_value :: "string \<Rightarrow> nat" where
  "digits_value s = foldl (\<lambda>n c. if is_digit c then 10 * n + (of_char c - 48) else n) 0 s"

definition sign_of :: "string \<Rightarrow> bool \<times> string" where
  "sign_of s = (case s of [] \<Rightarrow> (False, []) | c # cs \<Rightarrow>
     if c = CHR ''-'' then (True, cs) else if c = CHR ''+'' then (False, cs) else (False, s))"

definition split_at_char :: "char \<Rightarrow> string \<Rightarrow> string \<times> string option" where
  "split_at_char c s =
     (let a = takeWhile (\<lambda>x. x \<noteq> c) s in (a, if length a = length s then None else Some (drop (Suc (length a)) s)))"

definition float_text :: "string \<Rightarrow> py_number" where
  "float_text text_value =
     (let (neg, s) = sign_of (ascii_lower (strip text_value));
          (mant, ex) = split_at_char (CHR ''e'') s;
          (whole, frac) = split_at_char (CHR ''.'') mant;
          (neg_ex, ex_digits) = (case ex of None \<Rightarrow> (False, ''0'') | Some e \<Rightarrow> sign_of e);
          frac_digits = (case frac of None \<Rightarrow> [] | Some f \<Rightarrow> f);
          ok = digits_ok False ex_digits \<and>
            (case frac of None \<Rightarrow> digits_ok False whole
             | Some f \<Rightarrow> (whole = [] \<or> digits_ok False whole) \<and> (f = [] \<or> digits_ok False f) \<and> (whole \<noteq> [] \<or> f \<noteq> []));
          base = of_nat (digits_value (whole @ frac_digits)) / 10 ^ length (filter is_digit frac_digits);
          q = (if neg_ex then base / 10 ^ digits_value ex_digits else base * 10 ^ digits_value ex_digits)
      in if s \<in> {''inf'', ''infinity'', ''nan''} then Not_Finite
         else if \<not> ok then No_Number
         else if q \<ge> FLOAT_END then Not_Finite
         else Finite (if neg then - q else q))"

fun py_float :: "json \<Rightarrow> py_number" where
  "py_float (J_Bool b) = Finite (of_bool b)"
| "py_float (J_Num q) = (if \<bar>q\<bar> \<ge> FLOAT_END then Overflow else Finite q)"
| "py_float J_Inf = Not_Finite"
| "py_float (J_Text s) = float_text s"
| "py_float _ = No_Number"

text \<open>\<open>round(x)\<close>: to the nearest integer, halves to even; \<open>round(x, n)\<close> on the \<open>n\<close>-th decimal.\<close>

definition py_round :: "rat \<Rightarrow> int" where
  "py_round x =
     (let f = \<lfloor>x\<rfloor>; d = x - of_int f in
      if d < 1 / 2 then f else if d > 1 / 2 then f + 1 else if even f then f else f + 1)"

definition round_to :: "nat \<Rightarrow> rat \<Rightarrow> rat" where
  "round_to n x = of_int (py_round (x * 10 ^ n)) / 10 ^ n"

lemma py_round_of_int [simp]: "py_round (of_int n) = n"
  by (simp add: py_round_def)

lemma py_round_ge: "of_int a \<le> x \<Longrightarrow> a \<le> py_round x"
  using floor_mono [of "of_int a" x] by (auto simp: py_round_def Let_def)

lemma py_round_le: "x \<le> of_int b \<Longrightarrow> py_round x \<le> b"
proof -
  assume x: "x \<le> of_int b"
  show ?thesis
  proof (cases "\<lfloor>x\<rfloor> = b")
    case True
    with x have "x = of_int b" by linarith
    then show ?thesis by simp
  next
    case False
    with x have "\<lfloor>x\<rfloor> < b" by linarith
    then show ?thesis by (auto simp: py_round_def Let_def)
  qed
qed

lemma round_to_idem [simp]: "round_to n (round_to n x) = round_to n x"
  by (simp add: round_to_def)

lemma round_to_ge: "of_int a / 10 ^ n \<le> x \<Longrightarrow> of_int a / 10 ^ n \<le> round_to n x"
  unfolding round_to_def by (intro divide_right_mono) (auto simp: field_simps intro: py_round_ge)

lemma round_to_le: "x \<le> of_int b / 10 ^ n \<Longrightarrow> round_to n x \<le> of_int b / 10 ^ n"
  unfolding round_to_def by (intro divide_right_mono) (auto simp: field_simps intro: py_round_le)

subsection \<open>Lists of results\<close>

text \<open>The first error of a list of checked items, or all their results.\<close>

fun map_results :: "('a \<Rightarrow> 'e + 'b) \<Rightarrow> 'a list \<Rightarrow> 'e + 'b list" where
  "map_results f [] = Inr []"
| "map_results f (x # xs) =
     (case f x of Inl e \<Rightarrow> Inl e
      | Inr y \<Rightarrow> (case map_results f xs of Inl e \<Rightarrow> Inl e | Inr ys \<Rightarrow> Inr (y # ys)))"

lemma map_results_Inr: "map_results f xs = Inr ys \<longleftrightarrow> list_all2 (\<lambda>x y. f x = Inr y) xs ys"
proof (induction xs arbitrary: ys)
  case (Cons x xs)
  then show ?case by (cases ys; cases "f x"; cases "map_results f xs") (auto simp flip: Cons.IH)
qed auto

lemma map_results_map: "(\<And>x. x \<in> set xs \<Longrightarrow> f (g x) = Inr x) \<Longrightarrow> map_results f (map g xs) = Inr xs"
  by (induction xs) simp_all

lemma map_results_mem: "map_results f xs = Inr ys \<Longrightarrow> x \<in> set xs \<Longrightarrow> \<exists>y \<in> set ys. f x = Inr y"
  by (induction xs arbitrary: ys) (auto split: sum.splits)

lemma map_sum_Inr: "map_sum f g x = Inr y \<longleftrightarrow> (\<exists>z. x = Inr z \<and> y = g z)"
  by (cases x) auto

lemma map_sum_Inl: "map_sum f g x = Inl e \<longleftrightarrow> (\<exists>d. x = Inl d \<and> e = f d)"
  by (cases x) auto

end
