(* ===== verification/Limit_Policy.thy ===== *)
theory Limit_Policy
  imports Py_Values
begin

section \<open>Limit policies\<close>

text \<open>
  What bananachat/db/limits.py checks before it stores a limit and how it reads what is
  stored: request-rate rules, the policy of a service (with the conversion of the first
  format from the migration to version 9), the policy of a model with its presets.
  A stored policy is a JSON document or text that does not parse (no document).
\<close>

datatype limit_error = Required string | Must_Be_Number string | Out_Of_Range string rat rat | Not_Whole string
  | Rule_Not_Object | Bad_Unit | Unhashable | Rules_Not_List | Too_Many_Rules | Repeated_Unit | Policy_Not_Object
  | Policy_Sections | No_Rule | Model_Policy_Not_Object | Bad_Effort | Unknown_Preset | Unknown_Pool | No_Such_Model
  | Number_Overflow | Integrity_Error | Unknown_Setting string | Bad_Speed | No_Such_Tier | Unknown_Limit string | Bad_Source
  | Tier_Name | Too_Many_Tiers | Last_Tier | Pool_And_Model | Bad_Scope | Bad_Kind | Extra_Needs_Window | Reason_Too_Long
  | Ends_First | Bad_Grant_State

definition POOLS :: "string list" where "POOLS = [''api'', ''chat'', ''agent'']"
definition SPEEDS :: "string list" where "SPEEDS = [''slow'', ''normal'', ''fast'']"
definition EFFORT_LEVELS :: "string list" where
  "EFFORT_LEVELS = [''off'', ''low'', ''medium'', ''high'', ''extra'', ''max'']"
definition TOKENS_MAX :: rat where "TOKENS_MAX = 2000000000"
definition REQUESTS_MAX :: rat where "REQUESTS_MAX = 1000000"
definition BURST_MAX :: rat where "BURST_MAX = 1000000"
definition RULES_MAX :: nat where "RULES_MAX = 4"
definition WEIGHT_MIN :: rat where "WEIGHT_MIN = 1 / 100"
definition WEIGHT_MAX :: rat where "WEIGHT_MAX = 100"
definition SENSITIVITY_MAX :: rat where "SENSITIVITY_MAX = 5"

definition UNITS :: "string \<rightharpoonup> int" where
  "UNITS = [''second'' \<mapsto> 1, ''minute'' \<mapsto> 60, ''hour'' \<mapsto> 3600, ''day'' \<mapsto> 86400]"

text \<open>Position of an effort level; -1 for an unknown one.\<close>

definition effort_rank :: "string \<Rightarrow> int" where
  "effort_rank level =
     (let level = (if level = ''on'' then ''medium'' else if level = ''xhigh'' then ''extra'' else level);
          before = takeWhile (\<lambda>l. l \<noteq> level) EFFORT_LEVELS
      in if level \<in> set EFFORT_LEVELS then int (length before) else - 1)"

subsection \<open>Numbers\<close>

definition number :: "json \<Rightarrow> string \<Rightarrow> rat \<Rightarrow> rat \<Rightarrow> limit_error + rat" where
  "number v label lo hi =
     (if (case v of J_Bool b \<Rightarrow> True | J_Null \<Rightarrow> True | J_Text t \<Rightarrow> t = [] | _ \<Rightarrow> False) then Inl (Required label)
      else case py_float v of
        No_Number \<Rightarrow> Inl (Must_Be_Number label)
      | Overflow \<Rightarrow> Inl Number_Overflow
      | Not_Finite \<Rightarrow> Inl (Out_Of_Range label lo hi)
      | Finite q \<Rightarrow> if lo \<le> q \<and> q \<le> hi then Inr q else Inl (Out_Of_Range label lo hi))"

definition whole_number :: "json \<Rightarrow> string \<Rightarrow> rat \<Rightarrow> rat \<Rightarrow> limit_error + int" where
  "whole_number v label lo hi =
     (case number v label lo hi of
        Inl e \<Rightarrow> Inl e
      | Inr q \<Rightarrow> if q \<noteq> of_int \<lfloor>q\<rfloor> then Inl (Not_Whole label) else Inr \<lfloor>q\<rfloor>)"

definition tokens_value :: "json \<Rightarrow> string \<Rightarrow> limit_error + int" where
  "tokens_value v label = whole_number v label 0 TOKENS_MAX"

definition optional_tokens :: "json \<Rightarrow> string \<Rightarrow> limit_error + int option" where
  "optional_tokens v label = (if v = J_Null then Inr None else map_sum id Some (tokens_value v label))"

subsection \<open>Request-rate rules\<close>

record rule =
  requests :: int
  per :: string
  burst :: int

definition validate_rule :: "json \<Rightarrow> limit_error + rule" where
  "validate_rule r =
     (case r of
        J_Object kvs \<Rightarrow>
          (case get_key ''per'' kvs of
             J_List xs \<Rightarrow> Inl Unhashable
           | J_Object xs \<Rightarrow> Inl Unhashable
           | J_Text u \<Rightarrow>
               if UNITS u = None then Inl Bad_Unit
               else (case whole_number (get_key ''requests'' kvs) (''Requests per '' @ u) 1 REQUESTS_MAX of
                   Inl e \<Rightarrow> Inl e
                 | Inr n \<Rightarrow>
                     if get_key ''burst'' kvs = J_Null \<or> get_key ''burst'' kvs = J_Text []
                     then Inr \<lparr>requests = n, per = u, burst = n\<rparr>
                     else (case whole_number (get_key ''burst'' kvs) ''Burst'' 1 BURST_MAX of
                         Inl e \<Rightarrow> Inl e | Inr b \<Rightarrow> Inr \<lparr>requests = n, per = u, burst = b\<rparr>))
           | _ \<Rightarrow> Inl Bad_Unit)
      | _ \<Rightarrow> Inl Rule_Not_Object)"

definition unit_seconds :: "rule \<Rightarrow> int" where "unit_seconds r = the (UNITS (per r))"

definition validate_rules :: "json \<Rightarrow> limit_error + rule list" where
  "validate_rules v =
     (case v of
        J_Null \<Rightarrow> Inr []
      | J_List xs \<Rightarrow>
          (case map_results validate_rule xs of
             Inl e \<Rightarrow> Inl e
           | Inr rs \<Rightarrow>
               if RULES_MAX < length rs then Inl Too_Many_Rules
               else if \<not> distinct (map per rs) then Inl Repeated_Unit
               else Inr (sort_key unit_seconds rs))
      | _ \<Rightarrow> Inl Rules_Not_List)"

subsection \<open>The policy of a service\<close>

record section_policy =
  sec_enabled :: bool
  sec_tokens :: int
  sec_dynamic :: bool
  sec_auto_tiers :: bool

record pool_policy =
  rate_enabled :: bool
  rate_rules :: "rule list"
  rate_dynamic :: bool
  window_policy :: section_policy
  weekly_policy :: section_policy

text \<open>A section that is falsy counts as empty.\<close>

definition policy_section :: "string \<Rightarrow> (string \<times> json) list \<Rightarrow> (string \<times> json) list option" where
  "policy_section k config =
     (if \<not> json_true (get_key k config) then Some []
      else case get_key k config of J_Object kvs \<Rightarrow> Some kvs | _ \<Rightarrow> None)"

definition read_section :: "(string \<times> json) list \<Rightarrow> string \<Rightarrow> limit_error + section_policy" where
  "read_section kvs label =
     map_sum id (\<lambda>n. \<lparr>sec_enabled = json_true (get_or (J_Bool False) ''enabled'' kvs), sec_tokens = n,
         sec_dynamic = json_true (get_or (J_Bool False) ''dynamic'' kvs),
         sec_auto_tiers = json_true (get_or (J_Bool False) ''auto_tiers'' kvs)\<rparr>)
       (tokens_value (get_key ''tokens'' kvs) label)"

definition validate_policy :: "json \<Rightarrow> limit_error + pool_policy" where
  "validate_policy c =
     (case c of
        J_Object config \<Rightarrow>
          (case (policy_section ''rate'' config, policy_section ''window'' config, policy_section ''weekly'' config) of
             (Some rate, Some window, Some weekly) \<Rightarrow>
               (case validate_rules (get_key ''rules'' rate) of
                  Inl e \<Rightarrow> Inl e
                | Inr rules \<Rightarrow>
                    let on = json_true (get_or (J_Bool True) ''enabled'' rate) in
                    if on \<and> rules = [] then Inl No_Rule
                    else case read_section window ''Tokens per 5 hours'' of
                      Inl e \<Rightarrow> Inl e
                    | Inr w \<Rightarrow>
                        (case read_section weekly ''Tokens per week'' of
                           Inl e \<Rightarrow> Inl e
                         | Inr k \<Rightarrow> Inr \<lparr>rate_enabled = on, rate_rules = rules,
                             rate_dynamic = json_true (get_or (J_Bool False) ''dynamic'' rate),
                             window_policy = w, weekly_policy = k\<rparr>))
           | _ \<Rightarrow> Inl Policy_Sections)
      | _ \<Rightarrow> Inl Policy_Not_Object)"

text \<open>The document that is stored for a policy.\<close>

definition rule_json :: "rule \<Rightarrow> json" where
  "rule_json r = J_Object [(''requests'', J_Num (of_int (requests r))), (''per'', J_Text (per r)),
     (''burst'', J_Num (of_int (burst r)))]"

definition section_json :: "section_policy \<Rightarrow> json" where
  "section_json s = J_Object [(''enabled'', J_Bool (sec_enabled s)), (''tokens'', J_Num (of_int (sec_tokens s))),
     (''dynamic'', J_Bool (sec_dynamic s)), (''auto_tiers'', J_Bool (sec_auto_tiers s))]"

definition policy_json :: "pool_policy \<Rightarrow> json" where
  "policy_json p = J_Object [(''version'', J_Num 3),
     (''rate'', J_Object [(''enabled'', J_Bool (rate_enabled p)), (''rules'', J_List (map rule_json (rate_rules p))),
        (''dynamic'', J_Bool (rate_dynamic p))]),
     (''window'', section_json (window_policy p)), (''weekly'', section_json (weekly_policy p))]"

definition default_section :: "bool \<Rightarrow> int \<Rightarrow> section_policy" where
  "default_section en n = \<lparr>sec_enabled = en, sec_tokens = n, sec_dynamic = False, sec_auto_tiers = False\<rparr>"

definition default_policies :: "string \<Rightarrow> pool_policy" where
  "default_policies pool =
     (if pool = ''api'' then
        \<lparr>rate_enabled = True, rate_rules = [\<lparr>requests = 1, per = ''second'', burst = 10\<rparr>], rate_dynamic = False,
          window_policy = default_section True 45000, weekly_policy = default_section False 150000\<rparr>
      else if pool = ''chat'' then
        \<lparr>rate_enabled = True, rate_rules = [\<lparr>requests = 1, per = ''second'', burst = 5\<rparr>], rate_dynamic = False,
          window_policy = default_section False 100000, weekly_policy = default_section False 500000\<rparr>
      else
        \<lparr>rate_enabled = True, rate_rules = [\<lparr>requests = 1, per = ''second'', burst = 10\<rparr>], rate_dynamic = False,
          window_policy = default_section False 100000, weekly_policy = default_section False 500000\<rparr>)"

subsection \<open>The first format of a policy\<close>

definition old_rate :: "string \<Rightarrow> (string \<times> json) list" where
  "old_rate pool = [(''enabled'', J_Bool True), (''per_second'', J_Num 1),
     (''burst'', J_Num (if pool = ''chat'' then 5 else 10)), (''dynamic'', J_Bool False)]"

definition old_daily :: "string \<Rightarrow> (string \<times> json) list" where
  "old_daily pool = [(''enabled'', J_Bool (pool = ''api'')), (''credits'', J_Num (if pool = ''api'' then 30 else 100)),
     (''slow_credits'', J_Num (if pool = ''api'' then 15 else 0)), (''dynamic'', J_Bool False), (''auto_tiers'', J_Bool False)]"

definition old_weekly :: "string \<Rightarrow> (string \<times> json) list" where
  "old_weekly pool = [(''enabled'', J_Bool False), (''credits'', J_Num (if pool = ''api'' then 150 else 500)),
     (''dynamic'', J_Bool False), (''auto_tiers'', J_Bool False)]"

definition old_number :: "json \<Rightarrow> rat \<Rightarrow> limit_error + rat" where
  "old_number v fallback =
     (case py_float v of Finite q \<Rightarrow> Inr q | Overflow \<Rightarrow> Inl Number_Overflow | _ \<Rightarrow> Inr fallback)"

fun old_rule_in :: "(string \<times> int) list \<Rightarrow> rat \<Rightarrow> int \<Rightarrow> rule" where
  "old_rule_in [] ps b = \<lparr>requests = max 1 (py_round (ps * 86400)), per = ''day'', burst = b\<rparr>"
| "old_rule_in ((u, sec) # us) ps b =
     (let count = ps * of_int sec in
      if 1 \<le> count \<and> \<bar>count - of_int (py_round count)\<bar> \<le> max (1 / 100) (count * (5 / 1000))
      then \<lparr>requests = py_round count, per = u, burst = b\<rparr> else old_rule_in us ps b)"

text \<open>\<open>int()\<close> cuts towards zero; the burst is at least one.\<close>

definition old_rule :: "rat \<Rightarrow> rat \<Rightarrow> rule" where
  "old_rule ps b =
     old_rule_in [(''second'', 1), (''minute'', 60), (''hour'', 3600), (''day'', 86400)] ps
       (max 1 (if b < 0 then \<lceil>b\<rceil> else \<lfloor>b\<rfloor>))"

definition over :: "(string \<times> json) list \<Rightarrow> json \<Rightarrow> (string \<times> json) list" where
  "over base v = (case v of J_Object kvs \<Rightarrow> kvs @ base | _ \<Rightarrow> base)"

definition old_section :: "(string \<times> json) list \<Rightarrow> int \<Rightarrow> (string \<times> json) list" where
  "old_section kvs n = [(''enabled'', J_Bool (json_true (get_key ''enabled'' kvs))), (''tokens'', J_Num (of_int n)),
     (''dynamic'', J_Bool (json_true (get_key ''dynamic'' kvs))), (''auto_tiers'', J_Bool (json_true (get_key ''auto_tiers'' kvs)))]"

definition convert_policy :: "string \<Rightarrow> (string \<times> json) list \<Rightarrow> limit_error + (string \<times> json) list" where
  "convert_policy pool stored =
     (let rate = over (old_rate pool) (get_key ''rate'' stored);
          daily = over (old_daily pool) (get_key ''daily'' stored);
          weekly = over (old_weekly pool) (get_key ''weekly'' stored);
          credits = (\<lambda>base kvs. old_number (get_key ''credits'' kvs)
             (case get_key ''credits'' base of J_Num q \<Rightarrow> q | _ \<Rightarrow> 0))
      in case (old_number (get_key ''per_second'' rate) 1,
               old_number (get_key ''burst'' rate) (if pool = ''chat'' then 5 else 10),
               credits (old_daily pool) daily, old_number (get_key ''slow_credits'' daily) 0,
               credits (old_weekly pool) weekly) of
           (Inr ps, Inr b, Inr dc, Inr sc, Inr wc) \<Rightarrow>
             Inr [(''version'', J_Num 2),
               (''rate'', J_Object [(''enabled'', J_Bool (json_true (get_key ''enabled'' rate))),
                  (''rules'', J_List [rule_json (old_rule (if ps \<le> 0 then 1 else ps) b)]),
                  (''dynamic'', J_Bool (json_true (get_key ''dynamic'' rate)))]),
               (''window'', J_Object ((''slow_tokens'', J_Num (of_int (py_round (sc * 1000)))) #
                  old_section daily (py_round (dc * 1000)))),
               (''weekly'', J_Object (old_section weekly (py_round (wc * 1000))))]
         | _ \<Rightarrow> Inl Number_Overflow)"

text \<open>\<open>upgrade_policy\<close>: no document gives no policy; versions 2 and 3 are read as they are.\<close>

definition upgrade_policy :: "string \<Rightarrow> json option \<Rightarrow> limit_error + (string \<times> json) list option" where
  "upgrade_policy pool stored =
     (case stored of
        Some (J_Object kvs) \<Rightarrow>
          if get_key ''version'' kvs \<in> {J_Num 2, J_Num 3} then Inr (Some kvs)
          else map_sum id Some (convert_policy pool kvs)
      | _ \<Rightarrow> Inr None)"

definition merged :: "string \<Rightarrow> json option \<Rightarrow> limit_error + pool_policy" where
  "merged pool stored =
     (case upgrade_policy pool stored of
        Inl e \<Rightarrow> Inl e
      | Inr up \<Rightarrow>
          let base = (case policy_json (default_policies pool) of J_Object kvs \<Rightarrow> kvs | _ \<Rightarrow> []);
              section = (\<lambda>k. (k, J_Object (over (case get_key k base of J_Object kvs \<Rightarrow> kvs | _ \<Rightarrow> [])
                (case up of None \<Rightarrow> J_Null | Some kvs \<Rightarrow> get_key k kvs))))
          in case validate_policy (J_Object [section ''rate'', section ''window'', section ''weekly'']) of
               Inr p \<Rightarrow> Inr p
             | Inl Unhashable \<Rightarrow> Inl Unhashable
             | Inl Number_Overflow \<Rightarrow> Inl Number_Overflow
             | Inl _ \<Rightarrow> Inr (default_policies pool))"

subsection \<open>Stored policies\<close>

record pool_doc =
  doc_pool :: string
  doc_config :: "json option"
  doc_at :: stamp
  doc_by :: "string option"

record model_doc =
  md_model :: int
  md_config :: "json option"
  md_at :: stamp
  md_by :: "string option"

text \<open>\<open>catalog_presets\<close>: the models with the preset the catalog names for them; \<open>accounts\<close>: the known accounts.\<close>

record policy_db =
  pool_docs :: "pool_doc list"
  model_docs :: "model_doc list"
  catalog_presets :: "(int \<times> string option) list"
  accounts :: "string list"

text \<open>A reference to an account is NULL or an account that exists.\<close>

definition known :: "string option \<Rightarrow> ('a) policy_db_scheme \<Rightarrow> bool" where
  "known who db \<longleftrightarrow> (case who of None \<Rightarrow> True | Some u \<Rightarrow> u \<in> set (accounts db))"

definition get_pool_policy :: "string \<Rightarrow> ('a) policy_db_scheme \<Rightarrow> limit_error + pool_policy" where
  "get_pool_policy pool db =
     (if pool \<notin> set POOLS then Inl Unknown_Pool
      else merged pool (case tbl_one (\<lambda>d. doc_pool d = pool) (pool_docs db) of None \<Rightarrow> None | Some d \<Rightarrow> doc_config d))"

definition set_pool_policy ::
  "string \<Rightarrow> json \<Rightarrow> stamp \<Rightarrow> string option \<Rightarrow> ('a) policy_db_scheme \<Rightarrow> limit_error + (pool_policy \<times> ('a) policy_db_scheme)" where
  "set_pool_policy pool config t who db =
     (if pool \<notin> set POOLS then Inl Unknown_Pool
      else case validate_policy config of
        Inl e \<Rightarrow> Inl e
      | Inr clean \<Rightarrow>
          let doc = Some (policy_json clean) in
          if \<not> known who db then Inl Integrity_Error
          else if tbl_one (\<lambda>d. doc_pool d = pool) (pool_docs db) = None
          then Inr (clean, db\<lparr>pool_docs := pool_docs db @ [\<lparr>doc_pool = pool, doc_config = doc, doc_at = t, doc_by = who\<rparr>]\<rparr>)
          else Inr (clean, db\<lparr>pool_docs := tbl_update (\<lambda>d. doc_pool d = pool)
                 (\<lambda>d. d\<lparr>doc_config := doc, doc_at := t, doc_by := who\<rparr>) (pool_docs db)\<rparr>))"

subsection \<open>The policy of a model\<close>

record model_policy =
  mp_preset :: string
  mp_enabled :: bool
  mp_tokens_enabled :: bool
  mp_rate_enabled :: bool
  mp_effort_gating_off :: bool
  mp_effort_auto_unlock_off :: bool
  mp_weight :: rat
  mp_counts_toward_pool :: "bool option"
  mp_rate_rules :: "rule list"
  mp_window_tokens :: "int option"
  mp_weekly_tokens :: "int option"
  mp_dynamic :: bool
  mp_sensitivity :: rat
  mp_auto_tiers :: bool
  mp_effort_default :: "string option"

definition opt_json :: "('x \<Rightarrow> json) \<Rightarrow> 'x option \<Rightarrow> json" where
  "opt_json f x = (case x of None \<Rightarrow> J_Null | Some y \<Rightarrow> f y)"

definition model_policy_json :: "model_policy \<Rightarrow> json" where
  "model_policy_json p = J_Object [(''preset'', J_Text (mp_preset p)), (''enabled'', J_Bool (mp_enabled p)),
     (''tokens_enabled'', J_Bool (mp_tokens_enabled p)), (''rate_enabled'', J_Bool (mp_rate_enabled p)),
     (''effort_gating_off'', J_Bool (mp_effort_gating_off p)), (''effort_auto_unlock_off'', J_Bool (mp_effort_auto_unlock_off p)),
     (''weight'', J_Num (mp_weight p)), (''counts_toward_pool'', opt_json J_Bool (mp_counts_toward_pool p)),
     (''rate_rules'', J_List (map rule_json (mp_rate_rules p))),
     (''window_tokens'', opt_json (\<lambda>n. J_Num (of_int n)) (mp_window_tokens p)),
     (''weekly_tokens'', opt_json (\<lambda>n. J_Num (of_int n)) (mp_weekly_tokens p)), (''dynamic'', J_Bool (mp_dynamic p)),
     (''sensitivity'', J_Num (mp_sensitivity p)), (''auto_tiers'', J_Bool (mp_auto_tiers p)),
     (''effort_default'', opt_json J_Text (mp_effort_default p))]"

definition default_model_policy :: model_policy where
  "default_model_policy = \<lparr>mp_preset = ''standard'', mp_enabled = False, mp_tokens_enabled = True, mp_rate_enabled = True,
     mp_effort_gating_off = False, mp_effort_auto_unlock_off = False, mp_weight = 1, mp_counts_toward_pool = None,
     mp_rate_rules = [], mp_window_tokens = None, mp_weekly_tokens = None, mp_dynamic = False, mp_sensitivity = 1,
     mp_auto_tiers = False, mp_effort_default = None\<rparr>"

definition PRESETS :: "string list" where "PRESETS = [''light'', ''standard'', ''heavy'']"

text \<open>The values a preset fills in.\<close>

definition preset_values :: "string \<Rightarrow> (string \<times> json) list" where
  "preset_values preset =
     (let light = (\<lambda>w s. [(''weight'', J_Num w), (''sensitivity'', J_Num s), (''enabled'', J_Bool False), (''rate_rules'', J_List []),
            (''window_tokens'', J_Null), (''weekly_tokens'', J_Null), (''dynamic'', J_Bool False), (''effort_default'', J_Null)])
      in if preset = ''light'' then light (1 / 2) (1 / 2)
         else if preset = ''standard'' then light 1 1
         else [(''weight'', J_Num 3), (''sensitivity'', J_Num 2), (''enabled'', J_Bool True),
            (''rate_rules'', J_List [rule_json \<lparr>requests = 6, per = ''minute'', burst = 3\<rparr>,
               rule_json \<lparr>requests = 200, per = ''day'', burst = 200\<rparr>]),
            (''window_tokens'', J_Num 200000), (''weekly_tokens'', J_Null), (''dynamic'', J_Bool True),
            (''effort_default'', J_Text ''low'')])"

definition object_of :: "json \<Rightarrow> (string \<times> json) list" where
  "object_of v = (case v of J_Object kvs \<Rightarrow> kvs | _ \<Rightarrow> [])"

definition effort_value :: "json \<Rightarrow> limit_error + string option" where
  "effort_value v =
     (if v = J_Null \<or> v = J_Text [] then Inr None
      else case v of J_Text l \<Rightarrow> if l \<in> set EFFORT_LEVELS then Inr (Some l) else Inl Bad_Effort | _ \<Rightarrow> Inl Bad_Effort)"

definition preset_value :: "json \<Rightarrow> string" where
  "preset_value v = (case v of J_Text t \<Rightarrow> if t \<in> set PRESETS then t else ''custom'' | _ \<Rightarrow> ''custom'')"

definition validate_model_policy :: "json \<Rightarrow> limit_error + model_policy" where
  "validate_model_policy c =
     (case c of
        J_Object config \<Rightarrow>
          let m = config @ object_of (model_policy_json default_model_policy);
              flag = (\<lambda>k. json_true (get_key k m));
              counts = get_key ''counts_toward_pool'' m
          in case effort_value (get_key ''effort_default'' m) of Inl e \<Rightarrow> Inl e
             | Inr lv \<Rightarrow>
          (case number (get_key ''weight'' m) ''Weight'' WEIGHT_MIN WEIGHT_MAX of Inl e \<Rightarrow> Inl e
             | Inr w \<Rightarrow>
          (case validate_rules (get_key ''rate_rules'' m) of Inl e \<Rightarrow> Inl e
             | Inr rs \<Rightarrow>
          (case optional_tokens (get_key ''window_tokens'' m) ''Tokens per 5 hours'' of Inl e \<Rightarrow> Inl e
             | Inr wt \<Rightarrow>
          (case optional_tokens (get_key ''weekly_tokens'' m) ''Tokens per week'' of Inl e \<Rightarrow> Inl e
             | Inr kt \<Rightarrow>
          (case number (get_key ''sensitivity'' m) ''Sensitivity'' 0 SENSITIVITY_MAX of Inl e \<Rightarrow> Inl e
             | Inr s \<Rightarrow>
               Inr \<lparr>mp_preset = preset_value (get_key ''preset'' m),
                 mp_enabled = flag ''enabled'', mp_tokens_enabled = flag ''tokens_enabled'', mp_rate_enabled = flag ''rate_enabled'',
                 mp_effort_gating_off = flag ''effort_gating_off'', mp_effort_auto_unlock_off = flag ''effort_auto_unlock_off'',
                 mp_weight = round_to 2 w, mp_counts_toward_pool = (if counts = J_Null then None else Some (json_true counts)),
                 mp_rate_rules = rs, mp_window_tokens = wt, mp_weekly_tokens = kt, mp_dynamic = flag ''dynamic'',
                 mp_sensitivity = round_to 2 s, mp_auto_tiers = flag ''auto_tiers'', mp_effort_default = lv\<rparr>)))))
      | _ \<Rightarrow> Inl Model_Policy_Not_Object)"

definition preset_policy :: "string \<Rightarrow> model_policy option \<Rightarrow> limit_error + model_policy" where
  "preset_policy preset base =
     (if preset \<notin> set PRESETS then Inl Unknown_Preset
      else validate_model_policy (J_Object ([(''preset'', J_Text preset)] @ preset_values preset @
             object_of (model_policy_json (case base of None \<Rightarrow> default_model_policy | Some b \<Rightarrow> b)))))"

definition model_default :: "string option \<Rightarrow> limit_error + model_policy" where
  "model_default preset =
     preset_policy (case preset of Some p \<Rightarrow> if p \<in> set PRESETS then p else ''standard'' | None \<Rightarrow> ''standard'') None"

text \<open>A stored document that does not validate gives the model's default; \<open>TypeError\<close> and \<open>OverflowError\<close> pass.\<close>

definition model_policy_of :: "string option \<Rightarrow> json option \<Rightarrow> limit_error + model_policy" where
  "model_policy_of preset stored =
     (case stored of
        Some (J_Object kvs) \<Rightarrow>
          (case validate_model_policy (J_Object kvs) of
             Inr p \<Rightarrow> Inr p
           | Inl Unhashable \<Rightarrow> Inl Unhashable
           | Inl Number_Overflow \<Rightarrow> Inl Number_Overflow
           | Inl _ \<Rightarrow> model_default preset)
      | _ \<Rightarrow> model_default preset)"

definition get_model_policy :: "int \<times> string option \<Rightarrow> ('a) policy_db_scheme \<Rightarrow> limit_error + model_policy" where
  "get_model_policy model db =
     model_policy_of (snd model)
       (case tbl_one (\<lambda>d. md_model d = fst model) (model_docs db) of None \<Rightarrow> None | Some d \<Rightarrow> md_config d)"

definition has_model_policy :: "int \<Rightarrow> ('a) policy_db_scheme \<Rightarrow> bool" where
  "has_model_policy i db \<longleftrightarrow> tbl_one (\<lambda>d. md_model d = i) (model_docs db) \<noteq> None"

definition set_model_policy ::
  "int \<Rightarrow> json \<Rightarrow> stamp \<Rightarrow> string option \<Rightarrow> ('a) policy_db_scheme \<Rightarrow> limit_error + (model_policy \<times> ('a) policy_db_scheme)" where
  "set_model_policy i config t who db =
     (case validate_model_policy config of
        Inl e \<Rightarrow> Inl e
      | Inr clean \<Rightarrow>
          let doc = Some (model_policy_json clean) in
          if i \<notin> fst ` set (catalog_presets db) then Inl No_Such_Model
          else if \<not> known who db then Inl Integrity_Error
          else if tbl_one (\<lambda>d. md_model d = i) (model_docs db) = None
          then Inr (clean, db\<lparr>model_docs := model_docs db @ [\<lparr>md_model = i, md_config = doc, md_at = t, md_by = who\<rparr>]\<rparr>)
          else Inr (clean, db\<lparr>model_docs := tbl_update (\<lambda>d. md_model d = i)
                 (\<lambda>d. d\<lparr>md_config := doc, md_at := t, md_by := who\<rparr>) (model_docs db)\<rparr>))"

definition clear_model_policy :: "int \<Rightarrow> ('a) policy_db_scheme \<Rightarrow> bool \<times> ('a) policy_db_scheme" where
  "clear_model_policy i db =
     (tbl_count (\<lambda>d. md_model d = i) (model_docs db) = 1,
      db\<lparr>model_docs := tbl_delete (\<lambda>d. md_model d = i) (model_docs db)\<rparr>)"

subsection \<open>What a checked policy looks like\<close>

definition rule_ok :: "rule \<Rightarrow> bool" where
  "rule_ok r \<longleftrightarrow> UNITS (per r) \<noteq> None \<and> 1 \<le> requests r \<and> of_int (requests r) \<le> REQUESTS_MAX \<and>
     1 \<le> burst r \<and> of_int (burst r) \<le> BURST_MAX"

definition rules_ok :: "rule list \<Rightarrow> bool" where
  "rules_ok rs \<longleftrightarrow> (\<forall>r \<in> set rs. rule_ok r) \<and> length rs \<le> RULES_MAX \<and> distinct (map per rs) \<and> sorted (map unit_seconds rs)"

definition tokens_ok :: "int \<Rightarrow> bool" where
  "tokens_ok n \<longleftrightarrow> 0 \<le> n \<and> of_int n \<le> TOKENS_MAX"

definition policy_ok :: "pool_policy \<Rightarrow> bool" where
  "policy_ok p \<longleftrightarrow> rules_ok (rate_rules p) \<and> (rate_enabled p \<longrightarrow> rate_rules p \<noteq> []) \<and>
     tokens_ok (sec_tokens (window_policy p)) \<and> tokens_ok (sec_tokens (weekly_policy p))"

definition model_policy_ok :: "model_policy \<Rightarrow> bool" where
  "model_policy_ok p \<longleftrightarrow> mp_preset p \<in> set PRESETS \<union> {''custom''} \<and>
     WEIGHT_MIN \<le> mp_weight p \<and> mp_weight p \<le> WEIGHT_MAX \<and> round_to 2 (mp_weight p) = mp_weight p \<and>
     0 \<le> mp_sensitivity p \<and> mp_sensitivity p \<le> SENSITIVITY_MAX \<and> round_to 2 (mp_sensitivity p) = mp_sensitivity p \<and>
     rules_ok (mp_rate_rules p) \<and> (\<forall>n \<in> set_option (mp_window_tokens p) \<union> set_option (mp_weekly_tokens p). tokens_ok n) \<and>
     (\<forall>l \<in> set_option (mp_effort_default p). l \<in> set EFFORT_LEVELS)"

lemmas bound_defs = REQUESTS_MAX_def BURST_MAX_def TOKENS_MAX_def WEIGHT_MIN_def WEIGHT_MAX_def SENSITIVITY_MAX_def

lemma FLOAT_END_big: "2000000000 < FLOAT_END"
  by (simp add: FLOAT_END_def)

lemma number_Inr: "number v label lo hi = Inr q \<Longrightarrow> lo \<le> q \<and> q \<le> hi"
  by (auto simp: number_def split: if_splits py_number.splits)

lemma number_num:
  assumes "lo \<le> q" "q \<le> hi" "0 \<le> lo" "hi \<le> 2000000000"
  shows "number (J_Num q) label lo hi = Inr q"
  using assms FLOAT_END_big by (auto simp: number_def)

lemma whole_number_Inr: "whole_number v label lo hi = Inr n \<Longrightarrow> lo \<le> of_int n \<and> of_int n \<le> hi"
  by (auto simp: whole_number_def dest!: number_Inr split: sum.splits if_splits)

lemma whole_number_num:
  "lo \<le> of_int n \<Longrightarrow> of_int n \<le> hi \<Longrightarrow> 0 \<le> lo \<Longrightarrow> hi \<le> 2000000000 \<Longrightarrow> whole_number (J_Num (of_int n)) label lo hi = Inr n"
  by (simp add: whole_number_def number_num)

lemma tokens_value_iff:
  "tokens_value v label = Inr n \<Longrightarrow> tokens_ok n" "tokens_ok n \<Longrightarrow> tokens_value (J_Num (of_int n)) label = Inr n"
  by (auto simp: tokens_value_def tokens_ok_def dest: whole_number_Inr intro!: whole_number_num) (simp_all add: TOKENS_MAX_def)

lemma validate_rule_ok: "validate_rule v = Inr r \<Longrightarrow> rule_ok r"
  by (auto simp: validate_rule_def rule_ok_def bound_defs dest!: whole_number_Inr split: json.splits if_splits sum.splits)

lemma validate_rule_json: "rule_ok r \<Longrightarrow> validate_rule (rule_json r) = Inr r"
  by (auto simp: validate_rule_def rule_json_def rule_ok_def get_or_def whole_number_num bound_defs)

lemma validate_rules_ok:
  assumes "validate_rules v = Inr rs" shows "rules_ok rs"
proof -
  have "distinct (map per (sort_key unit_seconds qs))" if "distinct (map per qs)" for qs
    using that mset_eq_imp_distinct_iff [of "map per (sort_key unit_seconds qs)" "map per qs"] by simp
  with assms show ?thesis
    by (auto simp: validate_rules_def rules_ok_def map_results_Inr list_all2_conv_all_nth in_set_conv_nth RULES_MAX_def
        dest!: validate_rule_ok split: json.splits if_splits sum.splits)
qed

lemma validate_rules_json: "rules_ok rs \<Longrightarrow> validate_rules (J_List (map rule_json rs)) = Inr rs"
  by (auto simp: validate_rules_def rules_ok_def map_results_map validate_rule_json sort_key_id_if_sorted)

lemma read_section_ok: "read_section kvs label = Inr s \<Longrightarrow> tokens_ok (sec_tokens s)"
  by (cases "tokens_value (get_key ''tokens'' kvs) label") (auto simp: read_section_def dest: tokens_value_iff(1))

lemma validate_policy_ok: "validate_policy c = Inr p \<Longrightarrow> policy_ok p"
  by (auto simp: validate_policy_def policy_ok_def Let_def dest: validate_rules_ok read_section_ok
      split: json.splits option.splits sum.splits if_splits)

lemma optional_tokens_ok: "optional_tokens v label = Inr x \<Longrightarrow> \<forall>n \<in> set_option x. tokens_ok n"
  by (cases "tokens_value v label") (auto simp: optional_tokens_def dest: tokens_value_iff(1) split: if_splits)

lemma effort_value_ok: "effort_value v = Inr x \<Longrightarrow> \<forall>l \<in> set_option x. l \<in> set EFFORT_LEVELS"
  by (auto simp: effort_value_def split: json.splits if_splits)

lemma preset_value_ok: "preset_value v \<in> set PRESETS \<union> {''custom''}"
  by (simp add: preset_value_def split: json.splits)

lemma validate_model_policy_ok:
  assumes "validate_model_policy c = Inr p" shows "model_policy_ok p"
proof -
  from assms obtain m lv w rs wt kt s where vals: "effort_value (get_key ''effort_default'' m) = Inr lv"
      "number (get_key ''weight'' m) ''Weight'' WEIGHT_MIN WEIGHT_MAX = Inr w"
      "validate_rules (get_key ''rate_rules'' m) = Inr rs"
      "optional_tokens (get_key ''window_tokens'' m) ''Tokens per 5 hours'' = Inr wt"
      "optional_tokens (get_key ''weekly_tokens'' m) ''Tokens per week'' = Inr kt"
      "number (get_key ''sensitivity'' m) ''Sensitivity'' 0 SENSITIVITY_MAX = Inr s"
    and p: "mp_preset p = preset_value (get_key ''preset'' m)" "mp_weight p = round_to 2 w" "mp_sensitivity p = round_to 2 s"
      "mp_rate_rules p = rs" "mp_window_tokens p = wt" "mp_weekly_tokens p = kt" "mp_effort_default p = lv"
    by (auto simp: validate_model_policy_def Let_def split: json.splits sum.splits)
  have "WEIGHT_MIN \<le> round_to 2 w \<and> round_to 2 w \<le> WEIGHT_MAX"
    using number_Inr [OF vals(2)] round_to_ge [of 1 2 w] round_to_le [of w 10000 2] by (simp add: bound_defs)
  moreover have "0 \<le> round_to 2 s \<and> round_to 2 s \<le> SENSITIVITY_MAX"
    using number_Inr [OF vals(6)] round_to_ge [of 0 2 s] round_to_le [of s 500 2] by (simp add: bound_defs)
  ultimately show ?thesis
    using effort_value_ok [OF vals(1)] validate_rules_ok [OF vals(3)] optional_tokens_ok [OF vals(4)]
      optional_tokens_ok [OF vals(5)] preset_value_ok [of "get_key ''preset'' m"]
    by (auto simp: model_policy_ok_def p)
qed

text \<open>What was checked once and stored is read back as it was.\<close>

lemma read_section_json:
  assumes "tokens_ok (sec_tokens s)" and "\<And>k. k \<in> {''enabled'', ''tokens'', ''dynamic'', ''auto_tiers''} \<Longrightarrow>
    map_of kvs k = map_of (object_of (section_json s)) k"
  shows "read_section kvs label = Inr s"
proof -
  have "get_or d ''enabled'' kvs = J_Bool (sec_enabled s)" "get_or d ''tokens'' kvs = J_Num (of_int (sec_tokens s))"
    "get_or d ''dynamic'' kvs = J_Bool (sec_dynamic s)" "get_or d ''auto_tiers'' kvs = J_Bool (sec_auto_tiers s)" for d
    using assms(2) by (simp_all add: get_or_def object_of_def section_json_def)
  then show ?thesis by (simp add: read_section_def tokens_value_iff(2) [OF assms(1)])
qed

lemma validate_policy_object:
  assumes ok: "policy_ok p"
    and rate: "get_key ''rate'' config = J_Object rt" "get_key ''rules'' rt = J_List (map rule_json (rate_rules p))"
      "get_or (J_Bool True) ''enabled'' rt = J_Bool (rate_enabled p)" "get_or (J_Bool False) ''dynamic'' rt = J_Bool (rate_dynamic p)"
    and sections: "get_key ''window'' config = J_Object (object_of (section_json (window_policy p)) @ wd)"
      "get_key ''weekly'' config = J_Object (object_of (section_json (weekly_policy p)) @ wk)"
  shows "validate_policy (J_Object config) = Inr p"
proof -
  have tok: "tokens_ok (sec_tokens (window_policy p))" "tokens_ok (sec_tokens (weekly_policy p))"
    and rules: "rules_ok (rate_rules p)" "rate_enabled p \<longrightarrow> rate_rules p \<noteq> []"
    using ok by (simp_all add: policy_ok_def)
  have "read_section (object_of (section_json s) @ kvs) label = Inr s" if "tokens_ok (sec_tokens s)" for s kvs label
    by (rule read_section_json [OF that]) (auto simp: object_of_def section_json_def)
  note read = this [OF tok(1)] this [OF tok(2)]
  have "rt \<noteq> []" using rate(2) by (auto simp: get_or_def)
  moreover have "object_of (section_json s) \<noteq> []" for s by (simp add: object_of_def section_json_def)
  ultimately show ?thesis
    using rules(2) by (simp add: validate_policy_def policy_section_def rate sections read validate_rules_json [OF rules(1)] Let_def)
qed

lemma validate_policy_json:
  assumes "policy_ok p" shows "validate_policy (policy_json p) = Inr p"
  unfolding policy_json_def
  by (rule validate_policy_object [OF assms, of _ "[(''enabled'', J_Bool (rate_enabled p)),
        (''rules'', J_List (map rule_json (rate_rules p))), (''dynamic'', J_Bool (rate_dynamic p))]" "[]" "[]"])
    (simp_all add: get_or_def object_of_def section_json_def)

lemma merged_json:
  assumes "policy_ok p" shows "merged pool (Some (policy_json p)) = Inr p"
proof -
  define base where "base = object_of (policy_json (default_policies pool))"
  define rt where "rt = object_of (get_key ''rate'' (object_of (policy_json p))) @ object_of (get_key ''rate'' base)"
  define wd where "wd = object_of (section_json (window_policy p)) @ object_of (get_key ''window'' base)"
  define wk where "wk = object_of (section_json (weekly_policy p)) @ object_of (get_key ''weekly'' base)"
  have up: "upgrade_policy pool (Some (policy_json p)) = Inr (Some (object_of (policy_json p)))"
    by (simp add: upgrade_policy_def policy_json_def object_of_def get_or_def)
  have eq: "(case v of J_Object kvs \<Rightarrow> kvs | _ \<Rightarrow> []) = object_of v" for v by (simp add: object_of_def)
  have m: "merged pool (Some (policy_json p)) = (case validate_policy (J_Object [(''rate'', J_Object rt), (''window'', J_Object wd),
      (''weekly'', J_Object wk)]) of Inr p \<Rightarrow> Inr p | Inl Unhashable \<Rightarrow> Inl Unhashable | Inl Number_Overflow \<Rightarrow> Inl Number_Overflow
      | Inl _ \<Rightarrow> Inr (default_policies pool))"
    unfolding merged_def up sum.case Let_def eq option.case base_def [symmetric] rt_def wd_def wk_def
    by (simp add: over_def policy_json_def object_of_def get_or_def section_json_def)
  have "validate_policy (J_Object [(''rate'', J_Object rt), (''window'', J_Object wd), (''weekly'', J_Object wk)]) = Inr p"
    by (rule validate_policy_object [OF assms, of _ rt "object_of (get_key ''window'' base)" "object_of (get_key ''weekly'' base)"])
      (simp_all add: get_or_def wd_def wk_def rt_def object_of_def policy_json_def)
  then show ?thesis by (simp add: m)
qed

lemma default_policies_ok: "policy_ok (default_policies pool)"
  by (simp add: default_policies_def policy_ok_def rules_ok_def rule_ok_def tokens_ok_def default_section_def bound_defs
      RULES_MAX_def UNITS_def)

lemma merged_None: "merged pool None = Inr (default_policies pool)"
proof -
  define rt where "rt = [(''enabled'', J_Bool (rate_enabled (default_policies pool))),
    (''rules'', J_List (map rule_json (rate_rules (default_policies pool)))), (''dynamic'', J_Bool (rate_dynamic (default_policies pool)))]"
  have "validate_policy (J_Object [(''rate'', J_Object rt), (''window'', section_json (window_policy (default_policies pool))),
      (''weekly'', section_json (weekly_policy (default_policies pool)))]) = Inr (default_policies pool)"
    by (rule validate_policy_object [where rt = rt and wd = "[]" and wk = "[]"])
      (simp_all add: default_policies_ok get_or_def rt_def object_of_def section_json_def)
  then show ?thesis by (simp add: merged_def upgrade_policy_def policy_json_def over_def get_or_def rt_def section_json_def)
qed

lemma merged_ok: "merged pool stored = Inr p \<Longrightarrow> pool \<in> set POOLS \<Longrightarrow> policy_ok p"
proof -
  assume "merged pool stored = Inr p"
  then show ?thesis
    by (auto simp: merged_def Let_def default_policies_ok dest: validate_policy_ok split: sum.splits limit_error.splits)
qed

lemma validate_model_policy_json:
  assumes "model_policy_ok p" shows "validate_model_policy (model_policy_json p) = Inr p"
proof -
  have tok: "optional_tokens (opt_json (\<lambda>n. J_Num (of_int n)) x) label = Inr x" if "\<forall>n \<in> set_option x. tokens_ok n" for x label
    using that by (cases x) (simp_all add: optional_tokens_def opt_json_def tokens_value_iff(2))
  have num: "number (J_Num (mp_weight p)) ''Weight'' WEIGHT_MIN WEIGHT_MAX = Inr (mp_weight p)"
    "number (J_Num (mp_sensitivity p)) ''Sensitivity'' 0 SENSITIVITY_MAX = Inr (mp_sensitivity p)"
    using assms by (auto simp: model_policy_ok_def bound_defs intro!: number_num)
  have toks: "\<forall>n \<in> set_option (mp_window_tokens p). tokens_ok n" "\<forall>n \<in> set_option (mp_weekly_tokens p). tokens_ok n"
    and rs: "rules_ok (mp_rate_rules p)" and rest: "mp_preset p \<in> set PRESETS \<union> {''custom''}"
    "round_to 2 (mp_weight p) = mp_weight p" "round_to 2 (mp_sensitivity p) = mp_sensitivity p"
    "\<forall>l \<in> set_option (mp_effort_default p). l \<in> set EFFORT_LEVELS"
    using assms by (simp_all add: model_policy_ok_def)
  have "mp_effort_default p \<noteq> Some []" using rest(4) by (auto simp: EFFORT_LEVELS_def)
  with rest num tok [OF toks(1)] tok [OF toks(2)] show ?thesis
    by (cases "mp_effort_default p"; cases "mp_counts_toward_pool p")
      (auto simp: validate_model_policy_def model_policy_json_def get_or_def Let_def validate_rules_json [OF rs] opt_json_def
        effort_value_def preset_value_def)
qed

subsection \<open>Properties\<close>

text \<open>
  C22: a policy that is saved is the one that is read from then on: the service's (or the
  model's) own, with every value as it was checked, and no other policy changes. Whatever
  document is stored, in the present or the first format, the policy read is complete and
  in bounds: at most four rules, one per unit and sorted, and a rule when the rate is on.
\<close>

theorem policy_roundtrip:
  "(set_pool_policy pool config t who db = Inr (p, db1) \<longrightarrow>
      get_pool_policy pool db1 = Inr p \<and> policy_ok p \<and>
      (\<forall>other. other \<noteq> pool \<longrightarrow> get_pool_policy other db1 = get_pool_policy other db)) \<and>
    (set_model_policy i config t who db = Inr (m, db2) \<longrightarrow>
      (\<forall>preset. get_model_policy (i, preset) db2 = Inr m) \<and> model_policy_ok m \<and>
      (\<forall>j preset. j \<noteq> i \<longrightarrow> get_model_policy (j, preset) db2 = get_model_policy (j, preset) db)) \<and>
    (get_pool_policy pool db = Inr q \<longrightarrow> policy_ok q)"
proof (intro conjI impI)
  assume s: "set_pool_policy pool config t who db = Inr (p, db1)"
  then have v: "validate_policy config = Inr p" and known: "pool \<in> set POOLS"
    by (auto simp: set_pool_policy_def Let_def split: if_splits sum.splits)
  show ok: "policy_ok p" using v by (rule validate_policy_ok)
  have "map_option doc_config (tbl_one (\<lambda>d. doc_pool d = other) (pool_docs db1)) =
      (if other = pool then Some (Some (policy_json p)) else map_option doc_config (tbl_one (\<lambda>d. doc_pool d = other) (pool_docs db)))" for other
    using s v by (auto simp: set_pool_policy_def Let_def known tbl_one_append tbl_simps tbl_one_update_key comp_def
        split: if_splits option.splits)
  then have "(case tbl_one (\<lambda>d. doc_pool d = other) (pool_docs db1) of None \<Rightarrow> None | Some d \<Rightarrow> doc_config d) =
      (if other = pool then Some (policy_json p)
       else case tbl_one (\<lambda>d. doc_pool d = other) (pool_docs db) of None \<Rightarrow> None | Some d \<Rightarrow> doc_config d)" for other
    by (auto split: option.splits dest!: spec [of _ other] meta_spec [of _ other])
  then show "get_pool_policy pool db1 = Inr p" and "\<forall>other. other \<noteq> pool \<longrightarrow> get_pool_policy other db1 = get_pool_policy other db"
    by (simp_all add: get_pool_policy_def known merged_json [OF ok])
next
  assume s: "set_model_policy i config t who db = Inr (m, db2)"
  then have v: "validate_model_policy config = Inr m"
    by (auto simp: set_model_policy_def Let_def split: if_splits sum.splits)
  show ok: "model_policy_ok m" using v by (rule validate_model_policy_ok)
  have "map_option md_config (tbl_one (\<lambda>d. md_model d = j) (model_docs db2)) =
      (if j = i then Some (Some (model_policy_json m)) else map_option md_config (tbl_one (\<lambda>d. md_model d = j) (model_docs db)))" for j
    using s v by (auto simp: set_model_policy_def Let_def tbl_one_append tbl_simps tbl_one_update_key comp_def
        split: if_splits option.splits)
  then have doc: "(case tbl_one (\<lambda>d. md_model d = j) (model_docs db2) of None \<Rightarrow> None | Some d \<Rightarrow> md_config d) =
      (if j = i then Some (model_policy_json m)
       else case tbl_one (\<lambda>d. md_model d = j) (model_docs db) of None \<Rightarrow> None | Some d \<Rightarrow> md_config d)" for j
    by (auto split: option.splits dest!: spec [of _ j] meta_spec [of _ j])
  obtain kvs where "model_policy_json m = J_Object kvs" by (simp add: model_policy_json_def)
  then show "\<forall>preset. get_model_policy (i, preset) db2 = Inr m"
    using validate_model_policy_json [OF ok] by (simp add: get_model_policy_def doc model_policy_of_def)
  show "\<forall>j preset. j \<noteq> i \<longrightarrow> get_model_policy (j, preset) db2 = get_model_policy (j, preset) db"
    by (simp add: get_model_policy_def doc)
next
  assume "get_pool_policy pool db = Inr q"
  then show "policy_ok q" by (auto simp: get_pool_policy_def intro: merged_ok split: if_splits)
qed

definition ex_policy_db :: policy_db where
  "ex_policy_db = \<lparr>pool_docs = [\<lparr>doc_pool = ''chat'', doc_config = Some (J_Object [(''rate'', J_Object [(''per_second'', J_Num (1 / 2))])]),
     doc_at = 0, doc_by = None\<rparr>], model_docs = [], catalog_presets = [(1, Some ''heavy'')], accounts = []\<rparr>"

definition ex_pool_policy :: pool_policy where
  "ex_pool_policy = (default_policies ''api'')\<lparr>rate_rules := [\<lparr>requests = 2, per = ''second'', burst = 2\<rparr>]\<rparr>"

lemma ex_validate: "validate_policy (policy_json ex_pool_policy) = Inr ex_pool_policy"
proof (rule validate_policy_json)
  show "policy_ok ex_pool_policy"
    by (simp add: ex_pool_policy_def default_policies_def policy_ok_def rules_ok_def rule_ok_def tokens_ok_def
        default_section_def bound_defs RULES_MAX_def UNITS_def)
qed

theorem policy_roundtrip_witness:
  "\<exists>db1. set_pool_policy ''api'' (policy_json ex_pool_policy) 5 None ex_policy_db = Inr (ex_pool_policy, db1) \<and>
    get_pool_policy ''api'' db1 = Inr ex_pool_policy"
proof -
  obtain db1 where s: "set_pool_policy ''api'' (policy_json ex_pool_policy) 5 None ex_policy_db = Inr (ex_pool_policy, db1)"
    by (simp add: set_pool_policy_def ex_validate POOLS_def Let_def ex_policy_db_def known_def tbl_simps)
  with policy_roundtrip [of "''api''" "policy_json ex_pool_policy" 5 None ex_policy_db ex_pool_policy db1] show ?thesis by blast
qed

end
