(* ===== verification/Rate_Buckets.thy ===== *)
theory Rate_Buckets
  imports BC_Prelude "HOL-Library.Sublist"
begin

section \<open>Request-rate buckets\<close>

text \<open>
  The token buckets of bananachat/db/limits.py: \<open>rate_buckets\<close> has one row per account, scope
  and rule, shared by every process. A bucket is a key with the rule's rate per second and
  its burst; a missing row is a full bucket.
\<close>

record bucket_row =
  b_key :: string
  b_tokens :: rat
  b_at :: epoch

type_synonym bucket = "string \<times> rat \<times> int"

definition bucket_key :: "string \<Rightarrow> string \<Rightarrow> string \<Rightarrow> string" where
  "bucket_key scope user_id rule = scope @ '':'' @ user_id @ '':'' @ rule"

text \<open>The level of a bucket and its time at \<open>now\<close>; a time later than \<open>now\<close> is kept.\<close>

definition bucket_level :: "bucket_row list \<Rightarrow> epoch \<Rightarrow> bucket \<Rightarrow> rat \<times> epoch" where
  "bucket_level rows now b =
     (case b of (key, per_second, burst) \<Rightarrow>
        (case tbl_one (\<lambda>r. b_key r = key) rows of
           None \<Rightarrow> (of_int burst, now)
         | Some r \<Rightarrow> let stamp = max now (b_at r) in
             (min (of_int burst) (b_tokens r + (stamp - b_at r) * per_second), stamp)))"

definition put_bucket :: "string \<times> rat \<times> epoch \<Rightarrow> bucket_row list \<Rightarrow> bucket_row list" where
  "put_bucket e rows =
     (case e of (key, tokens, stamp) \<Rightarrow>
        if tbl_one (\<lambda>r. b_key r = key) rows = None
        then rows @ [\<lparr>b_key = key, b_tokens = tokens, b_at = stamp\<rparr>]
        else tbl_update (\<lambda>r. b_key r = key) (\<lambda>r. r\<lparr>b_tokens := tokens, b_at := stamp\<rparr>) rows)"

text \<open>
  \<open>take_tokens\<close>: whether the request may run, what is left in each bucket with the seconds to
  wait, and the rows. Every bucket is read before any is written; the wait is computed
  after the transaction, so a rate of zero (no answer: ZeroDivisionError) keeps the rows.
\<close>

definition bucket_wait :: "bool \<Rightarrow> epoch \<Rightarrow> bucket \<times> rat \<times> epoch \<Rightarrow> rat \<times> rat" where
  "bucket_wait allowed now e =
     (case e of ((_, per_second, _), tokens, stamp) \<Rightarrow>
        (tokens, if tokens \<ge> 1 \<or> allowed then 0 else (stamp - now) + (1 - tokens) / per_second))"

definition take_tokens ::
  "bucket list \<Rightarrow> epoch \<Rightarrow> bucket_row list \<Rightarrow> (bool \<times> (rat \<times> rat) list) option \<times> bucket_row list" where
  "take_tokens buckets now rows =
     (let found = map (bucket_level rows now) buckets;
          allowed = list_all (\<lambda>e. fst e \<ge> 1) found;
          levels = map (\<lambda>e. (if allowed then fst e - 1 else fst e, snd e)) found;
          rows1 = fold put_bucket (map (\<lambda>(b, e). (fst b, e)) (zip buckets levels)) rows
      in (if \<not> allowed \<and> list_ex (\<lambda>(b, e). fst e < 1 \<and> fst (snd b) = 0) (zip buckets levels) then None
          else Some (allowed, map (bucket_wait allowed now) (zip buckets levels)), rows1))"

definition take_token :: "string \<Rightarrow> rat \<Rightarrow> int \<Rightarrow> epoch \<Rightarrow> bucket_row list \<Rightarrow> (bool \<times> rat \<times> rat) option \<times> bucket_row list" where
  "take_token key per_second burst now rows =
     (case take_tokens [(key, per_second, burst)] now rows of
        (Some (allowed, [r]), rows1) \<Rightarrow> (Some (allowed, r), rows1)
      | (_, rows1) \<Rightarrow> (None, rows1))"

text \<open>\<open>LIKE '%:<user>:%'\<close> with its wild cards escaped: the text occurs, ASCII letters of either case.\<close>

definition like_inside :: "string \<Rightarrow> string \<Rightarrow> bool" where
  "like_inside pattern key = list_ex (prefix (ascii_lower pattern)) (suffixes (ascii_lower key))"

definition clear_buckets :: "string option \<Rightarrow> bucket_row list \<Rightarrow> bucket_row list" where
  "clear_buckets user_id rows =
     (case user_id of
        None \<Rightarrow> []
      | Some u \<Rightarrow> tbl_delete (\<lambda>r. like_inside ('':'' @ u @ '':'') (b_key r)) rows)"

definition purge_buckets :: "rat \<Rightarrow> epoch \<Rightarrow> bucket_row list \<Rightarrow> nat \<times> bucket_row list" where
  "purge_buckets idle now rows =
     (tbl_count (\<lambda>r. b_at r < now - idle) rows, tbl_delete (\<lambda>r. b_at r < now - idle) rows)"

subsection \<open>One bucket among the rows\<close>

definition buckets_ok :: "bucket_row list \<Rightarrow> bool" where
  "buckets_ok rows \<longleftrightarrow> distinct (map b_key rows) \<and> (\<forall>r \<in> set rows. 0 \<le> b_tokens r)"

lemma put_bucket_one:
  "tbl_one (\<lambda>r. b_key r = k) (put_bucket (key, tokens, stamp) rows) =
    (if k = key then Some \<lparr>b_key = key, b_tokens = tokens, b_at = stamp\<rparr> else tbl_one (\<lambda>r. b_key r = k) rows)"
proof (cases "tbl_one (\<lambda>r. b_key r = key) rows")
  case None
  then show ?thesis by (simp add: put_bucket_def tbl_one_append tbl_simps split: option.splits)
next
  case (Some r)
  then have "b_key r = key" by (auto simp: tbl_one_def find_Some_iff)
  with Some show ?thesis
    by (cases r) (simp add: put_bucket_def tbl_one_update_key)
qed

lemma put_bucket_ok:
  assumes "buckets_ok rows" "0 \<le> tokens" shows "buckets_ok (put_bucket (key, tokens, stamp) rows)"
proof -
  have "map b_key (tbl_update (\<lambda>r. b_key r = key) (\<lambda>r. r\<lparr>b_tokens := tokens, b_at := stamp\<rparr>) rows) = map b_key rows"
    by (simp add: tbl_update_def)
  moreover have "tbl_one (\<lambda>r. b_key r = key) rows = None \<Longrightarrow> key \<notin> b_key ` set rows"
    by (auto simp: tbl_one_def find_None_iff)
  ultimately show ?thesis
    using assms by (auto simp: put_bucket_def buckets_ok_def set_tbl_update)
qed

lemma fold_put_one:
  assumes "distinct (map fst es)"
  shows "tbl_one (\<lambda>r. b_key r = k) (fold put_bucket es rows) =
    (case map_of es k of Some (tokens, stamp) \<Rightarrow> Some \<lparr>b_key = k, b_tokens = tokens, b_at = stamp\<rparr>
     | None \<Rightarrow> tbl_one (\<lambda>r. b_key r = k) rows)"
  using assms
proof (induction es arbitrary: rows)
  case (Cons e es)
  obtain key tokens stamp where e: "e = (key, tokens, stamp)" by (cases e) auto
  with Cons.prems have "map_of es key = None" by (auto simp: map_of_eq_None_iff)
  with Cons e show ?case by (auto simp: put_bucket_one split: option.splits)
qed simp

lemma fold_put_ok:
  "buckets_ok rows \<Longrightarrow> (\<forall>e \<in> set es. 0 \<le> fst (snd e)) \<Longrightarrow> buckets_ok (fold put_bucket es rows)"
  by (induction es arbitrary: rows) (auto simp: put_bucket_ok)

lemma bucket_level_pos:
  assumes "buckets_ok rows" "0 \<le> per_second" "0 \<le> burst"
  shows "0 \<le> fst (bucket_level rows now (key, per_second, burst))"
proof (cases "tbl_one (\<lambda>r. b_key r = key) rows")
  case (Some r)
  then have "r \<in> set rows" by (auto simp: tbl_one_def find_Some_iff)
  then have "0 \<le> b_tokens r" using assms(1) by (simp add: buckets_ok_def)
  then show ?thesis using assms Some by (simp add: bucket_level_def Let_def)
qed (use assms in \<open>simp add: bucket_level_def\<close>)

definition allowed_of :: "bucket list \<Rightarrow> epoch \<Rightarrow> bucket_row list \<Rightarrow> bool" where
  "allowed_of buckets now rows \<longleftrightarrow> list_all (\<lambda>b. fst (bucket_level rows now b) \<ge> 1) buckets"

lemma take_tokens_allowed: "fst (take_tokens buckets now rows) = Some (a, res) \<Longrightarrow> a = allowed_of buckets now rows"
  by (auto simp: take_tokens_def Let_def allowed_of_def list_all_iff split: if_splits)

lemma take_tokens_rows:
  assumes "distinct (map fst buckets)"
  shows "tbl_one (\<lambda>r. b_key r = k) (snd (take_tokens buckets now rows)) =
    (case map_of buckets k of
       Some pb \<Rightarrow> (case bucket_level rows now (k, pb) of (tokens, stamp) \<Rightarrow>
         Some \<lparr>b_key = k, b_tokens = tokens - of_bool (allowed_of buckets now rows), b_at = stamp\<rparr>)
     | None \<Rightarrow> tbl_one (\<lambda>r. b_key r = k) rows)"
proof -
  define lv where "lv = (\<lambda>b. (fst (bucket_level rows now b) - of_bool (allowed_of buckets now rows), snd (bucket_level rows now b)))"
  have rows: "snd (take_tokens buckets now rows) = fold put_bucket (map (\<lambda>b. (fst b, lv b)) buckets) rows"
  proof (cases "allowed_of buckets now rows")
    case True
    then have "list_all (\<lambda>e. fst e \<ge> 1) (map (bucket_level rows now) buckets)" by (simp add: allowed_of_def list_all_iff)
    with True show ?thesis by (simp add: take_tokens_def Let_def lv_def zip_map2 zip_same_conv_map comp_def)
  next
    case False
    then have "\<not> list_all (\<lambda>e. fst e \<ge> 1) (map (bucket_level rows now) buckets)" by (simp add: allowed_of_def list_all_iff)
    with False show ?thesis by (simp add: take_tokens_def Let_def lv_def zip_map2 zip_same_conv_map comp_def)
  qed
  have "map_of (map (\<lambda>b. (fst b, lv b)) bs) k = (case map_of bs k of None \<Rightarrow> None | Some pb \<Rightarrow> Some (lv (k, pb)))" for bs
    by (induction bs) auto
  with assms show ?thesis
    by (auto simp: rows fold_put_one comp_def lv_def case_prod_beta split: option.splits)
qed

lemma take_tokens_ok:
  assumes "buckets_ok rows" "\<forall>(key, per_second, burst) \<in> set buckets. 0 \<le> per_second \<and> 0 \<le> burst"
  shows "buckets_ok (snd (take_tokens buckets now rows))"
proof -
  have "0 \<le> fst (bucket_level rows now b)" if "b \<in> set buckets" for b
    using that assms bucket_level_pos [OF assms(1)] by (cases b) auto
  moreover have "allowed_of buckets now rows \<Longrightarrow> 1 \<le> fst (bucket_level rows now b)" if "b \<in> set buckets" for b
    using that by (auto simp: allowed_of_def list_all_iff)
  ultimately show ?thesis
    unfolding take_tokens_def Let_def snd_conv
    by (intro fold_put_ok [OF assms(1)])
      (auto simp: zip_map2 zip_same_conv_map allowed_of_def list_all_iff)
qed

subsection \<open>How many requests pass\<close>

text \<open>
  What may happen to the buckets over time: requests, and purges of idle rows. A purge moves
  the time that later events are at least at; requests may come a little out of order.
\<close>

datatype bucket_event = Take "bucket list" epoch | Purge rat epoch

fun bucket_step :: "bucket_event \<Rightarrow> bucket_row list \<Rightarrow> bucket_row list" where
  "bucket_step (Take buckets now) rows = snd (take_tokens buckets now rows)"
| "bucket_step (Purge idle now) rows = snd (purge_buckets idle now rows)"

text \<open>The requests that name the bucket \<open>key\<close> and were allowed.\<close>

fun passed :: "string \<Rightarrow> bucket_event list \<Rightarrow> bucket_row list \<Rightarrow> nat" where
  "passed key [] rows = 0"
| "passed key (e # es) rows =
     (case e of Take buckets now \<Rightarrow> of_bool (key \<in> fst ` set buckets \<and> allowed_of buckets now rows) | Purge idle now \<Rightarrow> 0) +
     passed key es (bucket_step e rows)"

text \<open>Events from \<open>lo\<close> to \<open>hi\<close> that use the bucket with one rate and burst, and purge only full buckets.\<close>

fun events_ok :: "bucket \<Rightarrow> epoch \<Rightarrow> epoch \<Rightarrow> bucket_event list \<Rightarrow> bool" where
  "events_ok b lo hi [] = True"
| "events_ok b lo hi (Take buckets now # es) =
     (lo \<le> now \<and> now \<le> hi \<and> distinct (map fst buckets) \<and> (\<forall>c \<in> set buckets. 0 \<le> fst (snd c) \<and> 0 \<le> snd (snd c)) \<and>
      (\<forall>c \<in> set buckets. fst c = fst b \<longrightarrow> c = b) \<and> events_ok b lo hi es)"
| "events_ok b lo hi (Purge idle now # es) =
     (lo \<le> now \<and> now \<le> hi \<and> 0 \<le> idle \<and> of_int (snd (snd b)) \<le> idle * fst (snd b) \<and> events_ok b now hi es)"

text \<open>What the bucket can still give until \<open>hi\<close>.\<close>

definition potential :: "bucket \<Rightarrow> epoch \<Rightarrow> epoch \<Rightarrow> bucket_row list \<Rightarrow> rat" where
  "potential b lo hi rows =
     (case b of (key, per_second, burst) \<Rightarrow>
        (case tbl_one (\<lambda>r. b_key r = key) rows of
           None \<Rightarrow> of_int burst + max 0 (hi - lo) * per_second
         | Some r \<Rightarrow> min (of_int burst) (b_tokens r + max 0 (lo - b_at r) * per_second) + max 0 (hi - max lo (b_at r)) * per_second))"

lemma potential_le:
  assumes "0 \<le> per_second" "lo \<le> hi"
  shows "potential (key, per_second, burst) lo hi rows \<le> of_int burst + (hi - lo) * per_second"
proof -
  have "max 0 (hi - max lo t) * per_second \<le> (hi - lo) * per_second" for t
    using assms by (intro mult_right_mono) auto
  then show ?thesis
    using assms by (auto simp: potential_def intro: add_mono split: option.splits)
qed

text \<open>Time that passes turns into tokens, up to the burst.\<close>

lemma refill_split:
  fixes per_second :: rat
  assumes "0 \<le> per_second" "lo \<le> now" "now \<le> hi"
  shows "min b (t + max 0 (now - at0) * per_second) + max 0 (hi - max now at0) * per_second
    \<le> min b (t + max 0 (lo - at0) * per_second) + max 0 (hi - max lo at0) * per_second"
proof (cases "now \<le> at0")
  case False
  have d: "max 0 (now - at0) * per_second = max 0 (lo - at0) * per_second + (now - max lo at0) * per_second"
    using assms False by (simp add: max_def algebra_simps)
  have e: "max 0 (hi - max lo at0) * per_second = (now - max lo at0) * per_second + max 0 (hi - max now at0) * per_second"
    using assms False by (simp add: max_def algebra_simps)
  have "0 \<le> (now - max lo at0) * per_second" using assms False by simp
  then show ?thesis unfolding d e by linarith
qed (use assms in \<open>simp add: max_def\<close>)

lemma potential_take:
  assumes "buckets_ok rows" "0 \<le> per_second" "lo \<le> now" "now \<le> hi" "distinct (map fst buckets)"
    "\<forall>c \<in> set buckets. fst c = key \<longrightarrow> c = (key, per_second, burst)"
  shows "potential (key, per_second, burst) lo hi (snd (take_tokens buckets now rows)) +
      of_bool (key \<in> fst ` set buckets \<and> allowed_of buckets now rows) \<le> potential (key, per_second, burst) lo hi rows"
proof (cases "key \<in> fst ` set buckets")
  case False
  then have "map_of buckets key = None" by (simp add: map_of_eq_None_iff)
  with False show ?thesis by (simp add: potential_def take_tokens_rows [OF assms(5)])
next
  case True
  with assms(6) have "(key, per_second, burst) \<in> set buckets" by force
  with assms(5) have m: "map_of buckets key = Some (per_second, burst)" by (simp add: map_of_eq_Some_iff)
  define a :: rat where "a = of_bool (allowed_of buckets now rows)"
  have row: "tbl_one (\<lambda>r. b_key r = key) (snd (take_tokens buckets now rows)) =
      (case bucket_level rows now (key, per_second, burst) of (tokens, stamp) \<Rightarrow> Some \<lparr>b_key = key, b_tokens = tokens - a, b_at = stamp\<rparr>)"
    by (simp add: take_tokens_rows [OF assms(5)] m a_def)
  show ?thesis
  proof (cases "tbl_one (\<lambda>r. b_key r = key) rows")
    case None
    have "max 0 (hi - now) * per_second \<le> max 0 (hi - lo) * per_second"
      by (rule mult_right_mono) (use assms in auto)
    with None True assms show ?thesis
      by (simp add: potential_def row bucket_level_def flip: a_def)
  next
    case (Some r)
    define m where "m = min (of_int burst) (b_tokens r + (max now (b_at r) - b_at r) * per_second)"
    have new: "tbl_one (\<lambda>r. b_key r = key) (snd (take_tokens buckets now rows)) = Some \<lparr>b_key = key, b_tokens = m - a, b_at = max now (b_at r)\<rparr>"
      by (simp add: row bucket_level_def Some Let_def m_def)
    have ma: "min (of_int burst) (m - a) = m - a" unfolding m_def a_def by (auto simp: min_def)
    have times: "max 0 (lo - max now (b_at r)) = 0" "max lo (max now (b_at r)) = max now (b_at r)" "max 0 (now - b_at r) = max now (b_at r) - b_at r"
      using assms(3) by auto
    have "potential (key, per_second, burst) lo hi (snd (take_tokens buckets now rows)) + a = m + max 0 (hi - max now (b_at r)) * per_second"
      by (simp add: potential_def new times ma)
    also have "\<dots> \<le> potential (key, per_second, burst) lo hi rows"
      using refill_split [OF assms(2-4), of "of_int burst" "b_tokens r" "b_at r"] by (simp only: potential_def Some prod.case option.case times m_def)
    finally show ?thesis using True by (simp add: a_def)
  qed
qed

lemma tbl_one_purge:
  assumes "distinct (map b_key rows)"
  shows "tbl_one (\<lambda>r. b_key r = key) (snd (purge_buckets idle now rows)) =
    (case tbl_one (\<lambda>r. b_key r = key) rows of None \<Rightarrow> None | Some r \<Rightarrow> if b_at r < now - idle then None else Some r)"
  using assms
proof (induction rows)
  case (Cons r rows)
  have "b_key r = key \<Longrightarrow> tbl_one (\<lambda>r. b_key r = key) (tbl_delete q rows) = None" for q
    using Cons.prems by (auto simp: tbl_one_def find_None_iff image_iff)
  with Cons show ?case by (auto simp: purge_buckets_def tbl_simps)
qed (simp add: purge_buckets_def tbl_simps)

lemma potential_purge:
  assumes "buckets_ok rows" "0 \<le> per_second" "0 \<le> burst" "0 \<le> idle" "lo \<le> now" "now \<le> hi" "of_int burst \<le> idle * per_second"
  shows "potential (key, per_second, burst) now hi (snd (purge_buckets idle now rows)) \<le> potential (key, per_second, burst) lo hi rows"
proof (cases "tbl_one (\<lambda>r. b_key r = key) rows")
  case None
  have "(hi - now) * per_second \<le> (hi - lo) * per_second" using assms by (intro mult_right_mono) auto
  with None assms show ?thesis by (simp add: potential_def tbl_one_purge buckets_ok_def)
next
  case (Some r)
  then have pos: "0 \<le> b_tokens r" using assms(1) by (auto simp: tbl_one_def find_Some_iff buckets_ok_def)
  show ?thesis
  proof (cases "b_at r < now - idle")
    case True
    have "idle * per_second \<le> (now - b_at r) * per_second" using True assms(2) by (intro mult_right_mono) auto
    then have "min (of_int burst) (b_tokens r + max 0 (now - b_at r) * per_second) = of_int burst"
      using pos assms(4,7) True by (simp add: max_def)
    with refill_split [OF assms(2,5,6), of "of_int burst" "b_tokens r" "b_at r"] Some True assms show ?thesis
      by (simp add: potential_def tbl_one_purge buckets_ok_def max_def split: if_splits)
  next
    case False
    with Some assms refill_split [OF assms(2,5,6), of "of_int burst" "b_tokens r" "b_at r"] show ?thesis
      by (simp add: potential_def tbl_one_purge buckets_ok_def)
  qed
qed

lemma purge_ok: "buckets_ok rows \<Longrightarrow> buckets_ok (snd (purge_buckets idle now rows))"
  by (auto simp: purge_buckets_def buckets_ok_def tbl_delete_def distinct_map_filter)

lemma potential_pos: "buckets_ok rows \<Longrightarrow> 0 \<le> per_second \<Longrightarrow> 0 \<le> burst \<Longrightarrow> 0 \<le> potential (key, per_second, burst) lo hi rows"
  by (auto simp: potential_def buckets_ok_def tbl_one_def find_Some_iff split: option.splits)

lemma passed_le:
  assumes "buckets_ok rows" "0 \<le> per_second" "0 \<le> burst" "events_ok (key, per_second, burst) lo hi es"
  shows "of_nat (passed key es rows) \<le> potential (key, per_second, burst) lo hi rows"
  using assms
proof (induction es arbitrary: lo rows)
  case Nil
  then show ?case by (simp add: potential_pos)
next
  case (Cons e es)
  show ?case
  proof (cases e)
    case (Take buckets now)
    with Cons.prems have "buckets_ok (snd (take_tokens buckets now rows))" by (intro take_tokens_ok) auto
    with Cons Take have "of_nat (passed key es (snd (take_tokens buckets now rows))) \<le>
        potential (key, per_second, burst) lo hi (snd (take_tokens buckets now rows))" by simp
    also have "\<dots> + of_bool (key \<in> fst ` set buckets \<and> allowed_of buckets now rows) \<le> potential (key, per_second, burst) lo hi rows"
      using Cons.prems Take by (intro potential_take) auto
    finally show ?thesis by (simp add: Take)
  next
    case (Purge idle now)
    with Cons have "of_nat (passed key es (snd (purge_buckets idle now rows))) \<le>
        potential (key, per_second, burst) now hi (snd (purge_buckets idle now rows))" by (simp add: purge_ok)
    also have "\<dots> \<le> potential (key, per_second, burst) lo hi rows"
      using Cons.prems Purge by (intro potential_purge) auto
    finally show ?thesis by (simp add: Purge)
  qed
qed

subsection \<open>How long a refused request waits\<close>

lemma allowed_result: "(\<exists>res. fst (take_tokens buckets now rows) = Some (True, res)) \<longleftrightarrow> allowed_of buckets now rows"
  by (auto simp: take_tokens_def Let_def allowed_of_def list_all_iff)

lemma refused_result:
  assumes "fst (take_tokens buckets now rows) = Some (False, res)"
  shows "res = map (\<lambda>b. bucket_wait False now (b, bucket_level rows now b)) buckets"
  using assms by (auto simp: take_tokens_def Let_def zip_map2 zip_same_conv_map split: if_splits)

lemma refused_rows:
  assumes "distinct (map fst buckets)" "\<not> allowed_of buckets now rows" "(key, per_second, burst) \<in> set buckets"
  shows "tbl_one (\<lambda>r. b_key r = key) (snd (take_tokens buckets now rows)) =
    Some \<lparr>b_key = key, b_tokens = fst (bucket_level rows now (key, per_second, burst)), b_at = snd (bucket_level rows now (key, per_second, burst))\<rparr>"
proof -
  have "map_of buckets key = Some (per_second, burst)" using assms(1,3) by (simp add: map_of_eq_Some_iff)
  then show ?thesis by (simp add: take_tokens_rows [OF assms(1)] assms(2) case_prod_beta)
qed

lemma refused_level:
  assumes "distinct (map fst buckets)" "\<not> allowed_of buckets now rows" "b \<in> set buckets" "0 \<le> fst (snd b)" "now \<le> later"
  shows "bucket_level (snd (take_tokens buckets now rows)) later b = bucket_level rows later b"
proof -
  obtain key per_second burst where b: "b = (key, per_second, burst)" by (cases b) auto
  have r: "0 \<le> per_second" using assms(4) by (simp add: b)
  have m: "min c (min c (t + x * per_second) + y * per_second) = min c (t + (x + y) * per_second)" if "0 \<le> y" for c t x y
    using mult_nonneg_nonneg [OF that r] by (simp add: distrib_right min_def)
  note row = refused_rows [OF assms(1,2), of key per_second burst, OF assms(3) [unfolded b]]
  show ?thesis
  proof (cases "tbl_one (\<lambda>r. b_key r = key) rows")
    case None
    with row assms(5) mult_nonneg_nonneg [OF _ r, of "later - now"] show ?thesis
      by (simp add: b bucket_level_def Let_def max.absorb1)
  next
    case (Some w)
    have t: "max later (max now (b_at w)) = max later (b_at w)" using assms(5) by auto
    have "(max now (b_at w) - b_at w) + (max later (b_at w) - max now (b_at w)) = max later (b_at w) - b_at w" by simp
    then show ?thesis
      using Some row m [of "max later (b_at w) - max now (b_at w)" "of_int burst" "b_tokens w" "max now (b_at w) - b_at w"] assms(5)
      by (simp add: b bucket_level_def Let_def t max.mono)
  qed
qed

lemma refused_wait:
  assumes "distinct (map fst buckets)" "\<not> allowed_of buckets now rows" "b \<in> set buckets" "0 < fst (snd b)" "1 \<le> snd (snd b)" "now \<le> later"
  shows "1 \<le> fst (bucket_level (snd (take_tokens buckets now rows)) later b) \<longleftrightarrow>
    now + snd (bucket_wait False now (b, bucket_level rows now b)) \<le> later"
proof -
  obtain key per_second burst where b: "b = (key, per_second, burst)" by (cases b) auto
  have r: "0 < per_second" "1 \<le> burst" using assms(4,5) by (simp_all add: b)
  obtain tokens stamp where l: "bucket_level rows now b = (tokens, stamp)" by (cases "bucket_level rows now b") auto
  then have le: "now \<le> stamp" by (auto simp: b bucket_level_def Let_def split: option.splits)
  have row: "tbl_one (\<lambda>r. b_key r = key) (snd (take_tokens buckets now rows)) = Some \<lparr>b_key = key, b_tokens = tokens, b_at = stamp\<rparr>"
    using refused_rows [OF assms(1,2), of key per_second burst] assms(3) l by (simp add: b)
  have "1 \<le> fst (bucket_level (snd (take_tokens buckets now rows)) later b) \<longleftrightarrow> 1 \<le> tokens + (max later stamp - stamp) * per_second"
    using r(2) by (simp add: b bucket_level_def row Let_def)
  also have "\<dots> \<longleftrightarrow> (1 - tokens) / per_second \<le> max later stamp - stamp"
    by (simp only: pos_divide_le_eq [OF r(1)]) linarith
  also have "\<dots> \<longleftrightarrow> now + snd (bucket_wait False now (b, bucket_level rows now b)) \<le> later"
  proof (cases "1 \<le> tokens")
    case True
    then have "(1 - tokens) / per_second \<le> 0" using r(1) by (simp add: divide_le_0_iff)
    with True assms(6) show ?thesis by (simp add: bucket_wait_def b l [unfolded b] max_def)
  next
    case False
    then have "0 < (1 - tokens) / per_second" using r(1) by simp
    with False show ?thesis by (simp add: bucket_wait_def b l [unfolded b] max_def) linarith
  qed
  finally show ?thesis .
qed

subsection \<open>Properties\<close>


definition ex_bucket_events :: "bucket_event list" where
  "ex_bucket_events = [Take [(''api:u:60/minute/2'', 1, 2)] 10, Take [(''api:u:60/minute/2'', 1, 2)] 10,
     Take [(''api:u:60/minute/2'', 1, 2)] 10, Purge 4 20, Take [(''api:u:60/minute/2'', 1, 2), (''model1:u:1/day/1'', 1 / 86400, 1)] 20]"


text \<open>
  A refused request spends nothing (every bucket of it is later as if it had not been
  made), and the waits it was told are exact: the same request, with no other in between,
  passes from the moment every wait is over and not a moment before.
\<close>

theorem refusal_exact:
  assumes "distinct (map fst buckets)" "\<forall>b \<in> set buckets. 0 < fst (snd b) \<and> 1 \<le> snd (snd b)"
    and "take_tokens buckets now rows = (Some (False, waits), rows1)" "now \<le> later"
  shows "(\<forall>b \<in> set buckets. bucket_level rows1 later b = bucket_level rows later b) \<and>
    ((\<exists>res. fst (take_tokens buckets later rows1) = Some (True, res)) \<longleftrightarrow> (\<forall>(left, wait) \<in> set waits. now + wait \<le> later))"
proof
  have no: "\<not> allowed_of buckets now rows" using take_tokens_allowed [of buckets now rows False waits] assms(3) by simp
  have rows1: "rows1 = snd (take_tokens buckets now rows)" by (simp add: assms(3))
  show "\<forall>b \<in> set buckets. bucket_level rows1 later b = bucket_level rows later b"
    unfolding rows1 using refused_level [OF assms(1) no _ _ assms(4)] assms(2) by fastforce
  have "allowed_of buckets later rows1 \<longleftrightarrow> (\<forall>b \<in> set buckets. now + snd (bucket_wait False now (b, bucket_level rows now b)) \<le> later)"
    unfolding rows1 allowed_of_def list_all_iff using refused_wait [OF assms(1) no _ _ _ assms(4)] assms(2) by auto
  then show "(\<exists>res. fst (take_tokens buckets later rows1) = Some (True, res)) \<longleftrightarrow> (\<forall>(left, wait) \<in> set waits. now + wait \<le> later)"
    using refused_result [of buckets now rows waits] by (simp add: allowed_result assms(3) case_prod_beta)
qed

theorem refusal_exact_witness:
  "\<exists>waits rows1. take_tokens [(''k'', 1, 1)] 10 [\<lparr>b_key = ''k'', b_tokens = 0, b_at = 9 + 1 / 2\<rparr>] = (Some (False, waits), rows1) \<and>
    ((\<exists>res. fst (take_tokens [(''k'', 1, 1)] 11 rows1) = Some (True, res)) \<longleftrightarrow> (\<forall>(left, wait) \<in> set waits. 10 + wait \<le> 11))"
proof -
  obtain waits rows1 where t: "take_tokens [(''k'', 1, 1)] 10 [\<lparr>b_key = ''k'', b_tokens = 0, b_at = 9 + 1 / 2\<rparr>] = (Some (False, waits), rows1)"
    by (simp add: take_tokens_def bucket_level_def tbl_simps Let_def)
  with refusal_exact [OF _ _ t, of 11] show ?thesis by auto
qed

end
