(* ===== verification/Limit_Store.thy ===== *)
theory Limit_Store
  imports Limit_Policy Rate_Buckets
begin

section \<open>Limits of an account\<close>

text \<open>
  The tables of bananachat/db/limits.py beside the policies, and the operations on them:
  an account's settings, its custom limits per service and per model, its reasoning levels,
  tiers, grants and usage windows. A keyword argument of the code is an entry of a list of
  values; what a form passes is a JSON value that the code checks.
\<close>

definition WINDOW_SECONDS :: int where "WINDOW_SECONDS = 5 * 3600"
definition WEEK_SECONDS :: int where "WEEK_SECONDS = 7 * 86400"
definition MULTIPLIER_MAX :: rat where "MULTIPLIER_MAX = 100"
definition TIER_MULTIPLIER_MAX :: rat where "TIER_MULTIPLIER_MAX = 100"
definition OVERRIDE_WINDOW_MAX :: rat where "OVERRIDE_WINDOW_MAX = TOKENS_MAX * TIER_MULTIPLIER_MAX"
definition TIERS_MAX :: nat where "TIERS_MAX = 20"
definition TIER_NAME_MAX :: nat where "TIER_NAME_MAX = 40"
definition REASON_MAX :: nat where "REASON_MAX = 1000"
definition SCOPES :: "string list" where "SCOPES = [''rate'', ''window'', ''weekly'']"
definition GRANT_KINDS :: "string list" where "GRANT_KINDS = [''unlimited'', ''multiplier'', ''extra'']"
definition EFFORT_SOURCES :: "string list" where "EFFORT_SOURCES = [''admin'', ''request'', ''automatic'']"

record user_limit =
  ul_user :: string
  tier_id :: "int option"
  tier_locked :: bool
  tier_changed_at :: "stamp option"
  dynamic_exempt :: bool
  ul_speed :: string
  usage_reset_at :: "stamp option"
  weekly_reset_at :: "stamp option"
  effort_gating_off :: bool
  effort_auto_unlock_off :: bool
  token_exempt :: bool
  rate_exempt :: bool
  ul_updated :: "stamp \<times> string option"

text \<open>A custom limit of a service; \<open>or_rules\<close> is the stored JSON, \<open>or_automatic\<close> the stored list of names.\<close>

record override_row =
  or_user :: string
  or_pool :: string
  or_rules :: "json option"
  or_window :: "int option"
  or_weekly :: "int option"
  or_updated :: "stamp \<times> string option"
  or_automatic :: "string option"

record model_limit =
  ml_user :: string
  ml_model :: int
  ml_rules :: "json option"
  ml_window :: "int option"
  ml_weekly :: "int option"
  ml_locked :: bool
  ml_token_exempt :: bool
  ml_rate_exempt :: bool
  ml_updated :: "stamp \<times> string option"

record effort_row =
  ef_user :: string
  ef_model :: "int option"
  ef_level :: string
  ef_pinned :: bool
  ef_source :: string
  ef_updated :: "stamp \<times> string option"

record tier =
  t_id :: int
  t_position :: int
  t_name :: string
  t_multiplier :: rat
  t_account_days :: int
  t_active_days :: int
  t_tokens_30d :: rat
  t_clean_days :: int

record grant =
  g_id :: int
  g_user :: "string option"
  g_pool :: "string option"
  g_model :: "int option"
  g_scope :: "string option"
  g_kind :: string
  g_amount :: rat
  g_starts :: stamp
  g_ends :: "stamp option"
  g_reason :: string
  g_created :: "stamp \<times> string option"
  g_revoked :: "(stamp \<times> string option) option"

record window_row =
  w_user :: string
  w_scope :: string
  window_started_at :: "stamp option"
  week_started_at :: "stamp option"

text \<open>\<open>site_resets\<close>: when everyone's 5-hour and weekly usage was last reset.\<close>

record limit_db = policy_db +
  user_limits :: "user_limit list"
  overrides :: "override_row list"
  model_limits :: "model_limit list"
  efforts :: "effort_row list"
  tiers :: "tier list"
  next_tier :: int
  grants :: "grant list"
  next_grant :: int
  windows_tbl :: "window_row list"
  rate_buckets :: "bucket_row list"
  site_resets :: "stamp option \<times> stamp option"

definition model_exists :: "int \<Rightarrow> ('a) policy_db_scheme \<Rightarrow> bool" where
  "model_exists i db \<longleftrightarrow> i \<in> fst ` set (catalog_presets db)"

subsection \<open>Settings\<close>

definition no_settings :: "string \<Rightarrow> user_limit" where
  "no_settings u = \<lparr>ul_user = u, tier_id = None, tier_locked = False, tier_changed_at = None, dynamic_exempt = False,
     ul_speed = ''normal'', usage_reset_at = None, weekly_reset_at = None, effort_gating_off = False,
     effort_auto_unlock_off = False, token_exempt = False, rate_exempt = False, ul_updated = (0, None)\<rparr>"

definition user_settings :: "string \<Rightarrow> ('a) limit_db_scheme \<Rightarrow> user_limit" where
  "user_settings u db =
     (case tbl_one (\<lambda>r. ul_user r = u) (user_limits db) of
        None \<Rightarrow> no_settings u
      | Some r \<Rightarrow> if ul_speed r \<in> set SPEEDS then r else r\<lparr>ul_speed := ''normal''\<rparr>)"

datatype setting = Set_Tier "int option" | Set_Tier_Locked bool | Set_Tier_Changed "stamp option" | Set_Dynamic_Exempt bool
  | Set_Speed string | Set_Usage_Reset "stamp option" | Set_Weekly_Reset "stamp option" | Set_Gating_Off bool
  | Set_Auto_Unlock_Off bool | Set_Token_Exempt bool | Set_Rate_Exempt bool | Set_Other string

fun apply_setting :: "setting \<Rightarrow> user_limit \<Rightarrow> user_limit" where
  "apply_setting (Set_Tier t) r = r\<lparr>tier_id := t\<rparr>"
| "apply_setting (Set_Tier_Locked b) r = r\<lparr>tier_locked := b\<rparr>"
| "apply_setting (Set_Tier_Changed t) r = r\<lparr>tier_changed_at := t\<rparr>"
| "apply_setting (Set_Dynamic_Exempt b) r = r\<lparr>dynamic_exempt := b\<rparr>"
| "apply_setting (Set_Speed s) r = r\<lparr>ul_speed := s\<rparr>"
| "apply_setting (Set_Usage_Reset t) r = r\<lparr>usage_reset_at := t\<rparr>"
| "apply_setting (Set_Weekly_Reset t) r = r\<lparr>weekly_reset_at := t\<rparr>"
| "apply_setting (Set_Gating_Off b) r = r\<lparr>effort_gating_off := b\<rparr>"
| "apply_setting (Set_Auto_Unlock_Off b) r = r\<lparr>effort_auto_unlock_off := b\<rparr>"
| "apply_setting (Set_Token_Exempt b) r = r\<lparr>token_exempt := b\<rparr>"
| "apply_setting (Set_Rate_Exempt b) r = r\<lparr>rate_exempt := b\<rparr>"
| "apply_setting (Set_Other _) r = r"

definition setting_error :: "setting list \<Rightarrow> ('a) limit_db_scheme \<Rightarrow> limit_error option" where
  "setting_error values db =
     (case List.find (\<lambda>v. case v of Set_Other _ \<Rightarrow> True | _ \<Rightarrow> False) values of
        Some (Set_Other name) \<Rightarrow> Some (Unknown_Setting name)
      | _ \<Rightarrow>
          if list_ex (\<lambda>v. case v of Set_Speed s \<Rightarrow> s \<notin> set SPEEDS | _ \<Rightarrow> False) values then Some Bad_Speed
          else if list_ex (\<lambda>v. case v of Set_Tier (Some t) \<Rightarrow> tbl_one (\<lambda>r. t_id r = t) (tiers db) = None | _ \<Rightarrow> False) values
          then Some No_Such_Tier else None)"

definition update_user_settings ::
  "string \<Rightarrow> string option \<Rightarrow> setting list \<Rightarrow> stamp \<Rightarrow> ('a) limit_db_scheme \<Rightarrow> limit_error + ('a) limit_db_scheme" where
  "update_user_settings u who values t db =
     (case setting_error values db of
        Some e \<Rightarrow> Inl e
      | None \<Rightarrow>
          if \<not> known (Some u) db \<or> \<not> known who db then Inl Integrity_Error
          else if tbl_one (\<lambda>r. ul_user r = u) (user_limits db) = None
          then Inr (db\<lparr>user_limits := user_limits db @ [(fold apply_setting values (no_settings u))\<lparr>ul_updated := (t, who)\<rparr>]\<rparr>)
          else Inr (db\<lparr>user_limits := tbl_update (\<lambda>r. ul_user r = u)
                 (\<lambda>r. (fold apply_setting values r)\<lparr>ul_updated := (t, who)\<rparr>) (user_limits db)\<rparr>))"

definition speed_of :: "string \<Rightarrow> ('a) limit_db_scheme \<Rightarrow> string" where
  "speed_of u db = (case tbl_one (\<lambda>r. ul_user r = u) (user_limits db) of None \<Rightarrow> ''normal'' | Some r \<Rightarrow> ul_speed r)"

subsection \<open>Custom limits of a service\<close>

record override =
  o_pool :: string
  o_rules :: "rule list option"
  o_window :: "int option"
  o_weekly :: "int option"
  o_automatic :: "string list"

definition OVERRIDE_FIELDS :: "string list" where
  "OVERRIDE_FIELDS = [''rate_rules'', ''weekly_tokens'', ''window_tokens'']"

definition no_override :: "string \<Rightarrow> override" where
  "no_override pool = \<lparr>o_pool = pool, o_rules = None, o_window = None, o_weekly = None, o_automatic = []\<rparr>"

definition override_empty :: "override \<Rightarrow> bool" where
  "override_empty o1 \<longleftrightarrow> o_rules o1 = None \<and> o_window o1 = None \<and> o_weekly o1 = None"

text \<open>Stored rules that do not validate count as none; \<open>TypeError\<close> and \<open>OverflowError\<close> pass.\<close>

definition rules_column :: "json option \<Rightarrow> limit_error + rule list option" where
  "rules_column raw =
     (case raw of
        Some (J_List xs) \<Rightarrow>
          (case validate_rules (J_List xs) of
             Inr rs \<Rightarrow> Inr (if rs = [] then None else Some rs)
           | Inl Unhashable \<Rightarrow> Inl Unhashable
           | Inl Number_Overflow \<Rightarrow> Inl Number_Overflow
           | Inl _ \<Rightarrow> Inr None)
      | _ \<Rightarrow> Inr None)"

fun split_commas :: "string \<Rightarrow> string list" where
  "split_commas [] = [[]]"
| "split_commas (c # cs) =
     (if c = CHR '','' then [] # split_commas cs
      else case split_commas cs of [] \<Rightarrow> [[c]] | w # ws \<Rightarrow> (c # w) # ws)"

fun join_commas :: "string list \<Rightarrow> string" where
  "join_commas [] = []"
| "join_commas [w] = w"
| "join_commas (w # ws) = w @ CHR '','' # join_commas ws"

text \<open>The names of the floors, in one order (the code has a set and stores it sorted).\<close>

definition automatic_names :: "string option \<Rightarrow> string list" where
  "automatic_names raw =
     filter (\<lambda>n. n \<in> set (split_commas (case raw of None \<Rightarrow> [] | Some s \<Rightarrow> s))) OVERRIDE_FIELDS"

definition automatic_column :: "string list \<Rightarrow> string option" where
  "automatic_column names = (if names = [] then None else Some (join_commas names))"

definition read_override :: "override_row \<Rightarrow> limit_error + override" where
  "read_override r =
     map_sum id (\<lambda>rs. \<lparr>o_pool = or_pool r, o_rules = rs, o_window = or_window r, o_weekly = or_weekly r,
         o_automatic = automatic_names (or_automatic r)\<rparr>) (rules_column (or_rules r))"

definition get_override :: "string \<Rightarrow> string \<Rightarrow> ('a) limit_db_scheme \<Rightarrow> limit_error + override option" where
  "get_override u pool db =
     (case tbl_one (\<lambda>r. or_user r = u \<and> or_pool r = pool) (overrides db) of
        None \<Rightarrow> Inr None
      | Some r \<Rightarrow> map_sum id Some (read_override r))"

text \<open>\<open>get_override(..) or Override(pool)\<close>.\<close>

definition own_override :: "string \<Rightarrow> string \<Rightarrow> ('a) limit_db_scheme \<Rightarrow> limit_error + override" where
  "own_override u pool db =
     map_sum id (\<lambda>x. case x of None \<Rightarrow> no_override pool | Some o1 \<Rightarrow> o1) (get_override u pool db)"

text \<open>The checked values: outer \<open>None\<close>, not given; inner \<open>None\<close>, to be cleared.\<close>

record clean_values =
  c_rules :: "rule list option option"
  c_window :: "int option option"
  c_weekly :: "int option option"

definition clean_rules :: "json \<Rightarrow> limit_error + rule list option" where
  "clean_rules v =
     (if v = J_Null then Inr None else map_sum id (\<lambda>rs. if rs = [] then None else Some rs) (validate_rules v))"

definition clean_tokens :: "json \<Rightarrow> string \<Rightarrow> rat \<Rightarrow> limit_error + int option" where
  "clean_tokens v label hi = (if v = J_Null then Inr None else map_sum id Some (whole_number v label 0 hi))"

fun validate_override :: "(string \<times> json) list \<Rightarrow> limit_error + clean_values" where
  "validate_override [] = Inr \<lparr>c_rules = None, c_window = None, c_weekly = None\<rparr>"
| "validate_override ((name, v) # vs) =
     (if name = ''window_slow_tokens'' then validate_override vs
      else if name = ''rate_rules'' then
        (case clean_rules v of Inl e \<Rightarrow> Inl e | Inr x \<Rightarrow> map_sum id (\<lambda>c. c\<lparr>c_rules := Some x\<rparr>) (validate_override vs))
      else if name = ''window_tokens'' then
        (case clean_tokens v ''Tokens per 5 hours'' OVERRIDE_WINDOW_MAX of
           Inl e \<Rightarrow> Inl e | Inr x \<Rightarrow> map_sum id (\<lambda>c. c\<lparr>c_window := Some x\<rparr>) (validate_override vs))
      else if name = ''weekly_tokens'' then
        (case clean_tokens v ''Tokens per week'' TOKENS_MAX of
           Inl e \<Rightarrow> Inl e | Inr x \<Rightarrow> map_sum id (\<lambda>c. c\<lparr>c_weekly := Some x\<rparr>) (validate_override vs))
      else Inl (Unknown_Limit name))"

definition given_or :: "'x option \<Rightarrow> 'x \<Rightarrow> 'x" where
  "given_or new old = (case new of None \<Rightarrow> old | Some x \<Rightarrow> x)"

text \<open>Whether an amount is a floor after the values are merged.\<close>

definition floor_after :: "bool \<Rightarrow> 'x option option \<Rightarrow> 'x option \<Rightarrow> bool \<Rightarrow> bool" where
  "floor_after automatic given current was =
     (case given of
        None \<Rightarrow> was
      | Some v \<Rightarrow> if v = None \<or> (\<not> automatic \<and> v \<noteq> current) then False else automatic \<or> was)"

definition merge_override :: "bool \<Rightarrow> clean_values \<Rightarrow> override \<Rightarrow> override" where
  "merge_override automatic c o1 =
     \<lparr>o_pool = o_pool o1, o_rules = given_or (c_rules c) (o_rules o1), o_window = given_or (c_window c) (o_window o1),
       o_weekly = given_or (c_weekly c) (o_weekly o1),
       o_automatic = filter (\<lambda>n.
         let was = n \<in> set (o_automatic o1) in
         if n = ''rate_rules'' then floor_after automatic (c_rules c) (o_rules o1) was
         else if n = ''window_tokens'' then floor_after automatic (c_window c) (o_window o1) was
         else floor_after automatic (c_weekly c) (o_weekly o1) was) OVERRIDE_FIELDS\<rparr>"

definition override_row_of :: "string \<Rightarrow> override \<Rightarrow> stamp \<Rightarrow> string option \<Rightarrow> override_row" where
  "override_row_of u o1 t who =
     \<lparr>or_user = u, or_pool = o_pool o1,
       or_rules = (case o_rules o1 of None \<Rightarrow> None | Some rs \<Rightarrow> if rs = [] then None else Some (J_List (map rule_json rs))),
       or_window = o_window o1, or_weekly = o_weekly o1, or_updated = (t, who), or_automatic = automatic_column (o_automatic o1)\<rparr>"

definition put_override :: "override_row \<Rightarrow> override_row list \<Rightarrow> override_row list" where
  "put_override r rows =
     (if tbl_one (\<lambda>s. or_user s = or_user r \<and> or_pool s = or_pool r) rows = None then rows @ [r]
      else tbl_update (\<lambda>s. or_user s = or_user r \<and> or_pool s = or_pool r) (\<lambda>_. r) rows)"

definition set_override ::
  "string \<Rightarrow> string \<Rightarrow> string option \<Rightarrow> bool \<Rightarrow> (string \<times> json) list \<Rightarrow> stamp \<Rightarrow> ('a) limit_db_scheme
    \<Rightarrow> limit_error + (override option \<times> ('a) limit_db_scheme)" where
  "set_override u pool who automatic values t db =
     (if pool \<notin> set POOLS then Inl Unknown_Pool
      else case validate_override values of Inl e \<Rightarrow> Inl e
      | Inr c \<Rightarrow>
     (case own_override u pool db of Inl e \<Rightarrow> Inl e
      | Inr cur \<Rightarrow>
          if c = \<lparr>c_rules = None, c_window = None, c_weekly = None\<rparr> \<and> \<not> override_empty cur then Inr (Some cur, db)
          else
            let merged = merge_override automatic c cur in
            if override_empty merged
            then Inr (None, db\<lparr>overrides := tbl_delete (\<lambda>r. or_user r = u \<and> or_pool r = pool) (overrides db)\<rparr>)
            else if \<not> known (Some u) db \<or> \<not> known who db then Inl Integrity_Error
            else
              let db1 = db\<lparr>overrides := put_override (override_row_of u merged t who) (overrides db)\<rparr>
              in map_sum id (\<lambda>x. (x, db1)) (get_override u pool db1)))"

definition clear_overrides :: "string \<Rightarrow> ('a) limit_db_scheme \<Rightarrow> nat \<times> ('a) limit_db_scheme" where
  "clear_overrides u db =
     (tbl_count (\<lambda>r. or_user r = u) (overrides db), db\<lparr>overrides := tbl_delete (\<lambda>r. or_user r = u) (overrides db)\<rparr>)"

subsection \<open>Custom limits of a model\<close>

record model_override =
  m_rules :: "rule list option"
  m_window :: "int option"
  m_weekly :: "int option"
  m_locked :: bool
  m_token_exempt :: bool
  m_rate_exempt :: bool

definition no_model_override :: model_override where
  "no_model_override = \<lparr>m_rules = None, m_window = None, m_weekly = None, m_locked = False, m_token_exempt = False, m_rate_exempt = False\<rparr>"

definition model_override_empty :: "model_override \<Rightarrow> bool" where
  "model_override_empty m \<longleftrightarrow> m_rules m = None \<and> m_window m = None \<and> m_weekly m = None \<and>
     \<not> (m_locked m \<or> m_token_exempt m \<or> m_rate_exempt m)"

definition read_model_override :: "model_limit \<Rightarrow> limit_error + model_override" where
  "read_model_override r =
     map_sum id (\<lambda>rs. \<lparr>m_rules = rs, m_window = ml_window r, m_weekly = ml_weekly r, m_locked = ml_locked r,
         m_token_exempt = ml_token_exempt r, m_rate_exempt = ml_rate_exempt r\<rparr>) (rules_column (ml_rules r))"

definition get_model_override :: "string \<Rightarrow> int \<Rightarrow> ('a) limit_db_scheme \<Rightarrow> limit_error + model_override option" where
  "get_model_override u i db =
     (case tbl_one (\<lambda>r. ml_user r = u \<and> ml_model r = i) (model_limits db) of
        None \<Rightarrow> Inr None
      | Some r \<Rightarrow> map_sum id Some (read_model_override r))"

definition own_model_override :: "string \<Rightarrow> int \<Rightarrow> ('a) limit_db_scheme \<Rightarrow> limit_error + model_override" where
  "own_model_override u i db =
     map_sum id (\<lambda>x. case x of None \<Rightarrow> no_model_override | Some m \<Rightarrow> m) (get_model_override u i db)"

definition locked_model_ids :: "string \<Rightarrow> ('a) limit_db_scheme \<Rightarrow> int set" where
  "locked_model_ids u db = ml_model ` set (filter (\<lambda>r. ml_user r = u \<and> ml_locked r) (model_limits db))"

record model_values =
  v_rules :: "rule list option option"
  v_window :: "int option option"
  v_weekly :: "int option option"
  v_locked :: "bool option"
  v_token_exempt :: "bool option"
  v_rate_exempt :: "bool option"

definition MODEL_FIELDS :: "string list" where
  "MODEL_FIELDS = [''rate_rules'', ''window_tokens'', ''weekly_tokens'', ''locked'', ''token_exempt'', ''rate_exempt'']"

fun clean_model_values :: "(string \<times> json) list \<Rightarrow> limit_error + model_values" where
  "clean_model_values [] =
     Inr \<lparr>v_rules = None, v_window = None, v_weekly = None, v_locked = None, v_token_exempt = None, v_rate_exempt = None\<rparr>"
| "clean_model_values ((name, v) # vs) =
     (if name = ''rate_rules'' then
        (case clean_rules v of Inl e \<Rightarrow> Inl e | Inr x \<Rightarrow> map_sum id (\<lambda>c. c\<lparr>v_rules := Some x\<rparr>) (clean_model_values vs))
      else if name = ''locked'' then map_sum id (\<lambda>c. c\<lparr>v_locked := Some (json_true v)\<rparr>) (clean_model_values vs)
      else if name = ''token_exempt'' then map_sum id (\<lambda>c. c\<lparr>v_token_exempt := Some (json_true v)\<rparr>) (clean_model_values vs)
      else if name = ''rate_exempt'' then map_sum id (\<lambda>c. c\<lparr>v_rate_exempt := Some (json_true v)\<rparr>) (clean_model_values vs)
      else if name = ''window_tokens'' then
        (case optional_tokens v ''Tokens per 5 hours'' of
           Inl e \<Rightarrow> Inl e | Inr x \<Rightarrow> map_sum id (\<lambda>c. c\<lparr>v_window := Some x\<rparr>) (clean_model_values vs))
      else
        (case optional_tokens v ''Tokens per week'' of
           Inl e \<Rightarrow> Inl e | Inr x \<Rightarrow> map_sum id (\<lambda>c. c\<lparr>v_weekly := Some x\<rparr>) (clean_model_values vs)))"

definition merge_model_override :: "model_values \<Rightarrow> model_override \<Rightarrow> model_override" where
  "merge_model_override c m =
     \<lparr>m_rules = given_or (v_rules c) (m_rules m), m_window = given_or (v_window c) (m_window m),
       m_weekly = given_or (v_weekly c) (m_weekly m), m_locked = given_or (v_locked c) (m_locked m),
       m_token_exempt = given_or (v_token_exempt c) (m_token_exempt m), m_rate_exempt = given_or (v_rate_exempt c) (m_rate_exempt m)\<rparr>"

definition model_limit_of :: "string \<Rightarrow> int \<Rightarrow> model_override \<Rightarrow> stamp \<Rightarrow> string option \<Rightarrow> model_limit" where
  "model_limit_of u i m t who =
     \<lparr>ml_user = u, ml_model = i,
       ml_rules = (case m_rules m of None \<Rightarrow> None | Some rs \<Rightarrow> if rs = [] then None else Some (J_List (map rule_json rs))),
       ml_window = m_window m, ml_weekly = m_weekly m, ml_locked = m_locked m, ml_token_exempt = m_token_exempt m,
       ml_rate_exempt = m_rate_exempt m, ml_updated = (t, who)\<rparr>"

definition put_model_limit :: "model_limit \<Rightarrow> model_limit list \<Rightarrow> model_limit list" where
  "put_model_limit r rows =
     (if tbl_one (\<lambda>s. ml_user s = ml_user r \<and> ml_model s = ml_model r) rows = None then rows @ [r]
      else tbl_update (\<lambda>s. ml_user s = ml_user r \<and> ml_model s = ml_model r) (\<lambda>_. r) rows)"

definition set_model_override ::
  "string \<Rightarrow> int \<Rightarrow> string option \<Rightarrow> (string \<times> json) list \<Rightarrow> stamp \<Rightarrow> ('a) limit_db_scheme
    \<Rightarrow> limit_error + (model_override option \<times> ('a) limit_db_scheme)" where
  "set_model_override u i who values t db =
     (case List.find (\<lambda>n. n \<notin> set MODEL_FIELDS) (map fst values) of
        Some n \<Rightarrow> Inl (Unknown_Limit n)
      | None \<Rightarrow>
     (case clean_model_values values of Inl e \<Rightarrow> Inl e
      | Inr c \<Rightarrow>
          if \<not> model_exists i db then Inl No_Such_Model
          else case own_model_override u i db of Inl e \<Rightarrow> Inl e
      | Inr cur \<Rightarrow>
          let merged = merge_model_override c cur in
          if model_override_empty merged
          then Inr (None, db\<lparr>model_limits := tbl_delete (\<lambda>r. ml_user r = u \<and> ml_model r = i) (model_limits db)\<rparr>)
          else if \<not> known (Some u) db \<or> \<not> known who db then Inl Integrity_Error
          else
            let db1 = db\<lparr>model_limits := put_model_limit (model_limit_of u i merged t who) (model_limits db)\<rparr>
            in map_sum id (\<lambda>x. (x, db1)) (get_model_override u i db1)))"

subsection \<open>Back to the defaults\<close>

definition has_custom_settings :: "user_limit \<Rightarrow> bool" where
  "has_custom_settings r \<longleftrightarrow> ul_speed r \<noteq> ''normal'' \<or> token_exempt r \<or> rate_exempt r"

definition default_setting :: "stamp \<Rightarrow> string option \<Rightarrow> user_limit \<Rightarrow> user_limit" where
  "default_setting t who r = r\<lparr>ul_speed := ''normal'', token_exempt := False, rate_exempt := False, ul_updated := (t, who)\<rparr>"

definition custom_users :: "('a) limit_db_scheme \<Rightarrow> string list" where
  "custom_users db =
     remdups (map or_user (overrides db) @ map ml_user (model_limits db) @ map ul_user (filter has_custom_settings (user_limits db)))"

definition restore_defaults :: "string option \<Rightarrow> string option \<Rightarrow> stamp \<Rightarrow> ('a) limit_db_scheme \<Rightarrow> limit_error + (nat \<times> ('a) limit_db_scheme)" where
  "restore_defaults user who t db =
     (let mine = (\<lambda>r. (case user of None \<Rightarrow> True | Some u \<Rightarrow> ul_user r = u) \<and> has_custom_settings r) in
      if \<not> known who db \<and> list_ex mine (user_limits db) then Inl Integrity_Error
      else case user of
        None \<Rightarrow> Inr (length (custom_users db), db\<lparr>overrides := [], model_limits := [],
            user_limits := tbl_update mine (default_setting t who) (user_limits db)\<rparr>)
      | Some u \<Rightarrow> Inr (if tbl_count (\<lambda>r. or_user r = u) (overrides db) + tbl_count (\<lambda>r. ml_user r = u) (model_limits db) +
              tbl_count mine (user_limits db) = 0 then 0 else 1,
            db\<lparr>overrides := tbl_delete (\<lambda>r. or_user r = u) (overrides db),
               model_limits := tbl_delete (\<lambda>r. ml_user r = u) (model_limits db),
               user_limits := tbl_update mine (default_setting t who) (user_limits db)\<rparr>))"

definition count_custom :: "('a) limit_db_scheme \<Rightarrow> nat" where
  "count_custom db = length (custom_users db)"

subsection \<open>Reasoning levels\<close>

text \<open>The account's levels by model (\<open>None\<close>: all models).\<close>

definition effort_levels :: "string \<Rightarrow> ('a) limit_db_scheme \<Rightarrow> int option \<rightharpoonup> effort_row" where
  "effort_levels u db =
     map_of (rev (map (\<lambda>r. (ef_model r, r)) (filter (\<lambda>r. ef_user r = u \<and> ef_level r \<in> set EFFORT_LEVELS) (efforts db))))"

definition set_effort_level ::
  "string \<Rightarrow> int option \<Rightarrow> string option \<Rightarrow> bool \<Rightarrow> string \<Rightarrow> string option \<Rightarrow> stamp \<Rightarrow> ('a) limit_db_scheme
    \<Rightarrow> limit_error + ('a) limit_db_scheme" where
  "set_effort_level u i level pinned source who t db =
     (if (case level of None \<Rightarrow> False | Some l \<Rightarrow> l \<notin> set EFFORT_LEVELS) then Inl Bad_Effort
      else if source \<notin> set EFFORT_SOURCES then Inl Bad_Source
      else if (case i of None \<Rightarrow> False | Some m \<Rightarrow> \<not> model_exists m db) then Inl No_Such_Model
      else
        let zero = (\<lambda>x. case x of None \<Rightarrow> 0 | Some m \<Rightarrow> m);
            rest = tbl_delete (\<lambda>r. ef_user r = u \<and> zero (ef_model r) = zero i) (efforts db)
        in case level of
             None \<Rightarrow> Inr (db\<lparr>efforts := rest\<rparr>)
           | Some l \<Rightarrow>
               if \<not> known (Some u) db \<or> \<not> known who db then Inl Integrity_Error
               else Inr (db\<lparr>efforts := rest @ [\<lparr>ef_user = u, ef_model = i, ef_level = l, ef_pinned = pinned, ef_source = source,
                      ef_updated = (t, who)\<rparr>]\<rparr>))"

subsection \<open>Tiers\<close>

definition list_tiers :: "('a) limit_db_scheme \<Rightarrow> tier list" where
  "list_tiers db = sort_key (\<lambda>r. (t_position r, t_id r)) (tiers db)"

definition get_tier :: "int \<Rightarrow> ('a) limit_db_scheme \<Rightarrow> tier option" where
  "get_tier i db = tbl_one (\<lambda>r. t_id r = i) (tiers db)"

fun words_from :: "string \<Rightarrow> string \<Rightarrow> string list" where
  "words_from acc [] = (if acc = [] then [] else [acc])"
| "words_from acc (c # cs) =
     (if is_space c then (if acc = [] then words_from [] cs else acc # words_from [] cs) else words_from (acc @ [c]) cs)"

fun join_spaces :: "string list \<Rightarrow> string" where
  "join_spaces [] = []"
| "join_spaces [w] = w"
| "join_spaces (w # ws) = w @ CHR '' '' # join_spaces ws"

text \<open>The values of a form: the name as text, the others as they are given (absent ones count as 0).\<close>

definition validate_tier :: "string option \<Rightarrow> (string \<times> json) list \<Rightarrow> limit_error + tier" where
  "validate_tier name values =
     (let clean = join_spaces (words_from [] (case name of None \<Rightarrow> [] | Some n \<Rightarrow> n));
          amount = (\<lambda>k label hi. whole_number (get_or (J_Num 0) k values) label 0 hi)
      in if clean = [] \<or> TIER_NAME_MAX < length clean then Inl Tier_Name
         else case number (get_key ''multiplier'' values) ''Multiplier'' 0 TIER_MULTIPLIER_MAX of Inl e \<Rightarrow> Inl e
         | Inr m \<Rightarrow> (case amount ''min_account_days'' ''Account age'' 3650 of Inl e \<Rightarrow> Inl e
         | Inr ad \<Rightarrow> (case amount ''min_active_days'' ''Active days'' 30 of Inl e \<Rightarrow> Inl e
         | Inr vd \<Rightarrow> (case tokens_value (get_or (J_Num 0) ''min_tokens_30d'' values) ''Tokens used'' of Inl e \<Rightarrow> Inl e
         | Inr tk \<Rightarrow> (case amount ''clean_days'' ''Days without suspension'' 3650 of Inl e \<Rightarrow> Inl e
         | Inr cd \<Rightarrow> Inr \<lparr>t_id = 0, t_position = 0, t_name = clean, t_multiplier = m, t_account_days = ad, t_active_days = vd,
               t_tokens_30d = of_int tk, t_clean_days = cd\<rparr>)))))"

definition create_tier :: "string option \<Rightarrow> (string \<times> json) list \<Rightarrow> ('a) limit_db_scheme \<Rightarrow> limit_error + (int \<times> ('a) limit_db_scheme)" where
  "create_tier name values db =
     (case validate_tier name values of Inl e \<Rightarrow> Inl e
      | Inr c \<Rightarrow>
          if TIERS_MAX \<le> length (tiers db) then Inl Too_Many_Tiers
          else let pos = (if tiers db = [] then - 1 else Max (set (map t_position (tiers db)))) + 1
            in Inr (next_tier db, db\<lparr>tiers := tiers db @ [c\<lparr>t_id := next_tier db, t_position := pos\<rparr>], next_tier := next_tier db + 1\<rparr>))"

definition update_tier :: "int \<Rightarrow> string option \<Rightarrow> (string \<times> json) list \<Rightarrow> ('a) limit_db_scheme \<Rightarrow> limit_error + ('a) limit_db_scheme" where
  "update_tier i name values db =
     (case validate_tier name values of Inl e \<Rightarrow> Inl e
      | Inr c \<Rightarrow>
          if tbl_count (\<lambda>r. t_id r = i) (tiers db) \<noteq> 1 then Inl No_Such_Tier
          else Inr (db\<lparr>tiers := tbl_update (\<lambda>r. t_id r = i) (\<lambda>r. c\<lparr>t_id := i, t_position := t_position r\<rparr>) (tiers db)\<rparr>))"

definition swap_at :: "nat \<Rightarrow> nat \<Rightarrow> 'x list \<Rightarrow> 'x list" where
  "swap_at i j xs = (if i < length xs \<and> j < length xs then xs[i := xs ! j, j := xs ! i] else xs)"

definition position_in :: "'x list \<Rightarrow> 'x \<Rightarrow> nat" where
  "position_in xs x = length (takeWhile (\<lambda>y. y \<noteq> x) xs)"

definition move_tier :: "int \<Rightarrow> int \<Rightarrow> ('a) limit_db_scheme \<Rightarrow> limit_error + ('a) limit_db_scheme" where
  "move_tier i way db =
     (let ids = map t_id (list_tiers db);
          index = position_in ids i;
          moved = (if 0 < way then swap_at index (index + 1) ids
                   else if index = 0 then ids else swap_at index (index - 1) ids)
      in if i \<notin> set ids then Inl No_Such_Tier
         else Inr (db\<lparr>tiers := map (\<lambda>r. if t_id r \<in> set moved then r\<lparr>t_position := int (position_in moved (t_id r))\<rparr> else r) (tiers db)\<rparr>))"

definition delete_tier :: "int \<Rightarrow> ('a) limit_db_scheme \<Rightarrow> limit_error + ('a) limit_db_scheme" where
  "delete_tier i db =
     (if length (tiers db) \<le> 1 then Inl Last_Tier
      else if tbl_count (\<lambda>r. t_id r = i) (tiers db) \<noteq> 1 then Inl No_Such_Tier
      else Inr (db\<lparr>tiers := tbl_delete (\<lambda>r. t_id r = i) (tiers db),
          user_limits := tbl_update (\<lambda>r. tier_id r = Some i) (\<lambda>r. r\<lparr>tier_id := None\<rparr>) (user_limits db)\<rparr>))"

subsection \<open>Grants\<close>

definition validate_grant ::
  "string option \<Rightarrow> string option \<Rightarrow> int option \<Rightarrow> string option \<Rightarrow> string \<Rightarrow> json \<Rightarrow> stamp \<Rightarrow> stamp option \<Rightarrow> string option
    \<Rightarrow> ('a) limit_db_scheme \<Rightarrow> limit_error + grant" where
  "validate_grant u pool i scope kind amount starts ends reason db =
     (if (case pool of None \<Rightarrow> False | Some p \<Rightarrow> p \<notin> set POOLS) then Inl Unknown_Pool
      else if i \<noteq> None \<and> pool \<noteq> None then Inl Pool_And_Model
      else if (case i of None \<Rightarrow> False | Some m \<Rightarrow> \<not> model_exists m db) then Inl No_Such_Model
      else if (case scope of None \<Rightarrow> False | Some s \<Rightarrow> s \<notin> set SCOPES) then Inl Bad_Scope
      else if kind \<notin> set GRANT_KINDS then Inl Bad_Kind
      else case (if kind = ''unlimited'' then Inr 0
                 else if kind = ''multiplier'' then number amount ''Multiplier'' (101 / 100) MULTIPLIER_MAX
                 else if scope \<noteq> Some ''window'' \<and> scope \<noteq> Some ''weekly'' then Inl Extra_Needs_Window
                 else map_sum id of_int (whole_number amount ''Extra tokens'' 1 TOKENS_MAX)) of
        Inl e \<Rightarrow> Inl e
      | Inr a \<Rightarrow>
          let clean = strip (case reason of None \<Rightarrow> [] | Some r \<Rightarrow> r) in
          if REASON_MAX < length clean then Inl Reason_Too_Long
          else if (case ends of None \<Rightarrow> False | Some e \<Rightarrow> e \<le> starts) then Inl Ends_First
          else Inr \<lparr>g_id = 0, g_user = u, g_pool = pool, g_model = i, g_scope = scope, g_kind = kind, g_amount = a,
            g_starts = starts, g_ends = ends, g_reason = clean, g_created = (0, None), g_revoked = None\<rparr>)"

definition create_grant ::
  "string option \<Rightarrow> string option \<Rightarrow> int option \<Rightarrow> string option \<Rightarrow> string \<Rightarrow> json \<Rightarrow> stamp \<Rightarrow> stamp option \<Rightarrow> string option
    \<Rightarrow> string option \<Rightarrow> stamp \<Rightarrow> ('a) limit_db_scheme \<Rightarrow> limit_error + (int \<times> ('a) limit_db_scheme)" where
  "create_grant u pool i scope kind amount starts ends reason who t db =
     (case validate_grant u pool i scope kind amount starts ends reason db of
        Inl e \<Rightarrow> Inl e
      | Inr g \<Rightarrow>
          if \<not> known u db \<or> \<not> known who db then Inl Integrity_Error
          else Inr (next_grant db, db\<lparr>grants := grants db @ [g\<lparr>g_id := next_grant db, g_created := (t, who)\<rparr>],
                 next_grant := next_grant db + 1\<rparr>))"

definition revoke_grant :: "int \<Rightarrow> string option \<Rightarrow> stamp \<Rightarrow> ('a) limit_db_scheme \<Rightarrow> limit_error + (bool \<times> ('a) limit_db_scheme)" where
  "revoke_grant i who t db =
     (let hit = (\<lambda>g. g_id g = i \<and> g_revoked g = None) in
      if list_ex hit (grants db) \<and> \<not> known who db then Inl Integrity_Error
      else Inr (tbl_count hit (grants db) = 1, db\<lparr>grants := tbl_update hit (\<lambda>g. g\<lparr>g_revoked := Some (t, who)\<rparr>) (grants db)\<rparr>))"

definition for_account :: "string \<Rightarrow> grant \<Rightarrow> bool" where
  "for_account u g \<longleftrightarrow> g_user g = Some u \<or> g_user g = None"

definition in_force :: "stamp \<Rightarrow> grant \<Rightarrow> bool" where
  "in_force tm g \<longleftrightarrow> g_revoked g = None \<and> g_starts g \<le> tm \<and> (case g_ends g of None \<Rightarrow> True | Some e \<Rightarrow> tm < e)"

definition active_grants :: "string \<Rightarrow> stamp \<Rightarrow> ('a) limit_db_scheme \<Rightarrow> grant list" where
  "active_grants u tm db = sort_key g_id (filter (\<lambda>g. for_account u g \<and> in_force tm g) (grants db))"

definition user_grants :: "string \<Rightarrow> stamp \<Rightarrow> ('a) limit_db_scheme \<Rightarrow> grant list" where
  "user_grants u tm db =
     sort_key (\<lambda>g. (g_starts g, g_id g)) (filter (\<lambda>g. for_account u g \<and> g_revoked g = None \<and>
       (case g_ends g of None \<Rightarrow> True | Some e \<Rightarrow> tm < e)) (grants db))"

definition list_grants :: "string \<Rightarrow> string option \<Rightarrow> nat \<Rightarrow> stamp \<Rightarrow> ('a) limit_db_scheme \<Rightarrow> limit_error + grant list" where
  "list_grants state u limit tm db =
     (let mine = filter (\<lambda>g. case u of None \<Rightarrow> True | Some x \<Rightarrow> for_account x g) (grants db) in
      if state = ''active'' then Inr (take limit (sort_key (\<lambda>g. (g_starts g, g_id g)) (filter (in_force tm) mine)))
      else if state = ''upcoming'' then
        Inr (take limit (sort_key (\<lambda>g. (g_starts g, g_id g)) (filter (\<lambda>g. g_revoked g = None \<and> tm < g_starts g) mine)))
      else if state = ''ended'' then
        Inr (take limit (sort_key (\<lambda>g. - g_id g) (filter (\<lambda>g. g_revoked g \<noteq> None \<or>
          (case g_ends g of None \<Rightarrow> False | Some e \<Rightarrow> e \<le> tm)) mine)))
      else Inl Bad_Grant_State)"

definition count_active_grants :: "stamp \<Rightarrow> ('a) limit_db_scheme \<Rightarrow> nat" where
  "count_active_grants tm db = tbl_count (in_force tm) (grants db)"

subsection \<open>Usage windows\<close>

text \<open>A window opens with the first counted request when it is not open, and keeps its start until it ends.\<close>

definition opened :: "int \<Rightarrow> stamp \<Rightarrow> stamp option \<Rightarrow> stamp option" where
  "opened seconds now start =
     (case start of None \<Rightarrow> Some now | Some s \<Rightarrow> if s \<le> now - seconds then Some now else Some s)"

definition open_window :: "string \<Rightarrow> stamp \<Rightarrow> string \<Rightarrow> window_row list \<Rightarrow> window_row list" where
  "open_window u now scope rows =
     (if tbl_one (\<lambda>w. w_user w = u \<and> w_scope w = scope) rows = None
      then rows @ [\<lparr>w_user = u, w_scope = scope, window_started_at = Some now, week_started_at = Some now\<rparr>]
      else tbl_update (\<lambda>w. w_user w = u \<and> w_scope w = scope)
        (\<lambda>w. w\<lparr>window_started_at := opened WINDOW_SECONDS now (window_started_at w),
               week_started_at := opened WEEK_SECONDS now (week_started_at w)\<rparr>) rows)"

definition open_windows :: "string \<Rightarrow> string list \<Rightarrow> stamp \<Rightarrow> ('a) limit_db_scheme \<Rightarrow> limit_error + ('a) limit_db_scheme" where
  "open_windows u scopes now db =
     (if scopes \<noteq> [] \<and> \<not> known (Some u) db then Inl Integrity_Error
      else Inr (db\<lparr>windows_tbl := fold (open_window u now) scopes (windows_tbl db)\<rparr>))"

definition stored_window :: "string \<Rightarrow> string \<Rightarrow> ('a) limit_db_scheme \<Rightarrow> stamp option \<times> stamp option" where
  "stored_window u scope db =
     (case tbl_one (\<lambda>w. w_user w = u \<and> w_scope w = scope) (windows_tbl db) of
        None \<Rightarrow> (None, None) | Some w \<Rightarrow> (window_started_at w, week_started_at w))"

definition pool_scope :: "string \<Rightarrow> string" where
  "pool_scope pool = ''pool:'' @ pool"

definition close_windows :: "string option \<Rightarrow> bool \<Rightarrow> ('a) limit_db_scheme \<Rightarrow> ('a) limit_db_scheme" where
  "close_windows u weekly db =
     db\<lparr>windows_tbl := tbl_update (\<lambda>w. case u of None \<Rightarrow> True | Some x \<Rightarrow> w_user w = x)
         (\<lambda>w. if weekly then w\<lparr>window_started_at := None, week_started_at := None\<rparr> else w\<lparr>window_started_at := None\<rparr>)
         (windows_tbl db)\<rparr>"

definition reset_usage :: "string option \<Rightarrow> bool \<Rightarrow> string option \<Rightarrow> stamp \<Rightarrow> stamp \<Rightarrow> ('a) limit_db_scheme \<Rightarrow> limit_error + ('a) limit_db_scheme" where
  "reset_usage u weekly who now t db =
     map_sum id (\<lambda>db1. (close_windows u weekly db1)\<lparr>rate_buckets := clear_buckets u (rate_buckets db1)\<rparr>)
       (case u of
          None \<Rightarrow> Inr (db\<lparr>site_resets := (if weekly then (fst (site_resets db), Some now) else (Some now, snd (site_resets db)))\<rparr>)
        | Some x \<Rightarrow> update_user_settings x who [if weekly then Set_Weekly_Reset (Some now) else Set_Usage_Reset (Some now)] t db)"

subsection \<open>What an update of the settings changes\<close>

lemma apply_settings_user [simp]: "ul_user (fold apply_setting vs r) = ul_user r"
proof (induction vs arbitrary: r)
  case (Cons v vs)
  then show ?case by (cases v) simp_all
qed simp

lemma update_user_settings_row:
  assumes "update_user_settings u who vs t db = Inr db1"
  shows "tbl_one (\<lambda>r. ul_user r = v) (user_limits db1) =
      (if v = u then Some ((fold apply_setting vs (case tbl_one (\<lambda>r. ul_user r = u) (user_limits db) of None \<Rightarrow> no_settings u | Some r \<Rightarrow> r))
         \<lparr>ul_updated := (t, who)\<rparr>)
       else tbl_one (\<lambda>r. ul_user r = v) (user_limits db))"
  using assms
  by (auto simp: update_user_settings_def tbl_one_append tbl_simps tbl_one_update_key no_settings_def split: option.splits if_splits)

lemma update_user_settings_rest:
  "update_user_settings u who vs t db = Inr db1 \<Longrightarrow> db1 = db\<lparr>user_limits := user_limits db1\<rparr>"
  by (auto simp: update_user_settings_def split: option.splits if_splits)

lemma user_settings_other:
  "update_user_settings u who vs t db = Inr db1 \<Longrightarrow> v \<noteq> u \<Longrightarrow> user_settings v db1 = user_settings v db"
  using update_user_settings_row [of u who vs t db db1 v] by (simp add: user_settings_def)

lemma user_settings_tier:
  assumes "update_user_settings u who [Set_Tier i, Set_Tier_Changed w] t db = Inr db1"
  shows "user_settings u db1 = (user_settings u db)\<lparr>tier_id := i, tier_changed_at := w, ul_updated := (t, who)\<rparr>"
  using update_user_settings_row [OF assms, of u]
  by (auto simp: user_settings_def no_settings_def SPEEDS_def split: option.splits)

end
