(* ===== verification/Limit_Rates.thy ===== *)
theory Limit_Rates
  imports Limit_Store
begin

section \<open>Request rates in force\<close>

text \<open>
  The part of bananachat/services/limits.py that decides an account's request rate: the
  dynamic factors, the effective rules after demand, provider capacity and grants, taking
  a request from their buckets, and how long an idle bucket is kept.
\<close>

definition DYNAMIC_MIN :: rat where "DYNAMIC_MIN = 1 / 2"
definition DYNAMIC_MAX :: rat where "DYNAMIC_MAX = 2"
definition DYNAMIC_STEP :: rat where "DYNAMIC_STEP = 5 / 100"
definition PEAK_HOURS :: nat where "PEAK_HOURS = 6"
definition PEAK_MIN_SITE_TOKENS :: rat where "PEAK_MIN_SITE_TOKENS = 50000"
definition PERSONAL_MIN_TOKENS :: rat where "PERSONAL_MIN_TOKENS = 5000"
definition BUCKET_IDLE_SECONDS :: rat where "BUCKET_IDLE_SECONDS = 86400"
definition CAPACITY_COMFORT :: rat where "CAPACITY_COMFORT = 1 / 2"

subsection \<open>Dynamic factors\<close>

text \<open>A piecewise linear function through the points.\<close>

fun curve_in :: "rat \<Rightarrow> rat \<times> rat \<Rightarrow> (rat \<times> rat) list \<Rightarrow> rat" where
  "curve_in v p [] = snd p"
| "curve_in v p (q # ps) =
     (if v \<le> fst q then snd p + (snd q - snd p) * (v - fst p) / (fst q - fst p) else curve_in v q ps)"

fun curve :: "rat \<Rightarrow> (rat \<times> rat) list \<Rightarrow> rat" where
  "curve v [] = 1"
| "curve v (p # ps) = (if v \<le> fst p then snd p else curve_in v p ps)"

definition demand_factor :: "rat option \<Rightarrow> rat" where
  "demand_factor utilisation =
     (case utilisation of None \<Rightarrow> 1
      | Some v \<Rightarrow> curve v [(2 / 10, 125 / 100), (5 / 10, 1), (9 / 10, 1), (2, 7 / 10)])"

definition people_factor :: "int option \<Rightarrow> int \<Rightarrow> rat" where
  "people_factor people slots =
     (case people of None \<Rightarrow> 1
      | Some n \<Rightarrow> curve (of_int n / of_int (max 1 slots)) [(1, 11 / 10), (3, 1), (6, 1), (12, 8 / 10)])"

definition personal_factor :: "rat option \<Rightarrow> int \<Rightarrow> rat \<Rightarrow> rat" where
  "personal_factor peak_share active_days used =
     (if used < PERSONAL_MIN_TOKENS then 1
      else
        let baseline = of_nat PEAK_HOURS / 24;
            offpeak = (case peak_share of None \<Rightarrow> 0
              | Some s \<Rightarrow> max (- 1) (min 1 ((baseline - s) / baseline)) * (15 / 100));
            regular = 10 / 100 * of_int (min (max active_days 0) 20) / 20
        in 1 + offpeak + regular)"

definition quantise :: "rat \<Rightarrow> rat" where
  "quantise factor =
     (let f = max DYNAMIC_MIN (min DYNAMIC_MAX factor) in round_to 2 (of_int (py_round (f / DYNAMIC_STEP)) * DYNAMIC_STEP))"

definition scaled :: "rat \<Rightarrow> rat \<Rightarrow> rat" where
  "scaled multiplier sensitivity = quantise (1 + (multiplier - 1) * sensitivity)"

text \<open>The account's activity in 30 days (day, hour, tokens) to its factor, given the peak hours.\<close>

definition personal :: "(stamp \<times> int \<times> rat) list \<Rightarrow> int list \<Rightarrow> rat" where
  "personal rows peaks =
     (let used = (\<Sum>r \<leftarrow> rows. snd (snd r));
          days = int (length (remdups (map fst rows)));
          share = (if peaks \<noteq> [] \<and> 0 < used
            then Some ((\<Sum>r \<leftarrow> filter (\<lambda>r. fst (snd r) \<in> set peaks) rows. snd (snd r)) / used) else None)
      in personal_factor share days used)"

text \<open>\<open>dynamic_for\<close>: the average queue use, the people active with the slots, and the account's own factor.\<close>

type_synonym demand = "rat option \<times> (int option \<times> int) \<times> rat"

definition dynamic_for :: "demand \<Rightarrow> rat" where
  "dynamic_for load =
     (case load of (ewma, (people, slots), own) \<Rightarrow> quantise (demand_factor ewma * people_factor people slots * own))"

text \<open>The busiest hours of a histogram with one entry per hour.\<close>

definition busiest_hours :: "(int \<times> rat) list \<Rightarrow> int list" where
  "busiest_hours histogram =
     (if (\<Sum>h \<leftarrow> histogram. snd h) < PEAK_MIN_SITE_TOKENS then []
      else sort (map fst (filter (\<lambda>h. 0 < snd h) (take PEAK_HOURS (sort_key (\<lambda>h. (- snd h, fst h)) histogram)))))"

text \<open>What a provider reports it has left: no report, nothing known, or its fractions of 5 hours and a week.\<close>

definition capacity_factor :: "(rat option \<times> rat option) option \<Rightarrow> rat" where
  "capacity_factor report =
     (case report of None \<Rightarrow> 1
      | Some (w, k) \<Rightarrow>
          (case List.map_filter id [w, k] of
             [] \<Rightarrow> 1
           | x # xs \<Rightarrow>
               let fraction = max 0 (min 1 (foldl min x xs))
               in round_to 2 (of_int (py_round (min 1 (fraction / CAPACITY_COMFORT) / DYNAMIC_STEP)) * DYNAMIC_STEP)))"

subsection \<open>Effective rules\<close>

record rate_rule =
  r_requests :: rat
  r_per :: string
  r_burst :: int
  r_base :: string

definition rule_seconds :: "rate_rule \<Rightarrow> int" where "rule_seconds r = the (UNITS (r_per r))"

definition per_second :: "rate_rule \<Rightarrow> rat" where "per_second r = r_requests r / of_int (rule_seconds r)"

fun nat_text :: "nat \<Rightarrow> string" where
  "nat_text n = (if n < 10 then [char_of (48 + n)] else nat_text (n div 10) @ [char_of (48 + n mod 10)])"

definition int_text :: "int \<Rightarrow> string" where
  "int_text n = (if n < 0 then CHR ''-'' # nat_text (nat (- n)) else nat_text (nat n))"

definition rate_rule_of :: "rule \<Rightarrow> rate_rule" where
  "rate_rule_of r = \<lparr>r_requests = of_int (requests r), r_per = per r, r_burst = burst r,
     r_base = int_text (requests r) @ ''/'' @ per r @ ''/'' @ int_text (burst r)\<rparr>"

datatype reason = Is_Custom | Is_Default | Not_Limited | Is_Admin | Dynamic_Down rat | Dynamic_Up rat | Custom_Floor
  | Low_Capacity rat | From_Grant grant | From_Tier string rat | Music_Multiplier rat | Music_Fixed rat | Renounced rat "stamp option"

record rate_limit =
  rl_limited :: bool
  rl_rules :: "rate_rule list"
  rl_custom :: bool
  rl_reasons :: "reason list"

definition grant_parts :: "grant list \<Rightarrow> string \<Rightarrow> grant list \<times> grant list \<times> grant list" where
  "grant_parts gs scope =
     (let relevant = filter (\<lambda>g. g_scope g = None \<or> g_scope g = Some scope) gs in
      (filter (\<lambda>g. g_kind g = ''unlimited'') relevant, filter (\<lambda>g. g_kind g = ''multiplier'') relevant,
       filter (\<lambda>g. g_kind g = ''extra'' \<and> g_scope g = Some scope) relevant))"

definition scale_rule :: "rat \<Rightarrow> bool \<Rightarrow> rate_rule \<Rightarrow> rate_rule" where
  "scale_rule factor grow r =
     r\<lparr>r_requests := round_to 4 (r_requests r * factor),
       r_burst := (if grow then max (r_burst r) \<lceil>of_int (r_burst r) * factor\<rceil> else max 1 \<lfloor>of_int (r_burst r) * factor\<rfloor>)\<rparr>"

definition scaled_rules :: "rate_rule list \<Rightarrow> rat \<Rightarrow> bool \<Rightarrow> rate_rule list" where
  "scaled_rules rules factor grow = map (scale_rule factor grow) rules"

text \<open>The rules after demand and capacity, before any grant.\<close>

definition lowered_rules :: "rate_rule list \<Rightarrow> bool \<Rightarrow> rat option \<Rightarrow> bool \<Rightarrow> rat \<Rightarrow> rate_rule list \<times> reason list" where
  "lowered_rules rules custom dynamic dynamic_on capacity =
     (let (rules1, why1) = (case dynamic of
            Some d \<Rightarrow> if dynamic_on \<and> \<not> custom \<and> d < 1 then (scaled_rules rules d False, [Dynamic_Down d]) else (rules, [])
          | None \<Rightarrow> (rules, []))
      in if capacity < 1 then (scaled_rules rules1 (max capacity (1 / 10000)) False, why1 @ [Low_Capacity capacity])
         else (rules1, why1))"

definition rate_in_force ::
  "bool \<Rightarrow> rule list \<Rightarrow> rule list option \<Rightarrow> rat option \<Rightarrow> bool \<Rightarrow> grant list \<Rightarrow> rat \<Rightarrow> rate_limit" where
  "rate_in_force enabled base_rules custom_rules dynamic dynamic_on gs capacity =
     (let custom = custom_rules \<noteq> None;
          source = (case custom_rules of None \<Rightarrow> base_rules | Some rs \<Rightarrow> rs);
          limited = (enabled \<or> custom) \<and> source \<noteq> [];
          rules = map rate_rule_of source
      in if \<not> limited then \<lparr>rl_limited = False, rl_rules = rules, rl_custom = custom, rl_reasons = [Not_Limited]\<rparr>
         else
           let (rules1, why1) = lowered_rules rules custom dynamic dynamic_on capacity;
               why = (if custom then Is_Custom else Is_Default) # why1;
               (unlimited, multipliers, _) = grant_parts gs ''rate''
           in case unlimited of
                g # _ \<Rightarrow> \<lparr>rl_limited = False, rl_rules = rules1, rl_custom = custom, rl_reasons = why @ [From_Grant g]\<rparr>
              | [] \<Rightarrow> \<lparr>rl_limited = True, rl_rules = fold (\<lambda>g rs. scaled_rules rs (g_amount g) True) multipliers rules1,
                   rl_custom = custom, rl_reasons = why @ map From_Grant multipliers\<rparr>)"

text \<open>\<open>rate_limit\<close>: the request rate of an account in a service.\<close>

definition no_rate :: "reason \<Rightarrow> rate_limit" where
  "no_rate why = \<lparr>rl_limited = False, rl_rules = [], rl_custom = False, rl_reasons = [why]\<rparr>"

definition pool_grants :: "string \<Rightarrow> string \<Rightarrow> stamp \<Rightarrow> ('a) limit_db_scheme \<Rightarrow> grant list" where
  "pool_grants u pool tm db =
     filter (\<lambda>g. g_model g = None \<and> (g_pool g = None \<or> g_pool g = Some pool)) (active_grants u tm db)"

definition rate_limit_of :: "string \<times> bool \<Rightarrow> string \<Rightarrow> demand \<Rightarrow> stamp \<Rightarrow> ('a) limit_db_scheme \<Rightarrow> limit_error + rate_limit" where
  "rate_limit_of user pool load tm db =
     (let (u, admin) = user; prefs = user_settings u db in
      if admin then Inr (no_rate Is_Admin)
      else if rate_exempt prefs then Inr (no_rate Not_Limited)
      else case get_pool_policy pool db of Inl e \<Rightarrow> Inl e
      | Inr p \<Rightarrow>
     (case own_override u pool db of Inl e \<Rightarrow> Inl e
      | Inr o1 \<Rightarrow>
          let dynamic = (if rate_enabled p \<and> rate_dynamic p \<and> o_rules o1 = None \<and> \<not> dynamic_exempt prefs
                         then Some (dynamic_for load) else None)
          in Inr (rate_in_force (rate_enabled p) (rate_rules p) (o_rules o1) dynamic (rate_dynamic p) (pool_grants u pool tm db) 1)))"

text \<open>
  \<open>model_limits\<close>, the request rate: the account's own rules or the model's, demand scaled by the
  model's sensitivity, what its provider has left, and the grants for this model (or
  unlimited use of everything).
\<close>

definition for_model :: "int \<Rightarrow> grant \<Rightarrow> bool" where
  "for_model i g \<longleftrightarrow> g_model g = Some i \<or> (g_model g = None \<and> g_pool g = None \<and> g_kind g = ''unlimited'')"

definition model_dynamic :: "model_policy \<Rightarrow> user_limit \<Rightarrow> demand \<Rightarrow> rat option" where
  "model_dynamic p prefs load =
     (if mp_enabled p \<and> mp_dynamic p \<and> \<not> dynamic_exempt prefs then Some (scaled (dynamic_for load) (mp_sensitivity p)) else None)"

definition model_rate ::
  "model_policy \<Rightarrow> model_override \<Rightarrow> user_limit \<Rightarrow> demand \<Rightarrow> rat \<Rightarrow> grant list \<Rightarrow> rate_limit" where
  "model_rate p o1 prefs load capacity gs =
     (if mp_rate_enabled p \<and> \<not> (rate_exempt prefs \<or> m_rate_exempt o1)
      then rate_in_force (mp_enabled p) (mp_rate_rules p) (m_rules o1) (model_dynamic p prefs load) True gs capacity
      else no_rate Not_Limited)"

subsection \<open>Taking a request\<close>

record rate_decision =
  rd_allowed :: bool
  rd_limited :: bool
  rd_limit :: int
  rd_remaining :: int
  rd_reset :: rat
  rd_retry :: int
  rd_rule :: "rate_rule option"

text \<open>The first index with the least key.\<close>

fun least_index :: "('x \<Rightarrow> 'k::linorder) \<Rightarrow> 'x list \<Rightarrow> nat" where
  "least_index key [] = 0"
| "least_index key [x] = 0"
| "least_index key (x # y # xs) =
     (let i = least_index key (y # xs) in if key x \<le> key ((y # xs) ! i) then 0 else Suc i)"

definition rule_bucket :: "string \<Rightarrow> string \<Rightarrow> rate_rule \<Rightarrow> bucket" where
  "rule_bucket scope u r = (bucket_key scope u (if r_base r = [] then r_per r else r_base r), per_second r, r_burst r)"

definition take_request ::
  "string \<Rightarrow> string \<Rightarrow> rate_limit \<Rightarrow> epoch \<Rightarrow> bucket_row list \<Rightarrow> rate_decision option \<times> bucket_row list" where
  "take_request scope u rl now rows =
     (if \<not> rl_limited rl \<or> rl_rules rl = []
      then (Some \<lparr>rd_allowed = True, rd_limited = False, rd_limit = 0, rd_remaining = 0, rd_reset = 0, rd_retry = 0, rd_rule = None\<rparr>, rows)
      else case take_tokens (map (rule_bucket scope u) (rl_rules rl)) now rows of
        (None, rows1) \<Rightarrow> (None, rows1)
      | (Some (allowed, states), rows1) \<Rightarrow>
          let pairs = zip (rl_rules rl) states;
              i = (if allowed then least_index (\<lambda>(r, s). (\<lfloor>fst s + 1 / 10 ^ 9\<rfloor>, - rule_seconds r)) pairs
                   else least_index (\<lambda>(r, s). - snd s) pairs);
              (r, tokens, wait) = pairs ! i
          in if r_requests r = 0 then (None, rows1)
             else (Some \<lparr>rd_allowed = allowed, rd_limited = True, rd_limit = r_burst r,
                 rd_remaining = \<lfloor>tokens + 1 / 10 ^ 9\<rfloor>, rd_reset = (of_int (r_burst r) - tokens) / per_second r,
                 rd_retry = (if allowed then 0 else max 1 \<lceil>wait - 1 / 10 ^ 9\<rceil>), rd_rule = Some r\<rparr>, rows1))"

definition check_rate ::
  "string \<times> bool \<Rightarrow> string \<Rightarrow> demand \<Rightarrow> stamp \<Rightarrow> epoch \<Rightarrow> ('a) limit_db_scheme \<Rightarrow> limit_error + (rate_decision option \<times> ('a) limit_db_scheme)" where
  "check_rate user pool load tm now db =
     (case rate_limit_of user pool load tm db of
        Inl e \<Rightarrow> Inl e
      | Inr rl \<Rightarrow> let (d, rows) = take_request pool (fst user) rl now (rate_buckets db) in Inr (d, db\<lparr>rate_buckets := rows\<rparr>))"

subsection \<open>Forgetting idle buckets\<close>

text \<open>The multipliers that can apply together: those for everyone with each account's own, oldest first.\<close>

definition cleanup_grant_sets :: "grant list \<Rightarrow> string option \<Rightarrow> int option \<Rightarrow> string option \<Rightarrow> grant list list" where
  "cleanup_grant_sets gs pool i u =
     (let applies = filter (\<lambda>g. if i \<noteq> None then g_model g = i
            else g_model g = None \<and> (g_pool g = None \<or> g_pool g = pool)) gs;
          common = filter (\<lambda>g. g_user g = None) applies;
          of_user = (\<lambda>x. filter (\<lambda>g. g_user g = Some x) applies);
          own = (case u of Some x \<Rightarrow> [of_user x] | None \<Rightarrow> [] # map of_user (remdups (List.map_filter g_user applies)))
      in map (\<lambda>items. sort_key g_id (common @ items)) own)"

definition cleanup_refill_seconds :: "rule list \<Rightarrow> bool \<Rightarrow> bool \<Rightarrow> grant list list \<Rightarrow> rat" where
  "cleanup_refill_seconds rules dynamic capacity grant_sets =
     foldl max 0 (concat (map (\<lambda>gs.
       let small = rate_in_force True rules None (Some DYNAMIC_MIN) dynamic gs (if capacity then DYNAMIC_STEP else 1);
           large = rate_in_force True rules None None False gs 1
       in map (\<lambda>(slow, full). of_int (max (r_burst slow) (r_burst full)) / per_second slow) (zip (rl_rules small) (rl_rules large)))
       grant_sets))"

definition rate_multipliers :: "stamp \<Rightarrow> grant list \<Rightarrow> grant list" where
  "rate_multipliers tm gs =
     sort_key g_id (filter (\<lambda>g. g_kind g = ''multiplier'' \<and> (g_scope g = None \<or> g_scope g = Some ''rate'') \<and> in_force tm g) gs)"

text \<open>\<open>reports\<close>: whether a model's provider reports its capacity. Overrides that cannot be read add nothing.\<close>

definition cleanup_idle :: "(int \<Rightarrow> bool) \<Rightarrow> stamp \<Rightarrow> ('a) limit_db_scheme \<Rightarrow> limit_error + rat" where
  "cleanup_idle reports tm db =
     (let gs = rate_multipliers tm (grants db);
          pool_part = map_results (\<lambda>pool. map_sum id (\<lambda>p. cleanup_refill_seconds (rate_rules p) (rate_dynamic p) False
            (cleanup_grant_sets gs (Some pool) None None)) (get_pool_policy pool db)) POOLS;
          model_part = map_results (\<lambda>m. map_sum id (\<lambda>p. cleanup_refill_seconds (mp_rate_rules p) (mp_dynamic p) (reports (fst m))
            (cleanup_grant_sets gs None (Some (fst m)) None)) (get_model_policy m db)) (catalog_presets db);
          custom = map (\<lambda>r. (or_user r, Some (or_pool r), None, or_rules r)) (filter (\<lambda>r. or_rules r \<noteq> None) (overrides db)) @
            map (\<lambda>r. (ml_user r, None, Some (ml_model r), ml_rules r)) (filter (\<lambda>r. ml_rules r \<noteq> None) (model_limits db));
          custom_part = map_results (\<lambda>(u, pool, i, raw). case validate_rules (case raw of None \<Rightarrow> J_Null | Some v \<Rightarrow> v) of
              Inl Number_Overflow \<Rightarrow> Inl Number_Overflow
            | Inl _ \<Rightarrow> Inr 0
            | Inr rs \<Rightarrow> Inr (cleanup_refill_seconds rs False (case i of None \<Rightarrow> False | Some m \<Rightarrow> reports m)
                (cleanup_grant_sets gs pool i (Some u)))) custom
      in case pool_part of Inl e \<Rightarrow> Inl e
         | Inr ps \<Rightarrow> (case model_part of Inl e \<Rightarrow> Inl e
         | Inr ms \<Rightarrow> (case custom_part of Inl e \<Rightarrow> Inl e
         | Inr cs \<Rightarrow> Inr (foldl max BUCKET_IDLE_SECONDS (ps @ ms @ cs)))))"

definition forget_idle_buckets :: "(int \<Rightarrow> bool) \<Rightarrow> stamp \<Rightarrow> epoch \<Rightarrow> ('a) limit_db_scheme \<Rightarrow> limit_error + (nat \<times> ('a) limit_db_scheme)" where
  "forget_idle_buckets reports tm now db =
     map_sum id (\<lambda>idle. let (n, rows) = purge_buckets idle now (rate_buckets db) in (n, db\<lparr>rate_buckets := rows\<rparr>))
       (cleanup_idle reports tm db)"

subsection \<open>What the rules can become\<close>

text \<open>The factors applied to one rule, in the order of the code.\<close>

definition lower_rule :: "bool \<Rightarrow> rat option \<Rightarrow> bool \<Rightarrow> rat \<Rightarrow> rate_rule \<Rightarrow> rate_rule" where
  "lower_rule custom dynamic dynamic_on capacity r =
     (let r1 = (case dynamic of Some d \<Rightarrow> if dynamic_on \<and> \<not> custom \<and> d < 1 then scale_rule d False r else r | None \<Rightarrow> r)
      in if capacity < 1 then scale_rule (max capacity (1 / 10000)) False r1 else r1)"

definition raise_rule :: "grant list \<Rightarrow> rate_rule \<Rightarrow> rate_rule" where
  "raise_rule gs r = fold (\<lambda>g. scale_rule (g_amount g) True) gs r"

lemma lowered_rules_map:
  "fst (lowered_rules (map h rs) custom dynamic dynamic_on capacity) = map (\<lambda>r. lower_rule custom dynamic dynamic_on capacity (h r)) rs"
  by (cases dynamic) (auto simp: lowered_rules_def lower_rule_def scaled_rules_def Let_def)

lemma raised_rules_map:
  "fold (\<lambda>g rs. scaled_rules rs (g_amount g) True) gs (map h rs) = map (\<lambda>r. raise_rule gs (h r)) rs"
  by (induction gs arbitrary: h) (simp_all add: raise_rule_def scaled_rules_def comp_def)

lemma rate_in_force_rules:
  assumes "rl_limited (rate_in_force en base cust dyn on gs cap)"
  shows "rl_rules (rate_in_force en base cust dyn on gs cap) =
    map (\<lambda>r. raise_rule (fst (snd (grant_parts gs ''rate''))) (lower_rule (cust \<noteq> None) dyn on cap (rate_rule_of r)))
      (case cust of None \<Rightarrow> base | Some rs \<Rightarrow> rs)"
  using assms lowered_rules_map [of rate_rule_of _ "cust \<noteq> None" dyn on cap]
  by (auto simp: rate_in_force_def Let_def case_prod_beta raised_rules_map split: list.splits option.splits if_splits)

text \<open>\<open>s\<close> bounds \<open>e\<close> from below in its rate and \<open>f\<close> bounds it from above in its burst.\<close>

definition between :: "rate_rule \<Rightarrow> rate_rule \<Rightarrow> rate_rule \<Rightarrow> bool" where
  "between s e f \<longleftrightarrow> r_per s = r_per e \<and> 1 / 40 \<le> r_requests s \<and> r_requests s \<le> r_requests e \<and> 1 \<le> r_burst e \<and> r_burst e \<le> r_burst f"

lemma round4_mono: "x \<le> y \<Longrightarrow> round_to 4 x \<le> round_to 4 y"
proof -
  assume le: "x \<le> y"
  have "py_round u \<le> py_round v" if uv: "u \<le> v" for u v :: rat
  proof (cases "\<lfloor>u\<rfloor> = \<lfloor>v\<rfloor>")
    case True
    with uv show ?thesis by (auto simp: py_round_def Let_def)
  next
    case False
    with uv have "\<lfloor>u\<rfloor> + 1 \<le> \<lfloor>v\<rfloor>" using floor_mono [OF uv] by linarith
    moreover have "py_round u \<le> \<lfloor>u\<rfloor> + 1" "\<lfloor>v\<rfloor> \<le> py_round v" by (auto simp: py_round_def Let_def)
    ultimately show ?thesis by linarith
  qed
  with le show ?thesis by (simp add: round_to_def divide_right_mono)
qed

lemma round4_ge: "of_int a / 10000 \<le> x \<Longrightarrow> of_int a / 10000 \<le> round_to 4 x"
  using round_to_ge [of a 4 x] by simp

lemma round4_ge_40: "1 / 40 \<le> x \<Longrightarrow> 1 / 40 \<le> round_to 4 x"
  using round4_ge [of 250 x] by simp

lemma round4_ge_2: "1 / 2 \<le> x \<Longrightarrow> 1 / 2 \<le> round_to 4 x"
  using round4_ge [of 5000 x] by simp

lemma round_to_int: "round_to k (of_int n) = of_int n"
proof -
  have "py_round (of_int n * 10 ^ k) = n * 10 ^ k"
    using py_round_of_int [of "n * 10 ^ k"] by (simp only: of_int_mult of_int_power of_int_numeral)
  then show ?thesis by (simp add: round_to_def)
qed

lemma between_raise:
  assumes "between s e f" "1 \<le> a" shows "between (scale_rule a True s) (scale_rule a True e) (scale_rule a True f)"
proof -
  have pos: "0 \<le> r_requests s" "1 / 40 \<le> r_requests s" using assms by (auto simp: between_def)
  have "r_requests s * 1 \<le> r_requests s * a" using assms pos by (intro mult_left_mono) auto
  then have "1 / 40 \<le> r_requests s * a" using pos by linarith
  then have low: "1 / 40 \<le> round_to 4 (r_requests s * a)" by (rule round4_ge_40)
  have "r_requests s * a \<le> r_requests e * a" using assms by (intro mult_right_mono) (auto simp: between_def)
  then have req: "round_to 4 (r_requests s * a) \<le> round_to 4 (r_requests e * a)" by (rule round4_mono)
  have "of_int (r_burst e) * a \<le> of_int (r_burst f) * a" using assms by (intro mult_right_mono) (auto simp: between_def)
  then have "\<lceil>of_int (r_burst e) * a\<rceil> \<le> \<lceil>of_int (r_burst f) * a\<rceil>" by (rule ceiling_mono)
  with low req assms show ?thesis by (auto simp: between_def scale_rule_def le_max_iff_disj)
qed

lemma between_raise_all:
  assumes "between s e f" "\<forall>g \<in> set gs. 1 \<le> g_amount g"
  shows "between (raise_rule gs s) (raise_rule gs e) (raise_rule gs f)"
  using assms by (induction gs arbitrary: s e f) (simp_all add: raise_rule_def between_raise)

lemma rule_of_ok: "rule_ok r \<Longrightarrow> 1 \<le> r_requests (rate_rule_of r) \<and> (\<exists>n. r_requests (rate_rule_of r) = of_int n) \<and> 1 \<le> r_burst (rate_rule_of r)"
  by (auto simp: rule_ok_def rate_rule_of_def)

text \<open>The half of an integral rate, rounded, and any larger share of it.\<close>

lemma burst_lowered: "1 \<le> b \<Longrightarrow> 0 \<le> a \<Longrightarrow> a \<le> 1 \<Longrightarrow> max 1 \<lfloor>of_int b * a\<rfloor> \<le> b" for a :: rat
proof -
  assume b: "1 \<le> b" and a: "0 \<le> a" "a \<le> 1"
  have "of_int b * a \<le> of_int b * 1" using b a by (intro mult_left_mono) auto
  then have "\<lfloor>of_int b * a\<rfloor> \<le> b" by (simp add: floor_le_iff)
  with b show ?thesis by simp
qed

definition lower_by :: "rat option \<Rightarrow> rate_rule \<Rightarrow> rate_rule" where
  "lower_by x r = (case x of None \<Rightarrow> r | Some a \<Rightarrow> scale_rule a False r)"

lemma lower_by_le:
  assumes r: "0 \<le> r_requests s" "r_requests s \<le> r_requests e" "round_to 4 (r_requests e) = r_requests e" "1 \<le> r_burst e"
    and x: "\<And>a. x = Some a \<Longrightarrow> 0 \<le> a \<and> a \<le> 1" and y: "\<And>b. y = Some b \<Longrightarrow> b \<le> 1 \<and> (\<exists>a. x = Some a \<and> a \<le> b)"
  shows "r_requests (lower_by x s) \<le> r_requests (lower_by y e)" and "round_to 4 (r_requests (lower_by y e)) = r_requests (lower_by y e)"
    and "1 \<le> r_burst (lower_by y e)" and "r_burst (lower_by y e) \<le> r_burst e"
proof -
  show "round_to 4 (r_requests (lower_by y e)) = r_requests (lower_by y e)" "1 \<le> r_burst (lower_by y e)"
    using r by (auto simp: lower_by_def scale_rule_def split: option.splits)
  show "r_burst (lower_by y e) \<le> r_burst e"
    using burst_lowered [OF r(4)] x y r(4) by (fastforce simp: lower_by_def scale_rule_def split: option.splits)
  show "r_requests (lower_by x s) \<le> r_requests (lower_by y e)"
  proof (cases x)
    case None
    then have "y = None" using y by (cases y) auto
    with None r show ?thesis by (simp add: lower_by_def)
  next
    case (Some a)
    show ?thesis
    proof (cases y)
      case None
      have "r_requests s * a \<le> r_requests s * 1" using x [OF Some] r by (intro mult_left_mono) auto
      then have "round_to 4 (r_requests s * a) \<le> round_to 4 (r_requests e)" using r by (intro round4_mono) simp
      with None Some r show ?thesis by (simp add: lower_by_def scale_rule_def)
    next
      case (Some b)
      with y \<open>x = Some a\<close> have "a \<le> b" by auto
      then have "r_requests s * a \<le> r_requests e * b" using x [OF \<open>x = Some a\<close>] r by (intro mult_mono) auto
      then show ?thesis using Some \<open>x = Some a\<close> by (simp add: lower_by_def scale_rule_def round4_mono)
    qed
  qed
qed

lemma lower_rule_by:
  "lower_rule custom dyn on cap r =
    lower_by (if cap < 1 then Some (max cap (1 / 10000)) else None)
      (lower_by (case dyn of None \<Rightarrow> None | Some d \<Rightarrow> if on \<and> \<not> custom \<and> d < 1 then Some d else None) r)"
  by (simp add: lower_rule_def lower_by_def Let_def split: option.splits)

lemma lower_by_per [simp]: "r_per (lower_by x r) = r_per r"
  by (simp add: lower_by_def scale_rule_def split: option.splits)

lemma between_lower:
  assumes r: "rule_ok r"
    and dyn: "\<And>d. dyn = Some d \<Longrightarrow> 1 / 2 \<le> d" and on: "dyn \<noteq> None \<Longrightarrow> dyn_on \<Longrightarrow> \<not> custom \<Longrightarrow> small_on"
    and cap: "cap < 1 \<Longrightarrow> small_cap \<and> 1 / 20 \<le> cap"
  shows "between (lower_rule False (Some DYNAMIC_MIN) small_on (if small_cap then DYNAMIC_STEP else 1) (rate_rule_of r))
    (lower_rule custom dyn dyn_on cap (rate_rule_of r)) (lower_rule False None False 1 (rate_rule_of r))"
proof -
  define q where "q = rate_rule_of r"
  define x1 where "x1 = (if small_on then Some (1 / 2 :: rat) else None)"
  define x2 where "x2 = (if small_cap then Some (1 / 20 :: rat) else None)"
  define y1 where "y1 = (case dyn of None \<Rightarrow> None | Some d \<Rightarrow> if dyn_on \<and> \<not> custom \<and> d < 1 then Some d else None)"
  define y2 where "y2 = (if cap < 1 then Some (max cap (1 / 10000)) else None)"
  have s: "lower_rule False (Some DYNAMIC_MIN) small_on (if small_cap then DYNAMIC_STEP else 1) q = lower_by x2 (lower_by x1 q)"
    by (simp add: lower_rule_by x1_def x2_def DYNAMIC_MIN_def DYNAMIC_STEP_def)
  have e: "lower_rule custom dyn dyn_on cap q = lower_by y2 (lower_by y1 q)" by (simp only: lower_rule_by y1_def y2_def)
  have f: "lower_rule False None False 1 q = q" by (simp add: lower_rule_by lower_by_def)
  have q: "1 \<le> r_requests q" "round_to 4 (r_requests q) = r_requests q" "1 \<le> r_burst q"
    using rule_of_ok [OF r] by (auto simp: q_def round_to_int)
  have x1: "0 \<le> a \<and> a \<le> 1" if "x1 = Some a" for a using that by (simp add: x1_def split: if_splits)
  have y1: "b \<le> 1 \<and> (\<exists>a. x1 = Some a \<and> a \<le> b)" if "y1 = Some b" for b
  proof -
    have "dyn = Some b" "dyn_on" "\<not> custom" "b < 1" using that by (auto simp: y1_def split: option.splits if_splits)
    with dyn on have "b \<le> 1 \<and> x1 = Some (1 / 2) \<and> 1 / 2 \<le> b" by (simp add: x1_def)
    then show ?thesis by blast
  qed
  have "0 \<le> r_requests q" using q(1) by simp
  note one = lower_by_le [where x = x1 and y = y1, OF this order_refl q(2,3) x1 y1]
  have half: "1 / 2 \<le> r_requests (lower_by x1 q)"
  proof (cases small_on)
    case True
    have "1 / 2 \<le> r_requests q * (1 / 2)" using q(1) by simp
    from round4_ge_2 [OF this] show ?thesis using True by (simp add: x1_def lower_by_def scale_rule_def)
  qed (use q(1) in \<open>simp add: x1_def lower_by_def\<close>)
  have x2: "0 \<le> a \<and> a \<le> 1" if "x2 = Some a" for a using that by (simp add: x2_def split: if_splits)
  have y2: "b \<le> 1 \<and> (\<exists>a. x2 = Some a \<and> a \<le> b)" if "y2 = Some b" for b
  proof -
    have "cap < 1" "b = max cap (1 / 10000)" using that by (auto simp: y2_def split: if_splits)
    with cap have "b \<le> 1 \<and> x2 = Some (1 / 20) \<and> 1 / 20 \<le> b" by (simp add: x2_def)
    then show ?thesis by blast
  qed
  have "0 \<le> r_requests (lower_by x1 q)" using half by simp
  note two = lower_by_le [where x = x2 and y = y2, OF this one(1,2,3) x2 y2]
  have "1 / 40 \<le> r_requests (lower_by x2 (lower_by x1 q))"
  proof (cases small_cap)
    case True
    have "1 / 40 \<le> r_requests (lower_by x1 q) * (1 / 20)" using half by simp
    from round4_ge_40 [OF this] show ?thesis using True by (simp add: x2_def lower_by_def [of "Some (1 / 20)"] scale_rule_def)
  qed (use half in \<open>simp add: x2_def lower_by_def [of None]\<close>)
  with two one show ?thesis unfolding q_def [symmetric] s e f between_def by simp
qed

lemma per_second_le:
  assumes "between s e f" "UNITS (r_per e) \<noteq> None"
  shows "0 < per_second s" and "0 < per_second e"
    and "of_int (r_burst e) \<le> of_int (max (r_burst s) (r_burst f)) / per_second s * per_second e"
proof -
  have u: "0 < rule_seconds e" "rule_seconds s = rule_seconds e"
    using assms by (auto simp: rule_seconds_def UNITS_def between_def split: if_splits)
  then show pos: "0 < per_second s" "0 < per_second e" using assms by (auto simp: per_second_def between_def)
  have le: "per_second s \<le> per_second e" using assms u by (simp add: per_second_def between_def divide_right_mono)
  have "of_int (r_burst e) * per_second s \<le> of_int (max (r_burst s) (r_burst f)) * per_second e"
    using assms(1) le pos by (intro mult_mono) (auto simp: between_def)
  then show "of_int (r_burst e) \<le> of_int (max (r_burst s) (r_burst f)) / per_second s * per_second e"
    using pos by (simp add: field_simps)
qed

lemma foldl_max: "m \<le> foldl max m xs \<and> (\<forall>x \<in> set xs. x \<le> foldl max m xs)" for m :: rat
proof (induction xs arbitrary: m)
  case (Cons x xs)
  from Cons [of "max m x"] show ?case by (auto intro: order_trans)
qed simp

lemma raise_rule_per [simp]: "r_per (raise_rule gs r) = r_per r"
  by (induction gs arbitrary: r) (simp_all add: raise_rule_def scale_rule_def)

lemma lower_rule_per [simp]: "r_per (lower_rule custom dyn on cap r) = r_per r"
  by (simp add: lower_rule_by)

text \<open>Multipliers alone: what the clean-up passes for grants.\<close>

definition only_multipliers :: "grant list \<Rightarrow> bool" where
  "only_multipliers gs \<longleftrightarrow> (\<forall>g \<in> set gs. g_kind g = ''multiplier'' \<and> (g_scope g = None \<or> g_scope g = Some ''rate'') \<and> 1 \<le> g_amount g)"

lemma only_multipliers_parts:
  "only_multipliers gs \<Longrightarrow> fst (grant_parts gs ''rate'') = [] \<and> fst (snd (grant_parts gs ''rate'')) = gs"
  by (auto simp: only_multipliers_def grant_parts_def Let_def filter_empty_conv intro!: filter_True)

lemma refill_bound:
  assumes rules: "\<forall>r \<in> set rs. rule_ok r" and gs: "gs \<in> set sets" "only_multipliers gs"
    and parts: "fst (snd (grant_parts eff ''rate'')) = gs" and src: "(case cust of None \<Rightarrow> base | Some q \<Rightarrow> q) = rs"
    and lim: "rl_limited (rate_in_force en base cust dyn dyn_on eff cap)"
    and dyn: "\<And>d. dyn = Some d \<Longrightarrow> 1 / 2 \<le> d" and on: "dyn \<noteq> None \<Longrightarrow> dyn_on \<Longrightarrow> cust = None \<Longrightarrow> small_on"
    and cap: "cap < 1 \<Longrightarrow> small_cap \<and> 1 / 20 \<le> cap"
  shows "\<forall>r \<in> set (rl_rules (rate_in_force en base cust dyn dyn_on eff cap)).
    0 < per_second r \<and> of_int (r_burst r) \<le> cleanup_refill_seconds rs small_on small_cap sets * per_second r"
proof
  fix e assume "e \<in> set (rl_rules (rate_in_force en base cust dyn dyn_on eff cap))"
  then obtain r where r: "r \<in> set rs" and e: "e = raise_rule gs (lower_rule (cust \<noteq> None) dyn dyn_on cap (rate_rule_of r))"
    using rate_in_force_rules [OF lim] src parts by auto
  define s where "s = raise_rule gs (lower_rule False (Some DYNAMIC_MIN) small_on (if small_cap then DYNAMIC_STEP else 1) (rate_rule_of r))"
  define f where "f = raise_rule gs (lower_rule False None False 1 (rate_rule_of r))"
  have ok: "rule_ok r" using rules r by auto
  have "between s e f"
    unfolding s_def e f_def using gs(2) on
    by (intro between_raise_all between_lower [OF ok dyn _ cap]) (auto simp: only_multipliers_def)
  moreover have "UNITS (r_per e) \<noteq> None" using ok by (simp add: e rule_ok_def rate_rule_of_def)
  ultimately have le: "0 < per_second s" "0 < per_second e" "of_int (r_burst e) \<le> of_int (max (r_burst s) (r_burst f)) / per_second s * per_second e"
    by (rule per_second_le)+
  have lims: "rl_limited (rate_in_force True rs None x y gs z)" for x y z
    using r only_multipliers_parts [OF gs(2)] by (auto simp: rate_in_force_def Let_def case_prod_beta split: list.splits)
  have "of_int (max (r_burst s) (r_burst f)) / per_second s \<in> set (map (\<lambda>(slow, full). of_int (max (r_burst slow) (r_burst full)) / per_second slow)
      (zip (rl_rules (rate_in_force True rs None (Some DYNAMIC_MIN) small_on gs (if small_cap then DYNAMIC_STEP else 1)))
        (rl_rules (rate_in_force True rs None None False gs 1))))"
    unfolding rate_in_force_rules [OF lims] using r only_multipliers_parts [OF gs(2)]
    by (force simp: s_def f_def zip_map1 zip_map2 zip_same_conv_map)
  then have "of_int (max (r_burst s) (r_burst f)) / per_second s \<le> cleanup_refill_seconds rs small_on small_cap sets"
    unfolding cleanup_refill_seconds_def Let_def using foldl_max gs(1) by (fastforce simp: set_concat)
  then have "of_int (max (r_burst s) (r_burst f)) / per_second s * per_second e \<le> cleanup_refill_seconds rs small_on small_cap sets * per_second e"
    using le(2) by (intro mult_right_mono) auto
  with le show "0 < per_second e \<and> of_int (r_burst e) \<le> cleanup_refill_seconds rs small_on small_cap sets * per_second e"
    by linarith
qed

subsection \<open>The grants the clean-up looks at\<close>

definition grants_ok :: "grant list \<Rightarrow> bool" where
  "grants_ok gs \<longleftrightarrow> distinct (map g_id gs) \<and> (\<forall>g \<in> set gs. g_kind g = ''multiplier'' \<longrightarrow> 1 \<le> g_amount g)"

lemma create_grant_ok:
  assumes "create_grant u pool i scope kind amount starts ends why who t db = Inr (n, db1)"
    and "grants_ok (grants db)" "\<forall>g \<in> set (grants db). g_id g < next_grant db"
  shows "grants_ok (grants db1)" and "\<forall>g \<in> set (grants db1). g_id g < next_grant db1"
proof -
  obtain g where g: "validate_grant u pool i scope kind amount starts ends why db = Inr g"
    and db1: "db1 = db\<lparr>grants := grants db @ [g\<lparr>g_id := next_grant db, g_created := (t, who)\<rparr>], next_grant := next_grant db + 1\<rparr>"
    using assms(1) by (auto simp: create_grant_def split: sum.splits if_splits)
  have "g_kind g = ''multiplier'' \<longrightarrow> 1 \<le> g_amount g"
    using g number_Inr [of amount "''Multiplier''" "101 / 100" MULTIPLIER_MAX "g_amount g"]
    by (auto simp: validate_grant_def Let_def split: if_splits sum.splits)
  with assms(2,3) show "grants_ok (grants db1)" "\<forall>g \<in> set (grants db1). g_id g < next_grant db1"
    by (auto simp: db1 grants_ok_def)
qed

lemma sort_key_append_eq:
  assumes "distinct (map k xs)" and "set ys = set xs" "distinct ys"
  shows "sort_key k ys = sort_key k xs"
proof (rule map_sorted_distinct_set_unique)
  have "inj_on k (set xs)" using assms(1) by (simp add: distinct_map)
  then show "inj_on k (set (sort_key k ys) \<union> set (sort_key k xs))" using assms(2) by simp
  have "distinct (map k ys)" using assms by (simp add: distinct_map)
  then have "distinct (map k (sort_key k ys))" using assms(3) by (simp add: distinct_map)
  moreover have "distinct (map k (sort_key k xs))" using assms(1) by (simp add: distinct_map)
  ultimately show "distinct (map k (sort_key k ys))" "distinct (map k (sort_key k xs))" .
qed (simp_all add: assms(2))

text \<open>The multipliers of one account, among those of everyone.\<close>

lemma grant_set_mem:
  assumes ok: "grants_ok all_grants"
    and eff: "gs = filter (\<lambda>g. g_kind g = ''multiplier'' \<and> (g_scope g = None \<or> g_scope g = Some ''rate''))
      (filter (\<lambda>g. if i \<noteq> None then g_model g = i else g_model g = None \<and> (g_pool g = None \<or> g_pool g = pool))
        (sort_key g_id (filter (\<lambda>g. for_account u g \<and> in_force tm g) all_grants)))"
    and who: "who = None \<or> who = Some u"
  shows "gs \<in> set (cleanup_grant_sets (rate_multipliers tm all_grants) pool i who)" and "only_multipliers gs"
proof -
  define mult where "mult = (\<lambda>g :: grant. g_kind g = ''multiplier'' \<and> (g_scope g = None \<or> g_scope g = Some ''rate''))"
  define app where "app = (\<lambda>g :: grant. if i \<noteq> None then g_model g = i else g_model g = None \<and> (g_pool g = None \<or> g_pool g = pool))"
  define base where "base = filter (\<lambda>g. mult g \<and> in_force tm g \<and> app g) all_grants"
  have d: "distinct (map g_id base)" "distinct base" "distinct all_grants"
    using ok by (auto simp: base_def grants_ok_def distinct_map intro: inj_on_subset)
  have gs: "gs = sort_key g_id (filter (for_account u) base)"
    unfolding eff mult_def [symmetric] app_def [symmetric] base_def filter_filter filter_sort
    by (rule arg_cong [of _ _ "sort_key g_id"], rule filter_cong) auto
  have applies: "filter app (rate_multipliers tm all_grants) = sort_key g_id base"
    by (auto simp: rate_multipliers_def filter_sort base_def mult_def intro!: arg_cong [of _ _ "sort_key g_id"] filter_cong)
  define mine where "mine = filter (\<lambda>g. g_user g = Some u) (sort_key g_id base)"
  define common where "common = filter (\<lambda>g. g_user g = None) (sort_key g_id base)"
  have "mine \<in> set (case who of Some x \<Rightarrow> [filter (\<lambda>g. g_user g = Some x) (sort_key g_id base)]
      | None \<Rightarrow> [] # map (\<lambda>x. filter (\<lambda>g. g_user g = Some x) (sort_key g_id base)) (remdups (List.map_filter g_user (sort_key g_id base))))"
  proof (cases "mine = []")
    case True
    with who show ?thesis by (auto simp: mine_def)
  next
    case False
    then obtain g where "g \<in> set base" "g_user g = Some u" by (auto simp: mine_def filter_empty_conv)
    then have "u \<in> set (List.map_filter g_user (sort_key g_id base))" by (auto simp: set_map_filter)
    with who show ?thesis by (auto simp: mine_def)
  qed
  then have "sort_key g_id (common @ mine) \<in> set (cleanup_grant_sets (rate_multipliers tm all_grants) pool i who)"
    unfolding cleanup_grant_sets_def Let_def app_def [symmetric] applies common_def [symmetric] by simp
  moreover have "sort_key g_id (common @ mine) = gs"
    unfolding gs using d
    by (intro sort_key_append_eq) (auto simp: common_def mine_def for_account_def distinct_map intro: inj_on_subset)
  ultimately show "gs \<in> set (cleanup_grant_sets (rate_multipliers tm all_grants) pool i who)" by simp
  show "only_multipliers gs"
    using ok by (auto simp: only_multipliers_def eff grants_ok_def)
qed

subsection \<open>Bounds of the factors\<close>

lemma quantise_bounds: "1 / 2 \<le> quantise f \<and> quantise f \<le> 2"
proof -
  define g where "g = max DYNAMIC_MIN (min DYNAMIC_MAX f) / DYNAMIC_STEP"
  have "of_int 10 \<le> g" "g \<le> of_int 40" by (auto simp: g_def DYNAMIC_MIN_def DYNAMIC_MAX_def DYNAMIC_STEP_def)
  then have "10 \<le> py_round g" "py_round g \<le> 40" by (blast intro: py_round_ge py_round_le)+
  then have "of_int 50 / 10 ^ 2 \<le> of_int (py_round g) * DYNAMIC_STEP" "of_int (py_round g) * DYNAMIC_STEP \<le> of_int 200 / 10 ^ 2"
    by (simp_all add: DYNAMIC_STEP_def)
  then have "of_int 50 / 10 ^ 2 \<le> round_to 2 (of_int (py_round g) * DYNAMIC_STEP)" "round_to 2 (of_int (py_round g) * DYNAMIC_STEP) \<le> of_int 200 / 10 ^ 2"
    by (blast intro: round_to_ge round_to_le)+
  then show ?thesis by (simp add: quantise_def g_def)
qed

lemma capacity_steps: "capacity_factor report < 1 \<Longrightarrow> report \<noteq> None \<and> (capacity_factor report = 0 \<or> 1 / 20 \<le> capacity_factor report)"
proof -
  assume less: "capacity_factor report < 1"
  then obtain w k x xs where report: "report = Some (w, k)" and xs: "List.map_filter id [w, k] = x # xs"
    by (auto simp: capacity_factor_def split: option.splits list.splits)
  define n where "n = py_round (min 1 (max 0 (min 1 (foldl min x xs)) / CAPACITY_COMFORT) / DYNAMIC_STEP)"
  have "of_int 0 \<le> min 1 (max 0 (min 1 (foldl min x xs)) / CAPACITY_COMFORT) / DYNAMIC_STEP"
    by (simp add: CAPACITY_COMFORT_def DYNAMIC_STEP_def)
  then have "0 \<le> n" unfolding n_def by (rule py_round_ge)
  have c: "capacity_factor report = round_to 2 (of_int n * DYNAMIC_STEP)" unfolding n_def capacity_factor_def report option.case prod.case xs list.case Let_def ..
  have "capacity_factor report = 0" if "n = 0" using py_round_of_int [of 0] by (simp add: c that round_to_def)
  moreover have "1 / 20 \<le> capacity_factor report" if "1 \<le> n"
    using round_to_ge [of 5 2 "of_int n * DYNAMIC_STEP"] that by (simp add: c DYNAMIC_STEP_def)
  ultimately show ?thesis using \<open>0 \<le> n\<close> report by fastforce
qed

lemma rules_column_ok: "rules_column raw = Inr (Some rs) \<Longrightarrow> rules_ok rs \<and> (\<exists>v. raw = Some v \<and> validate_rules v = Inr rs)"
  by (auto simp: rules_column_def dest: validate_rules_ok split: option.splits json.splits sum.splits limit_error.splits if_splits)

lemma get_pool_policy_ok: "get_pool_policy pool db = Inr p \<Longrightarrow> policy_ok p"
  by (auto simp: get_pool_policy_def intro: merged_ok split: if_splits)

lemma get_model_policy_ok: "get_model_policy m db = Inr p \<Longrightarrow> model_policy_ok p"
  by (auto simp: get_model_policy_def model_policy_of_def model_default_def preset_policy_def dest: validate_model_policy_ok
      split: option.splits json.splits sum.splits limit_error.splits if_splits)

subsection \<open>Properties\<close>

lemma idle_covers:
  assumes "cleanup_idle reports tm db = Inr idle"
  shows "BUCKET_IDLE_SECONDS \<le> idle"
    and "pool \<in> set POOLS \<Longrightarrow> get_pool_policy pool db = Inr p \<Longrightarrow>
      cleanup_refill_seconds (rate_rules p) (rate_dynamic p) False (cleanup_grant_sets (rate_multipliers tm (grants db)) (Some pool) None None) \<le> idle"
    and "m \<in> set (catalog_presets db) \<Longrightarrow> get_model_policy m db = Inr q \<Longrightarrow>
      cleanup_refill_seconds (mp_rate_rules q) (mp_dynamic q) (reports (fst m))
        (cleanup_grant_sets (rate_multipliers tm (grants db)) None (Some (fst m)) None) \<le> idle"
    and "r \<in> set (overrides db) \<Longrightarrow> or_rules r = Some v \<Longrightarrow> validate_rules v = Inr rs \<Longrightarrow>
      cleanup_refill_seconds rs False False (cleanup_grant_sets (rate_multipliers tm (grants db)) (Some (or_pool r)) None (Some (or_user r))) \<le> idle"
    and "l \<in> set (model_limits db) \<Longrightarrow> ml_rules l = Some v \<Longrightarrow> validate_rules v = Inr rs \<Longrightarrow>
      cleanup_refill_seconds rs False (reports (ml_model l))
        (cleanup_grant_sets (rate_multipliers tm (grants db)) None (Some (ml_model l)) (Some (ml_user l))) \<le> idle"
proof -
  let ?mults = "rate_multipliers tm (grants db)"
  obtain ps ms cs where ps: "map_results (\<lambda>pool. map_sum id (\<lambda>p. cleanup_refill_seconds (rate_rules p) (rate_dynamic p) False
        (cleanup_grant_sets ?mults (Some pool) None None)) (get_pool_policy pool db)) POOLS = Inr ps"
    and ms: "map_results (\<lambda>m. map_sum id (\<lambda>p. cleanup_refill_seconds (mp_rate_rules p) (mp_dynamic p) (reports (fst m))
        (cleanup_grant_sets ?mults None (Some (fst m)) None)) (get_model_policy m db)) (catalog_presets db) = Inr ms"
    and cs: "map_results (\<lambda>(u, pool, i, raw). case validate_rules (case raw of None \<Rightarrow> J_Null | Some v \<Rightarrow> v) of
          Inl Number_Overflow \<Rightarrow> Inl Number_Overflow | Inl _ \<Rightarrow> Inr 0
        | Inr rs \<Rightarrow> Inr (cleanup_refill_seconds rs False (case i of None \<Rightarrow> False | Some m \<Rightarrow> reports m) (cleanup_grant_sets ?mults pool i (Some u))))
      (map (\<lambda>r. (or_user r, Some (or_pool r), None, or_rules r)) (filter (\<lambda>r. or_rules r \<noteq> None) (overrides db)) @
       map (\<lambda>r. (ml_user r, None, Some (ml_model r), ml_rules r)) (filter (\<lambda>r. ml_rules r \<noteq> None) (model_limits db))) = Inr cs"
    and idle: "idle = foldl max BUCKET_IDLE_SECONDS (ps @ ms @ cs)"
    using assms unfolding cleanup_idle_def Let_def by (auto split: sum.splits)
  have le: "x \<le> idle" if "x \<in> set ps \<union> set ms \<union> set cs" for x
    using foldl_max [of BUCKET_IDLE_SECONDS "ps @ ms @ cs"] that unfolding idle by auto
  show "BUCKET_IDLE_SECONDS \<le> idle" using foldl_max [of BUCKET_IDLE_SECONDS "ps @ ms @ cs"] by (simp only: idle)
  show "cleanup_refill_seconds (rate_rules p) (rate_dynamic p) False (cleanup_grant_sets ?mults (Some pool) None None) \<le> idle"
    if "pool \<in> set POOLS" "get_pool_policy pool db = Inr p"
    using map_results_mem [OF ps that(1)] that(2) by (intro le) auto
  show "cleanup_refill_seconds (mp_rate_rules q) (mp_dynamic q) (reports (fst m)) (cleanup_grant_sets ?mults None (Some (fst m)) None) \<le> idle"
    if "m \<in> set (catalog_presets db)" "get_model_policy m db = Inr q"
    using map_results_mem [OF ms that(1)] that(2) by (intro le) auto
  show "cleanup_refill_seconds rs False False (cleanup_grant_sets ?mults (Some (or_pool r)) None (Some (or_user r))) \<le> idle"
    if "r \<in> set (overrides db)" "or_rules r = Some v" "validate_rules v = Inr rs"
  proof -
    have "(or_user r, Some (or_pool r), None, or_rules r) \<in> set (map (\<lambda>r. (or_user r, Some (or_pool r), None, or_rules r)) (filter (\<lambda>r. or_rules r \<noteq> None) (overrides db)) @
       map (\<lambda>r. (ml_user r, None, Some (ml_model r), ml_rules r)) (filter (\<lambda>r. ml_rules r \<noteq> None) (model_limits db)))"
      using that(1,2) by auto
    from map_results_mem [OF cs this] that(2,3) show ?thesis by (intro le) auto
  qed
  show "cleanup_refill_seconds rs False (reports (ml_model l)) (cleanup_grant_sets ?mults None (Some (ml_model l)) (Some (ml_user l))) \<le> idle"
    if "l \<in> set (model_limits db)" "ml_rules l = Some v" "validate_rules v = Inr rs"
  proof -
    have "(ml_user l, None, Some (ml_model l), ml_rules l) \<in> set (map (\<lambda>r. (or_user r, Some (or_pool r), None, or_rules r)) (filter (\<lambda>r. or_rules r \<noteq> None) (overrides db)) @
       map (\<lambda>r. (ml_user r, None, Some (ml_model r), ml_rules r)) (filter (\<lambda>r. ml_rules r \<noteq> None) (model_limits db)))"
      using that(1,2) by auto
    from map_results_mem [OF cs this] that(2,3) show ?thesis by (intro le) auto
  qed
qed

text \<open>
  C24: the clean-up forgets only buckets that would be full again: the time it waits is long
  enough for every rule that can be in force for any account, in a service or for a model,
  whatever the demand, what the provider has left (unless nothing: then no request is
  taken), the account's own rules and the multipliers granted to it. (So the purges of
  rate_bound's events are those of the program.)
\<close>

theorem cleanup_keeps_unfull:
  assumes "cleanup_idle reports tm db = Inr idle" "grants_ok (grants db)"
  shows "(pool \<in> set POOLS \<and> rate_limit_of (u, admin) pool load tm db = Inr rl \<and> rl_limited rl \<longrightarrow>
      (\<forall>r \<in> set (rl_rules rl). 0 < per_second r \<and> of_int (r_burst r) \<le> idle * per_second r)) \<and>
    (m \<in> set (catalog_presets db) \<and> get_model_policy m db = Inr p \<and> own_model_override u (fst m) db = Inr o1 \<and>
      capacity_factor report \<noteq> 0 \<and> (report \<noteq> None \<longrightarrow> reports (fst m)) \<and>
      rl = model_rate p o1 (user_settings u db) load (capacity_factor report) (filter (for_model (fst m)) (active_grants u tm db)) \<and> rl_limited rl \<longrightarrow>
      (\<forall>r \<in> set (rl_rules rl). 0 < per_second r \<and> of_int (r_burst r) \<le> idle * per_second r))"
proof (intro conjI impI; elim conjE)
  assume pool: "pool \<in> set POOLS" and rl: "rate_limit_of (u, admin) pool load tm db = Inr rl" and lim: "rl_limited rl"
  define dyn where "dyn = (\<lambda>(pp :: pool_policy) (oo :: override). if rate_enabled pp \<and> rate_dynamic pp \<and> o_rules oo = None \<and> \<not> dynamic_exempt (user_settings u db)
      then Some (dynamic_for load) else None)"
  obtain pp oo where pp: "get_pool_policy pool db = Inr pp" and oo: "own_override u pool db = Inr oo"
    and eq: "rl = rate_in_force (rate_enabled pp) (rate_rules pp) (o_rules oo) (dyn pp oo) (rate_dynamic pp) (pool_grants u pool tm db) 1"
    using rl lim unfolding rate_limit_of_def dyn_def by (auto simp: no_rate_def Let_def split: if_splits sum.splits)
  define gs where "gs = fst (snd (grant_parts (pool_grants u pool tm db) ''rate''))"
  have gs: "gs = filter (\<lambda>g. g_kind g = ''multiplier'' \<and> (g_scope g = None \<or> g_scope g = Some ''rate''))
      (filter (\<lambda>g. if None \<noteq> None then g_model g = None else g_model g = None \<and> (g_pool g = None \<or> g_pool g = Some pool))
        (sort_key g_id (filter (\<lambda>g. for_account u g \<and> in_force tm g) (grants db))))"
    by (simp add: gs_def grant_parts_def Let_def pool_grants_def active_grants_def conj_ac)
  have d: "dyn pp oo = Some x \<Longrightarrow> 1 / 2 \<le> x" for x
    using quantise_bounds by (auto simp: dyn_def dynamic_for_def split: if_splits prod.splits)
  show "\<forall>r \<in> set (rl_rules rl). 0 < per_second r \<and> of_int (r_burst r) \<le> idle * per_second r"
  proof (cases "o_rules oo")
    case None
    have "\<forall>r \<in> set (rl_rules rl). 0 < per_second r \<and> of_int (r_burst r) \<le>
        cleanup_refill_seconds (rate_rules pp) (rate_dynamic pp) False (cleanup_grant_sets (rate_multipliers tm (grants db)) (Some pool) None None) * per_second r"
      unfolding eq using get_pool_policy_ok [OF pp] grant_set_mem [OF assms(2) gs, of None] lim d None
      by (intro refill_bound [where gs = gs]) (auto simp: policy_ok_def rules_ok_def gs_def eq)
    with idle_covers(2) [OF assms(1) pool pp] show ?thesis by (meson less_imp_le mult_right_mono order_trans)
  next
    case (Some rs)
    then obtain r where r: "r \<in> set (overrides db)" "or_user r = u" "or_pool r = pool" and rc: "rules_column (or_rules r) = Inr (Some rs)"
      using oo by (auto simp: own_override_def get_override_def read_override_def no_override_def
          map_sum_Inr
          dest!: tbl_one_SomeD split: option.splits)
    from rules_column_ok [OF rc] obtain v where v: "rules_ok rs" "or_rules r = Some v" "validate_rules v = Inr rs" by auto
    have "\<forall>r \<in> set (rl_rules rl). 0 < per_second r \<and> of_int (r_burst r) \<le>
        cleanup_refill_seconds rs False False (cleanup_grant_sets (rate_multipliers tm (grants db)) (Some pool) None (Some u)) * per_second r"
      unfolding eq using v(1) grant_set_mem [OF assms(2) gs, of "Some u"] lim d Some
      by (intro refill_bound [where gs = gs]) (auto simp: rules_ok_def gs_def eq)
    with idle_covers(4) [OF assms(1) r(1) v(2,3), unfolded r(2,3)] show ?thesis by (meson less_imp_le mult_right_mono order_trans)
  qed
next
  assume ms: "m \<in> set (catalog_presets db)" and p: "get_model_policy m db = Inr p" and o1: "own_model_override u (fst m) db = Inr o1"
    and cap: "capacity_factor report \<noteq> 0" "report \<noteq> None \<longrightarrow> reports (fst m)"
    and rl: "rl = model_rate p o1 (user_settings u db) load (capacity_factor report) (filter (for_model (fst m)) (active_grants u tm db))"
    and lim: "rl_limited rl"
  define gs where "gs = fst (snd (grant_parts (filter (for_model (fst m)) (active_grants u tm db)) ''rate''))"
  have eq: "rl = rate_in_force (mp_enabled p) (mp_rate_rules p) (m_rules o1) (model_dynamic p (user_settings u db) load) True
      (filter (for_model (fst m)) (active_grants u tm db)) (capacity_factor report)"
    using rl lim by (auto simp: model_rate_def no_rate_def split: if_splits)
  have gs: "gs = filter (\<lambda>g. g_kind g = ''multiplier'' \<and> (g_scope g = None \<or> g_scope g = Some ''rate''))
      (filter (\<lambda>g. if Some (fst m) \<noteq> None then g_model g = Some (fst m) else g_model g = None \<and> (g_pool g = None \<or> g_pool g = None))
        (sort_key g_id (filter (\<lambda>g. for_account u g \<and> in_force tm g) (grants db))))"
    by (auto simp: gs_def grant_parts_def Let_def for_model_def active_grants_def intro!: filter_cong)
  have d: "model_dynamic p (user_settings u db) load = Some x \<Longrightarrow> 1 / 2 \<le> x" for x
    using quantise_bounds by (auto simp: model_dynamic_def scaled_def split: if_splits)
  have c: "capacity_factor report < 1 \<Longrightarrow> reports (fst m) \<and> 1 / 20 \<le> capacity_factor report"
    using capacity_steps [of report] cap by auto
  show "\<forall>r \<in> set (rl_rules rl). 0 < per_second r \<and> of_int (r_burst r) \<le> idle * per_second r"
  proof (cases "m_rules o1")
    case None
    have "\<forall>r \<in> set (rl_rules rl). 0 < per_second r \<and> of_int (r_burst r) \<le>
        cleanup_refill_seconds (mp_rate_rules p) (mp_dynamic p) (reports (fst m)) (cleanup_grant_sets (rate_multipliers tm (grants db)) None (Some (fst m)) None) * per_second r"
      unfolding eq using get_model_policy_ok [OF p] grant_set_mem [OF assms(2) gs, of None] lim d c None
      by (intro refill_bound [where gs = gs]) (auto simp: model_policy_ok_def rules_ok_def gs_def eq model_dynamic_def split: if_splits)
    with idle_covers(3) [OF assms(1) ms p] show ?thesis by (meson less_imp_le mult_right_mono order_trans)
  next
    case (Some rs)
    then obtain r where r: "r \<in> set (model_limits db)" "ml_user r = u" "ml_model r = fst m" and rc: "rules_column (ml_rules r) = Inr (Some rs)"
      using o1 by (auto simp: own_model_override_def get_model_override_def read_model_override_def
          no_model_override_def map_sum_Inr
          dest!: tbl_one_SomeD split: option.splits)
    from rules_column_ok [OF rc] obtain v where v: "rules_ok rs" "ml_rules r = Some v" "validate_rules v = Inr rs" by auto
    have "\<forall>r \<in> set (rl_rules rl). 0 < per_second r \<and> of_int (r_burst r) \<le>
        cleanup_refill_seconds rs False (reports (fst m)) (cleanup_grant_sets (rate_multipliers tm (grants db)) None (Some (fst m)) (Some u)) * per_second r"
      unfolding eq using v(1) grant_set_mem [OF assms(2) gs, of "Some u"] lim d c Some
      by (intro refill_bound [where gs = gs]) (auto simp: rules_ok_def gs_def eq)
    with idle_covers(5) [OF assms(1) r(1) v(2,3), unfolded r(2,3)] show ?thesis by (meson less_imp_le mult_right_mono order_trans)
  qed
qed

definition ex_limit_db :: limit_db where
  "ex_limit_db = \<lparr>pool_docs = [], model_docs = [], catalog_presets = [], accounts = [''u''], user_limits = [], overrides = [],
     model_limits = [], efforts = [], tiers = [], next_tier = 1,
     grants = [\<lparr>g_id = 1, g_user = Some ''u'', g_pool = None, g_model = None, g_scope = None, g_kind = ''multiplier'', g_amount = 2,
        g_starts = 0, g_ends = None, g_reason = [], g_created = (0, None), g_revoked = None\<rparr>], next_grant = 2, windows_tbl = [],
     rate_buckets = [], site_resets = (None, None)\<rparr>"

theorem cleanup_keeps_unfull_witness:
  "\<exists>idle rl. cleanup_idle (\<lambda>_. False) 5 ex_limit_db = Inr idle \<and>
    rate_limit_of (''u'', False) ''api'' (None, (None, 1), 1) 5 ex_limit_db = Inr rl \<and> rl_limited rl \<and>
    (\<forall>r \<in> set (rl_rules rl). of_int (r_burst r) \<le> idle * per_second r)"
proof -
  have p: "get_pool_policy pool ex_limit_db = Inr (default_policies pool)" if "pool \<in> set POOLS" for pool
    using that by (simp add: get_pool_policy_def ex_limit_db_def tbl_simps merged_None)
  obtain idle where idle: "cleanup_idle (\<lambda>_. False) 5 ex_limit_db = Inr idle"
    using p by (auto simp: cleanup_idle_def Let_def POOLS_def) (simp add: ex_limit_db_def)
  have o: "own_override ''u'' ''api'' ex_limit_db = Inr (no_override ''api'')"
    by (simp add: own_override_def get_override_def ex_limit_db_def tbl_simps)
  have g: "pool_grants ''u'' ''api'' 5 ex_limit_db = grants ex_limit_db"
    by (simp add: pool_grants_def active_grants_def ex_limit_db_def for_account_def in_force_def)
  have "user_settings ''u'' ex_limit_db = no_settings ''u''" by (simp add: user_settings_def ex_limit_db_def tbl_simps)
  then obtain rl where rl: "rate_limit_of (''u'', False) ''api'' (None, (None, 1), 1) 5 ex_limit_db = Inr rl" "rl_limited rl"
    using p [of "''api''"] by (simp add: rate_limit_of_def o g no_settings_def POOLS_def default_policies_def no_override_def)
      (simp add: rate_in_force_def grant_parts_def lowered_rules_def ex_limit_db_def)
  have "grants_ok (grants ex_limit_db)" by (simp add: grants_ok_def ex_limit_db_def)
  with cleanup_keeps_unfull [OF idle, of "''api''" "''u''" False "(None, (None, 1), 1)" rl] idle rl show ?thesis
    by (auto simp: POOLS_def)
qed

end
