(* ===== verification/Tier_Promotion.thy ===== *)
theory Tier_Promotion
  imports Limit_Store Accounts
begin

section \<open>Tiers earned\<close>

text \<open>
  The promotions of bananachat/services/limits.py: what a tier asks for, the highest tier an account
  qualifies for, and the job that moves accounts up. The candidates (with their active
  days and tokens of 30 days) come from one query over the ledger and are an argument; each
  is checked again, and written, in one transaction.
\<close>

text \<open>\<open>resolve_tier\<close>: an unknown or unset tier is the first.\<close>

definition resolve_tier :: "int option \<Rightarrow> tier list \<Rightarrow> tier option" where
  "resolve_tier i ts =
     (case List.find (\<lambda>t. Some (t_id t) = i) ts of
        Some t \<Rightarrow> Some t
      | None \<Rightarrow> (case ts of [] \<Rightarrow> None | t # _ \<Rightarrow> Some t))"

text \<open>What promotion looks at: the account, its active days and its tokens.\<close>

type_synonym tier_stats = "account \<times> int \<times> rat"

definition suspension_clean :: "epoch \<Rightarrow> epoch \<Rightarrow> account \<Rightarrow> int \<Rightarrow> bool" where
  "suspension_clean clock now u days \<longleftrightarrow>
     \<not> is_suspended clock (Some u) \<and>
     (case parse_timestamp (last_suspension_at u) of None \<Rightarrow> True | Some l \<Rightarrow> of_int l \<le> now - 86400 * of_int days)"

definition requirements :: "tier \<Rightarrow> tier_stats \<Rightarrow> epoch \<Rightarrow> epoch \<Rightarrow> (string \<times> bool) list" where
  "requirements t stats clock now =
     (let (u, days, used) = stats;
          age = max 0 \<lfloor>(now - of_int (created_at u)) / 86400\<rfloor>
      in [(''account_days'', t_account_days t \<le> age), (''active_days'', t_active_days t \<le> days),
          (''tokens'', t_tokens_30d t \<le> of_int (py_round used)), (''clean_days'', suspension_clean clock now u (t_clean_days t))])"

definition meets :: "tier \<Rightarrow> tier_stats \<Rightarrow> epoch \<Rightarrow> epoch \<Rightarrow> bool" where
  "meets t stats clock now = list_all snd (requirements t stats clock now)"

fun best_from :: "nat \<Rightarrow> nat \<Rightarrow> tier list \<Rightarrow> tier_stats \<Rightarrow> epoch \<Rightarrow> epoch \<Rightarrow> nat" where
  "best_from best i [] stats clock now = best"
| "best_from best i (t # ts) stats clock now =
     best_from (if i \<noteq> 0 \<and> meets t stats clock now then i else best) (i + 1) ts stats clock now"

definition eligible_index :: "tier list \<Rightarrow> tier_stats \<Rightarrow> epoch \<Rightarrow> epoch \<Rightarrow> nat" where
  "eligible_index ts stats clock now = best_from 0 0 ts stats clock now"

definition tier_position :: "tier list \<Rightarrow> int option \<Rightarrow> nat" where
  "tier_position ts i =
     (case i of None \<Rightarrow> 0
      | Some x \<Rightarrow> (case map_of (rev (zip (map t_id ts) [0..<length ts])) x of None \<Rightarrow> 0 | Some n \<Rightarrow> n))"

definition auto_tiers_enabled :: "pool_policy list \<Rightarrow> bool" where
  "auto_tiers_enabled ps = list_ex (\<lambda>p. sec_auto_tiers (window_policy p) \<or> sec_auto_tiers (weekly_policy p)) ps"

text \<open>A row of the candidates: the account as it was read, its tier, its lock, its days and tokens.\<close>

record candidate =
  ca_account :: account
  ca_tier :: "int option"
  ca_locked :: bool
  ca_days :: int
  ca_tokens :: rat

definition promote_one ::
  "tier list \<Rightarrow> candidate \<Rightarrow> epoch \<Rightarrow> epoch \<Rightarrow> account list \<Rightarrow> ('a) limit_db_scheme \<Rightarrow> limit_error + ((string \<times> string) option \<times> ('a) limit_db_scheme)" where
  "promote_one ts c clock now accs db =
     (let row = ca_account c; stats = (row, ca_days c, ca_tokens c);
          current = tier_position ts (ca_tier c); target = eligible_index ts stats clock now
      in if ca_locked c \<or> target \<le> current then Inr (None, db)
         else
           let prefs = user_settings (acc_id row) db in
           (case tbl_one (\<lambda>u. acc_id u = acc_id row) accs of
              None \<Rightarrow> Inr (None, db)
            | Some u \<Rightarrow>
                if tier_locked prefs \<or> tier_id prefs \<noteq> ca_tier c then Inr (None, db)
                else
                  let fresh = row\<lparr>suspended := suspended u, suspended_until := suspended_until u, last_suspension_at := last_suspension_at u\<rparr>
                  in if eligible_index ts (fresh, ca_days c, ca_tokens c) clock now < target then Inr (None, db)
                     else map_sum id (\<lambda>db1. (Some (t_name (ts ! current), t_name (ts ! target)), db1))
                       (update_user_settings (acc_id row) None [Set_Tier (Some (t_id (ts ! target))), Set_Tier_Changed (Some \<lfloor>now\<rfloor>)] \<lfloor>now\<rfloor> db)))"

text \<open>The accounts each transaction finds may have changed since the candidates were read: one list per candidate.\<close>

fun promote_all ::
  "tier list \<Rightarrow> (candidate \<times> account list) list \<Rightarrow> epoch \<Rightarrow> epoch \<Rightarrow> ('a) limit_db_scheme
    \<Rightarrow> limit_error + ((string \<times> string \<times> string) list \<times> ('a) limit_db_scheme)" where
  "promote_all ts [] clock now db = Inr ([], db)"
| "promote_all ts ((c, accs) # cs) clock now db =
     (case promote_one ts c clock now accs db of
        Inl e \<Rightarrow> Inl e
      | Inr (moved, db1) \<Rightarrow>
          map_sum id (\<lambda>(ms, db2). (case moved of None \<Rightarrow> ms | Some (a, b) \<Rightarrow> (username (ca_account c), a, b) # ms, db2))
            (promote_all ts cs clock now db1))"

definition promote ::
  "pool_policy list \<Rightarrow> (candidate \<times> account list) list \<Rightarrow> epoch \<Rightarrow> epoch \<Rightarrow> ('a) limit_db_scheme
    \<Rightarrow> limit_error + ((string \<times> string \<times> string) list \<times> ('a) limit_db_scheme)" where
  "promote ps cs clock now db =
     (if \<not> auto_tiers_enabled ps \<or> length (list_tiers db) < 2 then Inr ([], db)
      else promote_all (list_tiers db) cs clock now db)"

text \<open>\<open>tier_progress\<close>: the account's tier, and the next one with what it asks for.\<close>

definition tier_progress ::
  "account \<Rightarrow> int \<Rightarrow> rat \<Rightarrow> epoch \<Rightarrow> epoch \<Rightarrow> ('a) limit_db_scheme \<Rightarrow> (tier \<times> nat \<times> (tier \<times> (string \<times> bool) list) option) option" where
  "tier_progress u days used clock now db =
     (let ts = list_tiers db in
      if role u = ''admin'' then None
      else map_option (\<lambda>t. let i = length (takeWhile (\<lambda>x. t_id x \<noteq> t_id t) ts) in
        (t, i, if i + 1 < length ts then Some (ts ! (i + 1), requirements (ts ! (i + 1)) (u, days, used) clock now) else None))
        (resolve_tier (tier_id (user_settings (acc_id u) db)) ts))"

subsection \<open>The highest tier\<close>

lemma best_from_spec:
  assumes "best \<le> i"
  shows "(best_from best i ts stats clock now = best \<or>
      (\<exists>k < length ts. best_from best i ts stats clock now = i + k \<and> i + k \<noteq> 0 \<and> meets (ts ! k) stats clock now)) \<and>
    best \<le> best_from best i ts stats clock now \<and>
    (\<forall>k < length ts. i + k \<noteq> 0 \<and> meets (ts ! k) stats clock now \<longrightarrow> i + k \<le> best_from best i ts stats clock now)"
  using assms
proof (induction ts arbitrary: best i)
  case (Cons t ts)
  let ?best = "if i \<noteq> 0 \<and> meets t stats clock now then i else best"
  from Cons.prems have "?best \<le> i + 1" by auto
  note ih = Cons.IH [OF this]
  let ?b = "best_from ?best (i + 1) ts stats clock now"
  have b: "best_from best i (t # ts) stats clock now = ?b" by simp
  have one: "?b = best \<or> (\<exists>k < length (t # ts). ?b = i + k \<and> i + k \<noteq> 0 \<and> meets ((t # ts) ! k) stats clock now)"
  proof (cases "?b = ?best")
    case True
    then show ?thesis by (auto intro!: exI [of _ 0] split: if_splits)
  next
    case False
    with ih obtain k where "k < length ts" "?b = i + 1 + k" "meets (ts ! k) stats clock now" by blast
    then have "Suc k < length (t # ts) \<and> ?b = i + Suc k \<and> i + Suc k \<noteq> 0 \<and> meets ((t # ts) ! Suc k) stats clock now" by simp
    then show ?thesis by blast
  qed
  have two: "i + k \<le> ?b" if "k < length (t # ts)" "i + k \<noteq> 0" "meets ((t # ts) ! k) stats clock now" for k
    using that ih by (cases k) auto
  have "best \<le> ?best" using Cons.prems by auto
  with ih have "best \<le> ?b" by (metis order_trans)
  with one two show ?case unfolding b by blast
qed simp

lemma eligible_index_spec:
  "(eligible_index ts stats clock now \<noteq> 0 \<longrightarrow> eligible_index ts stats clock now < length ts \<and> meets (ts ! eligible_index ts stats clock now) stats clock now) \<and>
    (\<forall>k. 0 < k \<and> k < length ts \<and> meets (ts ! k) stats clock now \<longrightarrow> k \<le> eligible_index ts stats clock now)"
  using best_from_spec [of 0 0 ts stats clock now] by (auto simp: eligible_index_def)

subsection \<open>Promotions only raise\<close>

lemma positions_index:
  assumes "distinct (map t_id ts)" "k < length ts"
  shows "tier_position ts (Some (t_id (ts ! k))) = k"
proof -
  have "map_of (rev (zip (map t_id ts) [0..<length ts])) (t_id (ts ! k)) = Some k"
    using assms by (intro map_of_is_SomeI) (auto simp: set_zip simp flip: rev_map intro!: exI [of _ k])
  then show ?thesis by (simp add: tier_position_def)
qed

lemma promote_one_cases:
  assumes "promote_one ts c clock now accs db = Inr (moved, db1)"
  obtains (kept) "moved = None" "db1 = db"
  | (moved) a u where "tbl_one (\<lambda>x. acc_id x = acc_id (ca_account c)) accs = Some u" "a = acc_id (ca_account c)"
      "tier_position ts (ca_tier c) < eligible_index ts (ca_account c, ca_days c, ca_tokens c) clock now" "\<not> ca_locked c"
      "\<not> tier_locked (user_settings a db)" "tier_id (user_settings a db) = ca_tier c"
      "eligible_index ts (ca_account c, ca_days c, ca_tokens c) clock now \<le>
        eligible_index ts ((ca_account c)\<lparr>suspended := suspended u, suspended_until := suspended_until u, last_suspension_at := last_suspension_at u\<rparr>,
          ca_days c, ca_tokens c) clock now"
      "update_user_settings a None [Set_Tier (Some (t_id (ts ! eligible_index ts (ca_account c, ca_days c, ca_tokens c) clock now))), Set_Tier_Changed (Some \<lfloor>now\<rfloor>)] \<lfloor>now\<rfloor> db = Inr db1"
  using assms unfolding promote_one_def Let_def
  by (auto simp: map_sum_Inr not_less split: if_splits option.splits)

lemma promote_one_up:
  assumes "promote_one ts c clock now accs db = Inr (moved, db1)" "distinct (map t_id ts)"
  shows "tiers db1 = tiers db"
    and "tier_position ts (tier_id (user_settings v db)) \<le> tier_position ts (tier_id (user_settings v db1))"
    and "tier_locked (user_settings v db) \<Longrightarrow> user_settings v db1 = user_settings v db"
    and "tier_locked (user_settings v db1) = tier_locked (user_settings v db)"
proof -
  let ?target = "eligible_index ts (ca_account c, ca_days c, ca_tokens c) clock now"
  show "tiers db1 = tiers db"
    using assms(1) by (cases rule: promote_one_cases) (auto dest!: update_user_settings_rest arg_cong [of _ _ tiers])
  show "tier_position ts (tier_id (user_settings v db)) \<le> tier_position ts (tier_id (user_settings v db1))"
    using assms(1)
  proof (cases rule: promote_one_cases)
    case (moved a u)
    then have "?target \<noteq> 0" by simp
    then have "tier_position ts (Some (t_id (ts ! ?target))) = ?target"
      using eligible_index_spec [of ts "(ca_account c, ca_days c, ca_tokens c)" clock now] by (intro positions_index [OF assms(2)]) simp
    then show ?thesis
      using moved user_settings_tier [OF moved(8)] user_settings_other [OF moved(8), of v] by (cases "v = a") simp_all
  qed simp
  show "user_settings v db1 = user_settings v db" if "tier_locked (user_settings v db)"
    using assms(1)
  proof (cases rule: promote_one_cases)
    case (moved a u)
    then have "v \<noteq> a" using that by auto
    then show ?thesis using user_settings_other [OF moved(8)] by simp
  qed simp
  show "tier_locked (user_settings v db1) = tier_locked (user_settings v db)"
    using assms(1)
  proof (cases rule: promote_one_cases)
    case (moved a u)
    then show ?thesis
      using user_settings_tier [OF moved(8)] user_settings_other [OF moved(8), of v] by (cases "v = a") simp_all
  qed simp
qed

lemma promote_all_up:
  assumes "promote_all ts cs clock now db = Inr (ms, db1)" "distinct (map t_id ts)"
  shows "tiers db1 = tiers db \<and> tier_position ts (tier_id (user_settings v db)) \<le> tier_position ts (tier_id (user_settings v db1)) \<and>
    (tier_locked (user_settings v db) \<longrightarrow> user_settings v db1 = user_settings v db)"
  using assms(1)
proof (induction cs arbitrary: db ms)
  case (Cons x cs)
  obtain c accs where x: "x = (c, accs)" by (cases x)
  with Cons.prems obtain moved dbm ms2 where one: "promote_one ts c clock now accs db = Inr (moved, dbm)"
    and rest: "promote_all ts cs clock now dbm = Inr (ms2, db1)"
    by (auto simp: map_sum_Inr split: sum.splits)
  from Cons.IH [OF rest] promote_one_up [OF one assms(2)] show ?case
    by (metis order_trans)
qed simp

subsection \<open>Properties\<close>

text \<open>
  C27: the job only moves accounts up: nobody's tier is lower after it, an account an
  administrator locked keeps its settings whatever the candidates say, and the tiers are
  as before. An account that is moved met every requirement of its new tier when the
  candidates were read, and the account as it is found under the lock is not suspended and
  still qualifies for that tier or a higher one.
\<close>

theorem promotion_sound:
  assumes "distinct (map t_id (tiers db))"
  shows "(promote ps cs clock now db = Inr (ms, db1) \<longrightarrow>
      tiers db1 = tiers db \<and>
      (\<forall>v. tier_position (list_tiers db) (tier_id (user_settings v db)) \<le> tier_position (list_tiers db) (tier_id (user_settings v db1)) \<and>
        (tier_locked (user_settings v db) \<longrightarrow> user_settings v db1 = user_settings v db))) \<and>
    (promote_one (list_tiers db) c clock now accs db = Inr (Some names, db2) \<longrightarrow>
      (\<exists>u k. tbl_one (\<lambda>x. acc_id x = acc_id (ca_account c)) accs = Some u \<and> \<not> is_suspended clock (Some u) \<and>
        0 < k \<and> k < length (list_tiers db) \<and> tier_id (user_settings (acc_id (ca_account c)) db2) = Some (t_id (list_tiers db ! k)) \<and>
        meets (list_tiers db ! k) (ca_account c, ca_days c, ca_tokens c) clock now \<and>
        k \<le> eligible_index (list_tiers db) ((ca_account c)\<lparr>suspended := suspended u, suspended_until := suspended_until u,
          last_suspension_at := last_suspension_at u\<rparr>, ca_days c, ca_tokens c) clock now))"
proof (intro conjI impI)
  have d: "distinct (map t_id (list_tiers db))"
    using assms mset_eq_imp_distinct_iff [of "map t_id (list_tiers db)" "map t_id (tiers db)"] by (simp add: list_tiers_def)
  assume "promote ps cs clock now db = Inr (ms, db1)"
  then have "db1 = db \<or> promote_all (list_tiers db) cs clock now db = Inr (ms, db1)"
    by (simp add: promote_def split: if_splits)
  then show "tiers db1 = tiers db" "\<forall>v. tier_position (list_tiers db) (tier_id (user_settings v db)) \<le> tier_position (list_tiers db) (tier_id (user_settings v db1)) \<and>
      (tier_locked (user_settings v db) \<longrightarrow> user_settings v db1 = user_settings v db)"
    using promote_all_up [of "list_tiers db" cs clock now db ms db1] d by blast+
next
  assume "promote_one (list_tiers db) c clock now accs db = Inr (Some names, db2)"
  then show "\<exists>u k. tbl_one (\<lambda>x. acc_id x = acc_id (ca_account c)) accs = Some u \<and> \<not> is_suspended clock (Some u) \<and>
      0 < k \<and> k < length (list_tiers db) \<and> tier_id (user_settings (acc_id (ca_account c)) db2) = Some (t_id (list_tiers db ! k)) \<and>
      meets (list_tiers db ! k) (ca_account c, ca_days c, ca_tokens c) clock now \<and>
      k \<le> eligible_index (list_tiers db) ((ca_account c)\<lparr>suspended := suspended u, suspended_until := suspended_until u,
        last_suspension_at := last_suspension_at u\<rparr>, ca_days c, ca_tokens c) clock now"
  proof (cases rule: promote_one_cases)
    case (moved a u)
    let ?k = "eligible_index (list_tiers db) (ca_account c, ca_days c, ca_tokens c) clock now"
    let ?fresh = "(ca_account c)\<lparr>suspended := suspended u, suspended_until := suspended_until u, last_suspension_at := last_suspension_at u\<rparr>"
    have k: "0 < ?k" using moved(3) by simp
    then have target: "?k < length (list_tiers db)" "meets (list_tiers db ! ?k) (ca_account c, ca_days c, ca_tokens c) clock now"
      using eligible_index_spec [of "list_tiers db" "(ca_account c, ca_days c, ca_tokens c)" clock now] by auto
    let ?f = "eligible_index (list_tiers db) (?fresh, ca_days c, ca_tokens c) clock now"
    have "meets (list_tiers db ! ?f) (?fresh, ca_days c, ca_tokens c) clock now"
      using k moved(7) eligible_index_spec [of "list_tiers db" "(?fresh, ca_days c, ca_tokens c)" clock now] by linarith
    moreover have "is_suspended clock (Some ?fresh) = is_suspended clock (Some u)" by (cases "ca_account c"; cases u) simp
    ultimately have "\<not> is_suspended clock (Some u)" by (simp add: meets_def requirements_def suspension_clean_def del: is_suspended.simps)
    with moved(1,2,7) k target user_settings_tier [OF moved(8)] show ?thesis by (intro exI [of _ u] exI [of _ ?k]) simp
  qed simp
qed

definition ex_tiers :: "tier list" where
  "ex_tiers = [\<lparr>t_id = 4, t_position = 1, t_name = ''Regular'', t_multiplier = 2, t_account_days = 10, t_active_days = 3, t_tokens_30d = 1000, t_clean_days = 30\<rparr>,
     \<lparr>t_id = 9, t_position = 0, t_name = ''Starter'', t_multiplier = 1, t_account_days = 0, t_active_days = 0, t_tokens_30d = 0, t_clean_days = 0\<rparr>]"

definition ex_tier_account :: account where
  "ex_tier_account = \<lparr>acc_id = ''u'', username = ''ann'', password = ''x'', role = ''user'', suspended = False, suspended_until = None,
     last_suspension_at = Some (At 0), invite_code = None, created_at = 0, last_login_at = None, session_version = 0, device_epoch = None,
     bm_mode_on = False, bm_mode_control = ''site''\<rparr>"

definition ex_tier_db :: limit_db where
  "ex_tier_db = \<lparr>pool_docs = [], model_docs = [], catalog_presets = [], accounts = [''u''], user_limits = [], overrides = [],
     model_limits = [], efforts = [], tiers = ex_tiers, next_tier = 10, grants = [], next_grant = 1, windows_tbl = [], rate_buckets = [],
     site_resets = (None, None)\<rparr>"

definition ex_candidate :: candidate where
  "ex_candidate = \<lparr>ca_account = ex_tier_account, ca_tier = None, ca_locked = False, ca_days = 5, ca_tokens = 1000\<rparr>"

theorem promotion_sound_witness:
  "\<exists>db2. promote_one (list_tiers ex_tier_db) ex_candidate 8640000 8640000 [ex_tier_account] ex_tier_db = Inr (Some (''Starter'', ''Regular''), db2) \<and>
    (\<exists>u k. tbl_one (\<lambda>x. acc_id x = acc_id (ca_account ex_candidate)) [ex_tier_account] = Some u \<and> 0 < k \<and>
      tier_id (user_settings (acc_id (ca_account ex_candidate)) db2) = Some (t_id (list_tiers ex_tier_db ! k)))"
proof -
  have l: "list_tiers ex_tier_db = [ex_tiers ! 1, ex_tiers ! 0]"
    by (simp add: list_tiers_def ex_tier_db_def ex_tiers_def)
  obtain db2 where one: "promote_one (list_tiers ex_tier_db) ex_candidate 8640000 8640000 [ex_tier_account] ex_tier_db = Inr (Some (''Starter'', ''Regular''), db2)"
    unfolding l
    by (simp add: promote_one_def ex_candidate_def ex_tier_account_def eligible_index_def meets_def requirements_def suspension_clean_def
        tier_position_def ex_tiers_def py_round_def tbl_simps update_user_settings_def setting_error_def known_def user_settings_def
        no_settings_def ex_tier_db_def Let_def)
  have "distinct (map t_id (tiers ex_tier_db))" by (simp add: ex_tier_db_def ex_tiers_def)
  from promotion_sound [OF this, of "[]" "[]" 8640000 8640000 "[]" ex_tier_db ex_candidate "[ex_tier_account]" "(''Starter'', ''Regular'')" db2] one
  show ?thesis by blast
qed

end
