(* ===== verification/Limit_Decisions.thy ===== *)
theory Limit_Decisions
  imports Limit_Rates Tier_Promotion
begin

section \<open>Limits in force and admission\<close>

text \<open>
  How bananachat/services/limits.py combines policy, custom limits, tier, demand, capacity, bonus, grants and
  renounced tokens into the windows of a service and of a model, what was used of them
  (the ledger and the reservations), and the admission check of a request.
\<close>

record cat_model =
  cm_id :: int
  cm_preset :: "string option"
  cm_name :: string
  cm_display :: "string option"
  cm_provider :: "string option"
  cm_published :: bool

record ledger_row =
  lr_user :: string
  lr_token :: "int option"
  lr_model :: "int option"
  lr_type :: string
  lr_credits :: rat
  lr_in :: int
  lr_out :: int
  lr_at :: stamp
  lr_estimated :: bool
  lr_consumes :: bool

record reservation =
  rs_id :: int
  rs_user :: string
  rs_token :: "int option"
  rs_model :: "int option"
  rs_credits :: rat
  rs_created :: stamp
  rs_updated :: "stamp option"

text \<open>A row of \<open>quota_request_votes\<close>: a vote on a request, with the tokens it renounces.\<close>

record pledge =
  pl_id :: int
  pl_request :: int
  pl_user :: string
  pl_supports :: bool
  pl_tokens :: int
  pl_pool :: "string option"
  pl_model :: "int option"
  pl_scope :: "string option"
  pl_starts :: "stamp option"
  pl_ends :: "stamp option"
  pl_released :: "stamp option"
  pl_created :: stamp
  pl_updated :: stamp

text \<open>The columns of the site's settings that decide; NULL is \<open>None\<close>.\<close>

record site_settings =
  music_enabled :: bool
  music_mode :: "string option"
  music_multiplier :: "rat option"
  music_fixed_tokens :: "rat option"
  music_fixed_credits :: "rat option"
  music_weekly_tokens :: "rat option"
  chat_local_consumption :: "int option"
  chat_cloud_consumption :: "int option"
  fallback_to_local :: "int option"
  fallback_to_cloud :: "int option"

text \<open>\<open>models\<close>: the catalog (\<open>catalog_presets\<close> is its ids and presets); \<open>members\<close>: accounts with their role and music choice.\<close>

record usage_db = limit_db +
  models :: "cat_model list"
  members :: "(string \<times> bool \<times> bool) list"
  ledger :: "ledger_row list"
  reservations :: "reservation list"
  next_reservation :: int
  pledges :: "pledge list"
  next_pledge :: int

definition UNLIMITED :: rat where "UNLIMITED = 10 ^ 12"

definition POOL_TYPES :: "string \<Rightarrow> string list" where
  "POOL_TYPES pool =
     (if pool = ''api'' then [''api'', ''playground''] else if pool = ''chat'' then [''chat'', ''chat_incognito'']
      else if pool = ''agent'' then [''agent''] else [])"

subsection \<open>What was used\<close>

definition since_ok :: "stamp option \<Rightarrow> stamp \<Rightarrow> bool" where
  "since_ok since tm \<longleftrightarrow> (case since of None \<Rightarrow> False | Some s \<Rightarrow> s \<le> tm)"

definition usage :: "string \<Rightarrow> string \<Rightarrow> stamp option \<Rightarrow> stamp option \<Rightarrow> ('a) usage_db_scheme \<Rightarrow> rat \<times> rat" where
  "usage u pool window_since weekly_since db =
     (let mine = filter (\<lambda>r. lr_user r = u \<and> lr_type r \<in> set (POOL_TYPES pool)) (ledger db);
          reserved = (if pool = ''api'' then (\<Sum>r \<leftarrow> filter (\<lambda>r. rs_user r = u) (reservations db). rs_credits r) else 0);
          used = (\<lambda>since. (\<Sum>r \<leftarrow> filter (\<lambda>r. since_ok since (lr_at r)) mine. lr_credits r))
      in (used window_since * 1000 + reserved * 1000, used weekly_since * 1000 + reserved * 1000))"

definition model_usage :: "string \<Rightarrow> int \<Rightarrow> stamp option \<Rightarrow> stamp option \<Rightarrow> ('a) usage_db_scheme \<Rightarrow> rat \<times> rat" where
  "model_usage u i window_since weekly_since db =
     (let mine = filter (\<lambda>r. lr_user r = u \<and> lr_model r = Some i \<and> lr_consumes r) (ledger db);
          reserved = (\<Sum>r \<leftarrow> filter (\<lambda>r. rs_user r = u \<and> rs_model r = Some i) (reservations db). rs_credits r);
          used = (\<lambda>since. (\<Sum>r \<leftarrow> filter (\<lambda>r. since_ok since (lr_at r)) mine. of_int (lr_in r + lr_out r)))
      in (used window_since + reserved * 1000, used weekly_since + reserved * 1000))"

definition active_pledges :: "string \<Rightarrow> stamp \<Rightarrow> ('a) usage_db_scheme \<Rightarrow> pledge list" where
  "active_pledges u tm db =
     filter (\<lambda>p. pl_user p = u \<and> pl_supports p \<and> 0 < pl_tokens p \<and> pl_released p = None \<and>
       (case pl_starts p of None \<Rightarrow> False | Some s \<Rightarrow> s \<le> tm) \<and> (case pl_ends p of None \<Rightarrow> False | Some e \<Rightarrow> tm < e)) (pledges db)"

text \<open>Tokens the account renounced for others in one limit, and until when.\<close>

definition renounced :: "string \<Rightarrow> stamp \<Rightarrow> string option \<Rightarrow> int option \<Rightarrow> string \<Rightarrow> ('a) usage_db_scheme \<Rightarrow> rat \<times> stamp option" where
  "renounced u tm pool i scope db =
     (let ps = filter (\<lambda>p. pl_pool p = pool \<and> pl_model p = i \<and> pl_scope p = Some scope) (active_pledges u tm db) in
      (of_int (\<Sum>p \<leftarrow> ps. pl_tokens p), (case List.map_filter pl_ends ps of [] \<Rightarrow> None | e # es \<Rightarrow> Some (foldl max e es))))"

subsection \<open>Music bonus\<close>

datatype bonus = No_Bonus | Multiply rat | Fixed_Tokens rat

definition music_fixed :: "site_settings \<Rightarrow> rat" where
  "music_fixed s =
     (case music_fixed_tokens s of Some t \<Rightarrow> t
      | None \<Rightarrow> (case music_fixed_credits s of None \<Rightarrow> 30 | Some c \<Rightarrow> c) * 1000)"

definition music_weekly_fixed :: "site_settings \<Rightarrow> rat" where
  "music_weekly_fixed s = (case music_weekly_tokens s of Some t \<Rightarrow> t | None \<Rightarrow> music_fixed s * 7)"

definition music_bonus :: "string \<Rightarrow> site_settings \<Rightarrow> ('a) usage_db_scheme \<Rightarrow> bonus" where
  "music_bonus u s db =
     (if \<not> music_enabled s \<or> \<not> list_ex (\<lambda>m. fst m = u \<and> snd (snd m)) (members db) then No_Bonus
      else if music_mode s = Some ''fixed'' then Fixed_Tokens (music_fixed s)
      else Multiply (case music_multiplier s of None \<Rightarrow> 2 | Some m \<Rightarrow> max 0 m))"

subsection \<open>One window\<close>

record window =
  wn_limited :: bool
  wn_tokens :: rat
  wn_used :: rat
  wn_open :: bool
  wn_starts :: "stamp option"
  wn_resets :: "stamp option"
  wn_base :: rat
  wn_custom :: bool
  wn_reasons :: "reason list"

definition window_left :: "window \<Rightarrow> rat" where
  "window_left w = (if \<not> wn_limited w then UNLIMITED else max 0 (wn_tokens w - wn_used w))"

definition window_exhausted :: "window \<Rightarrow> bool" where
  "window_exhausted w \<longleftrightarrow> wn_limited w \<and> window_left w \<le> 0"

definition whole :: "rat \<Rightarrow> rat" where
  "whole v = of_int \<lfloor>v + 1 / 10 ^ 6\<rfloor>"

text \<open>What goes into a window: whether the policy limits it, its tokens and tiers, and the account's custom amount.\<close>

record window_terms =
  wt_enabled :: bool
  wt_tokens :: int
  wt_auto_tiers :: bool
  wt_custom :: "rat option"
  wt_tier :: "tier option"
  wt_dynamic :: "rat option"
  wt_bonus :: bonus
  wt_grants :: "grant list"
  wt_capacity :: rat
  wt_renounced :: "rat \<times> stamp option"

definition tier_factor :: "bool \<Rightarrow> tier option \<Rightarrow> rat" where
  "tier_factor auto_tiers t = (case t of Some x \<Rightarrow> if auto_tiers then t_multiplier x else 1 | None \<Rightarrow> 1)"

definition base_tokens :: "window_terms \<Rightarrow> rat" where
  "base_tokens t = (case wt_custom t of Some c \<Rightarrow> c | None \<Rightarrow> of_int (wt_tokens t) * tier_factor (wt_auto_tiers t) (wt_tier t))"

text \<open>A custom amount is never lowered by demand.\<close>

definition after_demand :: "window_terms \<Rightarrow> rat \<Rightarrow> rat" where
  "after_demand t tokens =
     (case wt_dynamic t of None \<Rightarrow> tokens
      | Some d \<Rightarrow> if d = 1 \<or> (wt_custom t \<noteq> None \<and> d < 1) then tokens else tokens * d)"

definition after_capacity :: "window_terms \<Rightarrow> rat \<Rightarrow> rat" where
  "after_capacity t tokens = (if wt_capacity t < 1 then tokens * wt_capacity t else tokens)"

definition after_bonus :: "bonus \<Rightarrow> rat \<Rightarrow> rat" where
  "after_bonus b tokens = (case b of No_Bonus \<Rightarrow> tokens | Multiply m \<Rightarrow> tokens * m | Fixed_Tokens n \<Rightarrow> tokens + n)"

definition after_grants :: "string \<Rightarrow> grant list \<Rightarrow> rat \<Rightarrow> rat" where
  "after_grants period gs tokens =
     (case grant_parts gs period of (_, multipliers, extras) \<Rightarrow>
        foldl (\<lambda>n g. n + g_amount g) (foldl (\<lambda>n g. n * g_amount g) tokens multipliers) extras)"

definition after_renounced :: "rat \<times> stamp option \<Rightarrow> rat \<Rightarrow> rat" where
  "after_renounced r tokens = (if 0 < fst r then max 0 (tokens - fst r) else tokens)"

definition window_reasons :: "string \<Rightarrow> window_terms \<Rightarrow> reason list" where
  "window_reasons period t =
     (let tf = tier_factor (wt_auto_tiers t) (wt_tier t);
          (unlimited, multipliers, extras) = grant_parts (wt_grants t) period
      in (if wt_custom t \<noteq> None then Is_Custom else Is_Default) #
         (case wt_tier t of Some x \<Rightarrow> if tf \<noteq> 1 \<and> wt_custom t = None then [From_Tier (t_name x) tf] else [] | None \<Rightarrow> []) @
         (case wt_dynamic t of None \<Rightarrow> []
          | Some d \<Rightarrow> if d = 1 then [] else if wt_custom t \<noteq> None \<and> d < 1 then [Custom_Floor]
              else if 1 < d then [Dynamic_Up d] else [Dynamic_Down d]) @
         (if wt_capacity t < 1 then [Low_Capacity (wt_capacity t)] else []) @
         (case wt_bonus t of No_Bonus \<Rightarrow> [] | Multiply m \<Rightarrow> if m = 1 then [] else [Music_Multiplier m] | Fixed_Tokens n \<Rightarrow> [Music_Fixed n]) @
         (case unlimited of g # _ \<Rightarrow> [From_Grant g]
          | [] \<Rightarrow> map From_Grant multipliers @ map From_Grant extras @
              (if 0 < fst (wt_renounced t) then [Renounced (fst (wt_renounced t)) (snd (wt_renounced t))] else [])))"

definition window_in_force :: "string \<Rightarrow> window_terms \<Rightarrow> bool option \<Rightarrow> stamp option \<Rightarrow> rat \<Rightarrow> int \<Rightarrow> window" where
  "window_in_force period t limited_override started used seconds =
     (let limited = (case limited_override of Some b \<Rightarrow> b | None \<Rightarrow> wt_enabled t \<or> wt_custom t \<noteq> None);
          ends = map_option (\<lambda>s. s + seconds) started;
          base = base_tokens t;
          free = \<lparr>wn_limited = False, wn_tokens = UNLIMITED, wn_used = used, wn_open = (started \<noteq> None), wn_starts = started, wn_resets = ends,
            wn_base = base, wn_custom = (wt_custom t \<noteq> None), wn_reasons = [Not_Limited]\<rparr>;
          tokens = after_renounced (wt_renounced t)
            (after_grants period (wt_grants t) (after_bonus (wt_bonus t) (after_capacity t (after_demand t base))))
      in if \<not> limited then free
         else if fst (grant_parts (wt_grants t) period) \<noteq> [] then free\<lparr>wn_reasons := window_reasons period t\<rparr>
         else free\<lparr>wn_limited := True, wn_tokens := whole tokens, wn_base := whole base, wn_reasons := window_reasons period t\<rparr>)"

subsection \<open>When a window counts from\<close>

definition open_since :: "stamp option \<Rightarrow> int \<Rightarrow> epoch \<Rightarrow> stamp option" where
  "open_since started seconds now =
     (case started of None \<Rightarrow> None | Some s \<Rightarrow> if of_int (s + seconds) \<le> now then None else Some s)"

definition latest :: "stamp option list \<Rightarrow> stamp option" where
  "latest xs = (case List.map_filter id xs of [] \<Rightarrow> None | y # ys \<Rightarrow> Some (foldl max y ys))"

text \<open>The starts of the open windows, and from when usage counts in each.\<close>

definition starts ::
  "string \<Rightarrow> string \<Rightarrow> epoch \<Rightarrow> ('a) limit_db_scheme \<Rightarrow> (stamp option \<times> stamp option) \<times> (stamp option \<times> stamp option)" where
  "starts u scope now db =
     (let (ws, ks) = stored_window u scope db; prefs = user_settings u db; (gw, gk) = site_resets db;
          window_start = open_since ws WINDOW_SECONDS now; week_start = open_since ks WEEK_SECONDS now
      in ((window_start, week_start),
          (if window_start = None then None else latest [window_start, usage_reset_at prefs, weekly_reset_at prefs, gw, gk],
           if week_start = None then None else latest [week_start, weekly_reset_at prefs, gk])))"

subsection \<open>The limits of a service\<close>

record effective_limits =
  ef_pool :: string
  ef_admin :: bool
  ef_rate :: rate_limit
  ef_window :: window
  ef_weekly :: window
  ef_speed :: string

definition admin_window :: window where
  "admin_window = \<lparr>wn_limited = False, wn_tokens = UNLIMITED, wn_used = 0, wn_open = False, wn_starts = None, wn_resets = None,
     wn_base = 0, wn_custom = False, wn_reasons = [Is_Admin]\<rparr>"

definition admin_result :: "string \<Rightarrow> effective_limits" where
  "admin_result pool = \<lparr>ef_pool = pool, ef_admin = True, ef_rate = no_rate Is_Admin, ef_window = admin_window, ef_weekly = admin_window,
     ef_speed = ''normal''\<rparr>"

text \<open>A custom amount; one from an automatically approved request is a floor under the policy's, with its tier.\<close>

definition custom_amount :: "int option \<Rightarrow> bool \<Rightarrow> section_policy \<Rightarrow> tier option \<Rightarrow> rat option" where
  "custom_amount value automatic s t =
     map_option (\<lambda>v. if automatic then max (of_int v) (whole (of_int (sec_tokens s) * tier_factor (sec_auto_tiers s) t)) else of_int v) value"

text \<open>The tokens of one period of a service.\<close>

definition period_terms ::
  "pool_policy \<Rightarrow> override \<Rightarrow> user_limit \<Rightarrow> tier option \<Rightarrow> rat option \<Rightarrow> bonus \<Rightarrow> grant list \<Rightarrow> rat \<times> stamp option \<Rightarrow> bool \<Rightarrow> window_terms" where
  "period_terms p o1 prefs t dynamic b gs ren weekly =
     (let s = (if weekly then weekly_policy p else window_policy p);
          custom = (if weekly then custom_amount (o_weekly o1) (''weekly_tokens'' \<in> set (o_automatic o1)) s t
                    else custom_amount (o_window o1) (''window_tokens'' \<in> set (o_automatic o1)) s t)
      in \<lparr>wt_enabled = sec_enabled s, wt_tokens = sec_tokens s, wt_auto_tiers = sec_auto_tiers s, wt_custom = custom, wt_tier = t,
          wt_dynamic = (if sec_dynamic s then dynamic else None), wt_bonus = b, wt_grants = gs, wt_capacity = 1, wt_renounced = ren\<rparr>)"

definition effective ::
  "string \<times> bool \<Rightarrow> string \<Rightarrow> site_settings \<Rightarrow> demand \<Rightarrow> epoch \<Rightarrow> ('a) usage_db_scheme \<Rightarrow> limit_error + effective_limits" where
  "effective user pool site load now db =
     (let (u, admin) = user; tm = \<lfloor>now\<rfloor>; prefs = user_settings u db in
      if pool \<notin> set POOLS then Inl Unknown_Pool
      else if admin then Inr (admin_result pool)
      else case get_pool_policy pool db of Inl e \<Rightarrow> Inl e
      | Inr p \<Rightarrow>
     (case own_override u pool db of Inl e \<Rightarrow> Inl e
      | Inr o1 \<Rightarrow>
          let tiers_apply = sec_auto_tiers (window_policy p) \<or> sec_auto_tiers (weekly_policy p);
              t = (if tiers_apply then resolve_tier (tier_id prefs) (list_tiers db) else None);
              applies = \<not> dynamic_exempt prefs \<and> (rate_dynamic p \<or> sec_dynamic (window_policy p) \<or> sec_dynamic (weekly_policy p));
              dynamic = (if applies then Some (dynamic_for load) else None);
              gs = pool_grants u pool tm db;
              b = music_bonus u site db;
              weekly_b = (case b of Fixed_Tokens _ \<Rightarrow> Fixed_Tokens (music_weekly_fixed site) | _ \<Rightarrow> b);
              ((ws, ks), (wsince, ksince)) = starts u (pool_scope pool) now db;
              (used, weekly_used) = usage u pool wsince ksince db;
              off = (if token_exempt prefs then Some False else None);
              w = window_in_force ''window'' (period_terms p o1 prefs t dynamic b gs (renounced u tm (Some pool) None ''window'' db) False)
                off ws (round_to 2 used) WINDOW_SECONDS;
              k = window_in_force ''weekly'' (period_terms p o1 prefs t dynamic weekly_b gs (renounced u tm (Some pool) None ''weekly'' db) True)
                off ks (round_to 2 weekly_used) WEEK_SECONDS;
              r = (if rate_exempt prefs then no_rate Not_Limited
                   else rate_in_force (rate_enabled p) (rate_rules p) (o_rules o1) dynamic (rate_dynamic p) gs 1)
          in Inr \<lparr>ef_pool = pool, ef_admin = False, ef_rate = r, ef_window = w, ef_weekly = k, ef_speed = ul_speed prefs\<rparr>))"

subsection \<open>Budgets\<close>

record budget =
  bg_unlimited :: bool
  bg_limit :: rat
  bg_used :: rat
  bg_weekly_limit :: "rat option"
  bg_weekly_used :: rat
  bg_resets :: "stamp option"
  bg_weekly_resets :: "stamp option"

definition budget_of :: "effective_limits \<Rightarrow> budget" where
  "budget_of e =
     (let w = ef_window e; k = ef_weekly e in
      if ef_admin e \<or> \<not> (wn_limited w \<or> wn_limited k)
      then \<lparr>bg_unlimited = True, bg_limit = UNLIMITED, bg_used = 0, bg_weekly_limit = None, bg_weekly_used = 0,
         bg_resets = wn_resets w, bg_weekly_resets = wn_resets k\<rparr>
      else \<lparr>bg_unlimited = False, bg_limit = (if wn_limited w then wn_tokens w else UNLIMITED), bg_used = wn_used w,
         bg_weekly_limit = (if wn_limited k then Some (wn_tokens k) else None), bg_weekly_used = wn_used k,
         bg_resets = wn_resets w, bg_weekly_resets = wn_resets k\<rparr>)"

definition weekly_left :: "budget \<Rightarrow> rat" where
  "weekly_left b =
     (if bg_unlimited b then UNLIMITED
      else case bg_weekly_limit b of None \<Rightarrow> UNLIMITED | Some l \<Rightarrow> max 0 (l - bg_weekly_used b))"

definition regular_left :: "budget \<Rightarrow> rat" where
  "regular_left b = (if bg_unlimited b then UNLIMITED else min (max 0 (bg_limit b - bg_used b)) (weekly_left b))"

definition available :: "budget \<Rightarrow> bool" where
  "available b \<longleftrightarrow> bg_unlimited b \<or> 0 < regular_left b"

definition weekly_exhausted :: "budget \<Rightarrow> bool" where
  "weekly_exhausted b \<longleftrightarrow> \<not> bg_unlimited b \<and> bg_weekly_limit b \<noteq> None \<and> weekly_left b \<le> 0"

definition seconds_until :: "stamp option \<Rightarrow> epoch \<Rightarrow> int" where
  "seconds_until moment now = (case moment of None \<Rightarrow> 3600 | Some t \<Rightarrow> max 60 \<lceil>of_int t - now\<rceil>)"

definition seconds_until_reset :: "budget \<Rightarrow> epoch \<Rightarrow> int" where
  "seconds_until_reset b now = seconds_until (if weekly_exhausted b then bg_weekly_resets b else bg_resets b) now"

subsection \<open>What counts\<close>

definition int_parse :: "string \<Rightarrow> int option" where
  "int_parse t =
     (let (neg, s) = sign_of (strip t) in
      if digits_ok False s then Some (if neg then - int (digits_value s) else int (digits_value s)) else None)"

text \<open>\<open>local_ids\<close>: the external providers marked as the operator's own hardware.\<close>

definition is_local :: "int list \<Rightarrow> cat_model \<Rightarrow> bool" where
  "is_local local_ids m =
     (case cm_provider m of None \<Rightarrow> True
      | Some p \<Rightarrow>
          if p \<in> {[], ''ollama'', ''comfyui'', ''local''} then True
          else if prefix ''external:'' p then
            (case int_parse (takeWhile (\<lambda>c. c \<noteq> CHR '':'') (drop 9 p)) of None \<Rightarrow> False | Some i \<Rightarrow> i \<in> set local_ids)
          else False)"

definition consumes_token_limits :: "int list \<Rightarrow> site_settings \<Rightarrow> cat_model option \<Rightarrow> string option \<Rightarrow> bool" where
  "consumes_token_limits local_ids site model pool =
     (case model of None \<Rightarrow> True
      | Some m \<Rightarrow>
          if pool \<noteq> Some ''chat'' then True
          else let loc = is_local local_ids m in
            (case (if loc then chat_local_consumption site else chat_cloud_consumption site) of
               None \<Rightarrow> \<not> loc | Some n \<Rightarrow> n \<noteq> 0))"

definition counts_toward_pool :: "int list \<Rightarrow> cat_model \<Rightarrow> model_policy \<Rightarrow> bool" where
  "counts_toward_pool local_ids m p = (case mp_counts_toward_pool p of Some b \<Rightarrow> b | None \<Rightarrow> is_local local_ids m)"

definition charge_terms :: "int list \<Rightarrow> int option \<Rightarrow> ('a) usage_db_scheme \<Rightarrow> limit_error + (rat \<times> bool)" where
  "charge_terms local_ids i db =
     (case (case i of None \<Rightarrow> None | Some x \<Rightarrow> tbl_one (\<lambda>m. cm_id m = x) (models db)) of
        None \<Rightarrow> Inr (1, True)
      | Some m \<Rightarrow> map_sum id (\<lambda>p. (mp_weight p, counts_toward_pool local_ids m p)) (get_model_policy (cm_id m, cm_preset m) db))"

subsection \<open>The limits of a model\<close>

record model_limits_in_force =
  mm_id :: int
  mm_admin :: bool
  mm_weight :: rat
  mm_counts :: bool
  mm_locked :: bool
  mm_rate :: rate_limit
  mm_window :: window
  mm_weekly :: window
  mm_capacity :: rat

definition model_terms ::
  "model_policy \<Rightarrow> model_override \<Rightarrow> tier option \<Rightarrow> rat option \<Rightarrow> grant list \<Rightarrow> rat \<Rightarrow> rat \<times> stamp option \<Rightarrow> bool \<Rightarrow> window_terms" where
  "model_terms p o1 t dynamic gs capacity ren weekly =
     (let amount = (if weekly then mp_weekly_tokens p else mp_window_tokens p);
          custom = (if weekly then m_weekly o1 else m_window o1)
      in \<lparr>wt_enabled = (mp_enabled p \<and> amount \<noteq> None), wt_tokens = (case amount of None \<Rightarrow> 0 | Some n \<Rightarrow> n), wt_auto_tiers = mp_auto_tiers p,
          wt_custom = map_option of_int custom, wt_tier = t, wt_dynamic = dynamic, wt_bonus = No_Bonus, wt_grants = gs,
          wt_capacity = capacity, wt_renounced = ren\<rparr>)"

definition model_scope :: "int \<Rightarrow> string" where
  "model_scope i = ''model:'' @ int_text i"

text \<open>\<open>report\<close>: what the model's provider says it has left.\<close>

definition model_limits_of ::
  "string \<times> bool \<Rightarrow> cat_model \<Rightarrow> model_policy \<Rightarrow> int list \<Rightarrow> demand \<Rightarrow> (rat option \<times> rat option) option \<Rightarrow> epoch \<Rightarrow> ('a) usage_db_scheme
    \<Rightarrow> limit_error + model_limits_in_force" where
  "model_limits_of user m p local_ids load report now db =
     (let (u, admin) = user; tm = \<lfloor>now\<rfloor>; counts = counts_toward_pool local_ids m p in
      if admin then Inr \<lparr>mm_id = cm_id m, mm_admin = True, mm_weight = mp_weight p, mm_counts = counts, mm_locked = False,
         mm_rate = no_rate Is_Admin, mm_window = admin_window, mm_weekly = admin_window, mm_capacity = 1\<rparr>
      else case own_model_override u (cm_id m) db of Inl e \<Rightarrow> Inl e
      | Inr o1 \<Rightarrow>
          let prefs = user_settings u db;
              off = (if mp_tokens_enabled p \<and> \<not> (token_exempt prefs \<or> m_token_exempt o1) then None else Some False);
              t = (if mp_auto_tiers p \<and> mp_enabled p then resolve_tier (tier_id prefs) (list_tiers db) else None);
              dynamic = model_dynamic p prefs load;
              capacity = capacity_factor report;
              gs = filter (for_model (cm_id m)) (active_grants u tm db);
              ((ws, ks), (wsince, ksince)) = starts u (model_scope (cm_id m)) now db;
              (used, weekly_used) = model_usage u (cm_id m) wsince ksince db
          in Inr \<lparr>mm_id = cm_id m, mm_admin = False, mm_weight = mp_weight p, mm_counts = counts, mm_locked = m_locked o1,
              mm_rate = model_rate p o1 prefs load capacity gs,
              mm_window = window_in_force ''window''
                (model_terms p o1 t dynamic gs capacity (renounced u tm None (Some (cm_id m)) ''window'' db) False) off ws (round_to 2 used) WINDOW_SECONDS,
              mm_weekly = window_in_force ''weekly''
                (model_terms p o1 t dynamic gs capacity (renounced u tm None (Some (cm_id m)) ''weekly'' db) True) off ks (round_to 2 weekly_used) WEEK_SECONDS,
              mm_capacity = capacity\<rparr>)"

subsection \<open>Admission\<close>

record refusal =
  rf_code :: string
  rf_status :: int
  rf_retry :: "int option"
  rf_key :: string

definition pool_refusal :: "budget \<Rightarrow> epoch \<Rightarrow> refusal" where
  "pool_refusal b now =
     (if weekly_exhausted b
      then \<lparr>rf_code = ''insufficient_quota'', rf_status = 429, rf_retry = Some (seconds_until_reset b now), rf_key = ''weekly''\<rparr>
      else if bg_resets b = None
      then \<lparr>rf_code = ''insufficient_quota'', rf_status = 429, rf_retry = Some 3600, rf_key = ''window_none''\<rparr>
      else \<lparr>rf_code = ''insufficient_quota'', rf_status = 429, rf_retry = Some (seconds_until_reset b now), rf_key = ''window''\<rparr>)"

definition model_refusal :: "model_limits_in_force \<Rightarrow> bool \<Rightarrow> epoch \<Rightarrow> refusal option" where
  "model_refusal l consume now =
     (if mm_admin l then None
      else if mm_locked l then Some \<lparr>rf_code = ''model_locked'', rf_status = 403, rf_retry = None, rf_key = ''model_locked''\<rparr>
      else if mm_capacity l \<le> 0
      then Some \<lparr>rf_code = ''insufficient_quota'', rf_status = 429, rf_retry = Some 3600, rf_key = ''model_window_none''\<rparr>
      else if \<not> consume then None
      else if window_exhausted (mm_weekly l)
      then Some \<lparr>rf_code = ''insufficient_quota'', rf_status = 429, rf_retry = Some (seconds_until (wn_resets (mm_weekly l)) now), rf_key = ''model_weekly''\<rparr>
      else if window_exhausted (mm_window l)
      then (if wn_resets (mm_window l) = None
        then Some \<lparr>rf_code = ''insufficient_quota'', rf_status = 429, rf_retry = Some 3600, rf_key = ''model_window_none''\<rparr>
        else Some \<lparr>rf_code = ''insufficient_quota'', rf_status = 429, rf_retry = Some (seconds_until (wn_resets (mm_window l)) now), rf_key = ''model_window''\<rparr>)
      else None)"

record admission =
  ad_refusal :: "refusal option"
  ad_budget :: budget
  ad_model :: "model_limits_in_force option"
  ad_rate :: "rate_decision option"

text \<open>
  \<open>admit\<close>. The answer is \<open>None\<close> when the rate check divides by a rate of zero. The model's policy and
  limits are read in one snapshot; \<open>clock\<close> is the reading for the buckets.
\<close>

definition answer :: "refusal option \<Rightarrow> budget \<Rightarrow> model_limits_in_force option \<Rightarrow> rate_decision option \<Rightarrow> admission option" where
  "answer r b l d = Some \<lparr>ad_refusal = r, ad_budget = b, ad_model = l, ad_rate = d\<rparr>"

definition admit_rate ::
  "string \<Rightarrow> cat_model \<Rightarrow> model_limits_in_force \<Rightarrow> budget \<Rightarrow> budget \<Rightarrow> epoch \<Rightarrow> ('a) usage_db_scheme \<Rightarrow> admission option \<times> ('a) usage_db_scheme" where
  "admit_rate u m l b ok clock db =
     (case take_request (''model'' @ int_text (cm_id m)) u (mm_rate l) clock (rate_buckets db) of
        (None, rows) \<Rightarrow> (None, db\<lparr>rate_buckets := rows\<rparr>)
      | (Some d, rows) \<Rightarrow>
          (answer (if rd_allowed d then None
             else Some \<lparr>rf_code = ''rate_limit_exceeded'', rf_status = 429, rf_retry = Some (rd_retry d), rf_key = ''model_rate''\<rparr>)
             (if rd_allowed d then ok else b) (Some l) (Some d), db\<lparr>rate_buckets := rows\<rparr>))"

definition admit_model ::
  "string \<times> bool \<Rightarrow> cat_model \<Rightarrow> model_policy \<Rightarrow> bool \<Rightarrow> budget \<Rightarrow> budget \<Rightarrow> bool \<Rightarrow> int list \<Rightarrow> demand \<Rightarrow> (rat option \<times> rat option) option
    \<Rightarrow> epoch \<Rightarrow> epoch \<Rightarrow> ('a) usage_db_scheme \<Rightarrow> limit_error + (admission option \<times> ('a) usage_db_scheme)" where
  "admit_model user m p consume b ok take_rate local_ids load report now clock db =
     (case model_limits_of user m p local_ids load report now db of
        Inl e \<Rightarrow> Inl e
      | Inr l \<Rightarrow>
          (case model_refusal l consume now of
             Some r \<Rightarrow> Inr (answer (Some r) b (Some l) None, db)
           | None \<Rightarrow>
               if \<not> (take_rate \<and> rl_limited (mm_rate l)) then Inr (answer None ok (Some l) None, db)
               else Inr (admit_rate (fst user) m l b ok clock db)))"

definition read_budget ::
  "bool \<Rightarrow> string \<times> bool \<Rightarrow> string \<Rightarrow> site_settings \<Rightarrow> demand \<Rightarrow> epoch \<Rightarrow> ('a) usage_db_scheme \<Rightarrow> limit_error + budget" where
  "read_budget consume user pool site load now db =
     (if consume then map_sum id budget_of (effective user pool site load now db) else Inr (budget_of (admin_result pool)))"

definition admit ::
  "string \<times> bool \<Rightarrow> string \<Rightarrow> cat_model option \<Rightarrow> bool \<Rightarrow> int list \<Rightarrow> site_settings \<Rightarrow> demand \<Rightarrow> (rat option \<times> rat option) option
    \<Rightarrow> epoch \<Rightarrow> epoch \<Rightarrow> ('a) usage_db_scheme \<Rightarrow> limit_error + (admission option \<times> ('a) usage_db_scheme)" where
  "admit user pool model take_rate local_ids site load report now clock db =
     (let free = budget_of (admin_result pool); consume = consumes_token_limits local_ids site model (Some pool) in
      if snd user then Inr (answer None free None None, db)
      else case model of
        None \<Rightarrow>
          map_sum id (\<lambda>b. (answer (if consume \<and> \<not> available b then Some (pool_refusal b now) else None) b None None, db))
            (read_budget consume user pool site load now db)
      | Some m \<Rightarrow>
          (case get_model_policy (cm_id m, cm_preset m) db of Inl e \<Rightarrow> Inl e
           | Inr p \<Rightarrow>
          (case read_budget consume user pool site load now db of Inl e \<Rightarrow> Inl e
           | Inr b \<Rightarrow>
               let counted = consume \<and> counts_toward_pool local_ids m p in
               if counted \<and> \<not> available b then Inr (answer (Some (pool_refusal b now)) b None None, db)
               else admit_model user m p consume b (if counted then b else free) take_rate local_ids load report now clock db)))"

text \<open>\<open>model_blocked\<close>: the same checks, taking nothing.\<close>

definition model_blocked ::
  "string \<times> bool \<Rightarrow> cat_model \<Rightarrow> string option \<Rightarrow> int list \<Rightarrow> site_settings \<Rightarrow> demand \<Rightarrow> (cat_model \<Rightarrow> (rat option \<times> rat option) option)
    \<Rightarrow> epoch \<Rightarrow> ('a) usage_db_scheme \<Rightarrow> limit_error + bool" where
  "model_blocked user m pool local_ids site load report now db =
     (if snd user then Inr False
      else case get_model_policy (cm_id m, cm_preset m) db of Inl e \<Rightarrow> Inl e
      | Inr p \<Rightarrow>
          let consume = consumes_token_limits local_ids site (Some m) pool in
          (case (case pool of None \<Rightarrow> Inr False
                 | Some pl \<Rightarrow> if consume \<and> counts_toward_pool local_ids m p
                     then map_sum id (\<lambda>e. \<not> available (budget_of e)) (effective user pl site load now db) else Inr False) of
             Inl e \<Rightarrow> Inl e
           | Inr True \<Rightarrow> Inr True
           | Inr False \<Rightarrow> map_sum id (\<lambda>l. model_refusal l consume now \<noteq> None) (model_limits_of user m p local_ids load (report m) now db)))"

subsection \<open>Other models for a request\<close>

definition on_unless_off :: "int option \<Rightarrow> bool" where
  "on_unless_off v = (case v of None \<Rightarrow> True | Some n \<Rightarrow> n \<noteq> 0)"

definition fallback_directions :: "site_settings \<Rightarrow> bool \<times> bool" where
  "fallback_directions site = (on_unless_off (fallback_to_local site), on_unless_off (fallback_to_cloud site))"

definition crosses_allowed :: "int list \<Rightarrow> cat_model \<Rightarrow> cat_model \<Rightarrow> bool \<times> bool \<Rightarrow> bool" where
  "crosses_allowed local_ids m other directions =
     (let loc = is_local local_ids m; other_loc = is_local local_ids other in
      if loc = other_loc then True else if other_loc then fst directions else snd directions)"

record choice =
  ch_model :: cat_model
  ch_fallbacks :: "cat_model list"
  ch_requested :: "cat_model option"
  ch_reason :: "string option"

text \<open>\<open>blocked\<close>: the answers of \<open>model_blocked\<close> for the account, in one snapshot.\<close>

definition prefer_usable :: "bool \<Rightarrow> choice \<Rightarrow> string option \<Rightarrow> (cat_model \<Rightarrow> bool) \<Rightarrow> cat_model list option \<Rightarrow> choice" where
  "prefer_usable admin c requested blocked candidates =
     (if admin \<or> \<not> (requested = None \<or> requested = Some [] \<or> requested = Some ''auto'') then c
      else if \<not> blocked (ch_model c) then c
      else
        let seen = set (map cm_id (ch_model c # ch_fallbacks c));
            options = ch_fallbacks c @ (case candidates of None \<Rightarrow> [] | Some ms \<Rightarrow> filter (\<lambda>m. cm_id m \<notin> seen) ms);
            usable = filter (\<lambda>m. \<not> blocked m) options
        in case usable of [] \<Rightarrow> c | m # ms \<Rightarrow> c\<lparr>ch_model := m, ch_fallbacks := take 2 ms\<rparr>)"

definition quota_fallback ::
  "bool \<Rightarrow> choice \<Rightarrow> string option \<Rightarrow> (cat_model \<Rightarrow> bool) \<Rightarrow> int list \<Rightarrow> bool \<times> bool \<Rightarrow> cat_model list \<Rightarrow> choice" where
  "quota_fallback admin c requested blocked local_ids directions candidates =
     (if admin \<or> requested = None \<or> requested = Some [] \<or> requested = Some ''auto'' \<or> truthy (ch_reason c) then c
      else
        let m = ch_model c;
            options = filter (\<lambda>x. cm_id x \<noteq> cm_id m \<and> crosses_allowed local_ids m x directions) candidates;
            same = filter (\<lambda>x. is_local local_ids x = is_local local_ids m) options
        in if \<not> blocked m
           then (if ch_fallbacks c = []
             then c\<lparr>ch_fallbacks := take 2 (filter (\<lambda>x. is_local local_ids x \<noteq> is_local local_ids m \<and> \<not> blocked x) options)\<rparr> else c)
           else (case filter (\<lambda>x. \<not> blocked x) (same @ filter (\<lambda>x. x \<notin> set same) options) of
               [] \<Rightarrow> c
             | x # xs \<Rightarrow> c\<lparr>ch_model := x, ch_fallbacks := take 2 xs, ch_requested := Some m, ch_reason := Some ''quota''\<rparr>))"

text \<open>A replacement can be used, is of a kind the administrator allows, and the chosen model was blocked.\<close>

lemma quota_fallback_sound:
  assumes "quota_fallback admin c requested blocked local_ids directions candidates = d" "ch_model d \<noteq> ch_model c"
  shows "blocked (ch_model c)" and "\<not> blocked (ch_model d)" and "crosses_allowed local_ids (ch_model c) (ch_model d) directions"
    and "ch_model d \<in> set candidates" and "ch_requested d = Some (ch_model c)" and "\<forall>m \<in> set (ch_fallbacks d). \<not> blocked m"
proof -
  define options where "options = filter (\<lambda>x. cm_id x \<noteq> cm_id (ch_model c) \<and> crosses_allowed local_ids (ch_model c) x directions) candidates"
  define same where "same = filter (\<lambda>x. is_local local_ids x = is_local local_ids (ch_model c)) options"
  have b: "blocked (ch_model c)" using assms by (auto simp: quota_fallback_def Let_def split: if_splits)
  obtain x xs where x: "filter (\<lambda>x. \<not> blocked x) (same @ filter (\<lambda>x. x \<notin> set same) options) = x # xs"
    and d: "d = c\<lparr>ch_model := x, ch_fallbacks := take 2 xs, ch_requested := Some (ch_model c), ch_reason := Some ''quota''\<rparr>"
    using assms b unfolding quota_fallback_def Let_def options_def [symmetric] same_def [symmetric]
    by (auto split: if_splits list.splits)
  from x have "set (x # xs) \<subseteq> {m \<in> set options. \<not> blocked m}" unfolding x [symmetric] by (auto simp: same_def)
  then show "blocked (ch_model c)" "\<not> blocked (ch_model d)" "crosses_allowed local_ids (ch_model c) (ch_model d) directions"
    "ch_model d \<in> set candidates" "ch_requested d = Some (ch_model c)" "\<forall>m \<in> set (ch_fallbacks d). \<not> blocked m"
    using b by (auto simp: d options_def dest: in_set_takeD)
qed

subsection \<open>The account's own limits\<close>

record base_limits =
  ba_window :: rat
  ba_weekly :: rat
  ba_rules :: "rule list"
  ba_window_on :: bool
  ba_weekly_on :: bool
  ba_rate_on :: bool

definition base_of :: "pool_policy \<Rightarrow> override \<Rightarrow> tier option \<Rightarrow> user_limit \<Rightarrow> base_limits" where
  "base_of p o1 t prefs =
     (let dflt = (\<lambda>s. (case t of Some x \<Rightarrow> if sec_auto_tiers s then whole (of_int (sec_tokens s) * t_multiplier x) else of_int (sec_tokens s)
            | None \<Rightarrow> of_int (sec_tokens s)));
          amount = (\<lambda>value name s. (case value of None \<Rightarrow> dflt s
            | Some v \<Rightarrow> if name \<in> set (o_automatic o1) then max (of_int v) (dflt s) else of_int v));
          rules = (case o_rules o1 of Some rs \<Rightarrow> rs | None \<Rightarrow> rate_rules p)
      in \<lparr>ba_window = amount (o_window o1) ''window_tokens'' (window_policy p),
          ba_weekly = amount (o_weekly o1) ''weekly_tokens'' (weekly_policy p), ba_rules = rules,
          ba_window_on = (\<not> token_exempt prefs \<and> (sec_enabled (window_policy p) \<or> o_window o1 \<noteq> None)),
          ba_weekly_on = (\<not> token_exempt prefs \<and> (sec_enabled (weekly_policy p) \<or> o_weekly o1 \<noteq> None)),
          ba_rate_on = (\<not> rate_exempt prefs \<and> (rate_enabled p \<or> o_rules o1 \<noteq> None) \<and> rules \<noteq> [])\<rparr>)"

definition base_limits_of :: "string \<Rightarrow> string \<Rightarrow> ('a) limit_db_scheme \<Rightarrow> limit_error + base_limits" where
  "base_limits_of u pool db =
     (case get_pool_policy pool db of Inl e \<Rightarrow> Inl e
      | Inr p \<Rightarrow> map_sum id (\<lambda>o1. let prefs = user_settings u db in base_of p o1 (resolve_tier (tier_id prefs) (list_tiers db)) prefs)
          (own_override u pool db))"

definition model_base :: "string \<Rightarrow> cat_model \<Rightarrow> ('a) limit_db_scheme \<Rightarrow> limit_error + base_limits" where
  "model_base u m db =
     (case get_model_policy (cm_id m, cm_preset m) db of Inl e \<Rightarrow> Inl e
      | Inr p \<Rightarrow> map_sum id (\<lambda>o1.
          let prefs = user_settings u db;
              t = (if mp_auto_tiers p \<and> mp_enabled p then resolve_tier (tier_id prefs) (list_tiers db) else None);
              amount = (\<lambda>own value. (case own of Some n \<Rightarrow> Some (of_int n)
                | None \<Rightarrow> (case (if mp_enabled p then value else None) of None \<Rightarrow> None
                    | Some n \<Rightarrow> Some (case t of None \<Rightarrow> of_int n | Some x \<Rightarrow> whole (of_int n * t_multiplier x)))));
              w = amount (m_window o1) (mp_window_tokens p); k = amount (m_weekly o1) (mp_weekly_tokens p);
              rules = (case m_rules o1 of Some rs \<Rightarrow> rs | None \<Rightarrow> if mp_enabled p then mp_rate_rules p else []);
              tokens_on = (mp_tokens_enabled p \<and> \<not> (token_exempt prefs \<or> m_token_exempt o1));
              rate_on = (mp_rate_enabled p \<and> \<not> (rate_exempt prefs \<or> m_rate_exempt o1))
          in \<lparr>ba_window = (case w of None \<Rightarrow> 0 | Some n \<Rightarrow> n), ba_weekly = (case k of None \<Rightarrow> 0 | Some n \<Rightarrow> n), ba_rules = rules,
              ba_window_on = (tokens_on \<and> w \<noteq> None), ba_weekly_on = (tokens_on \<and> k \<noteq> None), ba_rate_on = (rate_on \<and> rules \<noteq> [])\<rparr>)
          (own_model_override u (cm_id m) db))"

subsection \<open>Speed\<close>

definition speed_factor :: "string \<Rightarrow> rat" where
  "speed_factor speed = (if speed = ''slow'' then 1 / 2 else 2)"

definition speed_rules :: "rule list \<Rightarrow> string \<Rightarrow> rule list" where
  "speed_rules rs speed =
     map (\<lambda>r. \<lparr>requests = min \<lfloor>REQUESTS_MAX\<rfloor> (max 1 \<lfloor>of_int (requests r) * speed_factor speed\<rfloor>), per = per r,
         burst = min \<lfloor>BURST_MAX\<rfloor> (max 1 \<lfloor>of_int (burst r) * speed_factor speed\<rfloor>)\<rparr>) rs"

definition speed_pool :: "string \<Rightarrow> string \<Rightarrow> string \<Rightarrow> string option \<Rightarrow> stamp \<Rightarrow> string \<Rightarrow> ('a) limit_db_scheme \<Rightarrow> limit_error + ('a) limit_db_scheme" where
  "speed_pool u speed previous who t pool db =
     (if speed = ''normal'' then map_sum id snd (set_override u pool who False [(''rate_rules'', J_Null)] t db)
      else case get_pool_policy pool db of Inl e \<Rightarrow> Inl e
      | Inr p \<Rightarrow>
     (case base_limits_of u pool db of Inl e \<Rightarrow> Inl e
      | Inr b \<Rightarrow>
          let current = (if previous \<in> {''slow'', ''fast''} \<and> speed_rules (rate_rules p) previous = ba_rules b then rate_rules p else ba_rules b);
              rules = speed_rules current speed
          in map_sum id snd (set_override u pool who False [(''rate_rules'', if rules = [] then J_Null else J_List (map rule_json rules))] t db)))"

definition set_speed :: "string \<Rightarrow> string \<Rightarrow> bool \<Rightarrow> string option \<Rightarrow> stamp \<Rightarrow> ('a) limit_db_scheme \<Rightarrow> limit_error + ('a) limit_db_scheme" where
  "set_speed u speed adjust_rate who t db =
     (if speed \<notin> set SPEEDS then Inl Bad_Speed
      else
        let previous = ul_speed (user_settings u db) in
        (case update_user_settings u who [Set_Speed speed] t db of Inl e \<Rightarrow> Inl e
         | Inr db1 \<Rightarrow>
             if \<not> adjust_rate then Inr db1
             else foldl (\<lambda>acc pool. case acc of Inl e \<Rightarrow> Inl e | Inr d \<Rightarrow> speed_pool u speed previous who t pool d) (Inr db1) POOLS))"

subsection \<open>What admission guarantees\<close>

text \<open>A window that lets a request in: not limited, or with tokens left.\<close>

definition has_room :: "window \<Rightarrow> bool" where
  "has_room w \<longleftrightarrow> \<not> wn_limited w \<or> wn_used w < wn_tokens w"

lemma exhausted_no_room: "window_exhausted w \<longleftrightarrow> \<not> has_room w"
  by (auto simp: window_exhausted_def window_left_def has_room_def)

lemma available_has_room: "ef_admin e = False \<Longrightarrow> available (budget_of e) \<Longrightarrow> has_room (ef_window e) \<and> has_room (ef_weekly e)"
  by (auto simp: available_def budget_of_def regular_left_def weekly_left_def has_room_def Let_def min_def max_def UNLIMITED_def split: if_splits)

lemma effective_not_admin: "effective (u, False) pool site load now db = Inr e \<Longrightarrow> \<not> ef_admin e"
  by (auto simp: effective_def Let_def case_prod_beta split: if_splits sum.splits)

lemma model_not_admin: "model_limits_of (u, False) m p ids load report now db = Inr l \<Longrightarrow> \<not> mm_admin l"
  by (auto simp: model_limits_of_def Let_def case_prod_beta split: if_splits sum.splits)

lemma model_refusal_None:
  "model_refusal l consume now = None \<longleftrightarrow>
    mm_admin l \<or> (\<not> mm_locked l \<and> 0 < mm_capacity l \<and> (consume \<longrightarrow> has_room (mm_weekly l) \<and> has_room (mm_window l)))"
  by (auto simp: model_refusal_def exhausted_no_room not_le)

text \<open>The outcomes of admission for an account that is limited, for a model.\<close>

lemma admit_cases:
  assumes "admit (u, False) pool (Some m) take_rate ids site load report now clock db = Inr (Some a, db1)"
  obtains p b l where "get_model_policy (cm_id m, cm_preset m) db = Inr p"
      "b = budget_of (admin_result pool) \<or> (\<exists>e. effective (u, False) pool site load now db = Inr e \<and> b = budget_of e)"
      "consumes_token_limits ids site (Some m) (Some pool) \<Longrightarrow> \<exists>e. effective (u, False) pool site load now db = Inr e \<and> b = budget_of e"
      "(consumes_token_limits ids site (Some m) (Some pool) \<and> counts_toward_pool ids m p \<and> \<not> available b \<and> ad_refusal a = Some (pool_refusal b now) \<and> db1 = db) \<or>
       ((consumes_token_limits ids site (Some m) (Some pool) \<and> counts_toward_pool ids m p \<longrightarrow> available b) \<and>
        model_limits_of (u, False) m p ids load report now db = Inr l \<and>
        ((\<exists>r. model_refusal l (consumes_token_limits ids site (Some m) (Some pool)) now = Some r \<and> ad_refusal a = Some r \<and> db1 = db) \<or>
         (model_refusal l (consumes_token_limits ids site (Some m) (Some pool)) now = None \<and>
          ((\<not> (take_rate \<and> rl_limited (mm_rate l)) \<and> ad_refusal a = None \<and> db1 = db) \<or>
           (\<exists>d rows. take_rate \<and> rl_limited (mm_rate l) \<and>
              take_request (''model'' @ int_text (cm_id m)) u (mm_rate l) clock (rate_buckets db) = (Some d, rows) \<and>
              db1 = db\<lparr>rate_buckets := rows\<rparr> \<and> ad_rate a = Some d \<and> (ad_refusal a = None \<longleftrightarrow> rd_allowed d))))))"
proof -
  define consume where "consume = consumes_token_limits ids site (Some m) (Some pool)"
  obtain p where p: "get_model_policy (cm_id m, cm_preset m) db = Inr p"
    using assms by (cases "get_model_policy (cm_id m, cm_preset m) db") (simp_all add: admit_def Let_def)
  obtain b where b: "read_budget consume (u, False) pool site load now db = Inr b"
    using assms p by (cases "read_budget consume (u, False) pool site load now db") (simp_all add: admit_def Let_def consume_def)
  have bud: "b = budget_of (admin_result pool) \<or> (\<exists>e. effective (u, False) pool site load now db = Inr e \<and> b = budget_of e)"
    "consume \<Longrightarrow> \<exists>e. effective (u, False) pool site load now db = Inr e \<and> b = budget_of e"
    using b by (auto simp: read_budget_def map_sum_Inr split: if_splits)
  show ?thesis
  proof (cases "consume \<and> counts_toward_pool ids m p \<and> \<not> available b")
    case True
    then have "ad_refusal a = Some (pool_refusal b now) \<and> db1 = db"
      using assms p b by (simp add: admit_def Let_def answer_def flip: consume_def) auto
    with True show ?thesis by (intro that [OF p bud [unfolded consume_def]]) (auto simp: consume_def)
  next
    case False
    then obtain ok where am: "admit_model (u, False) m p consume b ok take_rate ids load report now clock db = Inr (Some a, db1)"
      using assms p b by (auto simp: admit_def Let_def simp flip: consume_def split: if_splits)
    obtain l where l: "model_limits_of (u, False) m p ids load report now db = Inr l"
      using am by (cases "model_limits_of (u, False) m p ids load report now db") (simp_all add: admit_model_def)
    have rest: "(\<exists>r. model_refusal l consume now = Some r \<and> ad_refusal a = Some r \<and> db1 = db) \<or>
         (model_refusal l consume now = None \<and>
          ((\<not> (take_rate \<and> rl_limited (mm_rate l)) \<and> ad_refusal a = None \<and> db1 = db) \<or>
           (\<exists>d rows. take_rate \<and> rl_limited (mm_rate l) \<and>
              take_request (''model'' @ int_text (cm_id m)) u (mm_rate l) clock (rate_buckets db) = (Some d, rows) \<and>
              db1 = db\<lparr>rate_buckets := rows\<rparr> \<and> ad_rate a = Some d \<and> (ad_refusal a = None \<longleftrightarrow> rd_allowed d))))"
    proof (cases "model_refusal l consume now")
      case None
      show ?thesis
      proof (cases "take_rate \<and> rl_limited (mm_rate l)")
        case True
        with am l None show ?thesis
          by (auto simp: admit_model_def admit_rate_def answer_def split: prod.splits option.splits if_splits)
      next
        case False
        with am l None show ?thesis by (auto simp: admit_model_def answer_def)
      qed
    next
      case (Some r)
      with am l show ?thesis by (auto simp: admit_model_def answer_def)
    qed
    show ?thesis
      by (rule that [OF p bud [unfolded consume_def], of l]) (use rest l False in \<open>auto simp: consume_def\<close>)
  qed
qed


definition ex_model :: cat_model where
  "ex_model = \<lparr>cm_id = 1, cm_preset = None, cm_name = ''m'', cm_display = None, cm_provider = None, cm_published = True\<rparr>"

definition ex_site :: site_settings where
  "ex_site = \<lparr>music_enabled = False, music_mode = None, music_multiplier = None, music_fixed_tokens = None, music_fixed_credits = None,
     music_weekly_tokens = None, chat_local_consumption = None, chat_cloud_consumption = None, fallback_to_local = None, fallback_to_cloud = None\<rparr>"

definition ex_usage_db :: usage_db where
  "ex_usage_db = \<lparr>pool_docs = [], model_docs = [\<lparr>md_model = 1, md_config = Some (model_policy_json default_model_policy), md_at = 0, md_by = None\<rparr>],
     catalog_presets = [(1, None)], accounts = [''u''], user_limits = [], overrides = [],
     model_limits = [], efforts = [], tiers = [], next_tier = 1, grants = [], next_grant = 1, windows_tbl = [], rate_buckets = [],
     site_resets = (None, None), models = [ex_model], members = [(''u'', False, False)], ledger = [], reservations = [], next_reservation = 1,
     pledges = [], next_pledge = 1\<rparr>"

lemma ex_facts:
  "get_pool_policy ''api'' ex_usage_db = Inr (default_policies ''api'')"
  "own_override ''u'' ''api'' ex_usage_db = Inr (no_override ''api'')"
  "own_model_override ''u'' 1 ex_usage_db = Inr no_model_override"
  "user_settings ''u'' ex_usage_db = no_settings ''u''"
  "usage ''u'' ''api'' a b ex_usage_db = (0, 0)" "model_usage ''u'' 1 a b ex_usage_db = (0, 0)"
  "starts ''u'' s 5 ex_usage_db = ((None, None), None, None)"
  "active_grants ''u'' 5 ex_usage_db = []" "pool_grants ''u'' ''api'' 5 ex_usage_db = []"
  "renounced ''u'' 5 p i s ex_usage_db = (0, None)" "music_bonus ''u'' ex_site ex_usage_db = No_Bonus"
  "round_to 2 0 = 0" "list_tiers ex_usage_db = []"
  by (simp_all add: get_pool_policy_def ex_usage_db_def tbl_simps merged_None POOLS_def own_override_def get_override_def
      own_model_override_def get_model_override_def user_settings_def usage_def model_usage_def starts_def stored_window_def open_since_def
      active_grants_def pool_grants_def renounced_def active_pledges_def music_bonus_def ex_site_def round_to_def py_round_def list_tiers_def)

lemma ex_effective:
  "\<exists>e. effective (''u'', False) ''api'' ex_site (None, (None, 1), 1) 5 ex_usage_db = Inr e \<and> available (budget_of e)"
proof (rule exI, rule conjI)
  show "effective (''u'', False) ''api'' ex_site (None, (None, 1), 1) 5 ex_usage_db = Inr (projr (effective (''u'', False) ''api'' ex_site (None, (None, 1), 1) 5 ex_usage_db))"
    by (simp add: effective_def Let_def POOLS_def ex_facts(1,2) case_prod_beta)
  show "available (budget_of (projr (effective (''u'', False) ''api'' ex_site (None, (None, 1), 1) 5 ex_usage_db)))"
    by (simp add: effective_def Let_def POOLS_def ex_facts no_settings_def)
      (simp add: window_in_force_def period_terms_def default_policies_def default_section_def no_override_def custom_amount_def
       base_tokens_def tier_factor_def after_demand_def after_capacity_def after_bonus_def after_grants_def after_renounced_def grant_parts_def whole_def
       budget_of_def available_def regular_left_def weekly_left_def UNLIMITED_def)
qed

lemma ex_admission:
  "\<exists>a db1. admit (''u'', False) ''api'' (Some ex_model) True [] ex_site (None, (None, 1), 1) None 5 5 ex_usage_db = Inr (Some a, db1) \<and>
     ad_refusal a = None"
proof -
  have "model_policy_ok default_model_policy"
    by (simp add: default_model_policy_def model_policy_ok_def bound_defs rules_ok_def RULES_MAX_def PRESETS_def round_to_def py_round_def)
  then have mp: "get_model_policy (1, None) ex_usage_db = Inr default_model_policy"
    using validate_model_policy_json [of default_model_policy]
    by (simp add: get_model_policy_def ex_usage_db_def tbl_simps model_policy_of_def model_policy_json_def [of default_model_policy])
  obtain e where e: "effective (''u'', False) ''api'' ex_site (None, (None, 1), 1) 5 ex_usage_db = Inr e" and av: "available (budget_of e)"
    using ex_effective by blast
  have l: "\<exists>l. model_limits_of (''u'', False) ex_model default_model_policy [] (None, (None, 1), 1) None 5 ex_usage_db = Inr l \<and>
      model_refusal l True 5 = None \<and> \<not> rl_limited (mm_rate l)"
    by (simp add: model_limits_of_def ex_model_def ex_facts Let_def model_rate_def no_settings_def no_model_override_def default_model_policy_def)
      (simp add: window_in_force_def model_terms_def grant_parts_def rate_in_force_def model_refusal_def window_exhausted_def capacity_factor_def no_rate_def lowered_rules_def)
  then obtain l where l: "model_limits_of (''u'', False) ex_model default_model_policy [] (None, (None, 1), 1) None 5 ex_usage_db = Inr l"
      "model_refusal l True 5 = None" "\<not> rl_limited (mm_rate l)" by blast
  have c: "consumes_token_limits [] ex_site (Some ex_model) (Some ''api'')" by (simp add: consumes_token_limits_def)
  have m: "cm_id ex_model = 1" "cm_preset ex_model = None" by (simp_all add: ex_model_def)
  show ?thesis
    by (simp add: admit_def Let_def mp m c read_budget_def e av admit_model_def l answer_def)
qed


end
