(* ===== verification/Ledger.thy ===== *)
theory Ledger
  imports Limit_Decisions
begin

section \<open>The usage ledger and reservations\<close>

text \<open>
  bananachat/db/credits.py: what a request is charged, the reservations of images and the tokens
  held for text answers that are still running (one table), and the start of an API answer in
  bananachat/services/completions.py, which checks the allowance and holds its part of it in one
  transaction.
\<close>

datatype ledger_error =
  Unknown_Request_Type
| Insufficient_Credits bool  \<comment> \<open>the week's tokens, not the window's\<close>
| Limits_Error limit_error
| Rate_Of_Zero

record metric =
  mt_type :: string
  mt_model :: "int option"
  mt_user :: "string option"
  mt_in :: int
  mt_out :: int
  mt_duration :: int
  mt_wait :: int
  mt_status :: string
  mt_at :: stamp
  mt_estimated :: bool

record ledger_db = usage_db +
  metrics :: "metric list"

text \<open>The foreign keys on accounts and models.\<close>

definition model_known :: "int option \<Rightarrow> ('a) usage_db_scheme \<Rightarrow> bool" where
  "model_known i db \<longleftrightarrow> (case i of None \<Rightarrow> True | Some m \<Rightarrow> m \<in> cm_id ` set (models db))"

definition REQUEST_TYPES :: "string list" where
  "REQUEST_TYPES = [''api'', ''playground'', ''chat'', ''chat_incognito'', ''agent'']"

definition tokens_to_credits :: "rat \<Rightarrow> rat" where
  "tokens_to_credits tokens = tokens / 1000"

definition pool_of :: "string \<Rightarrow> ledger_error + string" where
  "pool_of kind =
     (case List.find (\<lambda>pool. kind \<in> set (POOL_TYPES pool)) [''api'', ''chat'', ''agent''] of
        None \<Rightarrow> Inl Unknown_Request_Type | Some pool \<Rightarrow> Inr pool)"

subsection \<open>Charging\<close>

definition open_windows_for ::
  "string \<Rightarrow> string option \<Rightarrow> int option \<Rightarrow> stamp \<Rightarrow> ('a) usage_db_scheme \<Rightarrow> ledger_error + ('a) usage_db_scheme" where
  "open_windows_for u pool i t db =
     map_sum Limits_Error id
       (open_windows u ((case pool of Some p \<Rightarrow> if p = [] then [] else [pool_scope p] | None \<Rightarrow> []) @
          (case i of Some m \<Rightarrow> if m = 0 then [] else [model_scope m] | None \<Rightarrow> [])) t db)"

text \<open>
  \<open>charge\<close>: \<open>t\<close> is the time stamped on the row, \<open>local_ids\<close> and \<open>site\<close> what decides which
  usage counts. A token given to it exists.
\<close>

definition charge ::
  "int list \<Rightarrow> site_settings \<Rightarrow> string \<Rightarrow> int \<Rightarrow> int \<Rightarrow> string \<Rightarrow> int option \<Rightarrow> int option \<Rightarrow> bool \<Rightarrow> stamp \<Rightarrow> ('a) usage_db_scheme
    \<Rightarrow> ledger_error + (rat \<times> ('a) usage_db_scheme)" where
  "charge local_ids site u tokens_in tokens_out kind i token estimated t db =
     (if kind \<notin> set REQUEST_TYPES then Inl Unknown_Request_Type
      else if \<not> known (Some u) db then Inr (0, db)
      else
        let nin = max 0 tokens_in; nout = max 0 tokens_out;
            model = (case i of None \<Rightarrow> None | Some x \<Rightarrow> tbl_one (\<lambda>m. cm_id m = x) (models db));
            mid = map_option cm_id model
        in case pool_of kind of Inl e \<Rightarrow> Inl e
        | Inr pool \<Rightarrow>
       (case charge_terms local_ids mid db of Inl e \<Rightarrow> Inl (Limits_Error e)
        | Inr (weight, counts) \<Rightarrow>
            let consumes = consumes_token_limits local_ids site model (Some pool);
                counted = counts \<and> consumes;
                tokens = (if counted then of_int (nin + nout) * weight else 0);
                db1 = db\<lparr>ledger := ledger db @ [\<lparr>lr_user = u, lr_token = token, lr_model = mid, lr_type = kind,
                  lr_credits = tokens_to_credits tokens, lr_in = nin, lr_out = nout, lr_at = t, lr_estimated = estimated,
                  lr_consumes = consumes\<rparr>]\<rparr>
            in if consumes then map_sum id (\<lambda>d. (tokens, d)) (open_windows_for u (if counted then Some pool else None) mid t db1)
               else Inr (tokens, db1)))"

text \<open>\<open>estimate_tokens\<close>, on code points: one token per wide character, one per four others.\<close>

definition wide :: "nat \<Rightarrow> bool" where
  "wide c \<longleftrightarrow> (0x1100 \<le> c \<and> c \<le> 0x11ff) \<or> (0x2e80 \<le> c \<and> c \<le> 0x9fff) \<or> (0xa960 \<le> c \<and> c \<le> 0xa97f) \<or> (0xac00 \<le> c \<and> c \<le> 0xd7ff) \<or>
     (0xf900 \<le> c \<and> c \<le> 0xfaff) \<or> (0xff00 \<le> c \<and> c \<le> 0xffef) \<or> (0x20000 \<le> c \<and> c \<le> 0x3ffff)"

definition estimate_tokens :: "nat list \<Rightarrow> nat" where
  "estimate_tokens text1 =
     (let w = length (filter wide text1) in w + (length text1 - w + 3) div 4)"

subsection \<open>Reservations\<close>

definition purge_expired_reservations :: "rat \<Rightarrow> epoch \<Rightarrow> ('a) usage_db_scheme \<Rightarrow> nat \<times> ('a) usage_db_scheme" where
  "purge_expired_reservations ttl now db =
     (let cutoff = \<lfloor>now - ttl\<rfloor>;
          old = (\<lambda>r. (case rs_updated r of Some t \<Rightarrow> t | None \<Rightarrow> rs_created r) < cutoff)
      in (tbl_count old (reservations db), db\<lparr>reservations := tbl_delete old (reservations db)\<rparr>))"

definition hold_answer ::
  "string \<Rightarrow> rat \<Rightarrow> int option \<Rightarrow> int option \<Rightarrow> stamp \<Rightarrow> ('a) usage_db_scheme \<Rightarrow> ledger_error + (int \<times> ('a) usage_db_scheme)" where
  "hold_answer u tokens i token t db =
     (if \<not> known (Some u) db \<or> \<not> model_known i db then Inl (Limits_Error Integrity_Error)
      else Inr (next_reservation db,
        db\<lparr>reservations := reservations db @ [\<lparr>rs_id = next_reservation db, rs_user = u, rs_token = token, rs_model = i,
             rs_credits = tokens_to_credits tokens, rs_created = t, rs_updated = Some t\<rparr>],
           next_reservation := next_reservation db + 1\<rparr>))"

definition touch_reservation :: "int option \<Rightarrow> stamp \<Rightarrow> ('a) usage_db_scheme \<Rightarrow> bool \<times> ('a) usage_db_scheme" where
  "touch_reservation i t db =
     (case i of None \<Rightarrow> (True, db)
      | Some r \<Rightarrow> (tbl_count (\<lambda>x. rs_id x = r) (reservations db) = 1,
          db\<lparr>reservations := tbl_update (\<lambda>x. rs_id x = r) (\<lambda>x. x\<lparr>rs_updated := Some t\<rparr>) (reservations db)\<rparr>))"

definition refund_reservation :: "int option \<Rightarrow> ('a) usage_db_scheme \<Rightarrow> ('a) usage_db_scheme" where
  "refund_reservation i db =
     (case i of None \<Rightarrow> db | Some r \<Rightarrow> db\<lparr>reservations := tbl_delete (\<lambda>x. rs_id x = r) (reservations db)\<rparr>)"

text \<open>\<open>reserve_image\<close>: the account (with its role), the clock of the budget and of the row.\<close>

definition reserve_image ::
  "string \<times> bool \<Rightarrow> rat \<Rightarrow> rat \<Rightarrow> int option \<Rightarrow> int option \<Rightarrow> bool \<Rightarrow> site_settings \<Rightarrow> demand \<Rightarrow> epoch \<Rightarrow> stamp \<Rightarrow> ('a) usage_db_scheme
    \<Rightarrow> ledger_error + (int option \<times> ('a) usage_db_scheme)" where
  "reserve_image user tokens ttl i token counted site load now t db =
     (if tokens \<le> 0 \<or> \<not> counted then Inr (None, db)
      else
        let db1 = snd (purge_expired_reservations ttl now db) in
        if snd user then Inr (None, db1)
        else case effective user ''api'' site load now db1 of Inl e \<Rightarrow> Inl (Limits_Error e)
        | Inr e \<Rightarrow>
            let b = budget_of e in
            if regular_left b < tokens then Inl (Insufficient_Credits (weekly_exhausted b \<or> weekly_left b < tokens))
            else case hold_answer (fst user) tokens i token t db1 of Inl e \<Rightarrow> Inl e
            | Inr (r, db2) \<Rightarrow> map_sum id (\<lambda>d. (Some r, d)) (open_windows_for (fst user) (Some ''api'') None t db2))"

definition finalize_reservation ::
  "int list \<Rightarrow> int option \<Rightarrow> string \<Rightarrow> rat \<Rightarrow> int option \<Rightarrow> int option \<Rightarrow> bool \<Rightarrow> stamp \<Rightarrow> ('a) usage_db_scheme \<Rightarrow> ledger_error + ('a) usage_db_scheme" where
  "finalize_reservation local_ids r u tokens i token counted t db =
     (let row = (case r of None \<Rightarrow> None | Some x \<Rightarrow> tbl_one (\<lambda>s. rs_id s = x) (reservations db)) in
      case charge_terms local_ids i db of Inl e \<Rightarrow> Inl (Limits_Error e)
      | Inr (weight, _) \<Rightarrow>
          let credits = (case row of Some s \<Rightarrow> rs_credits s | None \<Rightarrow> if counted then tokens_to_credits (tokens * weight) else 0);
              db1 = (if row = None then db else refund_reservation r db)
          in if \<not> known (Some u) db \<or> \<not> model_known i db then Inl (Limits_Error Integrity_Error)
             else open_windows_for u (if counted then Some ''api'' else None) i t
               (db1\<lparr>ledger := ledger db1 @ [\<lparr>lr_user = u, lr_token = token, lr_model = i, lr_type = ''api'', lr_credits = credits,
                  lr_in = 0, lr_out = (if tokens < 0 then - \<lfloor>- tokens\<rfloor> else \<lfloor>tokens\<rfloor>), lr_at = t, lr_estimated = False, lr_consumes = True\<rparr>]\<rparr>))"

subsection \<open>Charges with their metrics\<close>

text \<open>\<open>record_metric\<close> and \<open>charge_text\<close>, \<open>charge_image\<close> of bananachat/services/api_usage.py.\<close>

definition METRIC_STATUSES :: "string list" where "METRIC_STATUSES = [''ok'', ''stopped'', ''error'']"

definition record_metric :: "metric \<Rightarrow> ('a) ledger_db_scheme \<Rightarrow> ledger_error + ('a) ledger_db_scheme" where
  "record_metric m db =
     (if \<not> known (mt_user m) db \<or> \<not> model_known (mt_model m) db then Inl (Limits_Error Integrity_Error)
      else Inr (db\<lparr>metrics := metrics db @ [m\<lparr>mt_in := max 0 (mt_in m), mt_out := max 0 (mt_out m), mt_duration := max 0 (mt_duration m),
        mt_wait := max 0 (mt_wait m), mt_status := (if mt_status m \<in> set METRIC_STATUSES then mt_status m else ''error'')\<rparr>]\<rparr>))"

definition charge_text ::
  "int list \<Rightarrow> site_settings \<Rightarrow> string \<Rightarrow> string \<Rightarrow> int option \<Rightarrow> int option \<Rightarrow> int \<Rightarrow> int \<Rightarrow> bool \<Rightarrow> int \<Rightarrow> int \<Rightarrow> string \<Rightarrow> stamp \<Rightarrow> stamp
    \<Rightarrow> ('a) ledger_db_scheme \<Rightarrow> ledger_error + (rat \<times> ('a) ledger_db_scheme)" where
  "charge_text local_ids site u kind i token tin tout estimated duration wait status t1 t2 db =
     (case charge local_ids site u tin tout kind i token estimated t1 db of Inl e \<Rightarrow> Inl e
      | Inr (used, db1) \<Rightarrow>
          map_sum id (\<lambda>d. (used, d)) (record_metric \<lparr>mt_type = kind, mt_model = i, mt_user = Some u, mt_in = tin, mt_out = tout,
            mt_duration = duration, mt_wait = wait, mt_status = status, mt_at = t2, mt_estimated = estimated\<rparr> db1))"

definition charge_image ::
  "int list \<Rightarrow> int option \<Rightarrow> string \<Rightarrow> rat \<Rightarrow> int option \<Rightarrow> int option \<Rightarrow> bool \<Rightarrow> int \<Rightarrow> int \<Rightarrow> stamp \<Rightarrow> stamp
    \<Rightarrow> ('a) ledger_db_scheme \<Rightarrow> ledger_error + ('a) ledger_db_scheme" where
  "charge_image local_ids r u tokens i token counted duration wait t1 t2 db =
     (case finalize_reservation local_ids r u tokens i token counted t1 db of Inl e \<Rightarrow> Inl e
      | Inr db1 \<Rightarrow> record_metric \<lparr>mt_type = ''image'', mt_model = i, mt_user = Some u, mt_in = 0,
          mt_out = (if tokens < 0 then - \<lfloor>- tokens\<rfloor> else \<lfloor>tokens\<rfloor>), mt_duration = duration, mt_wait = wait, mt_status = ''ok'', mt_at = t2,
          mt_estimated = False\<rparr> db1)"

subsection \<open>Starting an API answer\<close>

text \<open>
  The transaction of \<open>CompletionRun._authorize\<close>, after the account, the token and the access to
  the model were checked: an earlier attempt's hold is given back, the reasoning level must be
  unlocked (\<open>locked\<close>: \<open>resolve_effort\<close> raises), the request is admitted, and what the answer
  may cost (\<open>prompt\<close> and \<open>longest\<close> tokens) is held of what is left.
\<close>

definition take_hold ::
  "int list \<Rightarrow> string \<Rightarrow> budget \<Rightarrow> cat_model \<Rightarrow> int \<Rightarrow> int \<Rightarrow> int option \<Rightarrow> stamp \<Rightarrow> ('a) usage_db_scheme
    \<Rightarrow> ledger_error + (int option \<times> ('a) usage_db_scheme)" where
  "take_hold local_ids u b m prompt longest token t db =
     (if bg_unlimited b then Inr (None, db)
      else case charge_terms local_ids (Some (cm_id m)) db of Inl e \<Rightarrow> Inl (Limits_Error e)
      | Inr (weight, _) \<Rightarrow>
          let tokens = min (of_int (prompt + longest) * weight) (regular_left b)
          in if 0 < tokens then map_sum id (\<lambda>(r, d). (Some r, d)) (hold_answer u tokens (Some (cm_id m)) token t db) else Inr (None, db))"

datatype start = Effort_Is_Locked | Refused refusal | Started "int option"

record attempt =
  at_user :: "string \<times> bool"
  at_model :: cat_model
  at_hold :: "int option"
  at_locked :: bool
  at_prompt :: int
  at_longest :: int
  at_token :: "int option"
  at_rate :: bool
  at_report :: "(rat option \<times> rat option) option"
  at_clock :: epoch
  at_stamp :: stamp

definition start_attempt ::
  "attempt \<Rightarrow> int list \<Rightarrow> site_settings \<Rightarrow> demand \<Rightarrow> epoch \<Rightarrow> ('a) usage_db_scheme \<Rightarrow> ledger_error + (start \<times> ('a) usage_db_scheme)" where
  "start_attempt x local_ids site load now db =
     (let db1 = refund_reservation (at_hold x) db in
      if at_locked x then Inr (Effort_Is_Locked, db1)
      else case admit (at_user x) ''api'' (Some (at_model x)) (at_rate x) local_ids site load (at_report x) now (at_clock x) db1 of
        Inl e \<Rightarrow> Inl (Limits_Error e)
      | Inr (None, _) \<Rightarrow> Inl Rate_Of_Zero
      | Inr (Some a, db2) \<Rightarrow>
          (case ad_refusal a of Some r \<Rightarrow> Inr (Refused r, db2)
           | None \<Rightarrow> map_sum id (\<lambda>(h, d). (Started h, d))
               (take_hold local_ids (fst (at_user x)) (ad_budget a) (at_model x) (at_prompt x) (at_longest x) (at_token x) (at_stamp x) db2)))"

text \<open>Attempts one after the other, as their transactions are serialised; a failed one changes nothing.\<close>

definition race :: "attempt list \<Rightarrow> int list \<Rightarrow> site_settings \<Rightarrow> demand \<Rightarrow> epoch \<Rightarrow> ('a) usage_db_scheme \<Rightarrow> ('a) usage_db_scheme" where
  "race xs local_ids site load now db =
     fold (\<lambda>x d. case start_attempt x local_ids site load now d of Inl _ \<Rightarrow> d | Inr (_, d1) \<Rightarrow> d1) xs db"

subsection \<open>Charges\<close>

text \<open>An image is charged what was reserved for it, and its reservation is gone.\<close>

lemma finalize_moves:
  assumes "finalize_reservation ids (Some r) u n i token counted t db = Inr db1" "tbl_one (\<lambda>s. rs_id s = r) (reservations db) = Some s"
  shows "reservations db1 = tbl_delete (\<lambda>x. rs_id x = r) (reservations db)"
    and "\<exists>row. ledger db1 = ledger db @ [row] \<and> lr_credits row = rs_credits s \<and> lr_user row = u \<and> lr_at row = t"
  using assms by (auto simp: finalize_reservation_def Let_def open_windows_for_def open_windows_def refund_reservation_def map_sum_Inr
      split: sum.splits if_splits)

text \<open>
  Removing the model while its request runs: the charge of a text answer would leave the model out,
  but the metrics row of the same transaction still names it, and so does the charge of an image.
\<close>

lemma deleted_model_uncharged:
  assumes "known (Some u) db" "kind \<in> set REQUEST_TYPES" "\<not> model_known (Some i) db"
  shows "charge ids site u tin tout kind (Some i) token est t db \<noteq> Inl (Limits_Error Integrity_Error)"
    and "charge_text ids site u kind (Some i) token tin tout est dur wait status t t2 db = Inl (Limits_Error Integrity_Error)"
    and "charge_image ids r u n (Some i) token counted dur wait t t2 db = Inl (Limits_Error Integrity_Error)"
proof -
  have none: "tbl_one (\<lambda>m. cm_id m = i) (models db) = None"
    using assms(3) by (auto simp: model_known_def tbl_one_def find_None_iff)
  have kind: "\<exists>pool. pool_of kind = Inr pool" using assms(2) by (auto simp: REQUEST_TYPES_def pool_of_def POOL_TYPES_def)
  then obtain pool where pool: "pool_of kind = Inr pool" by blast
  have c: "\<exists>n d. charge ids site u tin tout kind (Some i) token est t db = Inr (n, d) \<and> models d = models db"
    using assms(1,2) pool none by (auto simp: charge_def Let_def charge_terms_def consumes_token_limits_def open_windows_for_def
        open_windows_def known_def)
  then show "charge ids site u tin tout kind (Some i) token est t db \<noteq> Inl (Limits_Error Integrity_Error)" by auto
  from c obtain n1 d where "charge ids site u tin tout kind (Some i) token est t db = Inr (n1, d)" "models d = models db" by blast
  with assms(3) show "charge_text ids site u kind (Some i) token tin tout est dur wait status t t2 db = Inl (Limits_Error Integrity_Error)"
    by (simp add: charge_text_def record_metric_def model_known_def)
  show "charge_image ids r u n (Some i) token counted dur wait t t2 db = Inl (Limits_Error Integrity_Error)"
    using assms(3) none by (simp add: charge_image_def finalize_reservation_def Let_def charge_terms_def)
qed

text \<open>A hold is in tokens times the model's weight, also in the model's own limit, which counts tokens as they are.\<close>

lemma hold_weighted_in_model_limit:
  assumes "hold_answer u n (Some i) token t db = Inr (r, db1)"
  shows "model_usage u i ws ks db1 = (fst (model_usage u i ws ks db) + n, snd (model_usage u i ws ks db) + n)"
  using assms by (auto simp: hold_answer_def model_usage_def tokens_to_credits_def Let_def algebra_simps split: if_splits)

subsection \<open>Answers that run at the same time\<close>

text \<open>What an account used and reserved is within its allowance.\<close>

definition fits :: "window \<Rightarrow> bool" where
  "fits w \<longleftrightarrow> (wn_limited w \<longrightarrow> wn_used w \<le> wn_tokens w)"

definition within_allowance :: "string \<Rightarrow> site_settings \<Rightarrow> demand \<Rightarrow> epoch \<Rightarrow> ('a) usage_db_scheme \<Rightarrow> bool" where
  "within_allowance u site load now db \<longleftrightarrow>
     (case effective (u, False) ''api'' site load now db of Inl _ \<Rightarrow> True | Inr e \<Rightarrow> fits (ef_window e) \<and> fits (ef_weekly e))"

definition holds_ok :: "('a) usage_db_scheme \<Rightarrow> bool" where
  "holds_ok db \<longleftrightarrow> (\<forall>r \<in> set (reservations db). 0 \<le> rs_credits r)"

text \<open>Only the used tokens of a window depend on the reservations, and none on the buckets.\<close>

definition with_used :: "rat \<times> rat \<Rightarrow> effective_limits \<Rightarrow> effective_limits" where
  "with_used us e = e\<lparr>ef_window := (ef_window e)\<lparr>wn_used := round_to 2 (fst us)\<rparr>, ef_weekly := (ef_weekly e)\<lparr>wn_used := round_to 2 (snd us)\<rparr>\<rparr>"

definition api_usage :: "string \<Rightarrow> epoch \<Rightarrow> ('a) usage_db_scheme \<Rightarrow> rat \<times> rat" where
  "api_usage u now db = (case starts u (pool_scope ''api'') now db of (_, ws, ks) \<Rightarrow> usage u ''api'' ws ks db)"

lemma window_in_force_used [simp]:
  "(window_in_force p t off s x n)\<lparr>wn_used := used\<rparr> = window_in_force p t off s used n"
  by (simp add: window_in_force_def Let_def)

lemma window_in_force_whole: "wn_limited (window_in_force p t off s used n) \<Longrightarrow> \<exists>k. wn_tokens (window_in_force p t off s used n) = of_int k"
  by (auto simp: window_in_force_def Let_def whole_def split: if_splits)

lemma effective_holds:
  assumes "effective (u, False) ''api'' site load now db = Inr e"
  shows "effective (u, False) ''api'' site load now (db\<lparr>reservations := rs, next_reservation := n, rate_buckets := bs\<rparr>) =
      Inr (with_used (api_usage u now (db\<lparr>reservations := rs, next_reservation := n, rate_buckets := bs\<rparr>)) e)"
    and "with_used (api_usage u now db) e = e"
    and "wn_limited (ef_window e) \<longrightarrow> (\<exists>k. wn_tokens (ef_window e) = of_int k)"
    and "wn_limited (ef_weekly e) \<longrightarrow> (\<exists>k. wn_tokens (ef_weekly e) = of_int k)"
    and "\<not> ef_admin e"
proof -
  obtain p where p: "get_pool_policy ''api'' db = Inr p"
    using assms by (cases "get_pool_policy ''api'' db") (simp_all add: effective_def POOLS_def)
  obtain o1 where o1: "own_override u ''api'' db = Inr o1"
    using assms by (cases "own_override u ''api'' db") (simp_all add: effective_def POOLS_def p Let_def)
  have rd: "get_pool_policy ''api'' (db\<lparr>reservations := rs, next_reservation := n, rate_buckets := bs\<rparr>) = get_pool_policy ''api'' db"
    "own_override u ''api'' (db\<lparr>reservations := rs, next_reservation := n, rate_buckets := bs\<rparr>) = own_override u ''api'' db"
    "user_settings u (db\<lparr>reservations := rs, next_reservation := n, rate_buckets := bs\<rparr>) = user_settings u db"
    "list_tiers (db\<lparr>reservations := rs, next_reservation := n, rate_buckets := bs\<rparr>) = list_tiers db"
    "pool_grants u pool tm (db\<lparr>reservations := rs, next_reservation := n, rate_buckets := bs\<rparr>) = pool_grants u pool tm db"
    "music_bonus u site (db\<lparr>reservations := rs, next_reservation := n, rate_buckets := bs\<rparr>) = music_bonus u site db"
    "starts u s now (db\<lparr>reservations := rs, next_reservation := n, rate_buckets := bs\<rparr>) = starts u s now db"
    "renounced u tm q i s (db\<lparr>reservations := rs, next_reservation := n, rate_buckets := bs\<rparr>) = renounced u tm q i s db" for pool tm s q i
    by (simp_all add: get_pool_policy_def own_override_def get_override_def user_settings_def list_tiers_def pool_grants_def
        active_grants_def music_bonus_def starts_def stored_window_def renounced_def active_pledges_def)
  show "effective (u, False) ''api'' site load now (db\<lparr>reservations := rs, next_reservation := n, rate_buckets := bs\<rparr>) =
      Inr (with_used (api_usage u now (db\<lparr>reservations := rs, next_reservation := n, rate_buckets := bs\<rparr>)) e)"
    "with_used (api_usage u now db) e = e" "\<not> ef_admin e"
    using assms by (auto simp: effective_def Let_def case_prod_beta p o1 rd with_used_def api_usage_def POOLS_def)
  show "wn_limited (ef_window e) \<longrightarrow> (\<exists>k. wn_tokens (ef_window e) = of_int k)"
    "wn_limited (ef_weekly e) \<longrightarrow> (\<exists>k. wn_tokens (ef_weekly e) = of_int k)"
    using assms by (auto simp: effective_def Let_def case_prod_beta p o1 POOLS_def intro!: window_in_force_whole)
qed

text \<open>Rounding to hundredths hides less than what would take a whole limit over.\<close>

lemma py_round_near: "x - 1 / 2 \<le> of_int (py_round x)"
  by (simp add: py_round_def Let_def) linarith

lemma round_to_near: "x - 1 / 200 \<le> round_to 2 x"
  using py_round_near [of "x * 100"] by (simp add: round_to_def field_simps)

lemma round_to_under:
  assumes "x \<le> of_int k + 1 / 200" shows "round_to 2 x \<le> of_int k"
proof -
  have x: "x * 100 \<le> of_int (100 * k) + 1 / 2" using assms by (simp add: field_simps)
  then have f: "\<lfloor>x * 100\<rfloor> \<le> 100 * k" by linarith
  have "py_round (x * 100) \<le> 100 * k"
  proof (cases "\<lfloor>x * 100\<rfloor> = 100 * k")
    case True
    with x show ?thesis by (simp add: py_round_def Let_def)
  next
    case False
    with f show ?thesis by (simp add: py_round_def Let_def)
  qed
  then have "(of_int (py_round (x * 100)) :: rat) \<le> of_int (100 * k)" by (simp only: of_int_le_iff)
  then show ?thesis by (simp add: round_to_def field_simps)
qed

lemma fits_after_hold:
  assumes "wn_used w = round_to 2 x" "wn_limited w \<longrightarrow> (\<exists>k. wn_tokens w = of_int k)" "wn_limited w \<longrightarrow> n \<le> wn_tokens w - wn_used w"
  shows "fits (w\<lparr>wn_used := round_to 2 (x + n)\<rparr>)"
proof -
  { assume "wn_limited w"
    with assms obtain k where "wn_tokens w = of_int k" "n \<le> of_int k - round_to 2 x" by auto
    then have "round_to 2 (x + n) \<le> wn_tokens w" using round_to_near [of x] by (auto intro!: round_to_under) }
  then show ?thesis by (simp add: fits_def)
qed

lemma budget_room:
  assumes "\<not> ef_admin e" "\<not> bg_unlimited (budget_of e)" "0 < n" "n \<le> regular_left (budget_of e)"
  shows "wn_limited (ef_window e) \<longrightarrow> n \<le> wn_tokens (ef_window e) - wn_used (ef_window e)"
    and "wn_limited (ef_weekly e) \<longrightarrow> n \<le> wn_tokens (ef_weekly e) - wn_used (ef_weekly e)"
  using assms by (auto simp: budget_of_def regular_left_def weekly_left_def Let_def min_def max_def split: if_splits)

lemma sum_list_filter_le: "(\<And>x. x \<in> set xs \<Longrightarrow> (0 :: rat) \<le> f x) \<Longrightarrow> (\<Sum>x \<leftarrow> filter p xs. f x) \<le> (\<Sum>x \<leftarrow> xs. f x)"
  by (induction xs) (auto intro: add_mono order_trans [rotated] simp: add_increasing)

lemma usage_le:
  assumes "holds_ok db"
  shows "fst (api_usage u now (db\<lparr>reservations := tbl_delete p (reservations db)\<rparr>)) \<le> fst (api_usage u now db)"
    and "snd (api_usage u now (db\<lparr>reservations := tbl_delete p (reservations db)\<rparr>)) \<le> snd (api_usage u now db)"
proof -
  have "(\<Sum>r \<leftarrow> filter (\<lambda>r. rs_user r = u) (tbl_delete p (reservations db)). rs_credits r) \<le>
      (\<Sum>r \<leftarrow> filter (\<lambda>r. rs_user r = u) (reservations db). rs_credits r)"
    using sum_list_filter_le [of "filter (\<lambda>r. rs_user r = u) (reservations db)" rs_credits "\<lambda>r. \<not> p r"] assms
    by (auto simp: tbl_delete_def holds_ok_def conj_commute)
  then show "fst (api_usage u now (db\<lparr>reservations := tbl_delete p (reservations db)\<rparr>)) \<le> fst (api_usage u now db)"
    "snd (api_usage u now (db\<lparr>reservations := tbl_delete p (reservations db)\<rparr>)) \<le> snd (api_usage u now db)"
    by (auto simp: api_usage_def usage_def starts_def stored_window_def user_settings_def case_prod_beta Let_def)
qed

lemma usage_hold:
  assumes "db1 = db\<lparr>reservations := reservations db @ [r], next_reservation := n, rate_buckets := bs\<rparr>"
  shows "api_usage u now db1 = (if rs_user r = u then (fst (api_usage u now db) + rs_credits r * 1000, snd (api_usage u now db) + rs_credits r * 1000)
     else api_usage u now db)"
  using assms by (auto simp: api_usage_def usage_def starts_def stored_window_def user_settings_def case_prod_beta Let_def algebra_simps)

lemma py_round_mono: "x \<le> y \<Longrightarrow> py_round x \<le> py_round y"
proof (cases "\<lfloor>x\<rfloor> = \<lfloor>y\<rfloor>")
  case True
  assume "x \<le> y"
  with True show ?thesis by (auto simp: py_round_def Let_def)
next
  case False
  assume "x \<le> y"
  with False have "\<lfloor>x\<rfloor> + 1 \<le> \<lfloor>y\<rfloor>" using floor_mono by fastforce
  then show ?thesis by (auto simp: py_round_def Let_def)
qed

lemma round_to_mono: "x \<le> y \<Longrightarrow> round_to n x \<le> round_to n y"
  by (simp add: round_to_def divide_right_mono py_round_mono)

lemma effective_holds_back:
  assumes "effective (u, False) ''api'' site load now (db\<lparr>reservations := rs, next_reservation := n, rate_buckets := bs\<rparr>) = Inr e"
  shows "effective (u, False) ''api'' site load now db = Inr (with_used (api_usage u now db) e)"
  using effective_holds(1) [OF assms, where rs = "reservations db" and n = "next_reservation db" and bs = "rate_buckets db"] by simp

lemma within_mono:
  assumes "within_allowance u site load now db" and db1: "db1 = db\<lparr>reservations := rs, next_reservation := n, rate_buckets := bs\<rparr>"
    and le: "fst (api_usage u now db1) \<le> fst (api_usage u now db)" "snd (api_usage u now db1) \<le> snd (api_usage u now db)"
  shows "within_allowance u site load now db1"
proof (cases "effective (u, False) ''api'' site load now db1")
  case (Inr e)
  have e: "with_used (api_usage u now db1) e = e" by (rule effective_holds(2) [OF Inr])
  have "effective (u, False) ''api'' site load now db = Inr (with_used (api_usage u now db) e)"
    using Inr unfolding db1 by (rule effective_holds_back)
  with assms(1) have f: "fits (ef_window (with_used (api_usage u now db) e))" "fits (ef_weekly (with_used (api_usage u now db) e))"
    by (simp_all add: within_allowance_def)
  have "fits (ef_window (with_used (api_usage u now db1) e))" "fits (ef_weekly (with_used (api_usage u now db1) e))"
    using f round_to_mono [OF le(1), of 2] round_to_mono [OF le(2), of 2] by (auto simp: fits_def with_used_def)
  with Inr show ?thesis by (simp add: within_allowance_def e)
qed (simp add: within_allowance_def)

lemma within_hold:
  assumes e: "effective (u, False) ''api'' site load now db = Inr e"
    and b: "\<not> bg_unlimited (budget_of e)" "0 < n" "n \<le> regular_left (budget_of e)"
    and db1: "db1 = db\<lparr>reservations := reservations db @ [r], next_reservation := k, rate_buckets := bs\<rparr>" and r: "rs_user r = u" "rs_credits r * 1000 = n"
  shows "within_allowance u site load now db1"
proof -
  have e1: "effective (u, False) ''api'' site load now db1 = Inr (with_used (api_usage u now db1) e)"
    using effective_holds(1) [OF e] unfolding db1 by blast
  have us: "api_usage u now db1 = (fst (api_usage u now db) + n, snd (api_usage u now db) + n)"
    using usage_hold [OF db1] r by simp
  have w: "wn_used (ef_window e) = round_to 2 (fst (api_usage u now db))" "wn_used (ef_weekly e) = round_to 2 (snd (api_usage u now db))"
    using arg_cong [OF effective_holds(2) [OF e], of "\<lambda>x. wn_used (ef_window x)"]
      arg_cong [OF effective_holds(2) [OF e], of "\<lambda>x. wn_used (ef_weekly x)"] by (simp_all add: with_used_def)
  show ?thesis
    using fits_after_hold [OF w(1) effective_holds(3) [OF e] budget_room(1) [OF effective_holds(5) [OF e] b]]
      fits_after_hold [OF w(2) effective_holds(4) [OF e] budget_room(2) [OF effective_holds(5) [OF e] b]]
    by (simp add: within_allowance_def e1 us with_used_def)
qed

lemma admit_keeps:
  assumes "admit (u, ad) pool (Some m) take_rate ids site load report now clock db = Inr (Some a, db1)"
  shows "db1 = db\<lparr>rate_buckets := rate_buckets db1\<rparr>"
  using assms by (auto simp: admit_def Let_def admit_model_def admit_rate_def answer_def split: if_splits sum.splits option.splits prod.splits)

lemma admit_budget:
  assumes "admit (u, ad) pool (Some m) take_rate ids site load report now clock db = Inr (Some a, db1)" "ad_refusal a = None"
  shows "bg_unlimited (ad_budget a) \<or> (\<not> ad \<and> (\<exists>e. effective (u, False) pool site load now db = Inr e \<and> ad_budget a = budget_of e))"
proof -
  have free: "bg_unlimited (budget_of (admin_result pool))" by (simp add: budget_of_def admin_result_def)
  show ?thesis
    using assms free by (auto simp: map_sum_Inr admit_def Let_def admit_model_def admit_rate_def answer_def read_budget_def
        split: if_splits sum.splits option.splits prod.splits)
qed

lemma holds_ok_buckets: "holds_ok (db\<lparr>rate_buckets := bs\<rparr>) = holds_ok db"
  by (simp add: holds_ok_def)

lemma holds_ok_refund: "holds_ok db \<Longrightarrow> holds_ok (refund_reservation h db)"
  by (auto simp: holds_ok_def refund_reservation_def tbl_delete_def split: option.splits)

lemma within_refund:
  assumes "within_allowance u site load now db" "holds_ok db"
  shows "within_allowance u site load now (refund_reservation h db)"
proof (cases h)
  case (Some r)
  show ?thesis
    by (rule within_mono [OF assms(1), where rs = "tbl_delete (\<lambda>x. rs_id x = r) (reservations db)" and n = "next_reservation db" and bs = "rate_buckets db"])
      (use Some usage_le [OF assms(2)] in \<open>simp_all add: refund_reservation_def\<close>)
qed (simp add: refund_reservation_def assms)

lemma within_buckets: "within_allowance u site load now db \<Longrightarrow> within_allowance u site load now (db\<lparr>rate_buckets := bs\<rparr>)"
  by (erule within_mono [where rs = "reservations db" and n = "next_reservation db" and bs = bs])
    (simp_all add: api_usage_def usage_def starts_def stored_window_def user_settings_def case_prod_beta Let_def)

lemma take_hold_cases:
  assumes "take_hold ids v b m prompt longest token t db = Inr (h, db1)"
  obtains "db1 = db" | n k where "\<not> bg_unlimited b" "0 < n" "n \<le> regular_left b" "hold_answer v n (Some (cm_id m)) token t db = Inr (k, db1)"
proof (cases "db1 = db")
  case False
  then obtain w c where "charge_terms ids (Some (cm_id m)) db = Inr (w, c)" "\<not> bg_unlimited b"
    using assms by (auto simp: take_hold_def split: if_splits sum.splits)
  then show thesis
    using assms False that(2) [of "min (of_int (prompt + longest) * w) (regular_left b)"]
    by (auto simp: take_hold_def Let_def map_sum_Inr split: if_splits)
qed

lemma start_attempt_within:
  assumes w: "within_allowance u site load now db" and ok: "holds_ok db" and s: "start_attempt x ids site load now db = Inr (s, db1)"
  shows "within_allowance u site load now db1 \<and> holds_ok db1"
proof -
  let ?r = "refund_reservation (at_hold x) db"
  have r: "within_allowance u site load now ?r" "holds_ok ?r" using within_refund [OF w ok] holds_ok_refund [OF ok] by auto
  show ?thesis
  proof (cases "at_locked x")
    case True
    with r s show ?thesis by (simp add: start_attempt_def)
  next
    case False
    then obtain a d where a: "admit (at_user x) ''api'' (Some (at_model x)) (at_rate x) ids site load (at_report x) now (at_clock x) ?r = Inr (Some a, d)"
      using s by (auto simp: start_attempt_def Let_def split: sum.splits prod.splits option.splits)
    obtain v ad where v: "at_user x = (v, ad)" by (cases "at_user x")
    obtain bs where dr: "d = ?r\<lparr>rate_buckets := bs\<rparr>" using admit_keeps [OF a [unfolded v]] by blast
    then have keeps: "within_allowance u site load now d \<and> holds_ok d"
      using within_buckets [OF r(1), of bs] r(2) by (simp add: holds_ok_buckets)
    show ?thesis
    proof (cases "ad_refusal a")
      case (Some f)
      with s False a keeps show ?thesis by (simp add: start_attempt_def)
    next
      case None
      then obtain h where t: "take_hold ids v (ad_budget a) (at_model x) (at_prompt x) (at_longest x) (at_token x) (at_stamp x) d = Inr (h, db1)"
        using s False a v by (auto simp: start_attempt_def map_sum_Inr)
      then show ?thesis
      proof (cases rule: take_hold_cases)
        case 1
        with keeps show ?thesis by simp
      next
        case (2 n k)
        then obtain e where e: "\<not> ad" "effective (v, False) ''api'' site load now ?r = Inr e" "ad_budget a = budget_of e"
          using admit_budget [OF a [unfolded v] None] by blast
        define row :: reservation where "row = \<lparr>rs_id = next_reservation ?r, rs_user = v, rs_token = at_token x, rs_model = Some (cm_id (at_model x)),
             rs_credits = tokens_to_credits n, rs_created = at_stamp x, rs_updated = Some (at_stamp x)\<rparr>"
        have db1: "db1 = ?r\<lparr>reservations := reservations ?r @ [row], next_reservation := next_reservation ?r + 1, rate_buckets := bs\<rparr>"
          using 2(4) by (auto simp: dr hold_answer_def row_def split: if_splits)
        have "0 \<le> rs_credits row" using 2(2) by (simp add: row_def tokens_to_credits_def)
        then have ok1: "holds_ok db1" using r(2) by (auto simp: holds_ok_def db1)
        have "within_allowance u site load now db1"
        proof (cases "v = u")
          case True
          show ?thesis
            by (rule within_hold [OF e(2) [unfolded True] 2(1-3) [unfolded e(3)] db1]) (simp_all add: True row_def tokens_to_credits_def)
        next
          case False
          then have "api_usage u now db1 = api_usage u now ?r" using usage_hold [OF db1] by (simp add: row_def)
          then show ?thesis by (intro within_mono [OF r(1) db1]) simp_all
        qed
        with ok1 show ?thesis by blast
      qed
    qed
  qed
qed


definition ex_attempt :: attempt where
  "ex_attempt = \<lparr>at_user = (''u'', False), at_model = ex_model, at_hold = None, at_locked = False, at_prompt = 40000, at_longest = 10000,
     at_token = None, at_rate = True, at_report = None, at_clock = 5, at_stamp = 5\<rparr>"


end
