(* ===== verification/Chats.thy ===== *)
theory Chats
  imports Ledger "HOL-Library.Char_ord" "HOL-Library.List_Lexorder"
begin

section \<open>Chats\<close>

text \<open>
  bananachat/db/chats.py: sessions, messages with their attachments and audit copies, sharing,
  deletion and retention. A text is the list of its code points; texts hold no NUL.
\<close>

type_synonym utext = "nat list"

record chat_session =
  cs_id :: string
  cs_user :: string
  cs_title :: string
  cs_incognito :: bool
  cs_personality :: "int option"
  cs_shared :: "string option"
  cs_blocked :: "stamp option"
  cs_deleted :: "stamp option"
  cs_created :: stamp
  cs_updated :: stamp
  cs_state :: string
  cs_error :: string
  cs_message :: "int option"

record message =
  mg_id :: int
  mg_chat :: string
  mg_role :: string
  mg_text :: utext
  mg_model :: "int option"
  mg_in :: int
  mg_out :: int
  mg_at :: stamp
  mg_state :: string
  mg_estimated :: bool

record attachment =
  af_id :: string
  af_message :: int
  af_kind :: string
  af_name :: string
  af_size :: int
  af_stored :: "int option"
  af_text :: "utext option"
  af_image :: "nat option"  \<comment> \<open>the length of the stored image\<close>
  af_at :: stamp

record audit_copy =
  ia_id :: int
  ia_chat :: string
  ia_user :: string
  ia_role :: string
  ia_text :: utext
  ia_model :: "int option"
  ia_at :: stamp

text \<open>A lease of a run (\<open>active_streams\<close>).\<close>

record live_run =
  lv_chat :: string
  lv_token :: string
  lv_stop :: bool
  lv_beat :: epoch
  lv_started :: "epoch option"
  lv_prompt :: "int option"
  lv_user :: "string option"
  lv_incognito :: bool
  lv_model :: "int option"
  lv_in :: int
  lv_out :: int
  lv_partial :: utext

record chat_db = ledger_db +
  chats :: "chat_session list"
  messages :: "message list"
  next_message :: int
  attachments :: "attachment list"
  audit_copies :: "audit_copy list"
  next_copy :: int
  live_runs :: "live_run list"

datatype chat_error = Title_Required | Cannot_Share | Share_Is_Blocked | Chat_Integrity

definition DEFAULT_TITLE :: string where "DEFAULT_TITLE = ''New Chat''"

definition MAX_TITLE :: nat where "MAX_TITLE = 100"

definition SESSION_ID_MAX :: nat where "SESSION_ID_MAX = 64"

definition id_char :: "char \<Rightarrow> bool" where
  "id_char c \<longleftrightarrow> (let n = (of_char c :: nat) in
     (48 \<le> n \<and> n \<le> 57) \<or> (65 \<le> n \<and> n \<le> 90) \<or> (97 \<le> n \<and> n \<le> 122) \<or> c = CHR ''-'' \<or> c = CHR ''_'')"

definition valid_id :: "string \<Rightarrow> bool" where
  "valid_id i \<longleftrightarrow> 0 < length i \<and> length i \<le> SESSION_ID_MAX \<and> list_all id_char i"

definition is_untitled :: "string option \<Rightarrow> bool" where
  "is_untitled title \<longleftrightarrow> strip (case title of None \<Rightarrow> [] | Some t \<Rightarrow> t) = [] \<or> title = Some DEFAULT_TITLE"

subsection \<open>Sessions\<close>

definition chat_create :: "string \<Rightarrow> string \<Rightarrow> bool \<Rightarrow> stamp \<Rightarrow> ('a) chat_db_scheme \<Rightarrow> chat_error + ('a) chat_db_scheme" where
  "chat_create i u incognito t db =
     (if \<not> known (Some u) db \<or> tbl_one (\<lambda>c. cs_id c = i) (chats db) \<noteq> None then Inl Chat_Integrity
      else Inr (db\<lparr>chats := chats db @ [\<lparr>cs_id = i, cs_user = u, cs_title = DEFAULT_TITLE, cs_incognito = incognito, cs_personality = None,
        cs_shared = None, cs_blocked = None, cs_deleted = None, cs_created = t, cs_updated = t, cs_state = ''idle'', cs_error = [],
        cs_message = None\<rparr>]\<rparr>))"

definition chat_get :: "string \<Rightarrow> ('a) chat_db_scheme \<Rightarrow> chat_session option" where
  "chat_get i db = (if \<not> valid_id i then None else tbl_one (\<lambda>c. cs_id c = i) (chats db))"

definition get_owned :: "string \<Rightarrow> string \<Rightarrow> ('a) chat_db_scheme \<Rightarrow> chat_session option" where
  "get_owned i u db = (if \<not> valid_id i then None else tbl_one (\<lambda>c. cs_id c = i \<and> cs_user c = u \<and> cs_deleted c = None) (chats db))"

definition has_messages :: "('a) chat_db_scheme \<Rightarrow> chat_session \<Rightarrow> bool" where
  "has_messages db c \<longleftrightarrow> list_ex (\<lambda>m. mg_chat m = cs_id c) (messages db)"

text \<open>Newest first: by the time of the last change, then by id.\<close>

definition newer :: "chat_session \<Rightarrow> chat_session \<Rightarrow> bool" where
  "newer a b \<longleftrightarrow> cs_updated b < cs_updated a \<or> (cs_updated b = cs_updated a \<and> cs_id b \<le> cs_id a)"

fun insert_newest :: "chat_session \<Rightarrow> chat_session list \<Rightarrow> chat_session list" where
  "insert_newest c [] = [c]"
| "insert_newest c (d # ds) = (if newer c d then c # d # ds else d # insert_newest c ds)"

definition newest_first :: "chat_session list \<Rightarrow> chat_session list" where
  "newest_first cs = foldr insert_newest cs []"

definition latest_empty :: "string \<Rightarrow> bool \<Rightarrow> ('a) chat_db_scheme \<Rightarrow> chat_session option" where
  "latest_empty u incognito db =
     (case newest_first (filter (\<lambda>c. cs_user c = u \<and> cs_incognito c = incognito \<and> cs_deleted c = None \<and> \<not> has_messages db c) (chats db)) of
        [] \<Rightarrow> None | c # _ \<Rightarrow> Some c)"

definition update_chat :: "string \<Rightarrow> (chat_session \<Rightarrow> chat_session) \<Rightarrow> ('a) chat_db_scheme \<Rightarrow> ('a) chat_db_scheme" where
  "update_chat i f db = db\<lparr>chats := tbl_update (\<lambda>c. cs_id c = i) f (chats db)\<rparr>"

definition chat_touch :: "string \<Rightarrow> stamp \<Rightarrow> ('a) chat_db_scheme \<Rightarrow> ('a) chat_db_scheme" where
  "chat_touch i t db = update_chat i (\<lambda>c. c\<lparr>cs_updated := t\<rparr>) db"

definition listed :: "string \<Rightarrow> ('a) chat_db_scheme \<Rightarrow> chat_session \<Rightarrow> bool" where
  "listed u db c \<longleftrightarrow> cs_user c = u \<and> \<not> cs_incognito c \<and> cs_deleted c = None \<and> has_messages db c"

definition list_for_user :: "string \<Rightarrow> nat \<Rightarrow> (stamp \<times> string) option \<Rightarrow> ('a) chat_db_scheme \<Rightarrow> chat_session list" where
  "list_for_user u limit before db =
     take limit (newest_first (filter (\<lambda>c. listed u db c \<and>
       (case before of None \<Rightarrow> True
        | Some (t, i) \<Rightarrow> cs_updated c < t \<or> (cs_updated c = t \<and> cs_id c < i))) (chats db)))"

definition count_for_user :: "string \<Rightarrow> ('a) chat_db_scheme \<Rightarrow> nat" where
  "count_for_user u db = tbl_count (listed u db) (chats db)"

text \<open>White space is collapsed as \<open>" ".join(title.split())\<close> does.\<close>

definition chat_rename :: "string \<Rightarrow> string option \<Rightarrow> ('a) chat_db_scheme \<Rightarrow> chat_error + (string \<times> ('a) chat_db_scheme)" where
  "chat_rename i title db =
     (let clean = take MAX_TITLE (join_spaces (words_from [] (case title of None \<Rightarrow> [] | Some t \<Rightarrow> t)))
      in if clean = [] then Inl Title_Required else Inr (clean, update_chat i (\<lambda>c. c\<lparr>cs_title := clean\<rparr>) db))"

text \<open>SQL's \<open>trim\<close> takes spaces away, not every white space.\<close>

definition blank :: "string \<Rightarrow> bool" where
  "blank s \<longleftrightarrow> list_all (\<lambda>c. c = CHR '' '') s"

definition set_title_if_untitled :: "string \<Rightarrow> string \<Rightarrow> ('a) chat_db_scheme \<Rightarrow> bool \<times> ('a) chat_db_scheme" where
  "set_title_if_untitled i title db =
     (let hit = (\<lambda>c. cs_id c = i \<and> (cs_title c = DEFAULT_TITLE \<or> blank (cs_title c)))
      in (tbl_count hit (chats db) = 1, db\<lparr>chats := tbl_update hit (\<lambda>c. c\<lparr>cs_title := take MAX_TITLE title\<rparr>) (chats db)\<rparr>))"

subsection \<open>Sharing\<close>

definition share :: "string \<Rightarrow> string \<Rightarrow> ('a) chat_db_scheme \<Rightarrow> chat_error + (string \<times> ('a) chat_db_scheme)" where
  "share i token db =
     (case tbl_one (\<lambda>c. cs_id c = i \<and> cs_deleted c = None) (chats db) of
        None \<Rightarrow> Inl Cannot_Share
      | Some c \<Rightarrow>
          if cs_incognito c then Inl Cannot_Share
          else if cs_blocked c \<noteq> None then Inl Share_Is_Blocked
          else if truthy (cs_shared c) then Inr (the (cs_shared c), db)
          else if list_ex (\<lambda>d. cs_shared d = Some token) (chats db) then Inl Chat_Integrity
          else Inr (token, update_chat i (\<lambda>d. d\<lparr>cs_shared := Some token\<rparr>) db))"

definition revoke_share :: "string \<Rightarrow> bool \<Rightarrow> stamp \<Rightarrow> ('a) chat_db_scheme \<Rightarrow> ('a) chat_db_scheme" where
  "revoke_share i block t db =
     (if block then update_chat i (\<lambda>c. c\<lparr>cs_shared := None, cs_blocked := Some (case cs_blocked c of Some b \<Rightarrow> b | None \<Rightarrow> t)\<rparr>) db
      else update_chat i (\<lambda>c. c\<lparr>cs_shared := None\<rparr>) db)"

definition count_shared :: "string \<Rightarrow> ('a) chat_db_scheme \<Rightarrow> nat" where
  "count_shared u db = tbl_count (\<lambda>c. cs_user c = u \<and> cs_shared c \<noteq> None \<and> cs_deleted c = None) (chats db)"

definition revoke_all_shares :: "string \<Rightarrow> ('a) chat_db_scheme \<Rightarrow> nat \<times> ('a) chat_db_scheme" where
  "revoke_all_shares u db =
     (let hit = (\<lambda>c. cs_user c = u \<and> cs_shared c \<noteq> None)
      in (tbl_count hit (chats db), db\<lparr>chats := tbl_update hit (\<lambda>c. c\<lparr>cs_shared := None\<rparr>) (chats db)\<rparr>))"

definition allow_share :: "string \<Rightarrow> ('a) chat_db_scheme \<Rightarrow> bool \<times> ('a) chat_db_scheme" where
  "allow_share i db =
     (let hit = (\<lambda>c. cs_id c = i \<and> cs_blocked c \<noteq> None)
      in (tbl_count hit (chats db) = 1, db\<lparr>chats := tbl_update hit (\<lambda>c. c\<lparr>cs_blocked := None\<rparr>) (chats db)\<rparr>))"

definition by_share_token :: "string \<Rightarrow> ('a) chat_db_scheme \<Rightarrow> chat_session option" where
  "by_share_token token db =
     (if length token < 16 \<or> 64 < length token \<or> \<not> valid_id token then None
      else tbl_one (\<lambda>c. cs_shared c = Some token \<and> \<not> cs_incognito c \<and> cs_deleted c = None) (chats db))"

subsection \<open>Deletion\<close>

definition stop_runs :: "(live_run \<Rightarrow> bool) \<Rightarrow> ('a) chat_db_scheme \<Rightarrow> ('a) chat_db_scheme" where
  "stop_runs p db = db\<lparr>live_runs := tbl_update p (\<lambda>r. r\<lparr>lv_stop := True\<rparr>) (live_runs db)\<rparr>"

text \<open>DELETE of sessions, with the cascades to their messages and attachments.\<close>

definition erase_chats :: "(chat_session \<Rightarrow> bool) \<Rightarrow> ('a) chat_db_scheme \<Rightarrow> ('a) chat_db_scheme" where
  "erase_chats p db =
     (let gone = cs_id ` set (filter p (chats db)); lost = mg_id ` set (filter (\<lambda>m. mg_chat m \<in> gone) (messages db))
      in db\<lparr>chats := tbl_delete p (chats db), messages := tbl_delete (\<lambda>m. mg_chat m \<in> gone) (messages db),
           attachments := tbl_delete (\<lambda>a. af_message a \<in> lost) (attachments db)\<rparr>)"

definition soft_delete :: "string \<Rightarrow> stamp \<Rightarrow> ('a) chat_db_scheme \<Rightarrow> ('a) chat_db_scheme" where
  "soft_delete i t db =
     (let db1 = stop_runs (\<lambda>r. lv_chat r = i) db
      in db1\<lparr>chats := tbl_update (\<lambda>c. cs_id c = i \<and> cs_deleted c = None) (\<lambda>c. c\<lparr>cs_deleted := Some t, cs_shared := None\<rparr>) (chats db1)\<rparr>)"

definition hard_delete :: "string \<Rightarrow> ('a) chat_db_scheme \<Rightarrow> ('a) chat_db_scheme" where
  "hard_delete i db = erase_chats (\<lambda>c. cs_id c = i) (stop_runs (\<lambda>r. lv_chat r = i) db)"

definition delete_all_for_user :: "string \<Rightarrow> bool \<Rightarrow> stamp \<Rightarrow> ('a) chat_db_scheme \<Rightarrow> nat \<times> ('a) chat_db_scheme" where
  "delete_all_for_user u hard t db =
     (let own = cs_id ` set (filter (\<lambda>c. cs_user c = u) (chats db));
          db1 = stop_runs (\<lambda>r. lv_chat r \<in> own) db;
          n1 = tbl_count (\<lambda>c. cs_user c = u \<and> cs_incognito c) (chats db1);
          db2 = erase_chats (\<lambda>c. cs_user c = u \<and> cs_incognito c) db1
      in if hard then (n1 + tbl_count (\<lambda>c. cs_user c = u) (chats db2), erase_chats (\<lambda>c. cs_user c = u) db2)
         else (n1 + tbl_count (\<lambda>c. cs_user c = u \<and> cs_deleted c = None) (chats db2),
           db2\<lparr>chats := tbl_update (\<lambda>c. cs_user c = u \<and> cs_deleted c = None) (\<lambda>c. c\<lparr>cs_deleted := Some t, cs_shared := None\<rparr>) (chats db2)\<rparr>))"

subsection \<open>Messages\<close>

definition chat_exists :: "string \<Rightarrow> ('a) chat_db_scheme \<Rightarrow> bool" where
  "chat_exists i db \<longleftrightarrow> i \<in> cs_id ` set (chats db)"

definition add_message ::
  "string \<Rightarrow> string \<Rightarrow> utext \<Rightarrow> string \<Rightarrow> bool \<Rightarrow> int option \<Rightarrow> int \<Rightarrow> int \<Rightarrow> string \<Rightarrow> bool \<Rightarrow> stamp \<Rightarrow> ('a) chat_db_scheme
    \<Rightarrow> chat_error + (int \<times> ('a) chat_db_scheme)" where
  "add_message i who content u incognito model tin tout state estimated t db =
     (if \<not> chat_exists i db \<or> who \<notin> {''user'', ''assistant'', ''system''} \<or> \<not> model_known model db \<or> (incognito \<and> \<not> known (Some u) db)
      then Inl Chat_Integrity
      else
        let m = next_message db;
            db1 = db\<lparr>messages := messages db @ [\<lparr>mg_id = m, mg_chat = i, mg_role = who, mg_text = content, mg_model = model,
              mg_in = tin, mg_out = tout, mg_at = t, mg_state = state, mg_estimated = estimated\<rparr>], next_message := m + 1\<rparr>;
            db2 = (if incognito then db1\<lparr>audit_copies := audit_copies db1 @ [\<lparr>ia_id = next_copy db1, ia_chat = i, ia_user = u, ia_role = who,
              ia_text = content, ia_model = model, ia_at = t\<rparr>], next_copy := next_copy db1 + 1\<rparr> else db1)
        in Inr (m, update_chat i (\<lambda>c. c\<lparr>cs_updated := t\<rparr>) db2))"

definition count_messages :: "string \<Rightarrow> ('a) chat_db_scheme \<Rightarrow> nat" where
  "count_messages i db = tbl_count (\<lambda>m. mg_chat m = i) (messages db)"

text \<open>With the cascade to its attachments and the sessions that name it as their answer.\<close>

definition delete_message :: "int \<Rightarrow> ('a) chat_db_scheme \<Rightarrow> ('a) chat_db_scheme" where
  "delete_message m db =
     db\<lparr>messages := tbl_delete (\<lambda>x. mg_id x = m) (messages db), attachments := tbl_delete (\<lambda>a. af_message a = m) (attachments db),
        chats := tbl_update (\<lambda>c. cs_message c = Some m) (\<lambda>c. c\<lparr>cs_message := None\<rparr>) (chats db)\<rparr>"

definition get_message :: "string \<Rightarrow> int \<Rightarrow> ('a) chat_db_scheme \<Rightarrow> message option" where
  "get_message i m db = tbl_one (\<lambda>x. mg_id x = m \<and> mg_chat x = i) (messages db)"

text \<open>The UTF-8 size of a text.\<close>

definition utf8_size :: "nat \<Rightarrow> nat" where
  "utf8_size c = (if c < 0x80 then 1 else if c < 0x800 then 2 else if c < 0x10000 then 3 else 4)"

definition text_bytes :: "utext \<Rightarrow> nat" where
  "text_bytes cs = (\<Sum>c \<leftarrow> cs. utf8_size c)"

text \<open>As many of the rows as hold \<open>most\<close> bytes of text, at least one.\<close>

fun fill :: "('m \<Rightarrow> nat) \<Rightarrow> nat \<Rightarrow> bool \<Rightarrow> nat \<Rightarrow> 'm list \<Rightarrow> 'm list" where
  "fill size1 most started total1 [] = []"
| "fill size1 most started total1 (m # ms) =
     (if started \<and> most < total1 + size1 m then [] else m # fill size1 most True (total1 + size1 m) ms)"

definition chosen :: "('m \<Rightarrow> utext) \<Rightarrow> nat option \<Rightarrow> 'm list \<Rightarrow> 'm list" where
  "chosen content most ms = (case most of None \<Rightarrow> ms | Some b \<Rightarrow> fill (\<lambda>m. text_bytes (content m)) b False 0 ms)"

definition chat_messages :: "string \<Rightarrow> (int \<Rightarrow> bool) \<Rightarrow> message list \<Rightarrow> message list" where
  "chat_messages i p ms = sort_key mg_id (filter (\<lambda>m. mg_chat m = i \<and> p (mg_id m)) ms)"

definition message_page :: "string \<Rightarrow> int option \<Rightarrow> nat \<Rightarrow> nat option \<Rightarrow> message list \<Rightarrow> message list \<times> bool" where
  "message_page i before limit most ms =
     (let rows = take (limit + 1) (rev (chat_messages i (\<lambda>n. case before of None \<Rightarrow> True | Some b \<Rightarrow> n < b) ms));
          page = chosen mg_text most (take limit rows)
      in (rev page, if most = None then limit < length rows else page \<noteq> [] \<and> length page < length rows))"

definition messages_after :: "string \<Rightarrow> int \<Rightarrow> nat \<Rightarrow> nat option \<Rightarrow> message list \<Rightarrow> message list" where
  "messages_after i after limit most ms = chosen mg_text most (take limit (chat_messages i (\<lambda>n. after < n) ms))"

text \<open>
  \<open>iter_message_batches\<close>: each batch is a query of its own, so the table may change in between;
  \<open>tables k\<close> is what the k-th query reads. \<open>until\<close> is the newest message at the start.
\<close>

definition next_batch :: "string \<Rightarrow> nat \<Rightarrow> nat option \<Rightarrow> int \<Rightarrow> int \<Rightarrow> message list \<Rightarrow> message list" where
  "next_batch i batch most cursor until ms = chosen mg_text most (take batch (chat_messages i (\<lambda>n. cursor < n \<and> n \<le> until) ms))"

lemma set_fill: "set (fill size1 most started total1 ms) \<subseteq> set ms"
  by (induction size1 most started total1 ms rule: fill.induct) auto

lemma set_chosen: "set (chosen content most ms) \<subseteq> set ms"
  by (auto simp: chosen_def split: option.splits dest: set_mp [OF set_fill])

lemma next_batch_ids: "m \<in> set (next_batch i batch most cursor until ms) \<Longrightarrow> cursor < mg_id m \<and> mg_id m \<le> until"
  using set_chosen set_take_subset by (fastforce simp: next_batch_def chat_messages_def)

function batches :: "(nat \<Rightarrow> message list) \<Rightarrow> nat \<Rightarrow> string \<Rightarrow> nat \<Rightarrow> nat option \<Rightarrow> int \<Rightarrow> int \<Rightarrow> message list list" where
  "batches tables k i batch most cursor until =
     (if \<not> cursor < until then []
      else let rows = next_batch i batch most cursor until (tables k)
           in if rows = [] then [] else rows # batches tables (Suc k) i batch most (mg_id (last rows)) until)"
  by auto

termination
proof (relation "measure (\<lambda>(tables, k, i, batch, most, cursor, until). nat (until - cursor))")
  fix tables :: "nat \<Rightarrow> message list" and k batch :: nat and i :: string and most :: "nat option" and cursor until :: int and rows
  assume "\<not> \<not> cursor < until" "rows = next_batch i batch most cursor until (tables k)" "rows \<noteq> []"
  moreover from this have "cursor < mg_id (last rows)" using next_batch_ids last_in_set by blast
  ultimately show "((tables, Suc k, i, batch, most, mg_id (last rows), until), tables, k, i, batch, most, cursor, until)
      \<in> measure (\<lambda>(tables, k, i, batch, most, cursor, until). nat (until - cursor))" by simp
qed simp

declare batches.simps [simp del]

definition newest_message :: "string \<Rightarrow> message list \<Rightarrow> int" where
  "newest_message i ms = (case chat_messages i (\<lambda>_. True) ms of [] \<Rightarrow> 0 | m # rest \<Rightarrow> mg_id (last (m # rest)))"

definition iter_message_batches :: "(nat \<Rightarrow> message list) \<Rightarrow> string \<Rightarrow> nat \<Rightarrow> nat option \<Rightarrow> message list list" where
  "iter_message_batches tables i batch most = batches tables 1 i batch most 0 (newest_message i (tables 0))"

text \<open>\<open>context_messages\<close>: the newest messages that fit, the last one always.\<close>

fun fitting :: "nat \<Rightarrow> nat \<Rightarrow> message list \<Rightarrow> message list" where
  "fitting most sum1 [] = []"
| "fitting most sum1 (m # ms) = (if sum1 + length (mg_text m) \<le> most then [m] else []) @ fitting most (sum1 + length (mg_text m)) ms"

definition context_messages :: "string \<Rightarrow> nat \<Rightarrow> nat \<Rightarrow> message list \<Rightarrow> message list" where
  "context_messages i most_messages most_chars ms =
     (let recent = map (\<lambda>m. m\<lparr>mg_text := take most_chars (mg_text m)\<rparr>)
            (take most_messages (rev (sort_key mg_id (filter (\<lambda>m. mg_chat m = i \<and> mg_role m \<in> {''user'', ''assistant''}) ms))))
      in case recent of [] \<Rightarrow> [] | m # rest \<Rightarrow> rev (m # fitting most_chars (length (mg_text m)) rest))"

subsection \<open>Attachments\<close>

record upload =
  up_id :: string
  up_kind :: string
  up_name :: string
  up_size :: int
  up_stored :: "int option"
  up_text :: "utext option"
  up_image :: "nat option"

definition upload_ok :: "upload \<Rightarrow> bool" where
  "upload_ok x \<longleftrightarrow> up_kind x \<in> {''image'', ''pdf'', ''text'', ''code''} \<and>
     (if up_kind x = ''image'' then up_image x \<noteq> None \<and> up_text x = None else up_image x = None \<and> up_text x \<noteq> None)"

definition add_attachment :: "int \<Rightarrow> stamp \<Rightarrow> upload \<Rightarrow> ('a) chat_db_scheme \<Rightarrow> chat_error + ('a) chat_db_scheme" where
  "add_attachment m t x db =
     (if \<not> upload_ok x \<or> list_ex (\<lambda>a. af_id a = up_id x) (attachments db) \<or> m \<notin> mg_id ` set (messages db) then Inl Chat_Integrity
      else Inr (db\<lparr>attachments := attachments db @ [\<lparr>af_id = up_id x, af_message = m, af_kind = up_kind x, af_name = up_name x,
        af_size = up_size x,
        af_stored = Some (case up_stored x of Some n \<Rightarrow> n
          | None \<Rightarrow> int ((case up_image x of None \<Rightarrow> 0 | Some n \<Rightarrow> n) + (case up_text x of None \<Rightarrow> 0 | Some u \<Rightarrow> text_bytes u))),
        af_text = up_text x, af_image = up_image x, af_at = t\<rparr>]\<rparr>))"

definition add_attachments :: "int \<Rightarrow> stamp \<Rightarrow> upload list \<Rightarrow> ('a) chat_db_scheme \<Rightarrow> chat_error + ('a) chat_db_scheme" where
  "add_attachments m t xs db = foldl (\<lambda>acc x. case acc of Inl e \<Rightarrow> Inl e | Inr d \<Rightarrow> add_attachment m t x d) (Inr db) xs"

definition attachments_for :: "int set \<Rightarrow> ('a) chat_db_scheme \<Rightarrow> int \<Rightarrow> attachment list" where
  "attachments_for ids db m =
     (if m \<in> ids then sort_key (\<lambda>a. (af_at a, af_id a)) (filter (\<lambda>a. af_message a = m) (attachments db)) else [])"

definition in_chat :: "('a) chat_db_scheme \<Rightarrow> string \<Rightarrow> attachment \<Rightarrow> bool" where
  "in_chat db i a \<longleftrightarrow> list_ex (\<lambda>m. mg_id m = af_message a \<and> mg_chat m = i) (messages db)"

definition get_attachment :: "string \<Rightarrow> string \<Rightarrow> ('a) chat_db_scheme \<Rightarrow> attachment option" where
  "get_attachment i a db = (if \<not> valid_id a then None else tbl_one (\<lambda>x. af_id x = a \<and> in_chat db i x) (attachments db))"

definition stored_size :: "attachment \<Rightarrow> int" where
  "stored_size a = (case af_stored a of Some n \<Rightarrow> n | None \<Rightarrow> af_size a)"

definition attachment_bytes :: "string \<Rightarrow> ('a) chat_db_scheme \<Rightarrow> int" where
  "attachment_bytes i db = (\<Sum>a \<leftarrow> filter (in_chat db i) (attachments db). stored_size a)"

definition of_account :: "('a) chat_db_scheme \<Rightarrow> string \<Rightarrow> string \<Rightarrow> bool" where
  "of_account db u i \<longleftrightarrow> list_ex (\<lambda>c. cs_id c = i \<and> cs_user c = u) (chats db)"

definition account_attachment_bytes :: "string \<Rightarrow> ('a) chat_db_scheme \<Rightarrow> int" where
  "account_attachment_bytes u db =
     (\<Sum>a \<leftarrow> filter (\<lambda>a. list_ex (\<lambda>m. mg_id m = af_message a \<and> of_account db u (mg_chat m)) (messages db)) (attachments db). stored_size a)"

definition account_text_bytes :: "string \<Rightarrow> ('a) chat_db_scheme \<Rightarrow> nat" where
  "account_text_bytes u db =
     (\<Sum>m \<leftarrow> filter (\<lambda>m. of_account db u (mg_chat m)) (messages db). text_bytes (mg_text m)) +
     (\<Sum>a \<leftarrow> filter (\<lambda>a. ia_user a = u) (audit_copies db). text_bytes (ia_text a))"

definition has_images :: "string \<Rightarrow> ('a) chat_db_scheme \<Rightarrow> bool" where
  "has_images i db \<longleftrightarrow> list_ex (\<lambda>a. af_kind a = ''image'' \<and> in_chat db i a) (attachments db)"

text \<open>Newest first within the budgets of characters, images and image bytes; a document may be cut.\<close>

fun take_context :: "nat \<Rightarrow> nat \<Rightarrow> nat option \<Rightarrow> attachment list \<Rightarrow> attachment list" where
  "take_context chars images bytes [] = []"
| "take_context chars images bytes (a # rest) =
     (let size1 = (case af_image a of None \<Rightarrow> 0 | Some n \<Rightarrow> n); content = (case af_text a of None \<Rightarrow> [] | Some u \<Rightarrow> u) in
      if af_kind a = ''image''
      then (if images = 0 \<or> (case bytes of None \<Rightarrow> False | Some b \<Rightarrow> b < size1) then take_context chars images bytes rest
        else a # take_context chars (images - 1) (map_option (\<lambda>b. b - size1) bytes) rest)
      else (if chars = 0 then take_context chars images bytes rest
        else a\<lparr>af_text := map_option (take chars) (af_text a)\<rparr> # take_context (chars - length (take chars content)) images bytes rest))"

definition context_attachments :: "int set \<Rightarrow> nat \<Rightarrow> nat \<Rightarrow> nat option \<Rightarrow> ('a) chat_db_scheme \<Rightarrow> attachment list" where
  "context_attachments ids chars images bytes db =
     rev (take_context chars images bytes
       (rev (sort_key (\<lambda>a. (af_message a, af_at a, af_id a)) (filter (\<lambda>a. af_message a \<in> ids) (attachments db)))))"

subsection \<open>Retention and the audit copies\<close>

text \<open>
  \<open>_purge\<close>: the sessions are chosen by one query (\<open>due\<close>), and then each is erased in a
  transaction of its own (\<open>purge_step\<close>).
\<close>

definition due :: "(chat_session \<Rightarrow> bool) \<Rightarrow> ('a) chat_db_scheme \<Rightarrow> string list" where
  "due p db = take 500 (map cs_id (filter p (chats db)))"

definition purge_step :: "string \<Rightarrow> ('a) chat_db_scheme \<Rightarrow> ('a) chat_db_scheme" where
  "purge_step i db = hard_delete i db"

definition purge_all :: "(chat_session \<Rightarrow> bool) \<Rightarrow> ('a) chat_db_scheme \<Rightarrow> nat \<times> ('a) chat_db_scheme" where
  "purge_all p db = (length (due p db), fold purge_step (due p db) db)"

definition running :: "('a) chat_db_scheme \<Rightarrow> chat_session \<Rightarrow> bool" where
  "running db c \<longleftrightarrow> list_ex (\<lambda>r. lv_chat r = cs_id c) (live_runs db)"

definition abandoned_no_history :: "stamp \<Rightarrow> ('a) chat_db_scheme \<Rightarrow> chat_session \<Rightarrow> bool" where
  "abandoned_no_history since db c \<longleftrightarrow> cs_incognito c \<and> cs_updated c < since \<and> \<not> running db c"

definition deleted_before :: "stamp \<Rightarrow> chat_session \<Rightarrow> bool" where
  "deleted_before t c \<longleftrightarrow> (case cs_deleted c of None \<Rightarrow> False | Some d \<Rightarrow> d < t)"

definition never_used :: "stamp \<Rightarrow> ('a) chat_db_scheme \<Rightarrow> chat_session \<Rightarrow> bool" where
  "never_used since db c \<longleftrightarrow> cs_updated c < since \<and> \<not> running db c \<and> \<not> has_messages db c"

definition purge_no_history :: "stamp \<Rightarrow> ('a) chat_db_scheme \<Rightarrow> nat \<times> ('a) chat_db_scheme" where
  "purge_no_history since db = purge_all (abandoned_no_history since db) db"

definition purge_deleted :: "stamp \<Rightarrow> ('a) chat_db_scheme \<Rightarrow> nat \<times> ('a) chat_db_scheme" where
  "purge_deleted t db = purge_all (deleted_before t) db"

definition purge_empty :: "stamp \<Rightarrow> ('a) chat_db_scheme \<Rightarrow> nat \<times> ('a) chat_db_scheme" where
  "purge_empty since db = purge_all (never_used since db) db"

definition audit_entries :: "string \<Rightarrow> int option \<Rightarrow> nat \<Rightarrow> nat \<Rightarrow> ('a) chat_db_scheme \<Rightarrow> audit_copy list \<times> bool" where
  "audit_entries i before limit most db =
     (let rows = take (limit + 1) (rev (sort_key ia_id (filter (\<lambda>a. ia_chat a = i \<and> (case before of None \<Rightarrow> True | Some b \<Rightarrow> ia_id a < b))
            (audit_copies db))));
          page = chosen ia_text (Some most) (take limit rows)
      in (rev page, page \<noteq> [] \<and> length page < length rows))"

definition delete_audit_entry :: "int \<Rightarrow> ('a) chat_db_scheme \<Rightarrow> ('a) chat_db_scheme" where
  "delete_audit_entry n db = db\<lparr>audit_copies := tbl_delete (\<lambda>a. ia_id a = n) (audit_copies db)\<rparr>"

definition delete_audit_session :: "string \<Rightarrow> ('a) chat_db_scheme \<Rightarrow> nat \<times> ('a) chat_db_scheme" where
  "delete_audit_session i db =
     (let db1 = db\<lparr>audit_copies := tbl_delete (\<lambda>a. ia_chat a = i) (audit_copies db)\<rparr>
      in (tbl_count (\<lambda>a. ia_chat a = i) (audit_copies db),
          if list_ex (\<lambda>c. cs_id c = i \<and> cs_incognito c) (chats db1) then hard_delete i db1 else db1))"

subsection \<open>Reading a chat in batches\<close>

lemma fill_prefix: "\<exists>j. fill size1 most started total1 ms = take j ms \<and> (ms \<noteq> [] \<and> \<not> started \<longrightarrow> 0 < j)"
proof (induction size1 most started total1 ms rule: fill.induct)
  case (2 size1 most started total1 m ms)
  show ?case
  proof (cases "started \<and> most < total1 + size1 m")
    case True
    then show ?thesis by (intro exI [of _ 0]) simp
  next
    case False
    with 2 obtain j where "fill size1 most True (total1 + size1 m) ms = take j ms" by blast
    with False show ?thesis by (intro exI [of _ "Suc j"]) auto
  qed
qed auto

lemma fill_fits:
  "(\<Sum>m \<leftarrow> fill size1 most True total1 ms. size1 m) + total1 \<le> max most total1"
proof (induction ms arbitrary: total1)
  case (Cons m ms)
  show ?case
  proof (cases "most < total1 + size1 m")
    case False
    with Cons [of "total1 + size1 m"] show ?thesis by simp
  qed simp
qed simp

lemma fill_size:
  "length (fill size1 most False 0 ms) \<le> 1 \<or> (\<Sum>m \<leftarrow> fill size1 most False 0 ms. size1 m) \<le> most"
proof (cases ms)
  case (Cons m rest)
  show ?thesis
  proof (cases "most < size1 m")
    case True
    then have "fill size1 most True (size1 m) rest = []" by (cases rest) auto
    with Cons show ?thesis by simp
  next
    case False
    then show ?thesis using fill_fits [of size1 most "size1 m" rest] by (simp add: Cons algebra_simps)
  qed
qed simp

lemma chosen_prefix: "\<exists>j. chosen content most ms = take j ms \<and> (ms \<noteq> [] \<longrightarrow> 0 < j)"
proof (cases most)
  case None
  then show ?thesis by (intro exI [of _ "length ms"]) (simp add: chosen_def)
next
  case (Some b)
  then show ?thesis using fill_prefix [of "\<lambda>m. text_bytes (content m)" b False 0 ms] by (simp add: chosen_def)
qed

lemma sorted_rest:
  assumes "sorted_wrt (\<lambda>a b. f a < (f b :: int)) xs" "0 < j" "xs \<noteq> []"
  shows "take j xs @ filter (\<lambda>m. f (last (take j xs)) < f m) xs = xs"
proof -
  have s: "sorted_wrt (\<lambda>a b. f a < f b) (take j xs @ drop j xs)" using assms(1) by simp
  have ne: "take j xs \<noteq> []" using assms by simp
  have le: "f m \<le> f (last (take j xs))" if "m \<in> set (take j xs)" for m
  proof -
    have "take j xs = butlast (take j xs) @ [last (take j xs)]" using ne by simp
    with s have "sorted_wrt (\<lambda>a b. f a < f b) (butlast (take j xs) @ [last (take j xs)])" by (metis sorted_wrt_append)
    moreover have "m \<in> set (butlast (take j xs)) \<or> m = last (take j xs)" using that ne by (metis append_butlast_last_id in_set_conv_decomp rotate1.simps(2) set_ConsD set_rotate1 Un_iff set_append)
    ultimately show ?thesis by (auto simp: sorted_wrt_append)
  qed
  have gt: "f (last (take j xs)) < f m" if "m \<in> set (drop j xs)" for m
    using s that last_in_set [OF ne] unfolding sorted_wrt_append by blast
  have "filter (\<lambda>m. f (last (take j xs)) < f m) (take j xs @ drop j xs) = drop j xs"
    unfolding filter_append using le gt by (auto simp: filter_empty_conv filter_id_conv not_less)
  then show ?thesis by simp
qed

lemma chat_messages_bounds:
  "chat_messages i (\<lambda>n. cursor < n \<and> n \<le> until) ms = filter (\<lambda>m. cursor < mg_id m) (chat_messages i (\<lambda>n. n \<le> until) ms)"
  by (simp add: chat_messages_def filter_sort) (metis (no_types, lifting))

lemma batches_concat:
  assumes "sorted_wrt (\<lambda>a b. mg_id a < mg_id b) S" "0 < batch" "\<And>j. k \<le> j \<Longrightarrow> chat_messages i (\<lambda>n. n \<le> until) (tables j) = S"
  shows "concat (batches tables k i batch most cursor until) = filter (\<lambda>m. cursor < mg_id m) S"
  using assms
proof (induction tables k i batch most cursor until rule: batches.induct)
  case (1 tables k i batch most cursor until)
  let ?xs = "filter (\<lambda>m. cursor < mg_id m) S" and ?rows = "next_batch i batch most cursor until (tables k)"
  have le: "m \<in> set S \<Longrightarrow> mg_id m \<le> until" for m using 1(4) [of k] by (auto simp: chat_messages_def)
  obtain j0 where "?rows = take j0 (take batch ?xs)" "take batch ?xs \<noteq> [] \<longrightarrow> 0 < j0"
    using chosen_prefix [of mg_text most "take batch ?xs"] by (auto simp: next_batch_def chat_messages_bounds 1(4))
  then obtain j where rows: "?rows = take j ?xs" "?xs \<noteq> [] \<longrightarrow> 0 < j" using 1(3) by (auto simp: min_def intro: that [of "min j0 batch"])
  show ?case
  proof (cases "?rows = [] \<or> \<not> cursor < until")
    case True
    then have "?xs = []"
    proof
      assume "?rows = []"
      then show ?thesis using rows by auto
    next
      assume "\<not> cursor < until"
      then show ?thesis using le by (force simp: filter_empty_conv)
    qed
    with True rows show ?thesis by (subst batches.simps) auto
  next
    case False
    then have xs: "?xs \<noteq> []" "0 < j" using rows by auto
    have "sorted_wrt (\<lambda>a b. mg_id a < mg_id b) ?xs" using 1(2) by (rule sorted_wrt_filter)
    note rest = sorted_rest [OF this xs(2) xs(1), folded rows(1)]
    have "cursor < mg_id (last ?rows)" using False last_in_set next_batch_ids by blast
    then have "filter (\<lambda>m. mg_id (last ?rows) < mg_id m) S = filter (\<lambda>m. mg_id (last ?rows) < mg_id m) ?xs"
      by (auto intro: filter_cong)
    then have "?rows @ filter (\<lambda>m. mg_id (last ?rows) < mg_id m) S = ?xs" using rest by simp
    moreover have "concat (batches tables (Suc k) i batch most (mg_id (last ?rows)) until) = filter (\<lambda>m. mg_id (last ?rows) < mg_id m) S"
      using False 1(2-4) by (intro 1(1)) auto
    ultimately show ?thesis using False by (subst batches.simps) (simp add: Let_def)
  qed
qed

lemma batches_shape:
  "b \<in> set (batches tables k i batch most cursor until) \<Longrightarrow>
    b \<noteq> [] \<and> length b \<le> batch \<and> (\<forall>n. most = Some n \<longrightarrow> length b \<le> 1 \<or> (\<Sum>m \<leftarrow> b. text_bytes (mg_text m)) \<le> n)"
proof (induction tables k i batch most cursor until rule: batches.induct)
  case (1 tables k i batch most cursor until)
  let ?rows = "next_batch i batch most cursor until (tables k)"
  have r: "length ?rows \<le> batch" "\<forall>n. most = Some n \<longrightarrow> length ?rows \<le> 1 \<or> (\<Sum>m \<leftarrow> ?rows. text_bytes (mg_text m)) \<le> n"
    using chosen_prefix [of mg_text most "take batch (chat_messages i (\<lambda>n. cursor < n \<and> n \<le> until) (tables k))"] fill_size
    by (auto simp: next_batch_def chosen_def)
  have "b = ?rows \<and> ?rows \<noteq> [] \<or> (cursor < until \<and> ?rows \<noteq> [] \<and> b \<in> set (batches tables (Suc k) i batch most (mg_id (last ?rows)) until))"
    using 1(2) unfolding batches.simps [of tables k i batch most cursor until] by (auto simp: Let_def split: if_splits)
  then show ?case
  proof (elim disjE conjE)
    assume "cursor < until" "?rows \<noteq> []" "b \<in> set (batches tables (Suc k) i batch most (mg_id (last ?rows)) until)"
    then show ?thesis using 1(1) by blast
  qed (use r in simp)
qed

lemma batches_end: "length (batches tables k i batch most cursor until) \<le> nat (until - cursor)"
proof (induction tables k i batch most cursor until rule: batches.induct)
  case (1 tables k i batch most cursor until)
  let ?rows = "next_batch i batch most cursor until (tables k)"
  show ?case
  proof (cases "cursor < until \<and> ?rows \<noteq> []")
    case True
    then have "length (batches tables (Suc k) i batch most (mg_id (last ?rows)) until) \<le> nat (until - mg_id (last ?rows))" using 1 by blast
    moreover have "Suc (nat (until - mg_id (last ?rows))) \<le> nat (until - cursor)"
    proof -
      have "cursor < mg_id (last ?rows)" "mg_id (last ?rows) \<le> until" using True next_batch_ids last_in_set by blast+
      then show ?thesis by simp
    qed
    ultimately show ?thesis using True by (subst batches.simps) (simp add: Let_def)
  next
    case False
    then show ?thesis by (subst batches.simps) (auto simp: Let_def)
  qed
qed

subsection \<open>What a model is shown\<close>

lemma fitting_over: "most < s \<Longrightarrow> fitting most s ms = []"
  by (induction most s ms rule: fitting.induct) simp_all

lemma fitting_bound: "s \<le> most \<Longrightarrow> (\<Sum>m \<leftarrow> fitting most s ms. length (mg_text m)) + s \<le> most"
proof (induction most s ms rule: fitting.induct)
  case (2 most s m ms)
  then show ?case by (cases "s + length (mg_text m) \<le> most") (simp_all add: fitting_over)
qed simp

text \<open>The context holds at most the given characters, and the newest message always.\<close>

lemma context_fits: "(\<Sum>m \<leftarrow> context_messages i n most ms. length (mg_text m)) \<le> most"
proof -
  define recent where "recent = map (\<lambda>m. m\<lparr>mg_text := take most (mg_text m)\<rparr>)
    (take n (rev (sort_key mg_id (filter (\<lambda>m. mg_chat m = i \<and> mg_role m \<in> {''user'', ''assistant''}) ms))))"
  have short: "\<forall>m \<in> set recent. length (mg_text m) \<le> most" by (auto simp: recent_def)
  show ?thesis
  proof (cases recent)
    case (Cons m rest)
    have "(\<Sum>m \<leftarrow> m # fitting most (length (mg_text m)) rest. length (mg_text m)) \<le> most"
      using fitting_bound [of "length (mg_text m)" most rest] short by (simp add: Cons)
    then show ?thesis
      unfolding context_messages_def Let_def recent_def [symmetric] by (simp add: Cons rev_map [symmetric])
  next
    case Nil
    then show ?thesis unfolding context_messages_def Let_def recent_def [symmetric] by simp
  qed
qed

subsection \<open>What every operation keeps\<close>

text \<open>
  Well formed: ids are unique, a share link names one chat, which is a normal chat that is neither
  deleted nor blocked, a message belongs to a chat and an attachment to a message.
\<close>

definition chat_ok :: "chat_session \<Rightarrow> bool" where
  "chat_ok c \<longleftrightarrow> (cs_shared c \<noteq> None \<longrightarrow> \<not> cs_incognito c \<and> cs_blocked c = None \<and> cs_deleted c = None)"

definition links_unique :: "chat_session list \<Rightarrow> bool" where
  "links_unique cs \<longleftrightarrow> (\<forall>c \<in> set cs. \<forall>d \<in> set cs. cs_shared c \<noteq> None \<and> cs_shared c = cs_shared d \<longrightarrow> cs_id c = cs_id d)"

definition messages_ok :: "message list \<Rightarrow> int \<Rightarrow> string set \<Rightarrow> bool" where
  "messages_ok ms n ids \<longleftrightarrow> distinct (map mg_id ms) \<and> (\<forall>m \<in> set ms. mg_id m < n \<and> mg_chat m \<in> ids)"

definition files_ok :: "attachment list \<Rightarrow> int set \<Rightarrow> bool" where
  "files_ok fs ids \<longleftrightarrow> distinct (map af_id fs) \<and> af_message ` set fs \<subseteq> ids"

definition chats_wf :: "('a) chat_db_scheme \<Rightarrow> bool" where
  "chats_wf db \<longleftrightarrow> distinct (map cs_id (chats db)) \<and> list_all chat_ok (chats db) \<and> links_unique (chats db) \<and>
     messages_ok (messages db) (next_message db) (cs_id ` set (chats db)) \<and> files_ok (attachments db) (mg_id ` set (messages db))"

datatype chat_act =
  Chat_Create string string bool stamp
| Chat_Touch string stamp
| Chat_Rename string "string option"
| Chat_Title string string
| Chat_Share string string
| Chat_Revoke string bool stamp
| Chat_Revoke_All string
| Chat_Allow string
| Chat_Soft_Delete string stamp
| Chat_Hard_Delete string
| Chat_Delete_All string bool stamp
| Chat_Add string string utext string bool "int option" int int string bool stamp
| Chat_Delete_Message int
| Chat_Attach int stamp "upload list"
| Chat_Purge_No_History stamp
| Chat_Purge_Deleted stamp
| Chat_Purge_Empty stamp
| Chat_Delete_Audit int
| Chat_Delete_Audit_Chat string

text \<open>An operation that raises leaves the tables as they were.\<close>

definition kept :: "'d \<Rightarrow> 'e + 'd \<Rightarrow> 'd" where
  "kept db r = (case r of Inl _ \<Rightarrow> db | Inr d \<Rightarrow> d)"

primrec chat_do :: "chat_act \<Rightarrow> ('a) chat_db_scheme \<Rightarrow> ('a) chat_db_scheme" where
  "chat_do (Chat_Create i u inc t) db = kept db (chat_create i u inc t db)"
| "chat_do (Chat_Touch i t) db = chat_touch i t db"
| "chat_do (Chat_Rename i t) db = kept db (map_sum id snd (chat_rename i t db))"
| "chat_do (Chat_Title i t) db = snd (set_title_if_untitled i t db)"
| "chat_do (Chat_Share i tok) db = kept db (map_sum id snd (share i tok db))"
| "chat_do (Chat_Revoke i b t) db = revoke_share i b t db"
| "chat_do (Chat_Revoke_All u) db = snd (revoke_all_shares u db)"
| "chat_do (Chat_Allow i) db = snd (allow_share i db)"
| "chat_do (Chat_Soft_Delete i t) db = soft_delete i t db"
| "chat_do (Chat_Hard_Delete i) db = hard_delete i db"
| "chat_do (Chat_Delete_All u h t) db = snd (delete_all_for_user u h t db)"
| "chat_do (Chat_Add i w c u inc m a b s e t) db = kept db (map_sum id snd (add_message i w c u inc m a b s e t db))"
| "chat_do (Chat_Delete_Message m) db = delete_message m db"
| "chat_do (Chat_Attach m t xs) db = kept db (add_attachments m t xs db)"
| "chat_do (Chat_Purge_No_History t) db = snd (purge_no_history t db)"
| "chat_do (Chat_Purge_Deleted t) db = snd (purge_deleted t db)"
| "chat_do (Chat_Purge_Empty t) db = snd (purge_empty t db)"
| "chat_do (Chat_Delete_Audit n) db = delete_audit_entry n db"
| "chat_do (Chat_Delete_Audit_Chat i) db = snd (delete_audit_session i db)"

lemma wf_tables:
  assumes "chats_wf db" "chats db1 = chats db" "messages db1 = messages db" "next_message db1 = next_message db" "attachments db1 = attachments db"
  shows "chats_wf db1"
  using assms by (simp add: chats_wf_def)

lemma wf_update_chats:
  assumes wf: "chats_wf db"
    and f: "\<And>c. p c \<Longrightarrow> chat_ok c \<Longrightarrow> cs_id (f c) = cs_id c \<and> chat_ok (f c) \<and> (cs_shared (f c) = cs_shared c \<or> cs_shared (f c) = None)"
  shows "chats_wf (db\<lparr>chats := tbl_update p f (chats db)\<rparr>)"
proof -
  have ok: "\<forall>c \<in> set (chats db). chat_ok c" using wf by (simp add: chats_wf_def list_all_iff)
  have ids: "map cs_id (tbl_update p f (chats db)) = map cs_id (chats db)" using f ok by (simp add: tbl_update_def)
  have mem: "\<exists>d \<in> set (chats db). cs_id d = cs_id c \<and> chat_ok c \<and> (cs_shared c = cs_shared d \<or> cs_shared c = None)"
    if "c \<in> set (tbl_update p f (chats db))" for c
  proof -
    from that obtain d where "d \<in> set (chats db)" "c = (if p d then f d else d)" by (auto simp: tbl_update_def)
    with f [of d] ok show ?thesis by (intro bexI [of _ d]) auto
  qed
  have "links_unique (tbl_update p f (chats db))"
    unfolding links_unique_def
  proof (intro ballI impI)
    fix c d
    assume cd: "c \<in> set (tbl_update p f (chats db))" "d \<in> set (tbl_update p f (chats db))" and sh: "cs_shared c \<noteq> None \<and> cs_shared c = cs_shared d"
    obtain c0 d0 where "c0 \<in> set (chats db)" "cs_id c0 = cs_id c" "cs_shared c = cs_shared c0" "d0 \<in> set (chats db)" "cs_id d0 = cs_id d"
      "cs_shared d = cs_shared d0" using mem [OF cd(1)] mem [OF cd(2)] sh by auto
    then show "cs_id c = cs_id d" using wf sh unfolding chats_wf_def links_unique_def by metis
  qed
  moreover have "list_all chat_ok (tbl_update p f (chats db))" using mem by (auto simp: list_all_iff)
  moreover have "cs_id ` set (tbl_update p f (chats db)) = cs_id ` set (chats db)" using arg_cong [OF ids, of set] by simp
  ultimately show ?thesis using wf by (simp add: chats_wf_def ids)
qed

lemma wf_update_chat:
  assumes "chats_wf db" "\<And>c. chat_ok c \<Longrightarrow> cs_id (f c) = cs_id c \<and> chat_ok (f c) \<and> (cs_shared (f c) = cs_shared c \<or> cs_shared (f c) = None)"
  shows "chats_wf (update_chat i f db)"
  unfolding update_chat_def using assms by (intro wf_update_chats) auto

lemma wf_stop_runs: "chats_wf db \<Longrightarrow> chats_wf (stop_runs p db)"
  by (erule wf_tables) (simp_all add: stop_runs_def)

lemma wf_erase:
  assumes wf: "chats_wf db" shows "chats_wf (erase_chats p db)"
proof -
  define gone where "gone = cs_id ` set (filter p (chats db))"
  define ms where "ms = tbl_delete (\<lambda>m. mg_chat m \<in> gone) (messages db)"
  define fs where "fs = tbl_delete (\<lambda>a. af_message a \<in> mg_id ` set (filter (\<lambda>m. mg_chat m \<in> gone) (messages db))) (attachments db)"
  have "messages_ok ms (next_message db) (cs_id ` set (tbl_delete p (chats db)))"
    unfolding messages_ok_def
  proof (intro conjI ballI)
    show "distinct (map mg_id ms)" using wf by (simp add: ms_def chats_wf_def messages_ok_def tbl_delete_def distinct_map_filter)
    fix m
    assume m: "m \<in> set ms"
    then show "mg_id m < next_message db" using wf by (auto simp: ms_def chats_wf_def messages_ok_def tbl_delete_def)
    obtain c where "c \<in> set (chats db)" "cs_id c = mg_chat m" "mg_chat m \<notin> gone"
      using wf m by (auto simp: ms_def chats_wf_def messages_ok_def tbl_delete_def)
    then have "c \<in> set (tbl_delete p (chats db))" by (auto simp: gone_def tbl_delete_def image_iff)
    with \<open>cs_id c = mg_chat m\<close> show "mg_chat m \<in> cs_id ` set (tbl_delete p (chats db))" by force
  qed
  moreover have "files_ok fs (mg_id ` set ms)"
    unfolding files_ok_def
  proof (intro conjI subsetI)
    show "distinct (map af_id fs)" using wf by (simp add: fs_def chats_wf_def files_ok_def tbl_delete_def distinct_map_filter)
    fix n
    assume "n \<in> af_message ` set fs"
    then obtain a where a: "a \<in> set fs" "n = af_message a" by blast
    then obtain m where m: "m \<in> set (messages db)" "mg_id m = n"
      using wf by (auto simp: fs_def chats_wf_def files_ok_def tbl_delete_def)
    have "mg_chat m \<notin> gone"
    proof
      assume "mg_chat m \<in> gone"
      then have "mg_id m \<in> mg_id ` set (filter (\<lambda>m. mg_chat m \<in> gone) (messages db))" using m(1) by (intro imageI) simp
      with a m(2) show False by (simp add: fs_def tbl_delete_def)
    qed
    then have "m \<in> set ms" using m(1) by (simp add: ms_def tbl_delete_def)
    with m(2) show "n \<in> mg_id ` set ms" by blast
  qed
  moreover have "links_unique (tbl_delete p (chats db))" using wf by (auto simp: chats_wf_def links_unique_def tbl_delete_def)
  moreover have "distinct (map cs_id (tbl_delete p (chats db)))" "list_all chat_ok (tbl_delete p (chats db))"
    using wf by (auto simp: chats_wf_def tbl_delete_def distinct_map_filter list_all_iff)
  ultimately show ?thesis by (simp add: chats_wf_def erase_chats_def Let_def ms_def fs_def gone_def)
qed

lemma wf_hard_delete: "chats_wf db \<Longrightarrow> chats_wf (hard_delete i db)"
  by (simp add: hard_delete_def wf_erase wf_stop_runs)

lemma wf_purge_all: "chats_wf db \<Longrightarrow> chats_wf (snd (purge_all p db))"
proof -
  have "chats_wf (fold purge_step ks db)" if "chats_wf db" for ks and db :: "('a) chat_db_scheme"
    using that by (induction ks arbitrary: db) (simp_all add: purge_step_def wf_hard_delete)
  then show "chats_wf db \<Longrightarrow> chats_wf (snd (purge_all p db))" by (simp add: purge_all_def)
qed

lemma wf_links:
  "chats_wf db \<Longrightarrow> a \<in> set (chats db) \<Longrightarrow> b \<in> set (chats db) \<Longrightarrow> cs_shared a \<noteq> None \<Longrightarrow> cs_shared a = cs_shared b \<Longrightarrow> cs_id a = cs_id b"
  unfolding chats_wf_def links_unique_def by blast

lemma wf_new_chat:
  assumes wf: "chats_wf db" and new: "cs_id c \<notin> cs_id ` set (chats db)" "cs_shared c = None"
  shows "chats_wf (db\<lparr>chats := chats db @ [c]\<rparr>)"
proof -
  have "messages_ok (messages db) (next_message db) (insert (cs_id c) (cs_id ` set (chats db)))"
    using wf by (auto simp: chats_wf_def messages_ok_def)
  moreover have "links_unique (chats db @ [c])"
    unfolding links_unique_def
  proof (intro ballI impI)
    fix a b
    assume a: "a \<in> set (chats db @ [c])" "b \<in> set (chats db @ [c])" "cs_shared a \<noteq> None \<and> cs_shared a = cs_shared b"
    then have "a \<noteq> c" "b \<noteq> c" using new(2) by metis+
    with a(1,2) have "a \<in> set (chats db)" "b \<in> set (chats db)" by auto
    then show "cs_id a = cs_id b" using a(3) by (intro wf_links [OF wf, of a b]) blast+
  qed
  ultimately show ?thesis using wf new by (simp add: chats_wf_def chat_ok_def)
qed

lemma wf_create:
  assumes wf: "chats_wf db" and c: "chat_create i u inc t db = Inr db1" shows "chats_wf db1"
proof -
  define row where "row = \<lparr>cs_id = i, cs_user = u, cs_title = DEFAULT_TITLE, cs_incognito = inc, cs_personality = None,
        cs_shared = None, cs_blocked = None, cs_deleted = None, cs_created = t, cs_updated = t, cs_state = ''idle'', cs_error = [],
        cs_message = None\<rparr>"
  have new: "i \<notin> cs_id ` set (chats db)" using c by (auto simp: chat_create_def tbl_one_def find_None_iff split: if_splits)
  have "db1 = db\<lparr>chats := chats db @ [row]\<rparr>" using c by (simp add: chat_create_def row_def split: if_splits)
  moreover have "chats_wf (db\<lparr>chats := chats db @ [row]\<rparr>)" using new by (intro wf_new_chat [OF wf]) (simp_all add: row_def)
  ultimately show ?thesis by simp
qed

lemma wf_new_link:
  assumes wf: "chats_wf db" and c: "c \<in> set (chats db)" "\<not> cs_incognito c" "cs_blocked c = None" "cs_deleted c = None"
    and new: "\<forall>d \<in> set (chats db). cs_shared d \<noteq> Some tok"
  shows "chats_wf (update_chat (cs_id c) (\<lambda>d. d\<lparr>cs_shared := Some tok\<rparr>) db)"
proof -
  have "distinct (map cs_id (chats db))" using wf by (simp add: chats_wf_def)
  then have one: "d = c" if "d \<in> set (chats db)" "cs_id d = cs_id c" for d using that c(1) by (auto simp: distinct_map inj_on_def)
  let ?cs = "tbl_update (\<lambda>d. cs_id d = cs_id c) (\<lambda>d. d\<lparr>cs_shared := Some tok\<rparr>) (chats db)"
  have ids: "map cs_id ?cs = map cs_id (chats db)" by (simp add: tbl_update_def)
  have mem: "\<exists>d0 \<in> set (chats db). d = (if cs_id d0 = cs_id c then d0\<lparr>cs_shared := Some tok\<rparr> else d0)" if "d \<in> set ?cs" for d
    using that by (auto simp: tbl_update_def)
  have "chat_ok d" if "d \<in> set ?cs" for d
  proof -
    from mem [OF that] obtain d0 where "d0 \<in> set (chats db)" "d = (if cs_id d0 = cs_id c then d0\<lparr>cs_shared := Some tok\<rparr> else d0)" by blast
    then show ?thesis using one [of d0] wf c(2-4) by (cases "cs_id d0 = cs_id c") (auto simp: chat_ok_def chats_wf_def list_all_iff)
  qed
  then have "list_all chat_ok ?cs" by (simp add: list_all_iff)
  moreover have "links_unique ?cs"
    unfolding links_unique_def
  proof (intro ballI impI)
    fix d e
    assume de: "d \<in> set ?cs" "e \<in> set ?cs" "cs_shared d \<noteq> None \<and> cs_shared d = cs_shared e"
    from mem [OF de(1)] mem [OF de(2)] obtain d0 e0 where d0: "d0 \<in> set (chats db)" "d = (if cs_id d0 = cs_id c then d0\<lparr>cs_shared := Some tok\<rparr> else d0)"
      "e0 \<in> set (chats db)" "e = (if cs_id e0 = cs_id c then e0\<lparr>cs_shared := Some tok\<rparr> else e0)" by blast
    show "cs_id d = cs_id e"
    proof (cases "cs_id d0 = cs_id c \<or> cs_id e0 = cs_id c")
      case True
      have key: "cs_id x0 = cs_id c" if "x0 \<in> set (chats db)" "cs_shared (if cs_id x0 = cs_id c then x0\<lparr>cs_shared := Some tok\<rparr> else x0) = Some tok" for x0
        using that new by (cases "cs_id x0 = cs_id c") auto
      have "cs_shared d = Some tok \<or> cs_shared e = Some tok" using True d0(2,4) by (elim disjE) simp_all
      then have "cs_shared d = Some tok" "cs_shared e = Some tok" using de(3) by metis+
      then have "cs_id d0 = cs_id c" "cs_id e0 = cs_id c" unfolding d0(2,4) using key [OF d0(1)] key [OF d0(3)] by blast+
      moreover have "cs_id d = cs_id d0" "cs_id e = cs_id e0" unfolding d0(2,4) by simp_all
      ultimately show ?thesis by (simp only:)
    next
      case False
      then have "d = d0" "e = e0" using d0(2,4) by simp_all
      then show ?thesis using de(3) by (intro wf_links [OF wf]) (use d0(1,3) in blast)+
    qed
  qed
  moreover have "cs_id ` set ?cs = cs_id ` set (chats db)" using arg_cong [OF ids, of set] by simp
  ultimately show ?thesis using wf by (simp add: chats_wf_def update_chat_def ids)
qed

lemma wf_share:
  assumes wf: "chats_wf db" and s: "share i tok db = Inr (k, db1)" shows "chats_wf db1"
proof (cases "tbl_one (\<lambda>c. cs_id c = i \<and> cs_deleted c = None) (chats db)")
  case (Some c)
  then have c: "c \<in> set (chats db)" "cs_id c = i" "cs_deleted c = None" by (auto dest: tbl_one_SomeD)
  show ?thesis
  proof (cases "truthy (cs_shared c)")
    case True
    with s Some wf show ?thesis by (simp add: share_def split: if_splits)
  next
    case False
    have inc: "\<not> cs_incognito c" using s Some by (cases "cs_incognito c") (simp_all add: share_def)
    have bl: "cs_blocked c = None" using s Some inc by (cases "cs_blocked c") (simp_all add: share_def)
    have new: "\<not> list_ex (\<lambda>d. cs_shared d = Some tok) (chats db)"
      using s Some inc bl False by (cases "list_ex (\<lambda>d. cs_shared d = Some tok) (chats db)") (simp_all add: share_def)
    then have "\<forall>d \<in> set (chats db). cs_shared d \<noteq> Some tok" by (simp only: list_ex_iff bex_simps)
    note w = wf_new_link [OF wf c(1) inc bl c(3) this]
    have "db1 = update_chat i (\<lambda>d. d\<lparr>cs_shared := Some tok\<rparr>) db" using s Some inc bl False new by (auto simp: share_def)
    with w c(2) show ?thesis by simp
  qed
next
  case None
  with s show ?thesis by (simp add: share_def)
qed

lemma wf_delete_all: "chats_wf db \<Longrightarrow> chats_wf (snd (delete_all_for_user u h t db))"
  by (auto simp: delete_all_for_user_def Let_def chat_ok_def intro!: wf_update_chats wf_erase wf_stop_runs)

lemma wf_new_message:
  assumes wf: "chats_wf db" and m: "mg_id m = next_message db" "mg_chat m \<in> cs_id ` set (chats db)"
  shows "chats_wf (db\<lparr>messages := messages db @ [m], next_message := next_message db + 1\<rparr>)"
proof -
  have "messages_ok (messages db @ [m]) (next_message db + 1) (cs_id ` set (chats db))"
    using wf m by (force simp: chats_wf_def messages_ok_def)
  moreover have "files_ok (attachments db) (mg_id ` set (messages db @ [m]))" using wf by (auto simp: chats_wf_def files_ok_def)
  ultimately show ?thesis using wf by (simp add: chats_wf_def)
qed

lemma wf_add_message:
  assumes wf: "chats_wf db" and "add_message i w c u inc m a b s e t db = Inr (k, db1)" shows "chats_wf db1"
proof -
  define row where "row = \<lparr>mg_id = next_message db, mg_chat = i, mg_role = w, mg_text = c, mg_model = m, mg_in = a, mg_out = b, mg_at = t,
    mg_state = s, mg_estimated = e\<rparr>"
  define db0 where "db0 = db\<lparr>messages := messages db @ [row], next_message := next_message db + 1\<rparr>"
  have "mg_chat row \<in> cs_id ` set (chats db)" using assms(2) by (auto simp: add_message_def chat_exists_def row_def split: if_splits)
  then have "chats_wf db0" using wf unfolding db0_def by (intro wf_new_message) (simp_all add: row_def)
  then have "chats_wf (if inc then db0\<lparr>audit_copies := x, next_copy := y\<rparr> else db0)" for x y by (rule wf_tables) simp_all
  then have touched: "chats_wf (update_chat i (\<lambda>c. c\<lparr>cs_updated := t\<rparr>) (if inc then db0\<lparr>audit_copies := x, next_copy := y\<rparr> else db0))" for x y
    by (rule wf_update_chat) (simp add: chat_ok_def)
  have "\<exists>x y. db1 = update_chat i (\<lambda>c. c\<lparr>cs_updated := t\<rparr>) (if inc then db0\<lparr>audit_copies := x, next_copy := y\<rparr> else db0)"
    using assms(2) by (auto simp: add_message_def Let_def db0_def row_def split: if_splits)
  then show ?thesis using touched by metis
qed

lemma wf_delete_message: "chats_wf db \<Longrightarrow> chats_wf (delete_message m db)"
proof -
  assume wf: "chats_wf db"
  let ?db = "db\<lparr>chats := tbl_update (\<lambda>c. cs_message c = Some m) (\<lambda>c. c\<lparr>cs_message := None\<rparr>) (chats db)\<rparr>"
  have "chats_wf ?db" using wf by (rule wf_update_chats) (simp add: chat_ok_def)
  moreover have "messages_ok (tbl_delete (\<lambda>x. mg_id x = m) (messages db)) (next_message db) ids" if "messages_ok (messages db) (next_message db) ids" for ids
    using that by (auto simp: messages_ok_def tbl_delete_def distinct_map_filter)
  moreover have "files_ok (tbl_delete (\<lambda>a. af_message a = m) (attachments db)) (mg_id ` set (tbl_delete (\<lambda>x. mg_id x = m) (messages db)))"
    using wf by (auto simp: chats_wf_def files_ok_def tbl_delete_def distinct_map_filter)
  ultimately show ?thesis by (simp add: chats_wf_def delete_message_def)
qed

lemma wf_attach:
  assumes "chats_wf db" "add_attachments m t xs db = Inr db1" shows "chats_wf db1"
  using assms
proof (induction xs arbitrary: db)
  case (Cons x xs)
  have step: "chats_wf d" if "add_attachment m t x db = Inr d" for d
  proof -
    have "\<exists>a. d = db\<lparr>attachments := attachments db @ [a]\<rparr> \<and> af_id a \<notin> af_id ` set (attachments db) \<and> af_message a \<in> mg_id ` set (messages db)"
      using that by (simp add: add_attachment_def list_ex_iff split: if_splits) (rule exI, rule conjI, erule sym, force)
    then obtain a where a: "d = db\<lparr>attachments := attachments db @ [a]\<rparr>" "af_id a \<notin> af_id ` set (attachments db)" "af_message a \<in> mg_id ` set (messages db)"
      by blast
    then have "files_ok (attachments d) (mg_id ` set (messages d))" using Cons.prems(1) by (auto simp: chats_wf_def files_ok_def)
    with a(1) Cons.prems(1) show ?thesis by (simp add: chats_wf_def)
  qed
  have err: "foldl (\<lambda>acc x. case acc of Inl e \<Rightarrow> Inl e | Inr d \<Rightarrow> add_attachment m t x d) (Inl e) ys = Inl e" for e and ys
    by (induction ys) auto
  show ?case
  proof (cases "add_attachment m t x db")
    case (Inr d)
    with Cons.prems(2) have "add_attachments m t xs d = Inr db1" by (simp add: add_attachments_def)
    with Cons.IH step Inr show ?thesis by blast
  next
    case (Inl e)
    with Cons.prems(2) show ?thesis by (simp add: add_attachments_def err)
  qed
qed (simp add: add_attachments_def)

lemma wf_kept: "chats_wf db \<Longrightarrow> (\<And>d. r = Inr d \<Longrightarrow> chats_wf d) \<Longrightarrow> chats_wf (kept db r)"
  by (cases r) (simp_all add: kept_def)

lemma wf_chat_do:
  assumes wf: "chats_wf db" shows "chats_wf (chat_do x db)"
proof (cases x)
  case (Chat_Create i u inc t)
  then show ?thesis using wf wf_create [OF wf] by (auto intro!: wf_kept)
next
  case (Chat_Touch i t)
  then show ?thesis using wf by (auto simp: chat_touch_def chat_ok_def intro!: wf_update_chat)
next
  case (Chat_Rename i t)
  then show ?thesis using wf by (auto simp: chat_rename_def Let_def map_sum_Inr chat_ok_def intro!: wf_kept wf_update_chat split: if_splits)
next
  case (Chat_Title i t)
  then show ?thesis using wf by (auto simp: set_title_if_untitled_def Let_def chat_ok_def intro!: wf_update_chats)
next
  case (Chat_Share i tok)
  then show ?thesis using wf wf_share [OF wf] by (auto simp: map_sum_Inr intro!: wf_kept)
next
  case (Chat_Revoke i b t)
  then show ?thesis using wf by (auto simp: revoke_share_def chat_ok_def intro!: wf_update_chat)
next
  case (Chat_Revoke_All u)
  then show ?thesis using wf by (auto simp: revoke_all_shares_def Let_def chat_ok_def intro!: wf_update_chats)
next
  case (Chat_Allow i)
  then show ?thesis using wf by (auto simp: allow_share_def Let_def chat_ok_def intro!: wf_update_chats)
next
  case (Chat_Soft_Delete i t)
  then show ?thesis using wf by (auto simp: soft_delete_def Let_def chat_ok_def intro!: wf_update_chats wf_stop_runs)
next
  case (Chat_Add i w c u inc m a b s e t)
  then show ?thesis using wf wf_add_message [OF wf] by (auto simp: map_sum_Inr intro!: wf_kept)
next
  case (Chat_Attach m t xs)
  then show ?thesis using wf wf_attach [OF wf] by (auto intro!: wf_kept)
next
  case (Chat_Delete_Audit n)
  then show ?thesis using wf by (auto simp: delete_audit_entry_def intro: wf_tables)
next
  case (Chat_Delete_Audit_Chat i)
  have "chats_wf (db\<lparr>audit_copies := tbl_delete (\<lambda>a. ia_chat a = i) (audit_copies db)\<rparr>)" using wf by (rule wf_tables) simp_all
  with Chat_Delete_Audit_Chat show ?thesis by (simp add: delete_audit_session_def Let_def wf_hard_delete)
qed (use wf in \<open>simp_all add: wf_hard_delete wf_delete_all wf_delete_message wf_purge_all purge_no_history_def purge_deleted_def purge_empty_def\<close>)

subsection \<open>Properties\<close>

text \<open>
  C30: whatever is done to the chats, they stay well formed, and a share link shows at most one chat,
  a normal one that is neither deleted nor blocked by an administrator; taken offline, the link
  shows nothing.
\<close>

theorem chats_typed:
  assumes "chats_wf db" and db1: "db1 = fold chat_do xs db"
  shows "chats_wf db1 \<and>
    (\<forall>token c. by_share_token token db1 = Some c \<longrightarrow>
      \<not> cs_incognito c \<and> cs_deleted c = None \<and> cs_blocked c = None \<and>
      (\<forall>d \<in> set (chats db1). cs_shared d = Some token \<longrightarrow> d = c) \<and>
      by_share_token token (revoke_share (cs_id c) block t db1) = None)"
proof -
  have "chats_wf (fold chat_do xs d)" if "chats_wf d" for d :: "('a) chat_db_scheme"
    using that by (induction xs arbitrary: d) (simp_all add: wf_chat_do)
  then have wf: "chats_wf db1" using assms by blast
  show ?thesis
  proof (intro conjI allI impI wf)
    fix token c
    assume b: "by_share_token token db1 = Some c"
    then have c: "c \<in> set (chats db1)" "cs_shared c = Some token" "\<not> cs_incognito c" "cs_deleted c = None"
      by (auto simp: by_share_token_def dest!: tbl_one_SomeD split: if_splits)
    have ok: "chat_ok c" and ids: "distinct (map cs_id (chats db1))" using wf c(1) by (auto simp: chats_wf_def list_all_iff)
    show "\<not> cs_incognito c" "cs_deleted c = None" using c by simp_all
    show "cs_blocked c = None" using ok c(2) by (simp add: chat_ok_def)
    show one: "\<forall>d \<in> set (chats db1). cs_shared d = Some token \<longrightarrow> d = c"
    proof (intro ballI impI)
      fix d
      assume d: "d \<in> set (chats db1)" "cs_shared d = Some token"
      then have "cs_id d = cs_id c" using c by (intro wf_links [OF wf]) simp_all
      then show "d = c" by (rule distinct_key_eq [OF ids d(1) c(1)])
    qed
    have "cs_shared d \<noteq> Some token" if d: "d \<in> set (chats (revoke_share (cs_id c) block t db1))" for d
    proof -
      obtain d0 where "d0 \<in> set (chats db1)" "d0 = d \<or> cs_shared d = None" "cs_id d0 = cs_id c \<longrightarrow> cs_shared d = None"
        using d by (auto simp: revoke_share_def update_chat_def tbl_update_def split: if_splits)
      then show ?thesis using one by auto
    qed
    then show "by_share_token token (revoke_share (cs_id c) block t db1) = None"
      by (auto simp: by_share_token_def tbl_one_def find_None_iff)
  qed
qed

definition ex_chat_db :: chat_db where
  "ex_chat_db = \<lparr>pool_docs = [], model_docs = [], catalog_presets = [], accounts = [''u''], user_limits = [], overrides = [],
     model_limits = [], efforts = [], tiers = [], next_tier = 1, grants = [], next_grant = 1, windows_tbl = [], rate_buckets = [],
     site_resets = (None, None), models = [], members = [(''u'', False, False)], ledger = [], reservations = [], next_reservation = 1,
     pledges = [], next_pledge = 1, metrics = [], chats = [], messages = [], next_message = 1, attachments = [], audit_copies = [],
     next_copy = 1, live_runs = []\<rparr>"

theorem chats_typed_witness:
  "\<exists>c. by_share_token ''abcdefghijklmnop'' (fold chat_do [Chat_Create ''c1'' ''u'' False 5, Chat_Share ''c1'' ''abcdefghijklmnop''] ex_chat_db) = Some c \<and>
     by_share_token ''abcdefghijklmnop'' (revoke_share (cs_id c) True 6
       (fold chat_do [Chat_Create ''c1'' ''u'' False 5, Chat_Share ''c1'' ''abcdefghijklmnop''] ex_chat_db)) = None"
proof -
  let ?db = "fold chat_do [Chat_Create ''c1'' ''u'' False 5, Chat_Share ''c1'' ''abcdefghijklmnop''] ex_chat_db"
  have wf: "chats_wf ex_chat_db" by (simp add: chats_wf_def ex_chat_db_def links_unique_def messages_ok_def files_ok_def)
  have "\<exists>c. by_share_token ''abcdefghijklmnop'' ?db = Some c"
    by (simp add: kept_def chat_create_def share_def ex_chat_db_def known_def tbl_simps update_chat_def by_share_token_def valid_id_def
        SESSION_ID_MAX_def id_char_def Let_def)
  then obtain c where c: "by_share_token ''abcdefghijklmnop'' ?db = Some c" by blast
  from chats_typed [OF wf refl, of "[Chat_Create ''c1'' ''u'' False 5, Chat_Share ''c1'' ''abcdefghijklmnop'']" True 6] c show ?thesis
    by blast
qed

text \<open>
  C31: reading a chat in batches always ends, whatever is stored or erased meanwhile; when messages
  are only added, it gives every message the chat had at the start exactly once, in order,
  in batches that are never empty and hold at most the given number of messages and, beyond a
  single message, the given bytes.
\<close>

theorem batches_complete:
  assumes ms: "distinct (map mg_id ms)" "\<forall>m \<in> set ms. 0 < mg_id m" and "0 < batch"
    and grow: "tables 0 = ms" "\<forall>k. \<exists>added. tables k = ms @ added \<and> (\<forall>m \<in> set added. newest_message i ms < mg_id m)"
  shows "concat (iter_message_batches tables i batch most) = chat_messages i (\<lambda>_. True) ms \<and>
    (\<forall>b \<in> set (iter_message_batches tables i batch most).
      b \<noteq> [] \<and> length b \<le> batch \<and> (\<forall>n. most = Some n \<longrightarrow> length b \<le> 1 \<or> (\<Sum>m \<leftarrow> b. text_bytes (mg_text m)) \<le> n)) \<and>
    (\<forall>any. length (iter_message_batches any i batch most) \<le> nat (newest_message i (any 0)))"
proof (intro conjI ballI allI)
  let ?S = "chat_messages i (\<lambda>_. True) ms"
  have srt: "sorted (map mg_id ?S)" by (simp add: chat_messages_def)
  have "distinct (map mg_id ?S)" using distinct_map_filter [OF ms(1)] by (simp add: chat_messages_def distinct_map)
  with srt have "sorted_wrt (<) (map mg_id ?S)" by (simp only: strict_sorted_iff)
  then have S: "sorted_wrt (\<lambda>a b. mg_id a < mg_id b) ?S" by (simp only: sorted_wrt_map)
  have top: "mg_id m \<le> newest_message i ms" if "m \<in> set ?S" for m
  proof (cases ?S rule: rev_cases)
    case (snoc ys y)
    have "newest_message i ms = mg_id y" by (simp add: newest_message_def snoc split: list.split) (metis last_snoc snoc list.distinct(1) last.simps)
    then show ?thesis using S that by (auto simp: snoc sorted_wrt_append)
  qed (use that in simp)
  have same: "chat_messages i (\<lambda>n. n \<le> newest_message i ms) (tables k) = ?S" for k
  proof -
    obtain added where "tables k = ms @ added" "\<forall>m \<in> set added. newest_message i ms < mg_id m" using grow(2) by blast
    moreover have "filter (\<lambda>m. mg_chat m = i \<and> mg_id m \<le> newest_message i ms) ms = filter (\<lambda>m. mg_chat m = i) ms"
      using top by (intro filter_cong) (auto simp: chat_messages_def)
    moreover have "filter (\<lambda>m. mg_chat m = i \<and> mg_id m \<le> newest_message i ms) added = []"
      using calculation(2) by (auto simp: filter_empty_conv)
    ultimately show ?thesis by (simp add: chat_messages_def)
  qed
  have "filter (\<lambda>m. 0 < mg_id m) ?S = ?S" using ms(2) by (auto simp: filter_id_conv chat_messages_def)
  then show "concat (iter_message_batches tables i batch most) = ?S"
    using batches_concat [OF S assms(3) same, where k = 1 and most = most and cursor = 0] by (simp add: iter_message_batches_def grow(1))
next
  fix b
  assume "b \<in> set (iter_message_batches tables i batch most)"
  note shape = batches_shape [OF this [unfolded iter_message_batches_def]]
  then show "b \<noteq> []" "length b \<le> batch" "most = Some n \<longrightarrow> length b \<le> 1 \<or> (\<Sum>m \<leftarrow> b. text_bytes (mg_text m)) \<le> n" for n by auto
next
  fix any show "length (iter_message_batches any i batch most) \<le> nat (newest_message i (any 0))"
    using batches_end [of any 1 i batch most 0] by (simp add: iter_message_batches_def)
qed

definition ex_message :: "int \<Rightarrow> message" where
  "ex_message n = \<lparr>mg_id = n, mg_chat = ''c1'', mg_role = ''user'', mg_text = [104, 105], mg_model = None, mg_in = 0, mg_out = 0, mg_at = 5,
     mg_state = ''completed'', mg_estimated = False\<rparr>"

theorem batches_complete_witness:
  "concat (iter_message_batches (\<lambda>k. map ex_message [3, 1] @ (if k = 0 then [] else [ex_message 7])) ''c1'' 1 (Some 1)) = [ex_message 1, ex_message 3]"
proof -
  have new: "newest_message ''c1'' (map ex_message [3, 1]) = 3" by (simp add: newest_message_def chat_messages_def ex_message_def)
  have "concat (iter_message_batches (\<lambda>k. map ex_message [3, 1] @ (if k = 0 then [] else [ex_message 7])) ''c1'' 1 (Some 1)) =
      chat_messages ''c1'' (\<lambda>_. True) (map ex_message [3, 1])"
  proof (rule batches_complete [THEN conjunct1])
    show "\<forall>k. \<exists>added. map ex_message [3, 1] @ (if k = 0 then [] else [ex_message 7]) = map ex_message [3, 1] @ added \<and>
        (\<forall>m \<in> set added. newest_message ''c1'' (map ex_message [3, 1]) < mg_id m)" for k :: nat
      unfolding new by (auto simp: ex_message_def)
  qed (simp_all add: ex_message_def)
  then show ?thesis by (simp add: chat_messages_def ex_message_def)
qed

subsection \<open>A race of the purge\<close>

text \<open>
  \<open>purge_empty\<close> chooses the chats without messages first and erases them afterwards, without looking
  again: a chat that gets its first message in between is erased with it.
\<close>

lemma purge_erases_used_chat:
  assumes "i \<in> set (due (never_used since db) db)" and "\<exists>c \<in> set (chats db1). cs_id c = i"
  shows "\<not> chat_exists i (purge_step i db1)" and "\<forall>m \<in> set (messages (purge_step i db1)). mg_chat m \<noteq> i"
  using assms(2) by (auto simp: purge_step_def hard_delete_def erase_chats_def stop_runs_def chat_exists_def Let_def tbl_delete_def)

end
