(* ===== verification/Runs.thy ===== *)
theory Runs
  imports Chats One_Shot
begin

section \<open>Generation runs\<close>

text \<open>
  bananachat/db/runs.py: chat runs, whose lease is a row of \<open>active_streams\<close>, and API answers,
  whose lease is a row of \<open>completion_leases\<close>; how a run begins, saves its progress, ends, and is
  recovered when its process died. The end of an API answer is \<open>CompletionRun._settle\<close> of
  bananachat/services/completions.py. A run that ends in one transaction with its charge either
  still had its lease, or charges nothing.
\<close>

record completion_lease =
  cl_id :: string
  cl_user :: string
  cl_token :: "int option"
  cl_kind :: string
  cl_model :: "int option"
  cl_in :: int
  cl_out :: int
  cl_wait :: int
  cl_started :: epoch
  cl_beat :: epoch

record runs_db = chat_db +
  completions :: "completion_lease list"
  api_tokens :: "int list"

datatype run_error =
  Busy string
| Chat_Gone
| Unknown_State
| Run_Ledger ledger_error
| Run_Chat chat_error

definition RUN_LEASE_SECONDS :: epoch where "RUN_LEASE_SECONDS = 60"

definition TERMINAL_STATES :: "string list" where
  "TERMINAL_STATES = [''completed'', ''stopped'', ''failed'', ''interrupted'']"

definition run_cutoff :: "epoch \<Rightarrow> epoch" where
  "run_cutoff now = now - RUN_LEASE_SECONDS"

subsection \<open>The end of a run\<close>

definition existing_model :: "int option \<Rightarrow> ('a) usage_db_scheme \<Rightarrow> int option" where
  "existing_model i db = (if model_known i db then i else None)"

text \<open>\<open>metrics.record_request\<close>: counts are cut to what the column holds.\<close>

definition MAX_INT :: int where "MAX_INT = 2 ^ 53"

definition clipped :: "int \<Rightarrow> int" where
  "clipped n = (if n < 0 then 0 else min n MAX_INT)"

definition label :: "string \<Rightarrow> string \<Rightarrow> string" where
  "label value1 default1 = (let t = take 32 (strip value1) in if t = [] then default1 else t)"

definition record_request :: "metric \<Rightarrow> ('a) ledger_db_scheme \<Rightarrow> ledger_error + ('a) ledger_db_scheme" where
  "record_request m db =
     (if \<not> known (mt_user m) db \<or> \<not> model_known (mt_model m) db then Inl (Limits_Error Integrity_Error)
      else Inr (db\<lparr>metrics := metrics db @ [m\<lparr>mt_type := label (mt_type m) ''unknown'', mt_in := clipped (mt_in m), mt_out := clipped (mt_out m),
        mt_duration := clipped (mt_duration m), mt_wait := clipped (mt_wait m), mt_status := label (mt_status m) ''ok''\<rparr>]\<rparr>))"

text \<open>What a run ends with, and the readings of the clock as its end is stored.\<close>

record outcome =
  oc_user :: string
  oc_text :: utext
  oc_state :: string
  oc_error :: string
  oc_model :: "int option"
  oc_in :: int
  oc_out :: int
  oc_estimated :: bool
  oc_duration :: int
  oc_wait :: int
  oc_charge :: bool

record commit_times =
  ct_message :: stamp
  ct_session :: stamp
  ct_charge :: stamp
  ct_metric :: stamp

text \<open>The message and the state of the session; an erased or deleted chat stores nothing.\<close>

definition store_answer ::
  "string \<Rightarrow> outcome \<Rightarrow> bool \<Rightarrow> int option \<Rightarrow> commit_times \<Rightarrow> ('a) chat_db_scheme \<Rightarrow> run_error + (int option \<times> ('a) chat_db_scheme)" where
  "store_answer i x incognito model tms db =
     (case tbl_one (\<lambda>c. cs_id c = i) (chats db) of
        None \<Rightarrow> Inr (None, db)
      | Some c \<Rightarrow>
          if cs_deleted c \<noteq> None then Inr (None, db)
          else
            let after = (\<lambda>m d. Inr (m, update_chat i (\<lambda>c. c\<lparr>cs_state := oc_state x, cs_error := take 500 (oc_error x), cs_message := m,
                  cs_updated := ct_session tms\<rparr>) d))
            in if oc_text x = [] then after None db
               else case add_message i ''assistant'' (oc_text x) (cs_user c) incognito model (oc_in x) (oc_out x) (oc_state x)
                   (oc_estimated x) (ct_message tms) db of
                 Inl e \<Rightarrow> Inl (Run_Chat e)
               | Inr (m, d) \<Rightarrow> after (Some m) d)"

definition commit_run ::
  "int list \<Rightarrow> site_settings \<Rightarrow> string \<Rightarrow> outcome \<Rightarrow> bool \<Rightarrow> commit_times \<Rightarrow> ('a) chat_db_scheme
    \<Rightarrow> run_error + ((int option \<times> string option) \<times> ('a) chat_db_scheme)" where
  "commit_run local_ids site i x incognito tms db =
     (let model = existing_model (oc_model x) db; session = tbl_one (\<lambda>c. cs_id c = i) (chats db);
          inc = (case session of Some c \<Rightarrow> cs_incognito c | None \<Rightarrow> incognito)
      in case store_answer i x inc model tms db of Inl e \<Rightarrow> Inl e
      | Inr (m, db1) \<Rightarrow>
          let kind = (if inc then ''chat_incognito'' else ''chat''); user_exists = known (Some (oc_user x)) db1;
              tin = (if oc_charge x then oc_in x else 0); tout = (if oc_charge x then oc_out x else 0)
          in case (if user_exists \<and> (tin \<noteq> 0 \<or> tout \<noteq> 0)
                   then map_sum Run_Ledger snd (charge local_ids site (oc_user x) tin tout kind model None (oc_estimated x) (ct_charge tms) db1)
                   else Inr db1) of
            Inl e \<Rightarrow> Inl e
          | Inr db2 \<Rightarrow>
              map_sum Run_Ledger (\<lambda>d. ((m, map_option cs_title session), d\<lparr>live_runs := tbl_delete (\<lambda>r. lv_chat r = i) (live_runs d)\<rparr>))
                (record_request \<lparr>mt_type = kind, mt_model = model, mt_user = (if user_exists then Some (oc_user x) else None), mt_in = tin,
                   mt_out = tout, mt_duration = oc_duration x, mt_wait = oc_wait x,
                   mt_status = (if oc_state x = ''completed'' then ''ok'' else oc_state x), mt_at = ct_metric tms,
                   mt_estimated = oc_estimated x\<rparr> db2))"

text \<open>\<open>None\<close>: the lease was lost.\<close>

definition finish_run ::
  "int list \<Rightarrow> site_settings \<Rightarrow> string \<Rightarrow> string \<Rightarrow> outcome \<Rightarrow> commit_times \<Rightarrow> ('a) chat_db_scheme
    \<Rightarrow> run_error + ((int option \<times> string option) option \<times> ('a) chat_db_scheme)" where
  "finish_run local_ids site i token x tms db =
     (if oc_state x \<notin> set TERMINAL_STATES then Inl Unknown_State
      else case tbl_one (\<lambda>r. lv_chat r = i \<and> lv_token r = token) (live_runs db) of
        None \<Rightarrow> Inr (None, db)
      | Some r \<Rightarrow> map_sum id (\<lambda>(o1, d). (Some o1, d)) (commit_run local_ids site i x (lv_incognito r) tms db))"

subsection \<open>Recovery\<close>

definition recovered :: "live_run \<Rightarrow> string \<Rightarrow> ('a) chat_db_scheme \<Rightarrow> outcome" where
  "recovered r u db =
     (let content = lv_partial r;
          prompt = (case lv_prompt r of None \<Rightarrow> 0
            | Some p \<Rightarrow> (case tbl_one (\<lambda>m. mg_id m = p) (messages db) of None \<Rightarrow> 0 | Some m \<Rightarrow> int (length (mg_text m))));
          tin = max (lv_in r) ((prompt + 3) div 4); tout = max (lv_out r) (int (estimate_tokens content));
          charged = (content \<noteq> [] \<or> lv_out r \<noteq> 0);
          began = (case lv_started r of None \<Rightarrow> lv_beat r | Some s \<Rightarrow> if s = 0 then lv_beat r else s)
      in \<lparr>oc_user = u, oc_text = content, oc_state = ''interrupted'', oc_error = [], oc_model = lv_model r,
          oc_in = (if charged then tin else 0), oc_out = tout, oc_estimated = True, oc_duration = \<lfloor>max 0 (lv_beat r - began) * 1000\<rfloor>,
          oc_wait = 0, oc_charge = charged\<rparr>)"

definition recover_row ::
  "int list \<Rightarrow> site_settings \<Rightarrow> commit_times \<Rightarrow> live_run \<Rightarrow> ('a) chat_db_scheme \<Rightarrow> run_error + ('a) chat_db_scheme" where
  "recover_row local_ids site tms r db =
     (case (case tbl_one (\<lambda>c. cs_id c = lv_chat r) (chats db) of Some c \<Rightarrow> Some (cs_user c) | None \<Rightarrow> lv_user r) of
        None \<Rightarrow> Inr (db\<lparr>live_runs := tbl_delete (\<lambda>x. lv_chat x = lv_chat r) (live_runs db)\<rparr>)
      | Some u \<Rightarrow> map_sum id snd (commit_run local_ids site (lv_chat r) (recovered r u db) (lv_incognito r) tms db))"

fun recover_rows ::
  "int list \<Rightarrow> site_settings \<Rightarrow> (string \<Rightarrow> commit_times) \<Rightarrow> live_run list \<Rightarrow> ('a) chat_db_scheme \<Rightarrow> run_error + ('a) chat_db_scheme" where
  "recover_rows local_ids site tms [] db = Inr db"
| "recover_rows local_ids site tms (r # rs) db =
     (case recover_row local_ids site (tms (lv_chat r)) r db of Inl e \<Rightarrow> Inl e
      | Inr d \<Rightarrow> recover_rows local_ids site tms rs d)"

definition has_stale :: "string option \<Rightarrow> epoch \<Rightarrow> ('a) chat_db_scheme \<Rightarrow> bool" where
  "has_stale i cutoff db \<longleftrightarrow>
     list_ex (\<lambda>r. (case i of None \<Rightarrow> True | Some x \<Rightarrow> lv_chat r = x) \<and> lv_beat r < cutoff) (live_runs db)"

definition stale_rows :: "string option \<Rightarrow> epoch \<Rightarrow> ('a) chat_db_scheme \<Rightarrow> live_run list" where
  "stale_rows i cutoff db =
     (case i of None \<Rightarrow> take 200 (filter (\<lambda>r. lv_beat r < cutoff) (live_runs db))
      | Some x \<Rightarrow> filter (\<lambda>r. lv_chat r = x \<and> lv_beat r < cutoff) (live_runs db))"

text \<open>\<open>c1\<close> and \<open>c2\<close>: the cutoff of the first look and the one read again in the transaction.\<close>

definition recover_stale ::
  "int list \<Rightarrow> site_settings \<Rightarrow> (string \<Rightarrow> commit_times) \<Rightarrow> string option \<Rightarrow> epoch \<Rightarrow> epoch \<Rightarrow> ('a) chat_db_scheme
    \<Rightarrow> run_error + (nat \<times> ('a) chat_db_scheme)" where
  "recover_stale local_ids site tms i c1 c2 db =
     (if \<not> has_stale i c1 db then Inr (0, db)
      else let rows = stale_rows i c2 db in map_sum id (\<lambda>d. (length rows, d)) (recover_rows local_ids site tms rows db))"

subsection \<open>The start of a run and its progress\<close>

definition run_owner :: "('a) chat_db_scheme \<Rightarrow> live_run \<Rightarrow> string option" where
  "run_owner db r =
     (case lv_user r of Some u \<Rightarrow> Some u | None \<Rightarrow> map_option cs_user (tbl_one (\<lambda>c. cs_id c = lv_chat r) (chats db)))"

definition user_busy :: "string \<Rightarrow> epoch \<Rightarrow> ('a) chat_db_scheme \<Rightarrow> bool" where
  "user_busy u now db \<longleftrightarrow> list_ex (\<lambda>r. run_owner db r = Some u \<and> run_cutoff now \<le> lv_beat r) (live_runs db)"

definition session_busy :: "string \<Rightarrow> epoch \<Rightarrow> ('a) chat_db_scheme \<Rightarrow> bool" where
  "session_busy i now db \<longleftrightarrow> list_ex (\<lambda>r. lv_chat r = i \<and> run_cutoff now \<le> lv_beat r) (live_runs db)"

record begun =
  bn_token :: string
  bn_message :: int
  bn_title :: "string option"
  bn_previous :: string

text \<open>A request to begin: the session, the account, the message, its files and the automatic title.\<close>

record prompt_request =
  pr_chat :: string
  pr_user :: string
  pr_text :: utext
  pr_files :: "upload list"
  pr_title :: "string option"
  pr_single :: bool
  pr_token :: string

definition begin_run ::
  "int list \<Rightarrow> site_settings \<Rightarrow> (string \<Rightarrow> commit_times) \<Rightarrow> prompt_request \<Rightarrow> epoch \<Rightarrow> epoch \<Rightarrow> stamp \<Rightarrow> epoch \<Rightarrow> ('a) chat_db_scheme
    \<Rightarrow> run_error + (begun \<times> ('a) chat_db_scheme)" where
  "begin_run local_ids site tms q now1 now2 t now3 db =
     (let i = pr_chat q in
      case recover_rows local_ids site tms (filter (\<lambda>r. lv_beat r < run_cutoff now1) (live_runs db)) db of Inl e \<Rightarrow> Inl e
      | Inr db1 \<Rightarrow>
          if list_ex (\<lambda>r. lv_chat r = i) (live_runs db1) then Inl (Busy ''session'')
          else if pr_single q \<and> user_busy (pr_user q) now2 db1 then Inl (Busy ''user'')
          else case tbl_one (\<lambda>c. cs_id c = i \<and> cs_deleted c = None) (chats db1) of
            None \<Rightarrow> Inl Chat_Gone
          | Some c \<Rightarrow>
         (case add_message i ''user'' (pr_text q) (pr_user q) (cs_incognito c) None 0 0 ''completed'' False t db1 of Inl e \<Rightarrow> Inl (Run_Chat e)
          | Inr (m, db2) \<Rightarrow>
         (case add_attachments m t (pr_files q) db2 of Inl e \<Rightarrow> Inl (Run_Chat e)
          | Inr db3 \<Rightarrow>
              let (applied, db4) = (if truthy (pr_title q) then set_title_if_untitled i (the (pr_title q)) db3 else (False, db3));
                  run = \<lparr>lv_chat = i, lv_token = pr_token q, lv_stop = False, lv_beat = now3, lv_started = Some now3, lv_prompt = Some m,
                    lv_user = Some (pr_user q), lv_incognito = cs_incognito c, lv_model = None, lv_in = 0, lv_out = 0, lv_partial = []\<rparr>
              in Inr (\<lparr>bn_token = pr_token q, bn_message = m, bn_title = (if applied then pr_title q else None), bn_previous = cs_title c\<rparr>,
                   update_chat i (\<lambda>c. c\<lparr>cs_state := ''queued'', cs_error := [], cs_message := None\<rparr>)
                     (db4\<lparr>live_runs := live_runs db4 @ [run]\<rparr>)))))"

text \<open>\<open>abort\<close>: nothing when recovery or a newer run has the chat already.\<close>

definition audit_copy_of :: "int \<Rightarrow> ('a) chat_db_scheme \<Rightarrow> int option" where
  "audit_copy_of m db =
     (case tbl_one (\<lambda>x. mg_id x = m) (messages db) of None \<Rightarrow> None
      | Some x \<Rightarrow>
          (case filter (\<lambda>a. ia_chat a = mg_chat x \<and> ia_role a = mg_role x \<and> ia_text a = mg_text x \<and> ia_at a = mg_at x) (audit_copies db) of
             [] \<Rightarrow> None | a # rest \<Rightarrow> Some (foldl max (ia_id a) (map ia_id rest))))"

definition abort_run :: "string \<Rightarrow> begun \<Rightarrow> ('a) chat_db_scheme \<Rightarrow> ('a) chat_db_scheme" where
  "abort_run i b db =
     (let own = (\<lambda>r. lv_chat r = i \<and> lv_token r = bn_token b) in
      if tbl_count own (live_runs db) = 0 then db
      else
        let db1 = db\<lparr>live_runs := tbl_delete own (live_runs db)\<rparr>;
            db2 = (case audit_copy_of (bn_message b) db1 of None \<Rightarrow> db1 | Some n \<Rightarrow> delete_audit_entry n db1);
            db3 = delete_message (bn_message b) db2;
            db4 = (if truthy (bn_title b)
              then db3\<lparr>chats := tbl_update (\<lambda>c. cs_id c = i \<and> Some (cs_title c) = bn_title b) (\<lambda>c. c\<lparr>cs_title := bn_previous b\<rparr>) (chats db3)\<rparr>
              else db3)
        in update_chat i (\<lambda>c. c\<lparr>cs_state := ''idle'', cs_error := []\<rparr>) db4)"

definition update_run :: "string \<Rightarrow> string \<Rightarrow> (live_run \<Rightarrow> live_run) \<Rightarrow> ('a) chat_db_scheme \<Rightarrow> bool \<times> ('a) chat_db_scheme" where
  "update_run i token f db =
     (let own = (\<lambda>r. lv_chat r = i \<and> lv_token r = token)
      in (tbl_count own (live_runs db) = 1, db\<lparr>live_runs := tbl_update own f (live_runs db)\<rparr>))"

definition mark_running :: "string \<Rightarrow> string \<Rightarrow> int option \<Rightarrow> ('a) chat_db_scheme \<Rightarrow> bool \<times> ('a) chat_db_scheme" where
  "mark_running i token model db =
     (let (one, db1) = update_run i token (\<lambda>r. r\<lparr>lv_model := existing_model model db\<rparr>) db
      in (one, if tbl_count (\<lambda>r. lv_chat r = i \<and> lv_token r = token) (live_runs db) = 0 then db1
            else update_chat i (\<lambda>c. c\<lparr>cs_state := ''running''\<rparr>) db1))"

definition checkpoint :: "string \<Rightarrow> string \<Rightarrow> utext \<Rightarrow> int option \<Rightarrow> int \<Rightarrow> int \<Rightarrow> ('a) chat_db_scheme \<Rightarrow> bool \<times> ('a) chat_db_scheme" where
  "checkpoint i token content model tin tout db =
     update_run i token (\<lambda>r. r\<lparr>lv_partial := content, lv_model := existing_model model db, lv_in := max 0 tin, lv_out := max 0 tout\<rparr>) db"

definition expire_run :: "string \<Rightarrow> string \<Rightarrow> ('a) chat_db_scheme \<Rightarrow> bool \<times> ('a) chat_db_scheme" where
  "expire_run i token db = update_run i token (\<lambda>r. r\<lparr>lv_beat := 0\<rparr>) db"

definition request_stop :: "string \<Rightarrow> ('a) chat_db_scheme \<Rightarrow> bool \<times> ('a) chat_db_scheme" where
  "request_stop i db = (tbl_count (\<lambda>r. lv_chat r = i) (live_runs db) = 1, stop_runs (\<lambda>r. lv_chat r = i) db)"

text \<open>The supervisor's tick for one run (\<open>_check_runs\<close>): why to cancel it, or its lease renewed.\<close>

definition check_run :: "string \<Rightarrow> string \<Rightarrow> bool \<Rightarrow> epoch \<Rightarrow> ('a) chat_db_scheme \<Rightarrow> string option \<times> ('a) chat_db_scheme" where
  "check_run i token renew now db =
     (case tbl_one (\<lambda>r. lv_chat r = i) (live_runs db) of
        None \<Rightarrow> (Some ''lease lost'', db)
      | Some r \<Rightarrow>
          if lv_token r \<noteq> token then (Some ''lease lost'', db)
          else if lv_stop r then (Some ''stopped'', db)
          else (None, if renew then snd (update_run i token (\<lambda>r. r\<lparr>lv_beat := now\<rparr>) db) else db))"

record run_status =
  rn_state :: string
  rn_error :: string
  rn_active :: bool
  rn_stale :: bool
  rn_stopping :: bool
  rn_partial :: utext
  rn_message :: "int option"
  rn_title :: "string option"

definition run_status :: "string \<Rightarrow> epoch \<Rightarrow> ('a) chat_db_scheme \<Rightarrow> run_status" where
  "run_status i now db =
     (case tbl_one (\<lambda>c. cs_id c = i) (chats db) of
        None \<Rightarrow> \<lparr>rn_state = ''idle'', rn_error = [], rn_active = False, rn_stale = False, rn_stopping = False, rn_partial = [],
          rn_message = None, rn_title = None\<rparr>
      | Some c \<Rightarrow>
          let lease = tbl_one (\<lambda>r. lv_chat r = i) (live_runs db);
              stale = (case lease of None \<Rightarrow> False | Some r \<Rightarrow> lv_beat r < run_cutoff now)
          in \<lparr>rn_state = (if stale then ''interrupted'' else cs_state c), rn_error = cs_error c, rn_active = (lease \<noteq> None \<and> \<not> stale),
              rn_stale = stale, rn_stopping = (case lease of None \<Rightarrow> False | Some r \<Rightarrow> lv_stop r),
              rn_partial = (case lease of None \<Rightarrow> [] | Some r \<Rightarrow> lv_partial r), rn_message = cs_message c, rn_title = Some (cs_title c)\<rparr>)"

subsection \<open>API answers\<close>

definition open_completion ::
  "string \<Rightarrow> string \<Rightarrow> string \<Rightarrow> int option \<Rightarrow> int option \<Rightarrow> int \<Rightarrow> epoch \<Rightarrow> ('a) runs_db_scheme \<Rightarrow> run_error + ('a) runs_db_scheme" where
  "open_completion i u kind token model wait now db =
     (if \<not> known (Some u) db \<or> list_ex (\<lambda>x. cl_id x = i) (completions db) then Inl (Run_Chat Chat_Integrity)
      else Inr (db\<lparr>completions := completions db @ [\<lparr>cl_id = i, cl_user = u, cl_token = token, cl_kind = kind,
        cl_model = existing_model model db, cl_in = 0, cl_out = 0, cl_wait = max 0 wait, cl_started = now, cl_beat = now\<rparr>]\<rparr>))"

definition checkpoint_completion :: "string \<Rightarrow> int option \<Rightarrow> int \<Rightarrow> int \<Rightarrow> epoch \<Rightarrow> ('a) runs_db_scheme \<Rightarrow> bool \<times> ('a) runs_db_scheme" where
  "checkpoint_completion i model tin tout now db =
     (tbl_count (\<lambda>x. cl_id x = i) (completions db) = 1,
      db\<lparr>completions := tbl_update (\<lambda>x. cl_id x = i)
        (\<lambda>x. x\<lparr>cl_beat := now, cl_model := existing_model model db, cl_in := max 0 tin, cl_out := max 0 tout\<rparr>) (completions db)\<rparr>)"

definition close_completion :: "string \<Rightarrow> ('a) runs_db_scheme \<Rightarrow> bool \<times> ('a) runs_db_scheme" where
  "close_completion i db =
     (tbl_count (\<lambda>x. cl_id x = i) (completions db) = 1, db\<lparr>completions := tbl_delete (\<lambda>x. cl_id x = i) (completions db)\<rparr>)"

definition expire_completion :: "string \<Rightarrow> ('a) runs_db_scheme \<Rightarrow> bool \<times> ('a) runs_db_scheme" where
  "expire_completion i db =
     (tbl_count (\<lambda>x. cl_id x = i) (completions db) = 1,
      db\<lparr>completions := tbl_update (\<lambda>x. cl_id x = i) (\<lambda>x. x\<lparr>cl_beat := 0\<rparr>) (completions db)\<rparr>)"

definition charge_record :: "int list \<Rightarrow> site_settings \<Rightarrow> commit_times \<Rightarrow> completion_lease \<Rightarrow> ('a) runs_db_scheme \<Rightarrow> run_error + ('a) runs_db_scheme" where
  "charge_record local_ids site tms x db =
     (let db1 = snd (close_completion (cl_id x) db) in
      if \<not> known (Some (cl_user x)) db1 then Inr db1
      else
        let model = existing_model (cl_model x) db1;
            token = (case cl_token x of None \<Rightarrow> None | Some k \<Rightarrow> if k \<in> set (api_tokens db1) then Some k else None);
            ended = max (cl_beat x) (cl_started x); began = (if cl_started x = 0 then ended else cl_started x)
        in case (if cl_in x \<noteq> 0 \<or> cl_out x \<noteq> 0
                 then map_sum Run_Ledger snd (charge local_ids site (cl_user x) (cl_in x) (cl_out x) (cl_kind x) model token True (ct_charge tms) db1)
                 else Inr db1) of
          Inl e \<Rightarrow> Inl e
        | Inr db2 \<Rightarrow> map_sum Run_Ledger id (record_request \<lparr>mt_type = cl_kind x, mt_model = model, mt_user = Some (cl_user x), mt_in = cl_in x,
            mt_out = cl_out x, mt_duration = \<lfloor>max 0 (ended - began) * 1000\<rfloor>, mt_wait = cl_wait x,
            mt_status = (if cl_out x \<noteq> 0 then ''stopped'' else ''error''), mt_at = ct_metric tms, mt_estimated = True\<rparr> db2))"

fun charge_records ::
  "int list \<Rightarrow> site_settings \<Rightarrow> (string \<Rightarrow> commit_times) \<Rightarrow> completion_lease list \<Rightarrow> ('a) runs_db_scheme \<Rightarrow> run_error + ('a) runs_db_scheme" where
  "charge_records local_ids site tms [] db = Inr db"
| "charge_records local_ids site tms (x # xs) db =
     (case charge_record local_ids site (tms (cl_id x)) x db of Inl e \<Rightarrow> Inl e | Inr d \<Rightarrow> charge_records local_ids site tms xs d)"

definition stale_completions :: "epoch \<Rightarrow> ('a) runs_db_scheme \<Rightarrow> completion_lease list" where
  "stale_completions cutoff db = take 200 (filter (\<lambda>x. cl_beat x < cutoff) (completions db))"

definition recover_completions ::
  "int list \<Rightarrow> site_settings \<Rightarrow> (string \<Rightarrow> commit_times) \<Rightarrow> epoch \<Rightarrow> epoch \<Rightarrow> ('a) runs_db_scheme \<Rightarrow> run_error + (nat \<times> ('a) runs_db_scheme)" where
  "recover_completions local_ids site tms c1 c2 db =
     (if \<not> list_ex (\<lambda>x. cl_beat x < c1) (completions db) then Inr (0, db)
      else let rows = stale_completions c2 db in map_sum id (\<lambda>d. (length rows, d)) (charge_records local_ids site tms rows db))"

text \<open>
  The transaction of \<open>_settle\<close> for an answer that has a lease: its hold is given back; when recovery
  charged it already, nothing more; when nothing was produced and nothing has a cost, only the
  metrics; otherwise the charge.
\<close>

record settlement =
  se_user :: string
  se_kind :: string
  se_model :: int
  se_token :: "int option"
  se_hold :: "int option"
  se_prompt :: int
  se_completion :: int
  se_estimated :: bool
  se_duration :: int
  se_wait :: int
  se_status :: string
  se_free :: bool

definition settle ::
  "int list \<Rightarrow> site_settings \<Rightarrow> string \<Rightarrow> settlement \<Rightarrow> commit_times \<Rightarrow> ('a) runs_db_scheme \<Rightarrow> run_error + (bool \<times> ('a) runs_db_scheme)" where
  "settle local_ids site i x tms db =
     (let (held, db1) = close_completion i (refund_reservation (se_hold x) db) in
      if \<not> held then Inr (False, db1)
      else if se_free x
      then map_sum Run_Ledger (\<lambda>d. (True, d)) (record_metric \<lparr>mt_type = se_kind x, mt_model = Some (se_model x), mt_user = Some (se_user x),
          mt_in = 0, mt_out = 0, mt_duration = se_duration x, mt_wait = se_wait x, mt_status = ''error'', mt_at = ct_metric tms,
          mt_estimated = False\<rparr> db1)
      else map_sum Run_Ledger (\<lambda>(_, d). (True, d)) (charge_text local_ids site (se_user x) (se_kind x) (Some (se_model x)) (se_token x)
          (se_prompt x) (se_completion x) (se_estimated x) (se_duration x) (se_wait x) (se_status x) (ct_charge tms) (ct_metric tms) db1))"

subsection \<open>Runs and answers as a machine\<close>

datatype lease_key = Run_Key string | Answer_Key string

datatype run_act =
  Begin "string \<Rightarrow> commit_times" prompt_request epoch epoch stamp epoch
| Abort string begun
| Mark_Running string string "int option"
| Save string string utext "int option" int int
| Expire string string
| Stop string
| Tick string string bool epoch
| Finish string string outcome commit_times
| Recover "string \<Rightarrow> commit_times" "string option" epoch epoch
| Open_Answer string string string "int option" "int option" int epoch
| Save_Answer string "int option" int int epoch
| Expire_Answer string
| Settle string settlement commit_times
| Recover_Answers "string \<Rightarrow> commit_times" epoch epoch
| On_Chats chat_act

text \<open>The leases a step charges and drops. A step that raises changes nothing.\<close>

definition run_keys :: "live_run list \<Rightarrow> lease_key list" where
  "run_keys rs = map (\<lambda>r. Run_Key (lv_token r)) rs"

primrec run_do :: "int list \<Rightarrow> site_settings \<Rightarrow> run_act \<Rightarrow> ('a) runs_db_scheme \<Rightarrow> lease_key list \<times> ('a) runs_db_scheme" where
  "run_do ids site (Begin tms q n1 n2 t n3) db =
     (case begin_run ids site tms q n1 n2 t n3 db of Inl _ \<Rightarrow> ([], db)
      | Inr (_, d) \<Rightarrow> (run_keys (filter (\<lambda>r. lv_beat r < run_cutoff n1) (live_runs db)), d))"
| "run_do ids site (Abort i b) db = ([], abort_run i b db)"
| "run_do ids site (Mark_Running i k m) db = ([], snd (mark_running i k m db))"
| "run_do ids site (Save i k c m a b) db = ([], snd (checkpoint i k c m a b db))"
| "run_do ids site (Expire i k) db = ([], snd (expire_run i k db))"
| "run_do ids site (Stop i) db = ([], snd (request_stop i db))"
| "run_do ids site (Tick i k r n) db = ([], snd (check_run i k r n db))"
| "run_do ids site (Finish i k x tms) db =
     (case finish_run ids site i k x tms db of Inl _ \<Rightarrow> ([], db)
      | Inr (None, d) \<Rightarrow> ([], d) | Inr (Some _, d) \<Rightarrow> ([Run_Key k], d))"
| "run_do ids site (Recover tms i c1 c2) db =
     (case recover_stale ids site tms i c1 c2 db of Inl _ \<Rightarrow> ([], db)
      | Inr (_, d) \<Rightarrow> (if has_stale i c1 db then run_keys (stale_rows i c2 db) else [], d))"
| "run_do ids site (Open_Answer i u kind tok m w n) db =
     (case open_completion i u kind tok m w n db of Inl _ \<Rightarrow> ([], db) | Inr d \<Rightarrow> ([], d))"
| "run_do ids site (Save_Answer i m a b n) db = ([], snd (checkpoint_completion i m a b n db))"
| "run_do ids site (Expire_Answer i) db = ([], snd (expire_completion i db))"
| "run_do ids site (Settle i x tms) db =
     (case settle ids site i x tms db of Inl _ \<Rightarrow> ([], db) | Inr (held, d) \<Rightarrow> (if held then [Answer_Key i] else [], d))"
| "run_do ids site (Recover_Answers tms c1 c2) db =
     (case recover_completions ids site tms c1 c2 db of Inl _ \<Rightarrow> ([], db)
      | Inr (_, d) \<Rightarrow> (if list_ex (\<lambda>x. cl_beat x < c1) (completions db) then map (\<lambda>x. Answer_Key (cl_id x)) (stale_completions c2 db) else [], d))"
| "run_do ids site (On_Chats x) db = ([], chat_do x db)"

text \<open>What is left of the leases: the chats and tokens of the runs, and the names of the answers.\<close>

definition run_ids :: "('a) runs_db_scheme \<Rightarrow> (string \<times> string) list" where
  "run_ids db = map (\<lambda>r. (lv_chat r, lv_token r)) (live_runs db)"

definition answer_ids :: "('a) runs_db_scheme \<Rightarrow> string list" where
  "answer_ids db = map cl_id (completions db)"

definition leases_left :: "lease_key \<Rightarrow> ('a) runs_db_scheme \<Rightarrow> nat" where
  "leases_left k db =
     (case k of Run_Key t \<Rightarrow> length (filter (\<lambda>x. snd x = t) (run_ids db)) | Answer_Key i \<Rightarrow> length (filter (\<lambda>x. x = i) (answer_ids db)))"

text \<open>The two primary keys.\<close>

definition leases_wf :: "('a) runs_db_scheme \<Rightarrow> bool" where
  "leases_wf db \<longleftrightarrow> distinct (map fst (run_ids db)) \<and> distinct (answer_ids db)"

primrec issues_lease :: "run_act \<Rightarrow> lease_key \<Rightarrow> bool" where
  "issues_lease (Begin tms q n1 n2 t n3) k = (k = Run_Key (pr_token q))"
| "issues_lease (Abort i b) k = False"
| "issues_lease (Mark_Running i t m) k = False"
| "issues_lease (Save i t c m a b) k = False"
| "issues_lease (Expire i t) k = False"
| "issues_lease (Stop i) k = False"
| "issues_lease (Tick i t r n) k = False"
| "issues_lease (Finish i t x tms) k = False"
| "issues_lease (Recover tms i c1 c2) k = False"
| "issues_lease (Open_Answer i u kind tok m w n) k = (k = Answer_Key i)"
| "issues_lease (Save_Answer i m a b n) k = False"
| "issues_lease (Expire_Answer i) k = False"
| "issues_lease (Settle i x tms) k = False"
| "issues_lease (Recover_Answers tms c1 c2) k = False"
| "issues_lease (On_Chats x) k = False"

subsection \<open>What the steps do to the leases and the ledger\<close>

text \<open>The failed start of a run gives its lease up without a charge.\<close>

primrec gives_up :: "run_act \<Rightarrow> lease_key \<Rightarrow> bool" where
  "gives_up (Begin tms q n1 n2 t n3) k = False"
| "gives_up (Abort i b) k = (k = Run_Key (bn_token b))"
| "gives_up (Mark_Running i t m) k = False"
| "gives_up (Save i t c m a b) k = False"
| "gives_up (Expire i t) k = False"
| "gives_up (Stop i) k = False"
| "gives_up (Tick i t r n) k = False"
| "gives_up (Finish i t x tms) k = False"
| "gives_up (Recover tms i c1 c2) k = False"
| "gives_up (Open_Answer i u kind tok m w n) k = False"
| "gives_up (Save_Answer i m a b n) k = False"
| "gives_up (Expire_Answer i) k = False"
| "gives_up (Settle i x tms) k = False"
| "gives_up (Recover_Answers tms c1 c2) k = False"
| "gives_up (On_Chats x) k = False"

text \<open>
  A step drops leases (\<open>P\<close> and \<open>Q\<close> say which stay): every key of \<open>ks\<close> loses one, no lease goes
  without being in \<open>ks\<close> or given up, and the ledger gets at most one row for each key.
\<close>

definition lease_step :: "lease_key list \<Rightarrow> (lease_key \<Rightarrow> bool) \<Rightarrow> ('a) runs_db_scheme \<Rightarrow> ('a) runs_db_scheme \<Rightarrow> bool" where
  "lease_step ks up db d \<longleftrightarrow>
     (\<exists>P. run_ids d = filter P (run_ids db)) \<and> (\<exists>Q. answer_ids d = filter Q (answer_ids db)) \<and>
     length (ledger d) \<le> length (ledger db) + length ks \<and>
     (\<forall>k \<in> set ks. leases_left k d < leases_left k db) \<and>
     (leases_wf db \<longrightarrow> (\<forall>k. leases_left k db \<le> leases_left k d + count_list ks k + of_bool (up k)))"

lemma length_filter_filter: "length (filter (\<lambda>x. q x \<and> p x) xs) \<le> length (filter p xs)"
  by (induction xs) auto

lemma filter_same: "ys = xs \<Longrightarrow> \<exists>p. ys = filter p xs"
  by (rule exI [of _ "\<lambda>_. True"]) simp

lemma lease_step_born: "lease_step ks up db d \<Longrightarrow> leases_left k d \<le> leases_left k db"
  by (auto simp: lease_step_def leases_left_def length_filter_filter split: lease_key.split)

lemma lease_step_wf: "lease_step ks up db d \<Longrightarrow> leases_wf db \<Longrightarrow> leases_wf d"
  by (auto simp: lease_step_def leases_wf_def distinct_map_filter)

lemma lease_step_same:
  "run_ids d = run_ids db \<Longrightarrow> answer_ids d = answer_ids db \<Longrightarrow> length (ledger d) \<le> length (ledger db) \<Longrightarrow> lease_step [] up db d"
  by (auto simp: lease_step_def leases_left_def filter_same split: lease_key.split)

lemma lease_step_runs:
  assumes run: "run_ids d = filter (\<lambda>x. fst x \<notin> fst ` set xs) (run_ids db)" and answer: "answer_ids d = answer_ids db"
    and led: "length (ledger d) \<le> length (ledger db) + length xs"
    and xs: "set xs \<subseteq> set (run_ids db)" "distinct (map fst (run_ids db)) \<Longrightarrow> distinct xs"
  shows "lease_step (map (\<lambda>x. Run_Key (snd x)) xs) up db d"
proof -
  have split: "length (filter (\<lambda>x. snd x = t) (run_ids db)) =
      length (filter (\<lambda>x. snd x = t) (run_ids d)) + length (filter (\<lambda>x. snd x = t) (filter (\<lambda>x. fst x \<in> fst ` set xs) (run_ids db)))" for t
    using sum_length_filter_compl [of "\<lambda>x. fst x \<in> fst ` set xs" "filter (\<lambda>x. snd x = t) (run_ids db)"]
    by (simp add: run conj_commute)
  have loses: "leases_left k d < leases_left k db" if k: "k \<in> set (map (\<lambda>x. Run_Key (snd x)) xs)" for k
  proof -
    obtain x where x: "x \<in> set xs" "k = Run_Key (snd x)" using k by auto
    then have "x \<in> set (filter (\<lambda>y. snd y = snd x) (filter (\<lambda>x. fst x \<in> fst ` set xs) (run_ids db)))" using xs(1) by auto
    then have "0 < length (filter (\<lambda>y. snd y = snd x) (filter (\<lambda>x. fst x \<in> fst ` set xs) (run_ids db)))" by (rule length_pos_if_in_set)
    with split [of "snd x"] show ?thesis by (simp add: x(2) leases_left_def)
  qed
  have all: "leases_left k db \<le> leases_left k d + count_list (map (\<lambda>x. Run_Key (snd x)) xs) k" if wf: "leases_wf db" for k
  proof (cases k)
    case (Run_Key t)
    have ids: "distinct (map fst (run_ids db))" using wf by (simp add: leases_wf_def)
    have inj: "inj_on fst (set (run_ids db))" using ids by (simp add: distinct_map)
    have "set (filter (\<lambda>x. fst x \<in> fst ` set xs) (run_ids db)) = set xs"
      using xs(1) inj by (auto simp: inj_on_def subset_iff)
    moreover have "distinct (filter (\<lambda>x. fst x \<in> fst ` set xs) (run_ids db))" using ids by (simp add: distinct_map)
    ultimately have "mset (filter (\<lambda>x. fst x \<in> fst ` set xs) (run_ids db)) = mset xs"
      using xs(2) [OF ids] by (metis set_eq_iff_mset_eq_distinct)
    then have "length (filter (\<lambda>x. snd x = t) (filter (\<lambda>x. fst x \<in> fst ` set xs) (run_ids db))) = length (filter (\<lambda>x. snd x = t) xs)"
      by (metis mset_filter size_mset)
    moreover have "count_list (map (\<lambda>x. Run_Key (snd x)) xs) (Run_Key t) = length (filter (\<lambda>x. snd x = t) xs)"
      by (induction xs) auto
    ultimately show ?thesis using split [of t] by (simp add: leases_left_def Run_Key)
  qed (simp add: leases_left_def answer)
  show ?thesis unfolding lease_step_def
    using led loses all filter_same [OF answer] filter_same [OF run] run answer by (auto simp: trans_le_add1)
qed

lemma lease_step_answers:
  assumes run: "run_ids d = run_ids db" and answer: "answer_ids d = filter (\<lambda>x. x \<notin> set xs) (answer_ids db)"
    and led: "length (ledger d) \<le> length (ledger db) + length xs" and xs: "set xs \<subseteq> set (answer_ids db)"
  shows "lease_step (map Answer_Key xs) up db d"
proof -
  have loses: "leases_left k d < leases_left k db" if k: "k \<in> set (map Answer_Key xs)" for k
  proof -
    obtain i where i: "i \<in> set xs" "k = Answer_Key i" using k by auto
    then have "i \<in> set (filter (\<lambda>x. x = i) (answer_ids db))" using xs by auto
    then have "0 < length (filter (\<lambda>x. x = i) (answer_ids db))" by (rule length_pos_if_in_set)
    moreover have "filter (\<lambda>x. x = i) (answer_ids d) = []" using i by (auto simp: answer filter_empty_conv)
    ultimately show ?thesis by (simp add: i(2) leases_left_def)
  qed
  have all: "leases_left k db \<le> leases_left k d + count_list (map Answer_Key xs) k" if wf: "leases_wf db" for k
  proof (cases k)
    case (Answer_Key i)
    show ?thesis
    proof (cases "i \<in> set xs")
      case True
      then have "0 < count_list (map Answer_Key xs) (Answer_Key i)" by (simp add: count_list_0_iff flip: neq0_conv)
      moreover have "length (filter (\<lambda>x. x = i) (answer_ids db)) \<le> 1"
        using wf distinct_length_filter [of "answer_ids db" "\<lambda>x. x = i"] by (simp add: leases_wf_def card_gt_0_iff) (metis card_mono finite.emptyI finite.insertI card.insert card.empty inf_le1 insert_absorb Suc_eq_plus1 One_nat_def singleton_conv is_singletonI is_singleton_altdef)
      ultimately show ?thesis by (simp add: leases_left_def Answer_Key)
    next
      case False
      then have "filter (\<lambda>x. x = i) (answer_ids d) = filter (\<lambda>x. x = i) (answer_ids db)" by (auto simp: answer intro: filter_cong)
      then show ?thesis by (simp add: leases_left_def Answer_Key)
    qed
  qed (simp add: leases_left_def run)
  show ?thesis unfolding lease_step_def
    using led loses all filter_same [OF answer] filter_same [OF run] run answer by (auto simp: trans_le_add1)
qed

text \<open>At most \<open>n\<close> rows are added to the ledger, and the leases stay.\<close>

definition leaves_leases :: "nat \<Rightarrow> ('a) runs_db_scheme \<Rightarrow> ('a) runs_db_scheme \<Rightarrow> bool" where
  "leaves_leases n db d \<longleftrightarrow> live_runs d = live_runs db \<and> completions d = completions db \<and> length (ledger d) \<le> length (ledger db) + n"

lemma leaves_refl: "leaves_leases n db db"
  by (simp add: leaves_leases_def)

lemma leaves_trans: "leaves_leases m a b \<Longrightarrow> leaves_leases n b c \<Longrightarrow> leaves_leases (m + n) a c"
  by (simp add: leaves_leases_def)

lemma leaves_update_chat: "leaves_leases n db (update_chat i f db)"
  by (simp add: leaves_leases_def update_chat_def)

lemma leaves_charge: "charge ids site u a b kind m tok est t db = Inr (x, d) \<Longrightarrow> leaves_leases 1 db d"
  by (auto simp: charge_def Let_def leaves_leases_def open_windows_for_def open_windows_def map_sum_Inr split: if_splits sum.splits)

lemma leaves_record_request: "record_request m db = Inr d \<Longrightarrow> leaves_leases 0 db d"
  by (auto simp: record_request_def leaves_leases_def split: if_splits)

lemma leaves_record_metric: "record_metric m db = Inr d \<Longrightarrow> leaves_leases 0 db d"
  by (auto simp: record_metric_def leaves_leases_def split: if_splits)

lemma leaves_add_message: "add_message i w c u inc m a b s e t db = Inr (k, d) \<Longrightarrow> leaves_leases 0 db d"
  by (auto simp: add_message_def Let_def leaves_leases_def update_chat_def split: if_splits)

lemma leaves_store_answer: "store_answer i x inc m tms db = Inr (k, d) \<Longrightarrow> leaves_leases 0 db d"
  by (auto simp: store_answer_def Let_def leaves_leases_def update_chat_def split: option.splits if_splits sum.splits dest!: leaves_add_message)

text \<open>The leases of one chat are dropped, and at most one row is added to the ledger.\<close>

lemma step_Inr: "(case x of Inl e \<Rightarrow> Inl e | Inr a \<Rightarrow> f a) = Inr r \<longleftrightarrow> (\<exists>a. x = Inr a \<and> f a = Inr r)"
  by (simp split: sum.split)

lemma leaves_charge_if:
  "(if q then map_sum Run_Ledger snd (charge ids site u a b kind m tok est t db) else Inr db) = Inr d \<Longrightarrow> leaves_leases 1 db d"
  by (auto simp: map_sum_Inr leaves_refl dest!: leaves_charge split: if_splits)

lemma commit_run_effect:
  assumes "commit_run ids site i x inc tms db = Inr (r, d)"
  shows "live_runs d = tbl_delete (\<lambda>r. lv_chat r = i) (live_runs db) \<and> completions d = completions db \<and> length (ledger d) \<le> Suc (length (ledger db))"
  using assms unfolding commit_run_def Let_def
  by (simp only: step_Inr split_paired_Ex prod.case map_sum_Inr, elim exE conjE)
    (drule leaves_store_answer, drule leaves_charge_if, drule leaves_record_request, simp add: leaves_leases_def)

lemma lease_step_abort:
  assumes run: "run_ids d = filter (\<lambda>x. x \<noteq> (i, t)) (run_ids db)" and answer: "answer_ids d = answer_ids db"
    and led: "length (ledger d) \<le> length (ledger db)"
  shows "lease_step [] (\<lambda>k. k = Run_Key t) db d"
proof -
  have one: "length (filter (\<lambda>x. snd x = t) xs) \<le> length (filter (\<lambda>x. snd x = t) (filter (\<lambda>x. x \<noteq> (i, t)) xs)) + 1"
    if "distinct (map fst xs)" for xs :: "(string \<times> string) list"
    using that
  proof (induction xs)
    case (Cons x xs)
    have "filter (\<lambda>x. x \<noteq> (i, t)) xs = xs" if "x = (i, t)" using that Cons.prems by (force simp: filter_id_conv)
    with Cons show ?case by (cases "x = (i, t)") auto
  qed simp
  then have "leases_left k db \<le> leases_left k d + of_bool (k = Run_Key t)" if "leases_wf db" for k
  proof (cases k)
    case (Run_Key u)
    show ?thesis
    proof (cases "u = t")
      case True
      then show ?thesis using one [of "run_ids db"] that by (simp add: leases_left_def run Run_Key leases_wf_def)
    next
      case False
      then have "filter (\<lambda>x. snd x = u) (run_ids d) = filter (\<lambda>x. snd x = u) (run_ids db)" by (auto simp: run intro: filter_cong)
      then show ?thesis by (simp add: leases_left_def Run_Key)
    qed
  qed (simp add: leases_left_def answer)
  then show ?thesis unfolding lease_step_def using led run filter_same [OF answer] by auto
qed

lemma run_ids_keep [simp]:
  "(\<And>r. lv_chat (f r) = lv_chat r \<and> lv_token (f r) = lv_token r) \<Longrightarrow> map (\<lambda>r. (lv_chat r, lv_token r)) (tbl_update p f t) = map (\<lambda>r. (lv_chat r, lv_token r)) t"
  by (simp add: tbl_update_def)

lemma answer_ids_keep [simp]: "(\<And>r. cl_id (f r) = cl_id r) \<Longrightarrow> map cl_id (tbl_update p f t) = map cl_id t"
  by (simp add: tbl_update_def)

text \<open>The operations that keep every lease and charge nothing.\<close>

definition keeps_leases :: "('a) runs_db_scheme \<Rightarrow> ('a) runs_db_scheme \<Rightarrow> bool" where
  "keeps_leases db d \<longleftrightarrow> run_ids d = run_ids db \<and> answer_ids d = answer_ids db \<and> ledger d = ledger db"

lemma keeps_refl [simp]: "keeps_leases db db"
  by (simp add: keeps_leases_def)

lemma keeps_trans: "keeps_leases a b \<Longrightarrow> keeps_leases b c \<Longrightarrow> keeps_leases a c"
  by (simp add: keeps_leases_def)

lemma keeps_step: "keeps_leases db d \<Longrightarrow> lease_step [] up db d"
  by (simp add: keeps_leases_def lease_step_same)

lemma keeps_kept: "(\<And>d. r = Inr d \<Longrightarrow> keeps_leases db d) \<Longrightarrow> keeps_leases db (kept db r)"
  by (cases r) (simp_all add: kept_def)

lemmas keeps_defs = keeps_leases_def run_ids_def answer_ids_def

lemma keeps_tables:
  "keeps_leases db (db\<lparr>chats := a\<rparr>)" "keeps_leases db (db\<lparr>messages := b\<rparr>)" "keeps_leases db (db\<lparr>attachments := c\<rparr>)"
  "keeps_leases db (update_chat i f db)" "keeps_leases db (stop_runs p db)" "keeps_leases db (erase_chats q db)" "keeps_leases db (delete_message m db)"
  "keeps_leases db (delete_audit_entry n db)"
  by (simp_all add: keeps_defs update_chat_def stop_runs_def erase_chats_def Let_def delete_message_def delete_audit_entry_def)

lemma keeps_hard_delete: "keeps_leases db (hard_delete i db)"
  unfolding hard_delete_def by (rule keeps_trans [OF keeps_tables(5) keeps_tables(6)])

lemma keeps_purge: "keeps_leases db (snd (purge_all p db))"
proof -
  have "keeps_leases db (fold purge_step xs db)" for xs
    by (induction xs arbitrary: db) (auto simp: purge_step_def intro: keeps_trans keeps_hard_delete)
  then show ?thesis by (simp add: purge_all_def)
qed

lemma keeps_add_message: "add_message i w c u inc m a b s e t db = Inr (k, d) \<Longrightarrow> keeps_leases db d"
  by (auto simp: add_message_def Let_def keeps_defs update_chat_def split: if_splits)

lemma keeps_attach: "add_attachment m t x db = Inr d \<Longrightarrow> keeps_leases db d"
  by (auto simp: add_attachment_def keeps_defs split: if_splits)

lemma keeps_attach_all: "add_attachments m t xs db = Inr d \<Longrightarrow> keeps_leases db d"
proof (induction xs arbitrary: d rule: rev_induct)
  case (snoc x xs)
  then obtain e where "add_attachments m t xs db = Inr e" "add_attachment m t x e = Inr d"
    by (auto simp: add_attachments_def split: sum.splits)
  with snoc.IH keeps_attach show ?case by (blast intro: keeps_trans)
qed (simp add: add_attachments_def)

lemma keeps_delete_all: "keeps_leases db (snd (delete_all_for_user u h t db))"
  by (simp add: delete_all_for_user_def Let_def keeps_defs stop_runs_def erase_chats_def)

lemma keeps_chat_do: "keeps_leases db (chat_do x db)"
proof (cases x)
  case (Chat_Create i u inc t)
  then show ?thesis by (auto simp: chat_create_def keeps_defs kept_def)
next
  case (Chat_Rename i t)
  then show ?thesis by (auto simp: chat_rename_def Let_def map_sum_Inr intro!: keeps_kept keeps_tables split: if_splits)
next
  case (Chat_Share i tok)
  then show ?thesis by (auto simp: share_def map_sum_Inr intro!: keeps_kept keeps_tables split: if_splits option.splits)
next
  case (Chat_Add i w c u inc m a b s e t)
  then show ?thesis by (auto simp: map_sum_Inr intro!: keeps_kept dest: keeps_add_message)
next
  case (Chat_Attach m t xs)
  then show ?thesis by (auto intro!: keeps_kept dest: keeps_attach_all)
next
  case (Chat_Delete_Audit_Chat i)
  have "keeps_leases db (db\<lparr>audit_copies := tbl_delete (\<lambda>a. ia_chat a = i) (audit_copies db)\<rparr>)" by (simp add: keeps_defs)
  with Chat_Delete_Audit_Chat show ?thesis by (auto simp: delete_audit_session_def Let_def intro: keeps_trans [OF _ keeps_hard_delete])
qed (auto simp: chat_touch_def set_title_if_untitled_def revoke_share_def revoke_all_shares_def allow_share_def soft_delete_def Let_def
    purge_no_history_def purge_deleted_def purge_empty_def
    intro: keeps_tables keeps_hard_delete keeps_purge keeps_delete_all keeps_trans [OF keeps_tables(5) keeps_tables(1)])

lemma keeps_update_run:
  "(\<And>r. lv_chat (f r) = lv_chat r \<and> lv_token (f r) = lv_token r) \<Longrightarrow> keeps_leases db (snd (update_run i k f db))"
  by (simp add: update_run_def Let_def keeps_defs)

lemma keeps_title: "set_title_if_untitled i t db = (b, d) \<Longrightarrow> keeps_leases db d"
  by (auto simp: set_title_if_untitled_def Let_def intro: keeps_tables)

lemma keeps_refund: "keeps_leases db (refund_reservation h db)"
  by (simp add: refund_reservation_def keeps_defs split: option.split)

lemma abort_ids: "lease_step [] (\<lambda>k. k = Run_Key (bn_token b)) db (abort_run i b db)"
proof (cases "tbl_count (\<lambda>r. lv_chat r = i \<and> lv_token r = bn_token b) (live_runs db) = 0")
  case True
  then show ?thesis by (simp add: abort_run_def lease_step_same)
next
  case False
  define db1 where "db1 = db\<lparr>live_runs := tbl_delete (\<lambda>r. lv_chat r = i \<and> lv_token r = bn_token b) (live_runs db)\<rparr>"
  have "keeps_leases db1 (abort_run i b db)"
    using False unfolding abort_run_def Let_def db1_def [symmetric]
    by (auto simp: db1_def split: option.split intro!: keeps_trans [OF _ keeps_tables(4)] keeps_trans [OF _ keeps_tables(1)]
        keeps_trans [OF keeps_tables(8) keeps_tables(7)] keeps_tables)
  moreover have "run_ids db1 = filter (\<lambda>x. x \<noteq> (i, bn_token b)) (run_ids db)"
    by (simp add: db1_def run_ids_def tbl_delete_def filter_map o_def)
  moreover have "answer_ids db1 = answer_ids db" "ledger db1 = ledger db" by (simp_all add: db1_def answer_ids_def)
  ultimately show ?thesis by (auto simp: keeps_leases_def intro: lease_step_abort)
qed

lemma recover_row_effect:
  assumes "recover_row ids site tms r db = Inr d"
  shows "run_ids d = filter (\<lambda>x. fst x \<noteq> lv_chat r) (run_ids db) \<and> answer_ids d = answer_ids db \<and> length (ledger d) \<le> Suc (length (ledger db))"
  using assms
  by (auto simp: recover_row_def map_sum_Inr run_ids_def answer_ids_def tbl_delete_def filter_map o_def
      dest!: commit_run_effect split: option.splits)

lemma recover_rows_effect:
  "recover_rows ids site tms rs db = Inr d \<Longrightarrow>
    run_ids d = filter (\<lambda>x. fst x \<notin> lv_chat ` set rs) (run_ids db) \<and> answer_ids d = answer_ids db \<and> length (ledger d) \<le> length (ledger db) + length rs"
proof (induction rs arbitrary: db)
  case (Cons r rs)
  then obtain e where "recover_row ids site (tms (lv_chat r)) r db = Inr e" "recover_rows ids site tms rs e = Inr d"
    by (auto split: sum.splits)
  with Cons.IH [of e] recover_row_effect [of ids site "tms (lv_chat r)" r db e] show ?case by (auto intro: filter_cong)
qed simp

lemma recover_step:
  assumes "recover_rows ids site tms rs db = Inr d" "set rs \<subseteq> set (live_runs db)"
    "distinct (map lv_chat (live_runs db)) \<Longrightarrow> distinct rs"
  shows "lease_step (run_keys rs) up db d"
proof -
  define xs where "xs = map (\<lambda>r. (lv_chat r, lv_token r)) rs"
  have "lease_step (map (\<lambda>x. Run_Key (snd x)) xs) up db d"
  proof (rule lease_step_runs)
    show "run_ids d = filter (\<lambda>x. fst x \<notin> fst ` set xs) (run_ids db)" "answer_ids d = answer_ids db"
      "length (ledger d) \<le> length (ledger db) + length xs"
      using recover_rows_effect [OF assms(1)] by (simp_all add: xs_def image_image)
    show "set xs \<subseteq> set (run_ids db)" using assms(2) by (auto simp: xs_def run_ids_def)
    show "distinct xs" if "distinct (map fst (run_ids db))"
    proof -
      have d: "distinct (map lv_chat (live_runs db))" using that by (simp add: run_ids_def o_def)
      then have "inj_on lv_chat (set rs)" using assms(2) by (auto simp: distinct_map inj_on_subset)
      then have "inj_on (\<lambda>r. (lv_chat r, lv_token r)) (set rs)" by (simp add: inj_on_def)
      with assms(3) [OF d] show ?thesis by (simp add: xs_def distinct_map)
    qed
  qed
  then show ?thesis by (simp add: xs_def run_keys_def o_def)
qed

lemma stale_rows_part: "set (stale_rows i c db) \<subseteq> set (live_runs db)" "distinct (map lv_chat (live_runs db)) \<Longrightarrow> distinct (stale_rows i c db)"
  by (auto simp: stale_rows_def distinct_map split: option.splits dest: in_set_takeD)

lemma finish_step:
  assumes "finish_run ids site i k x tms db = Inr (Some y, d)"
  shows "lease_step [Run_Key k] up db d"
proof -
  obtain r z inc where r: "r \<in> set (live_runs db)" "lv_chat r = i" "lv_token r = k" and c: "commit_run ids site i x inc tms db = Inr (z, d)"
    using assms by (auto simp: finish_run_def map_sum_Inr split: if_splits option.splits dest: tbl_one_SomeD)
  have "lease_step (map (\<lambda>x. Run_Key (snd x)) [(i, k)]) up db d"
    by (rule lease_step_runs) (use r commit_run_effect [OF c] in \<open>auto simp: run_ids_def answer_ids_def tbl_delete_def filter_map o_def\<close>)
  then show ?thesis by simp
qed

lemma charge_record_effect:
  assumes "charge_record ids site tms x db = Inr d"
  shows "run_ids d = run_ids db \<and> answer_ids d = filter (\<lambda>i. i \<noteq> cl_id x) (answer_ids db) \<and> length (ledger d) \<le> Suc (length (ledger db))"
proof -
  define db1 where "db1 = snd (close_completion (cl_id x) db)"
  have one: "run_ids db1 = run_ids db" "answer_ids db1 = filter (\<lambda>i. i \<noteq> cl_id x) (answer_ids db)" "ledger db1 = ledger db"
    by (simp_all add: db1_def close_completion_def run_ids_def answer_ids_def tbl_delete_def filter_map o_def)
  have "leaves_leases 1 db1 d"
  proof (cases "known (Some (cl_user x)) db1")
    case True
    have "\<exists>m tok mt db2. (if cl_in x \<noteq> 0 \<or> cl_out x \<noteq> 0
        then map_sum Run_Ledger snd (charge ids site (cl_user x) (cl_in x) (cl_out x) (cl_kind x) m tok True (ct_charge tms) db1)
        else Inr db1) = Inr db2 \<and> record_request mt db2 = Inr d"
      using assms True unfolding charge_record_def Let_def db1_def [symmetric]
      by (simp only: step_Inr not_True_eq_False if_False map_sum_Inr id_apply) blast
    then show ?thesis by (elim exE conjE) (drule leaves_charge_if, drule leaves_record_request, simp add: leaves_leases_def)
  next
    case False
    with assms show ?thesis unfolding charge_record_def Let_def db1_def [symmetric] by (simp add: leaves_refl)
  qed
  then show ?thesis using one by (simp add: leaves_leases_def run_ids_def answer_ids_def)
qed

lemma charge_records_effect:
  "charge_records ids site tms xs db = Inr d \<Longrightarrow>
    run_ids d = run_ids db \<and> answer_ids d = filter (\<lambda>i. i \<notin> cl_id ` set xs) (answer_ids db) \<and> length (ledger d) \<le> length (ledger db) + length xs"
proof (induction xs arbitrary: db)
  case (Cons x xs)
  then obtain e where "charge_record ids site (tms (cl_id x)) x db = Inr e" "charge_records ids site tms xs e = Inr d"
    by (auto split: sum.splits)
  with Cons.IH [of e] charge_record_effect [of ids site "tms (cl_id x)" x db e] show ?case by (auto intro: filter_cong)
qed simp

lemma charge_step:
  assumes "charge_records ids site tms xs db = Inr d" "set xs \<subseteq> set (completions db)"
  shows "lease_step (map (\<lambda>x. Answer_Key (cl_id x)) xs) up db d"
proof -
  have "lease_step (map Answer_Key (map cl_id xs)) up db d"
    by (rule lease_step_answers) (use charge_records_effect [OF assms(1)] assms(2) in \<open>auto simp: answer_ids_def\<close>)
  then show ?thesis by (simp add: o_def)
qed

lemma leaves_settled:
  assumes "settle ids site i x tms db = Inr (held, d)"
  shows "held = (tbl_count (\<lambda>y. cl_id y = i) (completions db) = 1) \<and>
    leaves_leases (of_bool held) (snd (close_completion i (refund_reservation (se_hold x) db))) d"
proof -
  obtain h db1 where c: "close_completion i (refund_reservation (se_hold x) db) = (h, db1)" by fastforce
  have h: "h = (tbl_count (\<lambda>y. cl_id y = i) (completions db) = 1)" using c by (auto simp: close_completion_def refund_reservation_def split: option.splits)
  have free: "held = h \<and> leaves_leases (of_bool h) db1 d" if "\<not> h \<or> se_free x"
    using assms that unfolding settle_def Let_def c
    by (auto simp: map_sum_Inr leaves_refl split: if_splits dest: leaves_record_metric intro: leaves_trans [OF _ leaves_refl, of 0 _ _ 1, simplified])
  have paid: "held = h \<and> leaves_leases (of_bool h) db1 d" if "h" "\<not> se_free x"
    using assms that unfolding settle_def Let_def c
    by (auto simp: map_sum_Inr charge_text_def split: sum.splits dest!: leaves_charge leaves_record_metric)
      (simp_all add: leaves_leases_def)
  show ?thesis using free paid h c by (cases "h \<and> \<not> se_free x") auto
qed

lemma settle_step:
  assumes "settle ids site i x tms db = Inr (held, d)"
  shows "lease_step (if held then [Answer_Key i] else []) up db d"
proof -
  define db1 where "db1 = snd (close_completion i (refund_reservation (se_hold x) db))"
  have held: "held = (tbl_count (\<lambda>y. cl_id y = i) (completions db) = 1)" and leaves: "leaves_leases (of_bool held) db1 d"
    using leaves_settled [OF assms] unfolding db1_def by blast+
  have "run_ids db1 = run_ids db" "answer_ids db1 = filter (\<lambda>j. j \<noteq> i) (answer_ids db)" "ledger db1 = ledger db"
    by (simp_all add: db1_def close_completion_def refund_reservation_def run_ids_def answer_ids_def tbl_delete_def filter_map o_def split: option.split)
  then have d: "run_ids d = run_ids db" "answer_ids d = filter (\<lambda>j. j \<noteq> i) (answer_ids db)"
    "length (ledger d) \<le> length (ledger db) + of_bool held"
    using leaves by (simp_all add: leaves_leases_def run_ids_def answer_ids_def)
  show ?thesis
  proof (cases held)
    case True
    have "tbl_count (\<lambda>y. cl_id y = i) (completions db) \<noteq> 0" using held True by simp
    then have "i \<in> set (answer_ids db)" by (auto simp: answer_ids_def tbl_count_0_iff)
    then have "lease_step (map Answer_Key [i]) up db d" using d True by (intro lease_step_answers) auto
    with True show ?thesis by simp
  next
    case False
    have same: "answer_ids d = answer_ids db" if "leases_wf db"
    proof -
      have "distinct (map cl_id (completions db))" using that by (simp add: leases_wf_def answer_ids_def)
      then have "tbl_count (\<lambda>y. cl_id y = i) (completions db) \<le> 1" by (rule tbl_count_unique)
      with held False have "tbl_count (\<lambda>y. cl_id y = i) (completions db) = 0" by simp
      then have "i \<notin> set (answer_ids db)" by (auto simp: tbl_count_0_iff answer_ids_def)
      then show ?thesis by (auto simp: d filter_id_conv)
    qed
    then show ?thesis using False d filter_same [OF d(1)]
      by (auto simp: lease_step_def leases_left_def split: lease_key.split)
  qed
qed

text \<open>A step drops leases and may then issue one.\<close>

definition issued :: "(lease_key \<Rightarrow> bool) \<Rightarrow> ('a) runs_db_scheme \<Rightarrow> ('a) runs_db_scheme \<Rightarrow> bool" where
  "issued new d0 d \<longleftrightarrow> ledger d = ledger d0 \<and> (leases_wf d0 \<longrightarrow> leases_wf d) \<and> (\<forall>k. \<not> new k \<longrightarrow> leases_left k d = leases_left k d0)"

lemma issued_same [simp]: "issued new d d"
  by (simp add: issued_def)

lemma issued_run:
  assumes "run_ids d = run_ids d0 @ [(i, t)]" "i \<notin> fst ` set (run_ids d0)" "answer_ids d = answer_ids d0" "ledger d = ledger d0"
  shows "issued (\<lambda>k. k = Run_Key t) d0 d"
  using assms by (auto simp: issued_def leases_wf_def leases_left_def split: lease_key.split)

lemma issued_answer:
  assumes "answer_ids d = answer_ids d0 @ [i]" "i \<notin> set (answer_ids d0)" "run_ids d = run_ids d0" "ledger d = ledger d0"
  shows "issued (\<lambda>k. k = Answer_Key i) d0 d"
  using assms by (auto simp: issued_def leases_wf_def leases_left_def split: lease_key.split)

lemma keeps_left: "keeps_leases a b \<Longrightarrow> leases_left k b = leases_left k a"
  by (simp add: keeps_leases_def leases_left_def split: lease_key.split)

lemma keeps_issued: "keeps_leases a b \<Longrightarrow> issued new b d \<Longrightarrow> issued new a d"
  using keeps_left [of a b] by (simp add: keeps_leases_def issued_def leases_wf_def)

lemma begin_step:
  assumes "begin_run ids site tms q n1 n2 t n3 db = Inr (b, d)"
  shows "\<exists>d0. lease_step (run_keys (filter (\<lambda>r. lv_beat r < run_cutoff n1) (live_runs db))) up db d0 \<and> issued (\<lambda>k. k = Run_Key (pr_token q)) d0 d"
proof -
  obtain d0 where r: "recover_rows ids site tms (filter (\<lambda>r. lv_beat r < run_cutoff n1) (live_runs db)) db = Inr d0"
    using assms by (auto simp: begin_run_def Let_def split: sum.splits)
  note body = assms [unfolded begin_run_def Let_def r sum.case]
  have free: "\<not> list_ex (\<lambda>r. lv_chat r = pr_chat q) (live_runs d0)" using body by (auto split: if_splits)
  obtain c m db2 where m: "add_message (pr_chat q) ''user'' (pr_text q) (pr_user q) (cs_incognito c) None 0 0 ''completed'' False t d0 = Inr (m, db2)"
    and c: "tbl_one (\<lambda>c. cs_id c = pr_chat q \<and> cs_deleted c = None) (chats d0) = Some c"
    using body by (simp split: if_splits option.splits sum.splits prod.splits)
  obtain db3 where a: "add_attachments m t (pr_files q) db2 = Inr db3"
    using body by (simp add: c m split: if_splits sum.splits)
  obtain x db4 where x: "(if truthy (pr_title q) then set_title_if_untitled (pr_chat q) (the (pr_title q)) db3 else (False, db3)) = (x, db4)"
    by fastforce
  have d: "d = update_chat (pr_chat q) (\<lambda>c. c\<lparr>cs_state := ''queued'', cs_error := [], cs_message := None\<rparr>) (db4\<lparr>live_runs := live_runs db4 @
      [\<lparr>lv_chat = pr_chat q, lv_token = pr_token q, lv_stop = False, lv_beat = n3, lv_started = Some n3, lv_prompt = Some m,
        lv_user = Some (pr_user q), lv_incognito = cs_incognito c, lv_model = None, lv_in = 0, lv_out = 0, lv_partial = []\<rparr>]\<rparr>)"
    using body free by (simp add: c m a x split: if_splits)
  have "keeps_leases db3 db4" using x by (auto split: if_splits dest: keeps_title)
  with keeps_add_message [OF m] keeps_attach_all [OF a] have k: "keeps_leases d0 db4" by (blast intro: keeps_trans)
  have "issued (\<lambda>k. k = Run_Key (pr_token q)) db4 d"
  proof (rule issued_run)
    have "pr_chat q \<notin> fst ` set (run_ids d0)" using free by (auto simp: run_ids_def list_ex_iff)
    then show "pr_chat q \<notin> fst ` set (run_ids db4)" using k by (simp add: keeps_leases_def)
  qed (simp_all add: d update_chat_def run_ids_def answer_ids_def)
  then have "issued (\<lambda>k. k = Run_Key (pr_token q)) d0 d" by (rule keeps_issued [OF k])
  moreover have "lease_step (run_keys (filter (\<lambda>r. lv_beat r < run_cutoff n1) (live_runs db))) up db d0"
    by (rule recover_step [OF r]) (auto simp: distinct_map)
  ultimately show ?thesis by blast
qed

lemma mark_running_keeps: "keeps_leases db (snd (mark_running i t m db))"
  using keeps_update_run [of "\<lambda>r. r\<lparr>lv_model := existing_model m db\<rparr>" db i t]
  by (auto simp: mark_running_def Let_def case_prod_beta intro: keeps_trans [OF _ keeps_tables(4)])

lemma check_run_keeps: "keeps_leases db (snd (check_run i t r n db))"
  by (auto simp: check_run_def intro: keeps_update_run split: option.split)

lemma issues_lease_Begin: "issues_lease (Begin tms q n1 n2 t n3) = (\<lambda>k. k = Run_Key (pr_token q))"
  by (rule ext) simp

lemma issues_lease_Open: "issues_lease (Open_Answer i u kind tok m w n) = (\<lambda>k. k = Answer_Key i)"
  by (rule ext) simp

lemma gives_up_Abort: "gives_up (Abort i b) = (\<lambda>k. k = Run_Key (bn_token b))"
  by (rule ext) simp

lemma run_do_step:
  "\<exists>d0. lease_step (fst (run_do ids site a db)) (gives_up a) db d0 \<and> issued (issues_lease a) d0 (snd (run_do ids site a db))"
proof -
  have same: ?thesis if "fst (run_do ids site a db) = []" "keeps_leases db (snd (run_do ids site a db))"
    using keeps_step [OF that(2)] that(1) issued_same by metis
  have dropped: ?thesis if "lease_step (fst (run_do ids site a db)) (gives_up a) db (snd (run_do ids site a db))"
    using that issued_same by metis
  show ?thesis
  proof (cases a)
    case (Begin tms q n1 n2 t n3)
    show ?thesis
    proof (cases "begin_run ids site tms q n1 n2 t n3 db")
      case (Inr y)
      obtain b d where "y = (b, d)" by fastforce
      with Inr begin_step [of ids site tms q n1 n2 t n3 db b d "gives_up a"] Begin
      show ?thesis by (simp add: issues_lease_Begin)
    next
      case (Inl e)
      with Begin show ?thesis by (intro same) simp_all
    qed
  next
    case (Abort i b)
    then show ?thesis using abort_ids [of b db i] by (intro dropped) (simp add: gives_up_Abort)
  next
    case (Mark_Running i t m)
    then show ?thesis by (intro same) (simp_all add: mark_running_keeps)
  next
    case (Save i t c m x y)
    then show ?thesis by (intro same) (simp_all add: checkpoint_def keeps_update_run)
  next
    case (Expire i t)
    then show ?thesis by (intro same) (simp_all add: expire_run_def keeps_update_run)
  next
    case (Stop i)
    then show ?thesis by (intro same) (simp_all add: request_stop_def keeps_tables)
  next
    case (Tick i t r n)
    then show ?thesis by (intro same) (simp_all add: check_run_keeps)
  next
    case (Finish i k x tms)
    show ?thesis
    proof (cases "finish_run ids site i k x tms db")
      case (Inr y)
      obtain o1 d where y: "y = (o1, d)" by fastforce
      show ?thesis
      proof (cases o1)
        case None
        with Inr y have "d = db" by (auto simp: finish_run_def map_sum_Inr split: if_splits option.splits)
        with None Inr y Finish show ?thesis by (intro same) simp_all
      next
        case (Some z)
        with Inr y Finish finish_step [of ids site i k x tms db z d] show ?thesis by (intro dropped) simp
      qed
    next
      case (Inl e)
      with Finish show ?thesis by (intro same) simp_all
    qed
  next
    case (Recover tms i c1 c2)
    show ?thesis
    proof (cases "recover_stale ids site tms i c1 c2 db")
      case (Inr y)
      obtain n d where y: "y = (n, d)" by fastforce
      show ?thesis
      proof (cases "has_stale i c1 db")
        case True
        with Inr y have "recover_rows ids site tms (stale_rows i c2 db) db = Inr d" by (auto simp: recover_stale_def Let_def map_sum_Inr)
        from recover_step [OF this stale_rows_part] True Inr y Recover show ?thesis by (intro dropped) simp
      next
        case False
        with Inr y Recover show ?thesis by (intro same) (simp_all add: recover_stale_def)
      qed
    next
      case (Inl e)
      with Recover show ?thesis by (intro same) simp_all
    qed
  next
    case (Open_Answer i u kind tok m w n)
    show ?thesis
    proof (cases "open_completion i u kind tok m w n db")
      case (Inr d)
      then have "issued (\<lambda>k. k = Answer_Key i) db d"
        by (intro issued_answer) (auto simp: open_completion_def answer_ids_def run_ids_def list_ex_iff split: if_splits)
      then have "issued (issues_lease a) db (snd (run_do ids site a db))" by (simp add: Open_Answer Inr issues_lease_Open)
      then show ?thesis using keeps_step [OF keeps_refl, of "gives_up a" db] by (intro exI [of _ db]) (simp add: Open_Answer Inr)
    next
      case (Inl e)
      with Open_Answer show ?thesis by (intro same) simp_all
    qed
  next
    case (Save_Answer i m x y n)
    then show ?thesis by (intro same) (simp_all add: checkpoint_completion_def keeps_defs)
  next
    case (Expire_Answer i)
    then show ?thesis by (intro same) (simp_all add: expire_completion_def keeps_defs)
  next
    case (Settle i x tms)
    show ?thesis
    proof (cases "settle ids site i x tms db")
      case (Inr y)
      obtain held d where "y = (held, d)" by fastforce
      with Inr settle_step [of ids site i x tms db held d] Settle show ?thesis by (intro dropped) simp
    next
      case (Inl e)
      with Settle show ?thesis by (intro same) simp_all
    qed
  next
    case (Recover_Answers tms c1 c2)
    show ?thesis
    proof (cases "recover_completions ids site tms c1 c2 db")
      case (Inr y)
      obtain n d where y: "y = (n, d)" by fastforce
      show ?thesis
      proof (cases "list_ex (\<lambda>x. cl_beat x < c1) (completions db)")
        case True
        with Inr y have "charge_records ids site tms (stale_completions c2 db) db = Inr d"
          by (auto simp: recover_completions_def Let_def map_sum_Inr)
        then have "lease_step (map (\<lambda>x. Answer_Key (cl_id x)) (stale_completions c2 db)) (gives_up a) db d"
          by (rule charge_step) (auto simp: stale_completions_def dest: in_set_takeD)
        with True Inr y Recover_Answers show ?thesis by (intro dropped) simp
      next
        case False
        with Inr y Recover_Answers show ?thesis by (intro same) (simp_all add: recover_completions_def)
      qed
    next
      case (Inl e)
      with Recover_Answers show ?thesis by (intro same) simp_all
    qed
  next
    case (On_Chats x)
    then show ?thesis by (intro same) (simp_all add: keeps_chat_do)
  qed
qed

text \<open>The interface: a lease is charged by the step that takes it, and by no other.\<close>

interpretation lease: one_shot "run_do ids site :: run_act \<Rightarrow> ('a) runs_db_scheme \<Rightarrow> _" leases_left issues_lease
  "\<lambda>a ks k. k \<in> set ks \<and> \<not> issues_lease a k" for ids site
proof
  fix a k and db :: "('a) runs_db_scheme"
  obtain d0 where d0: "lease_step (fst (run_do ids site a db)) (gives_up a) db d0" "issued (issues_lease a) d0 (snd (run_do ids site a db))"
    using run_do_step by blast
  show "leases_left k (snd (run_do ids site a db)) \<le> leases_left k db" if "\<not> issues_lease a k"
    using d0 that lease_step_born [OF d0(1)] by (simp add: issued_def)
  show "leases_left k (snd (run_do ids site a db)) < leases_left k db" if "k \<in> set (fst (run_do ids site a db)) \<and> \<not> issues_lease a k"
    using d0 that by (simp add: issued_def lease_step_def)
qed

lemma ledger_grows:
  "length (ledger (snd (run_acts (run_do ids site) acts db))) \<le> length (ledger db) + (\<Sum>x \<leftarrow> fst (run_acts (run_do ids site) acts db). length (snd x))"
proof (induction acts arbitrary: db)
  case (Cons a acts)
  obtain ks d where a: "run_do ids site a db = (ks, d)" by fastforce
  have "length (ledger d) \<le> length (ledger db) + length ks"
    using run_do_step [of ids site a db] by (auto simp: a lease_step_def issued_def)
  with Cons.IH [of d] show ?case by (simp add: a case_prod_beta)
qed simp

lemma none_lost:
  "leases_wf db \<Longrightarrow> \<forall>a \<in> set acts. \<not> issues_lease a k \<Longrightarrow>
    leases_left k db \<le> leases_left k (snd (run_acts (run_do ids site) acts db)) +
      (\<Sum>x \<leftarrow> fst (run_acts (run_do ids site) acts db). count_list (snd x) k) + length (filter (\<lambda>a. gives_up a k) acts)"
proof (induction acts arbitrary: db)
  case (Cons a acts)
  obtain ks d where a: "run_do ids site a db = (ks, d)" by fastforce
  obtain d0 where d0: "lease_step ks (gives_up a) db d0" "issued (issues_lease a) d0 d" using run_do_step [of ids site a db] by (auto simp: a)
  have "leases_wf d" using lease_step_wf [OF d0(1) Cons.prems(1)] d0(2) by (simp add: issued_def)
  with Cons have "leases_left k d \<le> leases_left k (snd (run_acts (run_do ids site) acts d)) +
      (\<Sum>x \<leftarrow> fst (run_acts (run_do ids site) acts d). count_list (snd x) k) + length (filter (\<lambda>a. gives_up a k) acts)" by simp
  moreover have "leases_left k db \<le> leases_left k d + count_list ks k + of_bool (gives_up a k)"
    using d0 Cons.prems by (simp add: lease_step_def issued_def)
  ultimately show ?case by (cases "gives_up a k") (simp_all add: a case_prod_beta)
qed simp


definition ex_runs_db :: runs_db where
  "ex_runs_db = \<lparr>pool_docs = [], model_docs = [], catalog_presets = [], accounts = [''u''], user_limits = [], overrides = [],
     model_limits = [], efforts = [], tiers = [], next_tier = 1, grants = [], next_grant = 1, windows_tbl = [], rate_buckets = [],
     site_resets = (None, None), models = [], members = [(''u'', False, False)], ledger = [], reservations = [], next_reservation = 1,
     pledges = [], next_pledge = 1, metrics = [], chats = [], messages = [], next_message = 1, attachments = [], audit_copies = [],
     next_copy = 1, live_runs = [\<lparr>lv_chat = ''c1'', lv_token = ''t1'', lv_stop = False, lv_beat = 0, lv_started = Some 0, lv_prompt = None,
       lv_user = Some ''u'', lv_incognito = False, lv_model = None, lv_in = 0, lv_out = 0, lv_partial = []\<rparr>],
     completions = [], api_tokens = []\<rparr>"

definition ex_times :: commit_times where
  "ex_times = \<lparr>ct_message = 5, ct_session = 5, ct_charge = 5, ct_metric = 5\<rparr>"

definition ex_answer :: outcome where
  "ex_answer = \<lparr>oc_user = ''u'', oc_text = [104, 105], oc_state = ''completed'', oc_error = [], oc_model = None, oc_in = 3, oc_out = 2,
     oc_estimated = False, oc_duration = 7, oc_wait = 0, oc_charge = True\<rparr>"


end
