(* ===== verification/Web_Socket.thy ===== *)
theory Web_Socket
  imports BC_Prelude "HOL-Library.Word"
begin

section \<open>The web socket between a worker and the site\<close>

text \<open>
  bananachat/services/websocket.py (the site) and worker/websocket_client.py (the worker): the frames
  of RFC 6455 that the tunnels use. A byte is an \<open>8 word\<close>. What the network does is explicit:
  \<open>arriving\<close> is what the next calls of \<open>recv\<close> meet (bytes cut anywhere, an error, a time-out; an
  empty piece or nothing left is the end of the connection) and \<open>faults\<close> what the next calls of
  \<open>sendall\<close> meet. The lock around a send makes it one step. The random masks of the client are the
  sequence \<open>masks\<close>. A closing reason is not used by any caller and left out. After the worker closed
  its socket a read of it raises \<open>Closed\<close>, here as if the connection had ended.
\<close>

unbundle bit_operations_syntax

type_synonym byte = "8 word"
type_synonym bytes = "byte list"

subsection \<open>Masks and numbers\<close>

text \<open>\<open>int.from_bytes(.., "little")\<close> and \<open>to_bytes\<close>; \<open>_xor\<close> is one XOR of two big integers.\<close>

fun from_little :: "bytes \<Rightarrow> nat" where
  "from_little [] = 0"
| "from_little (b # bs) = unat b + 256 * from_little bs"

fun to_little :: "nat \<Rightarrow> nat \<Rightarrow> bytes" where
  "to_little 0 n = []"
| "to_little (Suc k) n = of_nat (n mod 256) # to_little k (n div 256)"

fun repeat1 :: "nat \<Rightarrow> bytes \<Rightarrow> bytes" where
  "repeat1 0 m = []"
| "repeat1 (Suc n) m = m @ repeat1 n m"

definition ws_xor :: "bytes \<Rightarrow> bytes \<Rightarrow> bytes" where
  "ws_xor payload m =
     (let n = length payload in
      if n = 0 then []
      else to_little n (from_little payload XOR from_little (take n (repeat1 (n div 4 + 1) m))))"

text \<open>\<open>struct.pack\<close> and \<open>unpack\<close> with \<open>!H\<close> (two bytes) and \<open>!Q\<close> (eight): big-endian.\<close>

definition pack :: "nat \<Rightarrow> nat \<Rightarrow> bytes" where
  "pack k n = rev (to_little k n)"

definition unpack :: "bytes \<Rightarrow> nat" where
  "unpack bs = from_little (rev bs)"

subsection \<open>A connection\<close>

datatype ws_error = Protocol string | Closed string | Timed_Out

datatype arrival = Piece bytes | Broke string | Time_Out

record link =
  arriving :: "arrival list"
  faults :: "string option list"
  sent :: "bytes list"
  shut :: bool

record client_link = link +
  buffered :: bytes
  masks :: "nat \<Rightarrow> bytes"
  drawn :: nat

type_synonym ('a, 's) io = "'s \<Rightarrow> (ws_error + 'a) \<times> 's"

definition CONTINUATION :: byte where "CONTINUATION = 0x0"
definition TEXT :: byte where "TEXT = 0x1"
definition BINARY :: byte where "BINARY = 0x2"
definition CLOSE :: byte where "CLOSE = 0x8"
definition PING :: byte where "PING = 0x9"
definition PONG :: byte where "PONG = 0xA"

definition MAX_FRAME :: nat where "MAX_FRAME = 1024 * 1024"
definition MAX_MESSAGE :: nat where "MAX_MESSAGE = 4 * 1024 * 1024"
definition CLIENT_PIECE :: nat where "CLIENT_PIECE = 65536"

text \<open>\<open>sock.recv(most)\<close>, with the exceptions as the two \<open>_exact\<close> pass them on.\<close>

fun recv :: "nat \<Rightarrow> arrival list \<Rightarrow> (ws_error + bytes) \<times> arrival list" where
  "recv most [] = (Inr [], [])"
| "recv most (Piece c # rest) = (if length c \<le> most then (Inr c, rest) else (Inr (take most c), Piece (drop most c) # rest))"
| "recv most (Broke e # rest) = (Inl (Closed e), rest)"
| "recv most (Time_Out # rest) = (Inl Timed_Out, rest)"

definition gone :: string where "gone = ''the connection closed''"

text \<open>The loop of the site's \<open>_exact\<close>.\<close>

function exact_from :: "nat \<Rightarrow> bytes \<Rightarrow> arrival list \<Rightarrow> (ws_error + bytes) \<times> arrival list" where
  "exact_from n data1 q =
     (if n \<le> length data1 then (Inr data1, q)
      else case recv (min 65536 (n - length data1)) q of
        (Inl e, q1) \<Rightarrow> (Inl e, q1)
      | (Inr chunk, q1) \<Rightarrow> if chunk = [] then (Inl (Closed gone), q1) else exact_from n (data1 @ chunk) q1)"
  by auto

termination
  by (relation "measure (\<lambda>(n, data1, q). n - length data1)") (auto simp: not_le intro!: diff_less_mono2)

declare exact_from.simps [simp del]

definition server_exact :: "nat \<Rightarrow> (bytes, ('a) link_scheme) io" where
  "server_exact n s = (case exact_from n [] (arriving s) of (r, q) \<Rightarrow> (r, s\<lparr>arriving := q\<rparr>))"

text \<open>The worker's \<open>_exact\<close>: what is read beyond the frame stays in its buffer.\<close>

function buffer_until :: "nat \<Rightarrow> bytes \<Rightarrow> arrival list \<Rightarrow> (ws_error + unit) \<times> bytes \<times> arrival list" where
  "buffer_until n buf q =
     (if n \<le> length buf then (Inr (), buf, q)
      else case recv 65536 q of
        (Inl e, q1) \<Rightarrow> (Inl e, buf, q1)
      | (Inr chunk, q1) \<Rightarrow> if chunk = [] then (Inl (Closed gone), buf, q1) else buffer_until n (buf @ chunk) q1)"
  by auto

termination
  by (relation "measure (\<lambda>(n, buf, q). n - length buf)") (auto simp: not_le intro!: diff_less_mono2)

declare buffer_until.simps [simp del]

definition client_exact :: "nat \<Rightarrow> (bytes, ('a) client_link_scheme) io" where
  "client_exact n s =
     (case buffer_until n (buffered s) (arriving s) of
        (Inl e, buf, q) \<Rightarrow> (Inl e, s\<lparr>buffered := buf, arriving := q\<rparr>)
      | (Inr _, buf, q) \<Rightarrow> (Inr (take n buf), s\<lparr>buffered := drop n buf, arriving := q\<rparr>))"

subsection \<open>Frames\<close>

definition bind_io :: "('a, 's) io \<Rightarrow> ('a \<Rightarrow> ('b, 's) io) \<Rightarrow> ('b, 's) io" where
  "bind_io m f s = (case m s of (Inl e, s1) \<Rightarrow> (Inl e, s1) | (Inr x, s1) \<Rightarrow> f x s1)"

definition fail :: "ws_error \<Rightarrow> ('a, 's) io" where
  "fail e s = (Inl e, s)"

definition give :: "'a \<Rightarrow> ('a, 's) io" where
  "give x s = (Inr x, s)"

text \<open>The length of a frame, as both sides read it.\<close>

definition frame_length :: "(nat \<Rightarrow> (bytes, 's) io) \<Rightarrow> byte \<Rightarrow> (nat, 's) io" where
  "frame_length exact second =
     (let n = unat (second AND 0x7F) in
      if n = 126 then bind_io (exact 2) (\<lambda>b. give (unpack b))
      else if n = 127 then bind_io (exact 8) (\<lambda>b. give (unpack b))
      else give n)"

type_synonym frame = "bool \<times> byte \<times> bytes"

definition server_frame :: "(frame, ('a) link_scheme) io" where
  "server_frame = bind_io (server_exact 2) (\<lambda>h.
     let first = hd h; second = last h; fin = (first AND 0x80 \<noteq> 0); opcode = first AND 0x0F in
     if first AND 0x70 \<noteq> 0 then fail (Protocol ''reserved bits set'')
     else if second AND 0x80 = 0 then fail (Protocol ''client frames must be masked'')
     else bind_io (frame_length server_exact second) (\<lambda>n.
       if MAX_FRAME < n then fail (Protocol ''frame too large'')
       else if 8 \<le> unat opcode \<and> (125 < n \<or> \<not> fin) then fail (Protocol ''invalid control frame'')
       else bind_io (server_exact 4) (\<lambda>m. bind_io (server_exact n) (\<lambda>p. give (fin, opcode, ws_xor p m)))))"

definition client_frame :: "(frame, ('a) client_link_scheme) io" where
  "client_frame = bind_io (client_exact 2) (\<lambda>h.
     let first = hd h; second = last h in
     if second AND 0x80 \<noteq> 0 then fail (Protocol ''the server masked a frame'')
     else bind_io (frame_length client_exact second) (\<lambda>n.
       if MAX_MESSAGE < n then fail (Protocol ''frame too large'')
       else bind_io (client_exact n) (\<lambda>p. give (first AND 0x80 \<noteq> 0, first AND 0x0F, p))))"

subsection \<open>Sending\<close>

text \<open>\<open>n < 2 ^ 64\<close> always: it is the length of a byte string in memory.\<close>

definition header :: "byte \<Rightarrow> byte \<Rightarrow> nat \<Rightarrow> bytes" where
  "header masked opcode n = (0x80 OR opcode) #
     (if n < 126 then [masked OR of_nat n] else if n < 65536 then (masked OR 126) # pack 2 n else (masked OR 127) # pack 8 n)"

definition sendall :: "bytes \<Rightarrow> (unit, ('a) link_scheme) io" where
  "sendall bs s =
     (case faults s of
        Some e # rest \<Rightarrow> (Inl (Closed e), s\<lparr>faults := rest\<rparr>)
      | q \<Rightarrow> (Inr (), s\<lparr>faults := drop 1 q, sent := sent s @ [bs]\<rparr>))"

definition server_send :: "byte \<Rightarrow> bytes \<Rightarrow> (unit, ('a) link_scheme) io" where
  "server_send opcode payload s =
     (if shut s \<and> opcode \<noteq> CLOSE then (Inl (Closed ''already closed''), s)
      else sendall (header 0 opcode (length payload) @ payload) s)"

definition client_send :: "byte \<Rightarrow> bytes \<Rightarrow> (unit, ('a) client_link_scheme) io" where
  "client_send opcode payload s =
     (let m = masks s (drawn s); s1 = s\<lparr>drawn := Suc (drawn s)\<rparr> in
      if shut s1 \<and> opcode \<noteq> CLOSE then (Inl (Closed ''already closed''), s1)
      else sendall (header 0x80 opcode (length payload) @ m @ ws_xor payload m) s1)"

text \<open>\<open>range(0, max(1, len(payload)), piece)\<close>: an empty payload is one empty message.\<close>

function pieces :: "nat \<Rightarrow> bytes \<Rightarrow> bytes list" where
  "pieces k p = (if k = 0 \<or> length p \<le> k then [p] else take k p # pieces k (drop k p))"
  by auto

termination
  by (relation "measure (\<lambda>(k, p). length p)") auto

declare pieces.simps [simp del]

fun send_each :: "('p \<Rightarrow> (unit, 's) io) \<Rightarrow> 'p list \<Rightarrow> (unit, 's) io" where
  "send_each send [] = give ()"
| "send_each send (p # ps) = bind_io (send p) (\<lambda>_. send_each send ps)"

definition server_send_binary :: "bytes \<Rightarrow> (unit, ('a) link_scheme) io" where
  "server_send_binary p = send_each (server_send BINARY) (pieces MAX_FRAME p)"

definition client_send_binary :: "bytes \<Rightarrow> (unit, ('a) client_link_scheme) io" where
  "client_send_binary p = send_each (client_send BINARY) (pieces CLIENT_PIECE p)"

definition server_send_text :: "bytes \<Rightarrow> (unit, ('a) link_scheme) io" where
  "server_send_text utf8 = server_send TEXT utf8"

definition client_send_text :: "bytes \<Rightarrow> (unit, ('a) client_link_scheme) io" where
  "client_send_text utf8 = client_send TEXT utf8"

definition server_ping :: "bytes \<Rightarrow> (unit, ('a) link_scheme) io" where
  "server_ping p = server_send PING (take 125 p)"

definition server_close :: "nat \<Rightarrow> (unit, ('a) link_scheme) io" where
  "server_close code s =
     (if shut s then (Inr (), s)
      else case server_send CLOSE (pack 2 code) s of
        (Inl (Closed _), s1) \<Rightarrow> (Inr (), s1\<lparr>shut := True\<rparr>)
      | (Inl e, s1) \<Rightarrow> (Inl e, s1)
      | (Inr _, s1) \<Rightarrow> (Inr (), s1\<lparr>shut := True\<rparr>))"

text \<open>The worker then shuts the socket down: nothing more is received on it.\<close>

definition client_close :: "(unit, ('a) client_link_scheme) io" where
  "client_close s =
     (if shut s then (Inr (), s)
      else case client_send CLOSE (pack 2 1000) s of
        (Inl (Closed _), s1) \<Rightarrow> (Inr (), s1\<lparr>shut := True, arriving := []\<rparr>)
      | (Inl e, s1) \<Rightarrow> (Inl e, s1)
      | (Inr _, s1) \<Rightarrow> (Inr (), s1\<lparr>shut := True, arriving := []\<rparr>))"

subsection \<open>Receiving\<close>

text \<open>What the network still holds, a bound for the loops.\<close>

primrec weight :: "arrival \<Rightarrow> nat" where
  "weight (Piece c) = Suc (length c)"
| "weight (Broke e) = 1"
| "weight Time_Out = 1"

definition weights :: "arrival list \<Rightarrow> nat" where
  "weights q = sum_list (map weight q)"

lemma recv_weight: "recv most q = (r, q1) \<Longrightarrow> weights q1 + (case r of Inl _ \<Rightarrow> 0 | Inr c \<Rightarrow> length c) \<le> weights q"
  by (induction most q rule: recv.induct) (auto simp: weights_def split: if_splits)

lemma exact_from_weight:
  "exact_from n d q = (r, q1) \<Longrightarrow> weights q1 + (case r of Inl _ \<Rightarrow> 0 | Inr _ \<Rightarrow> n - length d) \<le> weights q"
proof (induction n d q rule: exact_from.induct)
  case (1 n d q)
  obtain x q2 where x: "recv (min 65536 (n - length d)) q = (x, q2)" by fastforce
  note now = "1.prems" [unfolded exact_from.simps [of n d q] x]
  show ?case
  proof (cases "n \<le> length d \<or> (\<exists>e. x = Inl e) \<or> x = Inr []")
    case True
    with now recv_weight [OF x] show ?thesis by (auto split: if_splits)
  next
    case False
    then obtain c where c: "x = Inr c" "c \<noteq> []" "\<not> n \<le> length d" by (cases x) auto
    with now have "exact_from n (d @ c) q2 = (r, q1)" by simp
    from "1.IH" [OF c(3) x [symmetric] c(1,2) this] recv_weight [OF x] c show ?thesis by (auto split: sum.splits)
  qed
qed

lemma server_exact_weight:
  "server_exact n s = (r, s1) \<Longrightarrow> weights (arriving s1) + (case r of Inl _ \<Rightarrow> 0 | Inr _ \<Rightarrow> n) \<le> weights (arriving s)"
  by (auto simp: server_exact_def split: prod.splits sum.splits dest!: exact_from_weight)

lemma buffer_until_weight:
  "buffer_until n b q = (r, b1, q1) \<Longrightarrow> length b1 + weights q1 \<le> length b + weights q \<and> (\<forall>u. r = Inr u \<longrightarrow> n \<le> length b1)"
proof (induction n b q rule: buffer_until.induct)
  case (1 n b q)
  obtain x q2 where x: "recv 65536 q = (x, q2)" by fastforce
  note now = "1.prems" [unfolded buffer_until.simps [of n b q] x]
  show ?case
  proof (cases "n \<le> length b \<or> (\<exists>e. x = Inl e) \<or> x = Inr []")
    case True
    with now recv_weight [OF x] show ?thesis by (auto split: if_splits)
  next
    case False
    then obtain c where c: "x = Inr c" "c \<noteq> []" "\<not> n \<le> length b" by (cases x) auto
    with now have "buffer_until n (b @ c) q2 = (r, b1, q1)" by simp
    from "1.IH" [OF c(3) x [symmetric] c(1,2) this] recv_weight [OF x] c show ?thesis by auto
  qed
qed

definition pending :: "('a) client_link_scheme \<Rightarrow> nat" where
  "pending s = length (buffered s) + weights (arriving s)"

lemma client_exact_weight: "client_exact n s = (r, s1) \<Longrightarrow> pending s1 + (case r of Inl _ \<Rightarrow> 0 | Inr _ \<Rightarrow> n) \<le> pending s"
  by (auto simp: client_exact_def pending_def split: prod.splits sum.splits dest!: buffer_until_weight)

lemma bind_io_Inr: "bind_io m f s = (Inr y, s2) \<longleftrightarrow> (\<exists>x s1. m s = (Inr x, s1) \<and> f x s1 = (Inr y, s2))"
  by (auto simp: bind_io_def split: prod.splits sum.splits)

lemma frame_length_le:
  assumes "\<And>n s r s1. exact n s = (Inr r, s1) \<Longrightarrow> (w s1 :: nat) \<le> w s" and "frame_length exact b s = (Inr n, s1)"
  shows "w s1 \<le> w s"
  using assms(2) by (auto simp: frame_length_def Let_def bind_io_Inr give_def dest: assms(1) split: if_splits)

lemma server_frame_weight:
  assumes "server_frame s = (Inr f, s1)"
  shows "weights (arriving s1) < weights (arriving s)"
proof -
  have le: "weights (arriving s1) + n \<le> weights (arriving s)" if "server_exact n s = (Inr r, s1)" for n s r and s1 :: "('a) link_scheme"
    using server_exact_weight [OF that] by simp
  obtain h sa n sb m sc p where "server_exact 2 s = (Inr h, sa)" "frame_length server_exact (last h) sa = (Inr n, sb)"
    "server_exact 4 sb = (Inr m, sc)" "server_exact n sc = (Inr p, s1)"
    using assms by (auto simp: server_frame_def Let_def bind_io_Inr fail_def give_def split: if_splits)
  with le [of 2 s h sa] frame_length_le [of server_exact "\<lambda>s. weights (arriving s)" "last h" sa n sb] le [of 4 sb m sc] le [of n sc p s1] le
  show ?thesis by fastforce
qed

lemma client_frame_weight:
  assumes "client_frame s = (Inr f, s1)"
  shows "pending s1 < pending s"
proof -
  have le: "pending s1 + n \<le> pending s" if "client_exact n s = (Inr r, s1)" for n s r and s1 :: "('a) client_link_scheme"
    using client_exact_weight [OF that] by simp
  obtain h sa n sb p where "client_exact 2 s = (Inr h, sa)" "frame_length client_exact (last h) sa = (Inr n, sb)" "client_exact n sb = (Inr p, s1)"
    using assms by (auto simp: client_frame_def Let_def bind_io_Inr fail_def give_def split: if_splits)
  with le [of 2 s h sa] frame_length_le [of client_exact pending "last h" sa n sb] le [of n sb p s1] le
  show ?thesis by fastforce
qed

lemma sendall_keeps: "sendall bs s = (r, s1) \<Longrightarrow> arriving s1 = arriving s"
  by (auto simp: sendall_def split: list.splits option.splits)

lemma server_send_keeps: "server_send opcode p s = (r, s1) \<Longrightarrow> arriving s1 = arriving s"
  by (auto simp: server_send_def dest: sendall_keeps split: if_splits)

lemma client_send_keeps: "client_send opcode p s = (r, s1) \<Longrightarrow> pending s1 = pending s"
  by (auto simp: client_send_def pending_def Let_def sendall_def split: if_splits list.splits option.splits)

text \<open>The loops of the two \<open>receive\<close>: \<open>kind\<close> and \<open>message\<close> are what earlier fragments brought.\<close>

function server_receive_from :: "byte option \<Rightarrow> bytes \<Rightarrow> (byte \<times> bytes, ('a) link_scheme) io" where
  "server_receive_from kind message s =
     (case server_frame s of (Inl e, s1) \<Rightarrow> (Inl e, s1)
      | (Inr (fin, opcode, payload), s1) \<Rightarrow>
          if opcode = PING then (case server_send PONG payload s1 of (Inl e, s2) \<Rightarrow> (Inl e, s2) | (Inr _, s2) \<Rightarrow> server_receive_from kind message s2)
          else if opcode = PONG then server_receive_from kind message s1
          else if opcode = CLOSE then bind_io (server_close 1000) (\<lambda>_. fail (Closed ''closed by the peer'')) s1
          else if opcode \<in> {TEXT, BINARY} \<and> kind \<noteq> None then (Inl (Protocol ''a new message started inside a fragmented one''), s1)
          else if opcode \<notin> {TEXT, BINARY, CONTINUATION} then (Inl (Protocol ''unknown opcode''), s1)
          else if opcode = CONTINUATION \<and> kind = None then (Inl (Protocol ''continuation without a message''), s1)
          else
            let kind1 = (if opcode = CONTINUATION then kind else Some opcode); message1 = message @ payload in
            if MAX_MESSAGE < length message1 then (Inl (Protocol ''message too large''), s1)
            else if fin then (Inr (the kind1, message1), s1)
            else server_receive_from kind1 message1 s1)"
  by pat_completeness auto

termination
proof (relation "measure (\<lambda>(kind, message, s). weights (arriving s))")
qed (auto dest!: server_send_keeps [OF sym] server_frame_weight [OF sym])

declare server_receive_from.simps [simp del]

definition server_receive :: "(byte \<times> bytes, ('a) link_scheme) io" where
  "server_receive = server_receive_from None []"

function client_receive_from :: "byte option \<Rightarrow> bytes \<Rightarrow> (byte \<times> bytes, ('a) client_link_scheme) io" where
  "client_receive_from kind message s =
     (case client_frame s of (Inl e, s1) \<Rightarrow> (Inl e, s1)
      | (Inr (fin, opcode, payload), s1) \<Rightarrow>
          if opcode = PING then (case client_send PONG payload s1 of (Inl e, s2) \<Rightarrow> (Inl e, s2) | (Inr _, s2) \<Rightarrow> client_receive_from kind message s2)
          else if opcode = PONG then client_receive_from kind message s1
          else if opcode = CLOSE then bind_io client_close (\<lambda>_. fail (Closed ''closed by the server'')) s1
          else if opcode \<notin> {TEXT, BINARY} \<and> (opcode \<noteq> CONTINUATION \<or> kind = None) then (Inl (Protocol ''unexpected frame''), s1)
          else
            let kind1 = (if opcode \<in> {TEXT, BINARY} then Some opcode else kind); message1 = message @ payload in
            if MAX_MESSAGE < length message1 then (Inl (Protocol ''message too large''), s1)
            else if fin then (Inr (the kind1, message1), s1)
            else client_receive_from kind1 message1 s1)"
  by pat_completeness auto

termination
proof (relation "measure (\<lambda>(kind, message, s). pending s)")
qed (auto dest!: client_send_keeps [OF sym] client_frame_weight [OF sym])

declare client_receive_from.simps [simp del]

definition client_receive :: "(byte \<times> bytes, ('a) client_link_scheme) io" where
  "client_receive = client_receive_from None []"

subsection \<open>The mask\<close>

lemma take_little: "take_bit 8 (from_little (b # bs)) = unat b"
proof -
  have "unat b < 256" using unsigned_less [of b] by simp
  then show ?thesis by (simp add: take_bit_eq_mod mod_mult_self2)
qed

lemma drop_little: "drop_bit 8 (from_little (b # bs)) = from_little bs"
proof -
  have "unat b < 256" using unsigned_less [of b] by simp
  then show ?thesis by (simp add: drop_bit_eq_div)
qed

lemma to_from_little: "to_little (length bs) (from_little bs) = bs"
proof (induction bs)
  case (Cons b bs)
  then show ?case using take_little [of b bs] drop_little [of b bs] by (simp add: take_bit_eq_mod drop_bit_eq_div del: from_little.simps)
qed simp

lemma xor_little: "length a = length b \<Longrightarrow> to_little (length a) (from_little a XOR from_little b) = map2 (XOR) a b"
proof (induction a b rule: list_induct2)
  case (Cons x a y b)
  have "(from_little (x # a) XOR from_little (y # b)) mod 256 = unat x XOR unat y"
    using take_bit_xor [of 8 "from_little (x # a)" "from_little (y # b)"]
    by (simp only: take_little) (simp add: take_bit_eq_mod)
  moreover have "(from_little (x # a) XOR from_little (y # b)) div 256 = from_little a XOR from_little b"
    using drop_bit_xor [of 8 "from_little (x # a)" "from_little (y # b)"]
    by (simp only: drop_little) (simp add: drop_bit_eq_div)
  moreover have "word_of_nat (unat x XOR unat y) = x XOR y" by (simp flip: unsigned_xor_eq)
  ultimately show ?case using Cons by (simp del: from_little.simps)
qed simp

lemma length_repeat1: "length (repeat1 n m) = n * length m"
  by (induction n) auto

lemma nth_repeat1: "length m = 4 \<Longrightarrow> i < 4 * n \<Longrightarrow> repeat1 n m ! i = m ! (i mod 4)"
proof (induction n arbitrary: i)
  case (Suc n)
  show ?case
  proof (cases "i < 4")
    case False
    then have "(i - 4) mod 4 = i mod 4" by (metis le_mod_geq not_less)
    with Suc False show ?thesis by (auto simp: nth_append)
  qed (use Suc in \<open>simp add: nth_append\<close>)
qed simp

text \<open>The XOR of two big integers is the mask of RFC 6455, byte by byte.\<close>

lemma ws_xor_bytes:
  assumes "length m = 4"
  shows "length (ws_xor p m) = length p" and "\<And>i. i < length p \<Longrightarrow> ws_xor p m ! i = p ! i XOR m ! (i mod 4)"
proof -
  let ?k = "take (length p) (repeat1 (length p div 4 + 1) m)"
  have "length p \<le> length (repeat1 (length p div 4 + 1) m)" by (simp add: length_repeat1 assms)
  then have k: "length p = length ?k" by simp
  then have x: "ws_xor p m = map2 (XOR) p ?k" using xor_little [OF k] by (simp add: ws_xor_def Let_def)
  then show "length (ws_xor p m) = length p" using k by simp
  fix i assume i: "i < length p"
  then have "?k ! i = m ! (i mod 4)" using nth_repeat1 [OF assms, of i "length p div 4 + 1"] by (simp del: repeat1.simps take_append)
  with x i k show "ws_xor p m ! i = p ! i XOR m ! (i mod 4)" by simp
qed

lemma ws_xor_twice: "length m = 4 \<Longrightarrow> ws_xor (ws_xor p m) m = p"
  by (rule nth_equalityI) (auto simp: ws_xor_bytes xor.assoc)

lemma length_to_little: "length (to_little k n) = k"
  by (induction k arbitrary: n) auto

lemma from_to_little: "n < 256 ^ k \<Longrightarrow> from_little (to_little k n) = n"
proof (induction k arbitrary: n)
  case (Suc k)
  have "unat (of_nat (n mod 256) :: byte) = n mod 256" by (simp add: unsigned_of_nat take_bit_eq_mod)
  with Suc show ?case by (simp add: less_mult_imp_div_less mult.commute)
qed simp

lemma unpack_pack: "n < 256 ^ k \<Longrightarrow> unpack (pack k n) = n"
  by (simp add: unpack_def pack_def from_to_little)

lemma length_pack [simp]: "length (pack k n) = k"
  by (simp add: pack_def length_to_little)

subsection \<open>Reading does not depend on how the network cuts the bytes\<close>

definition cut :: "bytes \<Rightarrow> arrival list \<Rightarrow> bool" where
  "cut bs q \<longleftrightarrow> (\<exists>cs. q = map Piece cs \<and> [] \<notin> set cs \<and> concat cs = bs)"

lemma recv_cut:
  assumes "cut bs q" "bs \<noteq> []" "0 < most"
  obtains c q1 where "recv most q = (Inr c, q1)" "c \<noteq> []" "length c \<le> most" "c = take (length c) bs" "cut (drop (length c) bs) q1"
proof -
  obtain cs where cs: "q = map Piece cs" "[] \<notin> set cs" "concat cs = bs" using assms(1) by (auto simp: cut_def)
  with assms(2) obtain c0 rest where c0: "cs = c0 # rest" by (cases cs) auto
  show thesis
  proof (cases "length c0 \<le> most")
    case True
    show thesis by (rule that [of c0 "map Piece rest"]) (use True cs c0 in \<open>auto simp: cut_def\<close>)
  next
    case False
    have "cut (drop most bs) (Piece (drop most c0) # map Piece rest)"
      unfolding cut_def by (rule exI [of _ "drop most c0 # rest"]) (use False cs c0 in auto)
    then show thesis by (intro that [of "take most c0" "Piece (drop most c0) # map Piece rest"]) (use False cs c0 assms(3) in auto)
  qed
qed

lemma exact_from_cut:
  "cut bs q \<Longrightarrow> n \<le> length d + length bs \<Longrightarrow> length d \<le> n \<Longrightarrow>
    \<exists>q1. exact_from n d q = (Inr (d @ take (n - length d) bs), q1) \<and> cut (drop (n - length d) bs) q1"
proof (induction n d q arbitrary: bs rule: exact_from.induct)
  case (1 n d q)
  show ?case
  proof (cases "n \<le> length d")
    case True
    with "1.prems" show ?thesis by (simp add: exact_from.simps [of n d q])
  next
    case False
    then have "0 < min 65536 (n - length d)" "bs \<noteq> []" using "1.prems" by auto
    then obtain c q1 where c: "recv (min 65536 (n - length d)) q = (Inr c, q1)" "c \<noteq> []" "length c \<le> min 65536 (n - length d)"
      "c = take (length c) bs" "cut (drop (length c) bs) q1" using recv_cut [OF "1.prems"(1)] by metis
    have "\<exists>q2. exact_from n (d @ c) q1 = (Inr ((d @ c) @ take (n - length (d @ c)) (drop (length c) bs)), q2) \<and>
        cut (drop (n - length (d @ c)) (drop (length c) bs)) q2"
      by (rule "1.IH" [OF False c(1) [symmetric] refl c(2) c(5)]) (use c "1.prems" in auto)
    moreover have "c @ take (n - length (d @ c)) (drop (length c) bs) = take (n - length d) bs"
    proof -
      have "n - length d = length c + (n - length (d @ c))" using c(3) by auto
      then have "take (n - length d) bs = take (length c + (n - length (d @ c))) bs" by (rule arg_cong)
      then show ?thesis unfolding take_add using c(4) by simp
    qed
    ultimately show ?thesis using False c(1,2,3) by (simp add: exact_from.simps [of n d q])
  qed
qed

lemma buffer_until_cut:
  "cut bs q \<Longrightarrow> n \<le> length b + length bs \<Longrightarrow>
    \<exists>j q1. buffer_until n b q = (Inr (), b @ take j bs, q1) \<and> n \<le> length (b @ take j bs) \<and> cut (drop j bs) q1"
proof (induction n b q arbitrary: bs rule: buffer_until.induct)
  case (1 n b q)
  show ?case
  proof (cases "n \<le> length b")
    case True
    with "1.prems" show ?thesis by (intro exI [of _ 0] exI [of _ q]) (simp add: buffer_until.simps [of n b q])
  next
    case False
    then have "bs \<noteq> []" using "1.prems" by auto
    then obtain c q1 where c: "recv 65536 q = (Inr c, q1)" "c \<noteq> []" "c = take (length c) bs" "cut (drop (length c) bs) q1"
      using recv_cut [OF "1.prems"(1), of 65536] by (metis zero_less_numeral)
    have "\<exists>j q2. buffer_until n (b @ c) q1 = (Inr (), (b @ c) @ take j (drop (length c) bs), q2) \<and>
        n \<le> length ((b @ c) @ take j (drop (length c) bs)) \<and> cut (drop j (drop (length c) bs)) q2"
    proof (rule "1.IH" [OF False c(1) [symmetric] refl c(2) c(4)])
      have "length c \<le> length bs" using c(3) by (metis length_take min.cobounded1)
      then show "n \<le> length (b @ c) + length (drop (length c) bs)" using "1.prems"(2) by simp
    qed
    then obtain j q2 where j: "buffer_until n (b @ c) q1 = (Inr (), (b @ c) @ take j (drop (length c) bs), q2)"
        "n \<le> length ((b @ c) @ take j (drop (length c) bs))" "cut (drop j (drop (length c) bs)) q2" by blast
    have "c @ take j (drop (length c) bs) = take (length c + j) bs" unfolding take_add using c(3) by simp
    with j False c(1,2) show ?thesis
      by (intro exI [of _ "length c + j"] exI [of _ q2]) (simp add: buffer_until.simps [of n b q] add.commute)
  qed
qed

text \<open>
  The interface of a reader: the next \<open>n\<close> bytes of the stream, and nothing else of the connection
  (\<open>view\<close>) changes. The two \<open>_exact\<close> provide it, the frames rest on it.
\<close>

locale byte_source =
  fixes exact :: "nat \<Rightarrow> (bytes, 's) io" and stream :: "bytes \<Rightarrow> 's \<Rightarrow> bool" and view :: "'s \<Rightarrow> 'v"
  assumes reads: "stream (b @ rest) s \<Longrightarrow> length b = n \<Longrightarrow> \<exists>s1. exact n s = (Inr b, s1) \<and> stream rest s1 \<and> view s1 = view s"
begin

lemma reads_number:
  assumes "stream (pack k n @ rest) s" "n < 256 ^ k"
  shows "\<exists>s1. bind_io (exact k) (\<lambda>b. give (unpack b)) s = (Inr n, s1) \<and> stream rest s1 \<and> view s1 = view s"
  using reads [OF assms(1), of k] assms(2) by (auto simp: bind_io_def give_def unpack_pack)

lemma reads_header:
  assumes s: "stream (header masked opcode n @ rest) s" and masked: "masked = 0 \<or> masked = 0x80" and n: "n < 2 ^ 64"
  shows "\<exists>second s1 s2. exact 2 s = (Inr [0x80 OR opcode, second], s1) \<and> second AND 0x80 = masked \<and>
    frame_length exact second s1 = (Inr n, s2) \<and> stream rest s2 \<and> view s2 = view s"
proof -
  define k where "k = (if n < 126 then n else if n < 65536 then 126 else 127)"
  define more where "more = (if n < 126 then [] else if n < 65536 then pack 2 n else pack 8 n)"
  have h: "header masked opcode n @ rest = [0x80 OR opcode, masked OR of_nat k] @ (more @ rest)"
    by (simp add: header_def k_def more_def)
  obtain s1 where s1: "exact 2 s = (Inr [0x80 OR opcode, masked OR of_nat k], s1)" "stream (more @ rest) s1" "view s1 = view s"
    using reads [of "[0x80 OR opcode, masked OR of_nat k]" "more @ rest" s 2] s h by auto
  have k128: "k < 128" by (simp add: k_def)
  then have k7: "take_bit 7 (of_nat k :: byte) = of_nat k" by (simp add: take_bit_of_nat take_bit_nat_eq_self)
  have low: "unat ((masked OR of_nat k) AND 0x7F) = k"
  proof -
    have "(masked OR of_nat k) AND 0x7F = take_bit 7 (masked OR (of_nat k :: byte))" by (simp add: take_bit_eq_mask mask_eq_exp_minus_1)
    also have "\<dots> = of_nat k" using masked k7 by (auto simp: take_bit_or)
    finally show ?thesis using k128 by (simp add: unsigned_of_nat take_bit_nat_eq_self)
  qed
  have "(of_nat k :: byte) AND 0x80 = 0"
  proof (rule bit_eqI)
    fix j
    have "bit (of_nat k :: byte) 7 = False" using k7 by (metis bit_take_bit_iff less_irrefl)
    moreover have "bit (0x80 :: byte) j \<longleftrightarrow> j = 7" using bit_exp_iff [of 7 j, where 'a = byte] by auto
    ultimately show "bit ((of_nat k :: byte) AND 0x80) j = bit (0 :: byte) j" by (auto simp: bit_simps)
  qed
  then have top: "(masked OR of_nat k) AND 0x80 = masked" using masked by (auto simp: bit.conj_disj_distrib2)
  have "\<exists>s2. frame_length exact (masked OR of_nat k) s1 = (Inr n, s2) \<and> stream rest s2 \<and> view s2 = view s1"
  proof (cases "n < 126")
    case True
    with s1(2) show ?thesis unfolding frame_length_def Let_def low by (simp add: k_def more_def give_def)
  next
    case False
    with s1(2) n show ?thesis unfolding frame_length_def Let_def low by (auto simp: k_def more_def intro!: reads_number)
  qed
  then obtain s2 where "frame_length exact (masked OR of_nat k) s1 = (Inr n, s2)" "stream rest s2" "view s2 = view s1" by blast
  with s1 top show ?thesis by (intro exI [of _ "masked OR of_nat k"] exI [of _ s1] exI [of _ s2]) simp
qed

end

definition server_stream :: "bytes \<Rightarrow> ('a) link_scheme \<Rightarrow> bool" where
  "server_stream bs s \<longleftrightarrow> cut bs (arriving s)"

definition server_view :: "('a) link_scheme \<Rightarrow> ('a) link_scheme" where
  "server_view s = s\<lparr>arriving := []\<rparr>"

interpretation site: byte_source server_exact server_stream "server_view :: ('a) link_scheme \<Rightarrow> _"
proof
  fix b rest n and s :: "('a) link_scheme"
  assume "server_stream (b @ rest) s" "length b = n"
  then show "\<exists>s1. server_exact n s = (Inr b, s1) \<and> server_stream rest s1 \<and> server_view s1 = server_view s"
    using exact_from_cut [of "b @ rest" "arriving s" n "[]"] by (auto simp: server_stream_def server_exact_def server_view_def)
qed

definition client_stream :: "bytes \<Rightarrow> ('a) client_link_scheme \<Rightarrow> bool" where
  "client_stream bs s \<longleftrightarrow> (\<exists>more. bs = buffered s @ more \<and> cut more (arriving s))"

definition client_view :: "('a) client_link_scheme \<Rightarrow> ('a) client_link_scheme" where
  "client_view s = s\<lparr>arriving := [], buffered := []\<rparr>"

interpretation worker: byte_source client_exact client_stream "client_view :: ('a) client_link_scheme \<Rightarrow> _"
proof
  fix b rest n and s :: "('a) client_link_scheme"
  assume st: "client_stream (b @ rest) s" and n: "length b = n"
  then obtain more where more: "b @ rest = buffered s @ more" "cut more (arriving s)" by (auto simp: client_stream_def)
  have "length (b @ rest) = length (buffered s) + length more" using more(1) by simp
  then obtain j q where j: "buffer_until n (buffered s) (arriving s) = (Inr (), buffered s @ take j more, q)"
    "n \<le> length (buffered s @ take j more)" "cut (drop j more) q" using buffer_until_cut [OF more(2), of n "buffered s"] n by auto
  have all: "(buffered s @ take j more) @ drop j more = b @ rest" using more(1) by simp
  have "take n (buffered s @ take j more) = b"
    using all j(2) n by (metis append_eq_conv_conj take_append diff_is_0_eq' take_0 append_Nil2)
  moreover have "rest = drop n (buffered s @ take j more) @ drop j more"
    using all j(2) n by (metis append_eq_conv_conj drop_append diff_is_0_eq' drop_0)
  ultimately show "\<exists>s1. client_exact n s = (Inr b, s1) \<and> client_stream rest s1 \<and> client_view s1 = client_view s"
    using j by (simp add: client_exact_def client_stream_def client_view_def)
qed

subsection \<open>A frame that one side sends is the frame the other reads\<close>

lemma first_byte:
  "opcode \<in> {TEXT, BINARY, CLOSE, PING, PONG} \<Longrightarrow>
    (0x80 OR opcode) AND 0x70 = 0 \<and> (0x80 OR opcode) AND 0x80 \<noteq> 0 \<and> (0x80 OR opcode) AND 0x0F = opcode"
  by (auto simp: TEXT_def BINARY_def CLOSE_def PING_def PONG_def)

definition control :: "byte \<Rightarrow> bool" where
  "control opcode \<longleftrightarrow> 8 \<le> unat opcode"

lemma server_reads_frame:
  assumes s: "server_stream (header 0x80 opcode (length p) @ m @ ws_xor p m @ rest) s" and op: "opcode \<in> {TEXT, BINARY, CLOSE, PING, PONG}"
    and m: "length m = 4" and p: "length p \<le> MAX_FRAME" "control opcode \<Longrightarrow> length p \<le> 125"
  shows "\<exists>s1. server_frame s = (Inr (True, opcode, p), s1) \<and> server_stream rest s1 \<and> server_view s1 = server_view s"
proof -
  have n: "length p < 2 ^ 64" using p(1) by (simp add: MAX_FRAME_def)
  obtain sec s1 s2 where h: "server_exact 2 s = (Inr [0x80 OR opcode, sec], s1)" "sec AND 0x80 = 0x80"
      "frame_length server_exact sec s1 = (Inr (length p), s2)" "server_stream (m @ ws_xor p m @ rest) s2" "server_view s2 = server_view s"
    using site.reads_header [OF s _ n] by metis
  obtain s3 where s3: "server_exact 4 s2 = (Inr m, s3)" "server_stream (ws_xor p m @ rest) s3" "server_view s3 = server_view s"
    using site.reads [OF h(4) m] h(5) by metis
  obtain s4 where s4: "server_exact (length p) s3 = (Inr (ws_xor p m), s4)" "server_stream rest s4" "server_view s4 = server_view s"
    using site.reads [OF s3(2), of "length p"] s3(3) by (metis ws_xor_bytes(1) [OF m])
  have "server_frame s = (Inr (True, opcode, p), s4)"
    unfolding server_frame_def bind_io_def h(1)
    using first_byte [OF op] h(2,3) s3(1) s4(1) p m by (auto simp: Let_def bind_io_def give_def control_def ws_xor_twice not_less)
  with s4 show ?thesis by blast
qed

lemma client_reads_frame:
  assumes s: "client_stream (header 0 opcode (length p) @ p @ rest) s" and op: "opcode \<in> {TEXT, BINARY, CLOSE, PING, PONG}"
    and p: "length p \<le> MAX_MESSAGE"
  shows "\<exists>s1. client_frame s = (Inr (True, opcode, p), s1) \<and> client_stream rest s1 \<and> client_view s1 = client_view s"
proof -
  have n: "length p < 2 ^ 64" using p(1) by (simp add: MAX_MESSAGE_def)
  obtain sec s1 s2 where h: "client_exact 2 s = (Inr [0x80 OR opcode, sec], s1)" "sec AND 0x80 = 0"
      "frame_length client_exact sec s1 = (Inr (length p), s2)" "client_stream (p @ rest) s2" "client_view s2 = client_view s"
    using worker.reads_header [OF s _ n] by metis
  obtain s3 where s3: "client_exact (length p) s2 = (Inr p, s3)" "client_stream rest s3" "client_view s3 = client_view s"
    using worker.reads [OF h(4) refl] h(5) by metis
  have "client_frame s = (Inr (True, opcode, p), s3)"
    unfolding client_frame_def bind_io_def h(1)
    using first_byte [OF op] h(2,3) s3(1) p by (auto simp: Let_def bind_io_def give_def)
  with s3 show ?thesis by blast
qed

subsection \<open>Whole conversations\<close>

text \<open>What the two sides say, the messages this makes, and the frames on the wire.\<close>

datatype said = Say_Text bytes | Say_Binary bytes | Say_Ping bytes

primrec client_say :: "said \<Rightarrow> (unit, ('a) client_link_scheme) io" where
  "client_say (Say_Text b) = client_send_text b"
| "client_say (Say_Binary b) = client_send_binary b"
| "client_say (Say_Ping b) = give ()"

primrec server_say :: "said \<Rightarrow> (unit, ('a) link_scheme) io" where
  "server_say (Say_Text b) = server_send_text b"
| "server_say (Say_Binary b) = server_send_binary b"
| "server_say (Say_Ping b) = server_ping b"

primrec said_frames :: "bool \<Rightarrow> nat \<Rightarrow> said \<Rightarrow> (byte \<times> bytes) list" where
  "said_frames pings k (Say_Text b) = [(TEXT, b)]"
| "said_frames pings k (Say_Binary b) = map (Pair BINARY) (pieces k b)"
| "said_frames pings k (Say_Ping b) = (if pings then [(PING, take 125 b)] else [])"

definition all_frames :: "bool \<Rightarrow> nat \<Rightarrow> said list \<Rightarrow> (byte \<times> bytes) list" where
  "all_frames pings k xs = concat (map (said_frames pings k) xs)"

fun masked_frames :: "(nat \<Rightarrow> bytes) \<Rightarrow> nat \<Rightarrow> (byte \<times> bytes) list \<Rightarrow> bytes list" where
  "masked_frames mk d [] = []"
| "masked_frames mk d ((opcode, p) # xs) = (header 0x80 opcode (length p) @ mk d @ ws_xor p (mk d)) # masked_frames mk (Suc d) xs"

definition plain_frames :: "(byte \<times> bytes) list \<Rightarrow> bytes list" where
  "plain_frames xs = map (\<lambda>(opcode, p). header 0 opcode (length p) @ p) xs"

definition data_frames :: "(byte \<times> bytes) list \<Rightarrow> (byte \<times> bytes) list" where
  "data_frames xs = filter (\<lambda>(opcode, p). opcode \<noteq> PING) xs"

definition pongs :: "(byte \<times> bytes) list \<Rightarrow> (byte \<times> bytes) list" where
  "pongs xs = map (\<lambda>(opcode, p). (PONG, p)) (filter (\<lambda>(opcode, p). opcode = PING) xs)"

text \<open>Messages are received until an error ends the connection, \<open>n\<close> at most.\<close>

fun drain :: "('m, 's) io \<Rightarrow> nat \<Rightarrow> 's \<Rightarrow> 'm list \<times> ws_error option \<times> 's" where
  "drain rcv 0 s = ([], None, s)"
| "drain rcv (Suc n) s =
     (case rcv s of (Inl e, s1) \<Rightarrow> ([], Some e, s1)
      | (Inr m, s1) \<Rightarrow> (case drain rcv n s1 of (ms, e, s2) \<Rightarrow> (m # ms, e, s2)))"

lemma pieces_concat: "concat (pieces k p) = p"
  by (induction k p rule: pieces.induct) (subst pieces.simps, simp)

lemma pieces_size: "0 < k \<Longrightarrow> q \<in> set (pieces k p) \<Longrightarrow> length q \<le> k"
  by (induction k p rule: pieces.induct) (subst (asm) (2) pieces.simps, auto split: if_splits)

lemma send_each_append: "send_each f (xs @ ys) = bind_io (send_each f xs) (\<lambda>_. send_each f ys)"
  by (induction xs) (auto simp: bind_io_def give_def fun_eq_iff split: prod.split sum.split)

lemma client_sends:
  "\<not> shut s \<Longrightarrow> faults s = [] \<Longrightarrow> send_each (\<lambda>(opcode, p). client_send opcode p) xs s =
    (Inr (), s\<lparr>sent := sent s @ masked_frames (masks s) (drawn s) xs, drawn := drawn s + length xs\<rparr>)"
  by (induction xs arbitrary: s) (auto simp: give_def bind_io_def client_send_def sendall_def Let_def)

lemma server_sends:
  "\<not> shut s \<Longrightarrow> faults s = [] \<Longrightarrow> send_each (\<lambda>(opcode, p). server_send opcode p) xs s = (Inr (), s\<lparr>sent := sent s @ plain_frames xs\<rparr>)"
  by (induction xs arbitrary: s) (auto simp: give_def bind_io_def server_send_def sendall_def plain_frames_def)

lemma bind_give: "bind_io m give = m"
  by (auto simp: bind_io_def give_def fun_eq_iff split: prod.split sum.split)

lemma send_each_map: "send_each f (map g xs) = send_each (\<lambda>x. f (g x)) xs"
  by (induction xs) auto

lemma send_each_concat:
  assumes "\<And>x. f x = send_each g (h x)"
  shows "send_each f xs = send_each g (concat (map h xs))"
  by (induction xs) (simp_all add: send_each_append assms)

lemma client_says:
  "send_each client_say xs = send_each (\<lambda>(opcode, p). client_send opcode p) (all_frames False CLIENT_PIECE xs)"
  unfolding all_frames_def
proof (rule send_each_concat)
  show "client_say x = send_each (\<lambda>(opcode, p). client_send opcode p) (said_frames False CLIENT_PIECE x)" for x :: said
    by (cases x) (simp_all add: bind_give send_each_map client_send_text_def client_send_binary_def)
qed

lemma server_says:
  "send_each server_say xs = send_each (\<lambda>(opcode, p). server_send opcode p) (all_frames True MAX_FRAME xs)"
  unfolding all_frames_def
proof (rule send_each_concat)
  show "server_say x = send_each (\<lambda>(opcode, p). server_send opcode p) (said_frames True MAX_FRAME x)" for x :: said
    by (cases x) (simp_all add: bind_give send_each_map server_send_text_def server_send_binary_def server_ping_def)
qed

lemma kinds: "TEXT \<noteq> PING" "BINARY \<noteq> PING" "TEXT \<noteq> PONG" "BINARY \<noteq> PONG" "TEXT \<noteq> CLOSE" "BINARY \<noteq> CLOSE" "TEXT \<noteq> CONTINUATION" "BINARY \<noteq> CONTINUATION"
  "PONG \<noteq> CLOSE" "\<not> control TEXT" "\<not> control BINARY"
  by (simp_all add: TEXT_def BINARY_def PING_def PONG_def CLOSE_def CONTINUATION_def control_def)

lemma cut_Nil: "cut [] q \<longleftrightarrow> q = []"
proof
  assume "cut [] q"
  then obtain cs where "q = map Piece cs" "[] \<notin> set cs" "\<forall>c \<in> set cs. c = []" by (auto simp: cut_def)
  then show "q = []" by (cases cs) auto
qed (simp add: cut_def)

lemma server_stream_end: "server_stream [] t \<Longrightarrow> fst (server_receive t) = Inl (Closed gone)"
  by (auto simp: server_receive_def server_receive_from.simps [of None "[]"] server_stream_def cut_Nil server_frame_def bind_io_def
      server_exact_def exact_from.simps)

lemma server_drains:
  assumes "\<forall>(opcode, p) \<in> set xs. opcode \<in> {TEXT, BINARY} \<and> length p \<le> MAX_FRAME" and "\<forall>d. length (mk d) = 4"
    and "server_stream (concat (masked_frames mk d xs)) t"
  shows "\<exists>t1. drain server_receive (Suc (length xs)) t = (xs, Some (Closed gone), t1)"
  using assms
proof (induction xs arbitrary: t d)
  case Nil
  obtain t1 where "server_receive t = (Inl (Closed gone), t1)"
    using server_stream_end [of t] Nil by (cases "server_receive t") auto
  then show ?case by simp
next
  case (Cons x xs)
  obtain opcode p where x: "x = (opcode, p)" by fastforce
  have op: "opcode \<in> {TEXT, BINARY}" and p: "length p \<le> MAX_FRAME" using Cons.prems(1) x by auto
  have s: "server_stream (header 0x80 opcode (length p) @ mk d @ ws_xor p (mk d) @ concat (masked_frames mk (Suc d) xs)) t"
    using Cons.prems(3) x by simp
  have "\<exists>t1. server_frame t = (Inr (True, opcode, p), t1) \<and> server_stream (concat (masked_frames mk (Suc d) xs)) t1 \<and> server_view t1 = server_view t"
    by (rule server_reads_frame [OF s]) (use op p Cons.prems(2) kinds in auto)
  then obtain t1 where t1: "server_frame t = (Inr (True, opcode, p), t1)" "server_stream (concat (masked_frames mk (Suc d) xs)) t1" by blast
  have "server_receive t = (Inr (opcode, p), t1)"
    using op p kinds t1(1)
    by (auto simp: server_receive_def server_receive_from.simps [of None "[]" t] MAX_FRAME_def MAX_MESSAGE_def Let_def)
  moreover obtain t2 where "drain server_receive (Suc (length xs)) t1 = (xs, Some (Closed gone), t2)"
    using Cons.IH [OF _ Cons.prems(2) t1(2)] Cons.prems(1) by auto
  ultimately show ?case by (simp add: x)
qed

lemma client_stream_end:
  "client_stream [] t \<Longrightarrow> \<exists>t1. client_receive t = (Inl (Closed gone), t1) \<and> sent t1 = sent t"
  by (auto simp: client_receive_def client_receive_from.simps [of None "[]"] client_stream_def cut_Nil client_frame_def bind_io_def
      client_exact_def buffer_until.simps)

lemma client_drains:
  assumes "\<forall>(opcode, p) \<in> set xs. opcode \<in> {TEXT, BINARY, PING} \<and> length p \<le> MAX_MESSAGE"
    and "client_stream (concat (plain_frames xs)) t" and "\<not> shut t" "faults t = []"
  shows "\<exists>t1. drain client_receive (Suc (length (data_frames xs))) t = (data_frames xs, Some (Closed gone), t1) \<and>
    sent t1 = sent t @ masked_frames (masks t) (drawn t) (pongs xs)"
  using assms
proof (induction xs arbitrary: t)
  case Nil
  then obtain t1 where "client_receive t = (Inl (Closed gone), t1)" "sent t1 = sent t" using client_stream_end [of t] by (auto simp: plain_frames_def)
  then show ?case by (simp add: data_frames_def pongs_def)
next
  case (Cons x xs)
  obtain opcode p where x: "x = (opcode, p)" by fastforce
  have op: "opcode \<in> {TEXT, BINARY, PING}" and p: "length p \<le> MAX_MESSAGE" using Cons.prems(1) x by auto
  have s: "client_stream (header 0 opcode (length p) @ p @ concat (plain_frames xs)) t" using Cons.prems(2) x by (simp add: plain_frames_def)
  have "\<exists>t1. client_frame t = (Inr (True, opcode, p), t1) \<and> client_stream (concat (plain_frames xs)) t1 \<and> client_view t1 = client_view t"
    by (rule client_reads_frame [OF s]) (use op p in auto)
  then obtain t1 where t1: "client_frame t = (Inr (True, opcode, p), t1)" "client_stream (concat (plain_frames xs)) t1"
    and v: "client_view t1 = client_view t" by blast
  have same: "sent t1 = sent t" "shut t1 = shut t" "faults t1 = faults t" "masks t1 = masks t" "drawn t1 = drawn t"
    using arg_cong [OF v, of sent] arg_cong [OF v, of shut] arg_cong [OF v, of faults] arg_cong [OF v, of masks] arg_cong [OF v, of drawn]
    by (simp_all add: client_view_def)
  show ?case
  proof (cases "opcode = PING")
    case True
    define t2 where "t2 = t1\<lparr>drawn := Suc (drawn t), sent := sent t @ [header 0x80 PONG (length p) @ masks t (drawn t) @ ws_xor p (masks t (drawn t))]\<rparr>"
    have "client_send PONG p t1 = (Inr (), t2)"
      using Cons.prems(3,4) same kinds by (simp add: client_send_def sendall_def Let_def t2_def)
    then have "client_receive t = client_receive t2"
      using t1(1) True by (simp add: client_receive_def client_receive_from.simps [of None "[]" t])
    moreover have "client_stream (concat (plain_frames xs)) t2" using t1(2) by (simp add: client_stream_def t2_def)
    ultimately show ?thesis
      using Cons.IH [of t2] Cons.prems same by (simp add: x True data_frames_def pongs_def t2_def)
  next
    case False
    have "client_receive t = (Inr (opcode, p), t1)"
      using op False p kinds t1(1) by (auto simp: client_receive_def client_receive_from.simps [of None "[]" t] Let_def)
    with Cons.IH [OF _ t1(2)] Cons.prems same False show ?thesis by (auto simp: x data_frames_def pongs_def)
  qed
qed

lemma all_frames_ok:
  assumes "\<forall>b. Say_Text b \<in> set xs \<longrightarrow> length b \<le> n" "0 < k" "k \<le> n" "125 \<le> n"
  shows "\<forall>(opcode, p) \<in> set (all_frames pings k xs). opcode \<in> {TEXT, BINARY} \<union> (if pings then {PING} else {}) \<and> length p \<le> n"
proof -
  have "opcode \<in> {TEXT, BINARY} \<union> (if pings then {PING} else {}) \<and> length p \<le> n"
    if "x \<in> set xs" "(opcode, p) \<in> set (said_frames pings k x)" for x opcode p
  proof (cases x)
    case (Say_Binary b)
    with that assms(2,3) pieces_size [OF assms(2), of p b] show ?thesis by auto
  qed (use that assms in \<open>auto split: if_splits\<close>)
  note one = this
  show ?thesis unfolding case_prod_beta
  proof
    fix y assume "y \<in> set (all_frames pings k xs)"
    then obtain x where "x \<in> set xs" "y \<in> set (said_frames pings k x)" unfolding all_frames_def by auto
    with one [of x "fst y" "snd y"] show "fst y \<in> {TEXT, BINARY} \<union> (if pings then {PING} else {}) \<and> length (snd y) \<le> n" by simp
  qed
qed


definition ex_worker :: client_link where
  "ex_worker = \<lparr>arriving = [], faults = [], sent = [], shut = False, buffered = [], masks = (\<lambda>_. [1, 2, 3, 4]), drawn = 0\<rparr>"

definition ex_end :: "bytes \<Rightarrow> link" where
  "ex_end bs = \<lparr>arriving = map (\<lambda>b. Piece [b]) bs, faults = [], sent = [], shut = False\<rparr>"

lemma cut_bytes: "cut bs (map (\<lambda>b. Piece [b]) bs)"
  unfolding cut_def by (rule exI [of _ "map (\<lambda>b. [b]) bs"]) auto



definition ex_reader :: "bytes \<Rightarrow> client_link" where
  "ex_reader bs = \<lparr>arriving = map (\<lambda>b. Piece [b]) bs, faults = [], sent = [], shut = False, buffered = [], masks = (\<lambda>_. [1, 2, 3, 4]), drawn = 0\<rparr>"

lemma ex_pong: "masked_frames (\<lambda>_. [1, 2, 3, 4]) 0 [(PONG, [7])] = [[0x8A, 0x81, 1, 2, 3, 4, 6]]"
  by (simp add: header_def ws_xor_def PONG_def)


subsection \<open>Any peer\<close>

lemma server_receive_bound:
  "server_receive_from kind message s = (Inr (k, m), s1) \<Longrightarrow> (case kind of None \<Rightarrow> True | Some c \<Rightarrow> c \<in> {TEXT, BINARY}) \<Longrightarrow>
    k \<in> {TEXT, BINARY} \<and> length m \<le> MAX_MESSAGE"
proof (induction kind message s rule: server_receive_from.induct)
  case (1 kind message s)
  obtain f s2 where f: "server_frame s = (f, s2)" by fastforce
  show ?case
  proof (cases f)
    case (Inl e)
    with "1.prems" f show ?thesis by (simp add: server_receive_from.simps [of kind message s])
  next
    case (Inr y)
    obtain fin opcode p where y: "y = (fin, opcode, p)" by (cases y) auto
    note frame = f [unfolded Inr y]
    note now = "1.prems"(1) [unfolded server_receive_from.simps [of kind message s] frame, simplified]
    note ih = "1.IH" [OF frame [symmetric] refl refl refl]
    consider (ping) "opcode = PING" | (pong) "opcode = PONG" | (close) "opcode = CLOSE" | (data) "opcode \<notin> {PING, PONG, CLOSE}" by blast
    then show ?thesis
    proof cases
      case ping
      obtain r s3 where r: "server_send PONG p s2 = (r, s3)" by fastforce
      with now ping obtain u where u: "r = Inr u" "server_receive_from kind message s3 = (Inr (k, m), s1)" by (cases r) auto
      from ih(1) [OF ping r [symmetric] u(1) u(2) "1.prems"(2)] show ?thesis .
    next
      case pong
      with now kinds have "server_receive_from kind message s2 = (Inr (k, m), s1)" by (auto simp: PONG_def PING_def)
      with ih(2) pong "1.prems"(2) show ?thesis by (simp add: PONG_def PING_def)
    next
      case close
      with now show ?thesis by (auto simp: bind_io_Inr fail_def CLOSE_def PONG_def PING_def)
    next
      case data
      define kind1 where "kind1 = (if opcode = CONTINUATION then kind else Some opcode)"
      have ok: "case kind1 of None \<Rightarrow> False | Some c \<Rightarrow> c \<in> {TEXT, BINARY}"
        using now data "1.prems"(2) by (auto simp: kind1_def split: if_splits option.splits)
      show ?thesis
      proof (cases fin)
        case True
        with now data ok show ?thesis by (auto simp: kind1_def Let_def split: if_splits option.splits)
      next
        case False
        with now data have "server_receive_from kind1 (message @ p) s2 = (Inr (k, m), s1)"
          by (auto simp: kind1_def Let_def split: if_splits)
        with ih(3) data now False ok show ?thesis by (auto simp: kind1_def Let_def split: if_splits option.splits)
      qed
    qed
  qed
qed

lemma client_receive_bound:
  "client_receive_from kind message s = (Inr (k, m), s1) \<Longrightarrow> (case kind of None \<Rightarrow> True | Some c \<Rightarrow> c \<in> {TEXT, BINARY}) \<Longrightarrow>
    k \<in> {TEXT, BINARY} \<and> length m \<le> MAX_MESSAGE"
proof (induction kind message s rule: client_receive_from.induct)
  case (1 kind message s)
  obtain f s2 where f: "client_frame s = (f, s2)" by fastforce
  show ?case
  proof (cases f)
    case (Inl e)
    with "1.prems" f show ?thesis by (simp add: client_receive_from.simps [of kind message s])
  next
    case (Inr y)
    obtain fin opcode p where y: "y = (fin, opcode, p)" by (cases y) auto
    note frame = f [unfolded Inr y]
    note now = "1.prems"(1) [unfolded client_receive_from.simps [of kind message s] frame, simplified]
    note ih = "1.IH" [OF frame [symmetric] refl refl refl]
    consider (ping) "opcode = PING" | (pong) "opcode = PONG" | (close) "opcode = CLOSE" | (data) "opcode \<notin> {PING, PONG, CLOSE}" by blast
    then show ?thesis
    proof cases
      case ping
      obtain r s3 where r: "client_send PONG p s2 = (r, s3)" by fastforce
      with now ping obtain u where u: "r = Inr u" "client_receive_from kind message s3 = (Inr (k, m), s1)" by (cases r) auto
      from ih(1) [OF ping r [symmetric] u(1) u(2) "1.prems"(2)] show ?thesis .
    next
      case pong
      with now kinds have "client_receive_from kind message s2 = (Inr (k, m), s1)" by (auto simp: PONG_def PING_def)
      with ih(2) pong "1.prems"(2) show ?thesis by (simp add: PONG_def PING_def)
    next
      case close
      with now show ?thesis by (auto simp: bind_io_Inr fail_def CLOSE_def PONG_def PING_def)
    next
      case data
      define kind1 where "kind1 = (if opcode \<in> {TEXT, BINARY} then Some opcode else kind)"
      have ok: "case kind1 of None \<Rightarrow> False | Some c \<Rightarrow> c \<in> {TEXT, BINARY}"
        using now data "1.prems"(2) by (auto simp: kind1_def split: if_splits option.splits)
      show ?thesis
      proof (cases fin)
        case True
        with now data ok show ?thesis by (auto simp: kind1_def Let_def split: if_splits option.splits)
      next
        case False
        with now data have "client_receive_from kind1 (message @ p) s2 = (Inr (k, m), s1)"
          by (auto simp: kind1_def Let_def split: if_splits)
        with ih(3) data now False ok show ?thesis by (auto simp: kind1_def Let_def split: if_splits option.splits)
      qed
    qed
  qed
qed

lemma recv_size: "recv most q = (Inr c, q1) \<Longrightarrow> length c \<le> most"
  by (cases "(most, q)" rule: recv.cases) (auto split: if_splits)

lemma exact_from_size: "exact_from n d q = (Inr b, q1) \<Longrightarrow> length d \<le> n \<Longrightarrow> length b = n"
proof (induction n d q rule: exact_from.induct)
  case (1 n d q)
  obtain x q2 where x: "recv (min 65536 (n - length d)) q = (x, q2)" by fastforce
  note now = "1.prems"(1) [unfolded exact_from.simps [of n d q] x]
  show ?case
  proof (cases "n \<le> length d \<or> (\<exists>e. x = Inl e) \<or> x = Inr []")
    case True
    with now "1.prems"(2) show ?thesis by (auto split: if_splits)
  next
    case False
    then obtain c where c: "x = Inr c" "c \<noteq> []" "\<not> n \<le> length d" by (cases x) auto
    with now have "exact_from n (d @ c) q2 = (Inr b, q1)" by simp
    moreover have "length c \<le> n - length d" using recv_size x c(1) by fastforce
    ultimately show ?thesis using "1.IH" [OF c(3) x [symmetric] c(1,2)] c(3) by simp
  qed
qed

lemma server_frame_sound:
  assumes "server_frame s = (Inr (fin, opcode, p), s1)"
  shows "length p \<le> MAX_FRAME \<and> (control opcode \<longrightarrow> fin \<and> length p \<le> 125) \<and> (\<exists>h s2. server_exact 2 s = (Inr h, s2) \<and> last h AND 0x80 \<noteq> 0)"
proof -
  have size: "length b = n" if "server_exact n s = (Inr b, s1)" for n b s and s1 :: "('a) link_scheme"
    using that by (auto simp: server_exact_def split: prod.splits dest!: exact_from_size)
  have xor: "length (ws_xor b m) = length b" for b m by (simp add: ws_xor_def Let_def length_to_little)
  show ?thesis
    using assms by (auto simp: server_frame_def Let_def bind_io_Inr fail_def give_def xor control_def dest!: size split: if_splits)
qed

text \<open>whatever a peer sends, a message either side receives is a text or a binary message of at most
  4 MiB; the site takes no frame above 1 MiB, no control frame that is fragmented or above 125 bytes
  and none without a mask; and every frame takes bytes off the connection, so the loops end.
\<close>

theorem any_peer_bounded:
  "(server_receive s = (Inr (k, m), s1) \<longrightarrow> k \<in> {TEXT, BINARY} \<and> length m \<le> MAX_MESSAGE) \<and>
    (client_receive t = (Inr (k, m), t1) \<longrightarrow> k \<in> {TEXT, BINARY} \<and> length m \<le> MAX_MESSAGE) \<and>
    (server_frame s = (Inr (fin, opcode, p), s1) \<longrightarrow>
      length p \<le> MAX_FRAME \<and> (control opcode \<longrightarrow> fin \<and> length p \<le> 125) \<and>
      (\<exists>h s2. server_exact 2 s = (Inr h, s2) \<and> last h AND 0x80 \<noteq> 0) \<and> weights (arriving s1) < weights (arriving s)) \<and>
    (client_frame t = (Inr (fin, opcode, p), t1) \<longrightarrow> pending t1 < pending t)"
  using server_receive_bound [of None "[]" s k m s1] client_receive_bound [of None "[]" t k m t1] server_frame_sound [of s fin opcode p s1]
    server_frame_weight [of s "(fin, opcode, p)" s1] client_frame_weight [of t "(fin, opcode, p)" t1]
  unfolding server_receive_def client_receive_def option.case by blast

definition ex_wire :: bytes where
  "ex_wire = header 0x80 TEXT (length [104 :: byte]) @ [1, 2, 3, 4] @ ws_xor [104] [1, 2, 3, 4] @ []"

theorem any_peer_bounded_witness:
  "\<exists>s1. server_frame (ex_end ex_wire) = (Inr (True, TEXT, [104]), s1) \<and> weights (arriving s1) < weights (arriving (ex_end ex_wire))"
proof -
  have "\<exists>s1. server_frame (ex_end ex_wire) = (Inr (True, TEXT, [104]), s1) \<and> server_stream [] s1 \<and> server_view s1 = server_view (ex_end ex_wire)"
  proof (rule server_reads_frame [where m = "[1, 2, 3, 4]" and opcode = TEXT and p = "[104]" and rest = "[]" and s = "ex_end ex_wire", folded ex_wire_def])
    show "server_stream ex_wire (ex_end ex_wire)" by (simp add: server_stream_def ex_end_def cut_bytes)
  qed (simp_all add: MAX_FRAME_def)
  then obtain s1 where s1: "server_frame (ex_end ex_wire) = (Inr (True, TEXT, [104]), s1)" by blast
  with any_peer_bounded [of "ex_end ex_wire" TEXT "[104]" s1 ex_worker ex_worker True TEXT "[104]"] show ?thesis by blast
qed

end
