(* ===== verification/Agent_Tasks.thy ===== *)
theory Agent_Tasks
  imports Chats One_Shot Py_Values
begin

section \<open>Agent tasks\<close>

text \<open>
  bananachat/db/agents.py: the tasks of the agents, their steps, the lanes of sub-agents, follow-up
  messages, kept sandboxes, transfers and workspace reads. A process that works on a task holds a
  lease (\<open>owner_token\<close> with a heartbeat); every write of the agent loop names its token. Readings of
  \<open>time.time()\<close> and of \<open>db.now()\<close> are arguments, in the order the code takes them.
\<close>

record agent_task =
  ta_id :: string
  ta_user :: string
  ta_title :: utext
  ta_prompt :: utext
  ta_status :: string
  ta_model :: "int option"
  ta_model_name :: string
  ta_swarm :: bool
  ta_sandbox :: "string option"
  ta_expires :: "stamp option"
  ta_owner :: "string option"
  ta_beat :: "epoch option"
  ta_stop :: int
  ta_runs :: int
  ta_steps :: int
  ta_calls :: int
  ta_in :: int
  ta_out :: int
  ta_summary :: utext
  ta_error :: utext
  ta_notice :: utext
  ta_created :: stamp
  ta_started :: "stamp option"
  ta_updated :: stamp
  ta_finished :: "stamp option"

record agent_step =
  ss_id :: int
  ss_task :: string
  ss_agent :: int
  ss_kind :: string
  ss_content :: utext
  ss_thinking :: utext
  ss_tool :: "string option"
  ss_args :: "utext option"
  ss_calls :: "utext option"
  ss_result :: "utext option"
  ss_status :: "string option"
  ss_in :: int
  ss_out :: int
  ss_duration :: int
  ss_created :: stamp

record agent_lane =
  ln_task :: string
  ln_agent :: int
  ln_title :: utext
  ln_instructions :: utext
  ln_status :: string
  ln_steps :: int
  ln_summary :: utext
  ln_created :: stamp
  ln_finished :: "stamp option"

record agent_message =
  gm_id :: int
  gm_task :: string
  gm_user :: "string option"
  gm_text :: utext
  gm_created :: stamp
  gm_consumed :: "stamp option"

record runtime_row =
  rt_key :: string
  rt_value :: string
  rt_at :: epoch

record model_cap =
  mc_model :: int
  mc_tools :: bool
  mc_names :: string
  mc_checked :: stamp

text \<open>
  \<open>people\<close> and \<open>catalog_ids\<close>: the rows of users and ai_models that the foreign keys name. \<open>agent_config\<close>: the
  row of agent_settings, and its document (\<open>None\<close>: a text that does not parse).
\<close>

record agents_db =
  people :: "string list"
  catalog_ids :: "int list"
  tasks :: "agent_task list"
  steps :: "agent_step list"
  next_step :: int
  lanes :: "agent_lane list"
  follow_ups :: "agent_message list"
  next_follow_up :: int
  runtime :: "runtime_row list"
  model_caps :: "model_cap list"
  agent_config :: "json option option"

datatype agent_error = Agents_Busy string | No_Task | Value_Error | Agents_Integrity

definition AGENT_LEASE_SECONDS :: epoch where "AGENT_LEASE_SECONDS = 60"

definition ACTIVE_STATES :: "string list" where
  "ACTIVE_STATES = [''queued'', ''running'', ''paused'']"

definition ENDED_STATES :: "string list" where
  "ENDED_STATES = [''finished'', ''failed'', ''stopped'', ''out_of_budget'', ''interrupted'']"

definition STEP_KINDS :: "string list" where
  "STEP_KINDS = [''user'', ''assistant'', ''tool'', ''notice'', ''error'', ''summary'']"

definition LANE_STATES :: "string list" where
  "LANE_STATES = [''queued'', ''running'', ''finished'', ''failed'', ''stopped'', ''out_of_budget'']"

definition MAX_TEXT :: nat where "MAX_TEXT = 200000"

definition agent_cutoff :: "epoch \<Rightarrow> epoch" where
  "agent_cutoff now = now - AGENT_LEASE_SECONDS"

subsection \<open>Tasks and their leases\<close>

text \<open>\<open>_ACTIVE_SQL\<close>; a heartbeat that is NULL compares as false.\<close>

definition live_task :: "epoch \<Rightarrow> agent_task \<Rightarrow> bool" where
  "live_task cutoff r \<longleftrightarrow> ta_status r \<in> set ACTIVE_STATES \<and> ta_owner r \<noteq> None \<and> (case ta_beat r of None \<Rightarrow> False | Some b \<Rightarrow> cutoff \<le> b)"

definition task_get :: "string \<Rightarrow> agents_db \<Rightarrow> agent_task option" where
  "task_get i db = (if i = [] \<or> 64 < length i then None else tbl_one (\<lambda>r. ta_id r = i) (tasks db))"

definition active_tasks :: "string option \<Rightarrow> epoch \<Rightarrow> agents_db \<Rightarrow> nat" where
  "active_tasks u now db =
     tbl_count (\<lambda>r. (case u of None \<Rightarrow> True | Some x \<Rightarrow> ta_user r = x) \<and> live_task (agent_cutoff now) r) (tasks db)"

definition check_capacity :: "string \<Rightarrow> int option \<Rightarrow> int \<Rightarrow> epoch \<Rightarrow> epoch \<Rightarrow> agents_db \<Rightarrow> agent_error option" where
  "check_capacity u max_user max_site n1 n2 db =
     (if (case max_user of None \<Rightarrow> False | Some m \<Rightarrow> m \<le> int (active_tasks (Some u) n1 db)) then Some (Agents_Busy ''user'')
      else if max_site \<le> int (active_tasks None n2 db) then Some (Agents_Busy ''site'') else None)"

definition plain_step :: "string \<Rightarrow> string \<Rightarrow> utext \<Rightarrow> stamp \<Rightarrow> agents_db \<Rightarrow> agents_db" where
  "plain_step i kind content t db =
     db\<lparr>steps := steps db @ [\<lparr>ss_id = next_step db, ss_task = i, ss_agent = 0, ss_kind = kind, ss_content = content, ss_thinking = [],
          ss_tool = None, ss_args = None, ss_calls = None, ss_result = None, ss_status = None, ss_in = 0, ss_out = 0, ss_duration = 0,
          ss_created = t\<rparr>], next_step := next_step db + 1\<rparr>"

text \<open>What is asked for: the id, the account, the texts, the model, whether a swarm, and the lease.\<close>

record new_task =
  nt_id :: string
  nt_user :: string
  nt_title :: utext
  nt_prompt :: utext
  nt_model :: "int option"
  nt_model_name :: string
  nt_swarm :: bool
  nt_token :: string

definition task_create :: "new_task \<Rightarrow> int option \<Rightarrow> int \<Rightarrow> stamp \<Rightarrow> epoch \<Rightarrow> epoch \<Rightarrow> epoch \<Rightarrow> agents_db \<Rightarrow> agent_error + agents_db" where
  "task_create q max_user max_site t n1 n2 n3 db =
     (case check_capacity (nt_user q) max_user max_site n1 n2 db of Some e \<Rightarrow> Inl e
      | None \<Rightarrow>
          if list_ex (\<lambda>r. ta_id r = nt_id q) (tasks db) \<or> nt_user q \<notin> set (people db) \<or>
            (case nt_model q of None \<Rightarrow> False | Some m \<Rightarrow> m \<notin> set (catalog_ids db)) then Inl Agents_Integrity
          else Inr (plain_step (nt_id q) ''user'' (take MAX_TEXT (nt_prompt q)) t
            (db\<lparr>tasks := tasks db @ [\<lparr>ta_id = nt_id q, ta_user = nt_user q, ta_title = take 200 (nt_title q), ta_prompt = take MAX_TEXT (nt_prompt q),
              ta_status = ''queued'', ta_model = nt_model q, ta_model_name = nt_model_name q, ta_swarm = nt_swarm q, ta_sandbox = None,
              ta_expires = None, ta_owner = Some (nt_token q), ta_beat = Some n3, ta_stop = 0, ta_runs = 1, ta_steps = 0, ta_calls = 0,
              ta_in = 0, ta_out = 0, ta_summary = [], ta_error = [], ta_notice = [], ta_created = t, ta_started = None, ta_updated = t,
              ta_finished = None\<rparr>]\<rparr>)))"

definition update_task :: "(agent_task \<Rightarrow> bool) \<Rightarrow> (agent_task \<Rightarrow> agent_task) \<Rightarrow> agents_db \<Rightarrow> agents_db" where
  "update_task p f db = db\<lparr>tasks := tbl_update p f (tasks db)\<rparr>"

definition beat_of :: "agent_task \<Rightarrow> epoch" where
  "beat_of r = (case ta_beat r of None \<Rightarrow> 0 | Some b \<Rightarrow> b)"

definition task_resume ::
  "string \<Rightarrow> string \<Rightarrow> int option \<Rightarrow> int \<Rightarrow> int option \<Rightarrow> string option \<Rightarrow> epoch \<Rightarrow> epoch \<Rightarrow> epoch \<Rightarrow> epoch \<Rightarrow> stamp \<Rightarrow> agents_db
    \<Rightarrow> agent_error + (bool \<times> agents_db)" where
  "task_resume i token max_user max_site model name n0 n1 n2 n3 t db =
     (case tbl_one (\<lambda>r. ta_id r = i) (tasks db) of
        None \<Rightarrow> Inl No_Task
      | Some r \<Rightarrow>
          if truthy (ta_owner r) \<and> agent_cutoff n0 \<le> beat_of r then Inr (False, db)
          else case check_capacity (ta_user r) max_user max_site n1 n2 db of Some e \<Rightarrow> Inl e
          | None \<Rightarrow>
              if (case model of None \<Rightarrow> False | Some m \<Rightarrow> m \<notin> set (catalog_ids db)) then Inl Agents_Integrity
              else Inr (True, update_task (\<lambda>x. ta_id x = i)
                (\<lambda>x. x\<lparr>ta_status := ''queued'', ta_owner := Some token, ta_beat := Some n3, ta_stop := 0, ta_runs := ta_runs x + 1,
                   ta_error := [], ta_notice := [], ta_finished := None, ta_updated := t,
                   ta_model := (case model of None \<Rightarrow> ta_model x | Some m \<Rightarrow> Some m),
                   ta_model_name := (case name of None \<Rightarrow> ta_model_name x | Some m \<Rightarrow> m)\<rparr>) db))"

definition owned_by :: "string \<Rightarrow> string \<Rightarrow> agent_task \<Rightarrow> bool" where
  "owned_by i token r \<longleftrightarrow> ta_id r = i \<and> ta_owner r = Some token"

definition owns :: "string \<Rightarrow> string \<Rightarrow> agents_db \<Rightarrow> bool" where
  "owns i token db \<longleftrightarrow> list_ex (owned_by i token) (tasks db)"

text \<open>An UPDATE of the task while the lease is held; whether it was.\<close>

definition with_lease :: "string \<Rightarrow> string \<Rightarrow> (agent_task \<Rightarrow> agent_task) \<Rightarrow> agents_db \<Rightarrow> bool \<times> agents_db" where
  "with_lease i token f db = (tbl_count (owned_by i token) (tasks db) = 1, update_task (owned_by i token) f db)"

definition set_status ::
  "string \<Rightarrow> string \<Rightarrow> string \<Rightarrow> utext option \<Rightarrow> bool \<Rightarrow> stamp \<Rightarrow> stamp \<Rightarrow> agents_db \<Rightarrow> agent_error + (bool \<times> agents_db)" where
  "set_status i token status notice started t1 t2 db =
     (if status \<notin> set ACTIVE_STATES then Inl Value_Error
      else Inr (with_lease i token (\<lambda>r. r\<lparr>ta_status := status, ta_updated := t1,
        ta_started := (if started then Some (case ta_started r of None \<Rightarrow> t2 | Some s \<Rightarrow> s) else ta_started r),
        ta_notice := (case notice of None \<Rightarrow> ta_notice r | Some n \<Rightarrow> take 500 n)\<rparr>) db))"

definition set_sandbox :: "string \<Rightarrow> string option \<Rightarrow> string option \<Rightarrow> stamp option \<Rightarrow> agents_db \<Rightarrow> bool \<times> agents_db" where
  "set_sandbox i token box until db =
     (case token of
        None \<Rightarrow> (tbl_count (\<lambda>r. ta_id r = i) (tasks db) = 1, update_task (\<lambda>r. ta_id r = i) (\<lambda>r. r\<lparr>ta_sandbox := box, ta_expires := until\<rparr>) db)
      | Some k \<Rightarrow> with_lease i k (\<lambda>r. r\<lparr>ta_sandbox := box, ta_expires := until\<rparr>) db)"

definition clear_sandbox :: "string \<Rightarrow> string \<Rightarrow> agents_db \<Rightarrow> agents_db" where
  "clear_sandbox i box db = update_task (\<lambda>r. ta_id r = i \<and> ta_sandbox r = Some box) (\<lambda>r. r\<lparr>ta_sandbox := None, ta_expires := None\<rparr>) db"

definition add_usage :: "string \<Rightarrow> string \<Rightarrow> int \<Rightarrow> int \<Rightarrow> int \<Rightarrow> int \<Rightarrow> stamp \<Rightarrow> agents_db \<Rightarrow> bool \<times> agents_db" where
  "add_usage i token n calls tin tout t db =
     with_lease i token (\<lambda>r. r\<lparr>ta_steps := ta_steps r + n, ta_calls := ta_calls r + calls, ta_in := ta_in r + max 0 tin,
       ta_out := ta_out r + max 0 tout, ta_updated := t\<rparr>) db"

definition task_finish ::
  "string \<Rightarrow> string \<Rightarrow> string \<Rightarrow> utext \<Rightarrow> utext \<Rightarrow> stamp option \<Rightarrow> stamp \<Rightarrow> agents_db \<Rightarrow> agent_error + (bool \<times> agents_db)" where
  "task_finish i token status summary err until t db =
     (if status \<notin> set ENDED_STATES then Inl Value_Error
      else Inr (with_lease i token (\<lambda>r. r\<lparr>ta_status := status, ta_summary := (if summary \<noteq> [] then take 50000 summary else ta_summary r),
        ta_error := take 1000 err, ta_notice := [], ta_owner := None, ta_beat := None, ta_stop := 0, ta_finished := Some t, ta_updated := t,
        ta_expires := (if ta_sandbox r \<noteq> None then until else None)\<rparr>) db))"

definition STOP_BY_OWNER :: int where "STOP_BY_OWNER = 1"
definition STOP_OF_ADMIN :: int where "STOP_OF_ADMIN = 2"

definition at_work :: "agent_task \<Rightarrow> bool" where
  "at_work r \<longleftrightarrow> ta_status r \<in> set ACTIVE_STATES \<and> ta_owner r \<noteq> None"

definition task_request_stop :: "string \<Rightarrow> bool \<Rightarrow> agents_db \<Rightarrow> bool \<times> agents_db" where
  "task_request_stop i admin db =
     (let p = (\<lambda>r. ta_id r = i \<and> at_work r) in
      (tbl_count p (tasks db) = 1, update_task p (\<lambda>r. r\<lparr>ta_stop := (if admin then STOP_OF_ADMIN else STOP_BY_OWNER)\<rparr>) db))"

definition stop_tasks_of :: "string \<Rightarrow> agents_db \<Rightarrow> string list \<times> agents_db" where
  "stop_tasks_of u db =
     (let p = (\<lambda>r. ta_user r = u \<and> at_work r) in
      (map ta_id (filter p (tasks db)), update_task p (\<lambda>r. r\<lparr>ta_stop := STOP_OF_ADMIN\<rparr>) db))"

definition workspaces_of_user :: "string \<Rightarrow> agents_db \<Rightarrow> (string \<times> string option) list" where
  "workspaces_of_user u db = map (\<lambda>r. (ta_id r, ta_sandbox r)) (filter (\<lambda>r. ta_user r = u) (tasks db))"

definition request_stop_all :: "agents_db \<Rightarrow> string list \<times> agents_db" where
  "request_stop_all db = (map ta_id (filter at_work (tasks db)), update_task at_work (\<lambda>r. r\<lparr>ta_stop := STOP_OF_ADMIN\<rparr>) db)"

definition lease_check :: "string \<Rightarrow> string \<Rightarrow> bool \<Rightarrow> epoch \<Rightarrow> agents_db \<Rightarrow> string option \<times> agents_db" where
  "lease_check i token renew now db =
     (case tbl_one (\<lambda>r. ta_id r = i) (tasks db) of
        None \<Rightarrow> (Some ''lease lost'', db)
      | Some r \<Rightarrow>
          if ta_owner r \<noteq> Some token then (Some ''lease lost'', db)
          else if ta_stop r \<noteq> 0 then (Some (if ta_stop r = STOP_OF_ADMIN then ''stopped by admin'' else ''stopped''), db)
          else (None, if renew then update_task (owned_by i token) (\<lambda>r. r\<lparr>ta_beat := Some now\<rparr>) db else db))"

definition stop_requested :: "string \<Rightarrow> agents_db \<Rightarrow> bool" where
  "stop_requested i db = (case tbl_one (\<lambda>r. ta_id r = i) (tasks db) of None \<Rightarrow> False | Some r \<Rightarrow> ta_stop r \<noteq> 0)"

definition is_stale :: "epoch \<Rightarrow> agent_task \<Rightarrow> bool" where
  "is_stale now r \<longleftrightarrow> truthy (ta_owner r) \<and> beat_of r < agent_cutoff now"

text \<open>\<open>service.is_active\<close>.\<close>

definition is_active :: "epoch \<Rightarrow> agent_task option \<Rightarrow> bool" where
  "is_active now r \<longleftrightarrow> (case r of None \<Rightarrow> False | Some x \<Rightarrow> ta_status x \<in> set ACTIVE_STATES \<and> truthy (ta_owner x) \<and> \<not> is_stale now x)"

definition recover_task :: "utext \<Rightarrow> string \<Rightarrow> stamp \<Rightarrow> stamp \<Rightarrow> string \<Rightarrow> agents_db \<Rightarrow> agents_db" where
  "recover_task err status until t i db =
     (let db1 = update_task (\<lambda>r. ta_id r = i) (\<lambda>r. r\<lparr>ta_status := status, ta_error := err, ta_notice := [], ta_owner := None, ta_beat := None,
            ta_stop := 0, ta_finished := Some t, ta_updated := t, ta_expires := (if ta_sandbox r \<noteq> None then Some until else None)\<rparr>) db;
          db2 = db1\<lparr>lanes := tbl_update (\<lambda>l. ln_task l = i \<and> ln_status l \<in> {''queued'', ''running''})
            (\<lambda>l. l\<lparr>ln_status := ''stopped'', ln_finished := Some t\<rparr>) (lanes db1)\<rparr>
      in plain_step i ''error'' err t db2)"

definition stale_tasks :: "string option \<Rightarrow> epoch \<Rightarrow> agents_db \<Rightarrow> string list" where
  "stale_tasks i now db =
     map ta_id (take 200 (filter (\<lambda>r. ta_owner r \<noteq> None \<and> (case ta_beat r of None \<Rightarrow> False | Some b \<Rightarrow> b < agent_cutoff now) \<and>
       (truthy i \<longrightarrow> Some (ta_id r) = i)) (tasks db)))"

definition recover_stale_tasks :: "stamp \<Rightarrow> utext \<Rightarrow> string \<Rightarrow> string option \<Rightarrow> epoch \<Rightarrow> stamp \<Rightarrow> agents_db \<Rightarrow> string list \<times> agents_db" where
  "recover_stale_tasks until err status i now t db =
     (let ids = stale_tasks i now db in (ids, fold (recover_task err status until t) ids db))"

definition tasks_newest :: "agent_task list \<Rightarrow> agent_task list" where
  "tasks_newest rs = sort_key (\<lambda>r. - ta_created r) (rev rs)"

definition tasks_of_user :: "string \<Rightarrow> nat \<Rightarrow> agents_db \<Rightarrow> agent_task list" where
  "tasks_of_user u limit db = take limit (tasks_newest (filter (\<lambda>r. ta_user r = u) (tasks db)))"

definition wanted_task :: "string option \<Rightarrow> string option \<Rightarrow> agent_task \<Rightarrow> bool" where
  "wanted_task status u r \<longleftrightarrow> (truthy status \<longrightarrow> Some (ta_status r) = status) \<and> (truthy u \<longrightarrow> Some (ta_user r) = u)"

definition all_tasks :: "string option \<Rightarrow> string option \<Rightarrow> nat \<Rightarrow> nat \<Rightarrow> agents_db \<Rightarrow> agent_task list" where
  "all_tasks status u limit offset db = take limit (drop offset (tasks_newest (filter (wanted_task status u) (tasks db))))"

definition count_tasks :: "string option \<Rightarrow> string option \<Rightarrow> agents_db \<Rightarrow> nat" where
  "count_tasks status u db = tbl_count (wanted_task status u) (tasks db)"

text \<open>DELETE of tasks, with the cascades to their steps, lanes and messages.\<close>

definition erase_tasks :: "(agent_task \<Rightarrow> bool) \<Rightarrow> agents_db \<Rightarrow> agents_db" where
  "erase_tasks p db =
     (let gone = ta_id ` set (filter p (tasks db)) in
      db\<lparr>tasks := tbl_delete p (tasks db), steps := tbl_delete (\<lambda>x. ss_task x \<in> gone) (steps db),
        lanes := tbl_delete (\<lambda>l. ln_task l \<in> gone) (lanes db), follow_ups := tbl_delete (\<lambda>m. gm_task m \<in> gone) (follow_ups db)\<rparr>)"

definition task_delete :: "string \<Rightarrow> agents_db \<Rightarrow> agents_db" where
  "task_delete i db = erase_tasks (\<lambda>r. ta_id r = i) db"

subsection \<open>Steps\<close>

text \<open>A step to store; \<open>ns_args\<close> and \<open>ns_calls\<close> are the JSON texts.\<close>

record new_step =
  ns_agent :: int
  ns_kind :: string
  ns_content :: utext
  ns_thinking :: utext
  ns_tool :: "string option"
  ns_args :: "utext option"
  ns_calls :: "utext option"
  ns_result :: "utext option"
  ns_status :: "string option"
  ns_in :: int
  ns_out :: int
  ns_duration :: int

definition step_row :: "string \<Rightarrow> new_step \<Rightarrow> stamp \<Rightarrow> int \<Rightarrow> agent_step" where
  "step_row i x t n =
     \<lparr>ss_id = n, ss_task = i, ss_agent = ns_agent x, ss_kind = ns_kind x, ss_content = take MAX_TEXT (ns_content x),
      ss_thinking = take 50000 (ns_thinking x), ss_tool = ns_tool x, ss_args = map_option (take MAX_TEXT) (ns_args x),
      ss_calls = map_option (take MAX_TEXT) (ns_calls x), ss_result = map_option (take 64000) (ns_result x), ss_status = ns_status x,
      ss_in = max 0 (ns_in x), ss_out = max 0 (ns_out x), ss_duration = max 0 (ns_duration x), ss_created = t\<rparr>"

definition add_step :: "string \<Rightarrow> string option \<Rightarrow> new_step \<Rightarrow> stamp \<Rightarrow> agents_db \<Rightarrow> agent_error + (int option \<times> agents_db)" where
  "add_step i token x t db =
     (let stored = db\<lparr>steps := steps db @ [step_row i x t (next_step db)], next_step := next_step db + 1\<rparr> in
      if ns_kind x \<notin> set STEP_KINDS then Inl Value_Error
      else case token of
        None \<Rightarrow> if \<not> list_ex (\<lambda>r. ta_id r = i) (tasks db) then Inl Agents_Integrity else Inr (Some (next_step db), stored)
      | Some k \<Rightarrow> if owns i k db then Inr (Some (next_step db), stored) else Inr (None, db))"

definition steps_after :: "string \<Rightarrow> int \<Rightarrow> nat \<Rightarrow> int option \<Rightarrow> agents_db \<Rightarrow> agent_step list" where
  "steps_after i after limit agent db =
     take limit (sort_key ss_id (filter (\<lambda>x. ss_task x = i \<and> after < ss_id x \<and> (case agent of None \<Rightarrow> True | Some a \<Rightarrow> ss_agent x = a)) (steps db)))"

definition step_size :: "agent_step \<Rightarrow> nat" where
  "step_size x = text_bytes (ss_content x) + text_bytes (ss_thinking x) +
     (\<Sum>c \<leftarrow> [ss_args x, ss_calls x, ss_result x]. case c of None \<Rightarrow> 0 | Some u \<Rightarrow> text_bytes u)"

definition step_page :: "string \<Rightarrow> int \<Rightarrow> nat \<Rightarrow> nat \<Rightarrow> agents_db \<Rightarrow> agent_step list \<times> bool" where
  "step_page i after limit most db =
     (let rows = steps_after i after (limit + 1) None db; page = fill step_size most False 0 (take limit rows)
      in (page, page \<noteq> [] \<and> length page < length rows))"

definition recent_steps :: "string \<Rightarrow> int \<Rightarrow> nat \<Rightarrow> agents_db \<Rightarrow> agent_step list" where
  "recent_steps i agent limit db = rev (take limit (rev (sort_key ss_id (filter (\<lambda>x. ss_task x = i \<and> ss_agent x = agent) (steps db)))))"

definition step_count :: "string \<Rightarrow> agents_db \<Rightarrow> nat" where
  "step_count i db = tbl_count (\<lambda>x. ss_task x = i) (steps db)"

subsection \<open>Lanes of sub-agents\<close>

definition next_lane_index :: "string \<Rightarrow> agents_db \<Rightarrow> int" where
  "next_lane_index i db = (case map ln_agent (filter (\<lambda>l. ln_task l = i) (lanes db)) of [] \<Rightarrow> 0 | a # rest \<Rightarrow> foldl max a rest) + 1"

definition add_lane :: "string \<Rightarrow> int \<Rightarrow> utext \<Rightarrow> utext \<Rightarrow> stamp \<Rightarrow> agents_db \<Rightarrow> agent_error + agents_db" where
  "add_lane i agent title instructions t db =
     (if list_ex (\<lambda>l. ln_task l = i \<and> ln_agent l = agent) (lanes db) \<or> \<not> list_ex (\<lambda>r. ta_id r = i) (tasks db) then Inl Agents_Integrity
      else Inr (db\<lparr>lanes := lanes db @ [\<lparr>ln_task = i, ln_agent = agent, ln_title = take 200 title, ln_instructions = take 20000 instructions,
        ln_status = ''queued'', ln_steps = 0, ln_summary = [], ln_created = t, ln_finished = None\<rparr>]\<rparr>))"

definition update_lane ::
  "string \<Rightarrow> int \<Rightarrow> string option \<Rightarrow> int option \<Rightarrow> utext option \<Rightarrow> stamp \<Rightarrow> agents_db \<Rightarrow> agent_error + agents_db" where
  "update_lane i agent status used summary t db =
     (if status \<noteq> None \<and> the status \<notin> set LANE_STATES then Inl Value_Error
      else
        let ended = status \<in> Some ` {''finished'', ''failed'', ''stopped'', ''out_of_budget''} in
        Inr (db\<lparr>lanes := tbl_update (\<lambda>l. ln_task l = i \<and> ln_agent l = agent)
          (\<lambda>l. l\<lparr>ln_status := (case status of None \<Rightarrow> ln_status l | Some s \<Rightarrow> s), ln_steps := (case used of None \<Rightarrow> ln_steps l | Some n \<Rightarrow> n),
             ln_summary := (case summary of None \<Rightarrow> ln_summary l | Some u \<Rightarrow> take 20000 u),
             ln_finished := (if ended then Some t else ln_finished l)\<rparr>) (lanes db)\<rparr>))"

definition lanes_of :: "string \<Rightarrow> agents_db \<Rightarrow> agent_lane list" where
  "lanes_of i db = sort_key ln_agent (filter (\<lambda>l. ln_task l = i) (lanes db))"

definition recent_lanes :: "string \<Rightarrow> nat \<Rightarrow> nat \<Rightarrow> agents_db \<Rightarrow> (agent_lane \<times> bool) list" where
  "recent_lanes i limit chars db =
     rev (take limit (rev (map (\<lambda>l. (l\<lparr>ln_summary := take chars (ln_summary l), ln_instructions := []\<rparr>, chars < length (ln_summary l))) (lanes_of i db))))"

subsection \<open>Follow-up messages\<close>

definition pending_messages :: "string \<Rightarrow> agents_db \<Rightarrow> nat" where
  "pending_messages i db = tbl_count (\<lambda>m. gm_task m = i \<and> gm_consumed m = None) (follow_ups db)"

definition queue_message :: "string \<Rightarrow> string \<Rightarrow> utext \<Rightarrow> int option \<Rightarrow> stamp \<Rightarrow> agents_db \<Rightarrow> agent_error + (int \<times> agents_db)" where
  "queue_message i u content most t db =
     (if (case most of None \<Rightarrow> False | Some n \<Rightarrow> n \<le> int (pending_messages i db)) then Inl (Agents_Busy ''messages'')
      else if \<not> list_ex (\<lambda>r. ta_id r = i) (tasks db) \<or> u \<notin> set (people db) then Inl Agents_Integrity
      else Inr (next_follow_up db, db\<lparr>follow_ups := follow_ups db @ [\<lparr>gm_id = next_follow_up db, gm_task = i, gm_user = Some u,
        gm_text = take 50000 content, gm_created = t, gm_consumed = None\<rparr>], next_follow_up := next_follow_up db + 1\<rparr>))"

definition waiting_messages :: "string \<Rightarrow> nat \<Rightarrow> agents_db \<Rightarrow> agent_message list" where
  "waiting_messages i limit db = take limit (sort_key gm_id (filter (\<lambda>m. gm_task m = i \<and> gm_consumed m = None) (follow_ups db)))"

definition consume :: "string \<Rightarrow> stamp \<Rightarrow> agent_message \<Rightarrow> agents_db \<Rightarrow> agents_db" where
  "consume i t m db =
     plain_step i ''user'' (gm_text m) t (db\<lparr>follow_ups := tbl_update (\<lambda>x. gm_id x = gm_id m) (\<lambda>x. x\<lparr>gm_consumed := Some t\<rparr>) (follow_ups db)\<rparr>)"

text \<open>The result is the messages; the code returns their texts.\<close>

definition take_messages :: "string \<Rightarrow> string \<Rightarrow> nat \<Rightarrow> stamp \<Rightarrow> agents_db \<Rightarrow> agent_message list \<times> agents_db" where
  "take_messages i token limit t db =
     (if \<not> owns i token db then ([], db)
      else let rows = waiting_messages i limit db in (rows, fold (consume i t) rows db))"

subsection \<open>Kept sandboxes and retention\<close>

definition kept_box :: "agent_task \<Rightarrow> bool" where
  "kept_box r \<longleftrightarrow> ta_sandbox r \<noteq> None \<and> ta_owner r = None \<and> ta_expires r \<noteq> None"

definition expired_sandboxes :: "stamp \<Rightarrow> nat \<Rightarrow> agents_db \<Rightarrow> (string \<times> string option) list" where
  "expired_sandboxes now limit db = map (\<lambda>r. (ta_id r, ta_sandbox r)) (take limit (filter (\<lambda>r. kept_box r \<and> the (ta_expires r) \<le> now) (tasks db)))"

definition take_kept_sandbox :: "agents_db \<Rightarrow> (string \<times> string \<times> stamp) option \<times> agents_db" where
  "take_kept_sandbox db =
     (case min_row (\<lambda>r. (the (ta_expires r), ta_id r)) (filter kept_box (tasks db)) of
        None \<Rightarrow> (None, db)
      | Some r \<Rightarrow>
          (Some (ta_id r, the (ta_sandbox r), the (ta_expires r)),
           update_task (\<lambda>x. ta_id x = ta_id r \<and> ta_sandbox x = ta_sandbox r \<and> ta_owner x = None) (\<lambda>x. x\<lparr>ta_sandbox := None, ta_expires := None\<rparr>) db))"

definition expire_sandbox_now :: "string \<Rightarrow> string \<Rightarrow> stamp \<Rightarrow> agents_db \<Rightarrow> bool \<times> agents_db" where
  "expire_sandbox_now i box t db =
     (let p = (\<lambda>r. ta_id r = i \<and> ta_sandbox r = Some box \<and> ta_owner r = None) in
      (tbl_count p (tasks db) = 1, update_task p (\<lambda>r. r\<lparr>ta_expires := Some t\<rparr>) db))"

definition forget_sandbox :: "string \<Rightarrow> agents_db \<Rightarrow> agents_db" where
  "forget_sandbox box db =
     update_task (\<lambda>r. ta_sandbox r = Some box \<and> ta_owner r = None) (\<lambda>r. r\<lparr>ta_sandbox := None, ta_expires := None\<rparr>) db"

definition give_back_kept_sandbox :: "string \<times> string \<times> stamp \<Rightarrow> stamp \<Rightarrow> agents_db \<Rightarrow> agents_db" where
  "give_back_kept_sandbox row t db =
     update_task (\<lambda>r. ta_id r = fst row \<and> ta_sandbox r = None \<and> ta_owner r = None)
       (\<lambda>r. r\<lparr>ta_sandbox := Some (fst (snd row)), ta_expires := Some t\<rparr>) db"

definition known_sandboxes :: "agents_db \<Rightarrow> (string \<times> string) list" where
  "known_sandboxes db = map (\<lambda>r. (the (ta_sandbox r), ta_id r)) (filter (\<lambda>r. ta_sandbox r \<noteq> None) (tasks db))"

definition old_task :: "stamp \<Rightarrow> agent_task \<Rightarrow> bool" where
  "old_task cutoff r \<longleftrightarrow> ta_owner r = None \<and> (case ta_finished r of None \<Rightarrow> ta_updated r | Some f \<Rightarrow> f) < cutoff"

definition old_tasks :: "stamp \<Rightarrow> nat \<Rightarrow> agents_db \<Rightarrow> (string \<times> string option) list" where
  "old_tasks cutoff limit db = map (\<lambda>r. (ta_id r, ta_sandbox r)) (take limit (filter (old_task cutoff) (tasks db)))"

definition delete_if_old :: "string \<Rightarrow> stamp \<Rightarrow> agents_db \<Rightarrow> bool \<times> agents_db" where
  "delete_if_old i cutoff db =
     (let p = (\<lambda>r. ta_id r = i \<and> old_task cutoff r) in (tbl_count p (tasks db) = 1, erase_tasks p db))"

subsection \<open>Transfers and reads of a workspace\<close>

definition TRANSFER_LEASE_SECONDS :: epoch where "TRANSFER_LEASE_SECONDS = 360"
definition READ_LEASE_SECONDS :: epoch where "READ_LEASE_SECONDS = 120"

text \<open>A token is hexadecimal, so its JSON text is the token in quotes.\<close>

definition quoted :: "string \<Rightarrow> string" where
  "quoted token = char_of (34 :: nat) # token @ [char_of (34 :: nat)]"

text \<open>INSERT .. ON CONFLICT(key) DO UPDATE.\<close>

definition put_runtime :: "string \<Rightarrow> string \<Rightarrow> epoch \<Rightarrow> agents_db \<Rightarrow> agents_db" where
  "put_runtime k v t db =
     db\<lparr>runtime := (if list_ex (\<lambda>r. rt_key r = k) (runtime db) then tbl_update (\<lambda>r. rt_key r = k) (\<lambda>r. r\<lparr>rt_value := v, rt_at := t\<rparr>) (runtime db)
       else runtime db @ [\<lparr>rt_key = k, rt_value = v, rt_at = t\<rparr>])\<rparr>"

definition slot_busy :: "string \<Rightarrow> epoch \<Rightarrow> epoch \<Rightarrow> agents_db \<Rightarrow> bool" where
  "slot_busy k now lease db \<longleftrightarrow> (case tbl_one (\<lambda>r. rt_key r = k) (runtime db) of None \<Rightarrow> False | Some r \<Rightarrow> now - rt_at r < lease)"

definition transfer_key :: "string \<Rightarrow> string" where
  "transfer_key u = ''agents:transfer:'' @ u"

definition claim_transfer :: "string \<Rightarrow> string \<Rightarrow> epoch \<Rightarrow> agents_db \<Rightarrow> bool \<times> agents_db" where
  "claim_transfer u token now db =
     (if slot_busy (transfer_key u) now TRANSFER_LEASE_SECONDS db then (False, db)
      else (True, put_runtime (transfer_key u) (quoted token) now db))"

definition renew_transfer :: "string \<Rightarrow> string \<Rightarrow> epoch \<Rightarrow> agents_db \<Rightarrow> bool \<times> agents_db" where
  "renew_transfer u token now db =
     (let p = (\<lambda>r. rt_key r = transfer_key u \<and> rt_value r = quoted token) in
      (tbl_count p (runtime db) = 1, db\<lparr>runtime := tbl_update p (\<lambda>r. r\<lparr>rt_at := now\<rparr>) (runtime db)\<rparr>))"

definition release_runtime :: "string \<Rightarrow> string \<Rightarrow> agents_db \<Rightarrow> agents_db" where
  "release_runtime k token db = db\<lparr>runtime := tbl_delete (\<lambda>r. rt_key r = k \<and> rt_value r = quoted token) (runtime db)\<rparr>"

definition release_transfer :: "string \<Rightarrow> string \<Rightarrow> agents_db \<Rightarrow> agents_db" where
  "release_transfer u token db = release_runtime (transfer_key u) token db"

definition read_key :: "string \<Rightarrow> nat \<Rightarrow> string" where
  "read_key u n = ''agents:read:'' @ u @ '':'' @ nat_text n"

fun first_free :: "string \<Rightarrow> nat list \<Rightarrow> epoch \<Rightarrow> agents_db \<Rightarrow> nat option" where
  "first_free u [] now db = None"
| "first_free u (n # ns) now db = (if slot_busy (read_key u n) now READ_LEASE_SECONDS db then first_free u ns now db else Some n)"

definition claim_workspace_read :: "string \<Rightarrow> int \<Rightarrow> string \<Rightarrow> epoch \<Rightarrow> agents_db \<Rightarrow> string option \<times> agents_db" where
  "claim_workspace_read u at_once token now db =
     (case first_free u [0..<nat (max 1 at_once)] now db of
        None \<Rightarrow> (None, db) | Some n \<Rightarrow> (Some (read_key u n), put_runtime (read_key u n) (quoted token) now db))"

definition release_workspace_read :: "string \<times> string \<Rightarrow> agents_db \<Rightarrow> agents_db" where
  "release_workspace_read lease db = release_runtime (fst lease) (snd lease) db"

subsection \<open>Capabilities, settings and imports\<close>

text \<open>\<open>names\<close> is the list joined with commas.\<close>

definition set_model_caps :: "int \<Rightarrow> bool \<Rightarrow> string \<Rightarrow> stamp \<Rightarrow> agents_db \<Rightarrow> agent_error + agents_db" where
  "set_model_caps m tools names t db =
     (if m \<notin> set (catalog_ids db) then Inl Agents_Integrity
      else Inr (db\<lparr>model_caps := (let row = \<lparr>mc_model = m, mc_tools = tools, mc_names = take 500 names, mc_checked = t\<rparr> in
        if list_ex (\<lambda>c. mc_model c = m) (model_caps db) then tbl_update (\<lambda>c. mc_model c = m) (\<lambda>_. row) (model_caps db)
        else model_caps db @ [row])\<rparr>))"

definition load_agent_settings :: "agents_db \<Rightarrow> (string \<times> json) list" where
  "load_agent_settings db = (case agent_config db of Some (Some (J_Object kvs)) \<Rightarrow> kvs | _ \<Rightarrow> [])"

definition save_agent_settings :: "(string \<times> json) list \<Rightarrow> agents_db \<Rightarrow> agents_db" where
  "save_agent_settings kvs db = db\<lparr>agent_config := Some (Some (J_Object kvs))\<rparr>"

text \<open>SQL's LIKE: an underscore stands for any character, and ASCII letters match in either case.\<close>

definition lower_point :: "nat \<Rightarrow> nat" where
  "lower_point c = (if 65 \<le> c \<and> c \<le> 90 then c + 32 else c)"

fun like_prefix :: "nat list \<Rightarrow> utext \<Rightarrow> bool" where
  "like_prefix [] u = True"
| "like_prefix (p # ps) [] = False"
| "like_prefix (p # ps) (c # cs) = ((p = 95 \<or> lower_point p = lower_point c) \<and> like_prefix ps cs)"

definition IMPORT_PREFIX :: utext where
  "IMPORT_PREFIX = [123, 34] @ map of_char ''key'' @ [34, 58, 32, 34] @ map of_char ''agents.notice_imported''"

definition import_record :: "string \<Rightarrow> agents_db \<Rightarrow> utext option" where
  "import_record i db =
     map_option ss_content (min_row (\<lambda>x. - ss_id x) (filter (\<lambda>x. ss_task x = i \<and> ss_agent x = 0 \<and> ss_kind x = ''notice'' \<and>
       like_prefix IMPORT_PREFIX (ss_content x)) (steps db)))"


subsection \<open>The operations as steps of a machine\<close>

datatype task_act =
  T_Create new_task "int option" int stamp epoch epoch epoch
| T_Resume string string "int option" int "int option" "string option" epoch epoch epoch epoch stamp
| T_Status string string string "utext option" bool stamp stamp
| T_Box string "string option" "string option" "stamp option"
| T_Clear string string
| T_Usage string string int int int int stamp
| T_Finish string string string utext utext "stamp option" stamp
| T_Stop string bool
| T_Stop_User string
| T_Stop_All
| T_Check string string bool epoch
| T_Recover stamp utext string "string option" epoch stamp
| T_Delete string
| T_Step string "string option" new_step stamp
| T_Lane string int utext utext stamp
| T_Lane_Update string int "string option" "int option" "utext option" stamp
| T_Message string string utext "int option" stamp
| T_Take string string nat stamp
| T_Kept
| T_Expire string string stamp
| T_Forget string
| T_Give_Back "string \<times> string \<times> stamp" stamp
| T_Purge string stamp
| T_Claim string string epoch
| T_Renew string string epoch
| T_Release string string
| T_Read string int string epoch
| T_Read_End "string \<times> string"

text \<open>What a step shows: a run that ended with its lease, messages taken, a transfer that was claimed.\<close>

datatype task_out = Shows_Nothing | Run_Ended string string | Messages "agent_message list" | Claimed string string

definition after1 :: "agents_db \<Rightarrow> 'e + agents_db \<Rightarrow> agents_db" where
  "after1 db r = (case r of Inl _ \<Rightarrow> db | Inr d \<Rightarrow> d)"

definition after2 :: "agents_db \<Rightarrow> 'e + 'a \<times> agents_db \<Rightarrow> agents_db" where
  "after2 db r = (case r of Inl _ \<Rightarrow> db | Inr (_, d) \<Rightarrow> d)"

primrec task_state :: "task_act \<Rightarrow> agents_db \<Rightarrow> agents_db" where
  "task_state (T_Create q mu ms t n1 n2 n3) db = after1 db (task_create q mu ms t n1 n2 n3 db)"
| "task_state (T_Resume i k mu ms m nm n0 n1 n2 n3 t) db = after2 db (task_resume i k mu ms m nm n0 n1 n2 n3 t db)"
| "task_state (T_Status i k s nt st t1 t2) db = after2 db (set_status i k s nt st t1 t2 db)"
| "task_state (T_Box i k b t) db = snd (set_sandbox i k b t db)"
| "task_state (T_Clear i b) db = clear_sandbox i b db"
| "task_state (T_Usage i k n c ti to1 t) db = snd (add_usage i k n c ti to1 t db)"
| "task_state (T_Finish i k s sm er un t) db = after2 db (task_finish i k s sm er un t db)"
| "task_state (T_Stop i b) db = snd (task_request_stop i b db)"
| "task_state (T_Stop_User u) db = snd (stop_tasks_of u db)"
| "task_state T_Stop_All db = snd (request_stop_all db)"
| "task_state (T_Check i k r n) db = snd (lease_check i k r n db)"
| "task_state (T_Recover un er s i n t) db = snd (recover_stale_tasks un er s i n t db)"
| "task_state (T_Delete i) db = task_delete i db"
| "task_state (T_Step i k x t) db = after2 db (add_step i k x t db)"
| "task_state (T_Lane i a x y t) db = after1 db (add_lane i a x y t db)"
| "task_state (T_Lane_Update i a s n x t) db = after1 db (update_lane i a s n x t db)"
| "task_state (T_Message i u c m t) db = after2 db (queue_message i u c m t db)"
| "task_state (T_Take i k n t) db = snd (take_messages i k n t db)"
| "task_state T_Kept db = snd (take_kept_sandbox db)"
| "task_state (T_Expire i b t) db = snd (expire_sandbox_now i b t db)"
| "task_state (T_Forget b) db = forget_sandbox b db"
| "task_state (T_Give_Back row t) db = give_back_kept_sandbox row t db"
| "task_state (T_Purge i t) db = snd (delete_if_old i t db)"
| "task_state (T_Claim u k n) db = snd (claim_transfer u k n db)"
| "task_state (T_Renew u k n) db = snd (renew_transfer u k n db)"
| "task_state (T_Release u k) db = release_transfer u k db"
| "task_state (T_Read u a k n) db = snd (claim_workspace_read u a k n db)"
| "task_state (T_Read_End l) db = release_workspace_read l db"

definition task_shows :: "task_act \<Rightarrow> agents_db \<Rightarrow> task_out" where
  "task_shows a db =
     (case a of
        T_Finish i k s sm er un t \<Rightarrow>
          (case task_finish i k s sm er un t db of Inr (True, _) \<Rightarrow> Run_Ended i k | _ \<Rightarrow> Shows_Nothing)
      | T_Take i k n t \<Rightarrow> Messages (fst (take_messages i k n t db))
      | T_Claim u k n \<Rightarrow> if fst (claim_transfer u k n db) then Claimed u k else Shows_Nothing
      | _ \<Rightarrow> Shows_Nothing)"

definition task_do :: "task_act \<Rightarrow> agents_db \<Rightarrow> task_out \<times> agents_db" where
  "task_do a db = (task_shows a db, task_state a db)"

subsection \<open>What a step does to the leases\<close>

definition lease_count :: "string \<times> string \<Rightarrow> agents_db \<Rightarrow> nat" where
  "lease_count key db = tbl_count (owned_by (fst key) (snd key)) (tasks db)"

fun issues_task :: "task_act \<Rightarrow> string \<times> string \<Rightarrow> bool" where
  "issues_task (T_Create q mu ms t n1 n2 n3) key = (key = (nt_id q, nt_token q))"
| "issues_task (T_Resume i k mu ms m nm n0 n1 n2 n3 t) key = (key = (i, k))"
| "issues_task a key = False"

definition ends_task :: "task_act \<Rightarrow> task_out \<Rightarrow> string \<times> string \<Rightarrow> bool" where
  "ends_task a r key \<longleftrightarrow> r = Run_Ended (fst key) (snd key)"

text \<open>
  Every step but the start of a run and the renewal of a lease is eased: rows may go, and a row that
  stays keeps its id and account, and its lease, unless it drops it; a row that is at work stays so.
\<close>

definition eased_row :: "agent_task \<Rightarrow> agent_task \<Rightarrow> bool" where
  "eased_row r r1 \<longleftrightarrow> ta_id r1 = ta_id r \<and> ta_user r1 = ta_user r \<and>
     (ta_owner r1 = None \<or>
      ta_owner r1 = ta_owner r \<and> ta_beat r1 = ta_beat r \<and> (ta_status r \<in> set ACTIVE_STATES \<longrightarrow> ta_status r1 \<in> set ACTIVE_STATES))"

definition eased :: "agents_db \<Rightarrow> agents_db \<Rightarrow> bool" where
  "eased db d \<longleftrightarrow> (\<exists>p f. tasks d = map f (filter p (tasks db)) \<and> (\<forall>r. eased_row r (f r)))"

lemma eased_row_refl [simp]: "eased_row r r"
  by (simp add: eased_row_def)

lemma eased_row_trans: "eased_row r s \<Longrightarrow> eased_row s t \<Longrightarrow> eased_row r t"
  by (auto simp: eased_row_def)

lemma eased_tasks: "tasks d = tasks db \<Longrightarrow> eased db d"
  unfolding eased_def by (rule exI [of _ "\<lambda>_. True"], rule exI [of _ id]) simp

lemma eased_trans: "eased a b \<Longrightarrow> eased b c \<Longrightarrow> eased a c"
proof -
  assume "eased a b" "eased b c"
  then obtain p f q g where e: "tasks b = map f (filter p (tasks a))" "\<forall>r. eased_row r (f r)" "tasks c = map g (filter q (tasks b))" "\<forall>r. eased_row r (g r)"
    by (auto simp: eased_def)
  have "tasks c = map (g \<circ> f) (filter (\<lambda>r. p r \<and> q (f r)) (tasks a))"
    using e(1,3) by (simp add: filter_map o_def conj_commute)
  moreover have "eased_row r ((g \<circ> f) r)" for r
    using eased_row_trans [of r "f r" "g (f r)"] e(2,4) by simp
  ultimately show ?thesis unfolding eased_def by blast
qed

lemma eased_update: "(\<And>r. p r \<Longrightarrow> eased_row r (f r)) \<Longrightarrow> eased db (update_task p f db)"
  unfolding eased_def
  by (rule exI [of _ "\<lambda>_. True"], rule exI [of _ "\<lambda>r. if p r then f r else r"]) (simp add: update_task_def tbl_update_def)

lemma eased_erase: "eased db (erase_tasks p db)"
  unfolding eased_def
  by (rule exI [of _ "\<lambda>r. \<not> p r"], rule exI [of _ id]) (simp add: erase_tasks_def Let_def tbl_delete_def)

lemma plain_step_tasks [simp]: "tasks (plain_step i kind c t db) = tasks db" "follow_ups (plain_step i kind c t db) = follow_ups db"
  "runtime (plain_step i kind c t db) = runtime db" "next_follow_up (plain_step i kind c t db) = next_follow_up db"
  by (simp_all add: plain_step_def)

lemma update_task_rest [simp]: "follow_ups (update_task p f db) = follow_ups db" "runtime (update_task p f db) = runtime db"
  "next_follow_up (update_task p f db) = next_follow_up db" "tasks (update_task p f db) = tbl_update p f (tasks db)"
  by (simp_all add: update_task_def)

lemma eased_recover: "eased db (fold (recover_task er s un t) ids db)"
proof (induction ids arbitrary: db)
  case (Cons i ids)
  have "eased db (recover_task er s un t i db)"
    unfolding recover_task_def Let_def
    by (rule eased_trans [OF eased_update eased_tasks]) (auto simp: eased_row_def)
  with Cons [of "recover_task er s un t i db"] show ?case by (auto intro: eased_trans)
qed (simp add: eased_tasks)

lemma consume_rest [simp]: "tasks (fold (consume i t) ms db) = tasks db" "runtime (fold (consume i t) ms db) = runtime db"
  "next_follow_up (fold (consume i t) ms db) = next_follow_up db"
  by (induction ms arbitrary: db) (auto simp: consume_def)

lemma runtime_rest [simp]: "tasks (put_runtime k v n db) = tasks db" "tasks (release_runtime k v db) = tasks db"
  "follow_ups (put_runtime k v n db) = follow_ups db" "follow_ups (release_runtime k v db) = follow_ups db"
  "next_follow_up (put_runtime k v n db) = next_follow_up db" "next_follow_up (release_runtime k v db) = next_follow_up db"
  by (simp_all add: put_runtime_def release_runtime_def)

definition starts_run :: "task_act \<Rightarrow> bool" where
  "starts_run a \<longleftrightarrow> (case a of T_Create q mu ms t n1 n2 n3 \<Rightarrow> True | T_Resume i k mu ms m nm n0 n1 n2 n3 t \<Rightarrow> True | T_Check i k r n \<Rightarrow> r | _ \<Rightarrow> False)"

lemmas task_op_defs = after1_def after2_def set_status_def with_lease_def set_sandbox_def clear_sandbox_def add_usage_def task_finish_def
  task_request_stop_def stop_tasks_of_def request_stop_all_def take_kept_sandbox_def expire_sandbox_now_def forget_sandbox_def
  give_back_kept_sandbox_def lease_check_def

lemma eased_state: "\<not> starts_run a \<Longrightarrow> eased db (task_state a db)"
proof (cases a)
  case (T_Recover un er s i n t)
  then show ?thesis using eased_recover by (simp add: recover_stale_tasks_def Let_def)
next
  case (T_Step i k x t)
  then show ?thesis by (auto simp: add_step_def Let_def after2_def intro!: eased_tasks split: option.splits)
next
  case (T_Lane i x y z t)
  then show ?thesis by (auto simp: add_lane_def after1_def intro!: eased_tasks)
next
  case (T_Lane_Update i x s n u t)
  then show ?thesis by (auto simp: update_lane_def after1_def Let_def intro!: eased_tasks)
next
  case (T_Message i u c m t)
  then show ?thesis by (auto simp: queue_message_def after2_def intro!: eased_tasks)
next
  case (T_Take i k n t)
  then show ?thesis by (auto simp: take_messages_def Let_def intro!: eased_tasks)
next
  case (T_Claim u k n)
  then show ?thesis by (auto simp: claim_transfer_def intro!: eased_tasks)
next
  case (T_Renew u k n)
  then show ?thesis by (auto simp: renew_transfer_def Let_def intro!: eased_tasks)
next
  case (T_Release u k)
  then show ?thesis by (auto simp: release_transfer_def intro!: eased_tasks)
next
  case (T_Read u x k n)
  then show ?thesis by (auto simp: claim_workspace_read_def intro!: eased_tasks split: option.splits)
next
  case (T_Read_End l)
  then show ?thesis by (auto simp: release_workspace_read_def intro!: eased_tasks)
next
  case (T_Delete i)
  then show ?thesis by (simp add: task_delete_def eased_erase)
next
  case (T_Purge i t)
  then show ?thesis by (simp add: delete_if_old_def Let_def eased_erase)
next
  case (T_Create q mu ms t n1 n2 n3)
  moreover assume "\<not> starts_run a"
  ultimately show ?thesis by (simp add: starts_run_def)
next
  case (T_Resume i k mu ms m nm n0 n1 n2 n3 t)
  moreover assume "\<not> starts_run a"
  ultimately show ?thesis by (simp add: starts_run_def)
qed (auto simp: task_op_defs starts_run_def Let_def eased_row_def eased_tasks intro!: eased_update split: option.splits)

lemma count_map_filter: "(\<And>r. q (f r) \<Longrightarrow> q r) \<Longrightarrow> tbl_count q (map f (filter p rs)) \<le> tbl_count q rs"
proof (induction rs)
  case (Cons r rs)
  then have "tbl_count q (map f (filter p rs)) \<le> tbl_count q rs" by blast
  with Cons.prems [of r] show ?case by (auto simp: tbl_simps)
qed (simp add: tbl_simps)

lemma eased_leases: "eased db d \<Longrightarrow> lease_count key d \<le> lease_count key db"
proof -
  assume "eased db d"
  then obtain p f where d: "tasks d = map f (filter p (tasks db))" and f: "\<And>r. eased_row r (f r)" by (auto simp: eased_def)
  have "owned_by (fst key) (snd key) r" if "owned_by (fst key) (snd key) (f r)" for r
    using that f [of r] by (auto simp: owned_by_def eased_row_def)
  then show ?thesis unfolding lease_count_def d by (rule count_map_filter)
qed

lemma lease_count_update:
  "(\<And>r. owned_by (fst key) (snd key) (f r) \<Longrightarrow> p r \<Longrightarrow> owned_by (fst key) (snd key) r) \<Longrightarrow>
    lease_count key (update_task p f db) \<le> lease_count key db"
  using count_map_filter [of "owned_by (fst key) (snd key)" "\<lambda>r. if p r then f r else r" "\<lambda>_. True" "tasks db"]
  by (simp add: lease_count_def tbl_update_def split: if_splits)

lemma leases_born: "\<not> issues_task a key \<Longrightarrow> lease_count key (task_state a db) \<le> lease_count key db"
proof (cases "starts_run a")
  case True
  moreover assume n: "\<not> issues_task a key"
  ultimately show ?thesis
  proof (cases a)
    case (T_Create q mu ms t n1 n2 n3)
    with n show ?thesis
      by (cases key) (auto simp: task_create_def after1_def lease_count_def tbl_count_def owned_by_def split: option.splits)
  next
    case (T_Resume i k mu ms m nm n0 n1 n2 n3 t)
    with n have "lease_count key (update_task (\<lambda>x. ta_id x = i) f db) \<le> lease_count key db"
      if "\<And>r. ta_id (f r) = ta_id r \<and> ta_owner (f r) = Some k" for f
      using that by (cases key, intro lease_count_update) (auto simp: owned_by_def)
    with T_Resume show ?thesis by (auto simp: task_resume_def after2_def split: option.splits)
  next
    case (T_Check i k r n)
    then show ?thesis by (auto simp: lease_check_def owned_by_def intro!: lease_count_update split: option.splits)
  qed (auto simp: starts_run_def)
qed (auto intro: eased_leases eased_state)

lemma leases_taken: "ends_task a (fst (task_do a db)) key \<Longrightarrow> lease_count key (task_state a db) < lease_count key db"
proof -
  assume e: "ends_task a (fst (task_do a db)) key"
  show ?thesis
  proof (cases a)
    case (T_Finish i k s sm er un t)
    with e have key: "key = (i, k)" and one: "tbl_count (owned_by i k) (tasks db) = 1"
      and "s \<in> set ENDED_STATES"
      by (auto simp: ends_task_def task_do_def task_shows_def task_finish_def with_lease_def prod_eq_iff split: sum.splits prod.splits if_splits bool.splits)
    have "tbl_count (owned_by i k) (tbl_update (owned_by i k) f (tasks db)) = 0" if "\<And>r. ta_owner (f r) = None" for f
      using that by (auto simp: tbl_count_def tbl_update_def filter_empty_conv owned_by_def)
    with T_Finish key one \<open>s \<in> set ENDED_STATES\<close> show ?thesis
      by (simp add: task_finish_def after2_def with_lease_def lease_count_def)
  qed (use e in \<open>auto simp: ends_task_def task_do_def task_shows_def split: if_splits\<close>)
qed

interpretation at: one_shot task_do lease_count issues_task ends_task
  using leases_born leases_taken by unfold_locales (simp_all add: task_do_def)

subsection \<open>A run that lost its lease\<close>

text \<open>The writes of the agent loop: each names the task and the token of its run.\<close>

fun names_lease :: "task_act \<Rightarrow> string \<times> string \<Rightarrow> bool" where
  "names_lease (T_Status i k s nt st t1 t2) key = (key = (i, k))"
| "names_lease (T_Box i k b t) key = (k \<noteq> None \<and> key = (i, the k))"
| "names_lease (T_Usage i k n c ti to1 t) key = (key = (i, k))"
| "names_lease (T_Finish i k s sm er un t) key = (key = (i, k))"
| "names_lease (T_Check i k r n) key = (key = (i, k))"
| "names_lease (T_Step i k x t) key = (k \<noteq> None \<and> key = (i, the k))"
| "names_lease (T_Take i k n t) key = (key = (i, k))"
| "names_lease a key = False"

lemma no_lease: "lease_count (i, k) db = 0 \<longleftrightarrow> (\<forall>r \<in> set (tasks db). \<not> owned_by i k r)"
  by (simp add: lease_count_def tbl_count_def filter_empty_conv)

lemma update_no_lease: "lease_count (i, k) db = 0 \<Longrightarrow> update_task (owned_by i k) f db = db"
  by (simp add: no_lease update_task_def)

lemma owns_no_lease: "lease_count (i, k) db = 0 \<Longrightarrow> \<not> owns i k db"
  by (auto simp: no_lease owns_def list_ex_iff)

lemma powerless: "lease_count (i, k) db = 0 \<Longrightarrow> names_lease a (i, k) \<Longrightarrow> task_state a db = db"
  by (cases a) (auto simp: after2_def set_status_def set_sandbox_def add_usage_def task_finish_def lease_check_def add_step_def
    take_messages_def with_lease_def update_no_lease owns_no_lease Let_def split: option.splits)

lemma lease_gone: "(\<And>r. ta_owner (f r) \<noteq> Some k) \<Longrightarrow> lease_count (i, k) (update_task (\<lambda>x. ta_id x = i) f db) = 0"
  by (auto simp: no_lease owned_by_def set_tbl_update)

lemma resumed_lease: "task_resume i k1 mu ms m nm n0 n1 n2 n3 t db = Inr (True, d) \<Longrightarrow> k \<noteq> k1 \<Longrightarrow> lease_count (i, k) d = 0"
  unfolding task_resume_def by (auto intro!: lease_gone split: option.split_asm if_split_asm)

lemma recover_task_lease: "lease_count (i, k) (recover_task er s un t i db) = 0"
proof -
  have "lease_count (i, k) (recover_task er s un t i db) = lease_count (i, k) (update_task (\<lambda>r. ta_id r = i) f db)"
    if "f = (\<lambda>r. r\<lparr>ta_status := s, ta_error := er, ta_notice := [], ta_owner := None, ta_beat := None,
            ta_stop := 0, ta_finished := Some t, ta_updated := t, ta_expires := (if ta_sandbox r \<noteq> None then Some un else None)\<rparr>)" for f
    by (simp add: that recover_task_def Let_def lease_count_def)
  then show ?thesis by (simp add: lease_gone)
qed

lemma recovered_lease: "i \<in> set ids \<Longrightarrow> lease_count (i, k) (fold (recover_task er s un t) ids db) = 0"
proof (induction ids arbitrary: db)
  case (Cons j ids)
  show ?case
  proof (cases "i = j")
    case True
    with eased_leases [OF eased_recover, of "(i, k)" er s un t ids "recover_task er s un t i db"] recover_task_lease [of i k er s un t db]
    show ?thesis by simp
  qed (use Cons in simp)
qed simp


text \<open>A site of one account and one model, and a task that its run holds.\<close>

definition agents_none :: agents_db where
  "agents_none = \<lparr>people = [''u''], catalog_ids = [1], tasks = [], steps = [], next_step = 1, lanes = [], follow_ups = [], next_follow_up = 1,
     runtime = [], model_caps = [], agent_config = None\<rparr>"

definition asked_task :: "string \<Rightarrow> string \<Rightarrow> new_task" where
  "asked_task i k = \<lparr>nt_id = i, nt_user = ''u'', nt_title = [], nt_prompt = [], nt_model = Some 1, nt_model_name = ''m'', nt_swarm = False, nt_token = k\<rparr>"

definition agents_one :: agents_db where
  "agents_one = task_state (T_Create (asked_task ''t'' ''k'') (Some 1) 1 0 0 0 0) agents_none"


subsection \<open>How many tasks work at once\<close>

definition leased :: "epoch \<Rightarrow> agent_task \<Rightarrow> bool" where
  "leased cutoff r \<longleftrightarrow> ta_owner r \<noteq> None \<and> (case ta_beat r of None \<Rightarrow> False | Some b \<Rightarrow> cutoff \<le> b)"

definition of_user :: "string option \<Rightarrow> agent_task \<Rightarrow> bool" where
  "of_user u r \<longleftrightarrow> (case u of None \<Rightarrow> True | Some x \<Rightarrow> ta_user r = x)"

definition wf_tasks :: "agents_db \<Rightarrow> bool" where
  "wf_tasks db \<longleftrightarrow> distinct (map ta_id (tasks db)) \<and> (\<forall>r \<in> set (tasks db). ta_owner r \<noteq> None \<longrightarrow> ta_status r \<in> set ACTIVE_STATES)"

definition held_tasks :: "string option \<Rightarrow> epoch \<Rightarrow> agents_db \<Rightarrow> nat" where
  "held_tasks u n db = tbl_count (\<lambda>r. of_user u r \<and> leased (agent_cutoff n) r) (tasks db)"

lemma active_held: "wf_tasks db \<Longrightarrow> active_tasks u n db = held_tasks u n db"
  by (auto simp: active_tasks_def held_tasks_def tbl_count_def wf_tasks_def live_task_def leased_def of_user_def
      intro!: arg_cong [where f = length] filter_cong)

lemma held_later: "n \<le> m \<Longrightarrow> held_tasks u m db \<le> held_tasks u n db"
  unfolding held_tasks_def by (rule tbl_count_mono) (auto simp: leased_def agent_cutoff_def split: option.splits)

lemma eased_held: "eased db d \<Longrightarrow> held_tasks u n d \<le> held_tasks u n db"
proof -
  assume "eased db d"
  then obtain p f where d: "tasks d = map f (filter p (tasks db))" and f: "\<And>r. eased_row r (f r)" by (auto simp: eased_def)
  have "of_user u r \<and> leased (agent_cutoff n) r" if "of_user u (f r) \<and> leased (agent_cutoff n) (f r)" for r
  proof -
    from that f [of r] have "ta_user (f r) = ta_user r" "ta_owner (f r) = ta_owner r" "ta_beat (f r) = ta_beat r"
      by (auto simp: leased_def eased_row_def)
    with that show ?thesis by (cases u) (simp_all add: of_user_def leased_def)
  qed
  then show ?thesis unfolding held_tasks_def d by (rule count_map_filter)
qed

lemma eased_wf: "eased db d \<Longrightarrow> wf_tasks db \<Longrightarrow> wf_tasks d"
proof -
  assume "eased db d" and wf: "wf_tasks db"
  then obtain p f where d: "tasks d = map f (filter p (tasks db))" and f: "\<And>r. eased_row r (f r)" by (auto simp: eased_def)
  have ids: "map ta_id (tasks d) = map ta_id (filter p (tasks db))" using f by (simp add: d eased_row_def)
  have "ta_status (f r) \<in> set ACTIVE_STATES" if "r \<in> set (tasks db)" "ta_owner (f r) \<noteq> None" for r
    using that f [of r] wf by (auto simp: eased_row_def wf_tasks_def)
  with wf show ?thesis unfolding wf_tasks_def ids by (auto simp: d distinct_map intro: inj_on_subset)
qed


text \<open>
  The clock readings of a step go forward, and a lease is renewed while it still counts: a process that
  renews a lease past its expiry takes back a place that another task may have taken in between.
\<close>

definition act_timed :: "epoch \<Rightarrow> task_act \<Rightarrow> agents_db \<Rightarrow> bool" where
  "act_timed n a db \<longleftrightarrow>
     (case a of
        T_Create q mu ms t n1 n2 n3 \<Rightarrow> n \<le> n1 \<and> n1 \<le> n2 \<and> n2 \<le> n3
      | T_Resume i k mu ms m nm n0 n1 n2 n3 t \<Rightarrow> n \<le> n0 \<and> n0 \<le> n1 \<and> n1 \<le> n2 \<and> n2 \<le> n3
      | T_Check i k r n1 \<Rightarrow> n \<le> n1 \<and> (\<forall>x \<in> set (tasks db). owned_by i k x \<longrightarrow> leased (agent_cutoff n1) x)
      | _ \<Rightarrow> True)"

definition act_clock :: "epoch \<Rightarrow> task_act \<Rightarrow> epoch" where
  "act_clock n a =
     (case a of T_Create q mu ms t n1 n2 n3 \<Rightarrow> n3 | T_Resume i k mu ms m nm n0 n1 n2 n3 t \<Rightarrow> n3 | T_Check i k r n1 \<Rightarrow> n1 | _ \<Rightarrow> n)"

text \<open>The limit a start was given, for the site (\<open>None\<close>) or for one account.\<close>

definition limit_given :: "string option \<Rightarrow> int \<Rightarrow> string list \<Rightarrow> int option \<Rightarrow> int \<Rightarrow> bool" where
  "limit_given u most who mu ms \<longleftrightarrow>
     (case u of None \<Rightarrow> ms \<le> most | Some x \<Rightarrow> x \<in> set who \<longrightarrow> (case mu of None \<Rightarrow> False | Some m \<Rightarrow> m \<le> most))"

definition act_limited :: "string option \<Rightarrow> int \<Rightarrow> task_act \<Rightarrow> agents_db \<Rightarrow> bool" where
  "act_limited u most a db \<longleftrightarrow>
     (case a of
        T_Create q mu ms t n1 n2 n3 \<Rightarrow> limit_given u most [nt_user q] mu ms
      | T_Resume i k mu ms m nm n0 n1 n2 n3 t \<Rightarrow> limit_given u most (map ta_user (filter (\<lambda>r. ta_id r = i) (tasks db))) mu ms
      | _ \<Rightarrow> True)"

fun run_timed :: "string option \<Rightarrow> int \<Rightarrow> epoch \<Rightarrow> task_act list \<Rightarrow> agents_db \<Rightarrow> bool" where
  "run_timed u most n [] db = True"
| "run_timed u most n (a # acts) db = (act_timed n a db \<and> act_limited u most a db \<and> run_timed u most (act_clock n a) acts (task_state a db))"

fun run_clock :: "epoch \<Rightarrow> task_act list \<Rightarrow> epoch" where
  "run_clock n [] = n"
| "run_clock n (a # acts) = run_clock (act_clock n a) acts"

lemma room_left:
  assumes "check_capacity v mu ms n1 n2 db = None" "limit_given u most [v] mu ms" "n1 \<le> n3" "n2 \<le> n3" "wf_tasks db" "of_user u r" "ta_user r = v"
  shows "int (held_tasks u n3 db) < most"
proof (cases u)
  case None
  have "int (active_tasks None n2 db) < ms" using assms(1) by (auto simp: check_capacity_def split: if_splits)
  with None assms held_later [OF assms(4), of u db] show ?thesis by (simp add: active_held limit_given_def)
next
  case (Some x)
  with assms obtain m where m: "mu = Some m" "m \<le> most" by (auto simp: limit_given_def of_user_def split: option.splits)
  have "int (active_tasks (Some v) n1 db) < m" using assms(1) m by (auto simp: check_capacity_def split: if_splits)
  with Some m assms held_later [OF assms(3), of u db] show ?thesis by (simp add: active_held of_user_def)
qed

lemma count_update_one:
  assumes "distinct (map key t)" "\<And>r. r \<in> set t \<Longrightarrow> key r = i \<Longrightarrow> q (f r) \<Longrightarrow> room"
  shows "tbl_count q (tbl_update (\<lambda>r. key r = i) f t) \<le> tbl_count q t + of_bool room"
  using assms
proof (induction t)
  case (Cons r t)
  show ?case
  proof (cases "key r = i")
    case True
    with Cons.prems(1) have "tbl_update (\<lambda>r. key r = i) f t = t" by (intro tbl_update_none) (force simp: image_iff)
    with True Cons.prems(2) [of r] show ?thesis by (auto simp: tbl_simps)
  next
    case False
    have "tbl_count q (tbl_update (\<lambda>r. key r = i) f t) \<le> tbl_count q t + of_bool room"
      using Cons.prems by (intro Cons.IH) auto
    with False show ?thesis by (simp add: tbl_simps)
  qed
qed (simp add: tbl_simps)

lemma create_held:
  assumes "wf_tasks db" "int (held_tasks u n db) \<le> most" "n \<le> n1" "n1 \<le> n2" "n2 \<le> n3" "limit_given u most [nt_user q] mu ms"
    and d: "task_create q mu ms t n1 n2 n3 db = Inr d"
  shows "int (held_tasks u n3 d) \<le> most \<and> wf_tasks d"
proof -
  have clocks: "n1 \<le> n3" "n2 \<le> n3" "n \<le> n3" using assms by auto
  from d have room: "check_capacity (nt_user q) mu ms n1 n2 db = None" and new: "\<forall>r \<in> set (tasks db). ta_id r \<noteq> nt_id q"
    and "\<exists>r. tasks d = tasks db @ [r] \<and> ta_id r = nt_id q \<and> ta_user r = nt_user q \<and> ta_status r = ''queued''"
    by (auto simp: task_create_def list_ex_iff split: option.splits if_splits)
  then obtain r where r: "tasks d = tasks db @ [r]" "ta_id r = nt_id q" "ta_user r = nt_user q" "ta_status r = ''queued''" by blast
  have "wf_tasks d" using assms(1) new r by (auto simp: wf_tasks_def ACTIVE_STATES_def)
  moreover have "int (held_tasks u n3 db) < most" if "of_user u r"
    using room_left [OF room assms(6) clocks(1,2) assms(1) that] r by simp
  then have "int (held_tasks u n3 d) \<le> most"
    using assms(2) held_later [OF clocks(3), of u db] by (cases "of_user u r") (auto simp: held_tasks_def r tbl_simps)
  ultimately show ?thesis by simp
qed

lemma resume_starts:
  assumes "task_resume i k mu ms m nm n0 n1 n2 n3 t db = Inr (True, d)"
  obtains r0 f where "tbl_one (\<lambda>r. ta_id r = i) (tasks db) = Some r0" "check_capacity (ta_user r0) mu ms n1 n2 db = None"
    "tasks d = tbl_update (\<lambda>r. ta_id r = i) f (tasks db)"
    "\<forall>r. ta_id (f r) = ta_id r \<and> ta_user (f r) = ta_user r \<and> ta_status (f r) = ''queued''"
proof (cases "tbl_one (\<lambda>r. ta_id r = i) (tasks db)")
  case None
  with assms show ?thesis by (simp add: task_resume_def)
next
  case (Some r0)
  then have room: "check_capacity (ta_user r0) mu ms n1 n2 db = None"
    using assms by (simp add: task_resume_def split: if_splits option.splits)
  let ?f = "\<lambda>x. x\<lparr>ta_status := ''queued'', ta_owner := Some k, ta_beat := Some n3, ta_stop := 0, ta_runs := ta_runs x + 1,
     ta_error := [], ta_notice := [], ta_finished := None, ta_updated := t,
     ta_model := (case m of None \<Rightarrow> ta_model x | Some m \<Rightarrow> Some m), ta_model_name := (case nm of None \<Rightarrow> ta_model_name x | Some m \<Rightarrow> m)\<rparr>"
  have "d = update_task (\<lambda>x. ta_id x = i) ?f db"
    using assms Some room by (simp add: task_resume_def split: if_split_asm)
  then show ?thesis using Some room by (intro that [of r0 ?f]) simp_all
qed

lemma resume_fails: "\<nexists>d. task_resume i k mu ms m nm n0 n1 n2 n3 t db = Inr (True, d) \<Longrightarrow> task_state (T_Resume i k mu ms m nm n0 n1 n2 n3 t) db = db"
  unfolding task_resume_def by (simp add: task_resume_def after2_def split: option.split_asm if_split_asm)

lemma resume_held:
  assumes wf: "wf_tasks db" and le: "int (held_tasks u n db) \<le> most" and "n \<le> n1" "n1 \<le> n2" "n2 \<le> n3"
    and lim: "limit_given u most (map ta_user (filter (\<lambda>r. ta_id r = i) (tasks db))) mu ms"
    and d: "task_resume i k mu ms m nm n0 n1 n2 n3 t db = Inr (True, d)"
  shows "int (held_tasks u n3 d) \<le> most \<and> wf_tasks d"
proof -
  have clocks: "n1 \<le> n3" "n2 \<le> n3" "n \<le> n3" using assms by auto
  from d obtain r0 f where r0: "tbl_one (\<lambda>r. ta_id r = i) (tasks db) = Some r0" "check_capacity (ta_user r0) mu ms n1 n2 db = None"
    and f: "tasks d = tbl_update (\<lambda>r. ta_id r = i) f (tasks db)"
      "\<forall>r. ta_id (f r) = ta_id r \<and> ta_user (f r) = ta_user r \<and> ta_status (f r) = ''queued''" by (rule resume_starts)
  have ids: "map ta_id (tasks d) = map ta_id (tasks db)" using f(2) by (simp add: f(1) tbl_update_def)
  have wf1: "wf_tasks d" using wf f(2) unfolding wf_tasks_def ids by (auto simp: f(1) set_tbl_update ACTIVE_STATES_def)
  have only: "r = r0" if "r \<in> set (tasks db)" "ta_id r = i" for r
    using that tbl_one_SomeD [OF r0(1)] wf by (auto simp: wf_tasks_def distinct_map inj_on_def)
  have "limit_given u most [ta_user r0] mu ms"
    using lim tbl_one_SomeD [OF r0(1)] by (cases u) (auto simp: limit_given_def)
  from room_left [OF r0(2) this clocks(1,2) wf, of r0] have room: "of_user u r0 \<Longrightarrow> int (held_tasks u n3 db) < most" by simp
  have "held_tasks u n3 d \<le> held_tasks u n3 db + of_bool (of_user u r0)"
    unfolding held_tasks_def f(1)
  proof (rule count_update_one)
    show "distinct (map ta_id (tasks db))" using wf by (simp add: wf_tasks_def)
    show "of_user u r0" if "r \<in> set (tasks db)" "ta_id r = i" "of_user u (f r) \<and> leased (agent_cutoff n3) (f r)" for r
      using that only [of r] f(2) by (cases u) (auto simp: of_user_def)
  qed
  with room le held_later [OF clocks(3), of u db] wf1 show ?thesis by (cases "of_user u r0") auto
qed

lemma renew_held:
  assumes wf: "wf_tasks db" and le: "int (held_tasks u n db) \<le> most" and clock: "n \<le> n1"
    and live: "\<And>x. x \<in> set (tasks db) \<Longrightarrow> owned_by i k x \<Longrightarrow> leased (agent_cutoff n1) x"
  shows "int (held_tasks u n1 (snd (lease_check i k r n1 db))) \<le> most \<and> wf_tasks (snd (lease_check i k r n1 db))"
proof -
  let ?f = "\<lambda>r. r\<lparr>ta_beat := Some n1\<rparr>"
  let ?d = "update_task (owned_by i k) ?f db" and ?q = "\<lambda>r. of_user u r \<and> leased (agent_cutoff n1) r"
  have ids: "map ta_id (tasks ?d) = map ta_id (tasks db)" by (simp add: tbl_update_def)
  have wf1: "wf_tasks ?d" using wf unfolding wf_tasks_def ids by (auto simp: set_tbl_update)
  have "held_tasks u n1 ?d = tbl_count (\<lambda>r. ?q (if owned_by i k r then ?f r else r)) (tasks db)"
    by (simp add: held_tasks_def tbl_count_def tbl_update_def filter_map o_def)
  also have "\<dots> \<le> held_tasks u n1 db"
    unfolding held_tasks_def using live by (intro tbl_count_mono) (cases u, auto simp: of_user_def split: if_splits)
  finally have "int (held_tasks u n1 ?d) \<le> most" "int (held_tasks u n1 db) \<le> most"
    using le held_later [OF clock, of u db] by linarith+
  then show ?thesis using wf wf1 by (simp add: lease_check_def split: option.split)
qed

lemma start_held:
  assumes wf: "wf_tasks db" and le: "int (held_tasks u n db) \<le> most" and ok: "act_timed n a db" "act_limited u most a db" "starts_run a"
  shows "int (held_tasks u (act_clock n a) (task_state a db)) \<le> most \<and> wf_tasks (task_state a db)"
proof (cases a)
  case (T_Create q mu ms t n1 n2 n3)
  with ok have c: "n \<le> n1" "n1 \<le> n2" "n2 \<le> n3" "limit_given u most [nt_user q] mu ms" by (auto simp: act_timed_def act_limited_def)
  with held_later [of n n3 u db] create_held [OF wf le c] T_Create wf le show ?thesis
    by (cases "task_create q mu ms t n1 n2 n3 db") (auto simp: after1_def act_clock_def)
next
  case (T_Resume i k mu ms m nm n0 n1 n2 n3 t)
  with ok have c: "n \<le> n1" "n1 \<le> n2" "n2 \<le> n3" "limit_given u most (map ta_user (filter (\<lambda>r. ta_id r = i) (tasks db))) mu ms"
    by (auto simp: act_timed_def act_limited_def)
  show ?thesis
  proof (cases "\<exists>d. task_resume i k mu ms m nm n0 n1 n2 n3 t db = Inr (True, d)")
    case True
    then obtain d where d: "task_resume i k mu ms m nm n0 n1 n2 n3 t db = Inr (True, d)" ..
    from resume_held [OF wf le c d] T_Resume d show ?thesis by (simp add: after2_def act_clock_def)
  next
    case False
    with resume_fails [OF False] held_later [of n n3 u db] T_Resume wf le c show ?thesis by (simp add: act_clock_def)
  qed
next
  case (T_Check i k r n1)
  with ok renew_held [OF wf le, of n1 i k r] show ?thesis by (simp add: act_timed_def act_clock_def)
qed (use ok in \<open>auto simp: starts_run_def\<close>)

lemma step_held:
  assumes "wf_tasks db" "int (held_tasks u n db) \<le> most" "act_timed n a db" "act_limited u most a db"
  shows "int (held_tasks u (act_clock n a) (task_state a db)) \<le> most \<and> wf_tasks (task_state a db)"
proof (cases "starts_run a")
  case False
  note e = eased_state [OF False, of db]
  have "n \<le> act_clock n a" using False assms(3) by (cases a) (auto simp: act_clock_def act_timed_def starts_run_def)
  with eased_held [OF e, of u "act_clock n a"] held_later [of n "act_clock n a" u db] eased_wf [OF e] assms show ?thesis by linarith
qed (use assms start_held in blast)

lemma run_held:
  "wf_tasks db \<Longrightarrow> int (held_tasks u n db) \<le> most \<Longrightarrow> run_timed u most n acts db \<Longrightarrow>
    int (held_tasks u (run_clock n acts) (snd (run_acts task_do acts db))) \<le> most \<and> wf_tasks (snd (run_acts task_do acts db))"
proof (induction acts arbitrary: n db)
  case (Cons a acts)
  with step_held [of db u n most a] have "int (held_tasks u (act_clock n a) (task_state a db)) \<le> most" "wf_tasks (task_state a db)" by auto
  with Cons show ?case by (simp add: task_do_def case_prod_beta)
qed simp

text \<open>C35: The capacity of the agents. In every run of steps whose clock readings go forward and whose leases
  are renewed before they expire, the tasks that count as active (an unexpired lease and an active
  status) stay within the limit every start was given: for the site, and for each account, at the end
  of the run and at every later time.\<close>

theorem agent_capacity:
  assumes "wf_tasks db" "run_timed u most n acts db" "int (active_tasks u n db) \<le> most" "run_clock n acts \<le> m"
  shows "int (active_tasks u m (snd (run_acts task_do acts db))) \<le> most"
proof -
  from run_held [OF assms(1) _ assms(2)] assms(1,3)
  have "int (held_tasks u (run_clock n acts) (snd (run_acts task_do acts db))) \<le> most" "wf_tasks (snd (run_acts task_do acts db))"
    by (simp_all add: active_held)
  with held_later [OF assms(4), of u "snd (run_acts task_do acts db)"] show ?thesis by (simp add: active_held)
qed

theorem agent_capacity_witness:
  "run_timed None 1 0 [T_Create (asked_task ''t'' ''k'') (Some 3) 1 5 1 2 3, T_Create (asked_task ''t2'' ''k2'') (Some 3) 1 6 4 4 4] agents_none \<and>
   int (active_tasks None 10 (snd (run_acts task_do
     [T_Create (asked_task ''t'' ''k'') (Some 3) 1 5 1 2 3, T_Create (asked_task ''t2'' ''k2'') (Some 3) 1 6 4 4 4] agents_none))) \<le> 1"
proof -
  let ?acts = "[T_Create (asked_task ''t'' ''k'') (Some 3) 1 5 1 2 3, T_Create (asked_task ''t2'' ''k2'') (Some 3) 1 6 4 4 4]"
  have run: "run_timed None 1 0 ?acts agents_none" by (simp add: act_timed_def act_limited_def act_clock_def limit_given_def)
  have "wf_tasks agents_none" "int (active_tasks None 0 agents_none) \<le> 1" "run_clock 0 ?acts \<le> 10"
    by (simp_all add: wf_tasks_def agents_none_def active_tasks_def tbl_simps act_clock_def)
  with agent_capacity [OF _ run] run show ?thesis by blast
qed

subsection \<open>One transfer per person\<close>

definition moves_runtime :: "task_act \<Rightarrow> bool" where
  "moves_runtime a \<longleftrightarrow> (case a of T_Claim u k n \<Rightarrow> True | T_Renew u k n \<Rightarrow> True | T_Release u k \<Rightarrow> True
     | T_Read u b k n \<Rightarrow> True | T_Read_End l \<Rightarrow> True | _ \<Rightarrow> False)"

lemma recover_runtime [simp]: "runtime (fold (recover_task er s un t) ids db) = runtime db"
  by (induction ids arbitrary: db) (simp_all add: recover_task_def Let_def)

lemma erase_runtime [simp]: "runtime (erase_tasks p db) = runtime db"
  by (simp add: erase_tasks_def Let_def)

lemma runtime_state: "\<not> moves_runtime a \<Longrightarrow> runtime (task_state a db) = runtime db"
  by (cases a) (simp_all add: moves_runtime_def task_op_defs Let_def task_create_def task_resume_def recover_stale_tasks_def add_step_def add_lane_def
    update_lane_def queue_message_def take_messages_def task_delete_def delete_if_old_def split: option.split)

lemma tbl_one_update_kept:
  "tbl_one p t = Some r \<Longrightarrow> (\<And>x. p (f x) = p x) \<Longrightarrow> tbl_one p (tbl_update q f t) = Some (if q r then f r else r)"
  by (induction t) (auto simp: tbl_simps split: if_splits)

lemma tbl_one_delete_kept: "tbl_one p t = Some r \<Longrightarrow> \<not> q r \<Longrightarrow> tbl_one p (tbl_delete q t) = Some r"
  by (induction t) (auto simp: tbl_simps split: if_splits)

definition transfer_row :: "string \<Rightarrow> string \<Rightarrow> epoch \<Rightarrow> agents_db \<Rightarrow> bool" where
  "transfer_row u k h db \<longleftrightarrow>
     (\<exists>r. tbl_one (\<lambda>r. rt_key r = transfer_key u) (runtime db) = Some r \<and> rt_value r = quoted k \<and> rt_at r = h)"

lemma quoted_inj [simp]: "quoted a = quoted b \<longleftrightarrow> a = b"
  by (simp add: quoted_def)

lemma keys_apart [simp]: "transfer_key u = transfer_key v \<longleftrightarrow> u = v" "read_key v n \<noteq> transfer_key u" "transfer_key u \<noteq> read_key v n"
  by (simp_all add: transfer_key_def read_key_def)

lemma put_own: "transfer_row u k n (put_runtime (transfer_key u) (quoted k) n db)"
proof (cases "list_ex (\<lambda>r. rt_key r = transfer_key u) (runtime db)")
  case True
  then have "tbl_one (\<lambda>r. rt_key r = transfer_key u) (runtime db) \<noteq> None"
    by (auto simp: tbl_one_def list_ex_iff find_None_iff)
  then obtain r where r: "tbl_one (\<lambda>r. rt_key r = transfer_key u) (runtime db) = Some r" by blast
  from tbl_one_update_kept [OF r, of "\<lambda>r. r\<lparr>rt_value := quoted k, rt_at := n\<rparr>" "\<lambda>r. rt_key r = transfer_key u"] tbl_one_SomeD [OF r] True
  show ?thesis by (simp add: transfer_row_def put_runtime_def)
next
  case False
  then have "tbl_one (\<lambda>r. rt_key r = transfer_key u) (runtime db) = None"
    by (auto simp: tbl_one_def list_ex_iff find_None_iff)
  with False show ?thesis by (simp add: transfer_row_def put_runtime_def tbl_one_append tbl_simps)
qed

lemma put_other: "transfer_row u k h db \<Longrightarrow> key \<noteq> transfer_key u \<Longrightarrow> transfer_row u k h (put_runtime key v n db)"
proof -
  assume "transfer_row u k h db" and key: "key \<noteq> transfer_key u"
  then obtain r where r: "tbl_one (\<lambda>r. rt_key r = transfer_key u) (runtime db) = Some r" "rt_value r = quoted k" "rt_at r = h"
    by (auto simp: transfer_row_def)
  from tbl_one_update_kept [OF r(1), of "\<lambda>r. r\<lparr>rt_value := v, rt_at := n\<rparr>" "\<lambda>r. rt_key r = key"] tbl_one_SomeD [OF r(1)] r key
  show ?thesis by (simp add: transfer_row_def put_runtime_def tbl_one_append)
qed

lemma release_other: "transfer_row u k h db \<Longrightarrow> key \<noteq> transfer_key u \<or> v \<noteq> k \<Longrightarrow> transfer_row u k h (release_runtime key v db)"
proof -
  assume "transfer_row u k h db" and key: "key \<noteq> transfer_key u \<or> v \<noteq> k"
  then obtain r where r: "tbl_one (\<lambda>r. rt_key r = transfer_key u) (runtime db) = Some r" "rt_value r = quoted k" "rt_at r = h"
    by (auto simp: transfer_row_def)
  from tbl_one_delete_kept [OF r(1), of "\<lambda>r. rt_key r = key \<and> rt_value r = quoted v"] tbl_one_SomeD [OF r(1)] r key
  show ?thesis by (auto simp: transfer_row_def release_runtime_def)
qed

lemma renew_kept: "transfer_row u k h db \<Longrightarrow> transfer_row u k (if v = u \<and> j = k then n else h) (snd (renew_transfer v j n db))"
proof -
  assume "transfer_row u k h db"
  then obtain r where r: "tbl_one (\<lambda>r. rt_key r = transfer_key u) (runtime db) = Some r" "rt_value r = quoted k" "rt_at r = h"
    by (auto simp: transfer_row_def)
  from tbl_one_update_kept [OF r(1), of "\<lambda>r. r\<lparr>rt_at := n\<rparr>" "\<lambda>r. rt_key r = transfer_key v \<and> rt_value r = quoted j"] tbl_one_SomeD [OF r(1)] r
  show ?thesis by (simp add: transfer_row_def renew_transfer_def Let_def)
qed

lemma claim_refused: "transfer_row u k h db \<Longrightarrow> n - h < TRANSFER_LEASE_SECONDS \<Longrightarrow> claim_transfer u j n db = (False, db)"
  by (auto simp: transfer_row_def claim_transfer_def slot_busy_def)

text \<open>
  While the transfer that holds the slot since \<open>h\<close> runs: it may renew, it is not released by its holder,
  and whoever asks for a slot of this person asks within the lease. A read's lease names a key of its own.
\<close>

definition transfer_time :: "string \<Rightarrow> string \<Rightarrow> epoch \<Rightarrow> task_act \<Rightarrow> epoch" where
  "transfer_time u k h a = (case a of T_Renew v j n \<Rightarrow> if v = u \<and> j = k then n else h | _ \<Rightarrow> h)"

definition transfer_runs :: "string \<Rightarrow> string \<Rightarrow> epoch \<Rightarrow> task_act \<Rightarrow> bool" where
  "transfer_runs u k h a \<longleftrightarrow>
     (case a of T_Claim v j n \<Rightarrow> v \<noteq> u \<or> n - h < TRANSFER_LEASE_SECONDS | T_Release v j \<Rightarrow> v \<noteq> u \<or> j \<noteq> k
      | T_Read_End l \<Rightarrow> fst l \<noteq> transfer_key u | _ \<Rightarrow> True)"

fun during_transfer :: "string \<Rightarrow> string \<Rightarrow> epoch \<Rightarrow> task_act list \<Rightarrow> bool" where
  "during_transfer u k h [] = True"
| "during_transfer u k h (a # acts) = (transfer_runs u k h a \<and> during_transfer u k (transfer_time u k h a) acts)"

lemma transfer_step:
  assumes "transfer_row u k h db" "transfer_runs u k h a"
  shows "transfer_row u k (transfer_time u k h a) (task_state a db) \<and> task_shows a db \<noteq> Claimed u j"
proof (cases "moves_runtime a")
  case False
  with assms runtime_state [OF False, of db] show ?thesis
    by (cases a) (simp_all add: moves_runtime_def transfer_row_def transfer_time_def task_shows_def split: sum.split prod.split bool.split)
next
  case True
  then show ?thesis
  proof (cases a)
    case (T_Claim v i n)
    show ?thesis
    proof (cases "v = u")
      case True
      with claim_refused [OF assms(1), of n i] assms T_Claim show ?thesis by (simp add: transfer_runs_def transfer_time_def task_shows_def)
    next
      case False
      with put_other [OF assms(1), of "transfer_key v" "quoted i" n] assms T_Claim show ?thesis
        by (simp add: claim_transfer_def transfer_time_def task_shows_def)
    qed
  next
    case (T_Read v b i n)
    with put_other [OF assms(1)] assms show ?thesis
      by (simp add: claim_workspace_read_def transfer_time_def task_shows_def split: option.split)
  qed (use assms renew_kept release_other in \<open>auto simp: transfer_runs_def transfer_time_def task_shows_def release_transfer_def
      release_workspace_read_def moves_runtime_def\<close>)
qed

lemma transfer_run:
  "transfer_row u k h db \<Longrightarrow> during_transfer u k h acts \<Longrightarrow> \<forall>x \<in> set (fst (run_acts task_do acts db)). \<forall>j. snd x \<noteq> Claimed u j"
proof (induction acts arbitrary: h db)
  case (Cons a acts)
  then have "transfer_row u k (transfer_time u k h a) (task_state a db)" "\<And>j. task_shows a db \<noteq> Claimed u j"
    using transfer_step [of u k h db a] by auto
  moreover from this(1) Cons have "\<forall>x \<in> set (fst (run_acts task_do acts (task_state a db))). \<forall>j. snd x \<noteq> Claimed u j" by auto
  ultimately show ?case by (simp add: task_do_def [of a db] case_prod_beta)
qed simp

text \<open>C37: One transfer of a person's workspace at a time. After a transfer was claimed, and while its
  holder neither releases it nor lets the lease run out (it may renew it any number of times), no step
  of any process lets another transfer of the same person begin, whatever the other steps are:
  transfers of other people, reads, late releases and renewals with other tokens, tasks.\<close>

theorem one_transfer:
  assumes "claim_transfer u k t0 db = (True, d)" "during_transfer u k t0 acts"
  shows "\<forall>x \<in> set (fst (run_acts task_do acts d)). \<forall>j. snd x \<noteq> Claimed u j"
  using assms put_own [of u k t0 db] by (intro transfer_run [of u k t0]) (auto simp: claim_transfer_def split: if_splits)

theorem one_transfer_witness:
  "during_transfer ''u'' ''k'' 0 [T_Renew ''u'' ''k'' 300, T_Claim ''u'' ''j'' 600, T_Release ''u'' ''j'', T_Claim ''u'' ''j'' 650] \<and>
   snd (T_Claim ''u'' ''j'' 600, fst (task_do (T_Claim ''u'' ''j'' 600) (task_state (T_Renew ''u'' ''k'' 300) (task_state (T_Claim ''u'' ''k'' 0) agents_none)))) \<noteq> Claimed ''u'' ''j''"
proof -
  let ?acts = "[T_Renew ''u'' ''k'' 300, T_Claim ''u'' ''j'' 600, T_Release ''u'' ''j'', T_Claim ''u'' ''j'' 650]"
  have run: "during_transfer ''u'' ''k'' 0 ?acts" by (simp add: transfer_runs_def transfer_time_def TRANSFER_LEASE_SECONDS_def)
  have "claim_transfer ''u'' ''k'' 0 agents_none = (True, task_state (T_Claim ''u'' ''k'' 0) agents_none)"
    by (simp add: claim_transfer_def slot_busy_def agents_none_def tbl_simps)
  from one_transfer [OF this run] run show ?thesis by (simp add: task_do_def case_prod_beta del: during_transfer.simps task_state.simps)
qed

subsection \<open>Follow-up messages are taken once\<close>

definition waits :: "string \<Rightarrow> agent_message \<Rightarrow> bool" where
  "waits i m \<longleftrightarrow> gm_task m = i \<and> gm_consumed m = None"

definition taken_ids :: "string \<Rightarrow> task_out \<Rightarrow> int list" where
  "taken_ids i r = (case r of Messages ms \<Rightarrow> map gm_id (filter (\<lambda>m. gm_task m = i) ms) | _ \<Rightarrow> [])"

definition wf_messages :: "agents_db \<Rightarrow> bool" where
  "wf_messages db \<longleftrightarrow> distinct (map gm_id (follow_ups db)) \<and> (\<forall>m \<in> set (follow_ups db). gm_id m < next_follow_up db)"

definition message_waits :: "string \<Rightarrow> int \<Rightarrow> agents_db \<Rightarrow> bool" where
  "message_waits i x db \<longleftrightarrow> list_ex (\<lambda>m. waits i m \<and> gm_id m = x) (follow_ups db)"

text \<open>Every message of the task that waits is newer than \<open>b\<close>, the newest one taken.\<close>

definition newer_than :: "string \<Rightarrow> int \<Rightarrow> agents_db \<Rightarrow> bool" where
  "newer_than i b db \<longleftrightarrow> b < next_follow_up db \<and> (\<forall>m \<in> set (follow_ups db). waits i m \<longrightarrow> b < gm_id m)"

definition drops_task :: "string \<Rightarrow> task_act \<Rightarrow> bool" where
  "drops_task i a \<longleftrightarrow> (case a of T_Delete j \<Rightarrow> j = i | T_Purge j t \<Rightarrow> j = i | _ \<Rightarrow> False)"

definition moves_messages :: "task_act \<Rightarrow> bool" where
  "moves_messages a \<longleftrightarrow> (case a of T_Message i u c m t \<Rightarrow> True | T_Take i k n t \<Rightarrow> True | T_Delete j \<Rightarrow> True | T_Purge j t \<Rightarrow> True | _ \<Rightarrow> False)"

lemma recover_messages [simp]: "follow_ups (fold (recover_task er s un t) ids db) = follow_ups db"
  "next_follow_up (fold (recover_task er s un t) ids db) = next_follow_up db"
  by (induction ids arbitrary: db) (simp_all add: recover_task_def Let_def)

lemma messages_state:
  "\<not> moves_messages a \<Longrightarrow> follow_ups (task_state a db) = follow_ups db \<and> next_follow_up (task_state a db) = next_follow_up db \<and> taken_ids i (task_shows a db) = []"
  by (cases a) (simp_all add: moves_messages_def task_op_defs Let_def task_create_def task_resume_def recover_stale_tasks_def add_step_def add_lane_def
    update_lane_def claim_transfer_def renew_transfer_def release_transfer_def claim_workspace_read_def release_workspace_read_def
    taken_ids_def task_shows_def split: option.split bool.split)

lemma consumed_messages:
  "follow_ups (fold (consume i t) ms db) = tbl_update (\<lambda>x. gm_id x \<in> gm_id ` set ms) (\<lambda>x. x\<lparr>gm_consumed := Some t\<rparr>) (follow_ups db)"
proof (induction ms arbitrary: db)
  case (Cons m ms)
  then show ?case by (auto simp: consume_def tbl_update_def)
qed (simp add: tbl_update_def)

lemma erased_messages [simp]:
  "follow_ups (erase_tasks p db) = tbl_delete (\<lambda>m. gm_task m \<in> ta_id ` set (filter p (tasks db))) (follow_ups db)"
  "next_follow_up (erase_tasks p db) = next_follow_up db"
  by (simp_all add: erase_tasks_def Let_def)

lemma waiting_list: "waiting_messages i n db = take n (sort_key gm_id (filter (waits i) (follow_ups db)))"
  by (simp add: waiting_messages_def waits_def [abs_def])

lemma waiting_sorted: "wf_messages db \<Longrightarrow> sorted_wrt (<) (map gm_id (sort_key gm_id (filter (waits i) (follow_ups db))))"
proof -
  assume "wf_messages db"
  then have "distinct (map gm_id (filter (waits i) (follow_ups db)))" by (simp add: wf_messages_def distinct_map_filter)
  then have "distinct (map gm_id (sort_key gm_id (filter (waits i) (follow_ups db))))" by (simp add: distinct_map)
  then show ?thesis by (simp add: strict_sorted_iff)
qed

lemma waiting_parts: "wf_messages db \<Longrightarrow> m \<in> set (follow_ups db) \<Longrightarrow> waits i m \<Longrightarrow>
    m \<in> set (waiting_messages i n db) \<or> (\<forall>y \<in> set (waiting_messages i n db). gm_id y < gm_id m)"
proof -
  assume wf: "wf_messages db" and m: "m \<in> set (follow_ups db)" "waits i m"
  let ?l = "sort_key gm_id (filter (waits i) (follow_ups db))"
  have "sorted_wrt (<) (map gm_id (take n ?l) @ map gm_id (drop n ?l))"
    using waiting_sorted [OF wf, of i] by (simp flip: map_append)
  then have "\<forall>y \<in> set (take n ?l). \<forall>z \<in> set (drop n ?l). gm_id y < gm_id z" by (simp only: sorted_wrt_append) auto
  moreover have "m \<in> set (take n ?l @ drop n ?l)" using m by simp
  ultimately show ?thesis unfolding waiting_list set_append by blast
qed

lemma waiting_rows: "set (waiting_messages i n db) \<subseteq> {m \<in> set (follow_ups db). waits i m}"
  by (auto simp: waiting_list dest: in_set_takeD)

lemma taken_rows: "taken_ids i (Messages (waiting_messages j n db)) = (if i = j then map gm_id (waiting_messages j n db) else [])"
proof -
  have "\<forall>m \<in> set (waiting_messages j n db). gm_task m = j" using waiting_rows [of j n db] by (auto simp: waits_def)
  then show ?thesis by (simp add: taken_ids_def filter_empty_conv cong: filter_cong)
qed

lemma take_step:
  assumes wf: "wf_messages db" and new: "newer_than i b db"
  shows "wf_messages (snd (take_messages j k n t db)) \<and>
    (\<exists>c. newer_than i c (snd (take_messages j k n t db)) \<and> b \<le> c \<and>
      sorted_wrt (<) (taken_ids i (Messages (fst (take_messages j k n t db)))) \<and>
      (\<forall>x \<in> set (taken_ids i (Messages (fst (take_messages j k n t db)))). b < x \<and> x \<le> c)) \<and>
    (message_waits i x db \<longrightarrow> message_waits i x (snd (take_messages j k n t db)) \<or>
      x \<in> set (taken_ids i (Messages (fst (take_messages j k n t db)))))"
proof (cases "owns j k db")
  case False
  with wf new show ?thesis by (auto simp: take_messages_def taken_ids_def)
next
  case True
  let ?rows = "waiting_messages j n db"
  let ?d = "fold (consume j t) ?rows db"
  have fs: "follow_ups ?d = tbl_update (\<lambda>x. gm_id x \<in> gm_id ` set ?rows) (\<lambda>x. x\<lparr>gm_consumed := Some t\<rparr>) (follow_ups db)"
    by (rule consumed_messages)
  have rows: "set ?rows \<subseteq> {m \<in> set (follow_ups db). waits j m}" by (rule waiting_rows)
  have ids: "map gm_id (follow_ups ?d) = map gm_id (follow_ups db)" by (simp add: fs tbl_update_def)
  have wf1: "wf_messages ?d" using wf unfolding wf_messages_def ids by (auto simp: fs set_tbl_update)
  have kept: "m \<in> set (follow_ups db) \<and> waits i m \<and> gm_id m \<notin> gm_id ` set ?rows" if "m \<in> set (follow_ups ?d)" "waits i m" for m
    using that by (auto simp: fs set_tbl_update waits_def)
  have same: "m = y" if "m \<in> set (follow_ups db)" "y \<in> set (follow_ups db)" "gm_id m = gm_id y" for m y
    using that wf by (auto simp: wf_messages_def distinct_map inj_on_def)
  have out: "taken_ids i (Messages ?rows) = (if i = j then map gm_id ?rows else [])"
    by (rule taken_rows)
  have sorted: "sorted_wrt (<) (map gm_id ?rows)"
    using waiting_sorted [OF wf, of j] by (simp add: waiting_list sorted_wrt_take flip: take_map)
  have waits_on: "message_waits i x ?d \<or> x \<in> set (taken_ids i (Messages ?rows))" if w: "message_waits i x db"
  proof -
    from w obtain m where m: "m \<in> set (follow_ups db)" "waits i m" "gm_id m = x" by (auto simp: message_waits_def list_ex_iff)
    show ?thesis
    proof (cases "x \<in> gm_id ` set ?rows")
      case True
      then obtain y where "y \<in> set ?rows" "gm_id y = x" by blast
      with same [of m y] m rows have "i = j" by (auto simp: waits_def)
      with True out show ?thesis by simp
    next
      case False
      with m have "m \<in> set (follow_ups ?d)" by (force simp: fs set_tbl_update)
      with m show ?thesis by (auto simp: message_waits_def list_ex_iff)
    qed
  qed
  have "\<exists>c. newer_than i c ?d \<and> b \<le> c \<and> sorted_wrt (<) (taken_ids i (Messages ?rows)) \<and> (\<forall>x \<in> set (taken_ids i (Messages ?rows)). b < x \<and> x \<le> c)"
  proof (cases "i = j \<and> ?rows \<noteq> []")
    case False
    moreover have "newer_than i b ?d" using new kept by (auto simp: newer_than_def)
    ultimately show ?thesis using out by (intro exI [of _ b]) auto
  next
    case True
    then have out1: "taken_ids i (Messages ?rows) = map gm_id ?rows" using out by simp
    let ?c = "Max (gm_id ` set ?rows)"
    have in_c: "?c \<in> gm_id ` set ?rows" and le_c: "\<forall>y \<in> set ?rows. gm_id y \<le> ?c" using True by (auto intro!: Max_in)
    have low: "\<forall>y \<in> set ?rows. b < gm_id y" using rows new True by (auto simp: newer_than_def)
    have "newer_than i ?c ?d"
    proof -
      have "?c < next_follow_up ?d" using in_c rows wf by (auto simp: wf_messages_def)
      moreover have "?c < gm_id m" if "m \<in> set (follow_ups ?d)" "waits i m" for m
        using kept [OF that] waiting_parts [OF wf, of m i n] in_c True by auto
      ultimately show ?thesis by (simp add: newer_than_def)
    qed
    moreover have "b \<le> ?c" using in_c low by auto
    ultimately show ?thesis using out1 sorted low le_c by (intro exI [of _ ?c]) auto
  qed
  with True wf1 waits_on show ?thesis by (simp add: take_messages_def Let_def)
qed

lemma message_step:
  assumes wf: "wf_messages db" and new: "newer_than i b db"
  shows "wf_messages (task_state a db) \<and>
    (\<exists>c. newer_than i c (task_state a db) \<and> b \<le> c \<and> sorted_wrt (<) (taken_ids i (task_shows a db)) \<and>
      (\<forall>x \<in> set (taken_ids i (task_shows a db)). b < x \<and> x \<le> c)) \<and>
    (message_waits i x db \<longrightarrow> \<not> drops_task i a \<longrightarrow> message_waits i x (task_state a db) \<or> x \<in> set (taken_ids i (task_shows a db)))"
proof (cases "moves_messages a")
  case False
  from messages_state [OF this, of db i] wf new show ?thesis
    by (auto simp: wf_messages_def newer_than_def message_waits_def)
next
  case True
  have erased: "wf_messages (erase_tasks p db) \<and> newer_than i b (erase_tasks p db)" for p
    using wf new by (auto simp: wf_messages_def newer_than_def tbl_delete_def distinct_map_filter)
  have stays: "message_waits i x (erase_tasks p db)" if "message_waits i x db" "\<And>r. p r \<Longrightarrow> ta_id r \<noteq> i" for p
    using that by (force simp: message_waits_def list_ex_iff waits_def)
  from True show ?thesis
  proof (cases a)
    case (T_Message j u c m t)
    then have state: "task_state a db = db \<or> (\<exists>y. follow_ups (task_state a db) = follow_ups db @ [y] \<and> gm_id y = next_follow_up db \<and>
        next_follow_up (task_state a db) = next_follow_up db + 1)" and none: "taken_ids i (task_shows a db) = []"
      by (auto simp: queue_message_def after2_def task_shows_def taken_ids_def split: option.splits)
    from state have "wf_messages (task_state a db)" using wf by (force simp: wf_messages_def)
    moreover from state have "newer_than i b (task_state a db)" using new by (auto simp: newer_than_def)
    moreover from state have "message_waits i x db \<longrightarrow> message_waits i x (task_state a db)" by (auto simp: message_waits_def)
    ultimately show ?thesis using none by (intro conjI exI [of _ b]) simp_all
  next
    case (T_Take j k n t)
    with take_step [OF assms, of j k n t x] show ?thesis by (simp add: task_shows_def)
  next
    case (T_Delete j)
    with erased [of "\<lambda>r. ta_id r = j"] stays [of "\<lambda>r. ta_id r = j"] show ?thesis
      by (auto simp: task_delete_def task_shows_def taken_ids_def drops_task_def)
  next
    case (T_Purge j t)
    with erased [of "\<lambda>r. ta_id r = j \<and> old_task t r"] stays [of "\<lambda>r. ta_id r = j \<and> old_task t r"] show ?thesis
      by (auto simp: delete_if_old_def Let_def task_shows_def taken_ids_def drops_task_def)
  qed (auto simp: moves_messages_def)
qed

lemma message_run:
  assumes "wf_messages db" "newer_than i b db"
  shows "sorted_wrt (<) (concat (map (\<lambda>y. taken_ids i (snd y)) (fst (run_acts task_do acts db)))) \<and>
    (\<forall>x \<in> set (concat (map (\<lambda>y. taken_ids i (snd y)) (fst (run_acts task_do acts db)))). b < x) \<and>
    (message_waits i x db \<longrightarrow> (\<forall>a \<in> set acts. \<not> drops_task i a) \<longrightarrow> message_waits i x (snd (run_acts task_do acts db)) \<or>
      x \<in> set (concat (map (\<lambda>y. taken_ids i (snd y)) (fst (run_acts task_do acts db)))))"
  using assms
proof (induction acts arbitrary: b db)
  case (Cons a acts)
  note step = message_step [OF Cons.prems, of a x]
  then obtain c where c: "newer_than i c (task_state a db)" "b \<le> c" "sorted_wrt (<) (taken_ids i (task_shows a db))"
    "\<forall>y \<in> set (taken_ids i (task_shows a db)). b < y \<and> y \<le> c" by blast
  from step have wf: "wf_messages (task_state a db)" by blast
  note rest = Cons.IH [OF wf c(1)]
  let ?taken = "\<lambda>d. concat (map (\<lambda>y. taken_ids i (snd y)) (fst (run_acts task_do acts d)))"
  have taken: "concat (map (\<lambda>y. taken_ids i (snd y)) (fst (run_acts task_do (a # acts) db))) = taken_ids i (task_shows a db) @ ?taken (task_state a db)"
    and last: "snd (run_acts task_do (a # acts) db) = snd (run_acts task_do acts (task_state a db))"
    by (simp_all add: task_do_def [of a db] case_prod_beta)
  have gap: "y < z" if "y \<in> set (taken_ids i (task_shows a db))" "z \<in> set (?taken (task_state a db))" for y z
  proof -
    from c(4) that(1) have "y \<le> c" by blast
    also have "c < z" using rest that(2) by blast
    finally show ?thesis .
  qed
  have low: "b < z" if "z \<in> set (?taken (task_state a db))" for z
    using rest that c(2) by (meson le_less_trans)
  show ?case unfolding taken last sorted_wrt_append set_append
    using step rest c(3,4) gap low by (simp only: list.set_intros ball_simps Un_iff set_simps insert_iff) blast
qed simp

text \<open>C36: Follow-up messages reach the agent once and in order. From a database whose message ids are
  distinct, over any steps of all processes, the messages taken for a task come in the order of their
  ids, none of them twice; and a message that waits is at the end still waiting or was taken, unless
  its task was deleted.\<close>

theorem messages_taken_once:
  assumes "wf_messages db"
  shows "sorted_wrt (<) (concat (map (\<lambda>y. taken_ids i (snd y)) (fst (run_acts task_do acts db)))) \<and>
    (message_waits i x db \<longrightarrow> (\<forall>a \<in> set acts. \<not> drops_task i a) \<longrightarrow> message_waits i x (snd (run_acts task_do acts db)) \<or>
      x \<in> set (concat (map (\<lambda>y. taken_ids i (snd y)) (fst (run_acts task_do acts db)))))"
proof -
  define b where "b = Min (insert (next_follow_up db) (gm_id ` set (follow_ups db))) - 1"
  have "b < y" if "y \<in> insert (next_follow_up db) (gm_id ` set (follow_ups db))" for y
    using Min_le [OF _ that] by (simp add: b_def)
  then have "newer_than i b db" by (auto simp: newer_than_def)
  from message_run [OF assms this] show ?thesis by blast
qed

theorem messages_taken_once_witness:
  "let d = task_state (T_Message ''t'' ''u'' [1] None 1) agents_one;
       r = run_acts task_do [T_Message ''t'' ''u'' [2] (Some 5) 2, T_Take ''t'' ''k'' 10 3, T_Take ''t'' ''k'' 10 4] d in
   message_waits ''t'' 1 (snd r) \<or> 1 \<in> set (concat (map (\<lambda>y. taken_ids ''t'' (snd y)) (fst r)))"
proof -
  let ?d = "task_state (T_Message ''t'' ''u'' [1] None 1) agents_one"
  let ?acts = "[T_Message ''t'' ''u'' [2] (Some 5) 2, T_Take ''t'' ''k'' 10 3, T_Take ''t'' ''k'' 10 4]"
  note defs = agents_one_def task_create_def check_capacity_def active_tasks_def asked_task_def agents_none_def after1_def after2_def
    queue_message_def tbl_simps plain_step_def
  have wf: "wf_messages ?d" by (simp add: wf_messages_def defs)
  have "message_waits ''t'' 1 ?d" by (simp add: message_waits_def waits_def defs)
  moreover have "\<forall>a \<in> set ?acts. \<not> drops_task ''t'' a" by (simp add: drops_task_def)
  ultimately show ?thesis using messages_taken_once [OF wf, of "''t''" ?acts 1] unfolding Let_def by blast
qed

end
