(* ===== verification/Efforts.thy ===== *)
theory Efforts
  imports Limit_Store
begin

section \<open>Reasoning effort\<close>

text \<open>
  The reasoning levels of bananachat/services/limits.py: the levels a model takes, the highest one an
  account may use with it, the level a request runs with, and the unlocks (a request that
  was approved, or sustained use).
\<close>

record effort_model =
  em_id :: int
  em_levels :: "json option"
  em_reasoning :: bool

text \<open>The columns of the site's settings; NULL is \<open>None\<close>.\<close>

record effort_columns =
  ec_gating :: "int option"
  ec_default :: "string option"
  ec_auto :: "int option"
  ec_active_days :: "int option"
  ec_tokens :: "int option"
  ec_period_days :: "int option"
  ec_clean_days :: "int option"
  ec_ceiling :: "string option"

record effort_site =
  es_gating :: bool
  es_default :: string
  es_auto :: bool
  es_active_days :: int
  es_tokens :: int
  es_period_days :: int
  es_clean_days :: int
  es_ceiling :: string

datatype effort_error = Effort_Locked string string

definition EFFORT_DEFAULT :: string where "EFFORT_DEFAULT = ''medium''"

definition named_effort :: "string \<Rightarrow> bool" where
  "named_effort l \<longleftrightarrow> l \<in> {''low'', ''medium'', ''high'', ''extra'', ''max''}"

definition supported_efforts :: "effort_model \<Rightarrow> string list" where
  "supported_efforts m =
     (let raw = (case em_levels m of Some (J_List xs) \<Rightarrow> map (\<lambda>x. case x of J_Text t \<Rightarrow> ascii_lower (strip t) | _ \<Rightarrow> []) xs | _ \<Rightarrow> []);
          levels = map (\<lambda>l. if l = ''xhigh'' then ''extra'' else l) raw;
          known = remdups (filter (\<lambda>l. l \<in> set EFFORT_LEVELS \<or> l = ''on'') levels);
          known = (if list_ex named_effort known then filter (\<lambda>l. l \<noteq> ''on'') known else known)
      in if known \<noteq> [] then sort_key (\<lambda>l. (effort_rank l, l = ''on'')) known
         else if em_reasoning m then [''off'', ''on''] else [])"

definition binary_effort :: "effort_model option \<Rightarrow> bool" where
  "binary_effort m = (case m of None \<Rightarrow> False | Some x \<Rightarrow> set (supported_efforts x) = {''off'', ''on''})"

definition named_levels :: "effort_model \<Rightarrow> bool" where
  "named_levels m \<longleftrightarrow> list_ex named_effort (supported_efforts m)"

definition effort_settings :: "effort_columns \<Rightarrow> effort_site" where
  "effort_settings c =
     (let level = (\<lambda>v dflt. case v of Some l \<Rightarrow> if l \<in> set EFFORT_LEVELS then l else dflt | None \<Rightarrow> dflt);
          whole = (\<lambda>v dflt lo hi. case v of None \<Rightarrow> dflt | Some n \<Rightarrow> max lo (min hi n));
          on = (\<lambda>v. case v of None \<Rightarrow> False | Some n \<Rightarrow> n \<noteq> (0 :: int))
      in \<lparr>es_gating = on (ec_gating c), es_default = level (ec_default c) EFFORT_DEFAULT, es_auto = on (ec_auto c),
          es_active_days = whole (ec_active_days c) 30 1 365, es_tokens = whole (ec_tokens c) 2000000 0 2000000000,
          es_period_days = whole (ec_period_days c) 60 1 365, es_clean_days = whole (ec_clean_days c) 90 0 3650,
          es_ceiling = level (ec_ceiling c) ''high''\<rparr>)"

definition effort_gated :: "bool \<Rightarrow> user_limit \<Rightarrow> effort_site \<Rightarrow> model_policy option \<Rightarrow> bool" where
  "effort_gated admin prefs site p \<longleftrightarrow>
     \<not> admin \<and> es_gating site \<and> \<not> effort_gating_off prefs \<and> (case p of None \<Rightarrow> True | Some q \<Rightarrow> \<not> mp_effort_gating_off q)"

text \<open>One of the account's own levels over the level so far.\<close>

definition own_over :: "effort_row option \<Rightarrow> string \<Rightarrow> string" where
  "own_over mine level =
     (case mine of None \<Rightarrow> level
      | Some r \<Rightarrow> if ef_source r = ''admin'' \<or> effort_rank level < effort_rank (ef_level r) then ef_level r else level)"

definition gated_ceiling :: "effort_model \<Rightarrow> model_policy \<Rightarrow> effort_site \<Rightarrow> (int option \<rightharpoonup> effort_row) \<Rightarrow> string" where
  "gated_ceiling m p site own =
     own_over (own (Some (em_id m))) (own_over (own None)
       (case mp_effort_default p of None \<Rightarrow> es_default site | Some l \<Rightarrow> if l = [] then es_default site else l))"

definition effort_ceiling ::
  "bool \<Rightarrow> effort_model \<Rightarrow> model_policy \<Rightarrow> user_limit \<Rightarrow> effort_site \<Rightarrow> (int option \<rightharpoonup> effort_row) \<Rightarrow> string option" where
  "effort_ceiling admin m p prefs site own =
     (let levels = supported_efforts m in
      if levels = [] then None
      else if \<not> effort_gated admin prefs site (Some p) then Some (if last levels = ''on'' then ''medium'' else last levels)
      else Some (gated_ceiling m p site own))"

text \<open>The level that serves a request: the highest at or below it, else the lowest that thinks.\<close>

definition model_level :: "string list \<Rightarrow> string \<Rightarrow> string" where
  "model_level levels requested =
     (let thinking = filter (\<lambda>l. l \<noteq> ''off'') levels;
          fitting = filter (\<lambda>l. effort_rank l \<le> effort_rank requested) thinking
      in if requested = ''off'' then (if ''off'' \<in> set levels then ''off'' else hd thinking)
         else if thinking = [] then ''off''
         else if fitting \<noteq> [] then last fitting else hd thinking)"

definition allowed_by :: "string list \<Rightarrow> string option \<Rightarrow> string list" where
  "allowed_by levels cap =
     (case cap of None \<Rightarrow> []
      | Some c \<Rightarrow> filter (\<lambda>l. l = ''off'' \<or> effort_rank l \<le> effort_rank c) levels)"

definition allowed_efforts ::
  "bool \<Rightarrow> effort_model \<Rightarrow> model_policy \<Rightarrow> user_limit \<Rightarrow> effort_site \<Rightarrow> (int option \<rightharpoonup> effort_row) \<Rightarrow> string list" where
  "allowed_efforts admin m p prefs site own =
     allowed_by (supported_efforts m) (effort_ceiling admin m p prefs site own)"

definition resolve_among :: "string list \<Rightarrow> string list \<Rightarrow> string option \<Rightarrow> effort_error + string option" where
  "resolve_among levels allowed requested =
     (let requested = (if requested = Some ''xhigh'' then Some ''extra'' else requested);
          best = filter (\<lambda>l. l \<noteq> ''off'') allowed
      in if levels = [] then Inr None
         else if allowed = [] then
           Inl (Effort_Locked (case requested of None \<Rightarrow> EFFORT_DEFAULT | Some r \<Rightarrow> if r = [] then EFFORT_DEFAULT else r) ''off'')
         else case requested of
           None \<Rightarrow>
             let target = model_level levels EFFORT_DEFAULT in
             if target \<in> set allowed then Inr (Some target)
             else Inr (Some (if best \<noteq> [] then last best else hd allowed))
         | Some r \<Rightarrow>
             let level = model_level levels r in
             if level \<notin> set allowed
             then Inl (Effort_Locked r (if best \<noteq> [] \<and> last best = ''on'' then ''medium'' else if best \<noteq> [] then last best else ''off''))
             else Inr (Some level))"

definition resolve_effort ::
  "bool \<Rightarrow> effort_model \<Rightarrow> model_policy \<Rightarrow> user_limit \<Rightarrow> effort_site \<Rightarrow> (int option \<rightharpoonup> effort_row) \<Rightarrow> string option
    \<Rightarrow> effort_error + string option" where
  "resolve_effort admin m p prefs site own requested =
     resolve_among (supported_efforts m) (allowed_efforts admin m p prefs site own) requested"

subsection \<open>Unlocks\<close>

text \<open>Raise an account's level for a model (or for all models), never lower it.\<close>

definition unlock_effort ::
  "string \<Rightarrow> int option \<Rightarrow> string \<Rightarrow> string \<Rightarrow> string option \<Rightarrow> stamp \<Rightarrow> ('a) limit_db_scheme \<Rightarrow> limit_error + (string \<times> ('a) limit_db_scheme)" where
  "unlock_effort u i level source who t db =
     (if level \<notin> set EFFORT_LEVELS then Inl Bad_Effort
      else
        let current = effort_levels u db i in
        if (case current of None \<Rightarrow> False | Some r \<Rightarrow> effort_rank level \<le> effort_rank (ef_level r))
        then Inr (ef_level (the current), db)
        else map_sum id (\<lambda>db1. (level, db1))
          (set_effort_level u i (Some level) (case current of None \<Rightarrow> False | Some r \<Rightarrow> ef_pinned r) source who t db))"

definition next_level :: "string list \<Rightarrow> string \<Rightarrow> string option" where
  "next_level levels current =
     map_option (\<lambda>l. if l = ''on'' then ''medium'' else l)
       (List.find (\<lambda>l. l \<noteq> ''off'' \<and> effort_rank current < effort_rank l) levels)"

text \<open>
  \<open>auto_unlock_effort\<close>, one candidate, read and written under one lock. \<open>acct\<close>: the account's
  \<open>(administrator, suspended now, last suspension)\<close>, if it still exists; \<open>activity\<close>: its active days and
  tokens with the model since a time.
\<close>

definition auto_unlock_one ::
  "(bool \<times> bool \<times> stamp option) option \<Rightarrow> effort_model option \<Rightarrow> model_policy \<Rightarrow> effort_columns \<Rightarrow> (stamp \<Rightarrow> int \<times> rat) \<Rightarrow> string \<Rightarrow> stamp
    \<Rightarrow> ('a) limit_db_scheme \<Rightarrow> limit_error + (string option \<times> ('a) limit_db_scheme)" where
  "auto_unlock_one acct model p columns activity u now db =
     (case (acct, model) of
        (Some (admin, suspended, last_suspension), Some m) \<Rightarrow>
          let site = effort_settings columns; prefs = user_settings u db; own = effort_levels u db; mine = own (Some (em_id m));
              levels = supported_efforts m;
              pinned = (\<lambda>x. case x of None \<Rightarrow> False | Some r \<Rightarrow> ef_pinned r);
              since = now - 86400 * es_period_days site;
              since = (case mine of None \<Rightarrow> since | Some r \<Rightarrow> max since (fst (ef_updated r)));
              (days, used) = activity since;
              current = (case effort_ceiling admin m p prefs site own of None \<Rightarrow> ''off'' | Some c \<Rightarrow> c)
          in if suspended \<or> \<not> es_auto site \<or> effort_auto_unlock_off prefs then Inr (None, db)
             else if mp_effort_auto_unlock_off p \<or> \<not> effort_gated admin prefs site (Some p) then Inr (None, db)
             else if pinned (own None) \<or> pinned mine then Inr (None, db)
             else if (case last_suspension of None \<Rightarrow> False | Some s \<Rightarrow> now - 86400 * es_clean_days site \<le> s) then Inr (None, db)
             else if days < es_active_days site \<or> used < of_int (es_tokens site) then Inr (None, db)
             else (case next_level levels current of
                 None \<Rightarrow> Inr (None, db)
               | Some target \<Rightarrow>
                   if effort_rank (es_ceiling site) < effort_rank target then Inr (None, db)
                   else map_sum id (\<lambda>db1. (Some target, db1)) (set_effort_level u (Some (em_id m)) (Some target) False ''automatic'' None now db))
      | _ \<Rightarrow> Inr (None, db))"

subsection \<open>Levels in order\<close>

lemma effort_rank_values:
  "effort_rank ''off'' = 0" "effort_rank ''low'' = 1" "effort_rank ''medium'' = 2" "effort_rank ''on'' = 2" "effort_rank ''high'' = 3"
  "effort_rank ''extra'' = 4" "effort_rank ''max'' = 5"
  by (simp_all add: effort_rank_def EFFORT_LEVELS_def)

lemma supported_sorted: "sorted (map effort_rank (supported_efforts m))"
proof -
  have "sorted (map effort_rank (sort_key (\<lambda>l. (effort_rank l, l = ''on'')) xs))" for xs
  proof -
    have "sorted (map (\<lambda>l. (effort_rank l, l = ''on'')) (sort_key (\<lambda>l. (effort_rank l, l = ''on'')) xs))" by simp
    then show ?thesis unfolding sorted_map by (rule sorted_wrt_mono_rel [rotated]) (auto simp: less_eq_prod_def)
  qed
  then show ?thesis by (simp add: supported_efforts_def Let_def effort_rank_values)
qed

lemma supported_known: "set (supported_efforts m) \<subseteq> set EFFORT_LEVELS \<union> {''on''}"
  by (auto simp: supported_efforts_def Let_def EFFORT_LEVELS_def split: if_splits)

lemma thinking_above_off: "l \<in> set (supported_efforts m) \<Longrightarrow> l \<noteq> ''off'' \<Longrightarrow> 0 < effort_rank l"
  using supported_known [of m] by (auto simp: EFFORT_LEVELS_def effort_rank_values)

lemma sorted_last_max: "sorted (map f xs) \<Longrightarrow> x \<in> set xs \<Longrightarrow> f x \<le> f (last xs)"
  by (induction xs) (auto simp: last_in_set)

lemma sorted_hd_min: "sorted (map f xs) \<Longrightarrow> x \<in> set xs \<Longrightarrow> f (hd xs) \<le> f x"
  by (cases xs) auto

text \<open>A level that serves a request is one of the model's, and the best fit.\<close>

lemma model_level_in:
  assumes "levels \<noteq> []" shows "model_level levels r \<in> set levels"
proof -
  define thinking where "thinking = filter (\<lambda>l. l \<noteq> ''off'') levels"
  define fitting where "fitting = filter (\<lambda>l. effort_rank l \<le> effort_rank r) thinking"
  have m: "model_level levels r = (if r = ''off'' then (if ''off'' \<in> set levels then ''off'' else hd thinking)
      else if thinking = [] then ''off'' else if fitting \<noteq> [] then last fitting else hd thinking)"
    by (simp add: model_level_def Let_def thinking_def fitting_def)
  have sub: "set thinking \<subseteq> set levels" "set fitting \<subseteq> set thinking" by (auto simp: thinking_def fitting_def)
  have "''off'' \<in> set levels" if "thinking = []"
    using that assms by (cases levels) (auto simp: thinking_def split: if_splits)
  moreover have "hd thinking \<in> set levels" if "thinking \<noteq> []" using hd_in_set [OF that] sub by blast
  moreover have "last fitting \<in> set levels" if "fitting \<noteq> []" using last_in_set [OF that] sub by blast
  moreover have "thinking \<noteq> []" if "''off'' \<notin> set levels" using assms that by (cases levels) (auto simp: thinking_def)
  ultimately show ?thesis unfolding m by auto
qed

lemma model_level_fits:
  assumes s: "sorted (map effort_rank levels)" and r: "r \<noteq> ''off''" and l: "l \<in> set levels" "l \<noteq> ''off''"
  shows "effort_rank l \<le> effort_rank r \<Longrightarrow> effort_rank l \<le> effort_rank (model_level levels r) \<and> effort_rank (model_level levels r) \<le> effort_rank r"
    and "effort_rank r < effort_rank l \<Longrightarrow> effort_rank (model_level levels r) \<le> effort_rank l"
proof -
  define thinking where "thinking = filter (\<lambda>l. l \<noteq> ''off'') levels"
  define fitting where "fitting = filter (\<lambda>l. effort_rank l \<le> effort_rank r) thinking"
  have st: "sorted (map effort_rank thinking)" "sorted (map effort_rank fitting)"
    using s by (simp_all add: thinking_def fitting_def sorted_filter)
  have m: "model_level levels r = (if fitting \<noteq> [] then last fitting else hd thinking)"
    using r l by (auto simp: model_level_def Let_def thinking_def fitting_def filter_empty_conv)
  have lt: "l \<in> set thinking" using l by (simp add: thinking_def)
  have below: "\<forall>x \<in> set fitting. effort_rank x \<le> effort_rank r" by (simp add: fitting_def)
  show "effort_rank l \<le> effort_rank (model_level levels r) \<and> effort_rank (model_level levels r) \<le> effort_rank r"
    if "effort_rank l \<le> effort_rank r"
  proof -
    have lf: "l \<in> set fitting" using that lt by (simp add: fitting_def)
    then have ne: "fitting \<noteq> []" by auto
    show ?thesis using sorted_last_max [OF st(2) lf] below last_in_set [OF ne] ne unfolding m by simp
  qed
  show "effort_rank (model_level levels r) \<le> effort_rank l" if "effort_rank r < effort_rank l"
  proof (cases "fitting = []")
    case True
    then show ?thesis using sorted_hd_min [OF st(1) lt] by (simp add: m)
  next
    case False
    have "effort_rank (last fitting) \<le> effort_rank r" using below last_in_set [OF False] by blast
    with that False show ?thesis unfolding m by simp
  qed
qed

lemma effort_levels_put:
  assumes "set_effort_level u i (Some level) pinned source who t db = Inr db1"
  shows "effort_levels u db1 i = Some \<lparr>ef_user = u, ef_model = i, ef_level = level, ef_pinned = pinned, ef_source = source, ef_updated = (t, who)\<rparr>"
proof -
  obtain rest where "level \<in> set EFFORT_LEVELS" "efforts db1 = rest @ [\<lparr>ef_user = u, ef_model = i, ef_level = level, ef_pinned = pinned,
      ef_source = source, ef_updated = (t, who)\<rparr>]"
    using assms by (auto simp: set_effort_level_def Let_def split: if_splits)
  then show ?thesis by (simp add: effort_levels_def)
qed

lemma unlock_raises:
  assumes "unlock_effort u i level source who t db = Inr (l, db1)"
  obtains r where "effort_levels u db1 i = Some r" "effort_rank level \<le> effort_rank (ef_level r)" "ef_level r = l"
    "\<And>old. effort_levels u db i = Some old \<Longrightarrow> effort_rank (ef_level old) \<le> effort_rank l \<and> (ef_pinned old \<longrightarrow> ef_pinned r)"
proof (cases "\<exists>r. effort_levels u db i = Some r \<and> effort_rank level \<le> effort_rank (ef_level r)")
  case True
  then show ?thesis using assms that by (auto simp: unlock_effort_def Let_def split: if_splits option.splits)
next
  case False
  then obtain pinned where put: "set_effort_level u i (Some level) pinned source who t db = Inr db1" and l: "l = level"
    and p: "pinned = (case effort_levels u db i of None \<Rightarrow> False | Some r \<Rightarrow> ef_pinned r)"
    using assms by (auto simp: unlock_effort_def Let_def map_sum_Inr split: if_splits option.splits)
  show ?thesis
    by (rule that [OF effort_levels_put [OF put]]) (use False in \<open>auto simp: l p\<close>)
qed

subsection \<open>Properties\<close>


definition ex_effort_model :: effort_model where
  "ex_effort_model = \<lparr>em_id = 7, em_levels = Some (J_List [J_Text ''max'', J_Text ''medium'', J_Text ''low'', J_Text ''off'']), em_reasoning = True\<rparr>"

definition ex_effort_site :: effort_site where
  "ex_effort_site = effort_settings \<lparr>ec_gating = Some 1, ec_default = Some ''medium'', ec_auto = Some 1, ec_active_days = None, ec_tokens = None,
     ec_period_days = None, ec_clean_days = None, ec_ceiling = None\<rparr>"

lemma ex_supported: "supported_efforts ex_effort_model = [''off'', ''low'', ''medium'', ''max'']"
  by (simp add: supported_efforts_def ex_effort_model_def ascii_lower_def strip_def is_space_def EFFORT_LEVELS_def named_effort_def
      effort_rank_values sort_key_def Let_def)

lemma ex_site: "es_gating ex_effort_site" "es_default ex_effort_site = ''medium''"
  by (simp_all add: ex_effort_site_def effort_settings_def EFFORT_LEVELS_def)

lemma ex_ceiling:
  "effort_ceiling False ex_effort_model default_model_policy (no_settings ''u'') ex_effort_site own =
    Some (own_over (own (Some 7)) (own_over (own None) ''medium''))"
  by (simp add: effort_ceiling_def ex_supported effort_gated_def ex_site no_settings_def default_model_policy_def gated_ceiling_def)
    (simp add: ex_effort_model_def)


text \<open>
  An administrator's level for one model is exact, until a request for a higher one is
  approved: the new row's source is the request, so the account's level for all models
  counts again, and a request for medium is answered with the highest level of all.
\<close>

definition ex_effort_db :: limit_db where
  "ex_effort_db = \<lparr>pool_docs = [], model_docs = [], catalog_presets = [(7, None)], accounts = [''u''], user_limits = [], overrides = [],
     model_limits = [], efforts = [\<lparr>ef_user = ''u'', ef_model = None, ef_level = ''max'', ef_pinned = False, ef_source = ''admin'', ef_updated = (0, None)\<rparr>,
       \<lparr>ef_user = ''u'', ef_model = Some 7, ef_level = ''low'', ef_pinned = False, ef_source = ''admin'', ef_updated = (0, None)\<rparr>],
     tiers = [], next_tier = 1, grants = [], next_grant = 1, windows_tbl = [], rate_buckets = [], site_resets = (None, None)\<rparr>"

lemma approval_lifts_more:
  "effort_ceiling False ex_effort_model default_model_policy (no_settings ''u'') ex_effort_site (effort_levels ''u'' ex_effort_db) = Some ''low'' \<and>
    (\<exists>db1. unlock_effort ''u'' (Some 7) ''medium'' ''request'' (Some ''u'') 9 ex_effort_db = Inr (''medium'', db1) \<and>
      effort_ceiling False ex_effort_model default_model_policy (no_settings ''u'') ex_effort_site (effort_levels ''u'' db1) = Some ''max'')"
  unfolding ex_ceiling
  by (simp add: effort_levels_def unlock_effort_def set_effort_level_def ex_effort_db_def own_over_def EFFORT_LEVELS_def EFFORT_SOURCES_def
      model_exists_def known_def tbl_simps effort_rank_values Let_def)

end
