(* ===== verification/Quota_Requests.thy ===== *)
theory Quota_Requests
  imports Limit_Decisions Efforts One_Shot
begin

section \<open>Requests for more\<close>

text \<open>
  The requests of bananachat/db/credits.py: an account asks for more tokens, a higher request rate, a temporary
  grant or a higher reasoning level; small amounts are approved at once, the others wait for an
  administrator (or for the votes of \<open>Community\<close>). Carrying one out writes a custom limit, a grant
  or a reasoning level of \<open>Limit_Store\<close>. The first part is what services/community.py offers a request
  when it is sent, and the release of the pledges made for it.
\<close>

text \<open>A row of quota_requests; \<open>qr_rules\<close> is the stored JSON (\<open>None\<close>: absent, or a text that does not parse).\<close>

record quota_request =
  qr_id :: int
  qr_user :: string
  qr_kind :: string
  qr_pool :: string
  qr_new_credits :: int
  qr_new_weekly_credits :: "int option"
  qr_new_tokens :: "int option"
  qr_new_weekly :: "int option"
  qr_rules :: "json option"
  qr_hours :: "int option"
  qr_unlimited :: bool
  qr_model :: "int option"
  qr_level :: "string option"
  qr_all_models :: bool
  qr_reason :: string
  qr_duration :: string
  qr_status :: string
  qr_source :: string
  qr_created :: stamp
  qr_resolved :: "stamp option"
  qr_resolved_by :: "string option"
  qr_message :: "string option"
  qr_grant :: "int option"
  qr_community :: bool
  qr_until :: "stamp option"
  qr_closed :: "stamp option"
  qr_cancelled :: "stamp option"
  qr_boost_ends :: "stamp option"

text \<open>\<open>site_users\<close>: the accounts (\<open>accounts\<close> is their ids); \<open>effort_cols\<close>: the reasoning columns of the catalog.\<close>

record request_db = usage_db +
  site_users :: "account list"
  effort_cols :: "effort_model list"
  quota_requests :: "quota_request list"
  next_request :: int

datatype request_error = Refused string | Cannot_Apply string | Limit_Failed limit_error | Bad_Type | Request_Integrity

definition lift_limit :: "limit_error + 'x \<Rightarrow> request_error + 'x" where
  "lift_limit r = map_sum Limit_Failed id r"

definition and_then :: "'e + 'x \<Rightarrow> ('x \<Rightarrow> 'e + 'y) \<Rightarrow> 'e + 'y" where
  "and_then r f = (case r of Inl e \<Rightarrow> Inl e | Inr x \<Rightarrow> f x)"

definition REQUEST_KINDS :: "string list" where
  "REQUEST_KINDS = [''window'', ''weekly'', ''rate'', ''temporary'', ''effort'']"

definition REQUEST_TOKENS_MAX :: int where "REQUEST_TOKENS_MAX = 2000000000"
definition REQUEST_WEEKLY_MAX :: int where "REQUEST_WEEKLY_MAX = 700000000"
definition REQUEST_HOURS_MAX :: int where "REQUEST_HOURS_MAX = 720"
definition REQUEST_REASON_MIN :: nat where "REQUEST_REASON_MIN = 5"
definition REQUEST_REASON_MAX :: nat where "REQUEST_REASON_MAX = 1000"

subsection \<open>What the community is offered\<close>

text \<open>The columns of the site's settings; \<open>qs_numbers\<close> has those of community_* that \<open>int()\<close> reads.\<close>

record quota_site =
  qs_auto :: bool
  qs_auto_tokens :: "int option"
  qs_auto_weekly :: "int option"
  qs_efforts :: effort_columns
  qs_community :: "int option"
  qs_kinds :: "string option"
  qs_numbers :: "string \<rightharpoonup> int"

record community_options =
  co_enabled :: bool
  co_kinds :: "string list"
  co_supporters :: int
  co_approval :: int
  co_coverage :: int
  co_hours :: int
  co_boost_hours :: int
  co_account_days :: int
  co_pledge_percent :: int

definition COMMUNITY_KINDS :: "string list" where
  "COMMUNITY_KINDS = [''window'', ''weekly'', ''rate'', ''temporary'', ''effort'']"

definition DEFAULT_KINDS :: "string list" where
  "DEFAULT_KINDS = [''window'', ''weekly'', ''temporary'']"

definition community_number :: "quota_site \<Rightarrow> string \<Rightarrow> int \<Rightarrow> int \<Rightarrow> int \<Rightarrow> int" where
  "community_number s name dflt lo hi = (case qs_numbers s name of None \<Rightarrow> dflt | Some v \<Rightarrow> max lo (min hi v))"

definition community_settings :: "quota_site \<Rightarrow> community_options" where
  "community_settings s =
     \<lparr>co_enabled = (case qs_community s of None \<Rightarrow> True | Some n \<Rightarrow> n \<noteq> 0),
      co_kinds = (case qs_kinds s of None \<Rightarrow> DEFAULT_KINDS
        | Some raw \<Rightarrow> filter (\<lambda>k. k \<in> set (map strip (split_commas raw))) COMMUNITY_KINDS),
      co_supporters = community_number s ''min_supporters'' 3 1 1000,
      co_approval = community_number s ''approval_percent'' 66 1 100,
      co_coverage = community_number s ''coverage_percent'' 100 0 100,
      co_hours = community_number s ''hours'' 72 1 720,
      co_boost_hours = community_number s ''boost_hours'' 168 1 720,
      co_account_days = community_number s ''min_account_days'' 7 0 3650,
      co_pledge_percent = community_number s ''max_pledge_percent'' 50 0 100\<rparr>"

definition offered :: "string \<Rightarrow> quota_site \<Rightarrow> bool \<Rightarrow> bool" where
  "offered kind s unlimited \<longleftrightarrow>
     (let options = community_settings s in co_enabled options \<and> kind \<in> set (co_kinds options) \<and> \<not> unlimited)"

text \<open>Free the pledges of a request that were not put in force.\<close>

definition release_pledges :: "int \<Rightarrow> stamp \<Rightarrow> stamp \<Rightarrow> ('a) usage_db_scheme \<Rightarrow> ('a) usage_db_scheme" where
  "release_pledges rid t1 t2 db =
     db\<lparr>pledges := tbl_update (\<lambda>p. pl_request p = rid \<and> pl_released p = None \<and> pl_starts p = None)
       (\<lambda>p. p\<lparr>pl_released := Some t1, pl_updated := t2\<rparr>) (pledges db)\<rparr>"

subsection \<open>Reading a request\<close>

definition in_range :: "int option \<Rightarrow> int \<Rightarrow> int \<Rightarrow> bool" where
  "in_range v lo hi = (case v of None \<Rightarrow> False | Some n \<Rightarrow> lo \<le> n \<and> n \<le> hi)"

definition ceil_credits :: "rat \<Rightarrow> int" where
  "ceil_credits v = \<lceil>v - 1 / 10 ^ 9\<rceil>"

definition request_kind :: "quota_request \<Rightarrow> string" where
  "request_kind r = (let kind = (if qr_kind r = [] then ''window'' else qr_kind r) in if kind = ''daily'' then ''window'' else kind)"

text \<open>\<open>for rule in rules\<close> raises on a number, a truth value and null; the elements of a text or an object are texts.\<close>

definition request_rules :: "quota_request \<Rightarrow> request_error + (string \<times> json) list list" where
  "request_rules r =
     (case qr_rules r of
        None \<Rightarrow> Inr []
      | Some (J_List xs) \<Rightarrow> Inr (List.map_filter (\<lambda>x. case x of
            J_Object kvs \<Rightarrow> if json_true (get_key ''per'' kvs) \<and> json_true (get_key ''requests'' kvs) then Some kvs else None | _ \<Rightarrow> None) xs)
      | Some (J_Text t) \<Rightarrow> Inr []
      | Some (J_Object kvs) \<Rightarrow> Inr []
      | Some _ \<Rightarrow> Inl Bad_Type)"

text \<open>
  The rate asked for each unit. What is stored is the document that \<open>submit_request\<close> writes, an
  integer and a text; other values raise here.
\<close>

definition asked_rule :: "(string \<times> json) list \<Rightarrow> request_error + (string \<times> int)" where
  "asked_rule kvs =
     (case (get_key ''per'' kvs, get_key ''requests'' kvs) of
        (J_Text per1, J_Num n) \<Rightarrow> Inr (per1, (if n < 0 then - \<lfloor>- n\<rfloor> else \<lfloor>n\<rfloor>)) | _ \<Rightarrow> Inl Bad_Type)"

definition asked_rates :: "quota_request \<Rightarrow> request_error + (string \<rightharpoonup> int)" where
  "asked_rates r = and_then (request_rules r) (\<lambda>rs. map_sum id (\<lambda>kvs. map_of (rev kvs)) (map_results asked_rule rs))"

definition catalog_model :: "int \<Rightarrow> ('a) usage_db_scheme \<Rightarrow> cat_model option" where
  "catalog_model i db = tbl_one (\<lambda>m. cm_id m = i) (models db)"

subsection \<open>Carrying out a request\<close>

text \<open>The custom rules: each rule of the account with the higher rate asked for, and a burst in proportion.\<close>

definition raised_rule :: "(string \<rightharpoonup> int) \<Rightarrow> rule \<Rightarrow> rule" where
  "raised_rule asked x =
     (let wanted = (case asked (per x) of None \<Rightarrow> 0 | Some n \<Rightarrow> n) in
      if requests x < wanted
      then let b = max (burst x) \<lceil>of_int (burst x * wanted) / (of_int (requests x) :: rat)\<rceil>
           in \<lparr>requests = wanted, per = per x, burst = min \<lfloor>BURST_MAX\<rfloor> b\<rparr>
      else x)"

definition tokens_json :: "rat \<Rightarrow> int \<Rightarrow> json" where
  "tokens_json base asked = J_Num (of_int (ceil_credits (max base (of_int asked))))"

definition request_reason :: "string \<Rightarrow> quota_request \<Rightarrow> string option" where
  "request_reason lead r = Some (take REASON_MAX (lead @ nat_text (nat (qr_id r)) @ '': '' @ qr_reason r))"

definition set_grant :: "int \<Rightarrow> int \<Rightarrow> request_db \<Rightarrow> request_db" where
  "set_grant rid gid db = db\<lparr>quota_requests := tbl_update (\<lambda>r. qr_id r = rid) (\<lambda>r. r\<lparr>qr_grant := Some gid\<rparr>) (quota_requests db)\<rparr>"

text \<open>\<open>now\<close>: when the grant starts; \<open>t\<close>: the stamp of the row written.\<close>

definition grant_for ::
  "quota_request \<Rightarrow> string option \<Rightarrow> int option \<Rightarrow> int option \<Rightarrow> string \<Rightarrow> stamp \<Rightarrow> stamp \<Rightarrow> request_db \<Rightarrow> request_error + request_db" where
  "grant_for r pool i amount who now t db =
     (case qr_hours r of None \<Rightarrow> Inl Bad_Type
      | Some hours \<Rightarrow> map_sum Limit_Failed (\<lambda>(gid, db1). set_grant (qr_id r) gid db1)
       (create_grant (Some (qr_user r)) pool i (if qr_unlimited r then None else Some ''window'')
         (if qr_unlimited r then ''unlimited'' else ''extra'')
         (if qr_unlimited r then J_Num 0 else case amount of None \<Rightarrow> J_Null | Some n \<Rightarrow> J_Num (of_int n))
         now (Some (now + 3600 * hours)) (request_reason ''Request #'' r) (Some who) t db))"

definition zero_if_none :: "int option \<Rightarrow> int" where
  "zero_if_none v = (case v of None \<Rightarrow> 0 | Some n \<Rightarrow> n)"

definition apply_model :: "quota_request \<Rightarrow> int \<Rightarrow> string \<Rightarrow> stamp \<Rightarrow> stamp \<Rightarrow> request_db \<Rightarrow> request_error + request_db" where
  "apply_model r i who now t db =
     (let kind = request_kind r; u = qr_user r;
          put = (\<lambda>values. map_sum Limit_Failed snd (set_model_override u i (Some who) values t db)) in
      case catalog_model i db of
        None \<Rightarrow> Inl (Cannot_Apply ''model removed'')
      | Some m \<Rightarrow> and_then (lift_limit (model_base u m db)) (\<lambda>base.
          if kind = ''window'' \<and> \<not> ba_window_on base \<or> kind = ''weekly'' \<and> \<not> ba_weekly_on base \<or> kind = ''rate'' \<and> \<not> ba_rate_on base
          then Inl (Cannot_Apply ''limit off'')
          else if kind = ''window'' then put [(''window_tokens'', tokens_json (ba_window base) (zero_if_none (qr_new_tokens r)))]
          else if kind = ''weekly'' then put [(''weekly_tokens'', tokens_json (ba_weekly base) (zero_if_none (qr_new_weekly r)))]
          else if kind = ''rate'' then
            and_then (asked_rates r) (\<lambda>asked. put [(''rate_rules'', J_List (map (\<lambda>x. rule_json (raised_rule asked x)) (ba_rules base)))])
          else if kind = ''temporary'' then
            if \<not> qr_unlimited r \<and> \<not> ba_window_on base then Inl (Cannot_Apply ''limit off'')
            else grant_for r None (Some i) (qr_new_tokens r) who now t db
          else Inl (Cannot_Apply ''kind'')))"

definition apply_request :: "quota_request \<Rightarrow> string \<Rightarrow> stamp \<Rightarrow> stamp \<Rightarrow> request_db \<Rightarrow> request_error + request_db" where
  "apply_request r who now t db =
     (let kind = request_kind r; u = qr_user r; pool = (if qr_pool r = [] then ''api'' else qr_pool r);
          automatic = (qr_source r = ''automatic'');
          put = (\<lambda>auto values. map_sum Limit_Failed snd (set_override u pool (Some who) auto values t db)) in
      if kind = ''effort'' then
        if \<not> truthy (qr_level r) then Inl (Cannot_Apply ''no level'')
        else if qr_model r = None \<and> \<not> qr_all_models r then Inl (Cannot_Apply ''model removed'')
        else map_sum Limit_Failed snd (unlock_effort u (qr_model r) (the (qr_level r)) ''request'' (Some who) t db)
      else case qr_model r of
        Some i \<Rightarrow> apply_model r i who now t db
      | None \<Rightarrow> and_then (lift_limit (base_limits_of u pool db)) (\<lambda>base.
          let new_tokens = (case qr_new_tokens r of Some n \<Rightarrow> n | None \<Rightarrow> qr_new_credits r * 1000) in
          if kind = ''window'' \<and> \<not> ba_window_on base \<or> kind = ''weekly'' \<and> \<not> ba_weekly_on base \<or> kind = ''rate'' \<and> \<not> ba_rate_on base
          then Inl (Cannot_Apply ''limit off'')
          else if kind = ''temporary'' \<and> \<not> qr_unlimited r \<and> \<not> ba_window_on base then Inl (Cannot_Apply ''limit off'')
          else if kind = ''window'' then put automatic [(''window_tokens'', tokens_json (ba_window base) new_tokens)]
          else if kind = ''weekly'' then
            put automatic [(''weekly_tokens'', tokens_json (ba_weekly base)
              (case qr_new_weekly r of Some n \<Rightarrow> n | None \<Rightarrow> zero_if_none (qr_new_weekly_credits r) * 1000))]
          else if kind = ''rate'' then
            and_then (asked_rates r) (\<lambda>asked. put False [(''rate_rules'', J_List (map (\<lambda>x. rule_json (raised_rule asked x)) (ba_rules base)))])
          else if kind = ''temporary'' then grant_for r (Some pool) None (Some new_tokens) who now t db
          else Inl (Cannot_Apply ''kind'')))"


subsection \<open>Sending, cancelling, deciding\<close>

text \<open>What is asked for; \<open>nr_count\<close> and \<open>nr_per\<close>: the rate.\<close>

record new_request =
  nr_user :: string
  nr_tokens :: "int option"
  nr_reason :: string
  nr_kind :: string
  nr_pool :: string
  nr_weekly :: "int option"
  nr_per :: "string option"
  nr_count :: "int option"
  nr_hours :: "int option"
  nr_unlimited :: bool
  nr_model :: "int option"
  nr_level :: "string option"
  nr_community :: bool

definition has_pending :: "string \<Rightarrow> ('a) request_db_scheme \<Rightarrow> bool" where
  "has_pending u db \<longleftrightarrow> list_ex (\<lambda>r. qr_user r = u \<and> qr_status r = ''pending'') (quota_requests db)"

text \<open>The columns of a request that its kind sets, all NULL or 0 at first.\<close>

definition no_values :: quota_request where
  "no_values = \<lparr>qr_id = 0, qr_user = [], qr_kind = [], qr_pool = [], qr_new_credits = 0, qr_new_weekly_credits = None,
     qr_new_tokens = None, qr_new_weekly = None, qr_rules = None, qr_hours = None, qr_unlimited = False, qr_model = None,
     qr_level = None, qr_all_models = False, qr_reason = [], qr_duration = ''permanent'', qr_status = ''pending'',
     qr_source = ''manual'', qr_created = 0, qr_resolved = None, qr_resolved_by = None, qr_message = None, qr_grant = None,
     qr_community = False, qr_until = None, qr_closed = None, qr_cancelled = None, qr_boost_ends = None\<rparr>"

text \<open>The values by kind, with whether the request is approved at once.\<close>

definition window_values :: "new_request \<Rightarrow> base_limits \<Rightarrow> quota_site \<Rightarrow> request_error + (quota_request \<times> bool)" where
  "window_values q base s =
     (if \<not> ba_window_on base then Inl (Refused ''quota_not_limited'')
      else if \<not> in_range (nr_tokens q) 1 REQUEST_TOKENS_MAX then Inl (Refused ''quota_range'')
      else if of_int (the (nr_tokens q)) \<le> ba_window base then Inl (Refused ''quota_must_raise'')
      else Inr (no_values\<lparr>qr_new_tokens := nr_tokens q\<rparr>,
        qs_auto s \<and> nr_model q = None \<and> the (nr_tokens q) \<le> zero_if_none (qs_auto_tokens s)))"

definition weekly_values :: "new_request \<Rightarrow> base_limits \<Rightarrow> quota_site \<Rightarrow> request_error + (quota_request \<times> bool)" where
  "weekly_values q base s =
     (if \<not> ba_weekly_on base then Inl (Refused ''quota_not_limited'')
      else if \<not> in_range (nr_weekly q) 1 REQUEST_WEEKLY_MAX then Inl (Refused ''quota_range'')
      else if of_int (the (nr_weekly q)) \<le> ba_weekly base then Inl (Refused ''quota_must_raise'')
      else Inr (no_values\<lparr>qr_new_weekly := nr_weekly q\<rparr>,
        qs_auto s \<and> nr_model q = None \<and> 0 < zero_if_none (qs_auto_weekly s) \<and> the (nr_weekly q) \<le> zero_if_none (qs_auto_weekly s)))"

definition rate_values :: "new_request \<Rightarrow> base_limits \<Rightarrow> request_error + (quota_request \<times> bool)" where
  "rate_values q base =
     (if \<not> ba_rate_on base then Inl (Refused ''quota_not_limited'')
      else case List.find (\<lambda>x. Some (per x) = nr_per q) (ba_rules base) of
        None \<Rightarrow> Inl (Refused ''quota_rate_range'')
      | Some current \<Rightarrow>
          if \<not> in_range (nr_count q) 1 \<lfloor>REQUESTS_MAX\<rfloor> then Inl (Refused ''quota_rate_range'')
          else if the (nr_count q) \<le> requests current then Inl (Refused ''quota_must_raise'')
          else Inr (no_values\<lparr>qr_rules := Some (J_List [J_Object [(''requests'', J_Num (of_int (the (nr_count q)))), (''per'', J_Text (per current))]])\<rparr>, False))"

definition site_user :: "string \<Rightarrow> ('a) request_db_scheme \<Rightarrow> account option" where
  "site_user u db = tbl_one (\<lambda>x. acc_id x = u) (site_users db)"

definition effort_values :: "new_request \<Rightarrow> quota_site \<Rightarrow> ('a) request_db_scheme \<Rightarrow> request_error + (quota_request \<times> bool)" where
  "effort_values q s db =
     (let level = (case nr_level q of None \<Rightarrow> None | Some l \<Rightarrow> if l \<in> set (tl EFFORT_LEVELS) then Some l else None);
          model = (case nr_model q of None \<Rightarrow> None | Some i \<Rightarrow>
            (case (catalog_model i db, tbl_one (\<lambda>e. em_id e = i) (effort_cols db)) of (Some m, Some e) \<Rightarrow> Some (m, e) | _ \<Rightarrow> None));
          site = effort_settings (qs_efforts s); prefs = user_settings (nr_user q) db; own = effort_levels (nr_user q) db
      in if nr_model q \<noteq> None \<and> (case model of None \<Rightarrow> True | Some (m, e) \<Rightarrow> supported_efforts e = []) then Inl (Refused ''quota_effort_model'')
         else case level of None \<Rightarrow> Inl (Refused ''quota_effort_level'')
         | Some l \<Rightarrow>
         (case site_user (nr_user q) db of None \<Rightarrow> Inl Request_Integrity
         | Some user \<Rightarrow>
             let admin = (role user = ''admin'') in
             and_then (case model of
                 Some (m, e) \<Rightarrow> map_sum Limit_Failed (\<lambda>p. (case effort_ceiling admin e p prefs site own of None \<Rightarrow> ''off'' | Some c \<Rightarrow> c))
                   (get_model_policy (cm_id m, cm_preset m) db)
               | None \<Rightarrow> Inr (case own None of Some x \<Rightarrow> ef_level x | None \<Rightarrow> es_default site))
               (\<lambda>ceiling.
                 if \<not> effort_gated admin prefs site None \<or> effort_rank l \<le> effort_rank ceiling then Inl (Refused ''quota_effort_already'')
                 else Inr (no_values\<lparr>qr_model := nr_model q, qr_level := Some l, qr_all_models := (nr_model q = None)\<rparr>, False))))"

definition temporary_values :: "new_request \<Rightarrow> base_limits \<Rightarrow> request_error + (quota_request \<times> bool)" where
  "temporary_values q base =
     (if \<not> in_range (nr_hours q) 1 REQUEST_HOURS_MAX then Inl (Refused ''quota_hours_range'')
      else if \<not> nr_unlimited q \<and> \<not> ba_window_on base then Inl (Refused ''quota_temporary_no_window'')
      else if \<not> nr_unlimited q \<and> \<not> in_range (nr_tokens q) 1 REQUEST_TOKENS_MAX then Inl (Refused ''quota_range'')
      else Inr (no_values\<lparr>qr_new_tokens := (if nr_unlimited q then Some 0 else nr_tokens q), qr_hours := nr_hours q,
        qr_unlimited := nr_unlimited q\<rparr>, False))"

definition request_values :: "new_request \<Rightarrow> base_limits \<Rightarrow> quota_site \<Rightarrow> ('a) request_db_scheme \<Rightarrow> request_error + (quota_request \<times> bool)" where
  "request_values q base s db =
     (if nr_kind q = ''window'' then window_values q base s else if nr_kind q = ''weekly'' then weekly_values q base s
      else if nr_kind q = ''rate'' then rate_values q base else if nr_kind q = ''effort'' then effort_values q s db
      else temporary_values q base)"

text \<open>The row stored, from the values of its kind.\<close>

definition request_row :: "new_request \<Rightarrow> quota_request \<Rightarrow> bool \<Rightarrow> quota_site \<Rightarrow> int \<Rightarrow> stamp \<Rightarrow> stamp \<Rightarrow> stamp \<Rightarrow> quota_request" where
  "request_row q v automatic s rid t1 t2 t3 =
     (let votes = (nr_community q \<and> \<not> automatic \<and> offered (nr_kind q) s (qr_unlimited v)) in
      v\<lparr>qr_id := rid, qr_user := nr_user q, qr_kind := nr_kind q, qr_pool := (if nr_kind q = ''effort'' then ''chat'' else nr_pool q),
        qr_new_credits := ceil_credits (of_int (zero_if_none (qr_new_tokens v)) / 1000),
        qr_new_weekly_credits := (if zero_if_none (qr_new_weekly v) = 0 then None else Some (ceil_credits (of_int (the (qr_new_weekly v)) / 1000))),
        qr_model := (if nr_kind q = ''effort'' then qr_model v else nr_model q), qr_reason := strip (nr_reason q),
        qr_status := (if automatic then ''approved'' else ''pending''), qr_source := (if automatic then ''automatic'' else ''manual''),
        qr_created := t2, qr_resolved := (if automatic then Some t3 else None), qr_community := votes,
        qr_until := (if votes then Some (t1 + 3600 * co_hours (community_settings s)) else None)\<rparr>)"

text \<open>
  \<open>submit_request\<close>. The stamps in the order the code reads them: for the end of the voting, the row,
  its resolution, then those of carrying it out. The result is the id and the status.
\<close>

definition store_request ::
  "new_request \<Rightarrow> quota_request \<Rightarrow> bool \<Rightarrow> quota_site \<Rightarrow> stamp \<Rightarrow> stamp \<Rightarrow> stamp \<Rightarrow> stamp \<Rightarrow> stamp \<Rightarrow> request_db
    \<Rightarrow> request_error + ((int \<times> string) \<times> request_db)" where
  "store_request q v automatic s t1 t2 t3 t4 t5 db =
     (let row = request_row q v automatic s (next_request db) t1 t2 t3;
          db1 = db\<lparr>quota_requests := quota_requests db @ [row], next_request := next_request db + 1\<rparr>
      in if \<not> known (Some (nr_user q)) db then Inl Request_Integrity
         else map_sum id (\<lambda>d. ((qr_id row, qr_status row), d)) (if automatic then apply_request row (nr_user q) t4 t5 db1 else Inr db1))"

definition submit_base :: "new_request \<Rightarrow> ('a) usage_db_scheme \<Rightarrow> limit_error + base_limits" where
  "submit_base q db =
     (case (if nr_kind q = ''effort'' then None else nr_model q) of
        Some i \<Rightarrow> model_base (nr_user q) (the (catalog_model i db)) db | None \<Rightarrow> base_limits_of (nr_user q) (nr_pool q) db)"

definition submit_checked ::
  "new_request \<Rightarrow> quota_site \<Rightarrow> stamp \<Rightarrow> stamp \<Rightarrow> stamp \<Rightarrow> stamp \<Rightarrow> stamp \<Rightarrow> request_db \<Rightarrow> request_error + ((int \<times> string) \<times> request_db)" where
  "submit_checked q s t1 t2 t3 t4 t5 db =
     (if nr_kind q \<noteq> ''effort'' \<and> (case nr_model q of None \<Rightarrow> False | Some i \<Rightarrow> catalog_model i db = None) then Inl (Refused ''quota_failed'')
      else and_then (lift_limit (submit_base q db)) (\<lambda>base.
        if has_pending (nr_user q) db then Inl (Refused ''quota_already_pending'')
        else and_then (request_values q base s db) (\<lambda>(v, automatic). store_request q v automatic s t1 t2 t3 t4 t5 db)))"

definition submit_request ::
  "new_request \<Rightarrow> quota_site \<Rightarrow> stamp \<Rightarrow> stamp \<Rightarrow> stamp \<Rightarrow> stamp \<Rightarrow> stamp \<Rightarrow> request_db \<Rightarrow> request_error + ((int \<times> string) \<times> request_db)" where
  "submit_request q s t1 t2 t3 t4 t5 db =
     (let kind = (if nr_kind q = ''daily'' then ''window'' else nr_kind q) in
      if kind \<notin> set REQUEST_KINDS \<or> nr_pool q \<notin> set POOLS then Inl (Refused ''quota_failed'')
      else if length (strip (nr_reason q)) < REQUEST_REASON_MIN \<or> REQUEST_REASON_MAX < length (strip (nr_reason q))
      then Inl (Refused ''quota_reason_length'')
      else submit_checked (q\<lparr>nr_kind := kind\<rparr>) s t1 t2 t3 t4 t5 db)"

definition request_get :: "int \<Rightarrow> ('a) request_db_scheme \<Rightarrow> quota_request option" where
  "request_get rid db = tbl_one (\<lambda>r. qr_id r = rid) (quota_requests db)"

definition update_request :: "(quota_request \<Rightarrow> bool) \<Rightarrow> (quota_request \<Rightarrow> quota_request) \<Rightarrow> request_db \<Rightarrow> request_db" where
  "update_request p f db = db\<lparr>quota_requests := tbl_update p f (quota_requests db)\<rparr>"

definition cancel_request :: "int \<Rightarrow> string \<Rightarrow> stamp \<Rightarrow> stamp \<Rightarrow> stamp \<Rightarrow> stamp \<Rightarrow> request_db \<Rightarrow> bool \<times> request_db" where
  "cancel_request rid u t1 t2 t3 t4 db =
     (let p = (\<lambda>r. qr_id r = rid \<and> qr_user r = u \<and> qr_status r = ''pending'');
          db1 = update_request p (\<lambda>r. r\<lparr>qr_status := ''cancelled'', qr_cancelled := Some t1, qr_resolved := Some t2\<rparr>) db
      in if tbl_count p (quota_requests db) = 1 then (True, release_pledges rid t3 t4 db1) else (False, db1))"

definition pending_request :: "string \<Rightarrow> ('a) request_db_scheme \<Rightarrow> quota_request option" where
  "pending_request u db = tbl_one (\<lambda>r. qr_user r = u \<and> qr_status r = ''pending'') (quota_requests db)"

definition user_requests :: "string \<Rightarrow> nat \<Rightarrow> ('a) request_db_scheme \<Rightarrow> quota_request list" where
  "user_requests u limit db = take limit (sort_key (\<lambda>r. - qr_id r) (filter (\<lambda>r. qr_user r = u) (quota_requests db)))"

definition list_requests :: "string option \<Rightarrow> nat \<Rightarrow> ('a) request_db_scheme \<Rightarrow> quota_request list" where
  "list_requests status limit db =
     take limit (sort_key (\<lambda>r. - qr_id r) (filter (\<lambda>r. truthy status \<longrightarrow> Some (qr_status r) = status) (quota_requests db)))"

definition decided_row :: "bool \<Rightarrow> string \<Rightarrow> stamp \<Rightarrow> string \<Rightarrow> quota_request \<Rightarrow> quota_request" where
  "decided_row approved note t admin r =
     r\<lparr>qr_status := (if approved then ''approved'' else ''denied''), qr_message := (if note = [] then None else Some (take 1000 note)),
       qr_resolved := Some t, qr_resolved_by := Some admin\<rparr>"

text \<open>\<open>resolve_request\<close>; the stamps of carrying it out (\<open>t1\<close>, \<open>t2\<close>), of the decision and of the release.\<close>

definition resolve_quota ::
  "int \<Rightarrow> string \<Rightarrow> bool \<Rightarrow> string \<Rightarrow> stamp \<Rightarrow> stamp \<Rightarrow> stamp \<Rightarrow> stamp \<Rightarrow> stamp \<Rightarrow> request_db \<Rightarrow> request_error + request_db" where
  "resolve_quota rid admin approved note t1 t2 t3 t4 t5 db =
     (case request_get rid db of
        None \<Rightarrow> Inl (Cannot_Apply ''already resolved'')
      | Some r \<Rightarrow>
          if qr_status r \<noteq> ''pending'' then Inl (Cannot_Apply ''already resolved'')
          else if approved \<and> qr_duration r \<noteq> ''permanent'' then Inl (Cannot_Apply ''temporary'')
          else and_then (if approved then apply_request r admin t1 t2 db else Inr db) (\<lambda>db1.
            if \<not> known (Some admin) db1 then Inl Request_Integrity
            else Inr (release_pledges rid t4 t5 (update_request (\<lambda>x. qr_id x = rid) (decided_row approved note t3 admin) db1))))"

subsection \<open>What carrying out a request leaves alone\<close>

lemma and_then_Inr: "and_then r f = Inr y \<longleftrightarrow> (\<exists>x. r = Inr x \<and> f x = Inr y)"
  by (cases r) (simp_all add: and_then_def)

lemma lift_limit_Inr [simp]: "lift_limit r = Inr x \<longleftrightarrow> r = Inr x"
  by (cases r) (simp_all add: lift_limit_def)

text \<open>The requests and the votes are not touched by the tables of limits.\<close>

definition same_requests :: "request_db \<Rightarrow> request_db \<Rightarrow> bool" where
  "same_requests db d \<longleftrightarrow> quota_requests d = quota_requests db \<and> next_request d = next_request db \<and> pledges d = pledges db \<and>
     next_pledge d = next_pledge db \<and> accounts d = accounts db \<and> site_users d = site_users db"

lemma same_requests_refl [simp]: "same_requests db db"
  by (simp add: same_requests_def)

lemma set_override_requests: "set_override u pool who auto values t db = Inr (x, d) \<Longrightarrow> same_requests db d"
  by (auto simp: set_override_def Let_def map_sum_Inr same_requests_def split: if_splits sum.splits)

lemma set_model_override_requests: "set_model_override u i who values t db = Inr (x, d) \<Longrightarrow> same_requests db d"
  by (auto simp: set_model_override_def Let_def map_sum_Inr same_requests_def split: if_splits sum.splits option.splits)

lemma create_grant_requests: "create_grant u pool i scope kind amount t0 ends reason who t db = Inr (x, d) \<Longrightarrow> same_requests db d"
  by (auto simp: create_grant_def same_requests_def split: if_splits sum.splits)

lemma unlock_effort_requests: "unlock_effort u i level source who t db = Inr (x, d) \<Longrightarrow> same_requests db d"
  by (auto simp: unlock_effort_def set_effort_level_def Let_def map_sum_Inr same_requests_def split: if_splits option.splits)

text \<open>
  A step touches at most the request \<open>rid\<close>: its row keeps its id and account, and does not become pending again.
\<close>

definition row_kept :: "quota_request \<Rightarrow> quota_request \<Rightarrow> bool" where
  "row_kept r s \<longleftrightarrow> qr_id s = qr_id r \<and> qr_user s = qr_user r \<and> (qr_status s = ''pending'' \<longrightarrow> qr_status r = ''pending'')"

definition touches :: "int \<Rightarrow> request_db \<Rightarrow> request_db \<Rightarrow> bool" where
  "touches rid db d \<longleftrightarrow> next_request d = next_request db \<and>
     (\<exists>f. quota_requests d = tbl_update (\<lambda>r. qr_id r = rid) f (quota_requests db) \<and> (\<forall>r. row_kept r (f r)))"

lemma row_kept_refl [simp]: "row_kept r r"
  by (simp add: row_kept_def)

lemma row_kept_trans: "row_kept a b \<Longrightarrow> row_kept b c \<Longrightarrow> row_kept a c"
  by (simp add: row_kept_def)

lemma touches_same: "same_requests db d \<Longrightarrow> touches rid db d"
  unfolding touches_def same_requests_def by (intro conjI exI [of _ "\<lambda>r. r"]) (simp_all add: tbl_update_def)

lemma touches_update: "(\<And>r. row_kept r (f r)) \<Longrightarrow> touches rid db (update_request (\<lambda>r. qr_id r = rid) f db)"
  unfolding touches_def update_request_def by (intro conjI exI [of _ f]) simp_all

lemma touches_trans: "touches rid a b \<Longrightarrow> touches rid b c \<Longrightarrow> touches rid a c"
proof -
  assume a: "touches rid a b" and b: "touches rid b c"
  from a obtain f where f: "quota_requests b = tbl_update (\<lambda>r. qr_id r = rid) f (quota_requests a)" "\<forall>r. row_kept r (f r)"
    unfolding touches_def by blast
  from b obtain g where g: "quota_requests c = tbl_update (\<lambda>r. qr_id r = rid) g (quota_requests b)" "\<forall>r. row_kept r (g r)"
    unfolding touches_def by blast
  have "quota_requests c = tbl_update (\<lambda>r. qr_id r = rid) (\<lambda>r. g (f r)) (quota_requests a)"
    unfolding g(1) f(1) by (rule tbl_update_twice) (use f(2) in \<open>simp add: row_kept_def\<close>)
  moreover have "row_kept r (g (f r))" for r using row_kept_trans [of r "f r" "g (f r)"] f(2) g(2) by simp
  moreover have "next_request c = next_request a" using a b by (simp add: touches_def)
  ultimately show ?thesis unfolding touches_def by blast
qed

lemma touches_release [simp]: "touches rid db (release_pledges n t1 t2 d) \<longleftrightarrow> touches rid db d"
  by (simp add: touches_def release_pledges_def)

lemma set_grant_touches: "touches rid db (set_grant rid gid db)"
  unfolding set_grant_def update_request_def [symmetric] by (rule touches_update) (simp add: row_kept_def)

lemma grant_for_touches: "grant_for r pool i amount who now t db = Inr d \<Longrightarrow> touches (qr_id r) db d"
  by (auto simp: grant_for_def map_sum_Inr split: option.splits dest!: create_grant_requests
      intro: touches_trans [OF touches_same set_grant_touches])

lemma apply_model_touches: "apply_model r i who now t db = Inr d \<Longrightarrow> touches (qr_id r) db d"
  by (auto simp: apply_model_def Let_def and_then_Inr map_sum_Inr split: option.splits if_splits
      dest: set_model_override_requests intro: touches_same grant_for_touches)

lemma apply_touches: "apply_request r who now t db = Inr d \<Longrightarrow> touches (qr_id r) db d"
  by (auto simp: apply_request_def Let_def and_then_Inr map_sum_Inr split: option.splits if_splits
      dest: set_override_requests unlock_effort_requests intro: touches_same grant_for_touches apply_model_touches)

subsection \<open>Requests are decided once\<close>

definition wf_requests :: "request_db \<Rightarrow> bool" where
  "wf_requests db \<longleftrightarrow> distinct (map qr_id (quota_requests db)) \<and> (\<forall>r \<in> set (quota_requests db). qr_id r < next_request db) \<and>
     distinct (map qr_user (filter (\<lambda>r. qr_status r = ''pending'') (quota_requests db)))"

definition decided_kept :: "request_db \<Rightarrow> request_db \<Rightarrow> bool" where
  "decided_kept db d \<longleftrightarrow> (\<forall>r \<in> set (quota_requests db). qr_status r \<noteq> ''pending'' \<longrightarrow> r \<in> set (quota_requests d))"

definition pending_id :: "int \<Rightarrow> request_db \<Rightarrow> bool" where
  "pending_id rid db \<longleftrightarrow> (\<forall>r \<in> set (quota_requests db). qr_id r = rid \<longrightarrow> qr_status r = ''pending'')"

lemma request_get_pending: "wf_requests db \<Longrightarrow> request_get rid db = Some r \<Longrightarrow> qr_status r = ''pending'' \<Longrightarrow> pending_id rid db"
  by (auto simp: wf_requests_def request_get_def pending_id_def distinct_map inj_on_def dest!: tbl_one_SomeD)

lemma touches_keeps:
  assumes wf: "wf_requests db" and t: "touches rid db d" and p: "pending_id rid db"
  shows "wf_requests d \<and> decided_kept db d"
proof -
  from t obtain f where f: "quota_requests d = tbl_update (\<lambda>r. qr_id r = rid) f (quota_requests db)" "\<forall>r. row_kept r (f r)"
    unfolding touches_def by blast
  have n: "next_request d = next_request db" using t by (simp add: touches_def)
  have ids: "map qr_id (quota_requests d) = map qr_id (quota_requests db)" using f(2) by (simp add: f(1) tbl_update_def row_kept_def)
  let ?pend = "\<lambda>r. qr_status r = ''pending''" and ?f = "\<lambda>r. if qr_id r = rid then f r else r"
  have "quota_requests d = map ?f (quota_requests db)" by (simp add: f(1) tbl_update_def)
  then have "filter ?pend (quota_requests d) = map ?f (filter (\<lambda>r. ?pend (?f r)) (quota_requests db))" by (simp add: filter_map o_def)
  also have "filter (\<lambda>r. ?pend (?f r)) (quota_requests db) = filter (\<lambda>r. ?pend (?f r)) (filter ?pend (quota_requests db))"
    unfolding filter_filter using f(2) by (intro filter_cong refl) (auto simp: row_kept_def)
  finally have "map qr_user (filter ?pend (quota_requests d)) = map qr_user (map ?f (filter (\<lambda>r. ?pend (?f r)) (filter ?pend (quota_requests db))))"
    by (rule arg_cong)
  also have "\<dots> = map qr_user (filter (\<lambda>r. ?pend (?f r)) (filter ?pend (quota_requests db)))"
    unfolding map_map by (rule map_cong [OF refl]) (use f(2) in \<open>simp add: row_kept_def\<close>)
  finally have "map qr_user (filter ?pend (quota_requests d)) = map qr_user (filter (\<lambda>r. ?pend (?f r)) (filter ?pend (quota_requests db)))" .
  then have users: "distinct (map qr_user (filter ?pend (quota_requests d)))"
    using wf unfolding wf_requests_def by (simp only: distinct_map_filter)
  have "qr_id r < next_request db" if r: "r \<in> set (quota_requests d)" for r
  proof -
    from r ids have "qr_id r \<in> set (map qr_id (quota_requests db))" by (metis image_eqI set_map)
    with wf show ?thesis by (auto simp: wf_requests_def)
  qed
  with wf users have "wf_requests d" unfolding wf_requests_def ids n by blast
  moreover have "r \<in> set (quota_requests d)" if "r \<in> set (quota_requests db)" "qr_status r \<noteq> ''pending''" for r
    using that p by (auto simp: f(1) set_tbl_update pending_id_def)
  ultimately show ?thesis by (simp add: decided_kept_def)
qed

lemma decided_kept_trans: "decided_kept a b \<Longrightarrow> decided_kept b c \<Longrightarrow> decided_kept a c"
  by (auto simp: decided_kept_def)

lemma resolve_quota_Inr:
  assumes "resolve_quota rid admin approved note t1 t2 t3 t4 t5 db = Inr d"
  obtains r db1 where "request_get rid db = Some r" "qr_status r = ''pending''"
    "(if approved then apply_request r admin t1 t2 db else Inr db) = Inr db1"
    "d = release_pledges rid t4 t5 (update_request (\<lambda>x. qr_id x = rid) (decided_row approved note t3 admin) db1)"
proof (cases "request_get rid db")
  case (Some r)
  with assms show ?thesis
    by (cases "if approved then apply_request r admin t1 t2 db else Inr db")
      (auto simp: resolve_quota_def and_then_def intro: that split: if_split_asm)
qed (use assms in \<open>simp add: resolve_quota_def\<close>)

lemma decided_row_kept: "row_kept r (decided_row approved note t admin r)"
  by (simp add: row_kept_def decided_row_def)

lemma resolve_touches: "resolve_quota rid admin approved note t1 t2 t3 t4 t5 db = Inr d \<Longrightarrow> touches rid db d"
proof (erule resolve_quota_Inr)
  fix r db1 assume r: "request_get rid db = Some r" "qr_status r = ''pending''"
    and ap: "(if approved then apply_request r admin t1 t2 db else Inr db) = Inr db1"
    and d1: "d = release_pledges rid t4 t5 (update_request (\<lambda>x. qr_id x = rid) (decided_row approved note t3 admin) db1)"
  have rid: "qr_id r = rid" using r by (auto simp: request_get_def dest: tbl_one_SomeD)
  have "touches rid db db1"
  proof (cases approved)
    case True
    with ap apply_touches [of r admin t1 t2 db db1] rid show ?thesis by simp
  qed (use ap touches_same in \<open>simp add: same_requests_def\<close>)
  from touches_trans [OF this touches_update [OF decided_row_kept]] show "touches rid db d" unfolding d1 touches_release .
qed

lemma resolve_keeps:
  assumes wf: "wf_requests db" and d: "resolve_quota rid admin approved note t1 t2 t3 t4 t5 db = Inr d"
  shows "wf_requests d \<and> decided_kept db d"
  using d
proof (rule resolve_quota_Inr)
  fix r db1 assume "request_get rid db = Some r" "qr_status r = ''pending''"
  from touches_keeps [OF wf resolve_touches [OF d] request_get_pending [OF wf this]] show ?thesis .
qed

lemma cancel_touches: "touches rid db (snd (cancel_request rid u t1 t2 t3 t4 db))"
proof -
  let ?f = "\<lambda>r. r\<lparr>qr_status := ''cancelled'', qr_cancelled := Some t1, qr_resolved := Some t2\<rparr>"
  let ?g = "\<lambda>r. if qr_user r = u \<and> qr_status r = ''pending'' then ?f r else r"
  have "quota_requests (snd (cancel_request rid u t1 t2 t3 t4 db)) = tbl_update (\<lambda>r. qr_id r = rid) ?g (quota_requests db)"
    by (simp add: cancel_request_def Let_def update_request_def release_pledges_def tbl_update_def)
  moreover have "next_request (snd (cancel_request rid u t1 t2 t3 t4 db)) = next_request db"
    by (simp add: cancel_request_def Let_def update_request_def release_pledges_def)
  moreover have "row_kept r (?g r)" for r by (simp add: row_kept_def)
  ultimately show ?thesis unfolding touches_def by blast
qed

lemma cancel_keeps:
  assumes wf: "wf_requests db"
  shows "wf_requests (snd (cancel_request rid u t1 t2 t3 t4 db)) \<and> decided_kept db (snd (cancel_request rid u t1 t2 t3 t4 db))"
proof -
  let ?f = "\<lambda>r. r\<lparr>qr_status := ''cancelled'', qr_cancelled := Some t1, qr_resolved := Some t2\<rparr>"
  let ?p = "\<lambda>r. qr_id r = rid \<and> qr_user r = u \<and> qr_status r = ''pending''"
  note t = cancel_touches [of rid db u t1 t2 t3 t4]
  show ?thesis
  proof (cases "pending_id rid db")
    case True
    from touches_keeps [OF wf t True] show ?thesis .
  next
    case False
    then obtain r where r: "r \<in> set (quota_requests db)" "qr_id r = rid" "qr_status r \<noteq> ''pending''" by (auto simp: pending_id_def)
    have "x = r" if "x \<in> set (quota_requests db)" "qr_id x = rid" for x
      using that r(1,2) wf unfolding wf_requests_def distinct_map inj_on_def by blast
    then have "\<not> ?p x" if "x \<in> set (quota_requests db)" for x using that r(3) by blast
    then have "tbl_update ?p ?f (quota_requests db) = quota_requests db" by (rule tbl_update_none)
    then have "quota_requests (snd (cancel_request rid u t1 t2 t3 t4 db)) = quota_requests db"
      by (simp add: cancel_request_def Let_def update_request_def release_pledges_def)
    moreover have "next_request (snd (cancel_request rid u t1 t2 t3 t4 db)) = next_request db"
      by (simp add: cancel_request_def Let_def update_request_def release_pledges_def)
    ultimately show ?thesis using wf by (simp add: wf_requests_def decided_kept_def)
  qed
qed

lemma appended_keeps:
  assumes wf: "wf_requests db" and none: "\<not> has_pending (qr_user row) db" and row: "qr_id row = next_request db"
  shows "wf_requests (db\<lparr>quota_requests := quota_requests db @ [row], next_request := next_request db + 1\<rparr>)"
  using assms by (force simp: wf_requests_def has_pending_def list_ex_iff)

lemma request_row_key [simp]: "qr_id (request_row q v automatic s rid t1 t2 t3) = rid" "qr_user (request_row q v automatic s rid t1 t2 t3) = nr_user q"
  "qr_status (request_row q v automatic s rid t1 t2 t3) = (if automatic then ''approved'' else ''pending'')"
  by (simp_all add: request_row_def Let_def)

definition asked_kind :: "new_request \<Rightarrow> string" where
  "asked_kind q = (if nr_kind q = ''daily'' then ''window'' else nr_kind q)"

lemma submit_Inr:
  assumes "submit_request q s t1 t2 t3 t4 t5 db = Inr (x, d)"
  obtains base v automatic where "asked_kind q \<in> set REQUEST_KINDS" "\<not> has_pending (nr_user q) db"
    "submit_base (q\<lparr>nr_kind := asked_kind q\<rparr>) db = Inr base"
    "request_values (q\<lparr>nr_kind := asked_kind q\<rparr>) base s db = Inr (v, automatic)"
    "store_request (q\<lparr>nr_kind := asked_kind q\<rparr>) v automatic s t1 t2 t3 t4 t5 db = Inr (x, d)"
proof -
  have c: "submit_checked (q\<lparr>nr_kind := asked_kind q\<rparr>) s t1 t2 t3 t4 t5 db = Inr (x, d)" and k: "asked_kind q \<in> set REQUEST_KINDS"
    using assms by (simp_all add: submit_request_def Let_def asked_kind_def split: if_split_asm)
  from c obtain base where base: "submit_base (q\<lparr>nr_kind := asked_kind q\<rparr>) db = Inr base" "\<not> has_pending (nr_user q) db"
    and rest: "and_then (request_values (q\<lparr>nr_kind := asked_kind q\<rparr>) base s db)
      (\<lambda>(v, automatic). store_request (q\<lparr>nr_kind := asked_kind q\<rparr>) v automatic s t1 t2 t3 t4 t5 db) = Inr (x, d)"
    by (auto simp: submit_checked_def and_then_Inr split: if_split_asm)
  from rest obtain v automatic where "request_values (q\<lparr>nr_kind := asked_kind q\<rparr>) base s db = Inr (v, automatic)"
    "store_request (q\<lparr>nr_kind := asked_kind q\<rparr>) v automatic s t1 t2 t3 t4 t5 db = Inr (x, d)"
    by (auto simp: and_then_Inr)
  with that k base show ?thesis by blast
qed

lemma store_keeps:
  assumes wf: "wf_requests db" and none: "\<not> has_pending (nr_user q) db" and st: "store_request q v automatic s t1 t2 t3 t4 t5 db = Inr (x, d)"
  shows "wf_requests d \<and> decided_kept db d"
proof -
  let ?row = "request_row q v automatic s (next_request db) t1 t2 t3"
  let ?d1 = "db\<lparr>quota_requests := quota_requests db @ [?row], next_request := next_request db + 1\<rparr>"
  have ap: "(if automatic then apply_request ?row (nr_user q) t4 t5 ?d1 else Inr ?d1) = Inr d"
    using st by (auto simp: store_request_def Let_def map_sum_Inr split: if_split_asm)
  have "touches (next_request db) ?d1 d"
  proof (cases automatic)
    case True
    with ap apply_touches [of ?row "nr_user q" t4 t5 ?d1 d] show ?thesis by simp
  qed (use ap touches_same in \<open>simp add: same_requests_def\<close>)
  then obtain f where f: "quota_requests d = tbl_update (\<lambda>r. qr_id r = next_request db) f (quota_requests db @ [?row])" "\<forall>r. row_kept r (f r)"
    and n: "next_request d = next_request db + 1" unfolding touches_def by auto
  have "tbl_update (\<lambda>r. qr_id r = next_request db) f (quota_requests db) = quota_requests db"
    using wf by (intro tbl_update_none) (auto simp: wf_requests_def)
  then have rs: "quota_requests d = quota_requests db @ [f ?row]" by (simp add: f(1) tbl_simps)
  have key: "qr_id (f ?row) = next_request db" "qr_user (f ?row) = nr_user q" using f(2) by (auto simp: row_kept_def)
  from appended_keeps [OF wf, of "f ?row"] none key n show ?thesis by (simp add: wf_requests_def decided_kept_def rs)
qed

lemma submit_keeps:
  assumes "wf_requests db" and d: "submit_request q s t1 t2 t3 t4 t5 db = Inr (x, d)"
  shows "wf_requests d \<and> decided_kept db d"
  using d by (rule submit_Inr) (rule store_keeps [OF assms(1)], auto)

subsection \<open>What is approved at once\<close>

lemma window_values_Inr: "window_values q base s = Inr (v, automatic) \<Longrightarrow> automatic \<Longrightarrow>
    qs_auto s \<and> nr_model q = None \<and> (\<exists>n. nr_tokens q = Some n \<and> n \<le> zero_if_none (qs_auto_tokens s) \<and> ba_window base < of_int n)"
  by (auto simp: window_values_def in_range_def split: if_splits option.splits)

lemma weekly_values_Inr: "weekly_values q base s = Inr (v, automatic) \<Longrightarrow> automatic \<Longrightarrow>
    qs_auto s \<and> nr_model q = None \<and> (\<exists>n. nr_weekly q = Some n \<and> n \<le> zero_if_none (qs_auto_weekly s) \<and> ba_weekly base < of_int n)"
  by (auto simp: weekly_values_def in_range_def split: if_splits option.splits)

lemma manual_values: "nr_kind q \<noteq> ''window'' \<Longrightarrow> nr_kind q \<noteq> ''weekly'' \<Longrightarrow> request_values q base s db = Inr (v, automatic) \<Longrightarrow> \<not> automatic"
  by (auto simp: request_values_def rate_values_def effort_values_def temporary_values_def and_then_Inr Let_def split: if_splits option.splits prod.splits)

text \<open>What is approved without an administrator. A request that is sent comes back approved only when the
  site approves automatically, it asks for a service's 5-hour or weekly tokens (no model, rate, grant or
  reasoning level), more than the account has now and at most the amount set for automatic approval;
  every other request that is accepted waits, and changes nothing but the table of requests.\<close>

theorem automatic_approval_bounded:
  assumes "submit_request q s t1 t2 t3 t4 t5 db = Inr ((rid, status), d)"
  shows "(status = ''approved'' \<and> qs_auto s \<and> nr_model q = None \<and>
      (\<exists>base. base_limits_of (nr_user q) (nr_pool q) db = Inr base \<and>
        (asked_kind q = ''window'' \<and> (\<exists>n. nr_tokens q = Some n \<and> n \<le> zero_if_none (qs_auto_tokens s) \<and> ba_window base < of_int n) \<or>
         asked_kind q = ''weekly'' \<and> (\<exists>n. nr_weekly q = Some n \<and> n \<le> zero_if_none (qs_auto_weekly s) \<and> ba_weekly base < of_int n)))) \<or>
    (status = ''pending'' \<and> (\<exists>r. qr_status r = ''pending'' \<and> qr_user r = nr_user q \<and> qr_id r = rid \<and>
      d = db\<lparr>quota_requests := quota_requests db @ [r], next_request := next_request db + 1\<rparr>))"
  using assms
proof (rule submit_Inr)
  let ?q = "q\<lparr>nr_kind := asked_kind q\<rparr>"
  fix base v automatic
  assume base: "submit_base ?q db = Inr base" and v: "request_values ?q base s db = Inr (v, automatic)"
    and st: "store_request ?q v automatic s t1 t2 t3 t4 t5 db = Inr ((rid, status), d)"
  show ?thesis
  proof (cases automatic)
    case True
    with manual_values [OF _ _ v] have k: "asked_kind q = ''window'' \<or> asked_kind q = ''weekly''" by auto
    have "status = ''approved''" using st True by (auto simp: store_request_def Let_def map_sum_Inr split: if_split_asm)
    with k True v window_values_Inr [of ?q base s v automatic] weekly_values_Inr [of ?q base s v automatic] base show ?thesis
      by (auto simp: request_values_def submit_base_def)
  next
    case False
    let ?row = "request_row ?q v automatic s (next_request db) t1 t2 t3"
    have "rid = next_request db \<and> status = ''pending'' \<and> d = db\<lparr>quota_requests := quota_requests db @ [?row], next_request := next_request db + 1\<rparr>"
      using st False by (auto simp: store_request_def Let_def split: if_split_asm)
    then show ?thesis using False by (intro disjI2 conjI exI [of _ ?row]) simp_all
  qed
qed

subsection \<open>An approval never lowers a limit\<close>

lemma number_of_num: "number (J_Num q) label lo hi = Inr p \<Longrightarrow> p = q"
  by (auto simp: number_def split: if_splits)

lemma whole_of_num: "whole_number (J_Num (of_int n)) label lo hi = Inr m \<Longrightarrow> m = n"
  by (auto simp: whole_number_def dest!: number_of_num split: sum.splits if_splits)

lemma validate_rule_same: "validate_rule (rule_json x) = Inr y \<Longrightarrow> y = x"
  by (auto simp: validate_rule_def rule_json_def get_or_def dest!: whole_of_num split: if_splits sum.splits)

lemma map_results_same: "(\<And>x y. f (g x) = Inr y \<Longrightarrow> y = x) \<Longrightarrow> map_results f (map g xs) = Inr ys \<Longrightarrow> ys = xs"
  by (induction xs arbitrary: ys) (auto split: sum.splits)

lemma validate_rules_same: "validate_rules (J_List (map rule_json xs)) = Inr rs \<Longrightarrow> set rs = set xs"
  using map_results_same [of validate_rule rule_json xs] validate_rule_same by (auto simp: validate_rules_def split: sum.splits if_splits)

lemma clean_rules_same: "clean_rules (J_List (map rule_json xs)) = Inr v \<Longrightarrow> xs \<noteq> [] \<Longrightarrow> \<exists>rs. v = Some rs \<and> rs \<noteq> [] \<and> rules_ok rs \<and> set rs = set xs"
  by (auto simp: clean_rules_def map_sum_Inr dest: validate_rules_same validate_rules_ok split: if_splits)

lemma clean_tokens_same: "clean_tokens (J_Num (of_int n)) label hi = Inr v \<Longrightarrow> v = Some n"
  by (auto simp: clean_tokens_def map_sum_Inr dest: whole_of_num)

text \<open>The custom limits an account has: readable rules, and the names of its floors in order.\<close>

definition override_ok :: "override \<Rightarrow> bool" where
  "override_ok o1 \<longleftrightarrow> (case o_rules o1 of None \<Rightarrow> True | Some rs \<Rightarrow> rs \<noteq> [] \<and> rules_ok rs) \<and> (\<exists>p. o_automatic o1 = filter p OVERRIDE_FIELDS)"

lemma rules_text_ok: "rules_column raw = Inr (Some rs) \<Longrightarrow> rs \<noteq> [] \<and> rules_ok rs"
  by (auto simp: rules_column_def dest: validate_rules_ok split: option.splits json.splits sum.splits limit_error.splits if_splits)

lemma own_override_ok: "own_override u pool db = Inr o1 \<Longrightarrow> override_ok o1 \<and> o_pool o1 = pool"
proof -
  assume o1: "own_override u pool db = Inr o1"
  show ?thesis
  proof (cases "tbl_one (\<lambda>r. or_user r = u \<and> or_pool r = pool) (overrides db)")
    case None
    with o1 have "o1 = no_override pool" by (simp add: own_override_def get_override_def)
    then show ?thesis by (auto simp: no_override_def override_ok_def intro: exI [of _ "\<lambda>_. False"])
  next
    case (Some r)
    with o1 obtain rs where "rules_column (or_rules r) = Inr rs"
      "o1 = \<lparr>o_pool = or_pool r, o_rules = rs, o_window = or_window r, o_weekly = or_weekly r, o_automatic = automatic_names (or_automatic r)\<rparr>"
      by (auto simp: own_override_def get_override_def read_override_def map_sum_Inr)
    with rules_text_ok [of "or_rules r"] tbl_one_SomeD [OF Some] show ?thesis
      by (auto simp: override_ok_def automatic_names_def split: option.splits)
  qed
qed

lemma automatic_roundtrip: "automatic_names (automatic_column (filter p OVERRIDE_FIELDS)) = filter p OVERRIDE_FIELDS"
  by (cases "p ''rate_rules''"; cases "p ''weekly_tokens''"; cases "p ''window_tokens''")
    (simp_all add: automatic_names_def automatic_column_def OVERRIDE_FIELDS_def)

lemma read_override_of:
  assumes "override_ok o1" shows "read_override (override_row_of u o1 t who) = Inr o1"
proof -
  obtain p where "o_automatic o1 = filter p OVERRIDE_FIELDS" using assms by (auto simp: override_ok_def)
  moreover have "rules_column (or_rules (override_row_of u o1 t who)) = Inr (o_rules o1)"
    using assms by (auto simp: override_row_of_def rules_column_def override_ok_def validate_rules_json split: option.splits)
  ultimately show ?thesis by (simp add: read_override_def override_row_of_def automatic_roundtrip)
qed

lemma tbl_one_put: "p r \<Longrightarrow> tbl_one p (if tbl_one p rows = None then rows @ [r] else tbl_update p (\<lambda>_. r) rows) = Some r"
  by (induction rows) (auto simp: tbl_simps)

lemma own_after_put:
  assumes "override_ok o1" "o_pool o1 = pool" "overrides d = put_override (override_row_of u o1 t who) (overrides db)"
  shows "own_override u pool d = Inr o1"
proof -
  let ?r = "override_row_of u o1 t who"
  have k: "or_user ?r = u" "or_pool ?r = pool" using assms(2) by (simp_all add: override_row_of_def)
  have "overrides d = (if tbl_one (\<lambda>s. or_user s = u \<and> or_pool s = pool) (overrides db) = None then overrides db @ [?r]
      else tbl_update (\<lambda>s. or_user s = u \<and> or_pool s = pool) (\<lambda>_. ?r) (overrides db))"
    unfolding assms(3) put_override_def k ..
  then have "tbl_one (\<lambda>s. or_user s = u \<and> or_pool s = pool) (overrides d) = Some ?r"
    using tbl_one_put [of "\<lambda>s. or_user s = u \<and> or_pool s = pool" ?r "overrides db"] k by (simp only:)
  then show ?thesis by (simp add: own_override_def get_override_def read_override_of [OF assms(1)])
qed

lemma merge_ok:
  assumes "override_ok o1" "\<And>rs. c_rules c = Some (Some rs) \<Longrightarrow> rs \<noteq> [] \<and> rules_ok rs"
  shows "override_ok (merge_override auto c o1)"
  using assms by (auto simp: override_ok_def merge_override_def given_or_def Let_def split: option.splits)

text \<open>What a custom limit changes, when some amount or rules are given.\<close>

lemma set_override_own:
  assumes s: "set_override u pool who auto values t db = Inr (x, d)" and c: "validate_override values = Inr c"
    and given: "\<exists>n. c_window c = Some (Some n) \<or> c_weekly c = Some (Some n) \<or> (\<exists>rs. c_rules c = Some (Some rs) \<and> rs \<noteq> [] \<and> rules_ok rs)"
    and rules: "\<And>rs. c_rules c = Some (Some rs) \<Longrightarrow> rs \<noteq> [] \<and> rules_ok rs"
  obtains cur where "own_override u pool db = Inr cur" "own_override u pool d = Inr (merge_override auto c cur)"
    "d = db\<lparr>overrides := overrides d\<rparr>"
proof -
  obtain cur where cur: "own_override u pool db = Inr cur"
    using s c by (auto simp: set_override_def split: if_splits sum.splits)
  let ?m = "merge_override auto c cur"
  have ne: "\<not> override_empty ?m" using given by (auto simp: override_empty_def merge_override_def given_or_def)
  have some: "c \<noteq> \<lparr>c_rules = None, c_window = None, c_weekly = None\<rparr>" using given by auto
  from s c cur ne some obtain y where d: "d = db\<lparr>overrides := put_override (override_row_of u ?m t who) (overrides db)\<rparr>"
    by (auto simp: set_override_def Let_def map_sum_Inr split: if_split_asm)
  note ok = own_override_ok [OF cur]
  have "own_override u pool d = Inr ?m"
    using own_after_put [of ?m pool d u t who db] merge_ok [OF conjunct1 [OF ok] rules] ok by (simp add: d merge_override_def)
  then show ?thesis using that cur d by simp
qed

text \<open>The limits of one service after another step: none is lower, and no rate.\<close>

definition no_lower :: "base_limits \<Rightarrow> base_limits \<Rightarrow> bool" where
  "no_lower b b1 \<longleftrightarrow> ba_window b \<le> ba_window b1 \<and> ba_weekly b \<le> ba_weekly b1 \<and>
     (\<forall>x \<in> set (ba_rules b). \<exists>y \<in> set (ba_rules b1). per y = per x \<and> requests x \<le> requests y)"

lemma no_lower_refl [simp]: "no_lower b b"
  by (auto simp: no_lower_def)

lemma base_same: "overrides d = overrides db \<Longrightarrow> pool_docs d = pool_docs db \<Longrightarrow> user_limits d = user_limits db \<Longrightarrow> tiers d = tiers db \<Longrightarrow>
    base_limits_of u pool d = base_limits_of u pool db"
proof -
  assume a: "overrides d = overrides db" "pool_docs d = pool_docs db" "user_limits d = user_limits db" "tiers d = tiers db"
  have "get_pool_policy pool d = get_pool_policy pool db" "user_settings u d = user_settings u db" "list_tiers d = list_tiers db"
    "own_override u pool d = own_override u pool db"
    using a by (simp_all add: get_pool_policy_def user_settings_def list_tiers_def own_override_def get_override_def)
  then show ?thesis unfolding base_limits_of_def by (simp only:)
qed

lemma base_merged:
  assumes "base_limits_of u pool db = Inr b" "own_override u pool db = Inr cur" "own_override u pool d = Inr m" "d = db\<lparr>overrides := overrides d\<rparr>"
  obtains p t prefs where "b = base_of p cur t prefs" "base_limits_of u pool d = Inr (base_of p m t prefs)"
proof -
  from assms(1,2) obtain p where p: "get_pool_policy pool db = Inr p"
    and b: "b = base_of p cur (resolve_tier (tier_id (user_settings u db)) (list_tiers db)) (user_settings u db)"
    by (auto simp: base_limits_of_def Let_def split: sum.splits)
  have "get_pool_policy pool d = get_pool_policy pool db" "user_settings u d = user_settings u db" "list_tiers d = list_tiers db"
    by (subst assms(4), simp add: get_pool_policy_def user_settings_def list_tiers_def)+
  with p b assms(3) that show ?thesis by (simp add: base_limits_of_def Let_def)
qed

lemma base_whole: "\<exists>n. ba_window (base_of p o1 t prefs) = of_int n" "\<exists>n. ba_weekly (base_of p o1 t prefs) = of_int n"
  by (auto simp: base_of_def Let_def whole_def max_def split: option.splits)

lemma ceil_whole: "ceil_credits (of_int n) = n"
  by (simp add: ceil_credits_def ceiling_eq_iff)

lemma tokens_json_whole: "\<exists>n. base = of_int n \<Longrightarrow> tokens_json base a = J_Num (of_int (ceil_credits (max base (of_int a)))) \<and>
    of_int (ceil_credits (max base (of_int a))) = max base (of_int a)"
  by (auto simp: tokens_json_def max_def ceil_whole)

lemma merged_parts:
  "o_window (merge_override auto c o1) = given_or (c_window c) (o_window o1)"
  "o_weekly (merge_override auto c o1) = given_or (c_weekly c) (o_weekly o1)"
  "o_rules (merge_override auto c o1) = given_or (c_rules c) (o_rules o1)"
  "c_weekly c = None \<Longrightarrow> ''weekly_tokens'' \<in> set (o_automatic (merge_override auto c o1)) \<longleftrightarrow> ''weekly_tokens'' \<in> set (o_automatic o1)"
  "c_window c = None \<Longrightarrow> ''window_tokens'' \<in> set (o_automatic (merge_override auto c o1)) \<longleftrightarrow> ''window_tokens'' \<in> set (o_automatic o1)"
  by (auto simp: merge_override_def OVERRIDE_FIELDS_def floor_after_def Let_def)

lemma base_parts:
  "o_window o1 = o_window o2 \<Longrightarrow> (''window_tokens'' \<in> set (o_automatic o1) \<longleftrightarrow> ''window_tokens'' \<in> set (o_automatic o2)) \<Longrightarrow>
    ba_window (base_of p o1 t prefs) = ba_window (base_of p o2 t prefs)"
  "o_weekly o1 = o_weekly o2 \<Longrightarrow> (''weekly_tokens'' \<in> set (o_automatic o1) \<longleftrightarrow> ''weekly_tokens'' \<in> set (o_automatic o2)) \<Longrightarrow>
    ba_weekly (base_of p o1 t prefs) = ba_weekly (base_of p o2 t prefs)"
  "o_rules o1 = o_rules o2 \<Longrightarrow> ba_rules (base_of p o1 t prefs) = ba_rules (base_of p o2 t prefs)"
  "o_window o1 = Some n \<Longrightarrow> of_int n \<le> ba_window (base_of p o1 t prefs)"
  "o_weekly o1 = Some n \<Longrightarrow> of_int n \<le> ba_weekly (base_of p o1 t prefs)"
  "o_rules o1 = Some rs \<Longrightarrow> ba_rules (base_of p o1 t prefs) = rs"
  by (simp_all add: base_of_def Let_def split: option.split)

lemma base_is_whole: "base_limits_of u pool db = Inr b \<Longrightarrow> (\<exists>n. ba_window b = of_int n) \<and> (\<exists>n. ba_weekly b = of_int n)"
  by (auto simp: base_limits_of_def Let_def map_sum_Inr base_whole split: sum.splits)

lemma raise_window:
  assumes b: "base_limits_of u pool db = Inr b" and s: "set_override u pool who auto [(''window_tokens'', tokens_json (ba_window b) n)] t db = Inr (x, d)"
  shows "\<exists>b1. base_limits_of u pool d = Inr b1 \<and> no_lower b b1 \<and> of_int n \<le> ba_window b1"
proof -
  define m where "m = ceil_credits (max (ba_window b) (of_int n))"
  have v: "tokens_json (ba_window b) n = J_Num (of_int m)" "of_int m = max (ba_window b) (of_int n)"
    using tokens_json_whole [of "ba_window b" n] base_is_whole [OF b] by (auto simp: m_def)
  from s obtain c where c: "validate_override [(''window_tokens'', tokens_json (ba_window b) n)] = Inr c"
    by (auto simp: set_override_def split: if_splits sum.splits)
  then have c1: "c = \<lparr>c_rules = None, c_window = Some (Some m), c_weekly = None\<rparr>"
    by (auto simp: v(1) map_sum_Inr dest!: clean_tokens_same split: sum.splits)
  obtain cur where o1: "own_override u pool db = Inr cur" "own_override u pool d = Inr (merge_override auto c cur)" "d = db\<lparr>overrides := overrides d\<rparr>"
    using set_override_own [OF s c] by (auto simp: c1)
  from base_merged [OF b o1] obtain p t prefs where p: "b = base_of p cur t prefs" "base_limits_of u pool d = Inr (base_of p (merge_override auto c cur) t prefs)" .
  have "of_int m \<le> ba_window (base_of p (merge_override auto c cur) t prefs)"
    by (rule base_parts(4)) (simp add: merged_parts c1 given_or_def)
  moreover have "ba_weekly (base_of p (merge_override auto c cur) t prefs) = ba_weekly b" unfolding p(1)
    by (rule base_parts(2)) (simp_all add: merged_parts c1 given_or_def)
  moreover have "ba_rules (base_of p (merge_override auto c cur) t prefs) = ba_rules b" unfolding p(1)
    by (rule base_parts(3)) (simp add: merged_parts c1 given_or_def)
  ultimately show ?thesis using p(2) v(2) by (auto simp: no_lower_def)
qed

lemma raise_weekly:
  assumes b: "base_limits_of u pool db = Inr b" and s: "set_override u pool who auto [(''weekly_tokens'', tokens_json (ba_weekly b) n)] t db = Inr (x, d)"
  shows "\<exists>b1. base_limits_of u pool d = Inr b1 \<and> no_lower b b1 \<and> of_int n \<le> ba_weekly b1"
proof -
  define m where "m = ceil_credits (max (ba_weekly b) (of_int n))"
  have v: "tokens_json (ba_weekly b) n = J_Num (of_int m)" "of_int m = max (ba_weekly b) (of_int n)"
    using tokens_json_whole [of "ba_weekly b" n] base_is_whole [OF b] by (auto simp: m_def)
  from s obtain c where c: "validate_override [(''weekly_tokens'', tokens_json (ba_weekly b) n)] = Inr c"
    by (auto simp: set_override_def split: if_splits sum.splits)
  then have c1: "c = \<lparr>c_rules = None, c_window = None, c_weekly = Some (Some m)\<rparr>"
    by (auto simp: v(1) map_sum_Inr dest!: clean_tokens_same split: sum.splits)
  obtain cur where o1: "own_override u pool db = Inr cur" "own_override u pool d = Inr (merge_override auto c cur)" "d = db\<lparr>overrides := overrides d\<rparr>"
    using set_override_own [OF s c] by (auto simp: c1)
  from base_merged [OF b o1] obtain p t prefs where p: "b = base_of p cur t prefs" "base_limits_of u pool d = Inr (base_of p (merge_override auto c cur) t prefs)" .
  have "of_int m \<le> ba_weekly (base_of p (merge_override auto c cur) t prefs)"
    by (rule base_parts(5)) (simp add: merged_parts c1 given_or_def)
  moreover have "ba_window (base_of p (merge_override auto c cur) t prefs) = ba_window b" unfolding p(1)
    by (rule base_parts(1)) (simp_all add: merged_parts c1 given_or_def)
  moreover have "ba_rules (base_of p (merge_override auto c cur) t prefs) = ba_rules b" unfolding p(1)
    by (rule base_parts(3)) (simp add: merged_parts c1 given_or_def)
  ultimately show ?thesis using p(2) v(2) by (auto simp: no_lower_def)
qed

lemma raised_rule_ge: "per (raised_rule asked x) = per x \<and> requests x \<le> requests (raised_rule asked x) \<and>
    (case asked (per x) of None \<Rightarrow> True | Some n \<Rightarrow> n \<le> requests (raised_rule asked x))"
  by (simp add: raised_rule_def Let_def split: option.split)

lemma raise_rates:
  assumes b: "base_limits_of u pool db = Inr b" "ba_rules b \<noteq> []"
    and s: "set_override u pool who auto [(''rate_rules'', J_List (map (\<lambda>x. rule_json (raised_rule asked x)) (ba_rules b)))] t db = Inr (x, d)"
  shows "\<exists>b1. base_limits_of u pool d = Inr b1 \<and> no_lower b b1 \<and> set (ba_rules b1) = raised_rule asked ` set (ba_rules b)"
proof -
  have json: "J_List (map (\<lambda>x. rule_json (raised_rule asked x)) (ba_rules b)) = J_List (map rule_json (map (raised_rule asked) (ba_rules b)))" by simp
  from s obtain c where c: "validate_override [(''rate_rules'', J_List (map (\<lambda>x. rule_json (raised_rule asked x)) (ba_rules b)))] = Inr c"
    by (auto simp: set_override_def split: if_splits sum.splits)
  then obtain rs where rs: "rs \<noteq> []" "rules_ok rs" "set rs = raised_rule asked ` set (ba_rules b)"
    and c1: "c = \<lparr>c_rules = Some (Some rs), c_window = None, c_weekly = None\<rparr>"
    using clean_rules_same [of "map (raised_rule asked) (ba_rules b)"] b(2) unfolding json by (auto simp: map_sum_Inr split: sum.splits)
  obtain cur where o1: "own_override u pool db = Inr cur" "own_override u pool d = Inr (merge_override auto c cur)" "d = db\<lparr>overrides := overrides d\<rparr>"
    using set_override_own [OF s c] rs by (auto simp: c1)
  from base_merged [OF b(1) o1] obtain p t prefs where p: "b = base_of p cur t prefs" "base_limits_of u pool d = Inr (base_of p (merge_override auto c cur) t prefs)" .
  have "ba_rules (base_of p (merge_override auto c cur) t prefs) = rs"
    by (rule base_parts(6)) (simp add: merged_parts c1 given_or_def)
  moreover have "ba_window (base_of p (merge_override auto c cur) t prefs) = ba_window b" unfolding p(1)
    by (rule base_parts(1)) (simp_all add: merged_parts c1 given_or_def)
  moreover have "ba_weekly (base_of p (merge_override auto c cur) t prefs) = ba_weekly b" unfolding p(1)
    by (rule base_parts(2)) (simp_all add: merged_parts c1 given_or_def)
  moreover have "\<forall>x \<in> set (ba_rules b). \<exists>y \<in> set rs. per y = per x \<and> requests x \<le> requests y"
    using raised_rule_ge [of asked] unfolding rs(3) by blast
  ultimately show ?thesis using p(2) rs(3) by (auto simp: no_lower_def)
qed

definition request_pool :: "quota_request \<Rightarrow> string" where
  "request_pool r = (if qr_pool r = [] then ''api'' else qr_pool r)"

definition tokens_asked :: "quota_request \<Rightarrow> int" where
  "tokens_asked r = (case qr_new_tokens r of Some n \<Rightarrow> n | None \<Rightarrow> qr_new_credits r * 1000)"

definition weekly_asked :: "quota_request \<Rightarrow> int" where
  "weekly_asked r = (case qr_new_weekly r of Some n \<Rightarrow> n | None \<Rightarrow> zero_if_none (qr_new_weekly_credits r) * 1000)"

definition asked_given :: "quota_request \<Rightarrow> base_limits \<Rightarrow> base_limits \<Rightarrow> bool" where
  "asked_given r b b1 \<longleftrightarrow>
     (request_kind r = ''window'' \<longrightarrow> of_int (tokens_asked r) \<le> ba_window b1) \<and>
     (request_kind r = ''weekly'' \<longrightarrow> of_int (weekly_asked r) \<le> ba_weekly b1) \<and>
     (request_kind r = ''rate'' \<longrightarrow> (\<exists>asked. asked_rates r = Inr asked \<and>
       (\<forall>x \<in> set (ba_rules b). \<forall>n. asked (per x) = Some n \<longrightarrow> (\<exists>y \<in> set (ba_rules b1). per y = per x \<and> n \<le> requests y))))"

lemma rate_on_rules: "base_limits_of u pool db = Inr b \<Longrightarrow> ba_rate_on b \<Longrightarrow> ba_rules b \<noteq> []"
  by (auto simp: base_limits_of_def base_of_def Let_def map_sum_Inr split: sum.splits)

lemma effort_base: "unlock_effort u i level source who t db = Inr (x, d) \<Longrightarrow> base_limits_of v pool d = base_limits_of v pool db"
  by (rule base_same) (auto simp: unlock_effort_def set_effort_level_def Let_def map_sum_Inr split: if_splits option.splits)

lemma create_grant_base: "create_grant u pl i scope kind amount t0 ends reason who t db = Inr (x, d) \<Longrightarrow> base_limits_of v pool d = base_limits_of v pool db"
  by (rule base_same) (auto simp: create_grant_def split: if_splits sum.splits)

lemma grant_for_base: "grant_for r pl i amount who now t db = Inr d \<Longrightarrow> base_limits_of v pool d = base_limits_of v pool db"
proof -
  assume "grant_for r pl i amount who now t db = Inr d"
  then obtain x d1 where d: "d = set_grant (qr_id r) x d1" and "base_limits_of v pool d1 = base_limits_of v pool db"
    by (auto simp: grant_for_def map_sum_Inr dest: create_grant_base split: option.splits)
  then show ?thesis using base_same [of d d1 v pool] by (simp add: set_grant_def)
qed

lemma apply_raises:
  assumes ap: "apply_request r who now t db = Inr d" and m: "qr_model r = None" and b: "base_limits_of (qr_user r) (request_pool r) db = Inr b"
  shows "\<exists>b1. base_limits_of (qr_user r) (request_pool r) d = Inr b1 \<and> no_lower b b1 \<and> asked_given r b b1"
proof -
  let ?put = "\<lambda>auto values. map_sum Limit_Failed snd (set_override (qr_user r) (request_pool r) (Some who) auto values t db) :: request_error + request_db"
  consider "request_kind r = ''effort''" | "request_kind r = ''window''" | "request_kind r = ''weekly''" | "request_kind r = ''rate''"
    | "request_kind r = ''temporary''" | "request_kind r \<notin> set REQUEST_KINDS" by (auto simp: REQUEST_KINDS_def)
  then show ?thesis
  proof cases
    case 1
    with ap m obtain x where "unlock_effort (qr_user r) None (the (qr_level r)) ''request'' (Some who) t db = Inr (x, d)"
      by (auto simp: apply_request_def map_sum_Inr Let_def split: if_splits)
    from effort_base [OF this, of "qr_user r" "request_pool r"] b 1 show ?thesis by (auto simp: asked_given_def)
  next
    case 2
    with ap m b have "?put (qr_source r = ''automatic'') [(''window_tokens'', tokens_json (ba_window b) (tokens_asked r))] = Inr d"
      by (simp add: apply_request_def request_pool_def [symmetric] tokens_asked_def [symmetric] and_then_def lift_limit_def Let_def split: if_splits)
    then obtain x where "set_override (qr_user r) (request_pool r) (Some who) (qr_source r = ''automatic'') [(''window_tokens'', tokens_json (ba_window b) (tokens_asked r))] t db = Inr (x, d)"
      by (auto simp: map_sum_Inr)
    from raise_window [OF b this] 2 show ?thesis by (simp add: asked_given_def)
  next
    case 3
    with ap m b have "?put (qr_source r = ''automatic'') [(''weekly_tokens'', tokens_json (ba_weekly b) (weekly_asked r))] = Inr d"
      by (simp add: apply_request_def request_pool_def [symmetric] weekly_asked_def [symmetric] and_then_def lift_limit_def Let_def split: if_splits)
    then obtain x where "set_override (qr_user r) (request_pool r) (Some who) (qr_source r = ''automatic'') [(''weekly_tokens'', tokens_json (ba_weekly b) (weekly_asked r))] t db = Inr (x, d)"
      by (auto simp: map_sum_Inr)
    from raise_weekly [OF b this] 3 show ?thesis by (simp add: asked_given_def)
  next
    case 4
    with ap m b obtain asked where a: "asked_rates r = Inr asked" "ba_rate_on b"
      and "?put False [(''rate_rules'', J_List (map (\<lambda>x. rule_json (raised_rule asked x)) (ba_rules b)))] = Inr d"
      by (auto simp: apply_request_def request_pool_def [symmetric] and_then_Inr lift_limit_def Let_def split: if_splits)
    then obtain x where s: "set_override (qr_user r) (request_pool r) (Some who) False [(''rate_rules'', J_List (map (\<lambda>x. rule_json (raised_rule asked x)) (ba_rules b)))] t db = Inr (x, d)"
      by (auto simp: map_sum_Inr)
    from raise_rates [OF b rate_on_rules [OF b a(2)] s] obtain b1 where b1: "base_limits_of (qr_user r) (request_pool r) d = Inr b1" "no_lower b b1"
      "set (ba_rules b1) = raised_rule asked ` set (ba_rules b)" by blast
    have "\<exists>y \<in> set (ba_rules b1). per y = per x \<and> n \<le> requests y" if "x \<in> set (ba_rules b)" "asked (per x) = Some n" for x n
      using raised_rule_ge [of asked x] that unfolding b1(3) by auto
    with b1 a 4 show ?thesis by (auto simp: asked_given_def)
  next
    case 5
    with ap m b have "grant_for r (Some (request_pool r)) None (Some (tokens_asked r)) who now t db = Inr d"
      by (simp add: apply_request_def request_pool_def [symmetric] tokens_asked_def [symmetric] and_then_def lift_limit_def Let_def split: if_splits)
    with grant_for_base b 5 show ?thesis by (auto simp: asked_given_def)
  next
    case 6
    with ap m b show ?thesis
      by (auto simp: apply_request_def request_pool_def [symmetric] and_then_def lift_limit_def Let_def REQUEST_KINDS_def split: if_splits)
  qed
qed


text \<open>A site whose one account has the default limits of the API: 45000 tokens per 5 hours.\<close>

definition ex_quota_site :: quota_site where
  "ex_quota_site = \<lparr>qs_auto = True, qs_auto_tokens = Some 60000, qs_auto_weekly = None,
     qs_efforts = \<lparr>ec_gating = None, ec_default = None, ec_auto = None, ec_active_days = None, ec_tokens = None, ec_period_days = None,
       ec_clean_days = None, ec_ceiling = None\<rparr>, qs_community = None, qs_kinds = None, qs_numbers = Map.empty\<rparr>"

definition ex_request_db :: request_db where
  "ex_request_db = \<lparr>pool_docs = [], model_docs = [], catalog_presets = [(1, None)], accounts = [''u'', ''v'', ''boss''], user_limits = [], overrides = [],
     model_limits = [], efforts = [], tiers = [], next_tier = 1, grants = [], next_grant = 1, windows_tbl = [], rate_buckets = [],
     site_resets = (None, None), models = [ex_model], members = [], ledger = [], reservations = [], next_reservation = 1,
     pledges = [], next_pledge = 1, site_users = [ex_tier_account, ex_tier_account\<lparr>acc_id := ''v''\<rparr>], effort_cols = [],
     quota_requests = [], next_request = 1\<rparr>"

definition ex_ask :: "int \<Rightarrow> new_request" where
  "ex_ask n = \<lparr>nr_user = ''u'', nr_tokens = Some n, nr_reason = ''course'', nr_kind = ''window'', nr_pool = ''api'', nr_weekly = None,
     nr_per = None, nr_count = None, nr_hours = None, nr_unlimited = False, nr_model = None, nr_level = None, nr_community = True\<rparr>"

lemma ex_base: "base_limits_of w ''api'' ex_request_db = Inr \<lparr>ba_window = 45000, ba_weekly = 150000,
    ba_rules = [\<lparr>requests = 1, per = ''second'', burst = 10\<rparr>], ba_window_on = True, ba_weekly_on = False, ba_rate_on = True\<rparr>"
  by (simp add: base_limits_of_def get_pool_policy_def ex_request_db_def tbl_simps merged_None POOLS_def own_override_def get_override_def
      user_settings_def no_settings_def list_tiers_def resolve_tier_def base_of_def default_policies_def default_section_def no_override_def Let_def)

definition ex_row :: quota_request where
  "ex_row = request_row (ex_ask 70000) (no_values\<lparr>qr_new_tokens := Some 70000\<rparr>) False ex_quota_site 1 10 11 12"

definition ex_asked_db :: request_db where
  "ex_asked_db = ex_request_db\<lparr>quota_requests := [ex_row], next_request := 2\<rparr>"

lemma ex_submit: "submit_request (ex_ask 70000) ex_quota_site 10 11 12 13 14 ex_request_db = Inr ((1, ''pending''), ex_asked_db)"
proof -
  have "length (strip ''course'') = 6" "strip ''course'' = ''course''" by code_simp+
  then show ?thesis
    by (simp add: submit_request_def submit_checked_def submit_base_def ex_ask_def REQUEST_KINDS_def POOLS_def REQUEST_REASON_MIN_def
      REQUEST_REASON_MAX_def and_then_def lift_limit_def ex_base request_values_def window_values_def in_range_def REQUEST_TOKENS_MAX_def
      ex_quota_site_def zero_if_none_def has_pending_def store_request_def ex_asked_db_def ex_row_def known_def Let_def)
      (simp add: ex_request_db_def)
qed

theorem automatic_approval_bounded_witness:
  "\<exists>r. qr_status r = ''pending'' \<and> ex_asked_db = ex_request_db\<lparr>quota_requests := quota_requests ex_request_db @ [r], next_request := next_request ex_request_db + 1\<rparr>"
  using automatic_approval_bounded [OF ex_submit] by auto

lemma ex_row_facts: "request_kind ex_row = ''window''" "qr_model ex_row = None" "request_pool ex_row = ''api''" "qr_user ex_row = ''u''"
  "qr_status ex_row = ''pending''" "tokens_asked ex_row = 70000" "qr_id ex_row = 1" "qr_duration ex_row = ''permanent''"
  by (simp_all add: ex_row_def request_row_def Let_def no_values_def ex_ask_def request_kind_def request_pool_def tokens_asked_def)

lemma ex_resolve: "\<exists>d. resolve_quota 1 ''boss'' True ''fine'' 20 21 22 23 24 ex_asked_db = Inr d"
proof -
  have b: "base_limits_of ''u'' ''api'' ex_asked_db = base_limits_of ''u'' ''api'' ex_request_db" by (rule base_same) (simp_all add: ex_asked_db_def)
  have j: "tokens_json 45000 70000 = J_Num (of_int 70000)" using tokens_json_whole [of 45000 70000] by (simp add: tokens_json_def)
  have w: "clean_tokens (J_Num (of_int 70000)) l OVERRIDE_WINDOW_MAX = Inr (Some 70000)" for l
    using FLOAT_END_big by (auto simp: clean_tokens_def whole_number_def number_def OVERRIDE_WINDOW_MAX_def TOKENS_MAX_def TIER_MULTIPLIER_MAX_def)
  have o1: "own_override ''u'' ''api'' ex_asked_db = Inr (no_override ''api'')"
    by (simp add: own_override_def get_override_def ex_asked_db_def ex_request_db_def tbl_simps)
  have "\<exists>x d. set_override ''u'' ''api'' (Some ''boss'') False [(''window_tokens'', J_Num (of_int 70000))] 21 ex_asked_db = Inr (x, d)"
    by (simp add: set_override_def POOLS_def o1 w [unfolded of_int_numeral] merge_override_def given_or_def no_override_def override_empty_def Let_def known_def)
      (simp add: ex_asked_db_def ex_request_db_def put_override_def tbl_simps get_override_def override_row_of_def read_override_def rules_column_def)
  then obtain x d where s: "set_override ''u'' ''api'' (Some ''boss'') False [(''window_tokens'', tokens_json 45000 70000)] 21 ex_asked_db = Inr (x, d)"
    unfolding j by blast
  have ap: "apply_request ex_row ''boss'' 20 21 ex_asked_db = Inr d"
    using s by (simp add: apply_request_def ex_row_facts request_pool_def [symmetric] tokens_asked_def [symmetric] and_then_def lift_limit_def b ex_base Let_def)
      (simp add: ex_row_def request_row_def no_values_def Let_def)
  have "request_get 1 ex_asked_db = Some ex_row" by (simp add: request_get_def ex_asked_db_def tbl_simps ex_row_facts)
  moreover have "known (Some ''boss'') d" using set_override_requests [OF s] by (simp add: same_requests_def known_def ex_asked_db_def ex_request_db_def)
  ultimately show ?thesis by (simp add: resolve_quota_def ex_row_facts and_then_def ap)
qed


end
