(* ===== verification/Community.thy ===== *)
theory Community
  imports Quota_Requests
begin

section \<open>The community's votes\<close>

text \<open>
  bananachat/services/community.py: people support a request, renouncing tokens of their own limits, or object;
  a request with enough consent is carried out as a grant for a limited time, paid for by the pledges.
  A vote is a row of \<open>pledges\<close> (Limit_Decisions), which also takes the renounced tokens off the limits.
\<close>

text \<open>The stamps of one vote, in the order the code reads them; those of an approval follow.\<close>

record vote_clock =
  ck_now :: epoch
  ck_suspended :: epoch
  ck_held :: stamp
  ck_created :: stamp
  ck_updated :: stamp
  ck_open :: stamp
  ck_apply :: stamp
  ck_grant :: stamp
  ck_stamp :: stamp

definition asks_unlimited :: "quota_request \<Rightarrow> bool" where
  "asks_unlimited r \<longleftrightarrow> request_kind r = ''temporary'' \<and> qr_unlimited r"

text \<open>\<open>target\<close>: whose limits the request changes, a service's or one model's.\<close>

definition request_target :: "quota_request \<Rightarrow> string option \<times> int option" where
  "request_target r =
     (if request_kind r \<noteq> ''effort'' \<and> qr_model r \<noteq> None then (None, qr_model r)
      else (Some (if qr_pool r = [] then ''api'' else qr_pool r), None))"

definition pledge_scope :: "quota_request \<Rightarrow> string option" where
  "pledge_scope r =
     (let kind = request_kind r in
      if kind = ''window'' \<or> (kind = ''temporary'' \<and> \<not> qr_unlimited r) then Some ''window''
      else if kind = ''weekly'' then Some ''weekly'' else None)"

definition no_limits :: base_limits where
  "no_limits = \<lparr>ba_window = 0, ba_weekly = 0, ba_rules = [], ba_window_on = False, ba_weekly_on = False, ba_rate_on = False\<rparr>"

definition base_for :: "string \<Rightarrow> quota_request \<Rightarrow> ('a) usage_db_scheme \<Rightarrow> limit_error + base_limits" where
  "base_for u r db =
     (case request_target r of
        (_, Some i) \<Rightarrow> (case catalog_model i db of None \<Rightarrow> Inr no_limits | Some m \<Rightarrow> model_base u m db)
      | (pool, None) \<Rightarrow> base_limits_of u (case pool of None \<Rightarrow> [] | Some p \<Rightarrow> p) db)"

text \<open>\<open>int\<close> of a float.\<close>

definition int_of :: "rat \<Rightarrow> int" where
  "int_of x = (if x < 0 then - \<lfloor>- x\<rfloor> else \<lfloor>x\<rfloor>)"

definition request_increase :: "quota_request \<Rightarrow> ('a) usage_db_scheme \<Rightarrow> limit_error + int" where
  "request_increase r db =
     (let kind = request_kind r in
      if kind = ''temporary'' then Inr (if qr_unlimited r then 0 else zero_if_none (qr_new_tokens r))
      else if kind \<noteq> ''window'' \<and> kind \<noteq> ''weekly'' then Inr 0
      else map_sum id (\<lambda>base.
        if kind = ''window'' then max 0 (zero_if_none (qr_new_tokens r) - int_of (ba_window base))
        else max 0 (zero_if_none (qr_new_weekly r) - int_of (ba_weekly base))) (base_for (qr_user r) r db))"

subsection \<open>Consent\<close>

definition votes_on :: "int \<Rightarrow> ('a) usage_db_scheme \<Rightarrow> pledge list" where
  "votes_on rid db = filter (\<lambda>p. pl_request p = rid) (pledges db)"

definition my_votes :: "string \<Rightarrow> ('a) usage_db_scheme \<Rightarrow> pledge list" where
  "my_votes u db = filter (\<lambda>p. pl_user p = u) (pledges db)"

record consent =
  cn_supporters :: int
  cn_objectors :: int
  cn_pledged :: int
  cn_needed :: int
  cn_min :: int
  cn_approval :: int

definition consent_percent :: "consent \<Rightarrow> int" where
  "consent_percent c =
     (let total = cn_supporters c + cn_objectors c in
      if total = 0 then 0 else py_round (of_int (100 * cn_supporters c) / of_int total))"

definition consent_reached :: "consent \<Rightarrow> bool" where
  "consent_reached c \<longleftrightarrow>
     (let total = cn_supporters c + cn_objectors c in
      cn_min c \<le> cn_supporters c \<and> 0 < total \<and> cn_approval c * total \<le> cn_supporters c * 100 \<and> cn_needed c \<le> cn_pledged c)"

definition consent_of :: "quota_request \<Rightarrow> community_options \<Rightarrow> ('a) usage_db_scheme \<Rightarrow> limit_error + consent" where
  "consent_of r options db =
     (let rows = votes_on (qr_id r) db; supporters = filter pl_supports rows in
      map_sum id (\<lambda>inc. \<lparr>cn_supporters = int (length supporters), cn_objectors = int (length (filter (\<lambda>p. \<not> pl_supports p) rows)),
          cn_pledged = (\<Sum>p \<leftarrow> filter (\<lambda>p. pl_released p = None) supporters. pl_tokens p),
          cn_needed = (if pledge_scope r = None then 0 else \<lceil>(of_int inc * of_int (co_coverage options) / 100 :: rat)\<rceil>),
          cn_min = co_supporters options, cn_approval = co_approval options\<rparr>)
        (if pledge_scope r = None then Inr 0 else request_increase r db))"

definition voting_open :: "quota_request \<Rightarrow> community_options \<Rightarrow> stamp \<Rightarrow> bool" where
  "voting_open r options now \<longleftrightarrow>
     qr_status r = ''pending'' \<and> qr_community r \<and> qr_closed r = None \<and>
     (case qr_until r of None \<Rightarrow> False | Some t \<Rightarrow> now < t) \<and> co_enabled options \<and>
     request_kind r \<in> set (co_kinds options) \<and> \<not> asks_unlimited r"

subsection \<open>Pledges\<close>

text \<open>Tokens the account has renounced or promised in one scope, apart from those for one request.\<close>

definition holds_pledge :: "string \<Rightarrow> string option \<Rightarrow> int option \<Rightarrow> string \<Rightarrow> stamp \<Rightarrow> pledge \<Rightarrow> bool" where
  "holds_pledge u pool i scope now p \<longleftrightarrow>
     pl_user p = u \<and> pl_supports p \<and> 0 < pl_tokens p \<and> pl_released p = None \<and>
     (case pl_ends p of None \<Rightarrow> True | Some e \<Rightarrow> now < e) \<and>
     (case pl_pool p of None \<Rightarrow> [] | Some x \<Rightarrow> x) = (case pool of None \<Rightarrow> [] | Some x \<Rightarrow> x) \<and>
     zero_if_none (pl_model p) = zero_if_none i \<and> pl_scope p = Some scope"

definition held_pledges :: "string \<Rightarrow> string option \<Rightarrow> int option \<Rightarrow> string \<Rightarrow> int \<Rightarrow> stamp \<Rightarrow> ('a) usage_db_scheme \<Rightarrow> int" where
  "held_pledges u pool i scope exclude now db =
     (\<Sum>p \<leftarrow> filter (\<lambda>p. holds_pledge u pool i scope now p \<and> pl_request p \<noteq> exclude) (pledges db). pl_tokens p)"

definition scope_limit :: "string \<Rightarrow> base_limits \<Rightarrow> bool \<times> rat" where
  "scope_limit scope base = (if scope = ''window'' then (ba_window_on base, ba_window base) else (ba_weekly_on base, ba_weekly base))"

definition pledge_cap :: "rat \<Rightarrow> community_options \<Rightarrow> int" where
  "pledge_cap tokens options = \<lfloor>tokens * of_int (co_pledge_percent options) / 100\<rfloor>"

definition pledge_room :: "string \<Rightarrow> bool \<Rightarrow> quota_request \<Rightarrow> community_options \<Rightarrow> stamp \<Rightarrow> ('a) usage_db_scheme \<Rightarrow> limit_error + int" where
  "pledge_room u admin r options now db =
     (case pledge_scope r of
        None \<Rightarrow> Inr 0
      | Some scope \<Rightarrow>
          if admin then Inr 0
          else map_sum id (\<lambda>base.
            if \<not> fst (scope_limit scope base) then 0
            else max 0 (pledge_cap (snd (scope_limit scope base)) options -
              held_pledges u (fst (request_target r)) (snd (request_target r)) scope (qr_id r) now db)) (base_for u r db))"

definition eligible :: "string \<Rightarrow> bool \<Rightarrow> quota_request \<Rightarrow> community_options \<Rightarrow> epoch \<Rightarrow> epoch \<Rightarrow> ('a) request_db_scheme \<Rightarrow> string option" where
  "eligible u admin r options now clock db =
     (if \<not> voting_open r options \<lfloor>now\<rfloor> then Some ''closed''
      else if u = qr_user r then Some ''own''
      else if admin then Some ''admin''
      else case site_user u db of None \<Rightarrow> Some ''suspended''
      | Some fresh \<Rightarrow>
          if is_suspended clock (Some fresh) then Some ''suspended''
          else if now - 86400 * of_int (co_account_days options) < of_int (created_at fresh) then Some ''too_new'' else None)"

subsection \<open>Approval\<close>

text \<open>
  \<open>apply\<close>: the grant, if there is something to grant, with the end of what was given (\<open>None\<close> for a reasoning
  level). The amount of a token request is its increase now.
\<close>

definition grant_common ::
  "quota_request \<Rightarrow> string option \<Rightarrow> string \<Rightarrow> json \<Rightarrow> stamp \<Rightarrow> stamp \<Rightarrow> stamp \<Rightarrow> request_db \<Rightarrow> request_error + (int option \<times> request_db)" where
  "grant_common r scope kind amount now ends t db =
     map_sum Limit_Failed (\<lambda>(gid, d). (Some gid, d))
       (create_grant (Some (qr_user r)) (fst (request_target r)) (snd (request_target r)) scope kind amount now (Some ends)
         (request_reason ''Community approval of request #'' r) None t db)"

definition community_grant ::
  "quota_request \<Rightarrow> stamp \<Rightarrow> stamp \<Rightarrow> stamp \<Rightarrow> request_db \<Rightarrow> request_error + ((int option \<times> bool) \<times> request_db)" where
  "community_grant r now ends t db =
     (let kind = request_kind r; timed = map_sum id (\<lambda>(g, d). ((g, True), d)) in
      if kind = ''effort'' then
        if \<not> truthy (qr_level r) \<or> (qr_model r = None \<and> \<not> qr_all_models r) then Inl (Cannot_Apply ''no level'')
        else map_sum Limit_Failed (\<lambda>(_, d). ((None, False), d)) (unlock_effort (qr_user r) (qr_model r) (the (qr_level r)) ''request'' None t db)
      else if kind = ''temporary'' then
        if qr_unlimited r then Inl (Cannot_Apply ''unlimited'')
        else and_then (lift_limit (base_for (qr_user r) r db)) (\<lambda>base.
          if \<not> ba_window_on base then Inl (Cannot_Apply ''limit off'')
          else timed (grant_common r (Some ''window'') ''extra'' (J_Num (of_int (zero_if_none (qr_new_tokens r)))) now ends t db))
      else if kind = ''window'' \<or> kind = ''weekly'' then
        and_then (lift_limit (base_for (qr_user r) r db)) (\<lambda>base.
          if \<not> fst (scope_limit kind base) then Inl (Cannot_Apply ''limit off'')
          else and_then (lift_limit (request_increase r db)) (\<lambda>amount.
            if amount \<le> 0 then Inr ((None, True), db)
            else timed (grant_common r (Some kind) ''extra'' (J_Num (of_int amount)) now ends t db)))
      else if kind = ''rate'' then
        and_then (lift_limit (base_for (qr_user r) r db)) (\<lambda>base.
          and_then (asked_rates r) (\<lambda>asked.
            let factors = List.map_filter (\<lambda>x. case asked (per x) of None \<Rightarrow> None
                | Some n \<Rightarrow> if 0 < requests x then Some (of_int n / of_int (requests x) :: rat) else None) (ba_rules base) in
            if \<not> ba_rate_on base \<or> factors = [] then Inl (Cannot_Apply ''limit off'')
            else let factor = min MULTIPLIER_MAX (foldl max (hd factors) (tl factors)) in
              if factor < 101 / 100 then Inr ((None, True), db)
              else timed (grant_common r (Some ''rate'') ''multiplier'' (J_Num (round_to 2 factor)) now ends t db)))
      else Inl (Cannot_Apply ''kind''))"

definition request_hours :: "quota_request \<Rightarrow> community_options \<Rightarrow> int" where
  "request_hours r options = max 1 (if request_kind r = ''temporary'' then zero_if_none (qr_hours r) else co_boost_hours options)"

text \<open>The supporters' tokens are taken off their limits for as long as the increase lasts; the other pledges are released.\<close>

definition enforce_pledges :: "int \<Rightarrow> stamp \<Rightarrow> stamp option \<Rightarrow> stamp \<Rightarrow> request_db \<Rightarrow> request_db" where
  "enforce_pledges rid now ends t db =
     (let backing = (\<lambda>p. pl_request p = rid \<and> pl_supports p \<and> 0 < pl_tokens p \<and> pl_released p = None);
          db1 = (case ends of None \<Rightarrow> db
            | Some e \<Rightarrow> db\<lparr>pledges := tbl_update backing (\<lambda>p. p\<lparr>pl_starts := Some now, pl_ends := Some e, pl_updated := t\<rparr>) (pledges db)\<rparr>)
      in db1\<lparr>pledges := tbl_update (\<lambda>p. pl_request p = rid \<and> pl_starts p = None \<and> pl_released p = None)
           (\<lambda>p. p\<lparr>pl_released := Some t\<rparr>) (pledges db1)\<rparr>)"

definition community_apply :: "quota_request \<Rightarrow> community_options \<Rightarrow> stamp \<Rightarrow> stamp \<Rightarrow> stamp \<Rightarrow> request_db \<Rightarrow> request_error + request_db" where
  "community_apply r options now t1 t2 db =
     (let ends = now + 3600 * request_hours r options in
      map_sum id (\<lambda>((g, timed), d).
        enforce_pledges (qr_id r) now (if timed then Some ends else None) t2
          (update_request (\<lambda>x. qr_id x = qr_id r) (\<lambda>x. x\<lparr>qr_status := ''approved'', qr_source := ''community'', qr_resolved := Some t2,
             qr_grant := (case g of None \<Rightarrow> qr_grant x | Some i \<Rightarrow> Some i), qr_boost_ends := (if timed then Some ends else None),
             qr_message := (case qr_message x of None \<Rightarrow> Some ''Approved by the community.'' | Some m \<Rightarrow> Some m)\<rparr>) d))
        (community_grant r now ends t1 db))"

text \<open>Which failures are a \<open>ValueError\<close>.\<close>

definition value_failure :: "request_error \<Rightarrow> bool" where
  "value_failure e \<longleftrightarrow> (case e of Refused k \<Rightarrow> True | Cannot_Apply w \<Rightarrow> True
     | Limit_Failed l \<Rightarrow> l \<noteq> Integrity_Error \<and> l \<noteq> Unhashable \<and> l \<noteq> Number_Overflow | _ \<Rightarrow> False)"

definition settle_request ::
  "quota_request \<Rightarrow> community_options \<Rightarrow> stamp \<Rightarrow> stamp \<Rightarrow> stamp \<Rightarrow> stamp \<Rightarrow> request_db \<Rightarrow> request_error + (string \<times> request_db)" where
  "settle_request r options t_open now t1 t2 db =
     (if qr_status r \<noteq> ''pending'' \<or> \<not> voting_open r options t_open then Inr (qr_status r, db)
      else if asks_unlimited r then Inr (''pending'', db)
      else and_then (lift_limit (consent_of r options db)) (\<lambda>c.
        if \<not> consent_reached c then Inr (''pending'', db)
        else case community_apply r options now t1 t2 db of
          Inl e \<Rightarrow> if value_failure e then Inr (''pending'', db) else Inl e
        | Inr d \<Rightarrow> Inr (''approved'', d)))"

subsection \<open>Voting\<close>

text \<open>INSERT .. ON CONFLICT(request_id, user_id) DO UPDATE.\<close>

definition put_vote :: "pledge \<Rightarrow> ('a) usage_db_scheme \<Rightarrow> ('a) usage_db_scheme" where
  "put_vote v db =
     (let same = (\<lambda>p. pl_request p = pl_request v \<and> pl_user p = pl_user v) in
      if list_ex same (pledges db)
      then db\<lparr>pledges := tbl_update same (\<lambda>p. p\<lparr>pl_supports := pl_supports v, pl_tokens := pl_tokens v, pl_pool := pl_pool v,
          pl_model := pl_model v, pl_scope := pl_scope v, pl_updated := pl_updated v, pl_released := None\<rparr>) (pledges db)\<rparr>
      else db\<lparr>pledges := pledges db @ [v\<lparr>pl_id := next_pledge db\<rparr>], next_pledge := next_pledge db + 1\<rparr>)"

text \<open>The vote that is stored: an objection, and a request without tokens, renounces none.\<close>

definition vote_tokens :: "string \<Rightarrow> quota_request \<Rightarrow> int \<Rightarrow> int" where
  "vote_tokens stance r tokens = (if stance = ''object'' \<or> pledge_scope r = None then 0 else tokens)"

definition vote_row :: "int \<Rightarrow> string \<Rightarrow> string \<Rightarrow> int \<Rightarrow> quota_request \<Rightarrow> vote_clock \<Rightarrow> pledge" where
  "vote_row rid u stance n r ck = \<lparr>pl_id = 0, pl_request = rid, pl_user = u, pl_supports = (stance = ''support''), pl_tokens = n,
     pl_pool = fst (request_target r), pl_model = snd (request_target r), pl_scope = (if n = 0 then None else pledge_scope r),
     pl_starts = None, pl_ends = None, pl_released = None, pl_created = ck_created ck, pl_updated = ck_updated ck\<rparr>"

definition place_vote ::
  "string \<Rightarrow> string \<Rightarrow> int \<Rightarrow> quota_request \<Rightarrow> community_options \<Rightarrow> vote_clock \<Rightarrow> request_db \<Rightarrow> request_error + ((string \<times> consent) \<times> request_db)" where
  "place_vote u stance n r options ck db =
     and_then (settle_request r options (ck_open ck) (ck_apply ck) (ck_grant ck) (ck_stamp ck) (put_vote (vote_row (qr_id r) u stance n r ck) db))
       (\<lambda>(status, d). case request_get (qr_id r) d of None \<Rightarrow> Inl Bad_Type
          | Some r1 \<Rightarrow> map_sum Limit_Failed (\<lambda>c. ((status, c), d)) (consent_of r1 options d))"

text \<open>\<open>request_row\<close> joins the requester's account, which the foreign key keeps.\<close>

definition cast_vote ::
  "string \<Rightarrow> bool \<Rightarrow> int \<Rightarrow> string \<Rightarrow> int \<Rightarrow> quota_site \<Rightarrow> vote_clock \<Rightarrow> request_db \<Rightarrow> request_error + ((string \<times> consent) \<times> request_db)" where
  "cast_vote u admin rid stance tokens s ck db =
     (let options = community_settings s in
      if stance \<notin> {''support'', ''object''} then Inl (Refused ''vote_failed'')
      else if tokens < 0 then Inl (Refused ''vote_tokens'')
      else case request_get rid db of None \<Rightarrow> Inl (Refused ''vote_missing'')
      | Some r \<Rightarrow>
      (case eligible u admin r options (ck_now ck) (ck_suspended ck) db of Some w \<Rightarrow> Inl (Refused (''vote_'' @ w))
      | None \<Rightarrow>
        and_then (if vote_tokens stance r tokens = 0 then Inr 0 else lift_limit (pledge_room u admin r options (ck_held ck) db)) (\<lambda>room.
          if room < vote_tokens stance r tokens then Inl (Refused ''vote_too_many'')
          else if \<not> known (Some u) db then Inl Request_Integrity
          else place_vote u stance (vote_tokens stance r tokens) r options ck db)))"

definition withdraw_vote :: "string \<Rightarrow> int \<Rightarrow> quota_site \<Rightarrow> stamp \<Rightarrow> request_db \<Rightarrow> bool \<times> request_db" where
  "withdraw_vote u rid s now db =
     (case request_get rid db of
        None \<Rightarrow> (False, db)
      | Some r \<Rightarrow>
          if \<not> voting_open r (community_settings s) now then (False, db)
          else let p = (\<lambda>v. pl_request v = rid \<and> pl_user v = u) in
            (tbl_count p (pledges db) = 1, db\<lparr>pledges := tbl_delete p (pledges db)\<rparr>))"

subsection \<open>The board and the end of voting\<close>

definition open_requests :: "nat \<Rightarrow> quota_site \<Rightarrow> stamp \<Rightarrow> stamp \<Rightarrow> ('a) request_db_scheme \<Rightarrow> quota_request list" where
  "open_requests limit s t1 t2 db =
     (let options = community_settings s in
      if \<not> co_enabled options then []
      else filter (\<lambda>r. voting_open r options t2) (take limit (sort_key (\<lambda>r. - qr_id r)
        (filter (\<lambda>r. qr_status r = ''pending'' \<and> qr_community r \<and> qr_closed r = None \<and>
           (case qr_until r of None \<Rightarrow> False | Some u \<Rightarrow> t1 < u)) (quota_requests db)))))"

definition count_open :: "quota_site \<Rightarrow> stamp \<Rightarrow> ('a) request_db_scheme \<Rightarrow> nat" where
  "count_open s t db =
     (if \<not> co_enabled (community_settings s) then 0
      else tbl_count (\<lambda>r. qr_status r = ''pending'' \<and> qr_community r \<and> qr_closed r = None \<and>
        (case qr_until r of None \<Rightarrow> False | Some u \<Rightarrow> t < u) \<and> \<not> (qr_kind r = ''temporary'' \<and> qr_unlimited r)) (quota_requests db))"

definition my_pledges :: "string \<Rightarrow> stamp \<Rightarrow> ('a) usage_db_scheme \<Rightarrow> pledge list" where
  "my_pledges u now db =
     sort_key (\<lambda>p. - pl_id p) (filter (\<lambda>p. pl_user p = u \<and> pl_supports p \<and> 0 < pl_tokens p \<and> pl_released p = None \<and>
       (case pl_ends p of None \<Rightarrow> True | Some e \<Rightarrow> now < e)) (pledges db))"

text \<open>One round of \<open>close_expired\<close>; whether the voting was closed. \<open>now\<close> is read once for the whole job.\<close>

definition close_one ::
  "int \<Rightarrow> quota_site \<Rightarrow> stamp \<Rightarrow> vote_clock \<Rightarrow> request_db \<Rightarrow> request_error + (bool \<times> request_db)" where
  "close_one rid s now ck db =
     (case request_get rid db of
        None \<Rightarrow> Inr (False, db)
      | Some r \<Rightarrow>
          if qr_status r \<noteq> ''pending'' \<or> qr_closed r \<noteq> None then Inr (False, db)
          else if (case qr_until r of None \<Rightarrow> False | Some t \<Rightarrow> t \<le> now)
          then Inr (True, release_pledges rid (ck_created ck) (ck_updated ck) (update_request (\<lambda>x. qr_id x = rid) (\<lambda>x. x\<lparr>qr_closed := Some now\<rparr>) db))
          else map_sum id (\<lambda>(_, d). (False, d))
            (settle_request r (community_settings s) (ck_open ck) (ck_apply ck) (ck_grant ck) (ck_stamp ck) db))"

text \<open>The whole job: each request is a transaction of its own, and an error ends the loop.\<close>

fun close_all :: "int list \<Rightarrow> quota_site \<Rightarrow> stamp \<Rightarrow> (int \<Rightarrow> vote_clock) \<Rightarrow> request_db \<Rightarrow> (request_error option \<times> int list) \<times> request_db" where
  "close_all [] s now ck db = ((None, []), db)"
| "close_all (rid # ids) s now ck db =
     (case close_one rid s now (ck rid) db of
        Inl e \<Rightarrow> ((Some e, []), db)
      | Inr (ended, d) \<Rightarrow> (let ((e, rest), d1) = close_all ids s now ck d in ((e, if ended then rid # rest else rest), d1)))"

definition close_expired :: "quota_site \<Rightarrow> stamp \<Rightarrow> (int \<Rightarrow> vote_clock) \<Rightarrow> request_db \<Rightarrow> (request_error option \<times> int list) \<times> request_db" where
  "close_expired s now ck db =
     close_all (map qr_id (filter (\<lambda>r. qr_status r = ''pending'' \<and> qr_community r \<and> qr_closed r = None) (quota_requests db))) s now ck db"


subsection \<open>The steps of requests and votes\<close>

lemma grant_common_same: "grant_common r scope kind amount now ends t db = Inr (g, d) \<Longrightarrow> same_requests db d"
  by (auto simp: grant_common_def map_sum_Inr dest: create_grant_requests)

lemma community_grant_same: "community_grant r now ends t db = Inr (x, d) \<Longrightarrow> same_requests db d"
  unfolding community_grant_def Let_def
  by (auto simp: and_then_Inr map_sum_Inr dest: grant_common_same unlock_effort_requests split: if_split_asm prod.splits)

definition approved_row :: "int option \<Rightarrow> stamp option \<Rightarrow> stamp \<Rightarrow> quota_request \<Rightarrow> quota_request" where
  "approved_row g ends t x =
     x\<lparr>qr_status := ''approved'', qr_source := ''community'', qr_resolved := Some t,
       qr_grant := (case g of None \<Rightarrow> qr_grant x | Some i \<Rightarrow> Some i), qr_boost_ends := ends,
       qr_message := (case qr_message x of None \<Rightarrow> Some ''Approved by the community.'' | Some m \<Rightarrow> Some m)\<rparr>"

lemma community_apply_Inr:
  assumes "community_apply r options now t1 t2 db = Inr d"
  obtains g timed d1 where "community_grant r now (now + 3600 * request_hours r options) t1 db = Inr ((g, timed), d1)"
    "d = enforce_pledges (qr_id r) now (if timed then Some (now + 3600 * request_hours r options) else None) t2
      (update_request (\<lambda>x. qr_id x = qr_id r) (approved_row g (if timed then Some (now + 3600 * request_hours r options) else None) t2) d1)"
proof -
  from assms obtain g timed d1 where "community_grant r now (now + 3600 * request_hours r options) t1 db = Inr ((g, timed), d1)"
    unfolding community_apply_def Let_def by (auto simp: map_sum_Inr split: prod.splits)
  with assms that show ?thesis by (simp add: community_apply_def approved_row_def [abs_def] Let_def)
qed

lemma enforce_requests [simp]: "quota_requests (enforce_pledges rid now ends t db) = quota_requests db"
  "next_request (enforce_pledges rid now ends t db) = next_request db" "accounts (enforce_pledges rid now ends t db) = accounts db"
  by (simp_all add: enforce_pledges_def Let_def split: option.split)

lemma touches_enforce [simp]: "touches rid db (enforce_pledges n now ends t d) \<longleftrightarrow> touches rid db d"
  by (simp add: touches_def)

lemma community_apply_touches: "community_apply r options now t1 t2 db = Inr d \<Longrightarrow> touches (qr_id r) db d"
proof (erule community_apply_Inr)
  fix g timed d1 assume g: "community_grant r now (now + 3600 * request_hours r options) t1 db = Inr ((g, timed), d1)"
    and d: "d = enforce_pledges (qr_id r) now (if timed then Some (now + 3600 * request_hours r options) else None) t2
      (update_request (\<lambda>x. qr_id x = qr_id r) (approved_row g (if timed then Some (now + 3600 * request_hours r options) else None) t2) d1)"
  have "touches (qr_id r) d1 (update_request (\<lambda>x. qr_id x = qr_id r) (approved_row g (if timed then Some (now + 3600 * request_hours r options) else None) t2) d1)"
    by (rule touches_update) (simp add: row_kept_def approved_row_def)
  with touches_same [OF community_grant_same [OF g]] show "touches (qr_id r) db d" unfolding d touches_enforce by (rule touches_trans)
qed

lemma settle_cases:
  assumes "settle_request r options t0 now t1 t2 db = Inr (st, d)"
  obtains (same) "d = db" "st = qr_status r \<or> st = ''pending''" "st = ''approved'' \<Longrightarrow> qr_status r \<noteq> ''pending''"
  | (approved) c where "st = ''approved''" "qr_status r = ''pending''" "voting_open r options t0" "\<not> asks_unlimited r"
      "consent_of r options db = Inr c" "consent_reached c" "community_apply r options now t1 t2 db = Inr d"
proof (cases "qr_status r \<noteq> ''pending'' \<or> \<not> voting_open r options t0 \<or> asks_unlimited r")
  case True
  then have "d = db \<and> (st = qr_status r \<or> st = ''pending'' \<and> qr_status r = ''pending'') \<and> (st = ''approved'' \<longrightarrow> qr_status r \<noteq> ''pending'')"
    using assms by (cases "qr_status r = ''pending''") (auto simp: settle_request_def split: if_split_asm)
  then show ?thesis by (intro same) auto
next
  case False
  with assms obtain c where c: "consent_of r options db = Inr c"
    and rest: "(if \<not> consent_reached c then Inr (''pending'', db) else case community_apply r options now t1 t2 db of
          Inl e \<Rightarrow> if value_failure e then Inr (''pending'', db) else Inl e | Inr d \<Rightarrow> Inr (''approved'', d)) = Inr (st, d)"
    by (auto simp: settle_request_def and_then_Inr)
  show ?thesis
  proof (cases "consent_reached c")
    case True
    with rest False c show ?thesis
      by (cases "community_apply r options now t1 t2 db") (auto intro: same approved split: if_split_asm)
  qed (use rest same in auto)
qed

lemma settle_touches: "settle_request r options t0 now t1 t2 db = Inr (st, d) \<Longrightarrow> touches (qr_id r) db d"
proof (erule settle_cases)
  show "touches (qr_id r) db d" if "d = db" using that touches_same [of db db] by (simp add: same_requests_def)
qed (rule community_apply_touches)

lemma put_vote_requests [simp]: "quota_requests (put_vote v db) = quota_requests db" "next_request (put_vote v db) = next_request db"
  by (simp_all add: put_vote_def Let_def)

lemma cast_vote_Inr:
  assumes "cast_vote u admin rid stance tokens s ck db = Inr ((st, c), d)"
  obtains r room where "request_get rid db = Some r" "qr_id r = rid"
    "eligible u admin r (community_settings s) (ck_now ck) (ck_suspended ck) db = None"
    "vote_tokens stance r tokens \<le> room" "0 \<le> tokens"
    "vote_tokens stance r tokens \<noteq> 0 \<Longrightarrow> pledge_room u admin r (community_settings s) (ck_held ck) db = Inr room"
    "settle_request r (community_settings s) (ck_open ck) (ck_apply ck) (ck_grant ck) (ck_stamp ck)
      (put_vote (vote_row rid u stance (vote_tokens stance r tokens) r ck) db) = Inr (st, d)"
proof -
  from assms obtain r where r: "request_get rid db = Some r" "eligible u admin r (community_settings s) (ck_now ck) (ck_suspended ck) db = None"
    and ok: "0 \<le> tokens"
    by (auto simp: cast_vote_def Let_def split: if_split_asm option.splits)
  have id: "qr_id r = rid" using r(1) by (auto simp: request_get_def dest: tbl_one_SomeD)
  have "and_then (if vote_tokens stance r tokens = 0 then Inr 0 else lift_limit (pledge_room u admin r (community_settings s) (ck_held ck) db)) (\<lambda>room.
          if room < vote_tokens stance r tokens then Inl (Refused ''vote_too_many'')
          else if \<not> known (Some u) db then Inl Request_Integrity
          else place_vote u stance (vote_tokens stance r tokens) r (community_settings s) ck db) = Inr ((st, c), d)"
    using assms r ok by (simp add: cast_vote_def Let_def split: if_split_asm)
  then obtain room where room: "(if vote_tokens stance r tokens = 0 then Inr 0 else lift_limit (pledge_room u admin r (community_settings s) (ck_held ck) db)) = Inr room"
      "vote_tokens stance r tokens \<le> room"
    and "place_vote u stance (vote_tokens stance r tokens) r (community_settings s) ck db = Inr ((st, c), d)"
    by (auto simp: and_then_Inr split: if_split_asm)
  then have "settle_request r (community_settings s) (ck_open ck) (ck_apply ck) (ck_grant ck) (ck_stamp ck)
      (put_vote (vote_row rid u stance (vote_tokens stance r tokens) r ck) db) = Inr (st, d)"
    by (auto simp: place_vote_def and_then_Inr map_sum_Inr id split: option.splits)
  with that r ok room id show ?thesis by (auto split: if_split_asm)
qed

datatype quota_act =
  Q_Submit new_request quota_site stamp stamp stamp stamp stamp
| Q_Cancel int string stamp stamp stamp stamp
| Q_Resolve int string bool string stamp stamp stamp stamp stamp
| Q_Vote string bool int string int quota_site vote_clock
| Q_Withdraw string int quota_site stamp
| Q_Close int quota_site stamp vote_clock

text \<open>One step of any process; what fails changes nothing. The result is whether it went through.\<close>

definition stored :: "request_db \<Rightarrow> request_error + 'x \<times> request_db \<Rightarrow> bool \<times> request_db" where
  "stored db r = (case r of Inl e \<Rightarrow> (False, db) | Inr (x, d) \<Rightarrow> (True, d))"

primrec quota_do :: "quota_act \<Rightarrow> request_db \<Rightarrow> bool \<times> request_db" where
  "quota_do (Q_Submit q s t1 t2 t3 t4 t5) db = stored db (submit_request q s t1 t2 t3 t4 t5 db)"
| "quota_do (Q_Cancel rid u t1 t2 t3 t4) db = cancel_request rid u t1 t2 t3 t4 db"
| "quota_do (Q_Resolve rid admin ok note t1 t2 t3 t4 t5) db = stored db (map_sum id (\<lambda>d. ((), d)) (resolve_quota rid admin ok note t1 t2 t3 t4 t5 db))"
| "quota_do (Q_Vote u admin rid stance tokens s ck) db = stored db (cast_vote u admin rid stance tokens s ck db)"
| "quota_do (Q_Withdraw u rid s now) db = withdraw_vote u rid s now db"
| "quota_do (Q_Close rid s now ck) db = stored db (close_one rid s now ck db)"

lemma kept_refl [simp]: "wf_requests db \<Longrightarrow> wf_requests db \<and> decided_kept db db"
  by (simp add: decided_kept_def)

lemma same_keeps: "quota_requests d = quota_requests db \<Longrightarrow> next_request d = next_request db \<Longrightarrow> wf_requests db \<Longrightarrow> wf_requests d \<and> decided_kept db d"
  by (simp add: wf_requests_def decided_kept_def)

lemma vote_keeps:
  assumes wf: "wf_requests db" and v: "cast_vote u admin rid stance tokens s ck db = Inr (x, d)"
  shows "wf_requests d \<and> decided_kept db d"
proof -
  obtain st c where "x = (st, c)" by fastforce
  with v obtain r n where r: "request_get rid db = Some r" "eligible u admin r (community_settings s) (ck_now ck) (ck_suspended ck) db = None"
    and id: "qr_id r = rid"
    and s: "settle_request r (community_settings s) (ck_open ck) (ck_apply ck) (ck_grant ck) (ck_stamp ck) (put_vote (vote_row rid u stance n r ck) db) = Inr (st, d)"
    using cast_vote_Inr [of u admin rid stance tokens s ck db st c d] by metis
  have p: "qr_status r = ''pending''" using r(2) by (auto simp: eligible_def voting_open_def split: if_split_asm)
  have "touches rid db (put_vote (vote_row rid u stance n r ck) db)"
    unfolding touches_def by (intro conjI exI [of _ "\<lambda>r. r"]) (simp_all add: tbl_update_def)
  with settle_touches [OF s] id have "touches rid db d" by (auto intro: touches_trans)
  from touches_keeps [OF wf this request_get_pending [OF wf r(1) p]] show ?thesis .
qed

lemma close_keeps:
  assumes wf: "wf_requests db" and v: "close_one rid s now ck db = Inr (x, d)"
  shows "wf_requests d \<and> decided_kept db d"
proof (cases "request_get rid db")
  case (Some r)
  have id: "qr_id r = rid" using Some by (auto simp: request_get_def dest: tbl_one_SomeD)
  show ?thesis
  proof (cases "qr_status r \<noteq> ''pending'' \<or> qr_closed r \<noteq> None")
    case False
    have "touches rid db (update_request (\<lambda>x. qr_id x = rid) (\<lambda>x. x\<lparr>qr_closed := Some now\<rparr>) db)"
      by (rule touches_update) (simp add: row_kept_def)
    with v Some False have "touches rid db d"
      using settle_touches [of r "community_settings s" "ck_open ck" "ck_apply ck" "ck_grant ck" "ck_stamp ck" db] id
      by (auto simp: close_one_def map_sum_Inr split: if_split_asm)
    with touches_keeps [OF wf _ request_get_pending [OF wf Some]] False show ?thesis by blast
  qed (use v Some wf in \<open>simp add: close_one_def decided_kept_def\<close>)
qed (use v wf in \<open>simp add: close_one_def decided_kept_def\<close>)

lemma stored_keeps: "wf_requests db \<Longrightarrow> (\<And>x d. r = Inr (x, d) \<Longrightarrow> wf_requests d \<and> decided_kept db d) \<Longrightarrow>
    wf_requests (snd (stored db r)) \<and> decided_kept db (snd (stored db r))"
proof (cases r)
  case (Inr y)
  moreover obtain x d where "y = (x, d)" by fastforce
  moreover assume "\<And>x d. r = Inr (x, d) \<Longrightarrow> wf_requests d \<and> decided_kept db d"
  ultimately show ?thesis by (simp add: stored_def)
qed (simp add: stored_def decided_kept_def)

lemma quota_step_keeps:
  assumes wf: "wf_requests db" shows "wf_requests (snd (quota_do a db)) \<and> decided_kept db (snd (quota_do a db))"
proof (cases a)
  case (Q_Submit q s t1 t2 t3 t4 t5)
  then show ?thesis using submit_keeps [OF wf] by (simp only: quota_do.simps) (rule stored_keeps [OF wf])
next
  case (Q_Cancel rid u t1 t2 t3 t4)
  then show ?thesis using cancel_keeps [OF wf] by simp
next
  case (Q_Resolve rid admin ok msg t1 t2 t3 t4 t5)
  have "wf_requests d \<and> decided_kept db d" if "map_sum id (\<lambda>d. ((), d)) (resolve_quota rid admin ok msg t1 t2 t3 t4 t5 db) = Inr (x, d)" for x d
    using that by (auto simp: map_sum_Inr intro: resolve_keeps [OF wf, THEN conjunct1] resolve_keeps [OF wf, THEN conjunct2])
  with Q_Resolve show ?thesis by (simp only: quota_do.simps) (rule stored_keeps [OF wf])
next
  case (Q_Vote u admin rid stance tokens s ck)
  then show ?thesis using vote_keeps [OF wf] by (simp only: quota_do.simps) (rule stored_keeps [OF wf])
next
  case (Q_Withdraw u rid s now)
  then have "quota_requests (snd (quota_do a db)) = quota_requests db" "next_request (snd (quota_do a db)) = next_request db"
    by (auto simp: withdraw_vote_def Let_def split: option.split)
  then show ?thesis using same_keeps wf by blast
next
  case (Q_Close rid s now ck)
  then show ?thesis using close_keeps [OF wf] by (simp only: quota_do.simps) (rule stored_keeps [OF wf])
qed

text \<open>A request is decided once. From a well-formed table, over any steps of all processes (requests sent,
  cancelled, resolved by administrators, votes, withdrawals and the job that closes votings), ids stay
  distinct and an account has at most one pending request, and a request that was approved, denied or
  cancelled keeps its whole row: no later vote, cancellation or decision changes it.\<close>

theorem request_decided_once:
  assumes "wf_requests db"
  shows "wf_requests (snd (run_acts quota_do acts db)) \<and>
    (\<forall>r \<in> set (quota_requests db). qr_status r \<noteq> ''pending'' \<longrightarrow> r \<in> set (quota_requests (snd (run_acts quota_do acts db))))"
proof -
  have "wf_requests (snd (run_acts quota_do acts db)) \<and> decided_kept db (snd (run_acts quota_do acts db))"
    using assms
  proof (induction acts arbitrary: db)
    case (Cons a acts)
    from quota_step_keeps [OF Cons.prems, of a] Cons.IH [of "snd (quota_do a db)"] show ?case
      by (auto simp: case_prod_beta intro: decided_kept_trans)
  qed simp
  then show ?thesis by (simp add: decided_kept_def)
qed

lemma ex_asked_wf: "wf_requests ex_asked_db"
  by (simp add: wf_requests_def ex_asked_db_def ex_row_facts)

theorem request_decided_once_witness:
  "wf_requests (snd (run_acts quota_do [Q_Resolve 1 ''boss'' True ''fine'' 20 21 22 23 24, Q_Cancel 1 ''u'' 25 25 25 25] ex_asked_db))"
  using request_decided_once [OF ex_asked_wf, of "[Q_Resolve 1 ''boss'' True ''fine'' 20 21 22 23 24, Q_Cancel 1 ''u'' 25 25 25 25]"] by (rule conjunct1)

subsection \<open>What the community grants is paid for\<close>

lemma create_extra:
  assumes "create_grant u pl i (Some sc) ''extra'' (J_Num (of_int n)) t0 (Some e) rs who t db = Inr (gid, d)"
  shows "\<exists>g. grants d = grants db @ [g] \<and> g_user g = u \<and> g_amount g = of_int n \<and> g_ends g = Some e"
proof -
  from assms obtain g where g: "validate_grant u pl i (Some sc) ''extra'' (J_Num (of_int n)) t0 (Some e) rs db = Inr g"
    and d: "grants d = grants db @ [g\<lparr>g_id := next_grant db, g_created := (t, who)\<rparr>]"
    by (auto simp: create_grant_def split: sum.splits if_splits)
  from g have "g_user g = u \<and> g_amount g = of_int n \<and> g_ends g = Some e"
    by (auto simp: validate_grant_def map_sum_Inr Let_def dest!: whole_of_num split: if_splits sum.splits)
  with d show ?thesis by simp
qed

lemma grant_common_extra:
  "grant_common r (Some sc) ''extra'' (J_Num (of_int n)) now ends t db = Inr (g, d) \<Longrightarrow>
    \<exists>x. grants d = grants db @ [x] \<and> g_user x = Some (qr_user r) \<and> g_amount x = of_int n \<and> g_ends x = Some ends"
  by (auto simp: grant_common_def map_sum_Inr dest: create_extra)

lemma scope_kinds: "pledge_scope r = Some sc \<Longrightarrow> request_kind r = ''window'' \<and> sc = ''window'' \<or> request_kind r = ''weekly'' \<and> sc = ''weekly'' \<or>
    request_kind r = ''temporary'' \<and> \<not> qr_unlimited r \<and> sc = ''window''"
  by (auto simp: pledge_scope_def Let_def split: if_split_asm)

lemma token_grant:
  assumes g: "community_grant r now ends t db = Inr ((x, timed), d)" and sc: "pledge_scope r = Some sc" and inc: "request_increase r db = Inr n"
  shows "timed \<and> (\<exists>gs. grants d = grants db @ gs \<and> length gs \<le> 1 \<and> (\<forall>y \<in> set gs. g_user y = Some (qr_user r) \<and> g_amount y = of_int n \<and> g_ends y = Some ends))"
proof -
  have one: ?thesis if "timed" "grants d = grants db \<or> (\<exists>y. grants d = grants db @ [y] \<and> g_user y = Some (qr_user r) \<and> g_amount y = of_int n \<and> g_ends y = Some ends)"
    using that by (auto intro: exI [of _ "[]"] exI [of _ "[y]" for y])
  from scope_kinds [OF sc] show ?thesis
  proof (elim disjE conjE)
    assume k: "request_kind r = ''temporary''" "\<not> qr_unlimited r"
    then have "n = zero_if_none (qr_new_tokens r)" using inc by (simp add: request_increase_def)
    with g k one show ?thesis by (auto simp: community_grant_def and_then_Inr map_sum_Inr Let_def dest!: grant_common_extra split: if_split_asm)
  next
    assume k: "request_kind r = ''window''"
    with g inc one show ?thesis by (auto simp: community_grant_def and_then_Inr map_sum_Inr Let_def dest!: grant_common_extra split: if_split_asm)
  next
    assume k: "request_kind r = ''weekly''"
    with g inc one show ?thesis by (auto simp: community_grant_def and_then_Inr map_sum_Inr Let_def dest!: grant_common_extra split: if_split_asm)
  qed
qed

definition in_force_pledge :: "int \<Rightarrow> stamp \<Rightarrow> stamp \<Rightarrow> pledge \<Rightarrow> bool" where
  "in_force_pledge rid now ends p \<longleftrightarrow> pl_request p = rid \<and> pl_supports p \<and> pl_starts p = Some now \<and> pl_ends p = Some ends \<and> pl_released p = None"

lemma sum_filter: "(\<Sum>p \<leftarrow> filter P xs. (f p :: int)) = (\<Sum>p \<leftarrow> xs. if P p then f p else 0)"
  by (induction xs) simp_all

lemma enforced_sum:
  assumes "\<forall>p \<in> set (pledges db). 0 \<le> pl_tokens p"
  shows "(\<Sum>p \<leftarrow> filter (\<lambda>p. pl_released p = None) (filter pl_supports (votes_on rid db)). pl_tokens p)
    \<le> (\<Sum>p \<leftarrow> filter (in_force_pledge rid now e) (pledges (enforce_pledges rid now (Some e) t db)). pl_tokens p)"
proof -
  define h :: "pledge \<Rightarrow> pledge" where "h p = (let q = (if pl_request p = rid \<and> pl_supports p \<and> 0 < pl_tokens p \<and> pl_released p = None
      then p\<lparr>pl_starts := Some now, pl_ends := Some e, pl_updated := t\<rparr> else p)
    in if pl_request q = rid \<and> pl_starts q = None \<and> pl_released q = None then q\<lparr>pl_released := Some t\<rparr> else q)" for p
  have after: "pledges (enforce_pledges rid now (Some e) t db) = map h (pledges db)"
    by (simp add: enforce_pledges_def Let_def tbl_update_def h_def [abs_def] o_def)
  have "(\<Sum>p \<leftarrow> filter (\<lambda>p. pl_released p = None) (filter pl_supports (votes_on rid db)). pl_tokens p)
      = (\<Sum>p \<leftarrow> pledges db. if pl_request p = rid \<and> pl_supports p \<and> pl_released p = None then pl_tokens p else 0)"
    by (simp add: votes_on_def sum_filter conj_commute conj_left_commute)
  also have "\<dots> \<le> (\<Sum>p \<leftarrow> pledges db. if in_force_pledge rid now e (h p) then pl_tokens (h p) else 0)"
  proof (rule sum_list_mono)
    fix p assume "p \<in> set (pledges db)"
    with assms have "0 \<le> pl_tokens p" by blast
    then show "(if pl_request p = rid \<and> pl_supports p \<and> pl_released p = None then pl_tokens p else 0)
        \<le> (if in_force_pledge rid now e (h p) then pl_tokens (h p) else 0)"
      by (cases "pl_tokens p = 0") (auto simp: h_def in_force_pledge_def Let_def)
  qed
  also have "\<dots> = (\<Sum>p \<leftarrow> filter (in_force_pledge rid now e) (pledges (enforce_pledges rid now (Some e) t db)). pl_tokens p)"
    by (simp add: after sum_filter o_def)
  finally show ?thesis .
qed


subsection \<open>Nobody pledges more than their share\<close>

text \<open>One vote for an account and a request (UNIQUE), and votes on a request that waits have no end yet.\<close>

definition vote_key :: "pledge \<Rightarrow> int \<times> string" where
  "vote_key p = (pl_request p, pl_user p)"

definition wf_votes :: "request_db \<Rightarrow> bool" where
  "wf_votes db \<longleftrightarrow> distinct (map vote_key (pledges db)) \<and> (\<forall>p \<in> set (pledges db). 0 \<le> pl_tokens p \<and> pl_request p < next_request db) \<and>
     (\<forall>p \<in> set (pledges db). \<forall>r \<in> set (quota_requests db). qr_id r = pl_request p \<longrightarrow> qr_status r = ''pending'' \<longrightarrow> pl_ends p = None)"

definition pledged_in :: "string \<Rightarrow> quota_request \<Rightarrow> string \<Rightarrow> stamp \<Rightarrow> ('a) usage_db_scheme \<Rightarrow> int" where
  "pledged_in u r sc now db = (\<Sum>p \<leftarrow> filter (holds_pledge u (fst (request_target r)) (snd (request_target r)) sc now) (pledges db). pl_tokens p)"

lemma distinct_one: "distinct (map k xs) \<Longrightarrow> (\<Sum>p \<leftarrow> xs. if k p = i then (n :: int) else 0) \<le> (if n < 0 then 0 else n)"
proof (induction xs)
  case (Cons x xs)
  have "(\<Sum>p \<leftarrow> xs. if k p = i then n else 0) = 0" if "k x = i"
  proof -
    have "k x \<notin> k ` set xs" using Cons.prems by simp
    then have "\<forall>p \<in> set xs. k p \<noteq> i" using that by blast
    then show ?thesis by (induction xs) simp_all
  qed
  with Cons show ?case by auto
qed simp

lemma put_vote_sum:
  assumes d: "distinct (map vote_key (pledges db))" and n: "0 \<le> pl_tokens v" and e: "holds_pledge u pool i sc now v"
  shows "(\<Sum>p \<leftarrow> filter (holds_pledge u pool i sc now) (pledges (put_vote v db)). pl_tokens p)
    \<le> held_pledges u pool i sc (pl_request v) now db + pl_tokens v"
proof -
  let ?H = "holds_pledge u pool i sc now" and ?rid = "pl_request v"
  have user: "pl_user v = u" using e by (simp add: holds_pledge_def)
  let ?same = "\<lambda>p. pl_request p = ?rid \<and> pl_user p = pl_user v"
  have held: "held_pledges u pool i sc ?rid now db = (\<Sum>p \<leftarrow> pledges db. if ?H p \<and> pl_request p \<noteq> ?rid then pl_tokens p else 0)"
    by (simp add: held_pledges_def sum_filter)
  show ?thesis
  proof (cases "list_ex ?same (pledges db)")
    case False
    then have "(\<Sum>p \<leftarrow> filter ?H (pledges db). pl_tokens p) = held_pledges u pool i sc ?rid now db"
      unfolding held sum_filter using user by (intro arg_cong [where f = sum_list] map_cong) (auto simp: list_ex_iff holds_pledge_def)
    with False show ?thesis using n by (simp add: put_vote_def Let_def)
  next
    case True
    define h :: "pledge \<Rightarrow> pledge" where "h p = (if ?same p then p\<lparr>pl_supports := pl_supports v, pl_tokens := pl_tokens v, pl_pool := pl_pool v,
          pl_model := pl_model v, pl_scope := pl_scope v, pl_updated := pl_updated v, pl_released := None\<rparr> else p)" for p
    have after: "pledges (put_vote v db) = map h (pledges db)" using True by (simp add: put_vote_def Let_def tbl_update_def h_def [abs_def])
    have "(\<Sum>p \<leftarrow> filter ?H (pledges (put_vote v db)). pl_tokens p) = (\<Sum>p \<leftarrow> pledges db. if ?H (h p) then pl_tokens (h p) else 0)"
      by (simp add: after sum_filter o_def)
    also have "\<dots> \<le> (\<Sum>p \<leftarrow> pledges db. (if ?H p \<and> pl_request p \<noteq> ?rid then pl_tokens p else 0) + (if vote_key p = (?rid, u) then pl_tokens v else 0))"
      using user n by (intro sum_list_mono) (auto simp: h_def vote_key_def holds_pledge_def)
    also have "\<dots> = held_pledges u pool i sc ?rid now db + (\<Sum>p \<leftarrow> pledges db. if vote_key p = (?rid, u) then pl_tokens v else 0)"
      by (simp add: held sum_list_addf)
    also have "\<dots> \<le> held_pledges u pool i sc ?rid now db + pl_tokens v" using distinct_one [OF d, of "(?rid, u)" "pl_tokens v"] n by simp
    finally show ?thesis .
  qed
qed

lemma settle_sum:
  assumes settle: "settle_request r options t0 ap t1 t2 db = Inr (st, d)" and ends: "\<forall>p \<in> set (pledges db). 0 \<le> pl_tokens p \<and> (pl_request p = qr_id r \<longrightarrow> pl_ends p = None)"
  shows "(\<Sum>p \<leftarrow> filter (holds_pledge u pool i sc now) (pledges d). pl_tokens p) \<le> (\<Sum>p \<leftarrow> filter (holds_pledge u pool i sc now) (pledges db). pl_tokens p)"
  using settle
proof (cases rule: settle_cases)
  case (approved c)
  let ?e = "ap + 3600 * request_hours r options"
  from approved(7) obtain x timed d1 where g: "community_grant r ap ?e t1 db = Inr ((x, timed), d1)"
    and d: "d = enforce_pledges (qr_id r) ap (if timed then Some ?e else None) t2
      (update_request (\<lambda>y. qr_id y = qr_id r) (approved_row x (if timed then Some ?e else None) t2) d1)"
    by (rule community_apply_Inr)
  have "pledges d1 = pledges db" using community_grant_same [OF g] by (simp add: same_requests_def)
  define h :: "pledge \<Rightarrow> pledge" where "h p = (let q = (if timed \<and> pl_request p = qr_id r \<and> pl_supports p \<and> 0 < pl_tokens p \<and> pl_released p = None
      then p\<lparr>pl_starts := Some ap, pl_ends := Some ?e, pl_updated := t2\<rparr> else p)
    in if pl_request q = qr_id r \<and> pl_starts q = None \<and> pl_released q = None then q\<lparr>pl_released := Some t2\<rparr> else q)" for p
  have "pledges d = map h (pledges db)" using \<open>pledges d1 = pledges db\<close>
    by (cases timed) (simp_all add: d enforce_pledges_def update_request_def Let_def tbl_update_def h_def [abs_def] o_def)
  then have "(\<Sum>p \<leftarrow> filter (holds_pledge u pool i sc now) (pledges d). pl_tokens p)
      = (\<Sum>p \<leftarrow> pledges db. if holds_pledge u pool i sc now (h p) then pl_tokens (h p) else 0)"
    by (simp add: sum_filter o_def)
  also have "\<dots> \<le> (\<Sum>p \<leftarrow> pledges db. if holds_pledge u pool i sc now p then pl_tokens p else 0)"
  proof (rule sum_list_mono)
    fix p assume "p \<in> set (pledges db)"
    with ends have "0 \<le> pl_tokens p" "pl_request p = qr_id r \<longrightarrow> pl_ends p = None" by auto
    then show "(if holds_pledge u pool i sc now (h p) then pl_tokens (h p) else 0) \<le> (if holds_pledge u pool i sc now p then pl_tokens p else 0)"
      by (auto simp: h_def Let_def holds_pledge_def)
  qed
  finally show ?thesis by (simp add: sum_filter)
qed simp


text \<open>Every step keeps the votes well formed.\<close>

lemma apply_pledges: "apply_request r who now t db = Inr d \<Longrightarrow> pledges d = pledges db"
proof -
  have g: "pledges d = pledges db" if "grant_for r pl i amount who now t db = Inr d" for pl i amount d
    using that by (auto simp: grant_for_def map_sum_Inr set_grant_def same_requests_def split: option.splits dest!: create_grant_requests)
  have m: "pledges d = pledges db" if "apply_model r i who now t db = Inr d" for i d
    using that by (auto simp: apply_model_def Let_def and_then_Inr map_sum_Inr same_requests_def split: option.splits if_splits
      dest!: set_model_override_requests g)
  assume "apply_request r who now t db = Inr d"
  then show ?thesis
    by (auto simp: apply_request_def Let_def and_then_Inr map_sum_Inr same_requests_def split: option.splits if_splits
      dest!: set_override_requests unlock_effort_requests g m)
qed

definition vote_same :: "pledge \<Rightarrow> pledge \<Rightarrow> bool" where
  "vote_same p q \<longleftrightarrow> vote_key q = vote_key p \<and> pl_tokens q = pl_tokens p \<and> pl_ends q = pl_ends p"

definition pending_ids :: "request_db \<Rightarrow> int set" where
  "pending_ids db = {x. \<exists>r \<in> set (quota_requests db). qr_id r = x \<and> qr_status r = ''pending''}"

lemma wf_votes_alt: "wf_votes db \<longleftrightarrow> distinct (map vote_key (pledges db)) \<and>
    (\<forall>p \<in> set (pledges db). 0 \<le> pl_tokens p \<and> pl_request p < next_request db \<and> (pl_request p \<in> pending_ids db \<longrightarrow> pl_ends p = None))"
  unfolding wf_votes_def pending_ids_def by blast

lemma touches_pending: "touches rid db d \<Longrightarrow> pending_ids d \<subseteq> pending_ids db \<and> next_request d = next_request db"
proof -
  assume t: "touches rid db d"
  then obtain f where f: "quota_requests d = tbl_update (\<lambda>r. qr_id r = rid) f (quota_requests db)" "\<forall>r. row_kept r (f r)"
    unfolding touches_def by blast
  have "qr_id r \<in> pending_ids db" if "r \<in> set (quota_requests d)" "qr_status r = ''pending''" for r
    using that(1)[unfolded f(1)]
  proof (rule tbl_update_memE)
    fix s assume "s \<in> set (quota_requests db)" "r = f s"
    with f(2) that(2) show ?thesis by (auto simp: pending_ids_def row_kept_def)
  qed (use that(2) in \<open>auto simp: pending_ids_def\<close>)
  with t show ?thesis by (auto simp: pending_ids_def touches_def)
qed

lemma votes_kept:
  assumes wf: "wf_votes db" and p: "pledges d = map f (filter q (pledges db))" and n: "next_request db \<le> next_request d"
    and f: "\<And>x. x \<in> set (pledges db) \<Longrightarrow> vote_key (f x) = vote_key x \<and> pl_tokens (f x) = pl_tokens x \<and>
      (pl_request x \<in> pending_ids d \<longrightarrow> pl_request x \<in> pending_ids db \<and> pl_ends (f x) = pl_ends x)"
  shows "wf_votes d"
proof -
  have "map vote_key (pledges d) = map vote_key (filter q (pledges db))" using f by (auto simp: p)
  then have "distinct (map vote_key (pledges d))" using wf by (simp add: wf_votes_def distinct_map_filter)
  moreover have "0 \<le> pl_tokens y \<and> pl_request y < next_request d \<and> (pl_request y \<in> pending_ids d \<longrightarrow> pl_ends y = None)" if "y \<in> set (pledges d)" for y
  proof -
    from that p obtain x where x: "x \<in> set (pledges db)" "y = f x" by auto
    with f [OF x(1)] have "pl_request y = pl_request x" by (simp add: vote_key_def)
    with f [OF x(1)] x wf n show ?thesis by (auto simp: wf_votes_alt)
  qed
  ultimately show ?thesis by (simp add: wf_votes_alt)
qed

lemma votes_released: "wf_votes db \<Longrightarrow> pledges d = pledges db \<or> pledges d = pledges (release_pledges rid t1 t2 db) \<Longrightarrow> touches n db d \<Longrightarrow> wf_votes d"
proof -
  assume wf: "wf_votes db" and p: "pledges d = pledges db \<or> pledges d = pledges (release_pledges rid t1 t2 db)" and t: "touches n db d"
  note tp = touches_pending [OF t]
  let ?f = "\<lambda>p. if pl_request p = rid \<and> pl_released p = None \<and> pl_starts p = None then p\<lparr>pl_released := Some t1, pl_updated := t2\<rparr> else p"
  from p show ?thesis
  proof
    assume "pledges d = pledges db"
    then show ?thesis using tp by (intro votes_kept [OF wf, of d id "\<lambda>_. True"]) auto
  next
    assume "pledges d = pledges (release_pledges rid t1 t2 db)"
    then have "pledges d = map ?f (filter (\<lambda>_. True) (pledges db))" by (simp add: release_pledges_def tbl_update_def)
    then show ?thesis by (rule votes_kept [OF wf]) (use tp in \<open>auto simp: vote_key_def\<close>)
  qed
qed

lemma votes_settled: "wf_votes db \<Longrightarrow> settle_request r options t0 now t1 t2 db = Inr (st, d) \<Longrightarrow> wf_votes d"
proof (erule settle_cases)
  fix c assume wf: "wf_votes db" and ca: "community_apply r options now t1 t2 db = Inr d"
  from ca obtain x timed d1 where g: "community_grant r now (now + 3600 * request_hours r options) t1 db = Inr ((x, timed), d1)"
    and d: "d = enforce_pledges (qr_id r) now (if timed then Some (now + 3600 * request_hours r options) else None) t2
      (update_request (\<lambda>y. qr_id y = qr_id r) (approved_row x (if timed then Some (now + 3600 * request_hours r options) else None) t2) d1)"
    by (rule community_apply_Inr)
  let ?e = "now + 3600 * request_hours r options"
  have same: "pledges d1 = pledges db" "quota_requests d1 = quota_requests db" using community_grant_same [OF g] by (simp_all add: same_requests_def)
  have "qr_id r \<notin> pending_ids d"
    by (auto simp: d pending_ids_def update_request_def set_tbl_update approved_row_def)
  note tp = touches_pending [OF community_apply_touches [OF ca]]
  define h :: "pledge \<Rightarrow> pledge" where "h p = (let q = (if timed \<and> pl_request p = qr_id r \<and> pl_supports p \<and> 0 < pl_tokens p \<and> pl_released p = None
      then p\<lparr>pl_starts := Some now, pl_ends := Some ?e, pl_updated := t2\<rparr> else p)
    in if pl_request q = qr_id r \<and> pl_starts q = None \<and> pl_released q = None then q\<lparr>pl_released := Some t2\<rparr> else q)" for p
  have "pledges d = map h (filter (\<lambda>_. True) (pledges db))" using same(1)
    by (cases timed) (simp_all add: d enforce_pledges_def update_request_def Let_def tbl_update_def h_def [abs_def] o_def)
  then show "wf_votes d"
    by (rule votes_kept [OF wf]) (use tp \<open>qr_id r \<notin> pending_ids d\<close> in \<open>auto simp: h_def Let_def vote_key_def\<close>)
qed simp

lemma votes_put:
  assumes wf: "wf_votes db" and v: "0 \<le> pl_tokens v" "pl_request v < next_request db" "pl_ends v = None"
  shows "wf_votes (put_vote v db)"
proof (cases "list_ex (\<lambda>p. pl_request p = pl_request v \<and> pl_user p = pl_user v) (pledges db)")
  case True
  let ?same = "\<lambda>p. pl_request p = pl_request v \<and> pl_user p = pl_user v"
  let ?f = "\<lambda>p. if ?same p then p\<lparr>pl_supports := pl_supports v, pl_tokens := pl_tokens v, pl_pool := pl_pool v,
          pl_model := pl_model v, pl_scope := pl_scope v, pl_updated := pl_updated v, pl_released := None\<rparr> else p"
  have p: "pledges (put_vote v db) = map ?f (pledges db)" using True by (simp add: put_vote_def Let_def tbl_update_def)
  have "map vote_key (pledges (put_vote v db)) = map vote_key (pledges db)" by (simp add: p vote_key_def)
  moreover have "pending_ids (put_vote v db) = pending_ids db" by (simp add: pending_ids_def)
  moreover have "0 \<le> pl_tokens y \<and> pl_request y < next_request db \<and> (pl_request y \<in> pending_ids db \<longrightarrow> pl_ends y = None)"
    if "y \<in> set (pledges (put_vote v db))" for y
    using that wf v by (auto simp: wf_votes_alt p)
  ultimately show ?thesis using wf by (simp add: wf_votes_alt)
next
  case False
  then have p: "pledges (put_vote v db) = pledges db @ [v\<lparr>pl_id := next_pledge db\<rparr>]" by (simp add: put_vote_def Let_def)
  moreover have "pending_ids (put_vote v db) = pending_ids db" by (simp add: pending_ids_def)
  moreover have "vote_key v \<notin> vote_key ` set (pledges db)" using False by (auto simp: vote_key_def list_ex_iff)
  ultimately show ?thesis using wf v by (auto simp: wf_votes_alt vote_key_def)
qed

lemma votes_submitted: "wf_requests db \<Longrightarrow> wf_votes db \<Longrightarrow> submit_request q s t1 t2 t3 t4 t5 db = Inr (x, d) \<Longrightarrow> wf_votes d"
proof (erule submit_Inr)
  fix v automatic base
  let ?q = "q\<lparr>nr_kind := asked_kind q\<rparr>"
  let ?row = "request_row ?q v automatic s (next_request db) t1 t2 t3"
  let ?d1 = "db\<lparr>quota_requests := quota_requests db @ [?row], next_request := next_request db + 1\<rparr>"
  assume wf: "wf_votes db" and st: "store_request ?q v automatic s t1 t2 t3 t4 t5 db = Inr (x, d)"
  have ap: "(if automatic then apply_request ?row (nr_user ?q) t4 t5 ?d1 else Inr ?d1) = Inr d"
    using st by (auto simp: store_request_def Let_def map_sum_Inr split: if_split_asm)
  have t: "touches (next_request db) ?d1 d"
  proof (cases automatic)
    case True
    with ap apply_touches [of ?row "nr_user ?q" t4 t5 ?d1 d] show ?thesis by simp
  qed (use ap touches_same in simp)
  have p: "pledges d = map id (filter (\<lambda>_. True) (pledges db))"
    using ap apply_pledges [of ?row "nr_user ?q" t4 t5 ?d1 d] by (cases automatic) auto
  have new: "pending_ids ?d1 \<subseteq> insert (next_request db) (pending_ids db)" by (auto simp: pending_ids_def)
  have old: "pl_request y \<noteq> next_request db" if "y \<in> set (pledges db)" for y
    using wf that by (auto simp: wf_votes_def)
  show "wf_votes d" using p
  proof (rule votes_kept [OF wf])
    show "next_request db \<le> next_request d" using touches_pending [OF t] by simp
    show "vote_key (id y) = vote_key y \<and> pl_tokens (id y) = pl_tokens y \<and>
        (pl_request y \<in> pending_ids d \<longrightarrow> pl_request y \<in> pending_ids db \<and> pl_ends (id y) = pl_ends y)" if "y \<in> set (pledges db)" for y
      using touches_pending [OF t] new old [OF that] by auto
  qed
qed

lemma votes_resolved: "wf_votes db \<Longrightarrow> resolve_quota rid admin ok msg t1 t2 t3 t4 t5 db = Inr d \<Longrightarrow> wf_votes d"
proof -
  assume wf: "wf_votes db" and d: "resolve_quota rid admin ok msg t1 t2 t3 t4 t5 db = Inr d"
  from d have "pledges d = pledges (release_pledges rid t4 t5 db)"
  proof (rule resolve_quota_Inr)
    fix r db1 assume "(if ok then apply_request r admin t1 t2 db else Inr db) = Inr db1"
      and e: "d = release_pledges rid t4 t5 (update_request (\<lambda>x. qr_id x = rid) (decided_row ok msg t3 admin) db1)"
    then have "pledges db1 = pledges db" using apply_pledges [of r admin t1 t2 db db1] by (cases ok) auto
    then show ?thesis by (simp add: e release_pledges_def update_request_def)
  qed
  then show ?thesis using votes_released [OF wf _ resolve_touches [OF d]] by blast
qed

lemma votes_voted:
  assumes wr: "wf_requests db" and wf: "wf_votes db" and v: "cast_vote u admin rid stance tokens s ck db = Inr (x, d)"
  shows "wf_votes d"
proof -
  obtain st c where "x = (st, c)" by fastforce
  with v have v1: "cast_vote u admin rid stance tokens s ck db = Inr ((st, c), d)" by simp
  from v1 show ?thesis
  proof (rule cast_vote_Inr)
    fix r room assume r: "request_get rid db = Some r" "qr_id r = rid" and n: "0 \<le> tokens"
      and settle: "settle_request r (community_settings s) (ck_open ck) (ck_apply ck) (ck_grant ck) (ck_stamp ck)
        (put_vote (vote_row rid u stance (vote_tokens stance r tokens) r ck) db) = Inr (st, d)"
    have "rid < next_request db" using r wr by (auto simp: wf_requests_def request_get_def dest: tbl_one_SomeD)
    then have "wf_votes (put_vote (vote_row rid u stance (vote_tokens stance r tokens) r ck) db)"
      using n by (intro votes_put [OF wf]) (simp_all add: vote_row_def vote_tokens_def)
    from votes_settled [OF this settle] show ?thesis .
  qed
qed

lemma votes_closed:
  assumes wf: "wf_votes db" and c: "close_one rid s now ck db = Inr (x, d)"
  shows "wf_votes d"
proof (cases "request_get rid db")
  case (Some r)
  let ?db1 = "update_request (\<lambda>x. qr_id x = rid) (\<lambda>x. x\<lparr>qr_closed := Some now\<rparr>) db"
  have "touches rid db ?db1" by (rule touches_update) (simp add: row_kept_def)
  then have t: "touches rid db (release_pledges rid (ck_created ck) (ck_updated ck) ?db1)" by simp
  have "pledges (release_pledges rid (ck_created ck) (ck_updated ck) ?db1) = pledges (release_pledges rid (ck_created ck) (ck_updated ck) db)"
    by (simp add: release_pledges_def update_request_def)
  from votes_released [OF wf disjI2 [OF this] t] have "wf_votes (release_pledges rid (ck_created ck) (ck_updated ck) ?db1)" .
  with c Some wf votes_settled [OF wf] show ?thesis
    by (auto simp: close_one_def map_sum_Inr split: if_split_asm)
qed (use c wf in \<open>simp add: close_one_def\<close>)

lemma stored_votes: "wf_votes db \<Longrightarrow> (\<And>x d. r = Inr (x, d) \<Longrightarrow> wf_votes d) \<Longrightarrow> wf_votes (snd (stored db r))"
proof (cases r)
  case (Inr y)
  moreover obtain x d where "y = (x, d)" by fastforce
  moreover assume "\<And>x d. r = Inr (x, d) \<Longrightarrow> wf_votes d"
  ultimately show ?thesis by (simp add: stored_def)
qed (simp add: stored_def)

lemma votes_step:
  assumes wr: "wf_requests db" and wf: "wf_votes db" shows "wf_votes (snd (quota_do a db))"
proof (cases a)
  case (Q_Submit q s t1 t2 t3 t4 t5)
  then show ?thesis using votes_submitted [OF wr wf] by (simp only: quota_do.simps) (rule stored_votes [OF wf])
next
  case (Q_Cancel rid u t1 t2 t3 t4)
  have "pledges (snd (cancel_request rid u t1 t2 t3 t4 db)) = pledges db \<or> pledges (snd (cancel_request rid u t1 t2 t3 t4 db)) = pledges (release_pledges rid t3 t4 db)"
    by (simp add: cancel_request_def Let_def release_pledges_def update_request_def)
  from votes_released [OF wf this cancel_touches] Q_Cancel show ?thesis by simp
next
  case (Q_Resolve rid admin ok msg t1 t2 t3 t4 t5)
  have "wf_votes d" if "map_sum id (\<lambda>d. ((), d)) (resolve_quota rid admin ok msg t1 t2 t3 t4 t5 db) = Inr (x, d)" for x d
    using that votes_resolved [OF wf] by (auto simp: map_sum_Inr)
  with Q_Resolve show ?thesis by (simp only: quota_do.simps) (rule stored_votes [OF wf])
next
  case (Q_Vote u admin rid stance tokens s ck)
  then show ?thesis using votes_voted [OF wr wf] by (simp only: quota_do.simps) (rule stored_votes [OF wf])
next
  case (Q_Withdraw u rid s now)
  have gone: "wf_votes (db\<lparr>pledges := tbl_delete p (pledges db)\<rparr>)" for p
    by (rule votes_kept [OF wf, of _ id "\<lambda>v. \<not> p v"]) (auto simp: tbl_delete_def pending_ids_def)
  with Q_Withdraw wf show ?thesis by (simp add: withdraw_vote_def Let_def split: option.split)
next
  case (Q_Close rid s now ck)
  then show ?thesis using votes_closed [OF wf] by (simp only: quota_do.simps) (rule stored_votes [OF wf])
qed

lemma votes_run: "wf_requests db \<Longrightarrow> wf_votes db \<Longrightarrow> wf_requests (snd (run_acts quota_do acts db)) \<and> wf_votes (snd (run_acts quota_do acts db))"
proof (induction acts arbitrary: db)
  case (Cons a acts)
  from Cons.IH [of "snd (quota_do a db)"] quota_step_keeps [OF Cons.prems(1), of a] votes_step [OF Cons.prems, of a]
  show ?case by (simp add: case_prod_beta)
qed simp

text \<open>C40: Nobody renounces more than their share. When a vote with tokens is accepted, its scope limits the
  voter, and all the tokens the voter has renounced or promised there, for every request and this one,
  together stay within the percentage of the voter's own limit that the site allows, also when the vote
  completed the consent; voting again replaces the earlier promise. This holds after any steps of all
  processes from a well-formed database.\<close>

theorem pledge_share:
  assumes db: "wf_requests db0" "wf_votes db0" "db = snd (run_acts quota_do acts db0)"
    and vote: "cast_vote u admin rid ''support'' tokens s ck db = Inr ((st, c), d)" and n: "0 < tokens"
    and r: "request_get rid db = Some r" "pledge_scope r = Some sc"
  shows "\<exists>base. base_for u r db = Inr base \<and> fst (scope_limit sc base) \<and>
    pledged_in u r sc (ck_held ck) d \<le> pledge_cap (snd (scope_limit sc base)) (community_settings s)"
proof -
  have wf: "wf_votes db" using votes_run [OF db(1,2)] db(3) by simp
  let ?o = "community_settings s" and ?v = "vote_row rid u ''support'' tokens r ck"
  have tk: "vote_tokens ''support'' r tokens = tokens" using r(2) by (simp add: vote_tokens_def)
  from vote obtain room where el: "eligible u admin r ?o (ck_now ck) (ck_suspended ck) db = None" and id: "qr_id r = rid" and "tokens \<le> room"
    and room: "pledge_room u admin r ?o (ck_held ck) db = Inr room"
    and settle: "settle_request r ?o (ck_open ck) (ck_apply ck) (ck_grant ck) (ck_stamp ck) (put_vote ?v db) = Inr (st, d)"
    using r(1) tk n by (elim cast_vote_Inr) auto
  from room n \<open>tokens \<le> room\<close> r(2) obtain base where base: "base_for u r db = Inr base" "fst (scope_limit sc base)"
    and cap: "tokens \<le> pledge_cap (snd (scope_limit sc base)) ?o - held_pledges u (fst (request_target r)) (snd (request_target r)) sc rid (ck_held ck) db"
    by (auto simp: pledge_room_def map_sum_Inr id split: if_split_asm)
  have pend: "r \<in> set (quota_requests db)" "qr_status r = ''pending''"
    using el r(1) by (auto simp: eligible_def voting_open_def request_get_def split: if_split_asm dest: tbl_one_SomeD)
  have ends: "\<forall>p \<in> set (pledges (put_vote ?v db)). 0 \<le> pl_tokens p \<and> (pl_request p = qr_id r \<longrightarrow> pl_ends p = None)"
    using wf pend id n by (auto simp: wf_votes_def put_vote_def Let_def set_tbl_update vote_row_def)
  have "pledged_in u r sc (ck_held ck) d \<le> pledged_in u r sc (ck_held ck) (put_vote ?v db)"
    unfolding pledged_in_def by (rule settle_sum [OF settle ends])
  also have "\<dots> \<le> held_pledges u (fst (request_target r)) (snd (request_target r)) sc rid (ck_held ck) db + tokens"
    using put_vote_sum [of db ?v u "fst (request_target r)" "snd (request_target r)" sc "ck_held ck"] wf n r(2)
    by (simp add: pledged_in_def wf_votes_def holds_pledge_def vote_row_def)
  finally show ?thesis using base cap by auto
qed

text \<open>An account that votes on the request of the example, with a clock within the voting.\<close>

definition ex_clock :: vote_clock where
  "ex_clock = \<lparr>ck_now = 10 ^ 6, ck_suspended = 10 ^ 6, ck_held = 1000000, ck_created = 1000000, ck_updated = 1000000, ck_open = 1000000,
     ck_apply = 1000000, ck_grant = 1000000, ck_stamp = 1000000\<rparr>"

definition ex_vote_row :: quota_request where
  "ex_vote_row = ex_row\<lparr>qr_community := True, qr_until := Some 2000000\<rparr>"

definition ex_vote_db :: request_db where
  "ex_vote_db = ex_request_db\<lparr>quota_requests := [ex_vote_row], next_request := 2\<rparr>"

lemma ex_vote_facts: "request_kind ex_vote_row = ''window''" "qr_model ex_vote_row = None" "pledge_scope ex_vote_row = Some ''window''"
  "request_target ex_vote_row = (Some ''api'', None)" "qr_user ex_vote_row = ''u''" "qr_id ex_vote_row = 1" "qr_new_tokens ex_vote_row = Some 70000"
  "\<not> asks_unlimited ex_vote_row" "qr_status ex_vote_row = ''pending''"
  by (simp_all add: ex_vote_row_def ex_row_def request_row_def no_values_def ex_ask_def request_kind_def pledge_scope_def request_target_def
      asks_unlimited_def Let_def)

lemma ex_vote_wf: "wf_requests ex_vote_db" "wf_votes ex_vote_db"
  by (simp_all add: wf_requests_def wf_votes_def ex_vote_db_def ex_request_db_def ex_vote_facts)

lemma ex_vote_base: "overrides d = [] \<Longrightarrow> pool_docs d = [] \<Longrightarrow> user_limits d = [] \<Longrightarrow> tiers d = [] \<Longrightarrow> base_for w ex_vote_row d =
    Inr \<lparr>ba_window = 45000, ba_weekly = 150000, ba_rules = [\<lparr>requests = 1, per = ''second'', burst = 10\<rparr>], ba_window_on = True, ba_weekly_on = False, ba_rate_on = True\<rparr>"
proof -
  assume "overrides d = []" "pool_docs d = []" "user_limits d = []" "tiers d = []"
  then have "base_limits_of w ''api'' d = base_limits_of w ''api'' ex_request_db"
    by (intro base_same) (simp_all add: ex_request_db_def)
  then show ?thesis by (simp add: base_for_def ex_vote_facts ex_base)
qed

lemma ex_options: "community_settings ex_quota_site = \<lparr>co_enabled = True, co_kinds = DEFAULT_KINDS, co_supporters = 3, co_approval = 66, co_coverage = 100,
    co_hours = 72, co_boost_hours = 168, co_account_days = 7, co_pledge_percent = 50\<rparr>"
  by (simp add: community_settings_def ex_quota_site_def community_number_def)

lemma ex_open: "voting_open ex_vote_row (community_settings ex_quota_site) 1000000"
  by (simp add: voting_open_def ex_options ex_vote_facts DEFAULT_KINDS_def)
    (simp add: ex_vote_row_def ex_row_def request_row_def no_values_def Let_def)

lemma ex_increase: "overrides d = [] \<Longrightarrow> pool_docs d = [] \<Longrightarrow> user_limits d = [] \<Longrightarrow> tiers d = [] \<Longrightarrow> request_increase ex_vote_row d = Inr 25000"
  by (simp add: request_increase_def ex_vote_facts ex_vote_base zero_if_none_def int_of_def Let_def)

definition ex_voted :: request_db where
  "ex_voted = put_vote (vote_row 1 ''v'' ''support'' 20000 ex_vote_row ex_clock) ex_vote_db"

lemma ex_cast: "\<exists>c. cast_vote ''v'' False 1 ''support'' 20000 ex_quota_site ex_clock ex_vote_db = Inr ((''pending'', c), ex_voted)"
proof -
  have get: "request_get 1 ex_vote_db = Some ex_vote_row" by (simp add: request_get_def ex_vote_db_def ex_vote_facts tbl_simps)
  have user: "site_user ''v'' ex_vote_db = Some (ex_tier_account\<lparr>acc_id := ''v''\<rparr>)"
    by (simp add: site_user_def ex_vote_db_def ex_request_db_def tbl_simps ex_tier_account_def)
  have el: "eligible ''v'' False ex_vote_row (community_settings ex_quota_site) (ck_now ex_clock) (ck_suspended ex_clock) ex_vote_db = None"
    using ex_open by (simp add: eligible_def user ex_vote_facts ex_clock_def ex_options ex_tier_account_def)
  have base: "base_for ''v'' ex_vote_row ex_vote_db = Inr \<lparr>ba_window = 45000, ba_weekly = 150000,
      ba_rules = [\<lparr>requests = 1, per = ''second'', burst = 10\<rparr>], ba_window_on = True, ba_weekly_on = False, ba_rate_on = True\<rparr>"
    by (rule ex_vote_base) (simp_all add: ex_vote_db_def ex_request_db_def)
  have "held_pledges w po m sc k t ex_vote_db = 0" for w po m sc k t
    by (simp add: held_pledges_def ex_vote_db_def ex_request_db_def)
  then have room: "pledge_room ''v'' False ex_vote_row (community_settings ex_quota_site) (ck_held ex_clock) ex_vote_db = Inr 22500"
    by (simp add: pledge_room_def ex_vote_facts base scope_limit_def pledge_cap_def ex_options)
  have get1: "request_get 1 ex_voted = Some ex_vote_row" using get by (simp add: request_get_def ex_voted_def)
  have votes: "pledges ex_voted = [(vote_row 1 ''v'' ''support'' 20000 ex_vote_row ex_clock)\<lparr>pl_id := 1\<rparr>]"
    by (simp add: ex_voted_def put_vote_def ex_vote_db_def ex_request_db_def)
  have inc: "request_increase ex_vote_row ex_voted = Inr 25000"
    by (rule ex_increase) (simp_all add: ex_voted_def put_vote_def ex_vote_db_def ex_request_db_def)
  obtain c where c: "consent_of ex_vote_row (community_settings ex_quota_site) ex_voted = Inr c" "\<not> consent_reached c"
    by (simp add: consent_of_def ex_vote_facts inc votes votes_on_def vote_row_def consent_reached_def ex_options)
  have "settle_request ex_vote_row (community_settings ex_quota_site) 1000000 1000000 1000000 1000000 ex_voted = Inr (''pending'', ex_voted)"
    using c ex_open by (simp add: settle_request_def ex_vote_facts and_then_def lift_limit_def)
  then have "place_vote ''v'' ''support'' 20000 ex_vote_row (community_settings ex_quota_site) ex_clock ex_vote_db = Inr ((''pending'', c), ex_voted)"
    using c get1 by (simp add: place_vote_def ex_vote_facts ex_voted_def [symmetric] ex_clock_def [THEN arg_cong, of ck_open]) (simp add: ex_clock_def and_then_def)
  with get el room show ?thesis
    by (auto simp: cast_vote_def vote_tokens_def ex_vote_facts and_then_def lift_limit_def known_def ex_vote_db_def ex_request_db_def)
qed

theorem pledge_share_witness:
  "pledged_in ''v'' ex_vote_row ''window'' 1000000 ex_voted \<le> 22500"
proof -
  obtain c where v: "cast_vote ''v'' False 1 ''support'' 20000 ex_quota_site ex_clock ex_vote_db = Inr ((''pending'', c), ex_voted)" using ex_cast ..
  have get: "request_get 1 ex_vote_db = Some ex_vote_row" by (simp add: request_get_def ex_vote_db_def ex_vote_facts tbl_simps)
  have base: "base_for ''v'' ex_vote_row ex_vote_db = Inr \<lparr>ba_window = 45000, ba_weekly = 150000,
      ba_rules = [\<lparr>requests = 1, per = ''second'', burst = 10\<rparr>], ba_window_on = True, ba_weekly_on = False, ba_rate_on = True\<rparr>"
    by (rule ex_vote_base) (simp_all add: ex_vote_db_def ex_request_db_def)
  from pledge_share [OF ex_vote_wf(1,2) _ v _ get, of "[]" "''window''"] base show ?thesis
    by (simp add: ex_vote_facts scope_limit_def pledge_cap_def ex_options ex_clock_def)
qed

text \<open>With one supporter enough, a pledge of 30000 tokens pays for the increase of 25000.\<close>

definition ex_lenient :: community_options where
  "ex_lenient = (community_settings ex_quota_site)\<lparr>co_supporters := 1\<rparr>"

definition ex_paid_db :: request_db where
  "ex_paid_db = put_vote (vote_row 1 ''v'' ''support'' 30000 ex_vote_row ex_clock) ex_vote_db"

lemma ex_paid_facts: "pledges ex_paid_db = [(vote_row 1 ''v'' ''support'' 30000 ex_vote_row ex_clock)\<lparr>pl_id := 1\<rparr>]"
  "overrides ex_paid_db = []" "pool_docs ex_paid_db = []" "user_limits ex_paid_db = []" "tiers ex_paid_db = []" "accounts ex_paid_db = [''u'', ''v'', ''boss'']"
  by (simp_all add: ex_paid_db_def put_vote_def ex_vote_db_def ex_request_db_def)

lemma ex_paid_base: "base_for w ex_vote_row ex_paid_db = Inr \<lparr>ba_window = 45000, ba_weekly = 150000,
    ba_rules = [\<lparr>requests = 1, per = ''second'', burst = 10\<rparr>], ba_window_on = True, ba_weekly_on = False, ba_rate_on = True\<rparr>"
  by (rule ex_vote_base) (simp_all add: ex_paid_facts)

lemma ex_paid_increase: "request_increase ex_vote_row ex_paid_db = Inr 25000"
  by (rule ex_increase) (simp_all add: ex_paid_facts)

lemma ex_paid_open: "voting_open ex_vote_row ex_lenient 1000000"
  using ex_open by (simp add: voting_open_def ex_lenient_def)

lemma extra_amount: "1 \<le> n \<Longrightarrow> of_int n \<le> TOKENS_MAX \<Longrightarrow> whole_number (J_Num (of_int n)) what 1 TOKENS_MAX = Inr n"
  using FLOAT_END_big by (auto simp: whole_number_def number_def TOKENS_MAX_def)

lemma ex_paid_grant: "\<exists>d. community_grant ex_vote_row 1000000 1604800 1000000 ex_paid_db = Inr ((Some 1, True), d)"
proof -
  have "whole_number (J_Num (of_int 25000)) w 1 TOKENS_MAX = Inr 25000" for w by (rule extra_amount) (simp_all add: TOKENS_MAX_def)
  then have whole: "whole_number (J_Num 25000) w 1 TOKENS_MAX = Inr 25000" for w by simp
  have "qr_reason ex_vote_row = ''course''"
  proof -
    have "strip ''course'' = ''course''" by code_simp
    then show ?thesis by (simp add: ex_vote_row_def ex_row_def request_row_def ex_ask_def no_values_def Let_def)
  qed
  then have "\<exists>x. request_reason ''Community approval of request #'' ex_vote_row = Some x \<and> length (strip x) \<le> REASON_MAX"
    unfolding request_reason_def ex_vote_facts by (simp only: option.inject ex_simps simp_thms) code_simp
  then obtain x where x: "request_reason ''Community approval of request #'' ex_vote_row = Some x" "length (strip x) \<le> REASON_MAX" by blast
  have "next_grant ex_paid_db = 1" by (simp add: ex_paid_db_def put_vote_def ex_vote_db_def ex_request_db_def)
  with x have "\<exists>d. grant_common ex_vote_row (Some ''window'') ''extra'' (J_Num 25000) 1000000 1604800 1000000 ex_paid_db = Inr (Some 1, d)"
    by (simp add: grant_common_def create_grant_def validate_grant_def ex_vote_facts known_def ex_paid_facts POOLS_def SCOPES_def GRANT_KINDS_def whole Let_def)
  then show ?thesis
    by (auto simp: community_grant_def ex_vote_facts ex_paid_base ex_paid_increase scope_limit_def and_then_def lift_limit_def Let_def)
qed

lemma ex_paid_settle: "\<exists>d. settle_request ex_vote_row ex_lenient 1000000 1000000 1000000 1000000 ex_paid_db = Inr (''approved'', d)"
proof -
  have "\<exists>c. consent_of ex_vote_row ex_lenient ex_paid_db = Inr c \<and> consent_reached c"
    by (simp add: consent_of_def ex_vote_facts ex_paid_increase ex_paid_facts votes_on_def vote_row_def consent_reached_def ex_lenient_def ex_options)
  then obtain c where c: "consent_of ex_vote_row ex_lenient ex_paid_db = Inr c" "consent_reached c" by blast
  have "request_hours ex_vote_row ex_lenient = 168" by (simp add: request_hours_def ex_vote_facts ex_lenient_def ex_options)
  then have "\<exists>d. community_apply ex_vote_row ex_lenient 1000000 1000000 1000000 ex_paid_db = Inr d"
    using ex_paid_grant by (auto simp: community_apply_def)
  with c show ?thesis
    by (auto simp: settle_request_def ex_vote_facts ex_paid_open and_then_def lift_limit_def)
qed


end
