(* ===== verification/Worker_Jobs.thy ===== *)
theory Worker_Jobs
  imports Chats One_Shot
begin

section \<open>Jobs of the worker computers\<close>

text \<open>
  bananachat/db/workers.py (the tables) and the decisions of bananachat/services/remote.py: text
  generation on volunteers' computers. A job waits, is claimed by a worker, comes back in numbered
  pieces and ends; failing workers are paused. The relay of a job to its reader is in \<open>Worker_Relay\<close>.
  Text from the network is a list of code points (\<open>utext\<close>); \<open>unicode\<close> has the tables of Python's
  \<open>str\<close> methods and of \<open>re\<close>, which are the interpreter's data.
\<close>

definition ascii :: "string \<Rightarrow> utext" where
  "ascii s = map of_char s"

record unicode =
  u_word :: "nat \<Rightarrow> bool"
  u_decimal :: "nat \<Rightarrow> bool"
  u_printable :: "nat \<Rightarrow> bool"
  u_lower :: "nat \<Rightarrow> nat list"

text \<open>A JSON value of a request's body, or of a stored document.\<close>

datatype wire = W_Null | W_Bool bool | W_Int int | W_Float rat | W_Inf | W_Text utext | W_List "wire list" | W_Object "(string \<times> wire) list"

fun wire_true :: "wire \<Rightarrow> bool" where
  "wire_true W_Null = False"
| "wire_true (W_Bool b) = b"
| "wire_true (W_Int n) = (n \<noteq> 0)"
| "wire_true (W_Float q) = (q \<noteq> 0)"
| "wire_true W_Inf = True"
| "wire_true (W_Text s) = (s \<noteq> [])"
| "wire_true (W_List xs) = (xs \<noteq> [])"
| "wire_true (W_Object kvs) = (kvs \<noteq> [])"

definition field_or :: "wire \<Rightarrow> string \<Rightarrow> (string \<times> wire) list \<Rightarrow> wire" where
  "field_or dflt k kvs = (case map_of kvs k of None \<Rightarrow> dflt | Some v \<Rightarrow> v)"

abbreviation get_field :: "string \<Rightarrow> (string \<times> wire) list \<Rightarrow> wire" where
  "get_field \<equiv> field_or W_Null"

text \<open>The code points that \<open>str.strip\<close> and \<open>str.split\<close> take as white space.\<close>

definition u_space :: "nat \<Rightarrow> bool" where
  "u_space c \<longleftrightarrow> (9 \<le> c \<and> c \<le> 13) \<or> (28 \<le> c \<and> c \<le> 32) \<or> c \<in> {0x85, 0xa0, 0x1680, 0x2028, 0x2029, 0x202f, 0x205f, 0x3000} \<or>
     (0x2000 \<le> c \<and> c \<le> 0x200a)"

definition u_strip :: "utext \<Rightarrow> utext" where
  "u_strip s = rev (dropWhile u_space (rev (dropWhile u_space s)))"

fun u_words :: "utext \<Rightarrow> utext \<Rightarrow> utext list" where
  "u_words word [] = (if word = [] then [] else [word])"
| "u_words word (c # cs) =
     (if u_space c then (if word = [] then u_words [] cs else word # u_words [] cs) else u_words (word @ [c]) cs)"

text \<open>\<open>' '.join(s.split())\<close>\<close>

definition one_line :: "utext \<Rightarrow> utext" where
  "one_line s = concat (case u_words [] s of [] \<Rightarrow> [] | w # ws \<Rightarrow> w # map (\<lambda>x. 32 # x) ws)"

definition occurs_in :: "utext \<Rightarrow> utext \<Rightarrow> bool" where
  "occurs_in a s \<longleftrightarrow> list_ex (\<lambda>n. take (length a) (drop n s) = a) [0..<Suc (length s)]"

subsection \<open>The tables\<close>

record worker_node =
  wn_id :: string
  wn_name :: utext
  wn_token :: string
  wn_platform :: "utext option"
  wn_gpu :: "utext option"
  wn_util :: "rat option"
  wn_ollama :: "utext option"
  wn_caps :: "wire option"
  wn_activity :: "string option"
  wn_status :: string
  wn_beat :: "epoch option"
  wn_registered :: stamp
  wn_strikes :: nat
  wn_cooldown :: "epoch option"
  wn_system :: "wire option"

text \<open>
  The prompt of a job: its stored text, and what \<open>json.loads\<close> finds in it, the text and the number of
  images of each message that is an object.
\<close>

record prompt_doc =
  pd_text :: utext
  pd_messages :: "(utext \<times> nat) list"

definition no_prompt :: prompt_doc where
  "no_prompt = \<lparr>pd_text = ascii ''[]'', pd_messages = []\<rparr>"

record worker_job =
  wj_id :: string
  wj_worker :: "string option"
  wj_model :: utext
  wj_messages :: prompt_doc
  wj_options :: "utext option"
  wj_status :: string
  wj_priority :: int
  wj_stop :: bool
  wj_created :: epoch
  wj_claimed :: "epoch option"
  wj_done :: "epoch option"
  wj_beat :: "epoch option"
  wj_in :: int
  wj_out :: int
  wj_error :: "utext option"
  wj_bytes :: int
  wj_next :: int
  wj_finish :: string
  wj_requeues :: int
  wj_deferred :: "string option"
  wj_account :: "string option"
  wj_fault :: "string option"
  wj_think :: "wire option"

record worker_chunk =
  wc_job :: string
  wc_seq :: int
  wc_text :: utext
  wc_done :: bool
  wc_created :: epoch
  wc_thinking :: utext

record relay_db =
  nodes :: "worker_node list"
  wjobs :: "worker_job list"
  wchunks :: "worker_chunk list"

datatype worker_error = Invalid_Request string | Job_Not_Found | Worker_Disabled | Worker_Integrity | Encode_Error

definition ACTIVE_JOBS :: "string list" where "ACTIVE_JOBS = [''claimed'', ''streaming'']"
definition LIVE_JOBS :: "string list" where "LIVE_JOBS = [''pending'', ''claimed'', ''streaming'']"
definition TERMINAL_JOBS :: "string list" where "TERMINAL_JOBS = [''done'', ''failed'', ''timeout'']"

abbreviation job_active :: "worker_job \<Rightarrow> bool" where "job_active j \<equiv> wj_status j \<in> set ACTIVE_JOBS"
abbreviation job_live :: "worker_job \<Rightarrow> bool" where "job_live j \<equiv> wj_status j \<in> set LIVE_JOBS"
abbreviation job_over :: "worker_job \<Rightarrow> bool" where "job_over j \<equiv> wj_status j \<in> set TERMINAL_JOBS"

subsection \<open>Workers\<close>

definition update_node :: "string \<Rightarrow> (worker_node \<Rightarrow> worker_node) \<Rightarrow> relay_db \<Rightarrow> relay_db" where
  "update_node w f db = db\<lparr>nodes := tbl_update (\<lambda>n. wn_id n = w) f (nodes db)\<rparr>"

definition insert_worker :: "string \<Rightarrow> utext \<Rightarrow> string \<Rightarrow> stamp \<Rightarrow> relay_db \<Rightarrow> worker_error + relay_db" where
  "insert_worker w name token t db =
     (if list_ex (\<lambda>n. wn_id n = w \<or> wn_token n = token) (nodes db) then Inl Worker_Integrity
      else Inr (db\<lparr>nodes := nodes db @ [\<lparr>wn_id = w, wn_name = name, wn_token = token, wn_platform = None, wn_gpu = None, wn_util = None,
        wn_ollama = None, wn_caps = None, wn_activity = None, wn_status = ''offline'', wn_beat = None, wn_registered = t, wn_strikes = 0,
        wn_cooldown = None, wn_system = None\<rparr>]\<rparr>))"

definition node_get :: "string \<Rightarrow> relay_db \<Rightarrow> worker_node option" where
  "node_get w db = tbl_one (\<lambda>n. wn_id n = w) (nodes db)"

definition by_token_hash :: "string \<Rightarrow> relay_db \<Rightarrow> worker_node option" where
  "by_token_hash h db = tbl_one (\<lambda>n. wn_token n = h) (nodes db)"

definition list_workers :: "relay_db \<Rightarrow> worker_node list" where
  "list_workers db = sort_key (\<lambda>n. (- wn_registered n, wn_name n)) (nodes db)"

definition online_since :: "epoch \<Rightarrow> relay_db \<Rightarrow> worker_node list" where
  "online_since since db = filter (\<lambda>n. wn_status n = ''online'' \<and> (case wn_beat n of None \<Rightarrow> False | Some b \<Rightarrow> since \<le> b)) (nodes db)"

definition set_node_status :: "string \<Rightarrow> string \<Rightarrow> relay_db \<Rightarrow> relay_db" where
  "set_node_status w st = update_node w (\<lambda>n. n\<lparr>wn_status := st\<rparr>)"

text \<open>The jobs of a worker that is removed keep their rows (ON DELETE SET NULL).\<close>

definition delete_node :: "string \<Rightarrow> relay_db \<Rightarrow> relay_db" where
  "delete_node w db = db\<lparr>nodes := tbl_delete (\<lambda>n. wn_id n = w) (nodes db),
     wjobs := tbl_update (\<lambda>j. wj_worker j = Some w) (\<lambda>j. j\<lparr>wj_worker := None\<rparr>) (wjobs db)\<rparr>"

definition coalesce :: "'x option \<Rightarrow> 'x option \<Rightarrow> 'x option" where
  "coalesce a b = (if a = None then b else a)"

definition record_heartbeat ::
  "string \<Rightarrow> epoch \<Rightarrow> string \<Rightarrow> utext option \<Rightarrow> rat option \<Rightarrow> utext option \<Rightarrow> wire option \<Rightarrow> string option \<Rightarrow> utext option \<Rightarrow> relay_db \<Rightarrow> relay_db" where
  "record_heartbeat w now st gpu util ollama caps activity platform db =
     db\<lparr>nodes := tbl_update (\<lambda>n. wn_id n = w \<and> wn_status n \<noteq> ''disabled'')
       (\<lambda>n. n\<lparr>wn_status := st, wn_beat := Some now, wn_gpu := coalesce gpu (wn_gpu n), wn_util := util,
          wn_ollama := coalesce ollama (wn_ollama n), wn_caps := coalesce caps (wn_caps n), wn_activity := coalesce activity (wn_activity n),
          wn_platform := coalesce platform (wn_platform n)\<rparr>) (nodes db)\<rparr>"

definition touch_node :: "string \<Rightarrow> epoch \<Rightarrow> relay_db \<Rightarrow> relay_db" where
  "touch_node w now db = db\<lparr>nodes := tbl_update (\<lambda>n. wn_id n = w \<and> wn_status n \<noteq> ''disabled'')
     (\<lambda>n. n\<lparr>wn_status := ''online'', wn_beat := Some now\<rparr>) (nodes db)\<rparr>"

definition pause_node :: "string \<Rightarrow> nat \<Rightarrow> epoch \<Rightarrow> relay_db \<Rightarrow> relay_db" where
  "pause_node w strikes until = update_node w (\<lambda>n. n\<lparr>wn_strikes := strikes, wn_cooldown := Some until\<rparr>)"

definition clear_pause :: "string \<Rightarrow> relay_db \<Rightarrow> relay_db" where
  "clear_pause w db = db\<lparr>nodes := tbl_update (\<lambda>n. wn_id n = w \<and> (wn_strikes n \<noteq> 0 \<or> wn_cooldown n \<noteq> None))
     (\<lambda>n. n\<lparr>wn_strikes := 0, wn_cooldown := None\<rparr>) (nodes db)\<rparr>"

definition set_system :: "string \<Rightarrow> wire option \<Rightarrow> relay_db \<Rightarrow> relay_db" where
  "set_system w system = update_node w (\<lambda>n. n\<lparr>wn_system := coalesce system (wn_system n)\<rparr>)"

definition busy_workers :: "relay_db \<Rightarrow> string list" where
  "busy_workers db = remdups (List.map_filter (\<lambda>j. if job_active j then wj_worker j else None) (wjobs db))"

subsection \<open>Jobs\<close>

definition update_jobs :: "(worker_job \<Rightarrow> bool) \<Rightarrow> (worker_job \<Rightarrow> worker_job) \<Rightarrow> relay_db \<Rightarrow> relay_db" where
  "update_jobs p f db = db\<lparr>wjobs := tbl_update p f (wjobs db)\<rparr>"

definition fresh_job :: "string \<Rightarrow> utext \<Rightarrow> prompt_doc \<Rightarrow> utext option \<Rightarrow> int \<Rightarrow> epoch \<Rightarrow> string option \<Rightarrow> wire option \<Rightarrow> worker_job" where
  "fresh_job i model prompt options priority now account think =
     \<lparr>wj_id = i, wj_worker = None, wj_model = model, wj_messages = prompt, wj_options = options,
      wj_status = ''pending'', wj_priority = priority, wj_stop = False, wj_created = now, wj_claimed = None, wj_done = None,
      wj_beat = Some now, wj_in = 0, wj_out = 0, wj_error = None, wj_bytes = 0, wj_next = 0, wj_finish = ''stop'', wj_requeues = 0,
      wj_deferred = None, wj_account = account, wj_fault = None, wj_think = think\<rparr>"

definition insert_job ::
  "string \<Rightarrow> utext \<Rightarrow> prompt_doc \<Rightarrow> utext option \<Rightarrow> int \<Rightarrow> epoch \<Rightarrow> string option \<Rightarrow> wire option \<Rightarrow> relay_db \<Rightarrow> worker_error + relay_db" where
  "insert_job i model prompt options priority now account think db =
     (if list_ex (\<lambda>j. wj_id j = i) (wjobs db) then Inl Worker_Integrity
      else Inr (db\<lparr>wjobs := wjobs db @ [fresh_job i model prompt options priority now account think]\<rparr>))"

definition set_fault :: "string \<Rightarrow> string \<Rightarrow> relay_db \<Rightarrow> relay_db" where
  "set_fault i fault = update_jobs (\<lambda>j. wj_id j = i) (\<lambda>j. j\<lparr>wj_fault := Some fault\<rparr>)"

definition ended_since :: "epoch \<Rightarrow> worker_job \<Rightarrow> bool" where
  "ended_since since j \<longleftrightarrow> (case wj_done j of None \<Rightarrow> False | Some t \<Rightarrow> since \<le> t)"

definition account_fault_since :: "string \<Rightarrow> epoch \<Rightarrow> string option \<Rightarrow> string option \<Rightarrow> relay_db \<Rightarrow> bool" where
  "account_fault_since u since fault exclude db =
     list_ex (\<lambda>j. wj_account j = Some u \<and> ended_since since j \<and> wj_fault j \<noteq> None \<and> (fault \<noteq> None \<longrightarrow> wj_fault j = fault) \<and>
       (case exclude of None \<Rightarrow> True | Some i \<Rightarrow> wj_id j \<noteq> i)) (wjobs db)"

definition workers_that_failed :: "string \<Rightarrow> epoch \<Rightarrow> relay_db \<Rightarrow> string list" where
  "workers_that_failed u since db =
     remdups (List.map_filter (\<lambda>j. if wj_account j = Some u \<and> ended_since since j \<and> wj_fault j \<noteq> None then wj_worker j else None) (wjobs db))"

text \<open>When the worker last answered a job; 0 if it never did.\<close>

definition last_answer :: "string \<Rightarrow> relay_db \<Rightarrow> epoch" where
  "last_answer w db =
     (case List.map_filter (\<lambda>j. if wj_worker j = Some w \<and> wj_status j = ''done'' then wj_done j else None) (wjobs db) of
        [] \<Rightarrow> 0 | t # ts \<Rightarrow> foldl max t ts)"

definition request_fault_accounts :: "string \<Rightarrow> epoch \<Rightarrow> relay_db \<Rightarrow> nat" where
  "request_fault_accounts w since db =
     length (remdups (List.map_filter (\<lambda>j. if wj_worker j = Some w \<and> wj_fault j = Some ''request'' \<and> ended_since since j \<and>
       (case wj_done j of None \<Rightarrow> False | Some t \<Rightarrow> last_answer w db < t) then wj_account j else None) (wjobs db)))"

definition job_get :: "string \<Rightarrow> relay_db \<Rightarrow> worker_job option" where
  "job_get i db = tbl_one (\<lambda>j. wj_id j = i) (wjobs db)"

definition failed_there :: "string \<Rightarrow> epoch \<Rightarrow> worker_job \<Rightarrow> relay_db \<Rightarrow> bool" where
  "failed_there w since j db \<longleftrightarrow> wj_account j \<noteq> None \<and>
     list_ex (\<lambda>f. wj_account f = wj_account j \<and> ended_since since f \<and> wj_worker f = Some w \<and> wj_fault f \<noteq> None) (wjobs db)"

text \<open>The conditions of \<open>next_pending\<close>; \<open>names\<close>: the models asked for, \<open>None\<close> for any.\<close>

definition claimable :: "utext list option \<Rightarrow> string option \<Rightarrow> epoch option \<Rightarrow> bool \<Rightarrow> relay_db \<Rightarrow> worker_job \<Rightarrow> bool" where
  "claimable names w since reasoning db j \<longleftrightarrow>
     wj_status j = ''pending'' \<and> \<not> wj_stop j \<and>
     (reasoning \<or> wj_think j \<in> {None, Some (W_Bool False), Some W_Null}) \<and>
     (case w of None \<Rightarrow> True | Some x \<Rightarrow> wj_deferred j \<noteq> Some x \<and>
        (case since of None \<Rightarrow> True | Some t \<Rightarrow> \<not> failed_there x t j db)) \<and>
     (case names of None \<Rightarrow> True | Some ns \<Rightarrow> wj_model j \<in> set ns)"

definition next_pending :: "utext list option \<Rightarrow> string option \<Rightarrow> epoch option \<Rightarrow> bool \<Rightarrow> relay_db \<Rightarrow> worker_job option" where
  "next_pending names w since reasoning db =
     min_row (\<lambda>j. (wj_priority j, wj_created j, wj_id j)) (filter (claimable names w since reasoning db) (wjobs db))"

definition count_pending :: "utext list \<Rightarrow> relay_db \<Rightarrow> nat" where
  "count_pending names db = tbl_count (\<lambda>j. wj_status j = ''pending'' \<and> \<not> wj_stop j \<and> wj_model j \<in> set names) (wjobs db)"

definition active_jobs_of :: "string \<Rightarrow> relay_db \<Rightarrow> worker_job list" where
  "active_jobs_of w db = filter (\<lambda>j. wj_worker j = Some w \<and> job_active j) (wjobs db)"

definition active_jobs :: "relay_db \<Rightarrow> worker_job list" where
  "active_jobs db = filter job_active (wjobs db)"

text \<open>How many rows an UPDATE of one job changed.\<close>

definition set_claimed :: "string \<Rightarrow> string \<Rightarrow> epoch \<Rightarrow> relay_db \<Rightarrow> nat \<times> relay_db" where
  "set_claimed i w now db =
     (let p = (\<lambda>j. wj_id j = i \<and> wj_status j = ''pending'' \<and> \<not> wj_stop j) in
      (tbl_count p (wjobs db),
       update_jobs p (\<lambda>j. j\<lparr>wj_status := ''claimed'', wj_worker := Some w, wj_claimed := Some now, wj_beat := Some now\<rparr>) db))"

definition requeue_job :: "string \<Rightarrow> epoch \<Rightarrow> relay_db \<Rightarrow> nat \<times> relay_db" where
  "requeue_job i now db =
     (let p = (\<lambda>j. wj_id j = i \<and> job_active j \<and> \<not> wj_stop j \<and> wj_next j = 0) in
      (tbl_count p (wjobs db),
       update_jobs p (\<lambda>j. j\<lparr>wj_status := ''pending'', wj_deferred := wj_worker j, wj_worker := None, wj_claimed := None,
         wj_beat := Some now, wj_requeues := wj_requeues j + 1\<rparr>) db))"

definition renew_lease :: "string \<Rightarrow> epoch \<Rightarrow> relay_db \<Rightarrow> relay_db" where
  "renew_lease w now = update_jobs (\<lambda>j. wj_worker j = Some w \<and> job_active j \<and> \<not> wj_stop j) (\<lambda>j. j\<lparr>wj_beat := Some now\<rparr>)"

definition ended_row :: "string \<Rightarrow> epoch \<Rightarrow> utext option \<Rightarrow> worker_job \<Rightarrow> worker_job" where
  "ended_row st now err j = j\<lparr>wj_status := st, wj_stop := st \<noteq> ''done'', wj_done := Some now, wj_error := err,
     wj_messages := no_prompt, wj_options := None\<rparr>"

definition finish_job ::
  "string \<Rightarrow> string \<Rightarrow> epoch \<Rightarrow> utext option \<Rightarrow> int \<Rightarrow> int \<Rightarrow> string \<Rightarrow> string list \<Rightarrow> relay_db \<Rightarrow> nat \<times> relay_db" where
  "finish_job i st now err tin tout reason from db =
     (let p = (\<lambda>j. wj_id j = i \<and> wj_status j \<in> set from) in
      (tbl_count p (wjobs db),
       update_jobs p (\<lambda>j. (ended_row st now err j)\<lparr>wj_in := tin, wj_out := tout, wj_finish := reason\<rparr>) db))"

text \<open>A job that ends without usage.\<close>

abbreviation end_job :: "string \<Rightarrow> string \<Rightarrow> epoch \<Rightarrow> string \<Rightarrow> string list \<Rightarrow> relay_db \<Rightarrow> nat \<times> relay_db" where
  "end_job i st now err from db \<equiv> finish_job i st now (Some (ascii err)) 0 0 ''stop'' from db"

definition finish_worker_jobs :: "string \<Rightarrow> string \<Rightarrow> epoch \<Rightarrow> relay_db \<Rightarrow> relay_db" where
  "finish_worker_jobs w err now = update_jobs (\<lambda>j. wj_worker j = Some w \<and> job_active j) (ended_row ''failed'' now (Some (ascii err)))"

definition advance :: "string \<Rightarrow> int \<Rightarrow> epoch \<Rightarrow> relay_db \<Rightarrow> relay_db" where
  "advance i n now = update_jobs (\<lambda>j. wj_id j = i)
     (\<lambda>j. j\<lparr>wj_status := ''streaming'', wj_beat := Some now, wj_bytes := wj_bytes j + n, wj_next := wj_next j + 1\<rparr>)"

definition expire_pending :: "epoch \<Rightarrow> epoch \<Rightarrow> relay_db \<Rightarrow> nat \<times> relay_db" where
  "expire_pending before now db =
     (let p = (\<lambda>j. wj_status j = ''pending'' \<and> (case wj_beat j of None \<Rightarrow> False | Some b \<Rightarrow> b < before)) in
      (tbl_count p (wjobs db), update_jobs p (ended_row ''timeout'' now (Some (ascii ''No worker took the job in time.''))) db))"

definition expire_created_before :: "epoch \<Rightarrow> epoch \<Rightarrow> relay_db \<Rightarrow> nat \<times> relay_db" where
  "expire_created_before before now db =
     (let p = (\<lambda>j. job_live j \<and> wj_created j < before) in
      (tbl_count p (wjobs db), update_jobs p (ended_row ''timeout'' now (Some (ascii ''The job exceeded the generation time limit.''))) db))"

definition scrub_terminal :: "relay_db \<Rightarrow> relay_db" where
  "scrub_terminal = update_jobs (\<lambda>j. job_over j \<and> (pd_text (wj_messages j) \<noteq> ascii ''[]'' \<or> wj_options j \<noteq> None))
     (\<lambda>j. j\<lparr>wj_messages := no_prompt, wj_options := None\<rparr>)"

definition ended_before :: "epoch \<Rightarrow> worker_job \<Rightarrow> bool" where
  "ended_before before j \<longleftrightarrow> job_over j \<and> (case wj_done j of None \<Rightarrow> wj_created j | Some t \<Rightarrow> t) < before"

text \<open>The pieces of a job go with it (ON DELETE CASCADE).\<close>

definition delete_terminal_before :: "epoch \<Rightarrow> relay_db \<Rightarrow> nat \<times> relay_db" where
  "delete_terminal_before before db =
     (let gone = map wj_id (filter (ended_before before) (wjobs db)) in
      (tbl_count (ended_before before) (wjobs db),
       db\<lparr>wjobs := tbl_delete (ended_before before) (wjobs db), wchunks := tbl_delete (\<lambda>c. wc_job c \<in> set gone) (wchunks db)\<rparr>))"

definition job_counts :: "relay_db \<Rightarrow> string \<Rightarrow> nat" where
  "job_counts db st = tbl_count (\<lambda>j. wj_status j = st) (wjobs db)"

subsection \<open>Pieces\<close>

definition chunk_at :: "string \<Rightarrow> int \<Rightarrow> relay_db \<Rightarrow> worker_chunk option" where
  "chunk_at i n db = tbl_one (\<lambda>c. wc_job c = i \<and> wc_seq c = n) (wchunks db)"

definition insert_chunk :: "string \<Rightarrow> int \<Rightarrow> utext \<Rightarrow> bool \<Rightarrow> epoch \<Rightarrow> utext \<Rightarrow> relay_db \<Rightarrow> worker_error + relay_db" where
  "insert_chunk i n content final now thinking db =
     (if chunk_at i n db \<noteq> None then Inl Worker_Integrity
      else Inr (db\<lparr>wchunks := wchunks db @ [\<lparr>wc_job = i, wc_seq = n, wc_text = content, wc_done = final, wc_created = now, wc_thinking = thinking\<rparr>]\<rparr>))"

definition chunks_after :: "string \<Rightarrow> int \<Rightarrow> nat \<Rightarrow> relay_db \<Rightarrow> worker_chunk list" where
  "chunks_after i n limit db = take limit (sort_key wc_seq (filter (\<lambda>c. wc_job c = i \<and> n < wc_seq c) (wchunks db)))"

definition delete_chunks_before :: "string \<Rightarrow> int \<Rightarrow> relay_db \<Rightarrow> relay_db" where
  "delete_chunks_before i n db = db\<lparr>wchunks := tbl_delete (\<lambda>c. wc_job c = i \<and> wc_seq c < n) (wchunks db)\<rparr>"

definition delete_chunks :: "string \<Rightarrow> relay_db \<Rightarrow> relay_db" where
  "delete_chunks i db = db\<lparr>wchunks := tbl_delete (\<lambda>c. wc_job c = i) (wchunks db)\<rparr>"

definition delete_orphan_chunks :: "epoch \<Rightarrow> relay_db \<Rightarrow> nat \<times> relay_db" where
  "delete_orphan_chunks before db =
     (let orphan = (\<lambda>c. list_ex (\<lambda>j. wj_id j = wc_job c \<and> ended_before before j) (wjobs db) \<or> \<not> list_ex (\<lambda>j. wj_id j = wc_job c) (wjobs db)) in
      (tbl_count orphan (wchunks db), db\<lparr>wchunks := tbl_delete orphan (wchunks db)\<rparr>))"


subsection \<open>Settings and model names\<close>

text \<open>\<open>rc_started\<close>: when the server started. Durations are in seconds.\<close>

record relay_config =
  rc_enabled :: bool
  rc_read_timeout :: rat
  rc_first_token :: rat
  rc_generation :: rat
  rc_claim :: rat
  rc_max_bytes :: int
  rc_started :: epoch

definition HEARTBEAT_FRESH_SECONDS :: rat where "HEARTBEAT_FRESH_SECONDS = 45"
definition MAX_CHUNK_BYTES :: int where "MAX_CHUNK_BYTES = 16 * 1024"
definition MAX_CHUNK_SEQ :: int where "MAX_CHUNK_SEQ = 1000000"
definition MAX_JOB_BYTES :: int where "MAX_JOB_BYTES = 16 * 1024 * 1024"
definition MAX_MODELS :: nat where "MAX_MODELS = 512"
definition MAX_NAME_LENGTH :: nat where "MAX_NAME_LENGTH = 80"
definition PURGE_AFTER_SECONDS :: rat where "PURGE_AFTER_SECONDS = 3600"
definition COOLDOWN_SECONDS :: rat where "COOLDOWN_SECONDS = 60"
definition PAUSE_SECONDS :: rat where "PAUSE_SECONDS = 60"
definition PAUSE_MAX_SECONDS :: rat where "PAUSE_MAX_SECONDS = 3600"
definition USER_FAULT_SECONDS :: rat where "USER_FAULT_SECONDS = 1800"
definition REQUEST_FAULT_ACCOUNTS :: nat where "REQUEST_FAULT_ACCOUNTS = 3"
definition MAX_REQUEUES :: int where "MAX_REQUEUES = 3"
definition PROMPT_ESTIMATE_FACTOR :: int where "PROMPT_ESTIMATE_FACTOR = 2"
definition PROMPT_TOKEN_ALLOWANCE :: int where "PROMPT_TOKEN_ALLOWANCE = 4096"
definition ANSWER_TOKEN_ALLOWANCE :: int where "ANSWER_TOKEN_ALLOWANCE = 16"
definition ACTIVITY_STATES :: "string list" where "ACTIVITY_STATES = [''idle'', ''light'', ''active'', ''gaming'']"
definition WORKER_STATUSES :: "string list" where "WORKER_STATUSES = [''online'', ''busy'', ''offline'']"
definition NO_REMOTE_REQUEST_TYPES :: "string list" where
  "NO_REMOTE_REQUEST_TYPES = [''chat_incognito'', ''incognito'', ''no_history'', ''agent'']"

definition lease_seconds :: "relay_config \<Rightarrow> rat" where
  "lease_seconds c = max 60 (rc_read_timeout c * 2)"

definition after_slash :: "utext \<Rightarrow> utext" where
  "after_slash s = rev (takeWhile (\<lambda>c. c \<noteq> 47) (rev s))"

definition model_aliases :: "utext \<Rightarrow> utext list" where
  "model_aliases raw =
     (let name = u_strip raw; tag = ascii '':latest'' in
      if name = [] then []
      else if 58 \<notin> set (after_slash name) then [name, name @ tag]
      else if length tag \<le> length name \<and> drop (length name - length tag) name = tag then [name, take (length name - length tag) name]
      else [name])"

definition alias_set :: "utext list \<Rightarrow> utext list" where
  "alias_set ms = remdups (concat (map model_aliases ms))"

fun text_of :: "wire \<Rightarrow> utext option" where
  "text_of (W_Text s) = Some s"
| "text_of _ = None"

text \<open>The models a worker reported.\<close>

definition advertised_models :: "worker_node \<Rightarrow> utext list" where
  "advertised_models n =
     (case wn_caps n of Some (W_Object kvs) \<Rightarrow>
        (case get_field ''models'' kvs of W_List xs \<Rightarrow> take MAX_MODELS (filter (\<lambda>s. s \<noteq> []) (List.map_filter text_of xs)) | _ \<Rightarrow> [])
      | _ \<Rightarrow> [])"

text \<open>What \<open>parse_system\<close> stored as the daemon's features, a list of texts.\<close>

definition worker_features :: "worker_node \<Rightarrow> utext list" where
  "worker_features n =
     (case wn_system n of Some (W_Object kvs) \<Rightarrow>
        (case get_field ''features'' kvs of W_List xs \<Rightarrow> List.map_filter text_of xs | _ \<Rightarrow> [])
      | _ \<Rightarrow> [])"

subsection \<open>Faults and pauses\<close>

definition paused :: "worker_node \<Rightarrow> epoch \<Rightarrow> bool" where
  "paused n now \<longleftrightarrow> (case wn_cooldown n of None \<Rightarrow> 0 | Some t \<Rightarrow> t) > now"

definition worker_is_available :: "worker_node \<Rightarrow> epoch \<Rightarrow> bool" where
  "worker_is_available n now \<longleftrightarrow> wn_status n = ''online'' \<and>
     now - HEARTBEAT_FRESH_SECONDS \<le> (case wn_beat n of None \<Rightarrow> 0 | Some t \<Rightarrow> t) \<and> wn_activity n \<noteq> Some ''gaming'' \<and> \<not> paused n now"

definition pause_for :: "nat \<Rightarrow> rat" where
  "pause_for strikes = min PAUSE_MAX_SECONDS (PAUSE_SECONDS * 2 ^ min (strikes - 1) 16)"

definition penalize :: "string option \<Rightarrow> epoch \<Rightarrow> relay_db \<Rightarrow> relay_db" where
  "penalize w now db =
     (if \<not> truthy w then db
      else case node_get (the w) db of None \<Rightarrow> db
      | Some n \<Rightarrow> let strikes = wn_strikes n + 1 in pause_node (the w) strikes (now + pause_for strikes) db)"

definition misbehaved :: "worker_job \<Rightarrow> string \<Rightarrow> epoch \<Rightarrow> relay_db \<Rightarrow> relay_db" where
  "misbehaved j w now db = penalize (Some w) now (set_fault (wj_id j) ''worker'' db)"

text \<open>A failure its request may have caused is held against the worker once per account for a while.\<close>

definition blame :: "worker_job \<Rightarrow> epoch \<Rightarrow> relay_db \<Rightarrow> relay_db" where
  "blame j now db =
     (if truthy (wj_account j) \<and>
         account_fault_since (the (wj_account j)) (now - USER_FAULT_SECONDS) (Some ''worker'') (Some (wj_id j)) db
      then set_fault (wj_id j) ''request'' db
      else penalize (wj_worker j) now (set_fault (wj_id j) ''worker'' db))"

definition RESOURCE_FAULTS :: "string list" where
  "RESOURCE_FAULTS = [''out of memory'', ''more system memory'', ''not enough memory'', ''insufficient memory'',
     ''unable to allocate'', ''failed to allocate'', ''cudamalloc failed'']"

definition INPUT_FAULTS :: "string list" where
  "INPUT_FAULTS = [''process input'', ''invalid input'', ''input length'', ''input too long'', ''prompt is too long'',
     ''prompt too long'', ''context length'', ''exceeds the context'']"

definition IMAGE_FAULTS :: "string list" where
  "IMAGE_FAULTS = [''image'', ''unsupported format'', ''unknown format'']"

definition u_lowered :: "unicode \<Rightarrow> utext \<Rightarrow> utext" where
  "u_lowered uc s = concat (map (u_lower uc) s)"

definition names_one :: "utext \<Rightarrow> string list \<Rightarrow> bool" where
  "names_one s markers \<longleftrightarrow> list_ex (\<lambda>m. occurs_in (ascii m) s) markers"

definition input_fault :: "unicode \<Rightarrow> utext \<Rightarrow> bool \<Rightarrow> bool" where
  "input_fault uc msg images \<longleftrightarrow> names_one (u_lowered uc msg) INPUT_FAULTS \<or> (images \<and> names_one (u_lowered uc msg) IMAGE_FAULTS)"

text \<open>\<open>\bHTTP 4\d\d\b\<close> at a place of the message; \<open>before\<close>: the character in front is one of a word.\<close>

fun refused_at :: "unicode \<Rightarrow> bool \<Rightarrow> utext \<Rightarrow> bool" where
  "refused_at uc before [] = False"
| "refused_at uc before (c # cs) =
     ((let s = c # cs in \<not> before \<and> u_word uc c \<and> take 6 s = ascii ''HTTP 4'' \<and> 8 \<le> length s \<and> u_decimal uc (s ! 6) \<and> u_decimal uc (s ! 7) \<and>
         (length s = 8 \<or> \<not> u_word uc (s ! 8))) \<or>
      refused_at uc (u_word uc c) cs)"

text \<open>A failure that follows from what the request asked.\<close>

definition request_fault :: "unicode \<Rightarrow> utext \<Rightarrow> worker_job \<Rightarrow> bool" where
  "request_fault uc msg j \<longleftrightarrow>
     input_fault uc msg (occurs_in (ascii (CHR 0x22 # ''images'' @ [CHR 0x22])) (pd_text (wj_messages j))) \<or>
     names_one (u_lowered uc msg) RESOURCE_FAULTS \<or> refused_at uc False msg"

definition request_faults_add_up :: "worker_job \<Rightarrow> string \<Rightarrow> epoch \<Rightarrow> relay_db \<Rightarrow> relay_db" where
  "request_faults_add_up j w now db =
     (if truthy (wj_account j) \<and> REQUEST_FAULT_ACCOUNTS \<le> request_fault_accounts w (now - USER_FAULT_SECONDS) db
      then penalize (Some w) now db else db)"

definition account_benched :: "string option \<Rightarrow> epoch \<Rightarrow> relay_db \<Rightarrow> bool" where
  "account_benched u now db \<longleftrightarrow> truthy u \<and> account_fault_since (the u) (now - USER_FAULT_SECONDS) (Some ''worker'') None db"

definition workers_avoided_by :: "string option \<Rightarrow> epoch \<Rightarrow> relay_db \<Rightarrow> string list" where
  "workers_avoided_by u now db = (if truthy u then workers_that_failed (the u) (now - USER_FAULT_SECONDS) db else [])"

text \<open>\<open>a or b or 0\<close> of two times that may be missing.\<close>

definition last_seen :: "worker_job \<Rightarrow> epoch" where
  "last_seen j = (case wj_beat j of Some t \<Rightarrow> if t \<noteq> 0 then t else (case wj_claimed j of None \<Rightarrow> 0 | Some u \<Rightarrow> u)
     | None \<Rightarrow> (case wj_claimed j of None \<Rightarrow> 0 | Some u \<Rightarrow> u))"

definition lease_ran_out :: "relay_config \<Rightarrow> worker_job \<Rightarrow> epoch \<Rightarrow> relay_db \<Rightarrow> relay_db" where
  "lease_ran_out c j now db = (if last_seen j < rc_started c then db else blame j now db)"

text \<open>\<open>_requeue\<close>: back to the pool, or failed once it went back too often.\<close>

definition give_back :: "worker_job \<Rightarrow> epoch \<Rightarrow> relay_db \<Rightarrow> bool \<times> relay_db" where
  "give_back j now db =
     (if MAX_REQUEUES \<le> wj_requeues j then (False, snd (end_job (wj_id j) ''failed'' now ''No worker kept the job.'' ACTIVE_JOBS db))
      else let (n, d) = requeue_job (wj_id j) now db in (n \<noteq> 0, d))"

definition lease_expired :: "worker_job \<Rightarrow> epoch \<Rightarrow> rat \<Rightarrow> rat \<Rightarrow> bool" where
  "lease_expired j now lease first_token \<longleftrightarrow>
     lease < now - last_seen j \<or>
     (wj_next j = 0 \<and> (case wj_claimed j of None \<Rightarrow> False | Some t \<Rightarrow> first_token < now - t))"

subsection \<open>Whether a request goes to the workers\<close>

text \<open>Names on cooldown, on the monotonic clock of one process.\<close>

definition cool_down :: "utext \<Rightarrow> epoch \<Rightarrow> (utext \<rightharpoonup> epoch) \<Rightarrow> (utext \<rightharpoonup> epoch)" where
  "cool_down name t m = foldl (\<lambda>acc a. acc(a \<mapsto> t + COOLDOWN_SECONDS)) m (model_aliases name)"

definition cooling :: "utext \<Rightarrow> epoch \<Rightarrow> (utext \<rightharpoonup> epoch) \<Rightarrow> bool \<times> (utext \<rightharpoonup> epoch)" where
  "cooling name t m =
     (case m name of None \<Rightarrow> (False, m) | Some until \<Rightarrow> if until < t then (False, m(name := None)) else (True, m))"

definition idle_workers_for :: "utext \<Rightarrow> epoch \<Rightarrow> utext option \<Rightarrow> relay_db \<Rightarrow> worker_node list" where
  "idle_workers_for name now feature db =
     filter (\<lambda>n. wn_id n \<notin> set (busy_workers db) \<and> worker_is_available n now \<and>
         set (model_aliases name) \<inter> set (alias_set (advertised_models n)) \<noteq> {} \<and>
         (case feature of None \<Rightarrow> True | Some f \<Rightarrow> f \<in> set (worker_features n)))
       (online_since (now - HEARTBEAT_FRESH_SECONDS) db)"

record routed_model =
  rm_backend :: "string option"
  rm_backend_name :: "utext option"
  rm_name :: "utext option"

definition routed_name :: "routed_model \<Rightarrow> utext" where
  "routed_name m = (case rm_backend_name m of Some (c # cs) \<Rightarrow> c # cs | _ \<Rightarrow> (case rm_name m of None \<Rightarrow> [] | Some s \<Rightarrow> s))"

text \<open>\<open>thinks\<close>: the request asks for reasoning. An error of the database, which means no, is left out.\<close>

definition should_route ::
  "relay_config \<Rightarrow> string option \<Rightarrow> bool \<Rightarrow> routed_model option \<Rightarrow> string option \<Rightarrow> bool \<Rightarrow> epoch \<Rightarrow> epoch \<Rightarrow> (utext \<rightharpoonup> epoch) \<Rightarrow> relay_db
    \<Rightarrow> bool \<times> (utext \<rightharpoonup> epoch)" where
  "should_route c u admin model request_type thinks tick now cool db =
     (case model of None \<Rightarrow> (False, cool)
      | Some m \<Rightarrow>
        if \<not> rc_enabled c \<or> rm_backend m \<notin> {None, Some ''ollama''} then (False, cool)
        else if admin \<or> (case request_type of None \<Rightarrow> False | Some t \<Rightarrow> t \<in> set NO_REMOTE_REQUEST_TYPES) then (False, cool)
        else let name = routed_name m in
          if name = [] then (False, cool)
          else let (cold, cool1) = cooling name tick cool in
            if cold \<or> account_benched u now db then (False, cool1)
            else let avoided = workers_avoided_by u now db;
                     idle = filter (\<lambda>n. wn_id n \<notin> set avoided)
                       (idle_workers_for name now (if thinks then Some (ascii ''think'') else None) db)
              in (count_pending (model_aliases name) db < length idle, cool1))"

subsection \<open>The workers' calls\<close>

definition authenticate_worker :: "(string \<Rightarrow> string) \<Rightarrow> string option \<Rightarrow> relay_db \<Rightarrow> worker_node option" where
  "authenticate_worker sha header db =
     (let s = strip (case header of None \<Rightarrow> [] | Some h \<Rightarrow> h);
          scheme = takeWhile (\<lambda>c. c \<noteq> CHR '' '') s; token = strip (drop (Suc (length scheme)) s) in
      if ascii_lower scheme \<noteq> ''bearer'' \<or> token = [] \<or> 512 < length token then None else by_token_hash (sha token) db)"

text \<open>An optional line of text of a body.\<close>

definition text_field :: "(string \<times> wire) list \<Rightarrow> string \<Rightarrow> nat \<Rightarrow> worker_error + utext option" where
  "text_field body name limit =
     (case get_field name body of W_Null \<Rightarrow> Inr None
      | W_Text s \<Rightarrow> if limit < length s \<or> (\<exists>c \<in> set s. c < 32) then Inl (Invalid_Request name)
          else Inr (if u_strip s = [] then None else Some (u_strip s))
      | _ \<Rightarrow> Inl (Invalid_Request name))"

fun model_texts :: "wire list \<Rightarrow> utext list option" where
  "model_texts [] = Some []"
| "model_texts (x # xs) =
     (case x of W_Text s \<Rightarrow> if u_strip s = [] \<or> 512 < length s then None else map_option (Cons (u_strip s)) (model_texts xs)
      | _ \<Rightarrow> None)"

definition parse_models :: "wire \<Rightarrow> worker_error + utext list" where
  "parse_models v =
     (case v of W_List xs \<Rightarrow> if MAX_MODELS < length xs then Inl (Invalid_Request ''models'')
          else (case model_texts xs of None \<Rightarrow> Inl (Invalid_Request ''models'') | Some ms \<Rightarrow> Inr ms)
      | _ \<Rightarrow> Inl (Invalid_Request ''models''))"

definition parse_caps :: "wire \<Rightarrow> worker_error + wire option" where
  "parse_caps v =
     (case v of W_Null \<Rightarrow> Inr None
      | W_Object kvs \<Rightarrow> map_sum id (\<lambda>ms. Some (W_Object [(''models'', W_List (map W_Text ms))])) (parse_models (field_or (W_List []) ''models'' kvs))
      | _ \<Rightarrow> Inl (Invalid_Request ''models''))"

definition as_one_of :: "string list \<Rightarrow> wire \<Rightarrow> string option" where
  "as_one_of names v = (case v of W_Text s \<Rightarrow> List.find (\<lambda>n. ascii n = s) names | _ \<Rightarrow> None)"

definition gpu_number :: "wire \<Rightarrow> worker_error + rat option" where
  "gpu_number v =
     (let ok = (\<lambda>q. if 0 \<le> q \<and> q \<le> 100 then Inr (Some q) else Inl (Invalid_Request ''gpu_util'')) in
      case v of W_Null \<Rightarrow> Inr None | W_Int n \<Rightarrow> ok (of_int n) | W_Float q \<Rightarrow> ok q | _ \<Rightarrow> Inl (Invalid_Request ''gpu_util''))"

text \<open>\<open>parse_system\<close> of services/worker_remote.py: the figures a worker reports about its machine.\<close>

definition figure :: "rat \<Rightarrow> wire \<Rightarrow> wire" where
  "figure most v =
     (case v of W_Int n \<Rightarrow> if 0 \<le> n \<and> of_int n \<le> most then v else W_Null
      | W_Float q \<Rightarrow> if 0 \<le> q \<and> q \<le> most then v else W_Null | _ \<Rightarrow> W_Null)"

definition feature_name :: "wire \<Rightarrow> bool" where
  "feature_name v \<longleftrightarrow> (case v of W_Text s \<Rightarrow> 1 \<le> length s \<and> length s \<le> 32 \<and> (\<forall>c \<in> set s. c = 95 \<or> (97 \<le> c \<and> c \<le> 122)) | _ \<Rightarrow> False)"

definition parse_system :: "wire \<Rightarrow> wire option" where
  "parse_system v =
     (case v of W_Object kvs \<Rightarrow>
        Some (W_Object
          (map (\<lambda>k. (k, figure (2 ^ 53) (get_field k kvs))) [''ram_total'', ''ram_free'', ''vram_total'', ''vram_free'', ''disk_total'', ''disk_free''] @
           [(''cpu_count'', figure 4096 (get_field ''cpu_count'' kvs)),
            (''features'', W_List (case get_field ''features'' kvs of W_List xs \<Rightarrow> filter feature_name (take 16 xs) | _ \<Rightarrow> [])),
            (''version'', (case get_field ''version'' kvs of W_Text s \<Rightarrow> W_Text (take 20 s) | _ \<Rightarrow> W_Null))]))
      | _ \<Rightarrow> None)"

definition try_then :: "worker_error + 'x \<Rightarrow> ('x \<Rightarrow> worker_error + 'y) \<Rightarrow> worker_error + 'y" where
  "try_then a f = (case a of Inl e \<Rightarrow> Inl e | Inr x \<Rightarrow> f x)"

definition check_that :: "bool \<Rightarrow> string \<Rightarrow> worker_error + unit" where
  "check_that p what = (if p then Inr () else Inl (Invalid_Request what))"

text \<open>Jobs a worker has not started answering go back when it is gaming or leaving.\<close>

definition hand_back :: "string \<Rightarrow> epoch \<Rightarrow> relay_db \<Rightarrow> relay_db" where
  "hand_back w now db =
     foldl (\<lambda>d j. if wj_next j = 0 then snd (give_back j now d) else d) db (active_jobs_of w db)"

definition heartbeat_tx ::
  "string \<Rightarrow> string \<Rightarrow> string option \<Rightarrow> utext option \<Rightarrow> rat option \<Rightarrow> utext option \<Rightarrow> wire option \<Rightarrow> utext option \<Rightarrow> wire option \<Rightarrow> utext option
    \<Rightarrow> epoch \<Rightarrow> relay_db \<Rightarrow> bool \<times> relay_db" where
  "heartbeat_tx w st activity gpu util ollama caps platform system job now db =
     (let d1 = set_system w system (record_heartbeat w now st gpu util ollama caps activity platform db);
          d2 = (if st \<noteq> ''online'' \<or> activity = Some ''gaming'' then hand_back w now d1 else d1);
          d3 = renew_lease w now d2
      in (case job of None \<Rightarrow> False | Some i \<Rightarrow> i \<noteq> [] \<and>
            (case tbl_one (\<lambda>j. ascii (wj_id j) = i) (wjobs d3) of None \<Rightarrow> True
             | Some j \<Rightarrow> wj_worker j \<noteq> Some w \<or> \<not> job_active j \<or> wj_stop j), d3))"

text \<open>
  \<open>heartbeat\<close>; \<open>remote_ok\<close>: \<open>parse_remote\<close> accepts the body's part on remote access (services/worker_remote.py,
  not modelled). The result is \<open>job_stop\<close>.
\<close>

definition worker_heartbeat :: "worker_node \<Rightarrow> wire \<Rightarrow> bool \<Rightarrow> epoch \<Rightarrow> relay_db \<Rightarrow> worker_error + (bool \<times> relay_db)" where
  "worker_heartbeat w body remote_ok now db =
     (case body of W_Object b \<Rightarrow>
        let sv = get_field ''status'' b; st = (if wire_true sv then as_one_of WORKER_STATUSES sv else Some ''online'');
            av = get_field ''activity_state'' b; activity = as_one_of ACTIVITY_STATES av;
            jv = get_field ''job_id'' b; rv = get_field ''commands_running'' b in
        try_then (check_that (st \<noteq> None) ''status'') (\<lambda>_.
        try_then (check_that (av = W_Null \<or> activity \<noteq> None) ''activity_state'') (\<lambda>_.
        try_then (gpu_number (get_field ''gpu_util'' b)) (\<lambda>util.
        try_then (parse_caps (get_field ''capabilities'' b)) (\<lambda>caps.
        try_then (text_field b ''gpu_name'' 512) (\<lambda>gpu.
        try_then (text_field b ''ollama_version'' 512) (\<lambda>ollama.
        try_then (text_field b ''platform'' 128) (\<lambda>platform.
        try_then (check_that (jv = W_Null \<or> text_of jv \<noteq> None) ''job_id'') (\<lambda>_.
        try_then (check_that remote_ok ''remote'') (\<lambda>_.
        try_then (check_that (case rv of W_Null \<Rightarrow> True
            | W_List xs \<Rightarrow> length xs \<le> 64 \<and> list_all (\<lambda>x. case text_of x of None \<Rightarrow> False | Some s \<Rightarrow> length s = 32) xs
            | _ \<Rightarrow> False) ''commands_running'') (\<lambda>_.
        Inr (heartbeat_tx (wn_id w) (the st) activity gpu util ollama caps platform (parse_system (get_field ''system'' b)) (text_of jv) now db)))))))))))
      | _ \<Rightarrow> Inl (Invalid_Request ''body''))"

subsection \<open>Claiming\<close>

record job_payload =
  py_job :: string
  py_model :: utext
  py_messages :: "(utext \<times> nat) list"
  py_options :: "utext option"
  py_priority :: int
  py_think :: "wire option"

definition job_payload :: "worker_job \<Rightarrow> job_payload" where
  "job_payload j = \<lparr>py_job = wj_id j, py_model = wj_model j, py_messages = pd_messages (wj_messages j), py_options = wj_options j,
     py_priority = wj_priority j,
     py_think = (case wj_think j of Some (W_Bool b) \<Rightarrow> Some (W_Bool b) | Some (W_Text s) \<Rightarrow> Some (W_Text s) | _ \<Rightarrow> None)\<rparr>"

definition payload_bound :: "worker_job \<Rightarrow> nat" where
  "payload_bound j = 3 * (text_bytes (pd_text (wj_messages j)) + (case wj_options j of None \<Rightarrow> 0 | Some s \<Rightarrow> text_bytes s)) + 4096"

text \<open>The check without a lock; \<open>w\<close> is the row that the request's token found.\<close>

definition claim_idle :: "worker_node \<Rightarrow> utext list option \<Rightarrow> epoch \<Rightarrow> relay_db \<Rightarrow> bool" where
  "claim_idle w ms now db \<longleftrightarrow> active_jobs_of (wn_id w) db = [] \<and>
     (paused w now \<or> next_pending (map_option alias_set ms) (Some (wn_id w)) (Some (now - USER_FAULT_SECONDS))
        (ascii ''think'' \<in> set (worker_features w)) db = None)"

text \<open>What a worker still holds when it asks for work, it has abandoned.\<close>

definition abandon_one :: "string \<Rightarrow> epoch \<Rightarrow> relay_db \<Rightarrow> worker_job \<Rightarrow> relay_db" where
  "abandon_one w now d j =
     (if wj_next j = 0 then snd (give_back j now d)
      else let (n, d1) = end_job (wj_id j) ''failed'' now ''The worker abandoned the job.'' LIVE_JOBS d in
        if n \<noteq> 0 then misbehaved j w now d1 else d1)"

definition abandon :: "string \<Rightarrow> epoch \<Rightarrow> relay_db \<Rightarrow> relay_db" where
  "abandon w now db = foldl (abandon_one w now) db (active_jobs_of w db)"

text \<open>The transaction of \<open>claim\<close>; \<open>reserve n\<close>: there is a place to send a reply of n bytes from.\<close>

definition claim_tx :: "worker_node \<Rightarrow> utext list option \<Rightarrow> (nat \<Rightarrow> bool) \<Rightarrow> epoch \<Rightarrow> relay_db \<Rightarrow> worker_error + (job_payload option \<times> relay_db)" where
  "claim_tx w ms reserve now db =
     (case node_get (wn_id w) db of None \<Rightarrow> Inl Worker_Disabled
      | Some current \<Rightarrow>
        if wn_status current = ''disabled'' then Inl Worker_Disabled
        else let d = abandon (wn_id w) now db in
          if (case node_get (wn_id w) d of None \<Rightarrow> False | Some n \<Rightarrow> paused n now) then Inr (None, d)
          else case next_pending (map_option alias_set ms) (Some (wn_id w)) (Some (now - USER_FAULT_SECONDS))
              (ascii ''think'' \<in> set (worker_features w)) d of None \<Rightarrow> Inr (None, d)
          | Some j \<Rightarrow>
            if \<not> reserve (payload_bound j) then Inr (None, d)
            else let (n, d1) = set_claimed (wj_id j) (wn_id w) now d in
              Inr (if n = 0 then None else Some (job_payload j), d1))"

text \<open>One try of \<open>poll\<close>: without a list, the models the worker advertised.\<close>

definition poll_models :: "worker_node \<Rightarrow> utext list option \<Rightarrow> utext list option" where
  "poll_models w ms = (case ms of None \<Rightarrow> Some (advertised_models w) | Some l \<Rightarrow> Some l)"

definition poll_once :: "worker_node \<Rightarrow> utext list option \<Rightarrow> (nat \<Rightarrow> bool) \<Rightarrow> epoch \<Rightarrow> epoch \<Rightarrow> relay_db \<Rightarrow> worker_error + (job_payload option \<times> relay_db)" where
  "poll_once w ms reserve t now db =
     (let d = touch_node (wn_id w) t db in
      if claim_idle w (poll_models w ms) now d then Inr (None, d)
      else case claim_tx w (poll_models w ms) reserve now d of Inl e \<Rightarrow> Inl e | Inr r \<Rightarrow> Inr r)"

subsection \<open>Pieces of an answer\<close>

text \<open>\<open>_owned\<close>: whether the worker may still write to the job (its lease ends here if it ran out).\<close>

definition job_owned :: "relay_config \<Rightarrow> worker_job \<Rightarrow> string \<Rightarrow> epoch \<Rightarrow> relay_db \<Rightarrow> bool \<times> relay_db" where
  "job_owned c j w now db =
     (if \<not> job_active j \<or> wj_stop j \<or> wj_worker j \<noteq> Some w then (False, db)
      else if lease_expired j now (lease_seconds c) (rc_first_token c)
      then (let (n, d) = end_job (wj_id j) ''timeout'' now ''The worker stopped responding.'' LIVE_JOBS db in
        (False, if n \<noteq> 0 then lease_ran_out c j now d else d))
      else (True, db))"

definition load_owned :: "string \<Rightarrow> string \<Rightarrow> relay_db \<Rightarrow> worker_error + worker_job" where
  "load_owned w i db =
     (case job_get i db of None \<Rightarrow> Inl Job_Not_Found | Some j \<Rightarrow> if wj_worker j \<noteq> Some w then Inl Job_Not_Found else Inr j)"

fun utf8_take :: "nat \<Rightarrow> utext \<Rightarrow> utext" where
  "utf8_take n [] = []"
| "utf8_take n (c # cs) = (if utf8_size c \<le> n then c # utf8_take (n - utf8_size c) cs else [])"

definition truncate_utf8 :: "utext \<Rightarrow> int \<Rightarrow> utext" where
  "truncate_utf8 s limit = utf8_take (nat limit) s"

text \<open>A lone surrogate, which JSON can carry and UTF-8 cannot.\<close>

definition surrogate :: "nat \<Rightarrow> bool" where
  "surrogate c \<longleftrightarrow> 0xd800 \<le> c \<and> c \<le> 0xdfff"

record piece =
  pc_seq :: int
  pc_text :: utext
  pc_done :: bool
  pc_thinking :: utext

definition parse_piece :: "wire \<Rightarrow> worker_error + piece" where
  "parse_piece body =
     (case body of W_Object b \<Rightarrow>
        (case get_field ''seq'' b of W_Int n \<Rightarrow>
           if n < 0 \<or> MAX_CHUNK_SEQ \<le> n then Inl (Invalid_Request ''seq'')
           else let cv = field_or (W_Text []) ''content'' b; tv = get_field ''thinking'' b;
                    content = (if cv = W_Null then Some [] else text_of cv); thinking = (if wire_true tv then text_of tv else Some []) in
             (case (content, field_or (W_Bool False) ''done'' b, thinking) of (Some x, W_Bool dn, Some y) \<Rightarrow>
                if list_ex surrogate (x @ y) then Inl Encode_Error
                else if MAX_CHUNK_BYTES < int (text_bytes x + text_bytes y) then Inl (Invalid_Request ''size'')
                else Inr \<lparr>pc_seq = n, pc_text = x, pc_done = dn, pc_thinking = y\<rparr>
              | _ \<Rightarrow> Inl (Invalid_Request ''chunk''))
         | _ \<Rightarrow> Inl (Invalid_Request ''seq''))
      | _ \<Rightarrow> Inl (Invalid_Request ''body''))"

definition bytes_of :: "utext \<Rightarrow> utext \<Rightarrow> int" where
  "bytes_of content thinking = int (text_bytes content + text_bytes thinking)"

text \<open>The answers of the worker's calls: (ok, stop).\<close>

definition broke :: "worker_job \<Rightarrow> string \<Rightarrow> string \<Rightarrow> epoch \<Rightarrow> relay_db \<Rightarrow> (bool \<times> bool) \<times> relay_db" where
  "broke j w err now db = ((False, True), misbehaved j w now (snd (end_job (wj_id j) ''failed'' now err LIVE_JOBS db)))"

text \<open>The piece that is next is stored; what goes past the limit of an answer ends it.\<close>

definition store_piece :: "relay_config \<Rightarrow> worker_job \<Rightarrow> piece \<Rightarrow> epoch \<Rightarrow> relay_db \<Rightarrow> worker_error + ((bool \<times> bool) \<times> relay_db)" where
  "store_piece c j p now db =
     (let i = wj_id j; budget = rc_max_bytes c - wj_bytes j in
      if budget < bytes_of (pc_text p) (pc_thinking p)
      then let thinking = truncate_utf8 (pc_thinking p) budget; content = truncate_utf8 (pc_text p) (budget - int (text_bytes thinking)) in
        map_sum id (\<lambda>d. ((True, True), snd (finish_job i ''done'' now None 0 0 ''length'' ACTIVE_JOBS (advance i (bytes_of content thinking) now d))))
          (insert_chunk i (pc_seq p) content True now thinking db)
      else map_sum id (\<lambda>d. ((True, False), advance i (bytes_of (pc_text p) (pc_thinking p)) now d))
          (insert_chunk i (pc_seq p) (pc_text p) (pc_done p) now (pc_thinking p) db))"

text \<open>\<open>now\<close> and \<open>t\<close>: the readings of the call and of the check of the lease.\<close>

definition chunk_tx :: "relay_config \<Rightarrow> string \<Rightarrow> string \<Rightarrow> piece \<Rightarrow> epoch \<Rightarrow> epoch \<Rightarrow> relay_db \<Rightarrow> worker_error + ((bool \<times> bool) \<times> relay_db)" where
  "chunk_tx c w i p now t db =
     (case load_owned w i db of Inl e \<Rightarrow> Inl e
      | Inr j \<Rightarrow> (let (mine, d) = job_owned c j w t db; expected = wj_next j in
        if \<not> mine then Inr ((False, True), d)
        else if pc_seq p < expected then
          (if (case chunk_at i (pc_seq p) d of None \<Rightarrow> True
               | Some s \<Rightarrow> wc_text s = pc_text p \<and> wc_done s = pc_done p \<and> wc_thinking s = pc_thinking p)
           then Inr ((True, False), renew_lease w now d)
           else Inr (broke j w ''The worker sent conflicting chunks.'' now d))
        else if expected < pc_seq p \<or> (expected \<noteq> 0 \<and> (case chunk_at i (expected - 1) d of None \<Rightarrow> False | Some s \<Rightarrow> wc_done s))
        then Inr (broke j w ''The worker sent chunks out of order.'' now d)
        else store_piece c j p now d))"

definition submit_chunk :: "relay_config \<Rightarrow> worker_node \<Rightarrow> string \<Rightarrow> wire \<Rightarrow> epoch \<Rightarrow> epoch \<Rightarrow> relay_db \<Rightarrow> worker_error + ((bool \<times> bool) \<times> relay_db)" where
  "submit_chunk c w i body now t db = try_then (parse_piece body) (\<lambda>p. chunk_tx c (wn_id w) i p now t db)"

subsection \<open>The end of a job\<close>

definition reported_count :: "wire \<Rightarrow> string \<Rightarrow> worker_error + int" where
  "reported_count v what =
     (case v of W_Null \<Rightarrow> Inr 0 | W_Int n \<Rightarrow> if 0 \<le> n \<and> n \<le> 2 ^ 31 - 1 then Inr n else Inl (Invalid_Request what) | _ \<Rightarrow> Inl (Invalid_Request what))"

definition IMAGE_TOKEN_ESTIMATE :: int where "IMAGE_TOKEN_ESTIMATE = 765"

definition prompt_token_cap :: "prompt_doc \<Rightarrow> int" where
  "prompt_token_cap doc = PROMPT_ESTIMATE_FACTOR * (\<Sum>(s, images) \<leftarrow> pd_messages doc. int (estimate_tokens s) + IMAGE_TOKEN_ESTIMATE * int images)
     + PROMPT_TOKEN_ALLOWANCE"

definition complete_tx ::
  "relay_config \<Rightarrow> string \<Rightarrow> string \<Rightarrow> int \<Rightarrow> int \<Rightarrow> string \<Rightarrow> epoch \<Rightarrow> epoch \<Rightarrow> relay_db \<Rightarrow> worker_error + ((bool \<times> bool) \<times> relay_db)" where
  "complete_tx c w i tin tout reason now t db =
     (case load_owned w i db of Inl e \<Rightarrow> Inl e
      | Inr j \<Rightarrow>
        if wj_status j = ''done'' then Inr ((True, False), db)
        else (let (mine, d) = job_owned c j w t db in
          if \<not> mine then Inr ((False, True), d)
          else if wj_next j = 0 \<or> (case chunk_at i (wj_next j - 1) d of None \<Rightarrow> True | Some s \<Rightarrow> \<not> wc_done s)
          then Inr (broke j w ''The worker ended without a completion marker.'' now d)
          else Inr ((True, False), clear_pause w (snd (finish_job i ''done'' now None (min tin (prompt_token_cap (wj_messages j)))
            (min tout (wj_bytes j + ANSWER_TOKEN_ALLOWANCE)) reason ACTIVE_JOBS d)))))"

definition complete_job :: "relay_config \<Rightarrow> worker_node \<Rightarrow> string \<Rightarrow> wire \<Rightarrow> epoch \<Rightarrow> epoch \<Rightarrow> relay_db \<Rightarrow> worker_error + ((bool \<times> bool) \<times> relay_db)" where
  "complete_job c w i body now t db =
     (case body of W_Object b \<Rightarrow>
        try_then (reported_count (get_field ''tokens_in'' b) ''tokens_in'') (\<lambda>tin.
        try_then (reported_count (get_field ''tokens_out'' b) ''tokens_out'') (\<lambda>tout.
          let rv = get_field ''finish_reason'' b in
          case (if wire_true rv then text_of rv else Some (ascii ''stop'')) of None \<Rightarrow> Inl (Invalid_Request ''finish_reason'')
          | Some s \<Rightarrow> if 32 < length s then Inl (Invalid_Request ''finish_reason'')
              else complete_tx c (wn_id w) i tin tout (if s = ascii ''length'' then ''length'' else ''stop'') now t db))
      | _ \<Rightarrow> Inl (Invalid_Request ''body''))"

text \<open>The failure as one printable line.\<close>

definition failure_line :: "unicode \<Rightarrow> utext \<Rightarrow> utext" where
  "failure_line uc err = one_line (map (\<lambda>ch. if u_printable uc ch then ch else 32) err)"

definition fail_tx :: "unicode \<Rightarrow> string \<Rightarrow> string \<Rightarrow> utext \<Rightarrow> bool \<Rightarrow> epoch \<Rightarrow> relay_db \<Rightarrow> worker_error + ((bool \<times> bool) \<times> relay_db)" where
  "fail_tx uc w i err requeue now db =
     (case load_owned w i db of Inl e \<Rightarrow> Inl e
      | Inr j \<Rightarrow>
        if \<not> job_active j then Inr ((False, True), db)
        else if requeue \<and> wj_next j = 0 \<and> \<not> wj_stop j then Inr ((True, True), snd (give_back j now db))
        else (let msg = failure_line uc err;
                  (n, d) = finish_job i ''failed'' now (Some (if msg = [] then ascii ''The worker failed.'' else take 500 msg)) 0 0 ''stop'' LIVE_JOBS db in
          Inr ((True, True),
            if n \<noteq> 0 \<and> \<not> wj_stop j
            then if request_fault uc msg j then request_faults_add_up j w now (set_fault i ''request'' d) else blame j now d
            else d)))"

definition fail_job :: "unicode \<Rightarrow> worker_node \<Rightarrow> string \<Rightarrow> wire \<Rightarrow> epoch \<Rightarrow> relay_db \<Rightarrow> worker_error + ((bool \<times> bool) \<times> relay_db)" where
  "fail_job uc w i body now db =
     (case body of W_Object b \<Rightarrow>
        (let ev = field_or (W_Text []) ''error'' b in
         case (if ev = W_Null then Some [] else text_of ev, field_or (W_Bool False) ''requeue'' b) of
           (Some err, W_Bool rq) \<Rightarrow> fail_tx uc (wn_id w) i err (rq \<or> u_lowered uc (u_strip err) = ascii ''deferred'') now db
         | _ \<Rightarrow> Inl (Invalid_Request ''error''))
      | _ \<Rightarrow> Inl (Invalid_Request ''body''))"

subsection \<open>Administration and the maintenance job\<close>

definition valid_worker_name :: "utext \<Rightarrow> worker_error + utext" where
  "valid_worker_name s =
     (let name = one_line s in
      if name = [] \<or> MAX_NAME_LENGTH < length name \<or> (\<exists>c \<in> set name. c < 32) then Inl (Invalid_Request ''name'') else Inr name)"

text \<open>\<open>w\<close> and \<open>token\<close>: the random id and secret; only the secret's hash is stored.\<close>

definition register_worker :: "(string \<Rightarrow> string) \<Rightarrow> utext \<Rightarrow> string \<Rightarrow> string \<Rightarrow> stamp \<Rightarrow> relay_db \<Rightarrow> worker_error + relay_db" where
  "register_worker sha name w token t db = try_then (valid_worker_name name) (\<lambda>n. insert_worker w n (sha (''bcw_'' @ token)) t db)"

definition set_enabled :: "string \<Rightarrow> bool \<Rightarrow> epoch \<Rightarrow> relay_db \<Rightarrow> bool \<times> relay_db" where
  "set_enabled w enable now db =
     (if node_get w db = None then (False, db)
      else let d = set_node_status w (if enable then ''offline'' else ''disabled'') db in
        (True, if enable then clear_pause w d else finish_worker_jobs w ''The worker was disabled.'' now d))"

definition delete_worker :: "string \<Rightarrow> epoch \<Rightarrow> relay_db \<Rightarrow> bool \<times> relay_db" where
  "delete_worker w now db =
     (if node_get w db = None then (False, db) else (True, delete_node w (finish_worker_jobs w ''The worker was removed.'' now db)))"

definition expire_one :: "relay_config \<Rightarrow> epoch \<Rightarrow> nat \<times> relay_db \<Rightarrow> worker_job \<Rightarrow> nat \<times> relay_db" where
  "expire_one c now st j =
     (if lease_expired j now (lease_seconds c) (rc_first_token c)
      then let (n, d) = end_job (wj_id j) ''timeout'' now ''The worker stopped responding.'' ACTIVE_JOBS (snd st) in
        if n \<noteq> 0 then (fst st + 1, lease_ran_out c j now d) else (fst st, d)
      else st)"

text \<open>The two transactions of \<open>maintain\<close>, which read the clock once.\<close>

definition maintain_expire :: "relay_config \<Rightarrow> epoch \<Rightarrow> relay_db \<Rightarrow> nat \<times> relay_db" where
  "maintain_expire c now db =
     (let (a, d1) = expire_pending (now - max 120 (rc_claim c * 3)) now db;
          (b, d2) = foldl (expire_one c now) (a, d1) (active_jobs d1);
          (e, d3) = expire_created_before (now - (rc_generation c + 120)) now d2
      in (b + e, d3))"

definition maintain_forget :: "epoch \<Rightarrow> relay_db \<Rightarrow> (nat \<times> nat) \<times> relay_db" where
  "maintain_forget now db =
     (let d1 = scrub_terminal db; (chunks, d2) = delete_orphan_chunks (now - 600) d1;
          (purged, d3) = delete_terminal_before (now - PURGE_AFTER_SECONDS) d2
      in ((chunks, purged), d3))"

section \<open>What happens to a job\<close>

text \<open>
  Every change of a job's row apart from a claim and a piece is one of these moves: a sign of life, back to
  the pool, an end (with or without usage), a fault recorded, the prompt cleared, the worker removed.
\<close>

inductive job_move :: "worker_job \<Rightarrow> worker_job \<Rightarrow> bool" where
  Move_Beat: "job_active j \<Longrightarrow> \<not> wj_stop j \<Longrightarrow> job_move j (j\<lparr>wj_beat := Some t\<rparr>)"
| Move_Back: "job_active j \<Longrightarrow> \<not> wj_stop j \<Longrightarrow> wj_next j = 0 \<Longrightarrow> wj_requeues j < MAX_REQUEUES \<Longrightarrow>
    job_move j (j\<lparr>wj_status := ''pending'', wj_deferred := wj_worker j, wj_worker := None, wj_claimed := None, wj_beat := Some t,
      wj_requeues := wj_requeues j + 1\<rparr>)"
| Move_End: "job_live j \<Longrightarrow> st \<in> set TERMINAL_JOBS \<Longrightarrow> tin \<le> prompt_token_cap (wj_messages j) \<Longrightarrow> tout \<le> max 0 (wj_bytes j + ANSWER_TOKEN_ALLOWANCE) \<Longrightarrow>
    job_move j ((ended_row st t err j)\<lparr>wj_in := tin, wj_out := tout, wj_finish := reason\<rparr>)"
| Move_Stop: "job_live j \<Longrightarrow> st \<in> set TERMINAL_JOBS \<Longrightarrow> job_move j (ended_row st t err j)"
| Move_Fault: "job_move j (j\<lparr>wj_fault := Some f\<rparr>)"
| Move_Scrub: "job_over j \<Longrightarrow> job_move j (j\<lparr>wj_messages := no_prompt, wj_options := None\<rparr>)"
| Move_Alone: "job_move j (j\<lparr>wj_worker := None\<rparr>)"

abbreviation job_moves :: "worker_job \<Rightarrow> worker_job \<Rightarrow> bool" where
  "job_moves \<equiv> job_move\<^sup>*\<^sup>*"

lemmas job_states = ACTIVE_JOBS_def LIVE_JOBS_def TERMINAL_JOBS_def

lemma active_live: "job_active j \<Longrightarrow> job_live j" by (auto simp: job_states)
lemma over_not_live: "job_over j \<Longrightarrow> \<not> job_live j" by (auto simp: job_states)
lemma over_not_active: "job_over j \<Longrightarrow> \<not> job_active j" by (auto simp: job_states)

definition calm :: "relay_db \<Rightarrow> relay_db \<Rightarrow> bool" where
  "calm db d \<longleftrightarrow> list_all2 job_moves (wjobs db) (wjobs d) \<and> wchunks d = wchunks db"

lemma calm_refl [simp, intro]: "calm db db"
  by (simp add: calm_def list_all2_same)

lemma calm_trans [trans]: "calm a b \<Longrightarrow> calm b c \<Longrightarrow> calm a c"
  by (auto simp: calm_def elim: list_all2_trans [rotated])

lemma update_calm: "(\<And>j. j \<in> set (wjobs db) \<Longrightarrow> p j \<Longrightarrow> job_move j (f j)) \<Longrightarrow> calm db (update_jobs p f db)"
  by (auto simp: calm_def update_jobs_def tbl_update_def list.rel_map intro!: list.rel_refl_strong)


lemma cap_nonneg: "0 \<le> prompt_token_cap doc"
proof -
  have "0 \<le> (\<Sum>(s, images) \<leftarrow> ms. int (estimate_tokens s) + IMAGE_TOKEN_ESTIMATE * int images)" for ms
    by (induction ms) (auto simp: IMAGE_TOKEN_ESTIMATE_def)
  then show ?thesis by (simp add: prompt_token_cap_def PROMPT_ESTIMATE_FACTOR_def PROMPT_TOKEN_ALLOWANCE_def)
qed

lemma end_calm:
  assumes "set from \<subseteq> set LIVE_JOBS" "st \<in> set TERMINAL_JOBS" "tin \<le> 0" "tout \<le> 0"
  shows "calm db (snd (finish_job i st now err tin tout reason from db))"
proof -
  have "job_move j ((ended_row st now err j)\<lparr>wj_in := tin, wj_out := tout, wj_finish := reason\<rparr>)" if "wj_status j \<in> set from" for j
    using assms that cap_nonneg [of "wj_messages j"] by (intro Move_End) auto
  then show ?thesis unfolding finish_job_def Let_def snd_conv by (intro update_calm) blast
qed

lemma pool_calm: "calm db (snd (end_job i ''failed'' now err LIVE_JOBS db))" "calm db (snd (end_job i ''failed'' now err ACTIVE_JOBS db))"
  "calm db (snd (end_job i ''timeout'' now err LIVE_JOBS db))" "calm db (snd (end_job i ''timeout'' now err ACTIVE_JOBS db))"
  "calm db (snd (end_job i ''failed'' now err [''pending''] db))"
  "calm db (snd (finish_job i ''failed'' now e 0 0 ''stop'' LIVE_JOBS db))" "calm db (snd (finish_job i ''done'' now e 0 0 ''length'' ACTIVE_JOBS db))"
  by (rule end_calm; simp add: job_states)+

lemma fault_calm: "calm db (set_fault i f db)"
  unfolding set_fault_def by (rule update_calm) (rule Move_Fault)

lemma node_calm [simp]: "calm db (update_node w f db)" "calm db (touch_node w t db)" "calm db (clear_pause w db)" "calm db (pause_node w n t db)"
  "calm db (record_heartbeat w now st gpu util ollama caps activity platform db)" "calm db (set_system w s db)" "calm db (set_node_status w st db)"
  by (simp_all add: calm_def update_node_def touch_node_def clear_pause_def pause_node_def record_heartbeat_def set_system_def set_node_status_def list_all2_same)

lemma penalize_calm [simp]: "calm db (penalize w now db)"
  by (simp add: penalize_def Let_def split: option.split)

lemma misbehaved_calm: "calm db (misbehaved j w now db)"
  unfolding misbehaved_def by (rule calm_trans [OF fault_calm penalize_calm])

lemma blame_calm: "calm db (blame j now db)"
  using calm_trans [OF fault_calm penalize_calm] by (simp add: blame_def fault_calm)

lemma add_up_calm: "calm db (request_faults_add_up j w now db)"
  by (simp add: request_faults_add_up_def)

lemma lease_calm: "calm db (lease_ran_out c j now db)"
  by (simp add: lease_ran_out_def blame_calm)

lemma renew_calm: "calm db (renew_lease w now db)"
  unfolding renew_lease_def by (rule update_calm) (auto intro: Move_Beat)

lemma stop_calm: "st \<in> set TERMINAL_JOBS \<Longrightarrow> (\<And>j. p j \<Longrightarrow> job_live j) \<Longrightarrow> calm db (update_jobs p (ended_row st now err) db)"
  by (rule update_calm) (auto intro: Move_Stop)

lemma expire_calm: "calm db (snd (expire_pending b now db))" "calm db (snd (expire_created_before b now db))" "calm db (finish_worker_jobs w e now db)"
  unfolding expire_pending_def expire_created_before_def finish_worker_jobs_def Let_def snd_conv
  by (rule stop_calm; auto simp: job_states)+

lemma delete_node_calm: "calm db (delete_node w db)"
proof -
  have "calm db (update_jobs (\<lambda>j. wj_worker j = Some w) (\<lambda>j. j\<lparr>wj_worker := None\<rparr>) db)" by (rule update_calm) (rule Move_Alone)
  then show ?thesis by (simp add: calm_def delete_node_def update_jobs_def)
qed

lemma scrub_calm: "calm db (scrub_terminal db)"
  unfolding scrub_terminal_def by (rule update_calm) (auto intro: Move_Scrub)

text \<open>
  The tables as an abstract machine: jobs move, a free worker claims one, the next piece of a job is stored,
  ended jobs are purged and read pieces dropped. Every operation of the code but the insertion of a new job
  is a sequence of these steps; the label is the piece stored.
\<close>

definition free_worker :: "string \<Rightarrow> relay_db \<Rightarrow> bool" where
  "free_worker w db \<longleftrightarrow> active_jobs_of w db = []"

definition new_job :: "worker_job \<Rightarrow> bool" where
  "new_job j \<longleftrightarrow> wj_status j = ''pending'' \<and> \<not> wj_stop j \<and> wj_worker j = None \<and> wj_next j = 0 \<and> wj_bytes j = 0 \<and> wj_in j = 0 \<and> wj_out j = 0 \<and>
     wj_requeues j = 0"

definition next_piece :: "int \<Rightarrow> worker_chunk \<Rightarrow> relay_db \<Rightarrow> bool" where
  "next_piece most c db \<longleftrightarrow>
     (\<exists>j. job_get (wc_job c) db = Some j \<and> job_active j \<and> wc_seq c = wj_next j \<and> wj_bytes j + bytes_of (wc_text c) (wc_thinking c) \<le> most \<and>
       (wj_next j \<noteq> 0 \<longrightarrow> (case chunk_at (wj_id j) (wj_next j - 1) db of None \<Rightarrow> True | Some s \<Rightarrow> \<not> wc_done s)))"

definition piece_stored :: "worker_chunk \<Rightarrow> epoch \<Rightarrow> relay_db \<Rightarrow> relay_db" where
  "piece_stored c now db = advance (wc_job c) (bytes_of (wc_text c) (wc_thinking c)) now (db\<lparr>wchunks := wchunks db @ [c]\<rparr>)"

text \<open>A piece that is dropped is not the last one of a job at work.\<close>

definition droppable :: "relay_db \<Rightarrow> worker_chunk \<Rightarrow> bool" where
  "droppable db c \<longleftrightarrow> (\<forall>j \<in> set (wjobs db). wj_id j = wc_job c \<longrightarrow> job_active j \<longrightarrow> wc_seq c < wj_next j - 1)"

inductive db_move :: "int \<Rightarrow> relay_db \<Rightarrow> worker_chunk option \<Rightarrow> relay_db \<Rightarrow> bool" for most where
  Calm: "calm db d \<Longrightarrow> db_move most db None d"
| Claimed: "free_worker w db \<Longrightarrow> db_move most db None (snd (set_claimed i w now db))"
| Stored: "next_piece most c db \<Longrightarrow> db_move most db (Some c) (piece_stored c now db)"
| Purged: "db_move most db None (snd (delete_terminal_before t db))"
| Dropped: "\<forall>c \<in> set (wchunks db). p c \<longrightarrow> droppable db c \<Longrightarrow> db_move most db None (db\<lparr>wchunks := tbl_delete p (wchunks db)\<rparr>)"

inductive db_moves :: "int \<Rightarrow> relay_db \<Rightarrow> worker_chunk list \<Rightarrow> relay_db \<Rightarrow> bool" for most where
  Stay: "db_moves most db [] db"
| Move: "db_move most db l d \<Longrightarrow> db_moves most d cs e \<Longrightarrow> db_moves most db (case l of None \<Rightarrow> cs | Some c \<Rightarrow> c # cs) e"

lemma one_move: "db_move most db None d \<Longrightarrow> db_moves most db [] d"
  using Move [of most db None d "[]" d] by (simp add: Stay)

lemma one_piece: "db_move most db (Some c) d \<Longrightarrow> db_moves most db [c] d"
  using Move [of most db "Some c" d "[]" d] by (simp add: Stay)

lemma moves_trans: "db_moves most a cs b \<Longrightarrow> db_moves most b ds c \<Longrightarrow> db_moves most a (cs @ ds) c"
proof (induction rule: db_moves.induct)
  case (Move db l d cs e)
  then show ?case using db_moves.Move [OF Move.hyps(1)] by (cases l) force+
qed simp

lemma calm_moves: "calm db d \<Longrightarrow> db_moves most db [] d"
  by (rule one_move) (rule Calm)

text \<open>The tables of jobs and pieces: unique ids, and nobody goes back to the pool too often.\<close>

definition jobs_wf :: "relay_db \<Rightarrow> bool" where
  "jobs_wf db \<longleftrightarrow> distinct (map wj_id (wjobs db)) \<and> (\<forall>j \<in> set (wjobs db). job_live j \<longrightarrow> \<not> wj_stop j)"

lemma job_move_id: "job_move j k \<Longrightarrow> wj_id k = wj_id j \<and> (job_live k \<longrightarrow> \<not> wj_stop k \<or> job_live j \<and> wj_stop k = wj_stop j)"
  by (induction rule: job_move.induct) (auto simp: ended_row_def job_states)

lemma job_moves_id: "job_moves j k \<Longrightarrow> wj_id k = wj_id j \<and> (job_live k \<longrightarrow> \<not> wj_stop k \<or> job_live j \<and> wj_stop k = wj_stop j)"
  by (induction rule: rtranclp_induct) (auto dest!: job_move_id)

lemma calm_ids: "calm db d \<Longrightarrow> map wj_id (wjobs d) = map wj_id (wjobs db)"
proof -
  assume "calm db d"
  then have "list_all2 job_moves (wjobs db) (wjobs d)" by (simp add: calm_def)
  then show ?thesis by (induction rule: list_all2_induct) (auto dest: job_moves_id)
qed

lemma calm_rowE:
  assumes "calm db d" "k \<in> set (wjobs d)"
  obtains j where "j \<in> set (wjobs db)" "job_moves j k"
proof -
  from assms obtain i where "i < length (wjobs d)" "k = wjobs d ! i" by (auto simp: in_set_conv_nth)
  with assms(1) have "wjobs db ! i \<in> set (wjobs db)" "job_moves (wjobs db ! i) k" by (auto simp: calm_def list_all2_conv_all_nth)
  then show thesis by (rule that)
qed

lemma calm_wf: "jobs_wf db \<Longrightarrow> calm db d \<Longrightarrow> jobs_wf d"
  unfolding jobs_wf_def using calm_ids [of db d] by (auto elim!: calm_rowE dest!: job_moves_id)

text \<open>Operations on one job leave the rows of the others.\<close>

definition only_job :: "string \<Rightarrow> relay_db \<Rightarrow> relay_db \<Rightarrow> bool" where
  "only_job i db d \<longleftrightarrow> (\<forall>k \<in> set (wjobs db). wj_id k \<noteq> i \<longrightarrow> k \<in> set (wjobs d))"

lemma only_refl [simp, intro]: "only_job i db db"
  by (simp add: only_job_def)

lemma only_trans: "only_job i a b \<Longrightarrow> only_job i b c \<Longrightarrow> only_job i a c"
  by (auto simp: only_job_def)

lemma update_only: "(\<And>j. p j \<Longrightarrow> wj_id j = i) \<Longrightarrow> only_job i db (update_jobs p f db)"
  by (auto simp: only_job_def update_jobs_def set_tbl_update image_iff)

lemma finish_only: "only_job i db (snd (finish_job i st now err tin tout reason from db))"
  unfolding finish_job_def Let_def snd_conv by (rule update_only) simp

lemma nodes_only: "wjobs d = wjobs db \<Longrightarrow> only_job i db d"
  by (simp add: only_job_def)

lemma penalize_jobs [simp]: "wjobs (penalize w now db) = wjobs db"
  by (simp add: penalize_def pause_node_def update_node_def Let_def split: option.split)

lemma misbehaved_only: "only_job (wj_id j) db (misbehaved j w now db)"
  by (rule only_trans [OF _ nodes_only]) (auto simp: misbehaved_def set_fault_def intro: update_only)

lemma row_of_id: "jobs_wf d \<Longrightarrow> j \<in> set (wjobs d) \<Longrightarrow> k \<in> set (wjobs d) \<Longrightarrow> wj_id k = wj_id j \<Longrightarrow> k = j"
  unfolding jobs_wf_def by (blast intro: distinct_key_eq)

lemma give_back_calm:
  assumes "jobs_wf db" "j \<in> set (wjobs db)"
  shows "calm db (snd (give_back j now db)) \<and> only_job (wj_id j) db (snd (give_back j now db))"
proof (cases "MAX_REQUEUES \<le> wj_requeues j")
  case True
  then show ?thesis by (simp add: give_back_def pool_calm finish_only)
next
  case False
  have "calm db (snd (requeue_job (wj_id j) now db))"
    unfolding requeue_job_def Let_def snd_conv
  proof (rule update_calm)
    fix k assume k: "k \<in> set (wjobs db)" "wj_id k = wj_id j \<and> job_active k \<and> \<not> wj_stop k \<and> wj_next k = 0"
    then have "k = j" using row_of_id [OF assms] by blast
    with False k(2) show "job_move k (k\<lparr>wj_status := ''pending'', wj_deferred := wj_worker k, wj_worker := None, wj_claimed := None,
        wj_beat := Some now, wj_requeues := wj_requeues k + 1\<rparr>)" by (intro Move_Back) auto
  qed
  moreover have "only_job (wj_id j) db (snd (requeue_job (wj_id j) now db))"
    unfolding requeue_job_def Let_def snd_conv by (rule update_only) simp
  ultimately show ?thesis using False by (simp add: give_back_def case_prod_beta)
qed

definition at_rest :: "string \<Rightarrow> relay_db \<Rightarrow> bool" where
  "at_rest i db \<longleftrightarrow> (\<forall>k \<in> set (wjobs db). wj_id k = i \<longrightarrow> \<not> job_active k)"

lemma job_move_active: "job_move j k \<Longrightarrow> job_active k \<Longrightarrow> job_active j"
  by (induction rule: job_move.induct) (auto simp: ended_row_def job_states)

lemma job_moves_active: "job_moves j k \<Longrightarrow> job_active k \<Longrightarrow> job_active j"
  by (induction rule: rtranclp_induct) (auto dest: job_move_active)

lemma job_moves_worker: "job_moves j k \<Longrightarrow> wj_worker k = Some w \<Longrightarrow> wj_worker j = Some w"
  by (induction rule: rtranclp_induct) (auto elim!: job_move.cases simp: ended_row_def)

lemma calm_rest: "calm db d \<Longrightarrow> at_rest i db \<Longrightarrow> at_rest i d"
  unfolding at_rest_def by (metis calm_rowE job_moves_id job_moves_active)

lemma fold_calm:
  assumes step: "\<And>d j. jobs_wf d \<Longrightarrow> j \<in> set (wjobs d) \<Longrightarrow> P j \<Longrightarrow> calm d (f d j) \<and> only_job (wj_id j) d (f d j) \<and> (Q \<longrightarrow> at_rest (wj_id j) (f d j))"
  shows "jobs_wf d \<Longrightarrow> distinct (map wj_id js) \<Longrightarrow> set js \<subseteq> set (wjobs d) \<Longrightarrow> (\<forall>j \<in> set js. P j) \<Longrightarrow>
    calm d (foldl f d js) \<and> (Q \<longrightarrow> (\<forall>j \<in> set js. at_rest (wj_id j) (foldl f d js)))"
proof (induction js arbitrary: d)
  case (Cons j js)
  let ?d = "f d j"
  have s: "calm d ?d" "only_job (wj_id j) d ?d" "Q \<longrightarrow> at_rest (wj_id j) ?d" using step [of d j] Cons.prems by auto
  have "jobs_wf ?d" using Cons.prems(1) s(1) by (rule calm_wf)
  moreover have "set js \<subseteq> set (wjobs ?d)"
  proof
    fix k assume k: "k \<in> set js"
    with Cons.prems(2) have "wj_id k \<noteq> wj_id j" by (metis distinct.simps(2) image_eqI list.simps(9) list.set_map)
    with k s(2) Cons.prems(3) show "k \<in> set (wjobs ?d)" by (auto simp: only_job_def)
  qed
  ultimately have rest: "calm ?d (foldl f ?d js) \<and> (Q \<longrightarrow> (\<forall>j \<in> set js. at_rest (wj_id j) (foldl f ?d js)))"
    using Cons.IH [of ?d] Cons.prems(2,4) by simp
  with s show ?case by (auto intro: calm_trans calm_rest)
qed simp

lemma active_snapshot: "jobs_wf db \<Longrightarrow> distinct (map wj_id (active_jobs_of w db)) \<and> set (active_jobs_of w db) \<subseteq> set (wjobs db)"
  by (auto simp: active_jobs_of_def jobs_wf_def distinct_map_filter)

lemma hand_back_calm: "jobs_wf db \<Longrightarrow> calm db (hand_back w now db)"
  unfolding hand_back_def
  using fold_calm [where P = "\<lambda>_. True" and Q = False and f = "\<lambda>d j. if wj_next j = 0 then snd (give_back j now d) else d" and d = db and js = "active_jobs_of w db"]
    active_snapshot [of db w] give_back_calm by simp

lemma heartbeat_calm:
  assumes "jobs_wf db"
  shows "calm db (snd (heartbeat_tx w st activity gpu util ollama caps platform system job now db))"
proof -
  let ?d = "set_system w system (record_heartbeat w now st gpu util ollama caps activity platform db)"
  have d: "calm db ?d" by (rule calm_trans [of _ "record_heartbeat w now st gpu util ollama caps activity platform db"]) simp_all
  then have wf: "jobs_wf ?d" by (rule calm_wf [OF assms])
  show ?thesis unfolding heartbeat_tx_def Let_def snd_conv
    using calm_trans [OF d renew_calm] calm_trans [OF calm_trans [OF d hand_back_calm [OF wf]] renew_calm]
    by (cases "st \<noteq> ''online'' \<or> activity = Some ''gaming''") (simp_all only: if_True if_False)
qed

lemma give_back_rest:
  assumes "jobs_wf db" "j \<in> set (wjobs db)" "job_active j" "wj_next j = 0"
  shows "at_rest (wj_id j) (snd (give_back j now db))"
proof -
  have "\<not> wj_stop j" using assms active_live by (auto simp: jobs_wf_def)
  have *: "k = j" if "k \<in> set (wjobs db)" "wj_id k = wj_id j" for k using row_of_id [OF assms(1,2)] that by simp
  show ?thesis
    using assms(3,4) \<open>\<not> wj_stop j\<close>
    by (auto simp: give_back_def at_rest_def finish_job_def requeue_job_def update_jobs_def set_tbl_update ended_row_def job_states Let_def dest!: *)
qed

lemma abandon_step:
  assumes "jobs_wf d" "j \<in> set (wjobs d)" "job_active j"
  shows "calm d (abandon_one w now d j) \<and> only_job (wj_id j) d (abandon_one w now d j) \<and> at_rest (wj_id j) (abandon_one w now d j)"
proof (cases "wj_next j = 0")
  case True
  then show ?thesis using give_back_calm [OF assms(1,2)] give_back_rest [OF assms] by (simp add: abandon_one_def)
next
  case False
  let ?e = "snd (end_job (wj_id j) ''failed'' now ''The worker abandoned the job.'' LIVE_JOBS d)"
  have "calm d ?e" by (rule pool_calm)
  moreover have "at_rest (wj_id j) ?e"
    using row_of_id [OF assms(1,2)] assms(3)
    by (auto simp: at_rest_def finish_job_def update_jobs_def set_tbl_update ended_row_def job_states Let_def)
  moreover have "calm ?e (misbehaved j w now ?e)" by (rule misbehaved_calm)
  moreover have "only_job (wj_id j) d ?e" by (rule finish_only)
  ultimately show ?thesis using False
    by (auto simp: abandon_one_def case_prod_beta intro: calm_trans calm_rest only_trans [OF _ misbehaved_only])
qed

lemma abandon_calm:
  assumes "jobs_wf db"
  shows "calm db (abandon w now db) \<and> free_worker w (abandon w now db)"
proof -
  have js: "distinct (map wj_id (active_jobs_of w db))" "set (active_jobs_of w db) \<subseteq> set (wjobs db)" "\<forall>j \<in> set (active_jobs_of w db). job_active j"
    using active_snapshot [OF assms, of w] by (auto simp: active_jobs_of_def)
  have f: "calm db (abandon w now db) \<and> (True \<longrightarrow> (\<forall>j \<in> set (active_jobs_of w db). at_rest (wj_id j) (abandon w now db)))"
    unfolding abandon_def using abandon_step by (intro fold_calm [where P = job_active, OF _ assms js]) auto
  have "\<not> job_active k" if "k \<in> set (wjobs (abandon w now db))" "wj_worker k = Some w" for k
  proof
    assume a: "job_active k"
    from f that(1) obtain j where j: "j \<in> set (wjobs db)" "job_moves j k" by (blast elim: calm_rowE)
    with a that(2) have "j \<in> set (active_jobs_of w db)" using job_moves_active [of j k] job_moves_worker [of j k w] by (simp add: active_jobs_of_def)
    with f j a that(1) show False by (auto simp: at_rest_def dest: job_moves_id)
  qed
  with f show ?thesis by (auto simp: free_worker_def active_jobs_of_def filter_empty_conv)
qed

subsection \<open>Every operation is a sequence of these steps\<close>

lemma claim_cases:
  assumes wf: "jobs_wf db" and c: "claim_tx w ms reserve now db = Inr (res, d)"
  obtains (idle) "res = None" "calm db d"
  | (claim) j where "res = Some (job_payload j)" "calm db (abandon (wn_id w) now db)" "free_worker (wn_id w) (abandon (wn_id w) now db)"
      "next_pending (map_option alias_set ms) (Some (wn_id w)) (Some (now - USER_FAULT_SECONDS)) (ascii ''think'' \<in> set (worker_features w))
        (abandon (wn_id w) now db) = Some j"
      "d = snd (set_claimed (wj_id j) (wn_id w) now (abandon (wn_id w) now db))"
      "fst (set_claimed (wj_id j) (wn_id w) now (abandon (wn_id w) now db)) \<noteq> 0"
      "\<exists>n. node_get (wn_id w) db = Some n \<and> wn_status n \<noteq> ''disabled''"
      "\<not> (case node_get (wn_id w) (abandon (wn_id w) now db) of None \<Rightarrow> False | Some n \<Rightarrow> paused n now)"
proof -
  note ab = abandon_calm [OF wf, of "wn_id w" now]
  let ?d = "abandon (wn_id w) now db"
  from c obtain n where n: "node_get (wn_id w) db = Some n" "wn_status n \<noteq> ''disabled''"
    by (auto simp: claim_tx_def split: option.splits if_split_asm)
  show thesis
  proof (cases "(case node_get (wn_id w) ?d of None \<Rightarrow> False | Some n \<Rightarrow> paused n now)")
    case True
    with c n have "res = None \<and> d = ?d" by (simp add: claim_tx_def Let_def)
    with ab show ?thesis by (intro idle) auto
  next
    case p: False
    show ?thesis
    proof (cases "next_pending (map_option alias_set ms) (Some (wn_id w)) (Some (now - USER_FAULT_SECONDS))
        (ascii ''think'' \<in> set (worker_features w)) ?d")
      case None
      with c n p have "res = None \<and> d = ?d" by (simp add: claim_tx_def Let_def)
      with ab show ?thesis by (intro idle) auto
    next
      case (Some j)
      let ?s = "set_claimed (wj_id j) (wn_id w) now ?d"
      from c n p Some have *: "if \<not> reserve (payload_bound j) then res = None \<and> d = ?d
          else res = (if fst ?s = 0 then None else Some (job_payload j)) \<and> d = snd ?s"
        by (auto simp: claim_tx_def Let_def case_prod_beta split: if_split_asm)
      show ?thesis
      proof (cases "reserve (payload_bound j) \<and> fst ?s \<noteq> 0")
        case True
        with * ab n p Some show ?thesis by (intro claim [of j]) auto
      next
        case False
        then have "res = None \<and> wjobs d = wjobs ?d \<and> wchunks d = wchunks ?d"
          using * by (auto simp: set_claimed_def update_jobs_def Let_def tbl_count_0_iff split: if_split_asm)
        with ab show ?thesis by (intro idle) (auto simp: calm_def)
      qed
    qed
  qed
qed

lemma claim_moves: "jobs_wf db \<Longrightarrow> claim_tx w ms reserve now db = Inr (res, d) \<Longrightarrow> db_moves most db [] d"
  by (erule (1) claim_cases) (use moves_trans [of most db "[]" _ "[]"] in \<open>auto intro: calm_moves one_move Claimed\<close>)

lemma poll_moves:
  assumes "jobs_wf db" "poll_once w ms reserve t now db = Inr (res, d)"
  shows "db_moves most db [] d"
proof -
  have c: "calm db (touch_node (wn_id w) t db)" by simp
  note m = moves_trans [OF calm_moves [OF c], of most "[]", simplified]
  show ?thesis
    using assms(2) m [OF claim_moves [OF calm_wf [OF assms(1) c]]] m [OF Stay]
    by (auto simp: poll_once_def Let_def split: if_split_asm sum.splits)
qed

lemma owned_calm: "calm db (snd (job_owned c j w now db))"
  using calm_trans [OF pool_calm(3) lease_calm] pool_calm(3) by (simp add: job_owned_def case_prod_beta)

lemma owned_same: "job_owned c j w now db = (True, d) \<Longrightarrow> d = db \<and> job_active j \<and> \<not> wj_stop j \<and> wj_worker j = Some w"
  by (auto simp: job_owned_def case_prod_beta split: if_split_asm)

lemma broke_calm: "calm db (snd (broke j w e now db))"
  unfolding broke_def snd_conv by (rule calm_trans [OF pool_calm(1) misbehaved_calm])

lemma insert_chunk_Inr: "insert_chunk i n s f now th db = Inr d \<longleftrightarrow> chunk_at i n db = None \<and>
    d = db\<lparr>wchunks := wchunks db @ [\<lparr>wc_job = i, wc_seq = n, wc_text = s, wc_done = f, wc_created = now, wc_thinking = th\<rparr>]\<rparr>"
  by (auto simp: insert_chunk_def)

lemma utf8_take_bytes: "text_bytes (utf8_take n s) \<le> n"
  by (induction n s rule: utf8_take.induct) (auto simp: text_bytes_def)

lemma truncate_bytes: "0 \<le> n \<Longrightarrow> int (text_bytes (truncate_utf8 s n)) \<le> n"
  using utf8_take_bytes [of "nat n" s] by (simp add: truncate_utf8_def)

text \<open>The pieces an operation appended.\<close>

definition appended :: "relay_db \<Rightarrow> relay_db \<Rightarrow> worker_chunk list" where
  "appended db d = drop (length (wchunks db)) (wchunks d)"

lemma appended_same: "wchunks d = wchunks db \<Longrightarrow> appended db d = []"
  by (simp add: appended_def)

lemma calm_appended: "calm db d \<Longrightarrow> db_moves most db (appended db d) d"
  by (simp add: appended_same calm_def calm_moves)

lemma advance_chunks [simp]: "wchunks (advance i n t db) = wchunks db" "wchunks (snd (finish_job i st now e a b r f db)) = wchunks db"
  by (simp_all add: advance_def finish_job_def update_jobs_def Let_def)

lemma stored_moves:
  assumes "next_piece most p db" "d = piece_stored p now db \<or> d = snd (finish_job i ''done'' t None 0 0 ''length'' ACTIVE_JOBS (piece_stored p now db))"
  shows "db_moves most db (appended db d) d"
proof -
  have "appended db d = [p]" using assms(2) by (auto simp: appended_def piece_stored_def)
  moreover have "db_moves most db [p] (piece_stored p now db)" by (rule one_piece) (rule Stored [OF assms(1)])
  moreover have "db_moves most db [p] (snd (finish_job i ''done'' t None 0 0 ''length'' ACTIVE_JOBS (piece_stored p now db)))"
    using moves_trans [OF calculation(2) calm_moves [OF pool_calm(7)]] by simp
  ultimately show ?thesis using assms(2) by auto
qed

lemma store_moves:
  assumes store: "store_piece c j p now db = Inr (res, d)" and j: "job_get i db = Some j" "job_active j" "pc_seq p = wj_next j"
    and room: "wj_bytes j \<le> rc_max_bytes c"
    and before: "wj_next j \<noteq> 0 \<longrightarrow> (case chunk_at i (wj_next j - 1) db of None \<Rightarrow> True | Some s \<Rightarrow> \<not> wc_done s)"
  shows "db_moves (rc_max_bytes c) db (appended db d) d"
proof -
  have id: "wj_id j = i" using j(1) by (auto simp: job_get_def dest: tbl_one_SomeD)
  let ?budget = "rc_max_bytes c - wj_bytes j"
  show ?thesis
  proof (cases "?budget < bytes_of (pc_text p) (pc_thinking p)")
    case True
    define th where "th = truncate_utf8 (pc_thinking p) ?budget"
    define tx where "tx = truncate_utf8 (pc_text p) (?budget - int (text_bytes th))"
    have "int (text_bytes th) \<le> ?budget" unfolding th_def using room by (intro truncate_bytes) simp
    moreover from this have "int (text_bytes tx) \<le> ?budget - int (text_bytes th)" unfolding tx_def by (intro truncate_bytes) simp
    ultimately have b: "wj_bytes j + bytes_of tx th \<le> rc_max_bytes c" by (simp add: bytes_of_def)
    let ?p = "\<lparr>wc_job = i, wc_seq = pc_seq p, wc_text = tx, wc_done = True, wc_created = now, wc_thinking = th\<rparr>"
    have "d = snd (finish_job i ''done'' now None 0 0 ''length'' ACTIVE_JOBS (piece_stored ?p now db))"
      using store True by (auto simp: store_piece_def Let_def id map_sum_Inr insert_chunk_Inr piece_stored_def th_def tx_def)
    moreover have "next_piece (rc_max_bytes c) ?p db" using j b before by (simp add: next_piece_def id)
    ultimately show ?thesis by (intro stored_moves) auto
  next
    case False
    let ?p = "\<lparr>wc_job = i, wc_seq = pc_seq p, wc_text = pc_text p, wc_done = pc_done p, wc_created = now, wc_thinking = pc_thinking p\<rparr>"
    have "d = piece_stored ?p now db"
      using store False by (auto simp: store_piece_def Let_def id map_sum_Inr insert_chunk_Inr piece_stored_def)
    moreover have "next_piece (rc_max_bytes c) ?p db" using j False before by (simp add: next_piece_def id)
    ultimately show ?thesis by (intro stored_moves) auto
  qed
qed

lemma chunk_moves:
  assumes c: "chunk_tx c w i p now t db = Inr (res, d)" and room: "\<forall>j \<in> set (wjobs db). wj_bytes j \<le> rc_max_bytes c"
  shows "db_moves (rc_max_bytes c) db (appended db d) d"
proof -
  from c obtain j where j: "job_get i db = Some j" "wj_worker j = Some w" by (auto simp: chunk_tx_def load_owned_def split: option.splits if_split_asm)
  have id: "wj_id j = i" and "j \<in> set (wjobs db)" using j(1) by (auto simp: job_get_def dest: tbl_one_SomeD)
  obtain mine e where o: "job_owned c j w t db = (mine, e)" by fastforce
  have e: "calm db e" using owned_calm [of db c j w t] o by simp
  show ?thesis
  proof (cases "mine \<and> \<not> pc_seq p < wj_next j \<and>
      \<not> (wj_next j < pc_seq p \<or> (wj_next j \<noteq> 0 \<and> (case chunk_at i (wj_next j - 1) e of None \<Rightarrow> False | Some s \<Rightarrow> wc_done s)))")
    case True
    with o have same: "e = db" "job_active j" by (auto dest: owned_same)
    from True c j o have "store_piece c j p now db = Inr (res, d)"
      by (auto simp: chunk_tx_def load_owned_def same Let_def split: if_split_asm)
    then show ?thesis using True same j(1) room \<open>j \<in> _\<close> by (intro store_moves) (auto split: option.splits)
  next
    case False
    with c j o have "d = e \<or> d = renew_lease w now e \<or> d = snd (broke j w ''The worker sent conflicting chunks.'' now e) \<or>
        d = snd (broke j w ''The worker sent chunks out of order.'' now e)"
      by (auto simp: chunk_tx_def load_owned_def Let_def split: if_split_asm)
    then have "calm db d" using e calm_trans [OF e renew_calm] calm_trans [OF e broke_calm] by auto
    then show ?thesis by (rule calm_appended)
  qed
qed

lemma complete_calm:
  assumes wf: "jobs_wf db" and c: "complete_tx c w i tin tout reason now t db = Inr (res, d)"
  shows "calm db d"
proof -
  from c obtain j where j: "job_get i db = Some j" by (auto simp: complete_tx_def load_owned_def split: option.splits if_split_asm)
  then have in1: "j \<in> set (wjobs db)" "wj_id j = i" by (auto simp: job_get_def dest: tbl_one_SomeD)
  obtain mine e where o: "job_owned c j w t db = (mine, e)" by fastforce
  have e: "calm db e" using owned_calm [of db c j w t] o by simp
  let ?done = "snd (finish_job i ''done'' now None (min tin (prompt_token_cap (wj_messages j))) (min tout (wj_bytes j + ANSWER_TOKEN_ALLOWANCE)) reason ACTIVE_JOBS db)"
  have "calm db ?done" unfolding finish_job_def Let_def snd_conv
  proof (rule update_calm)
    fix k assume k: "k \<in> set (wjobs db)" "wj_id k = i \<and> wj_status k \<in> set ACTIVE_JOBS"
    with row_of_id [OF wf in1(1)] in1(2) have "k = j" by simp
    with k(2) show "job_move k ((ended_row ''done'' now None k)\<lparr>wj_in := min tin (prompt_token_cap (wj_messages j)),
        wj_out := min tout (wj_bytes j + ANSWER_TOKEN_ALLOWANCE), wj_finish := reason\<rparr>)"
      by (intro Move_End) (auto simp: job_states)
  qed
  then have "calm db (clear_pause w ?done)" by (rule calm_trans) simp
  moreover from c j o have "d = db \<or> d = e \<or> (d = snd (broke j w ''The worker ended without a completion marker.'' now e)) \<or> (mine \<and> d = clear_pause w
      (snd (finish_job i ''done'' now None (min tin (prompt_token_cap (wj_messages j))) (min tout (wj_bytes j + ANSWER_TOKEN_ALLOWANCE)) reason ACTIVE_JOBS e)))"
    by (auto simp: complete_tx_def load_owned_def split: if_split_asm)
  ultimately show ?thesis using e o owned_same calm_trans [OF e broke_calm] by (metis calm_refl)
qed

lemma fail_calm:
  assumes wf: "jobs_wf db" and c: "fail_tx uc w i err requeue now db = Inr (res, d)"
  shows "calm db d"
proof -
  from c obtain j where j: "job_get i db = Some j" by (auto simp: fail_tx_def load_owned_def split: option.splits if_split_asm)
  then have in1: "j \<in> set (wjobs db)" by (auto simp: job_get_def dest: tbl_one_SomeD)
  let ?msg = "if failure_line uc err = [] then ascii ''The worker failed.'' else take 500 (failure_line uc err)"
  let ?e = "snd (finish_job i ''failed'' now (Some ?msg) 0 0 ''stop'' LIVE_JOBS db)"
  have "calm db ?e" by (rule pool_calm)
  moreover from c j have "d = db \<or> d = snd (give_back j now db) \<or> d = ?e \<or> d = request_faults_add_up j w now (set_fault i ''request'' ?e) \<or> d = blame j now ?e"
    by (auto simp: fail_tx_def load_owned_def Let_def case_prod_beta split: if_split_asm)
  ultimately show ?thesis using give_back_calm [OF wf in1, of now]
      calm_trans [OF calm_trans [OF \<open>calm db ?e\<close> fault_calm] add_up_calm] calm_trans [OF \<open>calm db ?e\<close> blame_calm] by (elim disjE) simp_all
qed

lemma admin_calm: "calm db (snd (set_enabled w enable now db))" "calm db (snd (delete_worker w now db))"
  "insert_worker w name token st db = Inr d \<Longrightarrow> calm db d"
proof -
  have "calm db (clear_pause w (set_node_status w ''offline'' db))" by (rule calm_trans [OF node_calm(7) node_calm(3)])
  moreover have "calm db (finish_worker_jobs w e now (set_node_status w ''disabled'' db))" for e by (rule calm_trans [OF node_calm(7) expire_calm(3)])
  moreover have "calm db (delete_node w (finish_worker_jobs w e now db))" for e by (rule calm_trans [OF expire_calm(3) delete_node_calm])
  ultimately show "calm db (snd (set_enabled w enable now db))" "calm db (snd (delete_worker w now db))"
    by (simp_all add: set_enabled_def delete_worker_def)
  show "insert_worker w name token st db = Inr d \<Longrightarrow> calm db d"
    by (auto simp: insert_worker_def calm_def list_all2_same split: if_split_asm)
qed

lemma expire_one_calm: "calm (snd st) (snd (expire_one c now st j))"
  using calm_trans [OF pool_calm(4) lease_calm] pool_calm(4) by (simp add: expire_one_def case_prod_beta)

lemma expire_fold_calm: "calm (snd st) (snd (foldl (expire_one c now) st js))"
proof (induction js arbitrary: st)
  case (Cons j js)
  show ?case using calm_trans [OF expire_one_calm Cons.IH] by simp
qed simp

lemma maintain_calm: "calm db (snd (maintain_expire c now db))"
proof -
  obtain a d1 where 1: "expire_pending (now - max 120 (rc_claim c * 3)) now db = (a, d1)" by fastforce
  obtain b d2 where 2: "foldl (expire_one c now) (a, d1) (active_jobs d1) = (b, d2)" by fastforce
  have "calm db d1" using expire_calm(1) [of db _ now] 1 by (metis snd_conv)
  also have "calm d1 d2" using expire_fold_calm [of "(a, d1)" c now "active_jobs d1"] 2 by simp
  also have "calm d2 (snd (expire_created_before (now - (rc_generation c + 120)) now d2))" by (rule expire_calm)
  finally show ?thesis by (simp add: maintain_expire_def 1 2 case_prod_beta)
qed

lemma drop_moves: "\<forall>c \<in> set (wchunks db). p c \<longrightarrow> droppable db c \<Longrightarrow> db_moves most db [] (db\<lparr>wchunks := tbl_delete p (wchunks db)\<rparr>)"
  by (rule one_move) (rule Dropped)

lemma forget_moves:
  assumes "jobs_wf db"
  shows "db_moves most db [] (snd (maintain_forget now db))"
proof -
  let ?d1 = "scrub_terminal db" and ?orphans = "delete_orphan_chunks (now - 600)"
  have wf: "jobs_wf ?d1" by (rule calm_wf [OF assms scrub_calm])
  have "droppable ?d1 c" if "list_ex (\<lambda>j. wj_id j = wc_job c \<and> ended_before b j) (wjobs ?d1) \<or> \<not> list_ex (\<lambda>j. wj_id j = wc_job c) (wjobs ?d1)" for c b
    unfolding droppable_def
  proof (intro ballI impI)
    fix j assume j: "j \<in> set (wjobs ?d1)" "wj_id j = wc_job c" "job_active j"
    with that obtain h where h: "h \<in> set (wjobs ?d1)" "wj_id h = wc_job c" "ended_before b h" by (auto simp: list_ex_iff)
    with row_of_id [OF wf j(1) h(1)] j(2) have "job_over j" by (simp add: ended_before_def)
    with j(3) show "wc_seq c < wj_next j - 1" using over_not_active by blast
  qed
  then have 2: "db_moves most ?d1 [] (snd (?orphans ?d1))" unfolding delete_orphan_chunks_def Let_def snd_conv by (intro drop_moves) blast
  have 1: "db_moves most db [] ?d1" by (rule calm_moves [OF scrub_calm])
  have 3: "db_moves most (snd (?orphans ?d1)) [] (snd (delete_terminal_before (now - PURGE_AFTER_SECONDS) (snd (?orphans ?d1))))"
    by (rule one_move) (rule Purged)
  show ?thesis using moves_trans [OF moves_trans [OF 1 2] 3] by (simp add: maintain_forget_def Let_def case_prod_beta)
qed

lemma fresh_job_new: "new_job (fresh_job i m p options n now u think)" "wj_id (fresh_job i m p options n now u think) = i"
  by (simp_all add: new_job_def fresh_job_def)

lemma insert_new: "insert_job i m p options n now u think db = Inr d \<longleftrightarrow>
    (\<forall>k \<in> set (wjobs db). wj_id k \<noteq> i) \<and> d = db\<lparr>wjobs := wjobs db @ [fresh_job i m p options n now u think]\<rparr>"
  by (auto simp: insert_job_def list_ex_iff)

subsection \<open>Invariants\<close>

text \<open>What a row always satisfies: an ended job has no prompt, and its usage is bounded by its answer.\<close>

definition row_ok :: "worker_job \<Rightarrow> bool" where
  "row_ok j \<longleftrightarrow> (wj_status j = ''pending'' \<longrightarrow> wj_next j = 0) \<and> (job_over j \<longrightarrow> wj_messages j = no_prompt \<and> wj_options j = None) \<and>
     0 \<le> wj_requeues j \<and> wj_requeues j \<le> MAX_REQUEUES \<and> (job_live j \<or> job_over j) \<and> 0 \<le> wj_bytes j \<and>
     wj_out j \<le> max 0 (wj_bytes j + ANSWER_TOKEN_ALLOWANCE)"

lemma job_move_row: "job_move j k \<Longrightarrow> wj_next k = wj_next j \<and> wj_bytes k = wj_bytes j \<and> (row_ok j \<longrightarrow> row_ok k)"
  by (induction rule: job_move.induct) (auto simp: row_ok_def ended_row_def job_states)

lemma job_moves_row: "job_moves j k \<Longrightarrow> wj_next k = wj_next j \<and> wj_bytes k = wj_bytes j \<and> (row_ok j \<longrightarrow> row_ok k)"
  by (induction rule: rtranclp_induct) (auto dest!: job_move_row)

definition holds :: "string \<Rightarrow> relay_db \<Rightarrow> nat" where
  "holds w db = tbl_count (\<lambda>j. wj_worker j = Some w \<and> job_active j) (wjobs db)"

definition pool_ok :: "relay_db \<Rightarrow> bool" where
  "pool_ok db \<longleftrightarrow> jobs_wf db \<and> (\<forall>j \<in> set (wjobs db). row_ok j) \<and> (\<forall>w. holds w db \<le> 1)"

lemma all2_count: "list_all2 R xs ys \<Longrightarrow> (\<And>x y. R x y \<Longrightarrow> p y \<Longrightarrow> p x) \<Longrightarrow> tbl_count p ys \<le> tbl_count p xs"
  by (induction rule: list_all2_induct) (auto simp: tbl_simps add_mono)

lemma calm_pool: "calm db d \<Longrightarrow> pool_ok db \<Longrightarrow> pool_ok d"
proof -
  assume c: "calm db d" and ok: "pool_ok db"
  have "holds w d \<le> holds w db" for w
    unfolding holds_def using c by (intro all2_count [where R = job_moves]) (auto simp: calm_def dest: job_moves_active job_moves_worker)
  then have "\<forall>w. holds w d \<le> 1" using ok unfolding pool_ok_def by (meson order_trans)
  moreover have "\<forall>k \<in> set (wjobs d). row_ok k" using ok c job_moves_row unfolding pool_ok_def by (metis calm_rowE)
  ultimately show ?thesis using ok calm_wf [OF _ c] by (auto simp: pool_ok_def)
qed

definition claimed_row :: "string \<Rightarrow> epoch \<Rightarrow> worker_job \<Rightarrow> worker_job" where
  "claimed_row w now j = j\<lparr>wj_status := ''claimed'', wj_worker := Some w, wj_claimed := Some now, wj_beat := Some now\<rparr>"

abbreviation waiting_job :: "string \<Rightarrow> worker_job \<Rightarrow> bool" where
  "waiting_job i j \<equiv> wj_id j = i \<and> wj_status j = ''pending'' \<and> \<not> wj_stop j"

lemma claimed_jobs: "wjobs (snd (set_claimed i w now db)) = tbl_update (waiting_job i) (claimed_row w now) (wjobs db)"
  "wchunks (snd (set_claimed i w now db)) = wchunks db"
  by (simp_all add: set_claimed_def update_jobs_def claimed_row_def [abs_def] Let_def)

lemma claimed_pool:
  assumes ok: "pool_ok db" and free: "free_worker w db"
  shows "pool_ok (snd (set_claimed i w now db))"
proof -
  let ?d = "snd (set_claimed i w now db)"
  have "holds v ?d \<le> 1" for v
  proof (cases "v = w")
    case True
    have "holds w db = 0" using free by (auto simp: holds_def free_worker_def active_jobs_of_def tbl_count_def)
    moreover have "holds w ?d \<le> holds w db + tbl_count (waiting_job i) (wjobs db)"
      unfolding holds_def claimed_jobs by (rule tbl_count_update_le)
    moreover have "tbl_count (waiting_job i) (wjobs db) \<le> tbl_count (\<lambda>j. wj_id j = i) (wjobs db)" by (rule tbl_count_mono) simp
    moreover have "tbl_count (\<lambda>j. wj_id j = i) (wjobs db) \<le> 1" using ok by (intro tbl_count_unique) (simp add: pool_ok_def jobs_wf_def)
    ultimately show ?thesis using True by simp
  next
    case False
    have "holds v ?d \<le> holds v db" unfolding holds_def claimed_jobs by (rule tbl_count_update_mono) (use False in \<open>simp add: claimed_row_def\<close>)
    then show ?thesis using ok by (auto simp: pool_ok_def intro: order_trans)
  qed
  moreover have "map wj_id (wjobs ?d) = map wj_id (wjobs db)" unfolding claimed_jobs by (rule distinct_key_update) (simp add: claimed_row_def)
  moreover have "\<forall>k \<in> set (wjobs ?d). row_ok k \<and> (job_live k \<longrightarrow> \<not> wj_stop k)"
    using ok by (auto simp: claimed_jobs set_tbl_update claimed_row_def pool_ok_def jobs_wf_def row_ok_def job_states)
  ultimately show ?thesis using ok by (simp add: pool_ok_def jobs_wf_def)
qed

definition piece_row :: "int \<Rightarrow> epoch \<Rightarrow> worker_job \<Rightarrow> worker_job" where
  "piece_row n now j = j\<lparr>wj_status := ''streaming'', wj_beat := Some now, wj_bytes := wj_bytes j + n, wj_next := wj_next j + 1\<rparr>"

lemma piece_jobs: "wjobs (piece_stored c now db) = tbl_update (\<lambda>j. wj_id j = wc_job c) (piece_row (bytes_of (wc_text c) (wc_thinking c)) now) (wjobs db)"
  "wchunks (piece_stored c now db) = wchunks db @ [c]"
  by (simp_all add: piece_stored_def advance_def update_jobs_def piece_row_def [abs_def])

lemma bytes_nonneg [simp]: "0 \<le> bytes_of s t"
  by (simp add: bytes_of_def)

lemma piece_job:
  assumes "jobs_wf db" "next_piece most c db"
  obtains j where "j \<in> set (wjobs db)" "wj_id j = wc_job c" "job_active j" "wc_seq c = wj_next j"
    "wj_bytes j + bytes_of (wc_text c) (wc_thinking c) \<le> most"
    "wj_next j \<noteq> 0 \<Longrightarrow> (case chunk_at (wj_id j) (wj_next j - 1) db of None \<Rightarrow> True | Some s \<Rightarrow> \<not> wc_done s)"
    "\<And>k. k \<in> set (wjobs db) \<Longrightarrow> wj_id k = wc_job c \<Longrightarrow> k = j"
proof -
  from assms(2) obtain j where j: "job_get (wc_job c) db = Some j" "job_active j" "wc_seq c = wj_next j"
    "wj_bytes j + bytes_of (wc_text c) (wc_thinking c) \<le> most"
    "wj_next j \<noteq> 0 \<Longrightarrow> (case chunk_at (wj_id j) (wj_next j - 1) db of None \<Rightarrow> True | Some s \<Rightarrow> \<not> wc_done s)" by (auto simp: next_piece_def)
  then have "j \<in> set (wjobs db)" "wj_id j = wc_job c" by (auto simp: job_get_def dest: tbl_one_SomeD)
  with j row_of_id [OF assms(1)] show ?thesis by (intro that [of j]) auto
qed

lemma piece_pool:
  assumes ok: "pool_ok db" and c: "next_piece most c db"
  shows "pool_ok (piece_stored c now db)"
proof -
  have wf: "jobs_wf db" using ok by (simp add: pool_ok_def)
  from piece_job [OF wf c] obtain j where j: "j \<in> set (wjobs db)" "job_active j" "\<And>k. k \<in> set (wjobs db) \<Longrightarrow> wj_id k = wc_job c \<Longrightarrow> k = j" by metis
  let ?d = "piece_stored c now db"
  have "holds w ?d = holds w db" for w
    unfolding holds_def piece_jobs using j(2,3) by (intro tbl_count_update_same) (auto simp: piece_row_def job_states)
  moreover have "map wj_id (wjobs ?d) = map wj_id (wjobs db)" unfolding piece_jobs by (rule distinct_key_update) (simp add: piece_row_def)
  moreover have "row_ok (piece_row (bytes_of (wc_text c) (wc_thinking c)) now j) \<and> \<not> wj_stop j"
  proof -
    have "row_ok j" "\<not> wj_stop j" using ok j(1,2) active_live by (auto simp: pool_ok_def jobs_wf_def)
    moreover have "wj_out j \<le> max 0 (wj_bytes j + bytes_of (wc_text c) (wc_thinking c) + ANSWER_TOKEN_ALLOWANCE)"
      using \<open>row_ok j\<close> bytes_nonneg [of "wc_text c" "wc_thinking c"] unfolding row_ok_def by linarith
    ultimately show ?thesis by (simp add: row_ok_def piece_row_def job_states)
  qed
  then have "\<forall>k \<in> set (wjobs ?d). row_ok k \<and> (job_live k \<longrightarrow> \<not> wj_stop k)"
    using ok j(3) by (auto simp: piece_jobs set_tbl_update pool_ok_def jobs_wf_def piece_row_def)
  ultimately show ?thesis using ok by (simp add: pool_ok_def jobs_wf_def)
qed

lemma added_pool:
  assumes ok: "pool_ok db" and j: "new_job j" "\<forall>k \<in> set (wjobs db). wj_id k \<noteq> wj_id j"
  shows "pool_ok (db\<lparr>wjobs := wjobs db @ [j]\<rparr>)"
proof -
  have "holds w (db\<lparr>wjobs := wjobs db @ [j]\<rparr>) = holds w db" for w using j(1) by (simp add: holds_def tbl_simps new_job_def)
  moreover have "row_ok j \<and> \<not> wj_stop j" using j(1) by (simp add: row_ok_def new_job_def MAX_REQUEUES_def ANSWER_TOKEN_ALLOWANCE_def job_states)
  ultimately show ?thesis using ok j(2) by (auto simp: pool_ok_def jobs_wf_def)
qed

lemma move_pool: "db_move most db l d \<Longrightarrow> pool_ok db \<Longrightarrow> pool_ok d"
proof (induction rule: db_move.induct)
  case (Purged db t)
  have "holds w (snd (delete_terminal_before t db)) \<le> holds w db" for w
    by (simp add: holds_def delete_terminal_before_def Let_def tbl_count_delete_le)
  then have "\<forall>w. holds w (snd (delete_terminal_before t db)) \<le> 1" using Purged unfolding pool_ok_def by (meson order_trans)
  then show ?case using Purged by (auto simp: pool_ok_def jobs_wf_def delete_terminal_before_def Let_def distinct_key_delete)
next
  case (Dropped db p)
  then show ?case by (simp add: pool_ok_def jobs_wf_def holds_def)
qed (auto intro: calm_pool claimed_pool piece_pool)

lemma moves_pool: "db_moves most db cs d \<Longrightarrow> pool_ok db \<Longrightarrow> pool_ok d"
  by (induction rule: db_moves.induct) (auto dest: move_pool)

text \<open>
  The history of the pieces accepted for each job: the rows agree with it, a job at work still has its last
  piece, and only the last piece of an answer is marked as the end.
\<close>

type_synonym history = "string \<Rightarrow> worker_chunk list"

definition answer_bytes :: "worker_chunk list \<Rightarrow> int" where
  "answer_bytes cs = (\<Sum>c \<leftarrow> cs. bytes_of (wc_text c) (wc_thinking c))"

definition history_ok :: "int \<Rightarrow> history \<Rightarrow> bool" where
  "history_ok most S \<longleftrightarrow> (\<forall>i. (\<forall>k < length (S i). wc_job (S i ! k) = i \<and> wc_seq (S i ! k) = int k \<and> (wc_done (S i ! k) \<longrightarrow> Suc k = length (S i))) \<and>
     answer_bytes (S i) \<le> most)"

definition follows :: "history \<Rightarrow> relay_db \<Rightarrow> bool" where
  "follows S db \<longleftrightarrow>
     (\<forall>j \<in> set (wjobs db). wj_next j = int (length (S (wj_id j))) \<and> wj_bytes j = answer_bytes (S (wj_id j)) \<and>
        (job_active j \<longrightarrow> S (wj_id j) \<noteq> [] \<longrightarrow> last (S (wj_id j)) \<in> set (wchunks db))) \<and>
     (\<forall>c \<in> set (wchunks db). \<exists>k < length (S (wc_job c)). wc_seq c = int k \<and> c = S (wc_job c) ! k)"

definition record_piece :: "worker_chunk option \<Rightarrow> history \<Rightarrow> history" where
  "record_piece l S = (case l of None \<Rightarrow> S | Some c \<Rightarrow> S(wc_job c := S (wc_job c) @ [c]))"

lemma follows_last:
  assumes "history_ok most S" "follows S db" "j \<in> set (wjobs db)" "job_active j" "S (wj_id j) \<noteq> []"
  shows "chunk_at (wj_id j) (wj_next j - 1) db = Some (last (S (wj_id j)))"
proof -
  let ?i = "wj_id j" and ?n = "length (S (wj_id j)) - 1"
  have n: "?n < length (S ?i)" "wj_next j - 1 = int ?n" using assms(2,3,5) by (auto simp: follows_def of_nat_diff Suc_leI)
  have l: "last (S ?i) = S ?i ! ?n" using assms(5) by (rule last_conv_nth)
  have "wc_job (S ?i ! ?n) = ?i \<and> wc_seq (S ?i ! ?n) = int ?n" using assms(1) n(1) unfolding history_ok_def by blast
  moreover have "last (S ?i) \<in> set (wchunks db)" using assms by (auto simp: follows_def)
  ultimately obtain c where c: "chunk_at ?i (wj_next j - 1) db = Some c"
    using tbl_one_not_None [of "last (S ?i)" "wchunks db" "\<lambda>c. wc_job c = ?i \<and> wc_seq c = wj_next j - 1"] l n(2) by (auto simp: chunk_at_def)
  then have "c \<in> set (wchunks db)" "wc_job c = ?i" "wc_seq c = int ?n" using n(2) by (auto simp: chunk_at_def dest: tbl_one_SomeD)
  with assms(2) have "c = S ?i ! ?n" unfolding follows_def by fastforce
  with c l show ?thesis by simp
qed

lemma calm_follows: "calm db d \<Longrightarrow> follows S db \<Longrightarrow> follows S d"
proof -
  assume c: "calm db d" and f: "follows S db"
  have "wj_next k = int (length (S (wj_id k))) \<and> wj_bytes k = answer_bytes (S (wj_id k)) \<and>
      (job_active k \<longrightarrow> S (wj_id k) \<noteq> [] \<longrightarrow> last (S (wj_id k)) \<in> set (wchunks d))" if "k \<in> set (wjobs d)" for k
  proof -
    from c that obtain j where j: "j \<in> set (wjobs db)" "job_moves j k" by (rule calm_rowE)
    then have "wj_id k = wj_id j" "wj_next k = wj_next j" "wj_bytes k = wj_bytes j" "job_active k \<longrightarrow> job_active j"
      using job_moves_id job_moves_row job_moves_active by blast+
    with f j(1) c show ?thesis by (simp add: follows_def calm_def)
  qed
  with f c show ?thesis by (simp add: follows_def calm_def)
qed

lemma move_follows:
  assumes "db_move most db l d" "pool_ok db" "history_ok most S" "follows S db"
  shows "follows (record_piece l S) d \<and> history_ok most (record_piece l S)"
  using assms
proof (induction rule: db_move.induct)
  case (Calm db d)
  then show ?case using calm_follows by (simp add: record_piece_def)
next
  case (Claimed w db i now)
  have "S (wj_id j) = []" if "j \<in> set (wjobs db)" "wj_status j = ''pending''" for j
    using Claimed.prems that by (simp add: pool_ok_def row_ok_def follows_def)
  with Claimed.prems show ?case by (auto simp: record_piece_def follows_def claimed_jobs set_tbl_update claimed_row_def)
next
  case (Purged db t)
  have wf: "jobs_wf db" using Purged.prems by (simp add: pool_ok_def)
  have "wc_job (last (S (wj_id j))) \<notin> wj_id ` {h \<in> set (wjobs db). ended_before t h}"
    if j: "j \<in> set (wjobs db)" "\<not> ended_before t j" "S (wj_id j) \<noteq> []" for j
  proof -
    have "wc_job (last (S (wj_id j))) = wj_id j"
      using Purged.prems(2) j(3) unfolding history_ok_def by (metis last_conv_nth diff_less length_greater_0_conv zero_less_one)
    then show ?thesis using row_of_id [OF wf j(1)] j(2) by auto
  qed
  then show ?case using Purged.prems by (auto simp: record_piece_def follows_def delete_terminal_before_def Let_def)
next
  case (Dropped db p)
  have wf: "jobs_wf db" using Dropped.prems by (simp add: pool_ok_def)
  have "\<not> p (last (S (wj_id j)))" if j: "j \<in> set (wjobs db)" "job_active j" "S (wj_id j) \<noteq> []" for j
  proof
    assume p: "p (last (S (wj_id j)))"
    have l: "last (S (wj_id j)) \<in> set (wchunks db)" using Dropped.prems(3) j by (simp add: follows_def)
    have "wc_job (last (S (wj_id j))) = wj_id j" "wc_seq (last (S (wj_id j))) = wj_next j - 1"
      using follows_last [OF Dropped.prems(2,3) j] by (auto simp: chunk_at_def dest: tbl_one_SomeD)
    with Dropped.hyps p l j show False unfolding droppable_def by fastforce
  qed
  with Dropped.prems show ?case by (simp add: record_piece_def follows_def)
next
  case (Stored c db now)
  have wf: "jobs_wf db" using Stored.prems by (simp add: pool_ok_def)
  from piece_job [OF wf Stored.hyps] obtain j where j: "j \<in> set (wjobs db)" "wj_id j = wc_job c" "job_active j" "wc_seq c = wj_next j"
    "wj_bytes j + bytes_of (wc_text c) (wc_thinking c) \<le> most" and only: "\<And>k. k \<in> set (wjobs db) \<Longrightarrow> wj_id k = wc_job c \<Longrightarrow> k = j"
    and before: "wj_next j \<noteq> 0 \<Longrightarrow> (case chunk_at (wj_id j) (wj_next j - 1) db of None \<Rightarrow> True | Some s \<Rightarrow> \<not> wc_done s)" by metis
  let ?i = "wc_job c" and ?T = "record_piece (Some c) S"
  have T: "?T = S(?i := S ?i @ [c])" by (simp add: record_piece_def)
  have n: "wj_next j = int (length (S ?i))" "wj_bytes j = answer_bytes (S ?i)" using Stored.prems(3) j by (auto simp: follows_def)
  have not_done: "\<not> wc_done (S ?i ! k)" if "k < length (S ?i)" for k
  proof
    assume d: "wc_done (S ?i ! k)"
    with Stored.prems(2) that have "Suc k = length (S ?i)" unfolding history_ok_def by blast
    moreover have "S ?i \<noteq> []" using that by auto
    moreover from this have "last (S ?i) = S ?i ! (length (S ?i) - 1)" by (rule last_conv_nth)
    ultimately have "wc_done (last (S ?i))" using d by (metis diff_Suc_1)
    with follows_last [OF Stored.prems(2,3) j(1,3)] j(2) before n \<open>S ?i \<noteq> []\<close> show False by simp
  qed
  have "history_ok most ?T"
    unfolding history_ok_def
  proof (intro allI conjI impI)
    fix i k assume "k < length (?T i)"
    then show "wc_job (?T i ! k) = i" "wc_seq (?T i ! k) = int k" "wc_done (?T i ! k) \<Longrightarrow> Suc k = length (?T i)"
      using Stored.prems(2) not_done j(4) n(1) by (auto simp: T history_ok_def nth_append less_Suc_eq)
  next
    fix i show "answer_bytes (?T i) \<le> most"
      using Stored.prems(2) j(5) n(2) by (auto simp: T history_ok_def answer_bytes_def)
  qed
  moreover have "follows ?T (piece_stored c now db)"
    unfolding follows_def piece_jobs
  proof (intro conjI ballI)
    fix k assume "k \<in> set (tbl_update (\<lambda>j. wj_id j = ?i) (piece_row (bytes_of (wc_text c) (wc_thinking c)) now) (wjobs db))"
    then show "wj_next k = int (length (?T (wj_id k)))" "wj_bytes k = answer_bytes (?T (wj_id k))"
      "job_active k \<longrightarrow> ?T (wj_id k) \<noteq> [] \<longrightarrow> last (?T (wj_id k)) \<in> set (wchunks db @ [c])"
      using Stored.prems(3) n only by (auto elim!: tbl_update_memE simp: T piece_row_def follows_def answer_bytes_def)
  next
    fix e assume "e \<in> set (wchunks db @ [c])"
    then consider "e = c" | "e \<in> set (wchunks db)" by auto
    then show "\<exists>k < length (?T (wc_job e)). wc_seq e = int k \<and> e = ?T (wc_job e) ! k"
    proof cases
      case 1
      then show ?thesis using j(4) n(1) by (intro exI [of _ "length (S ?i)"]) (simp add: T)
    next
      case 2
      with Stored.prems(3) obtain k where k: "k < length (S (wc_job e))" "wc_seq e = int k" "e = S (wc_job e) ! k" by (auto simp: follows_def)
      from k(1) have "k < length (?T (wc_job e)) \<and> ?T (wc_job e) ! k = S (wc_job e) ! k" by (auto simp: T nth_append)
      with k(2,3) show ?thesis by metis
    qed
  qed
  ultimately show ?case by blast
qed


lemma added_follows:
  assumes "follows S db" "new_job j" "S (wj_id j) = []"
  shows "follows S (db\<lparr>wjobs := wjobs db @ [j]\<rparr>)"
  using assms by (auto simp: follows_def new_job_def answer_bytes_def)

text \<open>The history with the pieces of a run.\<close>

definition with_pieces :: "worker_chunk list \<Rightarrow> history \<Rightarrow> history" where
  "with_pieces cs S = (\<lambda>i. S i @ filter (\<lambda>c. wc_job c = i) cs)"

lemma with_pieces_Nil [simp]: "with_pieces [] S = S"
  by (simp add: with_pieces_def)

lemma with_pieces_Cons: "with_pieces (c # cs) S = with_pieces cs (record_piece (Some c) S)"
  by (auto simp: with_pieces_def record_piece_def)

lemma with_pieces_append: "with_pieces (as @ bs) S = with_pieces bs (with_pieces as S)"
  by (simp add: with_pieces_def)

definition known_jobs :: "history \<Rightarrow> relay_db \<Rightarrow> string set" where
  "known_jobs S db = {i. S i \<noteq> []} \<union> wj_id ` set (wjobs db)"

lemma move_known: "db_move most db l d \<Longrightarrow> known_jobs (record_piece l S) d \<subseteq> known_jobs S db"
proof (induction rule: db_move.induct)
  case (Calm db d)
  have "wj_id ` set (wjobs d) = wj_id ` set (wjobs db)" using calm_ids [OF Calm] by (metis list.set_map)
  then show ?case by (simp add: known_jobs_def record_piece_def)
next
  case (Stored c db now)
  then obtain j where "j \<in> set (wjobs db)" "wj_id j = wc_job c" by (auto simp: next_piece_def job_get_def dest: tbl_one_SomeD)
  then have "wc_job c \<in> wj_id ` set (wjobs db)" by (metis imageI)
  then show ?case by (auto simp: known_jobs_def record_piece_def piece_jobs set_tbl_update piece_row_def split: if_split_asm)
qed (auto simp: known_jobs_def record_piece_def claimed_jobs set_tbl_update claimed_row_def delete_terminal_before_def Let_def split: if_split_asm)

lemma moves_follow:
  "db_moves most db cs d \<Longrightarrow> pool_ok db \<Longrightarrow> history_ok most S \<Longrightarrow> follows S db \<Longrightarrow>
    pool_ok d \<and> history_ok most (with_pieces cs S) \<and> follows (with_pieces cs S) d \<and> known_jobs (with_pieces cs S) d \<subseteq> known_jobs S db"
proof (induction arbitrary: S rule: db_moves.induct)
  case (Move db l d cs e)
  have e: "with_pieces (case l of None \<Rightarrow> cs | Some c \<Rightarrow> c # cs) S = with_pieces cs (record_piece l S)"
    by (cases l) (simp_all add: with_pieces_Cons, simp add: record_piece_def)
  have "pool_ok d" "history_ok most (record_piece l S)" "follows (record_piece l S) d"
    using move_pool move_follows Move.hyps(1) Move.prems by blast+
  from Move.IH [OF this] move_known [OF Move.hyps(1), of S] show ?case unfolding e by blast
qed simp

end
