(* ===== verification/Worker_Relay.thy ===== *)
theory Worker_Relay
  imports Worker_Jobs
begin

section \<open>The relay of an answer\<close>

text \<open>
  \<open>stream\<close> and \<open>_relay\<close> of bananachat/services/remote.py: the server process that waits for a worker's
  answer and gives it to the reader, piece by piece. Each access to the database is one step, so the
  steps of workers, other relays and the maintenance job come between any two of them.
\<close>

datatype outcome = Answered string "int option" "int option" | Not_Started utext | Upstream_Failed utext | Reader_Cancelled

text \<open>
  Where the loop is: at its head, about to read pieces, with the pieces read, about to delete the read
  ones, about to look at the job (with whether pieces came), about to end the job after a failure
  (\<open>_fail_relay\<close>, with whom to blame), about to end it after a whole answer, about to withdraw it, or over.
\<close>

datatype blame_kind = Blame_None | Blame_Worker | Blame_Stall

datatype phase = Loop_Head | Reading | Pieces "worker_chunk list" | Trimming | Judging bool | Failing string utext blame_kind
  | Closing | Withdrawing utext | Over outcome

text \<open>
  \<open>rl_first\<close>: the time a worker has for its first output; \<open>rl_given\<close>: the pieces yielded so far; \<open>rl_cooled\<close>: the
  model put on cooldown.
\<close>

record relay =
  rl_job :: string
  rl_first :: rat
  rl_phase :: phase
  rl_prev :: string
  rl_since :: epoch
  rl_pool_deadline :: epoch
  rl_deadline :: epoch
  rl_last :: int
  rl_terminal :: bool
  rl_produced :: bool
  rl_missing :: bool
  rl_given :: "(utext \<times> utext) list"
  rl_cooled :: "utext option"

text \<open>\<open>t0\<close>: the monotonic clock at the start; the deadline is that of the whole request.\<close>

definition relay_init :: "relay_config \<Rightarrow> string \<Rightarrow> epoch \<Rightarrow> epoch \<Rightarrow> rat \<Rightarrow> relay" where
  "relay_init c i deadline t0 first_token = \<lparr>rl_job = i, rl_first = first_token, rl_phase = Loop_Head, rl_prev = ''pending'', rl_since = t0,
     rl_pool_deadline = t0 + rc_claim c + first_token, rl_deadline = deadline, rl_last = -1, rl_terminal = False, rl_produced = False,
     rl_missing = False, rl_given = [], rl_cooled = None\<rparr>"

text \<open>The size check of \<open>stream\<close> and the job it inserts.\<close>

definition too_large :: "prompt_doc \<Rightarrow> utext option \<Rightarrow> bool" where
  "too_large prompt options \<longleftrightarrow>
     MAX_JOB_BYTES < int (text_bytes (pd_text prompt) + (case options of None \<Rightarrow> 0 | Some s \<Rightarrow> text_bytes s))"

definition start_relay ::
  "relay_config \<Rightarrow> string \<Rightarrow> utext \<Rightarrow> prompt_doc \<Rightarrow> utext option \<Rightarrow> int \<Rightarrow> string option \<Rightarrow> wire option \<Rightarrow> epoch \<Rightarrow> epoch \<Rightarrow> rat \<Rightarrow> rat
    \<Rightarrow> relay_db \<Rightarrow> worker_error + (relay option \<times> relay_db)" where
  "start_relay c i model prompt options priority account think now t0 first_token total_timeout db =
     (if too_large prompt options then Inr (None, db)
      else map_sum id (\<lambda>d. (Some (relay_init c i (t0 + total_timeout) t0 first_token), d))
        (insert_job i model prompt options priority now account think db))"

text \<open>The readings of one step: the monotonic clock twice, the wall clock, and whether the reader cancelled.\<close>

record relay_clock =
  k_cancelled :: bool
  k_tick :: epoch
  k_tick2 :: epoch
  k_now :: epoch

definition goto :: "phase \<Rightarrow> relay \<Rightarrow> relay" where
  "goto ph r = r\<lparr>rl_phase := ph\<rparr>"

definition head_step :: "relay_clock \<Rightarrow> relay \<Rightarrow> relay_db \<Rightarrow> relay \<times> relay_db" where
  "head_step k r db =
     (if k_cancelled k then (goto (Over Reader_Cancelled) r, snd (end_job (rl_job r) ''failed'' (k_now k) ''Generation stopped'' LIVE_JOBS db))
      else if \<not> rl_produced r \<and> min (rl_deadline r) (rl_pool_deadline r) \<le> k_tick k
      then (let held = (case job_get (rl_job r) db of None \<Rightarrow> False
              | Some j \<Rightarrow> job_active j \<and> (case wj_claimed j of None \<Rightarrow> False | Some t \<Rightarrow> rl_first r \<le> k_now k - t)) in
        (goto (Failing ''timeout'' (ascii ''No worker started answering in time.'') (if held then Blame_Stall else Blame_None)) r, db))
      else if rl_deadline r \<le> k_tick2 k
      then (goto (Over (Upstream_Failed (ascii ''The worker took too long to answer.''))) r,
        snd (end_job (rl_job r) ''timeout'' (k_now k) ''The answer took too long.'' LIVE_JOBS db))
      else (goto Reading r, db))"

text \<open>The loop over the pieces read; it stops at one out of order.\<close>

fun take_pieces :: "worker_chunk list \<Rightarrow> relay \<Rightarrow> bool \<times> relay" where
  "take_pieces [] r = (True, r)"
| "take_pieces (p # ps) r =
     (if wc_seq p \<noteq> rl_last r + 1 \<or> rl_terminal r then (False, r)
      else take_pieces ps (let r1 = r\<lparr>rl_last := wc_seq p, rl_terminal := wc_done p\<rparr> in
        if wc_text p \<noteq> [] \<or> wc_thinking p \<noteq> [] then r1\<lparr>rl_produced := True, rl_given := rl_given r1 @ [(wc_text p, wc_thinking p)]\<rparr> else r1))"

definition pieces_step :: "worker_chunk list \<Rightarrow> relay \<Rightarrow> relay" where
  "pieces_step ps r =
     (case take_pieces ps r of
        (False, r1) \<Rightarrow> goto (Failing ''failed'' (ascii ''The worker sent an incomplete answer.'') Blame_Worker) r1
      | (True, r1) \<Rightarrow> goto (if ps \<noteq> [] \<and> 0 < rl_last r1 then Trimming else Judging (ps \<noteq> [])) r1)"

definition not_zero :: "int \<Rightarrow> int option" where
  "not_zero n = (if n = 0 then None else Some n)"

text \<open>What the relay does about the job it read; \<open>None\<close>: the job is gone.\<close>

definition judge :: "relay_config \<Rightarrow> bool \<Rightarrow> relay_clock \<Rightarrow> worker_job option \<Rightarrow> relay \<Rightarrow> relay" where
  "judge c rows k job r =
     (case job of
        None \<Rightarrow> goto (Over (if \<not> rl_produced r then Not_Started (ascii ''the job was removed'')
                  else Upstream_Failed (ascii ''The worker job was removed.''))) r
      | Some j \<Rightarrow>
        let st = wj_status j; late = lease_expired j (k_now k) (lease_seconds c) (rl_first r) in
        if st \<in> set TERMINAL_JOBS \<and> rl_last r < wj_next j - 1 \<and> (rows \<or> \<not> rl_missing r)
        then goto Loop_Head (r\<lparr>rl_missing := \<not> rows\<rparr>)
        else if st = ''done'' then
          (if \<not> rl_terminal r \<or> rl_last r \<noteq> wj_next j - 1
           then goto (Failing ''failed'' (ascii ''The worker ended without a completion marker.'') Blame_Worker) r
           else goto (Over (Answered (if wj_finish j = [] then ''stop'' else wj_finish j) (not_zero (wj_in j)) (not_zero (wj_out j)))) r)
        else if rl_terminal r \<and> (st \<in> {''failed'', ''timeout''} \<or> (st \<in> set ACTIVE_JOBS \<and> late)) then goto Closing r
        else if st \<in> {''failed'', ''timeout''} then
          (let msg = (case wj_error j of Some (a # as) \<Rightarrow> a # as | _ \<Rightarrow> ascii ''The worker failed.'') in
           goto (Over (if \<not> rl_produced r then Not_Started msg else Upstream_Failed msg)) r)
        else if st = ''pending'' then
          (let since = (if rl_prev r \<noteq> ''pending'' then k_tick k else rl_since r); r1 = r\<lparr>rl_since := since\<rparr> in
           if rc_claim c \<le> k_tick2 k - since then goto (Withdrawing (wj_model j)) r1
           else goto Loop_Head (r1\<lparr>rl_prev := st\<rparr>))
        else if late then goto (Failing ''timeout'' (ascii ''The worker stopped responding.'') Blame_Stall) r
        else goto Loop_Head (r\<lparr>rl_prev := st\<rparr>))"

definition fail_relay :: "string \<Rightarrow> utext \<Rightarrow> blame_kind \<Rightarrow> epoch \<Rightarrow> relay \<Rightarrow> relay_db \<Rightarrow> relay \<times> relay_db" where
  "fail_relay st msg b now r db =
     (let (n, d) = finish_job (rl_job r) st now (Some msg) 0 0 ''stop'' LIVE_JOBS db;
          d1 = (case (b, job_get (rl_job r) db) of
              (Blame_None, _) \<Rightarrow> d | (_, None) \<Rightarrow> d
            | (k, Some j) \<Rightarrow> if n = 0 \<or> \<not> truthy (wj_worker j) then d
                else if k = Blame_Worker then misbehaved j (the (wj_worker j)) now d else blame j now d)
      in (goto (Over (if \<not> rl_produced r then Not_Started msg else Upstream_Failed msg)) r, d1))"

definition withdraw_step :: "utext \<Rightarrow> epoch \<Rightarrow> relay \<Rightarrow> relay_db \<Rightarrow> relay \<times> relay_db" where
  "withdraw_step model now r db =
     (let (n, d) = end_job (rl_job r) ''failed'' now ''No worker took the job in time.'' [''pending''] db in
      if n \<noteq> 0 then (goto (Over (Not_Started (ascii ''no worker took the job in time''))) (r\<lparr>rl_cooled := Some model\<rparr>), d)
      else (goto Loop_Head r, d))"

definition relay_step :: "relay_config \<Rightarrow> relay_clock \<Rightarrow> relay \<Rightarrow> relay_db \<Rightarrow> relay \<times> relay_db" where
  "relay_step c k r db =
     (case rl_phase r of
        Loop_Head \<Rightarrow> head_step k r db
      | Reading \<Rightarrow> (goto (Pieces (chunks_after (rl_job r) (rl_last r) 256 db)) r, db)
      | Pieces ps \<Rightarrow> (pieces_step ps r, db)
      | Trimming \<Rightarrow> (goto (Judging True) r, delete_chunks_before (rl_job r) (rl_last r) db)
      | Judging rows \<Rightarrow> (judge c rows k (job_get (rl_job r) db) r, db)
      | Failing st msg b \<Rightarrow> fail_relay st msg b (k_now k) r db
      | Closing \<Rightarrow> (goto (Over (Answered ''stop'' None None)) r,
          snd (end_job (rl_job r) ''timeout'' (k_now k) ''The worker did not report its usage.'' ACTIVE_JOBS db))
      | Withdrawing model \<Rightarrow> withdraw_step model (k_now k) r db
      | Over out \<Rightarrow> (r, db))"

text \<open>\<open>_release\<close>, when the relay is left in any way.\<close>

definition release_job :: "string \<Rightarrow> epoch \<Rightarrow> relay_db \<Rightarrow> relay_db" where
  "release_job i now db = delete_chunks i (snd (end_job i ''failed'' now ''Generation stopped'' LIVE_JOBS db))"


section \<open>What the reader receives\<close>

text \<open>The pieces a reader sees: those with text.\<close>

definition shown :: "worker_chunk list \<Rightarrow> (utext \<times> utext) list" where
  "shown cs = map (\<lambda>c. (wc_text c, wc_thinking c)) (filter (\<lambda>c. wc_text c \<noteq> [] \<or> wc_thinking c \<noteq> []) cs)"

lemma shown_append: "shown (as @ bs) = shown as @ shown bs"
  by (simp add: shown_def)

definition relayed :: "history \<Rightarrow> relay \<Rightarrow> bool" where
  "relayed S r \<longleftrightarrow> -1 \<le> rl_last r \<and> rl_last r < int (length (S (rl_job r))) \<and>
     rl_given r = shown (take (nat (rl_last r + 1)) (S (rl_job r))) \<and>
     (rl_terminal r \<longleftrightarrow> 0 \<le> rl_last r \<and> wc_done (S (rl_job r) ! nat (rl_last r)))"

definition in_history :: "history \<Rightarrow> string \<Rightarrow> worker_chunk \<Rightarrow> bool" where
  "in_history S i c \<longleftrightarrow> (\<exists>k < length (S i). wc_seq c = int k \<and> c = S i ! k)"

definition relay_ok :: "history \<Rightarrow> relay \<Rightarrow> bool" where
  "relay_ok S r \<longleftrightarrow> relayed S r \<and>
     (case rl_phase r of Pieces ps \<Rightarrow> \<forall>c \<in> set ps. in_history S (rl_job r) c
      | Trimming \<Rightarrow> 0 < rl_last r | Closing \<Rightarrow> rl_terminal r | Over (Answered a b c) \<Rightarrow> rl_terminal r | _ \<Rightarrow> True)"

lemma relay_ok_with_pieces: "relay_ok S r \<Longrightarrow> relay_ok (with_pieces cs S) r"
  by (auto simp: relay_ok_def relayed_def in_history_def with_pieces_def nth_append split: phase.splits outcome.splits)

lemma take_pieces_ok:
  "relayed S r \<Longrightarrow> \<forall>c \<in> set ps. in_history S (rl_job r) c \<Longrightarrow> take_pieces ps r = (b, r1) \<Longrightarrow> relayed S r1 \<and> rl_job r1 = rl_job r"
proof (induction ps arbitrary: r)
  case (Cons p ps)
  show ?case
  proof (cases "wc_seq p \<noteq> rl_last r + 1 \<or> rl_terminal r")
    case True
    with Cons.prems show ?thesis by auto
  next
    case False
    let ?S = "S (rl_job r)"
    let ?r = "r\<lparr>rl_last := wc_seq p, rl_terminal := wc_done p\<rparr>"
    let ?q = "if wc_text p \<noteq> [] \<or> wc_thinking p \<noteq> [] then ?r\<lparr>rl_produced := True, rl_given := rl_given ?r @ [(wc_text p, wc_thinking p)]\<rparr> else ?r"
    from Cons.prems(2) obtain k where k: "k < length ?S" "wc_seq p = int k" "p = ?S ! k" by (auto simp: in_history_def)
    have last: "rl_last r + 1 = int k" using False k(2) by simp
    have "take (Suc k) ?S = take k ?S @ [p]" using k(1,3) by (simp add: take_Suc_conv_app_nth)
    then have "shown (take (Suc k) ?S) = rl_given r @ shown [p]" using Cons.prems(1) last by (simp add: relayed_def shown_append)
    then have "relayed S ?q" using k by (simp add: relayed_def shown_def nat_add_distrib)
    moreover have "take_pieces ps ?q = (b, r1)" using Cons.prems(3) False by (auto simp: Let_def split: if_split_asm)
    moreover have "rl_job ?q = rl_job r" by simp
    ultimately show ?thesis using Cons.IH [of ?q] Cons.prems(2) by simp
  qed
qed simp

lemma relayed_goto [simp]: "relayed S (goto ph r) = relayed S r" "rl_job (goto ph r) = rl_job r" "rl_phase (goto ph r) = ph"
  "rl_terminal (goto ph r) = rl_terminal r" "rl_last (goto ph r) = rl_last r" "rl_given (goto ph r) = rl_given r"
  by (simp_all add: goto_def relayed_def)

lemma relay_ok_goto: "relay_ok S (goto ph r) \<longleftrightarrow> relayed S r \<and>
     (case ph of Pieces ps \<Rightarrow> \<forall>c \<in> set ps. in_history S (rl_job r) c
      | Trimming \<Rightarrow> 0 < rl_last r | Closing \<Rightarrow> rl_terminal r | Over (Answered a b c) \<Rightarrow> rl_terminal r | _ \<Rightarrow> True)"
  by (simp add: relay_ok_def split: phase.split outcome.split)

lemma pieces_step_ok:
  assumes "relayed S r" "\<forall>c \<in> set ps. in_history S (rl_job r) c"
  shows "relay_ok S (pieces_step ps r) \<and> rl_job (pieces_step ps r) = rl_job r"
proof -
  obtain b r1 where t: "take_pieces ps r = (b, r1)" by fastforce
  from take_pieces_ok [OF assms t] t show ?thesis by (cases b) (simp_all add: pieces_step_def relay_ok_goto)
qed

lemma relayed_timing [simp]: "relayed S (r\<lparr>rl_missing := m\<rparr>) = relayed S r" "relayed S (r\<lparr>rl_since := t\<rparr>) = relayed S r"
  "relayed S (r\<lparr>rl_prev := p\<rparr>) = relayed S r" "relayed S (r\<lparr>rl_cooled := x\<rparr>) = relayed S r"
  by (simp_all add: relayed_def)

lemma judge_ok: "relayed S r \<Longrightarrow> relay_ok S (judge c rows k job r) \<and> rl_job (judge c rows k job r) = rl_job r"
  by (cases job) (simp_all add: judge_def relay_ok_goto Let_def)

lemma failed_calm: "calm db (snd (finish_job i ''failed'' now e 0 0 ''stop'' LIVE_JOBS db))"
  "st \<in> set TERMINAL_JOBS \<Longrightarrow> calm db (snd (finish_job i st now e 0 0 ''stop'' LIVE_JOBS db))"
  by (rule end_calm; simp add: job_states)+

text \<open>The phases in which a relay fails carry the state the job is put in.\<close>

definition fails_well :: "relay \<Rightarrow> bool" where
  "fails_well r \<longleftrightarrow> (case rl_phase r of Failing st msg b \<Rightarrow> st \<in> set TERMINAL_JOBS | _ \<Rightarrow> True)"

lemma step_fails_well: "fails_well r \<Longrightarrow> fails_well (fst (relay_step c k r db))"
  by (auto simp: relay_step_def fails_well_def head_step_def pieces_step_def judge_def fail_relay_def withdraw_step_def Let_def TERMINAL_JOBS_def
      split: phase.split option.split bool.split prod.split)

lemma step_calm:
  assumes "fails_well r" "rl_phase r \<noteq> Trimming"
  shows "calm db (snd (relay_step c k r db))"
proof (cases "rl_phase r")
  case Loop_Head
  then show ?thesis by (simp add: relay_step_def head_step_def pool_calm Let_def)
next
  case (Failing st msg b)
  let ?e = "finish_job (rl_job r) st (k_now k) (Some msg) 0 0 ''stop'' LIVE_JOBS db"
  have e: "calm db (snd ?e)" using assms(1) Failing by (intro failed_calm(2)) (simp add: fails_well_def)
  have "snd (fail_relay st msg b (k_now k) r db) \<in> {snd ?e} \<union> {misbehaved j w (k_now k) (snd ?e) | j w. True} \<union> {blame j (k_now k) (snd ?e) | j. True}"
    by (auto simp: fail_relay_def case_prod_beta split: blame_kind.split option.split)
  then show ?thesis using Failing calm_trans [OF e misbehaved_calm] calm_trans [OF e blame_calm] e by (auto simp: relay_step_def)
next
  case (Withdrawing model)
  then show ?thesis using pool_calm(5) [of db "rl_job r" "k_now k" "''No worker took the job in time.''"]
    by (simp add: relay_step_def withdraw_step_def case_prod_beta)
next
  case Closing
  then show ?thesis by (simp add: relay_step_def pool_calm)
qed (use assms in \<open>simp_all add: relay_step_def\<close>)

lemma step_moves:
  assumes "relay_ok S r" "fails_well r" "follows S db"
  shows "db_moves most db [] (snd (relay_step c k r db))"
proof (cases "rl_phase r = Trimming")
  case True
  let ?p = "\<lambda>c. wc_job c = rl_job r \<and> wc_seq c < rl_last r"
  have "droppable db e" if "?p e" for e
    using assms(1,3) that by (auto simp: droppable_def follows_def relay_ok_def relayed_def)
  then have "db_moves most db [] (delete_chunks_before (rl_job r) (rl_last r) db)" unfolding delete_chunks_before_def by (intro drop_moves) blast
  with True show ?thesis by (simp add: relay_step_def)
next
  case False
  then show ?thesis using step_calm [OF assms(2)] by (intro calm_moves) simp
qed

lemma step_ok:
  assumes ok: "relay_ok S r" and db: "follows S db"
  shows "relay_ok S (fst (relay_step c k r db)) \<and> rl_job (fst (relay_step c k r db)) = rl_job r"
proof (cases "rl_phase r")
  case Reading
  have "in_history S (rl_job r) e" if "e \<in> set (chunks_after (rl_job r) n m db)" for e n m
  proof -
    from that have "e \<in> set (wchunks db)" "wc_job e = rl_job r" by (auto simp: chunks_after_def dest!: in_set_takeD)
    with db show ?thesis by (auto simp: follows_def in_history_def)
  qed
  moreover from ok have "relayed S r" by (simp add: relay_ok_def)
  ultimately show ?thesis using Reading by (simp add: relay_step_def relay_ok_goto)
next
  case (Pieces ps)
  with ok have "relayed S r" "\<forall>c \<in> set ps. in_history S (rl_job r) c" by (simp_all add: relay_ok_def)
  with Pieces show ?thesis by (simp add: relay_step_def pieces_step_ok)
next
  case (Judging rows)
  from ok have "relayed S r" by (simp add: relay_ok_def)
  with Judging show ?thesis by (simp add: relay_step_def judge_ok)
qed (use ok in \<open>auto simp: relay_step_def relay_ok_goto head_step_def fail_relay_def withdraw_step_def case_prod_beta Let_def\<close>,
    use ok in \<open>auto simp: relay_ok_def\<close>)

text \<open>An answer that came to its end is the whole answer.\<close>

lemma whole_answer:
  assumes "relay_ok S r" "history_ok most S" "rl_phase r = Over (Answered a b c)"
  shows "rl_given r = shown (S (rl_job r)) \<and> S (rl_job r) \<noteq> [] \<and> wc_done (last (S (rl_job r)))"
proof -
  let ?n = "nat (rl_last r)" and ?S = "S (rl_job r)"
  have r: "0 \<le> rl_last r" "rl_last r < int (length ?S)" "wc_done (?S ! ?n)" "rl_given r = shown (take (Suc ?n) ?S)"
    using assms(1,3) by (auto simp: relay_ok_def relayed_def nat_add_distrib)
  then have "Suc ?n = length ?S" using assms(2) unfolding history_ok_def by (metis nat_less_iff)
  moreover from this have "?S \<noteq> []" by auto
  moreover have "last ?S = ?S ! ?n" using calculation by (metis diff_Suc_1 last_conv_nth)
  ultimately show ?thesis using r(3,4) by simp
qed

lemma ended_rest:
  assumes "st \<in> set TERMINAL_JOBS"
  shows "at_rest i (snd (finish_job i st now e a b r LIVE_JOBS db))"
  unfolding at_rest_def
proof (intro ballI impI)
  fix k assume "k \<in> set (wjobs (snd (finish_job i st now e a b r LIVE_JOBS db)))" and i: "wj_id k = i"
  then have "k \<in> set (tbl_update (\<lambda>j. wj_id j = i \<and> job_live j) (\<lambda>j. (ended_row st now e j)\<lparr>wj_in := a, wj_out := b, wj_finish := r\<rparr>) (wjobs db))"
    by (simp add: finish_job_def update_jobs_def Let_def)
  then show "\<not> job_active k"
  proof (cases rule: tbl_update_memE)
    case (hit j)
    with assms show ?thesis by (auto simp: ended_row_def job_states)
  next
    case miss
    with i show ?thesis using active_live by blast
  qed
qed

lemma release_moves: "db_moves most db [] (release_job i now db)"
proof -
  let ?d = "snd (end_job i ''failed'' now ''Generation stopped'' LIVE_JOBS db)"
  have "at_rest i ?d" by (rule ended_rest) (simp add: TERMINAL_JOBS_def)
  then have "\<forall>c \<in> set (wchunks ?d). wc_job c = i \<longrightarrow> droppable ?d c" by (simp add: droppable_def at_rest_def)
  then have "db_moves most ?d [] (release_job i now db)" unfolding release_job_def delete_chunks_def by (rule drop_moves)
  from moves_trans [OF calm_moves [OF pool_calm(1)] this] show ?thesis by simp
qed

section \<open>All processes together\<close>

text \<open>The tables and the relays of all server processes; every act is one transaction or one step of a relay.\<close>

record world =
  w_db :: relay_db
  w_relays :: "relay list"

datatype work_act =
  Ask string utext prompt_doc "utext option" int "string option" "wire option" epoch epoch rat rat
| Relay_Step string relay_clock
| Leave string epoch
| Poll worker_node "utext list option" "nat \<Rightarrow> bool" epoch epoch
| Claim worker_node "utext list option" "nat \<Rightarrow> bool" epoch
| Send worker_node string wire epoch epoch
| Complete worker_node string wire epoch epoch
| Report_Failure worker_node string wire epoch
| Beat worker_node wire bool epoch
| Register utext string string stamp
| Enable string bool epoch
| Remove_Worker string epoch
| Expire epoch
| Forget epoch

text \<open>What an act shows: the pieces it stored, and the job it handed to a worker.\<close>

type_synonym work_result = "worker_chunk list \<times> job_payload option"

definition put_db :: "world \<Rightarrow> relay_db \<Rightarrow> world" where
  "put_db w d = w\<lparr>w_db := d\<rparr>"

definition stored_call :: "world \<Rightarrow> worker_error + ('x \<times> relay_db) \<Rightarrow> work_result \<times> world" where
  "stored_call w r = (case r of Inl e \<Rightarrow> (([], None), w) | Inr (x, d) \<Rightarrow> (([], None), put_db w d))"

definition handed :: "world \<Rightarrow> worker_error + (job_payload option \<times> relay_db) \<Rightarrow> work_result \<times> world" where
  "handed w r = (case r of Inl e \<Rightarrow> (([], None), w) | Inr (p, d) \<Rightarrow> (([], p), put_db w d))"

definition ask :: "relay_config \<Rightarrow> string \<Rightarrow> utext \<Rightarrow> prompt_doc \<Rightarrow> utext option \<Rightarrow> int \<Rightarrow> string option \<Rightarrow> wire option \<Rightarrow> epoch \<Rightarrow> epoch \<Rightarrow> rat \<Rightarrow> rat
    \<Rightarrow> world \<Rightarrow> world" where
  "ask c i model prompt options priority account think now t0 first_token total_timeout w =
     (case start_relay c i model prompt options priority account think now t0 first_token total_timeout (w_db w) of
        Inr (Some r, d) \<Rightarrow> \<lparr>w_db = d, w_relays = w_relays w @ [r]\<rparr> | _ \<Rightarrow> w)"

definition run_relay :: "relay_config \<Rightarrow> string \<Rightarrow> relay_clock \<Rightarrow> world \<Rightarrow> world" where
  "run_relay c i k w =
     (case tbl_one (\<lambda>r. rl_job r = i) (w_relays w) of None \<Rightarrow> w
      | Some r \<Rightarrow> let (r1, d) = relay_step c k r (w_db w) in \<lparr>w_db = d, w_relays = tbl_update (\<lambda>x. rl_job x = i) (\<lambda>_. r1) (w_relays w)\<rparr>)"

definition leave :: "string \<Rightarrow> epoch \<Rightarrow> world \<Rightarrow> world" where
  "leave i now w = \<lparr>w_db = release_job i now (w_db w),
     w_relays = tbl_update (\<lambda>r. rl_job r = i \<and> (case rl_phase r of Over out \<Rightarrow> False | _ \<Rightarrow> True)) (goto (Over Reader_Cancelled)) (w_relays w)\<rparr>"

primrec work_do :: "unicode \<Rightarrow> relay_config \<Rightarrow> work_act \<Rightarrow> world \<Rightarrow> work_result \<times> world" where
  "work_do uc c (Ask i model prompt options priority account think now t0 first_token total_timeout) w =
     (([], None), ask c i model prompt options priority account think now t0 first_token total_timeout w)"
| "work_do uc c (Relay_Step i k) w = (([], None), run_relay c i k w)"
| "work_do uc c (Leave i now) w = (([], None), leave i now w)"
| "work_do uc c (Poll n ms reserve t now) w = handed w (poll_once n ms reserve t now (w_db w))"
| "work_do uc c (Claim n ms reserve now) w = handed w (claim_tx n ms reserve now (w_db w))"
| "work_do uc c (Send n i body now t) w =
     (case submit_chunk c n i body now t (w_db w) of Inl e \<Rightarrow> (([], None), w)
      | Inr (r, d) \<Rightarrow> ((appended (w_db w) d, None), put_db w d))"
| "work_do uc c (Complete n i body now t) w = stored_call w (complete_job c n i body now t (w_db w))"
| "work_do uc c (Report_Failure n i body now) w = stored_call w (fail_job uc n i body now (w_db w))"
| "work_do uc c (Beat n body ok now) w = stored_call w (worker_heartbeat n body ok now (w_db w))"
| "work_do uc c (Register name i token t) w = stored_call w (map_sum id (Pair ()) (try_then (valid_worker_name name) (\<lambda>n. insert_worker i n token t (w_db w))))"
| "work_do uc c (Enable i enable now) w = (([], None), put_db w (snd (set_enabled i enable now (w_db w))))"
| "work_do uc c (Remove_Worker i now) w = (([], None), put_db w (snd (delete_worker i now (w_db w))))"
| "work_do uc c (Expire now) w = (([], None), put_db w (snd (maintain_expire c now (w_db w))))"
| "work_do uc c (Forget now) w = (([], None), put_db w (snd (maintain_forget now (w_db w))))"

definition asked :: "work_act list \<Rightarrow> string list" where
  "asked acts = List.map_filter (\<lambda>l. case l of Ask i m p o1 n u th now t0 a b \<Rightarrow> Some i | _ \<Rightarrow> None) acts"

definition world_ok :: "relay_config \<Rightarrow> history \<Rightarrow> world \<Rightarrow> bool" where
  "world_ok c S w \<longleftrightarrow> pool_ok (w_db w) \<and> history_ok (rc_max_bytes c) S \<and> follows S (w_db w) \<and> (\<forall>r \<in> set (w_relays w). relay_ok S r \<and> fails_well r)"

lemma put_db_simps [simp]: "w_db (put_db w d) = d" "w_relays (put_db w d) = w_relays w"
  by (simp_all add: put_db_def)

text \<open>The acts other than a question are sequences of abstract steps with the pieces they show.\<close>

lemma stored_callD: "stored_call w r = (res, w1) \<Longrightarrow> (\<And>x d. r = Inr (x, d) \<Longrightarrow> calm (w_db w) d) \<Longrightarrow>
    res = ([], None) \<and> w_relays w1 = w_relays w \<and> calm (w_db w) (w_db w1)"
  by (auto simp: stored_call_def split: sum.splits)

lemma handedD: "handed w r = (res, w1) \<Longrightarrow> (\<And>x d. r = Inr (x, d) \<Longrightarrow> db_moves most (w_db w) [] d) \<Longrightarrow>
    fst res = [] \<and> w_relays w1 = w_relays w \<and> db_moves most (w_db w) [] (w_db w1)"
  by (auto simp: handed_def Stay split: sum.splits)

lemma complete_job_calm: "jobs_wf db \<Longrightarrow> complete_job c n i body now t db = Inr (x, d) \<Longrightarrow> calm db d"
  by (auto simp: complete_job_def try_then_def Let_def split: wire.splits sum.splits option.splits if_split_asm dest: complete_calm)

lemma fail_job_calm: "jobs_wf db \<Longrightarrow> fail_job uc n i body now db = Inr (x, d) \<Longrightarrow> calm db d"
  by (auto simp: fail_job_def Let_def split: wire.splits option.splits if_split_asm dest: fail_calm)

lemma try_then_Inr: "try_then a f = Inr y \<longleftrightarrow> (\<exists>x. a = Inr x \<and> f x = Inr y)"
  by (simp add: try_then_def split: sum.split)

lemma heartbeat_call_calm: "jobs_wf db \<Longrightarrow> worker_heartbeat n body ok now db = Inr (x, d) \<Longrightarrow> calm db d"
proof (cases body)
  case (W_Object b)
  assume wf: "jobs_wf db" and h: "worker_heartbeat n body ok now db = Inr (x, d)"
  from h W_Object obtain st activity gpu util ollama caps platform system job where
    "heartbeat_tx (wn_id n) st activity gpu util ollama caps platform system job now db = (x, d)"
    by (auto simp: worker_heartbeat_def Let_def try_then_Inr)
  with heartbeat_calm [OF wf] show ?thesis by (metis snd_conv)
qed (simp_all add: worker_heartbeat_def)

lemma register_calm: "map_sum id (Pair ()) (try_then (valid_worker_name name) (\<lambda>n. insert_worker i n token t db)) = Inr (x, d) \<Longrightarrow> calm db d"
  by (auto simp: map_sum_Inr try_then_Inr dest: admin_calm(3))

lemma send_moves:
  assumes "follows S db" "history_ok (rc_max_bytes c) S" "submit_chunk c n i body now t db = Inr (r, d)"
  shows "db_moves (rc_max_bytes c) db (appended db d) d"
proof -
  from assms(3) obtain p where "chunk_tx c (wn_id n) i p now t db = Inr (r, d)" by (auto simp: submit_chunk_def try_then_Inr)
  moreover have "\<forall>j \<in> set (wjobs db). wj_bytes j \<le> rc_max_bytes c" using assms(1,2) by (simp add: follows_def history_ok_def)
  ultimately show ?thesis by (rule chunk_moves)
qed

lemma run_relay_moves:
  assumes "world_ok c S w"
  shows "db_moves most (w_db w) [] (w_db (run_relay c i k w)) \<and> (\<forall>r \<in> set (w_relays (run_relay c i k w)). relay_ok S r \<and> fails_well r)"
proof (cases "tbl_one (\<lambda>r. rl_job r = i) (w_relays w)")
  case None
  then show ?thesis using assms by (simp add: run_relay_def world_ok_def Stay)
next
  case (Some r)
  then have r: "relay_ok S r" "fails_well r" using assms by (auto simp: world_ok_def dest: tbl_one_SomeD)
  have f: "follows S (w_db w)" using assms by (simp add: world_ok_def)
  obtain r1 d where s: "relay_step c k r (w_db w) = (r1, d)" by fastforce
  have "db_moves most (w_db w) [] d" using step_moves [OF r f, of most c k] s by simp
  moreover have "relay_ok S r1 \<and> fails_well r1" using step_ok [OF r(1) f, of c k] step_fails_well [OF r(2), of c k "w_db w"] s by simp
  ultimately show ?thesis using Some s assms by (auto simp: run_relay_def world_ok_def elim!: tbl_update_memE)
qed

lemma leave_moves:
  assumes "world_ok c S w"
  shows "db_moves most (w_db w) [] (w_db (leave i now w)) \<and> (\<forall>r \<in> set (w_relays (leave i now w)). relay_ok S r \<and> fails_well r)"
proof -
  have "relay_ok S (goto (Over Reader_Cancelled) r) \<and> fails_well (goto (Over Reader_Cancelled) r)" if "relay_ok S r" for r
    using that by (simp add: relay_ok_goto fails_well_def) (simp add: relay_ok_def)
  then show ?thesis using assms release_moves by (auto simp: leave_def world_ok_def elim!: tbl_update_memE)
qed

lemma work_moves:
  assumes ok: "world_ok c S w" and l: "asked [l] = []" and do: "work_do uc c l w = (res, w1)"
  shows "db_moves (rc_max_bytes c) (w_db w) (fst res) (w_db w1) \<and> (\<forall>r \<in> set (w_relays w1). relay_ok S r \<and> fails_well r)"
proof -
  let ?m = "rc_max_bytes c"
  have wf: "jobs_wf (w_db w)" and f: "follows S (w_db w)" "history_ok ?m S" and rs: "\<forall>r \<in> set (w_relays w). relay_ok S r \<and> fails_well r"
    using ok by (simp_all add: world_ok_def pool_ok_def)
  have called: ?thesis if "stored_call w r = (res, w1)" "\<And>x d. r = Inr (x, d) \<Longrightarrow> calm (w_db w) d" for r :: "worker_error + ('x \<times> relay_db)"
    using stored_callD [OF that] rs by (auto intro: calm_moves)
  have given: ?thesis if "handed w r = (res, w1)" "\<And>x d. r = Inr (x, d) \<Longrightarrow> db_moves ?m (w_db w) [] d" for r
    using handedD [OF that] rs by auto
  show ?thesis
  proof (cases l)
    case (Relay_Step i k)
    with do run_relay_moves [OF ok] show ?thesis by auto
  next
    case (Leave i now)
    with do leave_moves [OF ok] show ?thesis by auto
  next
    case (Poll n ms reserve t now)
    with do show ?thesis by (intro given [of "poll_once n ms reserve t now (w_db w)"]) (auto intro: poll_moves [OF wf])
  next
    case (Claim n ms reserve now)
    with do show ?thesis by (intro given [of "claim_tx n ms reserve now (w_db w)"]) (auto intro: claim_moves [OF wf])
  next
    case (Send n i body now t)
    with do show ?thesis using send_moves [OF f] rs by (auto simp: Stay split: sum.splits)
  next
    case (Complete n i body now t)
    with do show ?thesis by (intro called [of "complete_job c n i body now t (w_db w)"]) (auto intro: complete_job_calm [OF wf])
  next
    case (Report_Failure n i body now)
    with do show ?thesis by (intro called [of "fail_job uc n i body now (w_db w)"]) (auto intro: fail_job_calm [OF wf])
  next
    case (Beat n body b now)
    with do show ?thesis by (intro called [of "worker_heartbeat n body b now (w_db w)"]) (auto intro: heartbeat_call_calm [OF wf])
  next
    case (Register name i token t)
    with do show ?thesis
      by (intro called [of "map_sum id (Pair ()) (try_then (valid_worker_name name) (\<lambda>n. insert_worker i n token t (w_db w)))"]) (auto intro: register_calm)
  next
    case (Enable i e now)
    with do rs show ?thesis using calm_moves [OF admin_calm(1)] by auto
  next
    case (Remove_Worker i now)
    with do rs show ?thesis using calm_moves [OF admin_calm(2)] by auto
  next
    case (Expire now)
    with do rs show ?thesis using calm_moves [OF maintain_calm] by auto
  next
    case (Forget now)
    with do rs show ?thesis using forget_moves [OF wf] by auto
  qed (use l in \<open>simp add: asked_def List.map_filter_simps\<close>)
qed

lemma relay_init_ok: "S i = [] \<Longrightarrow> relay_ok S (relay_init c i deadline t0 f) \<and> fails_well (relay_init c i deadline t0 f)"
  by (simp add: relay_init_def relay_ok_def relayed_def fails_well_def shown_def)

lemma ask_ok:
  assumes ok: "world_ok c S w" and new: "i \<notin> known_jobs S (w_db w)"
  shows "world_ok c S (ask c i m p options n u th now t0 a b w) \<and>
    known_jobs S (w_db (ask c i m p options n u th now t0 a b w)) \<subseteq> insert i (known_jobs S (w_db w))"
proof (cases "too_large p options")
  case True
  with ok show ?thesis by (auto simp: ask_def start_relay_def)
next
  case False
  let ?j = "fresh_job i m p options n now u th"
  from new have i: "S i = []" "\<forall>k \<in> set (wjobs (w_db w)). wj_id k \<noteq> i" by (auto simp: known_jobs_def)
  then have "ask c i m p options n u th now t0 a b w = \<lparr>w_db = (w_db w)\<lparr>wjobs := wjobs (w_db w) @ [?j]\<rparr>, w_relays = w_relays w @ [relay_init c i (t0 + b) t0 a]\<rparr>"
    using False by (simp add: ask_def start_relay_def insert_job_def list_ex_iff)
  then show ?thesis using ok i added_pool [OF _ fresh_job_new(1)] added_follows [OF _ fresh_job_new(1)] relay_init_ok [of S i, OF i(1)]
    by (auto simp: world_ok_def known_jobs_def fresh_job_new)
qed

lemma work_step:
  assumes ok: "world_ok c S w" and new: "\<forall>i \<in> set (asked [l]). i \<notin> known_jobs S (w_db w)" and do: "work_do uc c l w = (res, w1)"
  shows "world_ok c (with_pieces (fst res) S) w1 \<and> known_jobs (with_pieces (fst res) S) (w_db w1) \<subseteq> set (asked [l]) \<union> known_jobs S (w_db w)"
proof (cases "asked [l] = []")
  case True
  note m = work_moves [OF ok True do]
  have "pool_ok (w_db w)" "history_ok (rc_max_bytes c) S" "follows S (w_db w)" using ok by (simp_all add: world_ok_def)
  from moves_follow [OF conjunct1 [OF m] this] m show ?thesis by (auto simp: world_ok_def relay_ok_with_pieces)
next
  case False
  then obtain i m p options n u th now t0 a b where l: "l = Ask i m p options n u th now t0 a b"
    by (cases l) (simp_all add: asked_def List.map_filter_simps)
  then have i: "asked [l] = [i]" by (simp add: asked_def List.map_filter_simps)
  with new do l ask_ok [OF ok, of i m p options n u th now t0 a b] show ?thesis by auto
qed

text \<open>The pieces shown by the acts of a run.\<close>

definition sent :: "(work_act \<times> work_result) list \<Rightarrow> worker_chunk list" where
  "sent rs = concat (map (\<lambda>x. fst (snd x)) rs)"

lemma asked_Cons: "asked (l # ls) = asked [l] @ asked ls"
  by (simp add: asked_def List.map_filter_simps split: option.split)

lemma work_run:
  "world_ok c S w \<Longrightarrow> distinct (asked acts) \<Longrightarrow> \<forall>i \<in> set (asked acts). i \<notin> known_jobs S (w_db w) \<Longrightarrow> run_acts (work_do uc c) acts w = (rs, v) \<Longrightarrow>
    world_ok c (with_pieces (sent rs) S) v"
proof (induction acts arbitrary: S w rs)
  case (Cons l acts)
  obtain res w1 where 1: "work_do uc c l w = (res, w1)" by fastforce
  obtain rs1 where 2: "run_acts (work_do uc c) acts w1 = (rs1, v)" "rs = (l, res) # rs1"
    using Cons.prems(4) 1 by (auto split: prod.splits)
  have a: "asked (l # acts) = asked [l] @ asked acts" by (rule asked_Cons)
  have s: "world_ok c (with_pieces (fst res) S) w1"
    "known_jobs (with_pieces (fst res) S) (w_db w1) \<subseteq> set (asked [l]) \<union> known_jobs S (w_db w)"
    using work_step [OF Cons.prems(1) _ 1] Cons.prems(3) a by auto
  have "distinct (asked acts)" "\<forall>i \<in> set (asked acts). i \<notin> known_jobs (with_pieces (fst res) S) (w_db w1)"
    using Cons.prems(2,3) s(2) a by auto
  from Cons.IH [OF s(1) this 2(1)] show ?case by (simp add: 2(2) sent_def with_pieces_append)
qed (simp add: sent_def)


section \<open>The properties\<close>

text \<open>A server that starts: no jobs, pieces or relays yet (the migrations of an update end every job).\<close>

definition work_start :: "world \<Rightarrow> bool" where
  "work_start w \<longleftrightarrow> wjobs (w_db w) = [] \<and> wchunks (w_db w) = [] \<and> w_relays w = []"

abbreviation no_history :: history where
  "no_history \<equiv> \<lambda>i. []"

definition sent_for :: "string \<Rightarrow> (work_act \<times> work_result) list \<Rightarrow> worker_chunk list" where
  "sent_for i rs = filter (\<lambda>c. wc_job c = i) (sent rs)"

lemma start_ok: "work_start w \<Longrightarrow> 0 \<le> rc_max_bytes c \<Longrightarrow> world_ok c no_history w"
  by (simp add: work_start_def world_ok_def pool_ok_def jobs_wf_def holds_def tbl_simps history_ok_def follows_def answer_bytes_def)

lemma run_ok:
  assumes "work_start w" "0 \<le> rc_max_bytes c" "distinct (asked acts)" "run_acts (work_do uc c) acts w = (rs, v)"
  shows "world_ok c (with_pieces (sent rs) no_history) v"
proof -
  have "\<forall>i \<in> set (asked acts). i \<notin> known_jobs no_history (w_db w)" using assms(1) by (simp add: known_jobs_def work_start_def)
  then show ?thesis by (rule work_run [OF start_ok [OF assms(1,2)] assms(3) _ assms(4)])
qed

lemma with_pieces_sent: "with_pieces (sent rs) no_history i = sent_for i rs"
  by (simp add: with_pieces_def sent_for_def)

text \<open>C5: What a reader gets is what the worker sent. Whatever workers, server processes, the maintenance job and
  administrators do, in any order, the pieces a relay has yielded are those the server accepted for its job, in
  order, with none missing or twice, up to some piece; and when the relay ends as an answer, it has yielded every
  piece accepted for the job, the last of which is marked as the end.\<close>

theorem answers_arrive:
  assumes start: "work_start w" "0 \<le> rc_max_bytes c" and ids: "distinct (asked acts)"
    and run: "run_acts (work_do uc c) acts w = (rs, v)" and r: "r \<in> set (w_relays v)"
  shows "(\<exists>n. rl_given r = shown (take n (sent_for (rl_job r) rs))) \<and>
    map wc_seq (sent_for (rl_job r) rs) = map int [0..<length (sent_for (rl_job r) rs)] \<and>
    (\<forall>reason tin tout. rl_phase r = Over (Answered reason tin tout) \<longrightarrow>
      rl_given r = shown (sent_for (rl_job r) rs) \<and> sent_for (rl_job r) rs \<noteq> [] \<and> wc_done (last (sent_for (rl_job r) rs)))"
proof -
  let ?S = "with_pieces (sent rs) no_history"
  have ok: "world_ok c ?S v" by (rule run_ok [OF start ids run])
  then have h: "history_ok (rc_max_bytes c) ?S" and r: "relay_ok ?S r" using r by (auto simp: world_ok_def)
  have "rl_given r = shown (take (nat (rl_last r + 1)) (sent_for (rl_job r) rs))"
    using r by (simp add: relay_ok_def relayed_def with_pieces_sent)
  moreover have "map wc_seq (sent_for (rl_job r) rs) = map int [0..<length (sent_for (rl_job r) rs)]"
    using h by (intro nth_equalityI) (simp_all add: history_ok_def with_pieces_sent)
  moreover have "rl_given r = shown (sent_for (rl_job r) rs) \<and> sent_for (rl_job r) rs \<noteq> [] \<and> wc_done (last (sent_for (rl_job r) rs))"
    if "rl_phase r = Over (Answered a b e)" for a b e
    using whole_answer [OF r h that] by (simp add: with_pieces_sent)
  ultimately show ?thesis by blast
qed

text \<open>C10: A worker holds one job at a time, and its usage is bounded. After any steps of all processes, no worker has
  two jobs at work, no two jobs share an id, a job at work has no stop requested, a job went back to the pool at
  most three times, and the answer stored for a job is at most as long as the site allows, with the tokens charged
  for it at most one for each byte accepted and sixteen more.\<close>

theorem worker_jobs_sound:
  assumes start: "work_start w" "0 \<le> rc_max_bytes c" and ids: "distinct (asked acts)"
    and run: "run_acts (work_do uc c) acts w = (rs, v)"
  shows "(\<forall>n. length (active_jobs_of n (w_db v)) \<le> 1) \<and> distinct (map wj_id (wjobs (w_db v))) \<and>
    (\<forall>j \<in> set (wjobs (w_db v)). (job_active j \<longrightarrow> \<not> wj_stop j) \<and> wj_requeues j \<le> MAX_REQUEUES \<and>
      wj_bytes j = answer_bytes (sent_for (wj_id j) rs) \<and> wj_bytes j \<le> rc_max_bytes c \<and> wj_out j \<le> answer_bytes (sent_for (wj_id j) rs) + 16)"
proof -
  have "world_ok c (with_pieces (sent rs) no_history) v" by (rule run_ok [OF start ids run])
  then have p: "pool_ok (w_db v)" and f: "follows (with_pieces (sent rs) no_history) (w_db v)" "history_ok (rc_max_bytes c) (with_pieces (sent rs) no_history)"
    by (simp_all add: world_ok_def)
  have "length (active_jobs_of n (w_db v)) \<le> 1" for n
    using p by (simp add: pool_ok_def holds_def tbl_count_def active_jobs_of_def)
  moreover have "(job_active j \<longrightarrow> \<not> wj_stop j) \<and> wj_requeues j \<le> MAX_REQUEUES \<and> wj_bytes j = answer_bytes (sent_for (wj_id j) rs) \<and>
      wj_bytes j \<le> rc_max_bytes c \<and> wj_out j \<le> answer_bytes (sent_for (wj_id j) rs) + 16" if "j \<in> set (wjobs (w_db v))" for j
  proof -
    have "row_ok j" "job_live j \<longrightarrow> \<not> wj_stop j" using p that by (simp_all add: pool_ok_def jobs_wf_def)
    moreover have "wj_bytes j = answer_bytes (sent_for (wj_id j) rs)" "answer_bytes (sent_for (wj_id j) rs) \<le> rc_max_bytes c"
      using f that by (simp_all add: follows_def history_ok_def with_pieces_sent)
    ultimately show ?thesis using active_live by (auto simp: row_ok_def ANSWER_TOKEN_ALLOWANCE_def)
  qed
  ultimately show ?thesis using p unfolding pool_ok_def jobs_wf_def by blast
qed

text \<open>An ended job stays as it ended.\<close>

definition same_end :: "worker_job \<Rightarrow> worker_job \<Rightarrow> bool" where
  "same_end j k \<longleftrightarrow> wj_status k = wj_status j \<and> wj_in k = wj_in j \<and> wj_out k = wj_out j \<and> wj_error k = wj_error j \<and>
     wj_finish k = wj_finish j \<and> wj_done k = wj_done j \<and> wj_account k = wj_account j"

lemma same_end_refl [simp]: "same_end j j"
  by (simp add: same_end_def)

lemma same_end_trans: "same_end a b \<Longrightarrow> same_end b c \<Longrightarrow> same_end a c"
  by (simp add: same_end_def)

lemma job_move_end: "job_move j k \<Longrightarrow> job_over j \<Longrightarrow> same_end j k"
  by (induction rule: job_move.induct) (auto simp: same_end_def job_states)

lemma job_moves_end: "job_moves j k \<Longrightarrow> job_over j \<Longrightarrow> same_end j k"
proof (induction rule: rtranclp_induct)
  case (step k l)
  then have "job_over k" by (simp add: same_end_def)
  with job_move_end step show ?case by (blast intro: same_end_trans)
qed simp

lemma row_end: "jobs_wf db \<Longrightarrow> j \<in> set (wjobs db) \<Longrightarrow> k \<in> set (wjobs db) \<Longrightarrow> wj_id k = wj_id j \<Longrightarrow> same_end j k"
  using row_of_id [of db j k] by simp

definition ends_kept :: "relay_db \<Rightarrow> relay_db \<Rightarrow> bool" where
  "ends_kept db d \<longleftrightarrow> (\<forall>j \<in> set (wjobs db). \<forall>k \<in> set (wjobs d). job_over j \<longrightarrow> wj_id k = wj_id j \<longrightarrow> same_end j k)"

lemma move_ends: "db_move most db l d \<Longrightarrow> pool_ok db \<Longrightarrow> ends_kept db d"
proof (induction rule: db_move.induct)
  case (Calm db d)
  then have wf: "jobs_wf db" by (simp add: pool_ok_def)
  show ?case unfolding ends_kept_def
  proof (intro ballI impI)
    fix j k assume a: "j \<in> set (wjobs db)" "k \<in> set (wjobs d)" "job_over j" "wj_id k = wj_id j"
    from Calm.hyps a(2) obtain h where "h \<in> set (wjobs db)" "job_moves h k" by (rule calm_rowE)
    with row_of_id [OF wf a(1)] a(4) job_moves_id [of h k] have "job_moves j k" by metis
    then show "same_end j k" using a(3) by (rule job_moves_end)
  qed
next
  case (Stored c db now)
  have wf: "jobs_wf db" using Stored by (simp add: pool_ok_def)
  from piece_job [OF wf Stored.hyps] obtain h where h: "job_active h" "\<And>k. k \<in> set (wjobs db) \<Longrightarrow> wj_id k = wc_job c \<Longrightarrow> k = h" by metis
  show ?case unfolding ends_kept_def
  proof (intro ballI impI)
    fix j k assume a: "j \<in> set (wjobs db)" "k \<in> set (wjobs (piece_stored c now db))" "job_over j" "wj_id k = wj_id j"
    have "wj_id j \<noteq> wc_job c" using h a(1,3) over_not_active by blast
    with a(2,4) have "k \<in> set (wjobs db)" by (auto simp: piece_jobs piece_row_def elim!: tbl_update_memE)
    with row_end [OF wf a(1)] a(4) show "same_end j k" by simp
  qed
next
  case (Claimed w db i now)
  then have wf: "jobs_wf db" by (simp add: pool_ok_def)
  have "same_end j k" if "j \<in> set (wjobs db)" "k \<in> set (wjobs (snd (set_claimed i w now db)))" "job_over j" "wj_id k = wj_id j" for j k
    using that(2) unfolding claimed_jobs
  proof (cases rule: tbl_update_memE)
    case (hit h)
    with row_of_id [OF wf that(1)] that(4) have "h = j" by (simp add: claimed_row_def)
    with hit that(3) show ?thesis by (simp add: TERMINAL_JOBS_def)
  next
    case miss
    with row_end [OF wf that(1)] that(4) show ?thesis by simp
  qed
  then show ?case by (simp add: ends_kept_def)
next
  case (Purged db t)
  then have "jobs_wf db" by (simp add: pool_ok_def)
  from row_end [OF this] show ?case by (auto simp: ends_kept_def delete_terminal_before_def Let_def)
next
  case (Dropped db p)
  then have "jobs_wf db" by (simp add: pool_ok_def)
  from row_end [OF this] show ?case by (auto simp: ends_kept_def)
qed

lemma move_ids: "db_move most db l d \<Longrightarrow> wj_id ` set (wjobs d) \<subseteq> wj_id ` set (wjobs db)"
  using move_known [of most db l d no_history] by (auto simp: known_jobs_def)

lemma moves_ids: "db_moves most db cs d \<Longrightarrow> wj_id ` set (wjobs d) \<subseteq> wj_id ` set (wjobs db)"
  by (induction rule: db_moves.induct) (use move_ids in blast)+

lemma ends_kept_trans:
  assumes "ends_kept a b" "ends_kept b c" "\<And>j k. j \<in> set (wjobs a) \<Longrightarrow> k \<in> set (wjobs c) \<Longrightarrow> wj_id k = wj_id j \<Longrightarrow> wj_id k \<in> wj_id ` set (wjobs b)"
  shows "ends_kept a c"
  unfolding ends_kept_def
proof (intro ballI impI)
  fix j k assume a: "j \<in> set (wjobs a)" "k \<in> set (wjobs c)" "job_over j" "wj_id k = wj_id j"
  then obtain h where h: "h \<in> set (wjobs b)" "wj_id h = wj_id j" using assms(3) by (metis imageE)
  with assms(1) a have "same_end j h" by (simp add: ends_kept_def)
  moreover from this a(3) have "job_over h" by (simp add: same_end_def)
  with assms(2) h a have "same_end h k" by (simp add: ends_kept_def)
  ultimately show "same_end j k" by (rule same_end_trans)
qed

lemma moves_ends: "db_moves most db cs d \<Longrightarrow> pool_ok db \<Longrightarrow> ends_kept db d"
proof (induction rule: db_moves.induct)
  case (Stay db)
  then have "jobs_wf db" by (simp add: pool_ok_def)
  from row_end [OF this] show ?case by (auto simp: ends_kept_def)
next
  case (Move db l d cs e)
  have "ends_kept db d" "ends_kept d e" using Move move_ends move_pool by blast+
  then show ?case by (rule ends_kept_trans) (use moves_ids [OF Move.hyps(2)] in blast)
qed

lemma ask_ends:
  assumes "pool_ok (w_db w)" "i \<notin> wj_id ` set (wjobs (w_db w))"
  shows "ends_kept (w_db w) (w_db (ask c i m p options n u th now t0 a b w))"
proof -
  have "jobs_wf (w_db w)" using assms(1) by (simp add: pool_ok_def)
  from row_end [OF this] assms(2) show ?thesis
    by (auto simp: ask_def start_relay_def insert_job_def ends_kept_def fresh_job_new split: option.splits)
qed

lemma ask_ids: "wj_id ` set (wjobs (w_db (ask c i m p options n u th now t0 a b w))) \<subseteq> insert i (wj_id ` set (wjobs (w_db w)))"
  by (auto simp: ask_def start_relay_def insert_job_def fresh_job_new split: option.splits)

lemma work_step_ends:
  assumes ok: "world_ok c S w" and new: "\<forall>i \<in> set (asked [l]). i \<notin> known_jobs S (w_db w)" and do: "work_do uc c l w = (res, w1)"
  shows "ends_kept (w_db w) (w_db w1) \<and> wj_id ` set (wjobs (w_db w1)) \<subseteq> set (asked [l]) \<union> wj_id ` set (wjobs (w_db w))"
proof (cases "asked [l] = []")
  case True
  have "db_moves (rc_max_bytes c) (w_db w) (fst res) (w_db w1)" using work_moves [OF ok True do] by blast
  moreover have "pool_ok (w_db w)" using ok by (simp add: world_ok_def)
  ultimately show ?thesis using True moves_ends moves_ids by (metis empty_set sup_bot_left)
next
  case False
  then obtain i m q options n u th now t0 x y where l: "l = Ask i m q options n u th now t0 x y"
    by (cases l) (simp_all add: asked_def List.map_filter_simps)
  have "i \<notin> wj_id ` set (wjobs (w_db w))" using new l by (auto simp: asked_def List.map_filter_simps known_jobs_def)
  moreover have "pool_ok (w_db w)" using ok by (simp add: world_ok_def)
  moreover have "asked [l] = [i]" using l by (simp add: asked_def List.map_filter_simps)
  ultimately show ?thesis using ask_ends [of w i c m q options n u th now t0 x y] ask_ids [of c i m q options n u th now t0 x y w] do l by simp
qed

lemma work_run_ends:
  "world_ok c S w \<Longrightarrow> distinct (asked acts) \<Longrightarrow> \<forall>i \<in> set (asked acts). i \<notin> known_jobs S (w_db w) \<Longrightarrow> run_acts (work_do uc c) acts w = (rs, v) \<Longrightarrow>
    ends_kept (w_db w) (w_db v) \<and> wj_id ` set (wjobs (w_db v)) \<subseteq> set (asked acts) \<union> wj_id ` set (wjobs (w_db w))"
proof (induction acts arbitrary: S w rs)
  case Nil
  then have "jobs_wf (w_db w)" by (simp add: world_ok_def pool_ok_def)
  from row_end [OF this] Nil(4) show ?case by (auto simp: ends_kept_def)
next
  case (Cons l acts)
  obtain res w1 where 1: "work_do uc c l w = (res, w1)" by fastforce
  obtain rs1 where 2: "run_acts (work_do uc c) acts w1 = (rs1, v)" using Cons.prems(4) 1 by (auto split: prod.splits)
  let ?S = "with_pieces (fst res) S"
  have a: "asked (l # acts) = asked [l] @ asked acts" by (rule asked_Cons)
  have new: "\<forall>i \<in> set (asked [l]). i \<notin> known_jobs S (w_db w)" using Cons.prems(3) a by simp
  note s = work_step [OF Cons.prems(1) new 1] and e = work_step_ends [OF Cons.prems(1) new 1]
  have "distinct (asked acts)" "\<forall>i \<in> set (asked acts). i \<notin> known_jobs ?S (w_db w1)" using Cons.prems(2,3) s a by auto
  from Cons.IH [OF conjunct1 [OF s] this 2]
  have r: "ends_kept (w_db w1) (w_db v)" "wj_id ` set (wjobs (w_db v)) \<subseteq> set (asked acts) \<union> wj_id ` set (wjobs (w_db w1))" by auto
  have "wj_id k \<in> wj_id ` set (wjobs (w_db w1))" if "j \<in> set (wjobs (w_db w))" "k \<in> set (wjobs (w_db v))" "wj_id k = wj_id j" for j k
  proof -
    have "wj_id k \<in> known_jobs S (w_db w)" using that(1,3) by (simp add: known_jobs_def)
    then have "wj_id k \<notin> set (asked acts)" using Cons.prems(3) a by auto
    with r(2) that(2) show ?thesis by blast
  qed
  with conjunct1 [OF e] r(1) have "ends_kept (w_db w) (w_db v)" by (rule ends_kept_trans)
  with r(2) e a show ?case by auto
qed

lemma asked_append: "asked (as @ bs) = asked as @ asked bs"
  by (simp add: asked_def List.map_filter_def)

lemma run_known:
  "world_ok c S w \<Longrightarrow> distinct (asked acts) \<Longrightarrow> \<forall>i \<in> set (asked acts). i \<notin> known_jobs S (w_db w) \<Longrightarrow> run_acts (work_do uc c) acts w = (rs, v) \<Longrightarrow>
    known_jobs (with_pieces (sent rs) S) (w_db v) \<subseteq> set (asked acts) \<union> known_jobs S (w_db w)"
proof (induction acts arbitrary: S w rs)
  case (Cons l acts)
  obtain res w1 where 1: "work_do uc c l w = (res, w1)" by fastforce
  obtain rs1 where 2: "run_acts (work_do uc c) acts w1 = (rs1, v)" "rs = (l, res) # rs1"
    using Cons.prems(4) 1 by (auto split: prod.splits)
  let ?S = "with_pieces (fst res) S"
  have a: "asked (l # acts) = asked [l] @ asked acts" by (rule asked_Cons)
  have new: "\<forall>i \<in> set (asked [l]). i \<notin> known_jobs S (w_db w)" using Cons.prems(3) a by simp
  note s = work_step [OF Cons.prems(1) new 1]
  have "distinct (asked acts)" "\<forall>i \<in> set (asked acts). i \<notin> known_jobs ?S (w_db w1)" using Cons.prems(2,3) s a by auto
  from Cons.IH [OF conjunct1 [OF s] this 2(1)] s show ?case unfolding 2(2) a by (auto simp: sent_def with_pieces_append)
qed (simp add: sent_def)

text \<open>C12: A prompt is forgotten when its job ends, and an ended job stays as it ended. After any steps of all processes
  no ended job holds its messages or options; and whatever happens later, a job that has ended keeps its outcome,
  its usage, its error and its time, until it is removed, and still holds no prompt.\<close>

theorem prompts_forgotten:
  assumes start: "work_start w" "0 \<le> rc_max_bytes c" and ids: "distinct (asked (acts @ later))"
    and run: "run_acts (work_do uc c) acts w = (rs, v)" and more: "run_acts (work_do uc c) later v = (qs, u)"
    and j: "j \<in> set (wjobs (w_db v))" "job_over j"
  shows "wj_messages j = no_prompt \<and> wj_options j = None \<and>
    (\<forall>k \<in> set (wjobs (w_db u)). wj_id k = wj_id j \<longrightarrow> same_end j k \<and> wj_messages k = no_prompt \<and> wj_options k = None)"
proof -
  let ?S = "with_pieces (sent rs) no_history"
  have d: "distinct (asked acts)" "distinct (asked later)" "set (asked acts) \<inter> set (asked later) = {}" using ids by (simp_all add: asked_append)
  have v: "world_ok c ?S v" by (rule run_ok [OF start d(1) run])
  have "known_jobs ?S (w_db v) \<subseteq> set (asked acts)"
    using run_known [OF start_ok [OF start] d(1) _ run] start(1) by (simp add: known_jobs_def work_start_def)
  then have fresh: "\<forall>i \<in> set (asked later). i \<notin> known_jobs ?S (w_db v)" using d(3) by blast
  have "ends_kept (w_db v) (w_db u)" using work_run_ends [OF v d(2) fresh more] by simp
  moreover have "world_ok c (with_pieces (sent qs) ?S) u" by (rule work_run [OF v d(2) fresh more])
  then have "\<forall>k \<in> set (wjobs (w_db u)). row_ok k" by (simp add: world_ok_def pool_ok_def)
  moreover have "row_ok j" using v j(1) by (simp add: world_ok_def pool_ok_def)
  ultimately show ?thesis using j by (auto simp: ends_kept_def row_ok_def same_end_def)
qed

subsection \<open>How often a prompt is handed out\<close>

definition job_left :: "worker_job \<Rightarrow> nat" where
  "job_left j = nat (MAX_REQUEUES - wj_requeues j) + of_bool (wj_status j = ''pending'')"

definition claims_left :: "string \<Rightarrow> relay_db \<Rightarrow> nat" where
  "claims_left i db = (case job_get i db of None \<Rightarrow> 0 | Some j \<Rightarrow> job_left j)"

lemma job_move_left: "job_move j k \<Longrightarrow> job_left k \<le> job_left j"
  by (induction rule: job_move.induct) (auto simp: job_left_def ended_row_def job_states)

lemma job_moves_left: "job_moves j k \<Longrightarrow> job_left k \<le> job_left j"
  by (induction rule: rtranclp_induct) (auto dest: job_move_left)

lemma claims_left_le:
  assumes "jobs_wf db" "\<And>k. k \<in> set (wjobs d) \<Longrightarrow> wj_id k = i \<Longrightarrow> \<exists>j \<in> set (wjobs db). wj_id j = i \<and> job_left k \<le> job_left j"
  shows "claims_left i d \<le> claims_left i db"
proof (cases "job_get i d")
  case (Some k)
  then have "k \<in> set (wjobs d)" "wj_id k = i" by (auto simp: job_get_def dest: tbl_one_SomeD)
  with assms(2) obtain j where j: "j \<in> set (wjobs db)" "wj_id j = i" "job_left k \<le> job_left j" by blast
  then have "job_get i db = Some j" using tbl_one_unique [of wj_id "wjobs db" j] assms(1) by (simp add: job_get_def jobs_wf_def)
  with Some j(3) show ?thesis by (simp add: claims_left_def)
qed (simp add: claims_left_def)

lemma move_left: "db_move most db l d \<Longrightarrow> pool_ok db \<Longrightarrow> claims_left i d \<le> claims_left i db"
proof (induction rule: db_move.induct)
  case (Calm db d)
  show ?case
  proof (rule claims_left_le)
    show "jobs_wf db" using Calm.prems by (simp add: pool_ok_def)
    fix k assume k: "k \<in> set (wjobs d)" "wj_id k = i"
    from Calm.hyps k(1) obtain j where "j \<in> set (wjobs db)" "job_moves j k" by (rule calm_rowE)
    with k(2) job_moves_left job_moves_id show "\<exists>j \<in> set (wjobs db). wj_id j = i \<and> job_left k \<le> job_left j" by metis
  qed
next
  case (Claimed w db n now)
  then show ?case
    by (intro claims_left_le) (auto simp: pool_ok_def claimed_jobs claimed_row_def job_left_def elim!: tbl_update_memE intro: bexI)
next
  case (Stored c db now)
  have wf: "jobs_wf db" using Stored by (simp add: pool_ok_def)
  show ?case
  proof (rule claims_left_le [OF wf])
    fix k assume k: "k \<in> set (wjobs (piece_stored c now db))" "wj_id k = i"
    then show "\<exists>j \<in> set (wjobs db). wj_id j = i \<and> job_left k \<le> job_left j" unfolding piece_jobs
    proof (cases rule: tbl_update_memE)
      case (hit h)
      with k(2) show ?thesis by (intro bexI [of _ h]) (simp_all add: piece_row_def job_left_def)
    qed (use k(2) in blast)
  qed
qed (intro claims_left_le; auto simp: pool_ok_def delete_terminal_before_def Let_def)+

lemma moves_left: "db_moves most db cs d \<Longrightarrow> pool_ok db \<Longrightarrow> claims_left i d \<le> claims_left i db"
proof (induction rule: db_moves.induct)
  case (Move db l d cs e)
  then show ?case using move_left [of most db l d i] move_pool by (metis order_trans)
qed simp

lemma claim_left:
  assumes ok: "pool_ok db" and c: "claim_tx w ms reserve now db = Inr (Some p, d)"
  shows "claims_left (py_job p) d < claims_left (py_job p) db"
proof -
  have wf: "jobs_wf db" using ok by (simp add: pool_ok_def)
  from wf c show ?thesis
  proof (cases rule: claim_cases)
    case (claim j)
    let ?a = "abandon (wn_id w) now db"
    have id: "py_job p = wj_id j" using claim(1) by (simp add: job_payload_def)
    have a: "pool_ok ?a" "claims_left (wj_id j) ?a \<le> claims_left (wj_id j) db"
      using calm_pool [OF claim(2) ok] move_left [OF Calm [OF claim(2)] ok] by auto
    have j: "j \<in> set (wjobs ?a)" "wj_status j = ''pending''" "\<not> wj_stop j"
      using min_row_SomeD(1) [OF claim(4) [unfolded next_pending_def]] by (auto simp: claimable_def)
    then have "job_get (wj_id j) ?a = Some j" using tbl_one_unique [of wj_id "wjobs ?a" j] a(1) by (simp add: job_get_def pool_ok_def jobs_wf_def)
    then have left: "claims_left (wj_id j) ?a = Suc (nat (MAX_REQUEUES - wj_requeues j))" using j(2) by (simp add: claims_left_def job_left_def)
    have row: "k = claimed_row (wn_id w) now j" if "k \<in> set (wjobs d)" "wj_id k = wj_id j" for k
      using that(1) unfolding claim(5) claimed_jobs
    proof (cases rule: tbl_update_memE)
      case (hit h)
      then show ?thesis using row_of_id [of ?a j h] a(1) j(1) by (simp add: pool_ok_def)
    next
      case miss
      then show ?thesis using row_of_id [of ?a j k] a(1) j that(2) by (simp add: pool_ok_def)
    qed
    have rows: "\<forall>k \<in> set (wjobs d). wj_id k = wj_id j \<longrightarrow> job_left k = nat (MAX_REQUEUES - wj_requeues j)"
    proof (intro ballI impI)
      fix k assume "k \<in> set (wjobs d)" "wj_id k = wj_id j"
      then have "k = claimed_row (wn_id w) now j" by (rule row)
      then show "job_left k = nat (MAX_REQUEUES - wj_requeues j)" by (simp add: job_left_def claimed_row_def)
    qed
    have "claims_left (wj_id j) d \<le> nat (MAX_REQUEUES - wj_requeues j)"
    proof (cases "job_get (wj_id j) d")
      case (Some k)
      then have "k \<in> set (wjobs d)" "wj_id k = wj_id j" by (auto simp: job_get_def dest: tbl_one_SomeD)
      with rows Some show ?thesis by (simp add: claims_left_def)
    qed (simp add: claims_left_def)
    with left a(2) id show ?thesis by simp
  qed simp
qed

definition hands_out :: "string \<Rightarrow> work_act \<times> work_result \<Rightarrow> bool" where
  "hands_out i x \<longleftrightarrow> (case snd (snd x) of None \<Rightarrow> False | Some p \<Rightarrow> py_job p = i)"

lemma poll_left:
  assumes ok: "pool_ok db" and c: "poll_once w ms reserve t now db = Inr (Some p, d)"
  shows "claims_left (py_job p) d < claims_left (py_job p) db"
proof -
  let ?t = "touch_node (wn_id w) t db"
  have "calm db ?t" by simp
  moreover from c have "claim_tx w (poll_models w ms) reserve now ?t = Inr (Some p, d)" by (auto simp: poll_once_def Let_def split: if_split_asm sum.splits)
  ultimately have "claims_left (py_job p) d < claims_left (py_job p) ?t" "claims_left (py_job p) ?t \<le> claims_left (py_job p) db"
    using claim_left calm_pool [OF _ ok] move_left [OF Calm _, OF _ ok] by blast+
  then show ?thesis by simp
qed

lemma handed_left:
  assumes "handed w r = (res, w1)" "hands_out i (l, res)" "\<And>p d. r = Inr (Some p, d) \<Longrightarrow> claims_left (py_job p) d < claims_left (py_job p) (w_db w)"
  shows "claims_left i (w_db w1) < claims_left i (w_db w)"
proof (cases r)
  case (Inl e)
  with assms(1,2) show ?thesis by (auto simp: handed_def hands_out_def)
next
  case (Inr x)
  then obtain q d where r: "r = Inr (q, d)" by (cases x) simp
  with assms(1) have res: "res = ([], q)" "w1 = put_db w d" by (simp_all add: handed_def)
  with assms(2) obtain p where "q = Some p" "py_job p = i" by (auto simp: hands_out_def split: option.splits)
  with assms(3) [of p d] r res(2) show ?thesis by simp
qed

lemma stored_hands [simp]: "stored_call w r = (res, w1) \<Longrightarrow> \<not> hands_out i (l, res)"
  by (auto simp: stored_call_def hands_out_def split: sum.splits)

lemma hands_left:
  assumes ok: "pool_ok (w_db w)" and do: "work_do uc c l w = (res, w1)" and h: "hands_out i (l, res)"
  shows "claims_left i (w_db w1) < claims_left i (w_db w)"
proof (cases l)
  case (Poll n ms reserve t now)
  with do have "handed w (poll_once n ms reserve t now (w_db w)) = (res, w1)" by simp
  then show ?thesis by (rule handed_left [OF _ h]) (rule poll_left [OF ok])
next
  case (Claim n ms reserve now)
  with do have "handed w (claim_tx n ms reserve now (w_db w)) = (res, w1)" by simp
  then show ?thesis by (rule handed_left [OF _ h]) (rule claim_left [OF ok])
next
  case (Send n j body now t)
  with do have "snd res = None" by (auto split: sum.splits)
  with h show ?thesis by (simp add: hands_out_def)
next
  case (Complete n j body now t)
  with do have "stored_call w (complete_job c n j body now t (w_db w)) = (res, w1)" by simp
  with h stored_hands show ?thesis by blast
next
  case (Report_Failure n j body now)
  with do have "stored_call w (fail_job uc n j body now (w_db w)) = (res, w1)" by simp
  with h stored_hands show ?thesis by blast
next
  case (Beat n body b now)
  with do have "stored_call w (worker_heartbeat n body b now (w_db w)) = (res, w1)" by simp
  with h stored_hands show ?thesis by blast
next
  case (Register name j token t)
  with do have "stored_call w (map_sum id (Pair ()) (try_then (valid_worker_name name) (\<lambda>n. insert_worker j n token t (w_db w)))) = (res, w1)" by simp
  with h stored_hands show ?thesis by blast
qed (use do h in \<open>auto simp: hands_out_def\<close>)

lemma distinct_count: "distinct xs \<Longrightarrow> count_list xs x \<le> 1"
  by (induction xs) (auto simp: count_list_0_iff)

lemma ask_left:
  assumes "k \<notin> known_jobs S (w_db w)"
  shows "claims_left i (w_db (ask c k m q options n u th now t0 x y w)) \<le> claims_left i (w_db w) + 4 * of_bool (i = k)"
proof (cases "too_large q options")
  case True
  then show ?thesis by (simp add: ask_def start_relay_def)
next
  case False
  let ?j = "fresh_job k m q options n now u th"
  have none: "\<forall>j \<in> set (wjobs (w_db w)). wj_id j \<noteq> k" using assms by (auto simp: known_jobs_def)
  with False have e: "w_db (ask c k m q options n u th now t0 x y w) = (w_db w)\<lparr>wjobs := wjobs (w_db w) @ [?j]\<rparr>"
    by (simp add: ask_def start_relay_def insert_job_def list_ex_iff)
  have "job_left ?j = 4" by (simp add: job_left_def fresh_job_def MAX_REQUEUES_def)
  moreover have "wj_id ?j = k" by (simp add: fresh_job_def)
  ultimately show ?thesis unfolding e
    by (cases "i = k") (simp_all add: claims_left_def job_get_def tbl_one_append tbl_simps split: option.split)
qed

lemma work_left:
  assumes ok: "world_ok c S w" and new: "\<forall>n \<in> set (asked [l]). n \<notin> known_jobs S (w_db w)" and do: "work_do uc c l w = (res, w1)"
  shows "of_bool (hands_out i (l, res)) + claims_left i (w_db w1) \<le> claims_left i (w_db w) + 4 * count_list (asked [l]) i"
proof (cases "asked [l] = []")
  case True
  have p: "pool_ok (w_db w)" using ok by (simp add: world_ok_def)
  have "claims_left i (w_db w1) \<le> claims_left i (w_db w)" using work_moves [OF ok True do] moves_left [OF _ p] by blast
  moreover have "claims_left i (w_db w1) < claims_left i (w_db w)" if h: "hands_out i (l, res)"
    using hands_left [OF p do h] .
  ultimately show ?thesis by (cases "hands_out i (l, res)") auto
next
  case False
  then obtain k m q options n u th now t0 x y where l: "l = Ask k m q options n u th now t0 x y"
    by (cases l) (simp_all add: asked_def List.map_filter_simps)
  then have a: "asked [l] = [k]" by (simp add: asked_def List.map_filter_simps)
  have "k \<notin> known_jobs S (w_db w)" using new a by simp
  then have "claims_left i (w_db w1) \<le> claims_left i (w_db w) + 4 * of_bool (i = k)"
    using ask_left [of k S w i c m q options n u th now t0 x y] do l by simp
  with do l a show ?thesis by (auto simp: hands_out_def)
qed

lemma run_left:
  "world_ok c S w \<Longrightarrow> distinct (asked acts) \<Longrightarrow> \<forall>n \<in> set (asked acts). n \<notin> known_jobs S (w_db w) \<Longrightarrow> run_acts (work_do uc c) acts w = (rs, v) \<Longrightarrow>
    length (filter (hands_out i) rs) + claims_left i (w_db v) \<le> claims_left i (w_db w) + 4 * count_list (asked acts) i"
proof (induction acts arbitrary: S w rs)
  case (Cons l acts)
  obtain res w1 where 1: "work_do uc c l w = (res, w1)" by fastforce
  obtain rs1 where 2: "run_acts (work_do uc c) acts w1 = (rs1, v)" "rs = (l, res) # rs1"
    using Cons.prems(4) 1 by (auto split: prod.splits)
  let ?S = "with_pieces (fst res) S"
  have a: "asked (l # acts) = asked [l] @ asked acts" by (rule asked_Cons)
  have new: "\<forall>n \<in> set (asked [l]). n \<notin> known_jobs S (w_db w)" using Cons.prems(3) a by simp
  note s = work_step [OF Cons.prems(1) new 1] and e = work_left [OF Cons.prems(1) new 1, of i]
  have "distinct (asked acts)" "\<forall>n \<in> set (asked acts). n \<notin> known_jobs ?S (w_db w1)" using Cons.prems(2,3) s a by auto
  from Cons.IH [OF conjunct1 [OF s] this 2(1)] e show ?case unfolding 2(2) a by (cases "hands_out i (l, res)") (auto simp: count_list_append)
qed simp

text \<open>C11: A prompt is handed to a worker at most four times. However often workers take a job, hand it back, vanish,
  restart or poll again, over the whole run of all processes the prompt of a job is sent in at most four replies.\<close>

theorem prompt_handed_four_times:
  assumes start: "work_start w" "0 \<le> rc_max_bytes c" and ids: "distinct (asked acts)"
    and run: "run_acts (work_do uc c) acts w = (rs, v)"
  shows "length (filter (hands_out i) rs) \<le> 4"
proof -
  have "\<forall>n \<in> set (asked acts). n \<notin> known_jobs no_history (w_db w)" using start(1) by (simp add: known_jobs_def work_start_def)
  from run_left [OF start_ok [OF start] ids this run, of i] have "length (filter (hands_out i) rs) \<le> 4 * count_list (asked acts) i"
    using start(1) by (simp add: claims_left_def job_get_def work_start_def tbl_simps)
  moreover have "count_list (asked acts) i \<le> 1" using ids by (rule distinct_count)
  ultimately show ?thesis by linarith
qed

subsection \<open>Which job a worker gets\<close>

lemma filter_one:
  "distinct (map f xs) \<Longrightarrow> j \<in> set xs \<Longrightarrow> filter (\<lambda>x. f x = f j) xs = [j]"
proof (induction xs)
  case (Cons x xs)
  then show ?case by (cases "f x = f j") (auto simp: filter_empty_conv dest: sym intro: rev_image_eqI)
qed simp

lemma claimed_active:
  assumes wf: "jobs_wf db" and free: "free_worker w db" and j: "j \<in> set (wjobs db)" "wj_status j = ''pending''" "\<not> wj_stop j"
  shows "active_jobs_of w (snd (set_claimed (wj_id j) w now db)) = [claimed_row w now j]"
proof -
  let ?f = "\<lambda>k. if wj_id k = wj_id j \<and> wj_status k = ''pending'' \<and> \<not> wj_stop k then claimed_row w now k else k"
  have "(wj_worker (?f k) = Some w \<and> job_active (?f k)) = (wj_id k = wj_id j)" if "k \<in> set (wjobs db)" for k
  proof (cases "wj_id k = wj_id j")
    case True
    then have "k = j" using row_of_id [OF wf j(1) that] by simp
    with j show ?thesis by (simp add: claimed_row_def job_states)
  next
    case False
    with free that show ?thesis by (auto simp: free_worker_def active_jobs_of_def filter_empty_conv)
  qed
  then have "filter ((\<lambda>k. wj_worker k = Some w \<and> job_active k) \<circ> ?f) (wjobs db) = filter (\<lambda>k. wj_id k = wj_id j) (wjobs db)"
    by (intro filter_cong) simp_all
  moreover have "filter (\<lambda>k. wj_id k = wj_id j) (wjobs db) = [j]" using wf j(1) by (intro filter_one) (simp_all add: jobs_wf_def)
  ultimately show ?thesis using j by (simp add: active_jobs_of_def claimed_jobs tbl_update_def filter_map)
qed


section \<open>Concrete runs\<close>

text \<open>A worker, a question, its answer in one piece, and the relay that reads it.\<close>

definition sample_uc :: unicode where
  "sample_uc = \<lparr>u_word = (\<lambda>c. False), u_decimal = (\<lambda>c. False), u_printable = (\<lambda>c. 32 \<le> c), u_lower = (\<lambda>c. [c])\<rparr>"

definition sample_config :: relay_config where
  "sample_config = \<lparr>rc_enabled = True, rc_read_timeout = 60, rc_first_token = 60, rc_generation = 600, rc_claim = 20,
     rc_max_bytes = 1000, rc_started = 0\<rparr>"

definition sample_worker :: worker_node where
  "sample_worker = \<lparr>wn_id = ''w'', wn_name = [119], wn_token = ''t'', wn_platform = None, wn_gpu = None, wn_util = None,
     wn_ollama = None, wn_caps = None, wn_activity = None, wn_status = ''online'', wn_beat = Some 0, wn_registered = 0, wn_strikes = 0,
     wn_cooldown = None, wn_system = None\<rparr>"

definition sample_start :: world where
  "sample_start = \<lparr>w_db = \<lparr>nodes = [sample_worker], wjobs = [], wchunks = []\<rparr>, w_relays = []\<rparr>"

definition sample_prompt :: prompt_doc where
  "sample_prompt = \<lparr>pd_text = [91, 93], pd_messages = [([104, 105], 0)]\<rparr>"

definition sample_tick :: relay_clock where
  "sample_tick = \<lparr>k_cancelled = False, k_tick = 2, k_tick2 = 2, k_now = 2\<rparr>"

definition sample_acts :: "work_act list" where
  "sample_acts = [Ask ''j'' [109] sample_prompt None 0 None None 1 1 30 600,
     Claim sample_worker None (\<lambda>n. True) 1,
     Send sample_worker ''j'' (W_Object [(''seq'', W_Int 0), (''content'', W_Text [121, 101, 115]), (''done'', W_Bool True)]) 2 2,
     Complete sample_worker ''j'' (W_Object [(''tokens_out'', W_Int 3)]) 2 2]
     @ replicate 4 (Relay_Step ''j'' sample_tick)"


text \<open>The tables of the run, and its job as it goes on.\<close>

definition sample_db :: "worker_job \<Rightarrow> worker_chunk list \<Rightarrow> relay_db" where
  "sample_db j cs = \<lparr>nodes = [sample_worker], wjobs = [j], wchunks = cs\<rparr>"

definition sample_job :: "string \<Rightarrow> string option \<Rightarrow> epoch option \<Rightarrow> epoch \<Rightarrow> int \<Rightarrow> worker_job" where
  "sample_job st w claimed beat n = \<lparr>wj_id = ''j'', wj_worker = w, wj_model = [109], wj_messages = sample_prompt, wj_options = None,
      wj_status = st, wj_priority = 0, wj_stop = False, wj_created = 1, wj_claimed = claimed, wj_done = None,
      wj_beat = Some beat, wj_in = 0, wj_out = 0, wj_error = None, wj_bytes = 3 * n, wj_next = n, wj_finish = ''stop'', wj_requeues = 0,
      wj_deferred = None, wj_account = None, wj_fault = None, wj_think = None\<rparr>"

definition sample_piece :: worker_chunk where
  "sample_piece = \<lparr>wc_job = ''j'', wc_seq = 0, wc_text = [121, 101, 115], wc_done = True, wc_created = 2, wc_thinking = []\<rparr>"

definition sample_done :: worker_job where
  "sample_done = (sample_job ''done'' (Some ''w'') (Some 1) 2 1)\<lparr>wj_messages := no_prompt, wj_done := Some 2, wj_out := 3\<rparr>"

lemmas sample_table = sample_db_def sample_job_def sample_worker_def tbl_simps tbl_update_def tbl_count_def job_states
  node_get_def job_get_def update_jobs_def chunk_at_def Let_def

lemma sample_ask: "ask sample_config ''j'' [109] sample_prompt None 0 None None 1 1 30 600 sample_start =
  \<lparr>w_db = sample_db (sample_job ''pending'' None None 1 0) [], w_relays = [relay_init sample_config ''j'' 601 1 30]\<rparr>"
  by (simp add: ask_def start_relay_def insert_job_def sample_start_def sample_table fresh_job_def too_large_def sample_prompt_def
      text_bytes_def utf8_size_def MAX_JOB_BYTES_def)

lemma sample_abandon: "abandon ''w'' 1 (sample_db (sample_job ''pending'' None None 1 0) []) = sample_db (sample_job ''pending'' None None 1 0) []"
  by (simp add: abandon_def active_jobs_of_def sample_table)

lemma sample_claim: "claim_tx sample_worker None (\<lambda>n. True) 1 (sample_db (sample_job ''pending'' None None 1 0) []) =
    Inr (Some (job_payload (sample_job ''pending'' None None 1 0)), sample_db (sample_job ''claimed'' (Some ''w'') (Some 1) 1 0) [])"
  using sample_abandon by (simp add: claim_tx_def paused_def next_pending_def claimable_def failed_there_def min_row_def set_claimed_def sample_table)

lemma sample_send: "submit_chunk sample_config sample_worker ''j'' (W_Object [(''seq'', W_Int 0), (''content'', W_Text [121, 101, 115]), (''done'', W_Bool True)]) 2 2
    (sample_db (sample_job ''claimed'' (Some ''w'') (Some 1) 1 0) []) =
    Inr ((True, False), sample_db (sample_job ''streaming'' (Some ''w'') (Some 1) 2 1) [sample_piece])"
proof -
  have "parse_piece (W_Object [(''seq'', W_Int 0), (''content'', W_Text [121, 101, 115]), (''done'', W_Bool True)]) =
    Inr \<lparr>pc_seq = 0, pc_text = [121, 101, 115], pc_done = True, pc_thinking = []\<rparr>"
    by (simp add: parse_piece_def field_or_def MAX_CHUNK_SEQ_def MAX_CHUNK_BYTES_def text_bytes_def utf8_size_def surrogate_def)
  then show ?thesis by (simp add: submit_chunk_def try_then_def chunk_tx_def load_owned_def job_owned_def lease_expired_def last_seen_def lease_seconds_def
      sample_config_def store_piece_def bytes_of_def text_bytes_def utf8_size_def insert_chunk_def advance_def sample_piece_def sample_table)
qed

lemma sample_complete: "complete_job sample_config sample_worker ''j'' (W_Object [(''tokens_out'', W_Int 3)]) 2 2
    (sample_db (sample_job ''streaming'' (Some ''w'') (Some 1) 2 1) [sample_piece]) = Inr ((True, False), sample_db sample_done [sample_piece])"
proof -
  have "min 0 (prompt_token_cap sample_prompt) = 0" using cap_nonneg by (simp add: min_def)
  then show ?thesis by (simp add: complete_job_def try_then_def field_or_def reported_count_def ascii_def complete_tx_def load_owned_def job_owned_def
      lease_expired_def last_seen_def lease_seconds_def sample_config_def finish_job_def ended_row_def clear_pause_def ANSWER_TOKEN_ALLOWANCE_def
      sample_done_def sample_piece_def sample_table)
qed

definition sample_end :: relay where
  "sample_end = (relay_init sample_config ''j'' 601 1 30)\<lparr>rl_phase := Over (Answered ''stop'' None (Some 3)), rl_last := 0, rl_terminal := True,
     rl_produced := True, rl_given := [([121, 101, 115], [])]\<rparr>"

lemma sample_relay:
  assumes "r = relay_init sample_config ''j'' 601 1 30" "d = sample_db sample_done [sample_piece]"
  shows "relay_step sample_config sample_tick r d = (goto Reading r, d)"
    "relay_step sample_config sample_tick (goto Reading r) d = (goto (Pieces [sample_piece]) r, d)"
    "relay_step sample_config sample_tick (goto (Pieces [sample_piece]) r) d =
       (sample_end\<lparr>rl_phase := Judging True\<rparr>, d)"
    "relay_step sample_config sample_tick (sample_end\<lparr>rl_phase := Judging True\<rparr>) d = (sample_end, d)"
  using assms
  by (simp_all add: relay_step_def head_step_def pieces_step_def judge_def relay_init_def goto_def sample_tick_def sample_config_def chunks_after_def
      sample_piece_def sample_end_def sample_done_def no_prompt_def not_zero_def sample_table lease_expired_def last_seen_def lease_seconds_def)

lemma sample_step:
  "relay_step sample_config sample_tick r d = (r1, d) \<Longrightarrow> rl_job r = ''j'' \<Longrightarrow>
   run_relay sample_config ''j'' sample_tick \<lparr>w_db = d, w_relays = [r]\<rparr> = \<lparr>w_db = d, w_relays = [r1]\<rparr>"
  by (simp add: run_relay_def tbl_simps tbl_update_def)

definition sample_shown :: "(work_act \<times> work_result) list" where
  "sample_shown = zip sample_acts ([([], None), ([], Some (job_payload (sample_job ''pending'' None None 1 0))), ([sample_piece], None)] @ replicate 5 ([], None))"

lemma sample_run: "run_acts (work_do sample_uc sample_config) sample_acts sample_start =
   (sample_shown, \<lparr>w_db = sample_db sample_done [sample_piece], w_relays = [sample_end]\<rparr>)"
proof -
  let ?r = "relay_init sample_config ''j'' 601 1 30" and ?d = "sample_db sample_done [sample_piece]"
  note s = sample_relay [OF refl refl]
  have j: "rl_job ?r = ''j''" "rl_job sample_end = ''j''" by (simp_all add: relay_init_def sample_end_def)
  have "appended (sample_db (sample_job ''claimed'' (Some ''w'') (Some 1) 1 0) []) (sample_db (sample_job ''streaming'' (Some ''w'') (Some 1) 2 1) [sample_piece])
      = [sample_piece]"
    by (simp add: appended_def sample_db_def)
  moreover have "replicate 4 (Relay_Step ''j'' sample_tick) = [Relay_Step ''j'' sample_tick, Relay_Step ''j'' sample_tick, Relay_Step ''j'' sample_tick, Relay_Step ''j'' sample_tick]"
    "replicate 5 ([] :: worker_chunk list, None :: job_payload option) = [([], None), ([], None), ([], None), ([], None), ([], None)]"
    by (simp_all add: eval_nat_numeral)
  ultimately show ?thesis
    by (simp add: sample_acts_def sample_shown_def sample_ask handed_def sample_claim put_db_def sample_send stored_call_def sample_complete
      sample_step [OF s(1)] sample_step [OF s(2)] sample_step [OF s(3)] sample_step [OF s(4)] j)
qed

lemma sample_fits: "work_start sample_start" "0 \<le> rc_max_bytes sample_config" "distinct (asked sample_acts)" "asked sample_acts = [''j'']"
  by (simp_all add: work_start_def sample_start_def sample_config_def sample_acts_def asked_def List.map_filter_simps eval_nat_numeral)

lemma sample_sent: "sent_for ''j'' sample_shown = [sample_piece]"
  by (simp add: sent_for_def sent_def sample_shown_def sample_acts_def sample_piece_def eval_nat_numeral)

theorem answers_arrive_witness:
  "rl_phase sample_end = Over (Answered ''stop'' None (Some 3)) \<and> rl_given sample_end = shown (sent_for ''j'' sample_shown) \<and>
   wc_done (last (sent_for ''j'' sample_shown))"
  using answers_arrive [OF sample_fits(1-3) sample_run, of sample_end] by (simp add: sample_end_def relay_init_def)

theorem worker_jobs_sound_witness: "wj_out sample_done \<le> answer_bytes (sent_for ''j'' sample_shown) + 16"
  using worker_jobs_sound [OF sample_fits(1-3) sample_run] by (simp add: sample_done_def sample_db_def sample_job_def)

theorem prompts_forgotten_witness: "wj_messages sample_done = no_prompt"
  using prompts_forgotten [OF sample_fits(1,2) _ sample_run, of "[]" "[]" _ sample_done] sample_fits(4)
  by (simp add: sample_done_def sample_db_def sample_job_def job_states)

theorem prompt_handed_four_times_witness: "length (filter (hands_out ''j'') sample_shown) \<le> 4 \<and> hands_out ''j'' (sample_shown ! 1)"
  using prompt_handed_four_times [OF sample_fits(1-3) sample_run, of "''j''"]
  by (simp add: sample_shown_def sample_acts_def hands_out_def job_payload_def sample_job_def eval_nat_numeral)


end
